(* ===== verification/Prelude.thy ===== *)
theory Prelude
  imports Main "HOL-Library.Word" "HOL-Library.Monad_Syntax"
begin

text \<open>
  Shared vocabulary of the development: the machine integers of the modelled C code, the
  collections the component proofs use, and generic facts on words, bytes and lists.
  The modelled build is the one the Pods project configures for iOS (64-bit, little endian):
  \<open>size_t\<close> has 64 bits, \<open>pb_size_t\<close> is \<open>uint32_t\<close> (\<open>PB_FIELD_32BIT=1\<close>) and
  \<open>uint_fast8_t\<close> has 8 bits.
\<close>

unbundle bit_operations_syntax

type_synonym u8 = "8 word"
type_synonym u32 = "32 word"
type_synonym u64 = "64 word"

text \<open>\<open>pb_consts\<close>: the numeric constants of pb.h; \<open>stream_simps\<close>: how the stream
  primitives act on the fields of a stream; \<open>mem_simps\<close>: loads over stores.\<close>

named_theorems pb_consts
named_theorems stream_simps
named_theorems mem_simps

text \<open>\<open>size_t\<close> values are kept as natural numbers, with the wrap-around written out
  where the code adds them without a guard.\<close>

definition size_add :: "nat \<Rightarrow> nat \<Rightarrow> nat" where
  "size_add a b = (a + b) mod 2 ^ 64"

lemma size_add_small [simp]: "a + b < 2 ^ 64 \<Longrightarrow> size_add a b = a + b"
  by (simp add: size_add_def)

lemma size_add_0 [simp]: "a < 2 ^ 64 \<Longrightarrow> size_add a 0 = a"
  by (simp add: size_add_def)

lemma size_add_assoc: "size_add (size_add a b) c = size_add a (b + c)"
  by (simp add: size_add_def mod_add_left_eq add.assoc)

subsection \<open>Words and bytes\<close>

text \<open>A value as \<open>n\<close> bytes, least significant first, and back.\<close>

definition le_bytes :: "nat \<Rightarrow> 'a::len word \<Rightarrow> u8 list" where
  "le_bytes n v = map (\<lambda>i. ucast (drop_bit (8 * i) v)) [0..<n]"

primrec le_word :: "u8 list \<Rightarrow> 'a::len word" where
  "le_word [] = 0"
| "le_word (b # bs) = ucast b OR push_bit 8 (le_word bs)"

lemma length_le_bytes [simp]: "length (le_bytes n v) = n"
  by (simp add: le_bytes_def)

lemma le_bytes_Suc: "le_bytes (Suc n) v = ucast v # le_bytes n (drop_bit 8 v)"
  by (simp add: le_bytes_def upt_conv_Cons map_Suc_upt [symmetric] del: upt_Suc)
    (simp add: map_Suc_upt [symmetric] add.commute)

lemma le_bytes_0 [simp]: "le_bytes 0 v = []"
  by (simp add: le_bytes_def)

lemma le_word_le_bytes: "le_word (le_bytes n v) = take_bit (8 * n) (v :: 'a::len word)"
proof (induction n arbitrary: v)
  case 0
  then show ?case by simp
next
  case (Suc n)
  show ?case
    by (rule bit_word_eqI)
      (auto simp: le_bytes_Suc Suc.IH bit_simps not_less intro!: arg_cong [where f = "bit v"])
qed

lemma le_word_le_bytes_full:
  "LENGTH('a) \<le> 8 * n \<Longrightarrow> le_word (le_bytes n v) = (v :: 'a::len word)"
  by (simp add: le_word_le_bytes take_bit_word_eq_self)

lemma bit_le_word_ge: "8 * length bs \<le> k \<Longrightarrow> \<not> bit (le_word bs :: 'a::len word) k"
  by (induction bs arbitrary: k) (auto simp: bit_simps dest: bit_imp_le_length)

lemma le_bytes_le_word: "8 * length bs \<le> LENGTH('a) \<Longrightarrow> le_bytes (length bs) (le_word bs :: 'a::len word) = bs"
proof (induction bs)
  case (Cons b bs)
  have "drop_bit 8 (ucast b OR push_bit 8 (le_word bs) :: 'a word) = le_word bs"
    using Cons.prems
    by (intro bit_word_eqI) (auto simp: bit_simps bit_le_word_ge dest: bit_imp_le_length)
  moreover have "ucast (ucast b OR push_bit 8 (le_word bs) :: 'a word) = b"
    using Cons.prems by (intro bit_word_eqI) (auto simp: bit_simps dest: bit_imp_le_length)
  ultimately show ?case using Cons by (simp add: le_bytes_Suc)
qed simp

lemma unat_u32_less: "unat (w :: u32) < 2 ^ 32"
proof -
  have "unat w < 2 ^ LENGTH(32)" by (rule unsigned_less)
  then show ?thesis by simp
qed

lemma unat_u64_less: "unat (w :: u64) < 2 ^ 64"
proof -
  have "unat w < 2 ^ LENGTH(64)" by (rule unsigned_less)
  then show ?thesis by simp
qed

lemma unat_ucast_32_64 [simp]: "unat (ucast (w :: u32) :: u64) = unat w"
  using unat_u32_less [of w] by (simp add: unsigned_ucast_eq take_bit_nat_eq_self)

subsection \<open>Seven-bit groups\<close>

lemma unat_drop_bit_7_less: "v \<noteq> 0 \<Longrightarrow> unat (drop_bit 7 v) < unat (v :: u64)"
  by (simp add: drop_bit_eq_div unat_div unat_gt_0)

lemma and_7F: "v AND 0x7F = take_bit 7 (v :: 'a::len word)"
  by (simp add: take_bit_eq_mask mask_eq_exp_minus_1)

lemma bit_80_u8: "bit (0x80 :: u8) n \<longleftrightarrow> n = 7"
proof -
  have "(0x80 :: u8) = 2 ^ 7" by simp
  then show ?thesis by (simp only: bit_exp_iff possible_bit_word) auto
qed

lemma and_80_u8: "b AND 0x80 \<noteq> 0 \<longleftrightarrow> bit (b::u8) 7"
proof -
  have "b AND 0x80 = b AND push_bit 7 1" by simp
  also have "\<dots> \<noteq> 0 \<longleftrightarrow> bit b 7"
    by (metis bit_iff_and_push_bit_not_eq_0)
  finally show ?thesis .
qed

lemma le_7F_iff: "v \<le> 0x7F \<longleftrightarrow> drop_bit 7 (v :: u64) = 0"
proof -
  have "v \<le> 0x7F \<longleftrightarrow> unat v < 128" by (auto simp add: word_le_nat_alt)
  also have "\<dots> \<longleftrightarrow> unat (drop_bit 7 v) = 0"
    by (simp add: drop_bit_eq_div unat_div div_eq_0_iff)
  finally show ?thesis by (simp add: unat_eq_zero)
qed

lemma le_7F_bit:
  assumes "v \<le> 0x7F" "bit (v :: u64) n"
  shows "n < 7"
proof (rule ccontr)
  assume "\<not> n < 7"
  then have "bit (drop_bit 7 v) (n - 7)" using assms(2) by (simp add: bit_simps)
  then show False using assms(1) by (simp add: le_7F_iff)
qed

lemma bit_group: "bit (ucast (take_bit 7 v) OR 0x80 :: u8) n = (n < 7 \<and> bit (v::u64) n \<or> n = 7)"
  unfolding bit_or_iff bit_80_u8 by (auto simp: bit_simps)

lemma cont_byte:
  "(ucast (v AND 0x7F) OR 0x80 :: u8) AND 0x80 \<noteq> 0"
  "ucast ((ucast (v AND 0x7F) OR 0x80 :: u8) AND 0x7F) = take_bit 7 v" for v :: u64
proof -
  show "(ucast (v AND 0x7F) OR 0x80 :: u8) AND 0x80 \<noteq> 0"
    unfolding and_80_u8 and_7F bit_group by simp
  show "ucast ((ucast (v AND 0x7F) OR 0x80 :: u8) AND 0x7F) = take_bit 7 v"
    unfolding and_7F
    by (rule bit_word_eqI) (auto simp: bit_ucast_iff bit_take_bit_iff bit_group bit_simps)
qed

lemma last_byte:
  assumes "v \<le> 0x7F"
  shows "(ucast v :: u8) AND 0x80 = 0" "ucast ((ucast v :: u8) AND 0x7F) = (v :: u64)"
proof -
  show "(ucast v :: u8) AND 0x80 = 0"
    using and_80_u8 [of "ucast v"] le_7F_bit [OF assms, of 7] by (auto simp: bit_simps)
  show "ucast ((ucast v :: u8) AND 0x7F) = (v :: u64)"
    unfolding and_7F
    by (rule bit_word_eqI) (use le_7F_bit [OF assms] in \<open>force simp: bit_simps\<close>)
qed

lemma le_7F_take: "v \<le> 0x7F \<Longrightarrow> take_bit 7 v = (v :: u64)"
  by (auto simp: bit_simps intro!: bit_word_eqI dest: le_7F_bit)

end
