(* ===== verification/CMemory.thy ===== *)
theory CMemory
  imports Prelude
begin

text \<open>
  The byte-addressed memory the C code works on: message structs, their heap-allocated parts
  and the few locals whose address is taken. Addresses are natural numbers, \<open>0\<close> is \<open>NULL\<close>,
  multi-byte objects are stored least significant byte first (arm64), a \<open>bool\<close> is one byte
  and a pointer eight. The loads and stores are total; that an operation only touches the
  objects it may touch is proved, as \<open>agree_outside\<close> facts, in the component theories.
\<close>

type_synonym mem = "nat \<Rightarrow> u8"

definition mem_read :: "nat \<Rightarrow> nat \<Rightarrow> mem \<Rightarrow> u8 list" where
  "mem_read a n m = map (\<lambda>i. m (a + i)) [0..<n]"

definition mem_write :: "nat \<Rightarrow> u8 list \<Rightarrow> mem \<Rightarrow> mem" where
  "mem_write a bs m = (\<lambda>x. if a \<le> x \<and> x < a + length bs then bs ! (x - a) else m x)"

definition load :: "nat \<Rightarrow> nat \<Rightarrow> mem \<Rightarrow> 'a::len word" where
  "load n a m = le_word (mem_read a n m)"

definition store :: "nat \<Rightarrow> nat \<Rightarrow> 'a::len word \<Rightarrow> mem \<Rightarrow> mem" where
  "store n a v m = mem_write a (le_bytes n v) m"

abbreviation load8 :: "nat \<Rightarrow> mem \<Rightarrow> u8" where "load8 \<equiv> load 1"
abbreviation load16 :: "nat \<Rightarrow> mem \<Rightarrow> 16 word" where "load16 \<equiv> load 2"
abbreviation load32 :: "nat \<Rightarrow> mem \<Rightarrow> u32" where "load32 \<equiv> load 4"
abbreviation load64 :: "nat \<Rightarrow> mem \<Rightarrow> u64" where "load64 \<equiv> load 8"

definition load_ptr :: "nat \<Rightarrow> mem \<Rightarrow> nat" where
  "load_ptr a m = unat (load64 a m)"

definition store_ptr :: "nat \<Rightarrow> nat \<Rightarrow> mem \<Rightarrow> mem" where
  "store_ptr a p m = store 8 a (of_nat p :: u64) m"

definition load_bool :: "nat \<Rightarrow> mem \<Rightarrow> bool" where
  "load_bool a m \<longleftrightarrow> m a \<noteq> 0"

definition store_bool :: "nat \<Rightarrow> bool \<Rightarrow> mem \<Rightarrow> mem" where
  "store_bool a b m = mem_write a [if b then 1 else 0] m"

definition memset0 :: "nat \<Rightarrow> nat \<Rightarrow> mem \<Rightarrow> mem" where
  "memset0 a n m = mem_write a (replicate n 0) m"

definition memcpy :: "nat \<Rightarrow> nat \<Rightarrow> nat \<Rightarrow> mem \<Rightarrow> mem" where
  "memcpy d s n m = mem_write d (mem_read s n m) m"

text \<open>The state of a C computation: the memory, the address of the next free stack slot for
  locals whose address is taken, and whatever the allocator keeps.\<close>

record 'h cstate =
  mem :: mem
  sp :: nat
  heap :: 'h

subsection \<open>Loads over stores\<close>

lemma length_mem_read [simp]: "length (mem_read a n m) = n"
  by (simp add: mem_read_def)

lemma mem_write_Nil [simp]: "mem_write a [] m = m"
  by (rule ext) (auto simp: mem_write_def)

lemma mem_read_0 [simp]: "mem_read a 0 m = []"
  by (simp add: mem_read_def)

lemma mem_read_Suc: "mem_read a (Suc n) m = m a # mem_read (Suc a) n m"
  by (simp add: mem_read_def upt_conv_Cons map_Suc_upt [symmetric] o_def del: upt_Suc)

lemma mem_read_append: "mem_read a (n + k) m = mem_read a n m @ mem_read (a + n) k m"
  by (induction n arbitrary: a) (simp_all add: mem_read_Suc)

lemma mem_read_write_same [mem_simps]:
  "n = length bs \<Longrightarrow> mem_read a n (mem_write a bs m) = bs"
  by (auto simp: mem_read_def mem_write_def intro!: nth_equalityI)

lemma mem_write_outside:
  "x < a \<or> a + length bs \<le> x \<Longrightarrow> mem_write a bs m x = m x"
  by (auto simp: mem_write_def)

lemma mem_read_write_disjoint [mem_simps]:
  "a' + n \<le> a \<or> a + length bs \<le> a' \<Longrightarrow> mem_read a' n (mem_write a bs m) = mem_read a' n m"
  by (auto simp: mem_read_def mem_write_def)

lemma mem_read_cong: "(\<And>x. a \<le> x \<Longrightarrow> x < a + n \<Longrightarrow> m x = m' x) \<Longrightarrow> mem_read a n m = mem_read a n m'"
  by (auto simp: mem_read_def)

lemma load_store_same [mem_simps]:
  "LENGTH('a) \<le> 8 * n \<Longrightarrow> load n a (store n a v m) = (v :: 'a::len word)"
  by (simp add: load_def store_def mem_read_write_same le_word_le_bytes_full)

lemma load_ptr_store_ptr [mem_simps]: "p < 2 ^ 64 \<Longrightarrow> load_ptr a (store_ptr a p m) = p"
  by (simp add: load_ptr_def store_ptr_def load_store_same unat_of_nat)

lemma load_bool_store_bool [mem_simps]: "load_bool a (store_bool a b m) = b"
  by (simp add: load_bool_def store_bool_def mem_write_def)

subsection \<open>Footprints\<close>

text \<open>\<open>agree_outside S m m'\<close>: going from \<open>m\<close> to \<open>m'\<close> only addresses in \<open>S\<close> were written.\<close>

definition agree_outside :: "nat set \<Rightarrow> mem \<Rightarrow> mem \<Rightarrow> bool" where
  "agree_outside S m m' \<longleftrightarrow> (\<forall>x. x \<notin> S \<longrightarrow> m' x = m x)"

lemma agree_outside_refl [simp, intro]: "agree_outside S m m"
  by (simp add: agree_outside_def)

lemma agree_outside_trans [trans]:
  "agree_outside S m m' \<Longrightarrow> agree_outside S m' m'' \<Longrightarrow> agree_outside S m m''"
  by (simp add: agree_outside_def)

lemma agree_outside_mono: "agree_outside S m m' \<Longrightarrow> S \<subseteq> T \<Longrightarrow> agree_outside T m m'"
  by (auto simp: agree_outside_def)

lemma agree_outside_write: "{a..<a + length bs} \<subseteq> S \<Longrightarrow> agree_outside S m (mem_write a bs m)"
  by (auto simp: agree_outside_def mem_write_def)

lemma agree_outside_store: "{a..<a + n} \<subseteq> S \<Longrightarrow> agree_outside S m (store n a v m)"
  by (simp add: store_def agree_outside_write)

lemma agree_outside_store_bool: "a \<in> S \<Longrightarrow> agree_outside S m (store_bool a b m)"
  by (auto simp: store_bool_def intro: agree_outside_write)

lemma agree_outside_store_ptr: "{a..<a + 8} \<subseteq> S \<Longrightarrow> agree_outside S m (store_ptr a p m)"
  by (simp add: store_ptr_def agree_outside_store)

lemma agree_outside_memset0: "{a..<a + n} \<subseteq> S \<Longrightarrow> agree_outside S m (memset0 a n m)"
  by (simp add: memset0_def agree_outside_write)

lemma agree_outside_memcpy: "{d..<d + n} \<subseteq> S \<Longrightarrow> agree_outside S m (memcpy d s n m)"
  by (simp add: memcpy_def agree_outside_write)

lemmas agree_outside_intros =
  agree_outside_write agree_outside_store agree_outside_store_bool agree_outside_store_ptr
  agree_outside_memset0 agree_outside_memcpy

end
