(* ===== verification/PbTypes.thy ===== *)
theory PbTypes
  imports CMemory
begin

text \<open>
  pb.h: the field-type codes and their masks, the field descriptor \<open>pb_field_t\<close>, the macros
  that build descriptors from a struct's layout, the wire types, the layouts of
  \<open>pb_bytes_array_t\<close>, \<open>pb_callback_t\<close> and \<open>pb_extension_t\<close>, and the error-message macros.
  The modelled configuration is that of the Pods project: \<open>PB_FIELD_32BIT\<close>, \<open>PB_ENABLE_MALLOC\<close>,
  error messages on, 64-bit integers on.
\<close>

subsection \<open>Type codes\<close>

definition PB_LTYPE_VARINT :: u8 where [pb_consts]: "PB_LTYPE_VARINT = 0x00"
definition PB_LTYPE_UVARINT :: u8 where [pb_consts]: "PB_LTYPE_UVARINT = 0x01"
definition PB_LTYPE_SVARINT :: u8 where [pb_consts]: "PB_LTYPE_SVARINT = 0x02"
definition PB_LTYPE_FIXED32 :: u8 where [pb_consts]: "PB_LTYPE_FIXED32 = 0x03"
definition PB_LTYPE_FIXED64 :: u8 where [pb_consts]: "PB_LTYPE_FIXED64 = 0x04"
definition PB_LTYPE_LAST_PACKABLE :: u8 where [pb_consts]: "PB_LTYPE_LAST_PACKABLE = 0x04"
definition PB_LTYPE_BYTES :: u8 where [pb_consts]: "PB_LTYPE_BYTES = 0x05"
definition PB_LTYPE_STRING :: u8 where [pb_consts]: "PB_LTYPE_STRING = 0x06"
definition PB_LTYPE_SUBMESSAGE :: u8 where [pb_consts]: "PB_LTYPE_SUBMESSAGE = 0x07"
definition PB_LTYPE_EXTENSION :: u8 where [pb_consts]: "PB_LTYPE_EXTENSION = 0x08"
definition PB_LTYPE_FIXED_LENGTH_BYTES :: u8 where [pb_consts]: "PB_LTYPE_FIXED_LENGTH_BYTES = 0x09"
definition PB_LTYPES_COUNT :: nat where [pb_consts]: "PB_LTYPES_COUNT = 0x0A"
definition PB_LTYPE_MASK :: u8 where [pb_consts]: "PB_LTYPE_MASK = 0x0F"

definition PB_HTYPE_REQUIRED :: u8 where [pb_consts]: "PB_HTYPE_REQUIRED = 0x00"
definition PB_HTYPE_OPTIONAL :: u8 where [pb_consts]: "PB_HTYPE_OPTIONAL = 0x10"
definition PB_HTYPE_REPEATED :: u8 where [pb_consts]: "PB_HTYPE_REPEATED = 0x20"
definition PB_HTYPE_ONEOF :: u8 where [pb_consts]: "PB_HTYPE_ONEOF = 0x30"
definition PB_HTYPE_MASK :: u8 where [pb_consts]: "PB_HTYPE_MASK = 0x30"

definition PB_ATYPE_STATIC :: u8 where [pb_consts]: "PB_ATYPE_STATIC = 0x00"
definition PB_ATYPE_POINTER :: u8 where [pb_consts]: "PB_ATYPE_POINTER = 0x80"
definition PB_ATYPE_CALLBACK :: u8 where [pb_consts]: "PB_ATYPE_CALLBACK = 0x40"
definition PB_ATYPE_MASK :: u8 where [pb_consts]: "PB_ATYPE_MASK = 0xC0"

definition PB_ATYPE :: "u8 \<Rightarrow> u8" where "PB_ATYPE x = x AND PB_ATYPE_MASK"
definition PB_HTYPE :: "u8 \<Rightarrow> u8" where "PB_HTYPE x = x AND PB_HTYPE_MASK"
definition PB_LTYPE :: "u8 \<Rightarrow> u8" where "PB_LTYPE x = x AND PB_LTYPE_MASK"

text \<open>\<open>pb_size_t\<close> is \<open>uint32_t\<close>.\<close>

definition PB_SIZE_MAX :: nat where [pb_consts]: "PB_SIZE_MAX = 2 ^ 32 - 1"

definition PB_MAX_REQUIRED_FIELDS :: nat where [pb_consts]: "PB_MAX_REQUIRED_FIELDS = 64"

text \<open>The three parts of a type code do not overlap: every code built as
  allocation, rule and data type reads back as those three.\<close>

lemma type_code_parts:
  assumes "a \<in> {PB_ATYPE_STATIC, PB_ATYPE_POINTER, PB_ATYPE_CALLBACK}"
    and "h \<in> {PB_HTYPE_REQUIRED, PB_HTYPE_OPTIONAL, PB_HTYPE_REPEATED, PB_HTYPE_ONEOF}"
    and "l AND PB_LTYPE_MASK = l"
  shows "PB_ATYPE (a OR h OR l) = a" "PB_HTYPE (a OR h OR l) = h" "PB_LTYPE (a OR h OR l) = l"
proof -
  have "l AND 0xC0 = 0" "l AND 0x30 = 0"
    by (subst assms(3) [symmetric], simp add: PB_LTYPE_MASK_def and.assoc)+
  then show "PB_ATYPE (a OR h OR l) = a" "PB_HTYPE (a OR h OR l) = h" "PB_LTYPE (a OR h OR l) = l"
    using assms
    by (auto simp: PB_ATYPE_def PB_HTYPE_def PB_LTYPE_def pb_consts bit.conj_disj_distrib2)
qed

lemma and_exp_cases: "x AND 2 ^ n = (if bit x n then 2 ^ n else 0)" for x :: "'a::len word"
  by (rule bit_word_eqI) (auto simp: bit_simps)

text \<open>The four rules and four allocation codes are all there are; the code relies on it in its
  switches.\<close>

lemma PB_HTYPE_cases:
  "PB_HTYPE x \<in> {PB_HTYPE_REQUIRED, PB_HTYPE_OPTIONAL, PB_HTYPE_REPEATED, PB_HTYPE_ONEOF}"
proof -
  have "(0x30 :: u8) = 2 ^ 4 OR 2 ^ 5" by simp
  then have "PB_HTYPE x = (x AND 2 ^ 4) OR (x AND 2 ^ 5)"
    by (simp only: PB_HTYPE_def PB_HTYPE_MASK_def bit.conj_disj_distrib)
  then show ?thesis unfolding and_exp_cases by (auto simp: pb_consts)
qed

lemma PB_ATYPE_cases: "PB_ATYPE x \<in> {PB_ATYPE_STATIC, PB_ATYPE_POINTER, PB_ATYPE_CALLBACK, 0xC0}"
proof -
  have "(0xC0 :: u8) = 2 ^ 6 OR 2 ^ 7" by simp
  then have "PB_ATYPE x = (x AND 2 ^ 6) OR (x AND 2 ^ 7)"
    by (simp only: PB_ATYPE_def PB_ATYPE_MASK_def bit.conj_disj_distrib)
  then show ?thesis unfolding and_exp_cases by (auto simp: pb_consts)
qed

subsection \<open>Field descriptors\<close>

record pb_field =
  tag :: nat
  ftype :: u8
  data_offset :: nat
  size_offset :: int
  data_size :: nat
  array_size :: nat
  fptr :: nat

text \<open>\<open>PB_LAST_FIELD\<close> ends every descriptor array.\<close>

definition PB_LAST_FIELD :: pb_field where
  "PB_LAST_FIELD = \<lparr>tag = 0, ftype = 0, data_offset = 0, size_offset = 0, data_size = 0,
     array_size = 0, fptr = 0\<rparr>"

lemma tag_PB_LAST_FIELD [simp]: "tag PB_LAST_FIELD = 0"
  by (simp add: PB_LAST_FIELD_def)


subsection \<open>Struct layouts and the descriptor macros\<close>

text \<open>
  The macros read \<open>sizeof\<close> and \<open>offsetof\<close> of a struct. A struct is a list of slots in
  declaration order; a slot is one member, or the members of a union, which share it. Each
  member has its size, its alignment and the size of \<open>m[0]\<close>. The compiler puts each slot at
  the next multiple of its alignment.
\<close>

record cmember =
  m_name :: string
  m_size :: nat
  m_align :: nat
  m_elem :: nat

type_synonym cstruct = "cmember list list"

definition align_up :: "nat \<Rightarrow> nat \<Rightarrow> nat" where
  "align_up a n = (n + a - 1) div a * a"

definition slot_size :: "cmember list \<Rightarrow> nat" where
  "slot_size ms = Max (set (0 # map m_size ms))"

definition slot_align :: "cmember list \<Rightarrow> nat" where
  "slot_align ms = Max (set (1 # map m_align ms))"

primrec layout_from :: "nat \<Rightarrow> cstruct \<Rightarrow> (cmember \<times> nat) list" where
  "layout_from p [] = []"
| "layout_from p (ms # st) =
     (let q = align_up (slot_align ms) p
      in map (\<lambda>m. (m, q)) ms @ layout_from (q + slot_size ms) st)"

primrec struct_end :: "nat \<Rightarrow> cstruct \<Rightarrow> nat" where
  "struct_end p [] = p"
| "struct_end p (ms # st) = struct_end (align_up (slot_align ms) p + slot_size ms) st"

definition struct_size :: "cstruct \<Rightarrow> nat" where
  "struct_size st = align_up (Max (set (1 # map slot_align st))) (struct_end 0 st)"

definition struct_align :: "cstruct \<Rightarrow> nat" where
  "struct_align st = Max (set (1 # map slot_align st))"

text \<open>The kinds of members the generated headers have: a scalar of some size, aligned to it; a
  pointer to elements of some size; a nested struct.\<close>

definition scalar :: "string \<Rightarrow> nat \<Rightarrow> cmember list" where
  "scalar m n = [\<lparr>m_name = m, m_size = n, m_align = n, m_elem = n\<rparr>]"

definition ptr_to :: "string \<Rightarrow> nat \<Rightarrow> cmember list" where
  "ptr_to m n = [\<lparr>m_name = m, m_size = 8, m_align = 8, m_elem = n\<rparr>]"

definition nested :: "string \<Rightarrow> cstruct \<Rightarrow> cmember list" where
  "nested m st = [\<lparr>m_name = m, m_size = struct_size st, m_align = struct_align st,
     m_elem = struct_size st\<rparr>]"

text \<open>\<open>sizeof(pb_bytes_array_t)\<close>, and the initialisers of the generated headers.\<close>

definition sizeof_pb_bytes_array :: nat where
  "sizeof_pb_bytes_array = struct_size [scalar ''size'' 4, scalar ''bytes'' 1]"

datatype cinit = Init int | Struct_init "cinit list"

definition member_of :: "cstruct \<Rightarrow> string \<Rightarrow> (cmember \<times> nat) option" where
  "member_of st m = find (\<lambda>(x, _). m_name x = m) (layout_from 0 st)"

definition offsetof :: "cstruct \<Rightarrow> string \<Rightarrow> nat" where
  "offsetof st m = (case member_of st m of None \<Rightarrow> 0 | Some (_, p) \<Rightarrow> p)"

definition pb_membersize :: "cstruct \<Rightarrow> string \<Rightarrow> nat" where
  "pb_membersize st m = (case member_of st m of None \<Rightarrow> 0 | Some (x, _) \<Rightarrow> m_size x)"

text \<open>\<open>pb_membersize(st, m[0])\<close>.\<close>

definition pb_elemsize :: "cstruct \<Rightarrow> string \<Rightarrow> nat" where
  "pb_elemsize st m = (case member_of st m of None \<Rightarrow> 0 | Some (x, _) \<Rightarrow> m_elem x)"

definition pb_arraysize :: "cstruct \<Rightarrow> string \<Rightarrow> nat" where
  "pb_arraysize st m = pb_membersize st m div pb_elemsize st m"

definition pb_delta :: "cstruct \<Rightarrow> string \<Rightarrow> string \<Rightarrow> int" where
  "pb_delta st m1 m2 = int (offsetof st m1) - int (offsetof st m2)"

text \<open>Conversion of an offset to \<open>pb_size_t\<close>.\<close>

definition to_pb_size :: "int \<Rightarrow> nat" where
  "to_pb_size i = nat (i mod 2 ^ 32)"

definition PB_DATAOFFSET_FIRST :: "cstruct \<Rightarrow> string \<Rightarrow> string \<Rightarrow> nat" where
  "PB_DATAOFFSET_FIRST st m1 m2 = to_pb_size (int (offsetof st m1))"

definition PB_DATAOFFSET_OTHER :: "cstruct \<Rightarrow> string \<Rightarrow> string \<Rightarrow> nat" where
  "PB_DATAOFFSET_OTHER st m1 m2 =
     to_pb_size (int (offsetof st m1) - int (offsetof st m2) - int (pb_membersize st m2))"

definition PB_DATAOFFSET_UNION :: "cstruct \<Rightarrow> string \<Rightarrow> string \<Rightarrow> nat" where
  "PB_DATAOFFSET_UNION st m1 m2 = PB_SIZE_MAX"

definition PB_DATAOFFSET_CHOOSE :: "cstruct \<Rightarrow> string \<Rightarrow> string \<Rightarrow> nat" where
  "PB_DATAOFFSET_CHOOSE st m1 m2 =
     (if offsetof st m1 = offsetof st m2 then PB_DATAOFFSET_FIRST st m1 m2
      else PB_DATAOFFSET_OTHER st m1 m2)"

definition PB_REQUIRED_STATIC ::
  "nat \<Rightarrow> cstruct \<Rightarrow> string \<Rightarrow> nat \<Rightarrow> u8 \<Rightarrow> nat \<Rightarrow> pb_field" where
  "PB_REQUIRED_STATIC t st m fd ltype p =
     \<lparr>tag = t, ftype = PB_ATYPE_STATIC OR PB_HTYPE_REQUIRED OR ltype, data_offset = fd,
      size_offset = 0, data_size = pb_membersize st m, array_size = 0, fptr = p\<rparr>"

definition PB_OPTIONAL_STATIC ::
  "nat \<Rightarrow> cstruct \<Rightarrow> string \<Rightarrow> nat \<Rightarrow> u8 \<Rightarrow> nat \<Rightarrow> pb_field" where
  "PB_OPTIONAL_STATIC t st m fd ltype p =
     \<lparr>tag = t, ftype = PB_ATYPE_STATIC OR PB_HTYPE_OPTIONAL OR ltype, data_offset = fd,
      size_offset = pb_delta st (''has_'' @ m) m, data_size = pb_membersize st m,
      array_size = 0, fptr = p\<rparr>"

definition PB_SINGULAR_STATIC ::
  "nat \<Rightarrow> cstruct \<Rightarrow> string \<Rightarrow> nat \<Rightarrow> u8 \<Rightarrow> nat \<Rightarrow> pb_field" where
  "PB_SINGULAR_STATIC t st m fd ltype p =
     \<lparr>tag = t, ftype = PB_ATYPE_STATIC OR PB_HTYPE_OPTIONAL OR ltype, data_offset = fd,
      size_offset = 0, data_size = pb_membersize st m, array_size = 0, fptr = p\<rparr>"

definition PB_REPEATED_STATIC ::
  "nat \<Rightarrow> cstruct \<Rightarrow> string \<Rightarrow> nat \<Rightarrow> u8 \<Rightarrow> nat \<Rightarrow> pb_field" where
  "PB_REPEATED_STATIC t st m fd ltype p =
     \<lparr>tag = t, ftype = PB_ATYPE_STATIC OR PB_HTYPE_REPEATED OR ltype, data_offset = fd,
      size_offset = pb_delta st (m @ ''_count'') m, data_size = pb_elemsize st m,
      array_size = pb_arraysize st m, fptr = p\<rparr>"

definition PB_REQUIRED_POINTER ::
  "nat \<Rightarrow> cstruct \<Rightarrow> string \<Rightarrow> nat \<Rightarrow> u8 \<Rightarrow> nat \<Rightarrow> pb_field" where
  "PB_REQUIRED_POINTER t st m fd ltype p =
     \<lparr>tag = t, ftype = PB_ATYPE_POINTER OR PB_HTYPE_REQUIRED OR ltype, data_offset = fd,
      size_offset = 0, data_size = pb_elemsize st m, array_size = 0, fptr = p\<rparr>"

definition PB_OPTIONAL_POINTER ::
  "nat \<Rightarrow> cstruct \<Rightarrow> string \<Rightarrow> nat \<Rightarrow> u8 \<Rightarrow> nat \<Rightarrow> pb_field" where
  "PB_OPTIONAL_POINTER t st m fd ltype p =
     \<lparr>tag = t, ftype = PB_ATYPE_POINTER OR PB_HTYPE_OPTIONAL OR ltype, data_offset = fd,
      size_offset = 0, data_size = pb_elemsize st m, array_size = 0, fptr = p\<rparr>"

definition PB_SINGULAR_POINTER ::
  "nat \<Rightarrow> cstruct \<Rightarrow> string \<Rightarrow> nat \<Rightarrow> u8 \<Rightarrow> nat \<Rightarrow> pb_field" where
  "PB_SINGULAR_POINTER t st m fd ltype p =
     \<lparr>tag = t, ftype = PB_ATYPE_POINTER OR PB_HTYPE_OPTIONAL OR ltype, data_offset = fd,
      size_offset = 0, data_size = pb_elemsize st m, array_size = 0, fptr = p\<rparr>"

definition PB_REPEATED_POINTER ::
  "nat \<Rightarrow> cstruct \<Rightarrow> string \<Rightarrow> nat \<Rightarrow> u8 \<Rightarrow> nat \<Rightarrow> pb_field" where
  "PB_REPEATED_POINTER t st m fd ltype p =
     \<lparr>tag = t, ftype = PB_ATYPE_POINTER OR PB_HTYPE_REPEATED OR ltype, data_offset = fd,
      size_offset = pb_delta st (m @ ''_count'') m, data_size = pb_elemsize st m,
      array_size = 0, fptr = p\<rparr>"

definition PB_REQUIRED_CALLBACK ::
  "nat \<Rightarrow> cstruct \<Rightarrow> string \<Rightarrow> nat \<Rightarrow> u8 \<Rightarrow> nat \<Rightarrow> pb_field" where
  "PB_REQUIRED_CALLBACK t st m fd ltype p =
     \<lparr>tag = t, ftype = PB_ATYPE_CALLBACK OR PB_HTYPE_REQUIRED OR ltype, data_offset = fd,
      size_offset = 0, data_size = pb_membersize st m, array_size = 0, fptr = p\<rparr>"

definition PB_OPTIONAL_CALLBACK ::
  "nat \<Rightarrow> cstruct \<Rightarrow> string \<Rightarrow> nat \<Rightarrow> u8 \<Rightarrow> nat \<Rightarrow> pb_field" where
  "PB_OPTIONAL_CALLBACK t st m fd ltype p =
     \<lparr>tag = t, ftype = PB_ATYPE_CALLBACK OR PB_HTYPE_OPTIONAL OR ltype, data_offset = fd,
      size_offset = 0, data_size = pb_membersize st m, array_size = 0, fptr = p\<rparr>"

definition PB_SINGULAR_CALLBACK ::
  "nat \<Rightarrow> cstruct \<Rightarrow> string \<Rightarrow> nat \<Rightarrow> u8 \<Rightarrow> nat \<Rightarrow> pb_field" where
  "PB_SINGULAR_CALLBACK t st m fd ltype p =
     \<lparr>tag = t, ftype = PB_ATYPE_CALLBACK OR PB_HTYPE_OPTIONAL OR ltype, data_offset = fd,
      size_offset = 0, data_size = pb_membersize st m, array_size = 0, fptr = p\<rparr>"

definition PB_REPEATED_CALLBACK ::
  "nat \<Rightarrow> cstruct \<Rightarrow> string \<Rightarrow> nat \<Rightarrow> u8 \<Rightarrow> nat \<Rightarrow> pb_field" where
  "PB_REPEATED_CALLBACK t st m fd ltype p =
     \<lparr>tag = t, ftype = PB_ATYPE_CALLBACK OR PB_HTYPE_REPEATED OR ltype, data_offset = fd,
      size_offset = 0, data_size = pb_membersize st m, array_size = 0, fptr = p\<rparr>"

definition PB_OPTEXT_STATIC ::
  "nat \<Rightarrow> cstruct \<Rightarrow> string \<Rightarrow> nat \<Rightarrow> u8 \<Rightarrow> nat \<Rightarrow> pb_field" where
  "PB_OPTEXT_STATIC t st m fd ltype p =
     \<lparr>tag = t, ftype = PB_ATYPE_STATIC OR PB_HTYPE_REQUIRED OR ltype, data_offset = 0,
      size_offset = 0, data_size = pb_membersize st m, array_size = 0, fptr = p\<rparr>"

definition PB_OPTEXT_POINTER ::
  "nat \<Rightarrow> cstruct \<Rightarrow> string \<Rightarrow> nat \<Rightarrow> u8 \<Rightarrow> nat \<Rightarrow> pb_field" where
  "PB_OPTEXT_POINTER = PB_OPTIONAL_POINTER"

definition PB_OPTEXT_CALLBACK ::
  "nat \<Rightarrow> cstruct \<Rightarrow> string \<Rightarrow> nat \<Rightarrow> u8 \<Rightarrow> nat \<Rightarrow> pb_field" where
  "PB_OPTEXT_CALLBACK = PB_OPTIONAL_CALLBACK"

text \<open>Repeated arrays of fixed count have no \<open>_count\<close> member, so their size offset is 0.\<close>

definition PB_REPEATED_FIXED_COUNT ::
  "nat \<Rightarrow> cstruct \<Rightarrow> string \<Rightarrow> nat \<Rightarrow> u8 \<Rightarrow> nat \<Rightarrow> pb_field" where
  "PB_REPEATED_FIXED_COUNT t st m fd ltype p =
     \<lparr>tag = t, ftype = PB_ATYPE_STATIC OR PB_HTYPE_REPEATED OR ltype, data_offset = fd,
      size_offset = 0, data_size = pb_elemsize st m, array_size = pb_arraysize st m, fptr = p\<rparr>"

text \<open>Members of a named union \<open>u\<close> are called \<open>u.m\<close>.\<close>

definition PB_ONEOF_STATIC ::
  "string \<Rightarrow> nat \<Rightarrow> cstruct \<Rightarrow> string \<Rightarrow> nat \<Rightarrow> u8 \<Rightarrow> nat \<Rightarrow> pb_field" where
  "PB_ONEOF_STATIC u t st m fd ltype p =
     \<lparr>tag = t, ftype = PB_ATYPE_STATIC OR PB_HTYPE_ONEOF OR ltype, data_offset = fd,
      size_offset = pb_delta st (''which_'' @ u) (u @ ''.'' @ m),
      data_size = pb_membersize st (u @ ''.'' @ m), array_size = 0, fptr = p\<rparr>"

definition PB_ONEOF_POINTER ::
  "string \<Rightarrow> nat \<Rightarrow> cstruct \<Rightarrow> string \<Rightarrow> nat \<Rightarrow> u8 \<Rightarrow> nat \<Rightarrow> pb_field" where
  "PB_ONEOF_POINTER u t st m fd ltype p =
     \<lparr>tag = t, ftype = PB_ATYPE_POINTER OR PB_HTYPE_ONEOF OR ltype, data_offset = fd,
      size_offset = pb_delta st (''which_'' @ u) (u @ ''.'' @ m),
      data_size = pb_elemsize st (u @ ''.'' @ m), array_size = 0, fptr = p\<rparr>"

definition PB_ANONYMOUS_ONEOF_STATIC ::
  "string \<Rightarrow> nat \<Rightarrow> cstruct \<Rightarrow> string \<Rightarrow> nat \<Rightarrow> u8 \<Rightarrow> nat \<Rightarrow> pb_field" where
  "PB_ANONYMOUS_ONEOF_STATIC u t st m fd ltype p =
     \<lparr>tag = t, ftype = PB_ATYPE_STATIC OR PB_HTYPE_ONEOF OR ltype, data_offset = fd,
      size_offset = pb_delta st (''which_'' @ u) m, data_size = pb_membersize st m,
      array_size = 0, fptr = p\<rparr>"

definition PB_ANONYMOUS_ONEOF_POINTER ::
  "string \<Rightarrow> nat \<Rightarrow> cstruct \<Rightarrow> string \<Rightarrow> nat \<Rightarrow> u8 \<Rightarrow> nat \<Rightarrow> pb_field" where
  "PB_ANONYMOUS_ONEOF_POINTER u t st m fd ltype p =
     \<lparr>tag = t, ftype = PB_ATYPE_POINTER OR PB_HTYPE_ONEOF OR ltype, data_offset = fd,
      size_offset = pb_delta st (''which_'' @ u) m, data_size = pb_elemsize st m,
      array_size = 0, fptr = p\<rparr>"

text \<open>The protobuf types a \<open>PB_FIELD\<close> line names, and the data type code of each
  (the \<open>PB_LTYPE_MAP_\<close> macros).\<close>

datatype pb_proto_type =
    BOOL | BYTES | DOUBLE | ENUM | UENUM | FIXED32 | FIXED64 | FLOAT | INT32 | INT64 | MESSAGE
  | SFIXED32 | SFIXED64 | SINT32 | SINT64 | STRING | UINT32 | UINT64 | EXTENSION
  | FIXED_LENGTH_BYTES

primrec PB_LTYPE_MAP :: "pb_proto_type \<Rightarrow> u8" where
  "PB_LTYPE_MAP BOOL = PB_LTYPE_VARINT"
| "PB_LTYPE_MAP BYTES = PB_LTYPE_BYTES"
| "PB_LTYPE_MAP DOUBLE = PB_LTYPE_FIXED64"
| "PB_LTYPE_MAP ENUM = PB_LTYPE_VARINT"
| "PB_LTYPE_MAP UENUM = PB_LTYPE_UVARINT"
| "PB_LTYPE_MAP FIXED32 = PB_LTYPE_FIXED32"
| "PB_LTYPE_MAP FIXED64 = PB_LTYPE_FIXED64"
| "PB_LTYPE_MAP FLOAT = PB_LTYPE_FIXED32"
| "PB_LTYPE_MAP INT32 = PB_LTYPE_VARINT"
| "PB_LTYPE_MAP INT64 = PB_LTYPE_VARINT"
| "PB_LTYPE_MAP MESSAGE = PB_LTYPE_SUBMESSAGE"
| "PB_LTYPE_MAP SFIXED32 = PB_LTYPE_FIXED32"
| "PB_LTYPE_MAP SFIXED64 = PB_LTYPE_FIXED64"
| "PB_LTYPE_MAP SINT32 = PB_LTYPE_SVARINT"
| "PB_LTYPE_MAP SINT64 = PB_LTYPE_SVARINT"
| "PB_LTYPE_MAP STRING = PB_LTYPE_STRING"
| "PB_LTYPE_MAP UINT32 = PB_LTYPE_UVARINT"
| "PB_LTYPE_MAP UINT64 = PB_LTYPE_UVARINT"
| "PB_LTYPE_MAP EXTENSION = PB_LTYPE_EXTENSION"
| "PB_LTYPE_MAP FIXED_LENGTH_BYTES = PB_LTYPE_FIXED_LENGTH_BYTES"

datatype pb_rules = REQUIRED | OPTIONAL | SINGULAR | REPEATED | OPTEXT
datatype pb_alloc = STATIC | POINTER | CALLBACK
datatype pb_placement = FIRST | OTHER | UNION

text \<open>\<open>PB_FIELD\<close> pastes its rule and allocation into the name of the macro it calls.
  \<open>PB_REPEATED_FIXED_COUNT\<close> and the oneof macros are used by name.\<close>

primrec PB_DATAOFFSET :: "pb_placement \<Rightarrow> cstruct \<Rightarrow> string \<Rightarrow> string \<Rightarrow> nat" where
  "PB_DATAOFFSET FIRST = PB_DATAOFFSET_FIRST"
| "PB_DATAOFFSET OTHER = PB_DATAOFFSET_OTHER"
| "PB_DATAOFFSET UNION = PB_DATAOFFSET_UNION"

fun pb_field_macro ::
  "pb_rules \<Rightarrow> pb_alloc \<Rightarrow> nat \<Rightarrow> cstruct \<Rightarrow> string \<Rightarrow> nat \<Rightarrow> u8 \<Rightarrow> nat \<Rightarrow> pb_field" where
  "pb_field_macro REQUIRED STATIC = PB_REQUIRED_STATIC"
| "pb_field_macro OPTIONAL STATIC = PB_OPTIONAL_STATIC"
| "pb_field_macro SINGULAR STATIC = PB_SINGULAR_STATIC"
| "pb_field_macro REPEATED STATIC = PB_REPEATED_STATIC"
| "pb_field_macro OPTEXT STATIC = PB_OPTEXT_STATIC"
| "pb_field_macro REQUIRED POINTER = PB_REQUIRED_POINTER"
| "pb_field_macro OPTIONAL POINTER = PB_OPTIONAL_POINTER"
| "pb_field_macro SINGULAR POINTER = PB_SINGULAR_POINTER"
| "pb_field_macro REPEATED POINTER = PB_REPEATED_POINTER"
| "pb_field_macro OPTEXT POINTER = PB_OPTEXT_POINTER"
| "pb_field_macro REQUIRED CALLBACK = PB_REQUIRED_CALLBACK"
| "pb_field_macro OPTIONAL CALLBACK = PB_OPTIONAL_CALLBACK"
| "pb_field_macro SINGULAR CALLBACK = PB_SINGULAR_CALLBACK"
| "pb_field_macro REPEATED CALLBACK = PB_REPEATED_CALLBACK"
| "pb_field_macro OPTEXT CALLBACK = PB_OPTEXT_CALLBACK"

definition PB_FIELD ::
  "nat \<Rightarrow> pb_proto_type \<Rightarrow> pb_rules \<Rightarrow> pb_alloc \<Rightarrow> pb_placement \<Rightarrow> cstruct \<Rightarrow> string \<Rightarrow> string
     \<Rightarrow> nat \<Rightarrow> pb_field" where
  "PB_FIELD t ty rules alloc placement st m prev p =
     pb_field_macro rules alloc t st m (PB_DATAOFFSET placement st m prev) (PB_LTYPE_MAP ty) p"

subsection \<open>Wire types\<close>

text \<open>\<open>pb_wire_type_t\<close>; a tag's low three bits are cast to it unchecked.\<close>

definition PB_WT_VARINT :: u32 where [pb_consts]: "PB_WT_VARINT = 0"
definition PB_WT_64BIT :: u32 where [pb_consts]: "PB_WT_64BIT = 1"
definition PB_WT_STRING :: u32 where [pb_consts]: "PB_WT_STRING = 2"
definition PB_WT_32BIT :: u32 where [pb_consts]: "PB_WT_32BIT = 5"

subsection \<open>Structs the library reads in memory\<close>

text \<open>\<open>pb_bytes_array_t\<close>: a 4-byte size, then the bytes.\<close>

definition bytes_offset :: nat where [pb_consts]: "bytes_offset = 4"

definition PB_BYTES_ARRAY_T_ALLOCSIZE :: "nat \<Rightarrow> nat" where
  "PB_BYTES_ARRAY_T_ALLOCSIZE n = size_add n bytes_offset"

text \<open>\<open>pb_callback_t\<close>: the function pointer, then the address passed on as \<open>arg\<close>.\<close>

definition cb_func :: "nat \<Rightarrow> mem \<Rightarrow> nat" where "cb_func a m = load_ptr a m"
definition cb_arg_addr :: "nat \<Rightarrow> nat" where "cb_arg_addr a = a + 8"

text \<open>\<open>pb_extension_type_t\<close>: decode, encode, arg. \<open>pb_extension_t\<close>: type, dest, next, found.\<close>

definition ext_type :: "nat \<Rightarrow> mem \<Rightarrow> nat" where "ext_type a m = load_ptr a m"
definition ext_dest_addr :: "nat \<Rightarrow> nat" where "ext_dest_addr a = a + 8"
definition ext_next :: "nat \<Rightarrow> mem \<Rightarrow> nat" where "ext_next a m = load_ptr (a + 16) m"
definition ext_found_addr :: "nat \<Rightarrow> nat" where "ext_found_addr a = a + 24"
definition ext_type_decode :: "nat \<Rightarrow> mem \<Rightarrow> nat" where "ext_type_decode t m = load_ptr t m"
definition ext_type_encode :: "nat \<Rightarrow> mem \<Rightarrow> nat" where "ext_type_encode t m = load_ptr (t + 8) m"
definition ext_type_arg :: "nat \<Rightarrow> mem \<Rightarrow> nat" where "ext_type_arg t m = load_ptr (t + 16) m"

subsection \<open>Error messages\<close>

text \<open>The first message set is kept.\<close>

definition PB_SET_ERROR :: "string option \<Rightarrow> string \<Rightarrow> string option" where
  "PB_SET_ERROR e msg = (case e of Some x \<Rightarrow> Some x | None \<Rightarrow> Some msg)"

definition PB_GET_ERROR :: "string option \<Rightarrow> string" where
  "PB_GET_ERROR e = (case e of Some x \<Rightarrow> x | None \<Rightarrow> ''(none)'')"

lemma PB_SET_ERROR_keeps: "PB_SET_ERROR (PB_SET_ERROR e a) b = PB_SET_ERROR e a"
  by (simp add: PB_SET_ERROR_def split: option.splits)

end
