(* ===== verification/PbCommon.thy ===== *)
theory PbCommon
  imports PbTypes
begin

text \<open>
  pb_common.c: the iterator over a descriptor array. It keeps the address of the current
  field's data and of its count or has-flag up to date by adding up sizes and offsets, and it
  wraps around to the start at the end of the array. A descriptor array is the list of its
  entries with the terminating entry included; \<open>pos\<close> is an index into it.
\<close>

record pb_field_iter =
  start :: "pb_field list"
  pos :: nat
  required_field_index :: nat
  dest_struct :: nat
  pData :: nat
  pSize :: nat

text \<open>Reading at or past the end of the list yields the terminator.\<close>

definition field_at :: "pb_field list \<Rightarrow> nat \<Rightarrow> pb_field" where
  "field_at fs i = (if i < length fs then fs ! i else PB_LAST_FIELD)"

definition iter_field :: "pb_field_iter \<Rightarrow> pb_field" where
  "iter_field it = field_at (start it) (pos it)"

definition size_addr :: "nat \<Rightarrow> pb_field \<Rightarrow> nat" where
  "size_addr a f = nat (int a + size_offset f)"

subsection \<open>The operations\<close>

definition pb_field_iter_begin :: "pb_field list \<Rightarrow> nat \<Rightarrow> bool \<times> pb_field_iter" where
  "pb_field_iter_begin fs dest =
     (let f = field_at fs 0;
          d = dest + data_offset f
      in (tag f \<noteq> 0,
          \<lparr>start = fs, pos = 0, required_field_index = 0, dest_struct = dest,
           pData = d, pSize = size_addr d f\<rparr>))"

text \<open>How far the data pointer moves when going past a field.\<close>

definition prev_size :: "pb_field \<Rightarrow> nat" where
  "prev_size prev =
     (if PB_ATYPE (ftype prev) = PB_ATYPE_STATIC \<and> PB_HTYPE (ftype prev) = PB_HTYPE_REPEATED
      then data_size prev * array_size prev
      else if PB_ATYPE (ftype prev) = PB_ATYPE_POINTER then 8
      else data_size prev)"

text \<open>Between two members of a union the pointers stay where they are, and required
  fields are not counted on that path.\<close>

definition in_union :: "pb_field \<Rightarrow> pb_field \<Rightarrow> bool" where
  "in_union prev f \<longleftrightarrow> PB_HTYPE (ftype prev) = PB_HTYPE_ONEOF \<and>
     PB_HTYPE (ftype f) = PB_HTYPE_ONEOF \<and> data_offset f = PB_SIZE_MAX"

definition pb_field_iter_next :: "pb_field_iter \<Rightarrow> bool \<times> pb_field_iter" where
  "pb_field_iter_next it =
     (let prev = iter_field it in
      if tag prev = 0 then (False, it)
      else
        let it1 = it\<lparr>pos := pos it + 1\<rparr>; f = iter_field it1 in
        if tag f = 0 then (False, snd (pb_field_iter_begin (start it) (dest_struct it)))
        else if in_union prev f then (True, it1)
        else
          let r = (if PB_HTYPE (ftype prev) = PB_HTYPE_REQUIRED then required_field_index it + 1
                   else required_field_index it);
              d = pData it + prev_size prev + data_offset f
          in (True, it1\<lparr>required_field_index := r, pData := d, pSize := size_addr d f\<rparr>))"

text \<open>The search loop, with the number of steps it may still take; one round of the array is
  always enough (lemma \<open>find_canonical\<close> below).\<close>

fun pb_field_iter_find_loop :: "nat \<Rightarrow> nat \<Rightarrow> nat \<Rightarrow> pb_field_iter \<Rightarrow> (bool \<times> pb_field_iter) option" where
  "pb_field_iter_find_loop 0 from t it = None"
| "pb_field_iter_find_loop (Suc n) from t it =
     (if tag (iter_field it) = t \<and> PB_LTYPE (ftype (iter_field it)) \<noteq> PB_LTYPE_EXTENSION
      then Some (True, it)
      else let it' = snd (pb_field_iter_next it) in
        if pos it' \<noteq> from then pb_field_iter_find_loop n from t it' else Some (False, it'))"

definition pb_field_iter_find :: "pb_field_iter \<Rightarrow> nat \<Rightarrow> (bool \<times> pb_field_iter) option" where
  "pb_field_iter_find it t = pb_field_iter_find_loop (length (start it) + 1) (pos it) t it"

subsection \<open>Canonical iterator states\<close>

text \<open>The fields of a table are its entries up to the terminator.\<close>

definition field_count :: "pb_field list \<Rightarrow> nat" where
  "field_count fs = length (takeWhile (\<lambda>f. tag f \<noteq> 0) fs)"

lemma field_count_le: "field_count fs \<le> length fs"
  by (simp add: field_count_def length_takeWhile_le)

lemma tag_field_at: "i < field_count fs \<Longrightarrow> tag (field_at fs i) \<noteq> 0"
  using field_count_le [of fs]
  by (auto simp: field_count_def field_at_def dest: nth_mem set_takeWhileD
      simp flip: takeWhile_nth)

lemma tag_field_at_count: "tag (field_at fs (field_count fs)) = 0"
  using nth_length_takeWhile [of "\<lambda>f. tag f \<noteq> 0" fs]
  by (auto simp: field_count_def field_at_def)

text \<open>The iterator at index \<open>i\<close> of a table over the struct at \<open>d\<close>: the state is a function of
  the index. \<open>iter_at\<close> is the specification the pointer arithmetic is compared with.\<close>

primrec iter_at :: "pb_field list \<Rightarrow> nat \<Rightarrow> nat \<Rightarrow> pb_field_iter" where
  "iter_at fs d 0 = snd (pb_field_iter_begin fs d)"
| "iter_at fs d (Suc i) = (if Suc i < field_count fs then snd (pb_field_iter_next (iter_at fs d i))
     else iter_at fs d i)"

lemma begin_iter_at: "pb_field_iter_begin fs d = (0 < field_count fs, iter_at fs d 0)"
proof -
  have "tag (field_at fs 0) \<noteq> 0 \<longleftrightarrow> 0 < field_count fs"
    using tag_field_at [of 0 fs] tag_field_at_count [of fs] by (cases "field_count fs") auto
  then show ?thesis by (simp add: pb_field_iter_begin_def Let_def)
qed

lemma next_frame:
  "start (snd (pb_field_iter_next it)) = start it"
  "dest_struct (snd (pb_field_iter_next it)) = dest_struct it"
  by (simp_all add: pb_field_iter_next_def pb_field_iter_begin_def Let_def)

lemma iter_at_start [simp]: "start (iter_at fs d i) = fs" "dest_struct (iter_at fs d i) = d"
  by (induction i) (simp_all add: pb_field_iter_begin_def Let_def next_frame)

lemma next_iter_at_aux:
  assumes "Suc i < field_count fs" and "pos (iter_at fs d i) = i"
  shows "fst (pb_field_iter_next (iter_at fs d i))" "pos (snd (pb_field_iter_next (iter_at fs d i))) = Suc i"
proof -
  have "tag (field_at fs i) \<noteq> 0" "tag (field_at fs (Suc i)) \<noteq> 0"
    using assms(1) by (simp_all add: tag_field_at)
  then show "fst (pb_field_iter_next (iter_at fs d i))"
    "pos (snd (pb_field_iter_next (iter_at fs d i))) = Suc i"
    using assms(2) by (simp_all add: pb_field_iter_next_def iter_field_def Let_def)
qed

lemma pos_iter_at: "i < field_count fs \<Longrightarrow> pos (iter_at fs d i) = i"
  by (induction i) (simp_all add: next_iter_at_aux, simp add: pb_field_iter_begin_def Let_def)

lemma iter_field_iter_at [simp]: "i < field_count fs \<Longrightarrow> iter_field (iter_at fs d i) = field_at fs i"
  by (simp add: iter_field_def pos_iter_at)

text \<open>Advancing goes to the next index, and from the last one back to the start with the
  result \<open>false\<close>.\<close>

lemma next_iter_at:
  assumes "i < field_count fs"
  shows "pb_field_iter_next (iter_at fs d i) =
     (if Suc i < field_count fs then (True, iter_at fs d (Suc i)) else (False, iter_at fs d 0))"
proof (cases "Suc i < field_count fs")
  case True
  then show ?thesis
    using next_iter_at_aux(1) [OF True pos_iter_at [OF assms]] by (simp add: prod_eq_iff)
next
  case False
  then have "tag (field_at fs (Suc i)) = 0"
    using assms tag_field_at_count [of fs] by (metis Suc_lessI)
  then show ?thesis
    using assms False tag_field_at [OF assms]
    by (simp add: pb_field_iter_next_def iter_field_def pos_iter_at Let_def)
qed

lemma next_empty: "field_count fs = 0 \<Longrightarrow> pb_field_iter_next (iter_at fs d 0) = (False, iter_at fs d 0)"
  using tag_field_at_count [of fs]
  by (simp add: pb_field_iter_next_def iter_field_def pb_field_iter_begin_def Let_def)

declare iter_at.simps [simp del]

subsection \<open>Searching\<close>

text \<open>The loop of \<open>pb_field_iter_find\<close> and the one of \<open>find_extension_field\<close> have the same
  shape: go round until a field satisfies a test.\<close>

fun iter_search :: "(pb_field \<Rightarrow> bool) \<Rightarrow> nat \<Rightarrow> nat \<Rightarrow> pb_field_iter \<Rightarrow> (bool \<times> pb_field_iter) option" where
  "iter_search P 0 from it = None"
| "iter_search P (Suc n) from it =
     (if P (iter_field it) then Some (True, it)
      else let it' = snd (pb_field_iter_next it) in
        if pos it' \<noteq> from then iter_search P n from it' else Some (False, it'))"

definition tag_matches :: "nat \<Rightarrow> pb_field \<Rightarrow> bool" where
  "tag_matches t f \<longleftrightarrow> tag f = t \<and> PB_LTYPE (ftype f) \<noteq> PB_LTYPE_EXTENSION"

lemma find_loop_search: "pb_field_iter_find_loop n from t it = iter_search (tag_matches t) n from it"
  by (induction n arbitrary: it) (simp_all add: tag_matches_def Let_def)

text \<open>The indices still to be visited: to the end and around to the starting index.\<close>

definition indices_from :: "nat \<Rightarrow> nat \<Rightarrow> nat \<Rightarrow> nat list" where
  "indices_from n from i = (if from \<le> i then [i..<n] @ [0..<from] else [i..<from])"

lemma indices_from_step:
  assumes "i < n" "from < n"
  shows "indices_from n from i = i #
     (let j = (if Suc i < n then Suc i else 0) in if j = from then [] else indices_from n from j)"
  using assms by (auto simp: indices_from_def Let_def upt_conv_Cons split: if_splits)

text \<open>An iterator may carry a substituted size pointer (the decoder does this for arrays of
  fixed count); advancing restores it, except between union members.\<close>

definition canonical :: "pb_field list \<Rightarrow> nat \<Rightarrow> nat \<Rightarrow> pb_field_iter \<Rightarrow> bool" where
  "canonical fs d i it \<longleftrightarrow> i < field_count fs \<and>
     (it = iter_at fs d i \<or>
      PB_HTYPE (ftype (field_at fs i)) = PB_HTYPE_REPEATED \<and> (\<exists>p. it = (iter_at fs d i)\<lparr>pSize := p\<rparr>))"

lemma canonical_iter_at [intro]: "i < field_count fs \<Longrightarrow> canonical fs d i (iter_at fs d i)"
  by (simp add: canonical_def)

lemma canonical_sel:
  assumes "canonical fs d i it"
  shows "start it = fs" "dest_struct it = d" "pos it = i" "iter_field it = field_at fs i"
    "pData it = pData (iter_at fs d i)" "required_field_index it = required_field_index (iter_at fs d i)"
    "i < field_count fs"
  using assms by (auto simp: canonical_def pos_iter_at iter_field_def)

lemma next_set_pSize:
  "PB_HTYPE (ftype (iter_field it)) \<noteq> PB_HTYPE_ONEOF \<Longrightarrow>
   tag (iter_field it) \<noteq> 0 \<Longrightarrow> pb_field_iter_next (it\<lparr>pSize := p\<rparr>) = pb_field_iter_next it"
  by (simp add: pb_field_iter_next_def Let_def iter_field_def in_union_def)

lemma next_canonical:
  assumes "canonical fs d i it"
  shows "pb_field_iter_next it =
     (if Suc i < field_count fs then (True, iter_at fs d (Suc i)) else (False, iter_at fs d 0))"
proof -
  have i: "i < field_count fs" using assms by (simp add: canonical_def)
  have "pb_field_iter_next it = pb_field_iter_next (iter_at fs d i)"
    using assms i tag_field_at [OF i]
    by (auto simp: canonical_def next_set_pSize pb_consts)
  then show ?thesis by (simp add: next_iter_at [OF i])
qed

lemma search_eq:
  assumes "length (indices_from (field_count fs) from i) \<le> n" "canonical fs d i it"
    "from < field_count fs"
  shows "iter_search P n from it =
     Some (case find (\<lambda>j. P (field_at fs j)) (indices_from (field_count fs) from i) of
       Some j \<Rightarrow> (True, if j = i then it else iter_at fs d j) | None \<Rightarrow> (False, iter_at fs d from))"
  using assms
proof (induction n arbitrary: i it)
  case 0
  then show ?case using indices_from_step [of i "field_count fs" "from"] by (simp add: canonical_def)
next
  case (Suc n)
  define j where "j = (if Suc i < field_count fs then Suc i else 0)"
  note can = canonical_sel [OF Suc.prems(2)]
  have nxt: "snd (pb_field_iter_next it) = iter_at fs d j" and j: "j < field_count fs"
    using can(7) by (auto simp: next_canonical [OF Suc.prems(2)] j_def)
  have idx: "indices_from (field_count fs) from i =
      i # (if j = from then [] else indices_from (field_count fs) from j)"
    using indices_from_step [OF can(7) Suc.prems(3)] by (simp add: j_def Let_def)
  have step: "iter_search P (Suc n) from it =
      (if P (field_at fs i) then Some (True, it)
       else if j \<noteq> from then iter_search P n from (iter_at fs d j)
       else Some (False, iter_at fs d j))"
    using j nxt can by (simp add: pos_iter_at)
  show ?case
  proof (cases "P (field_at fs i) \<or> j = from")
    case True
    then show ?thesis by (auto simp: step idx simp del: iter_search.simps)
  next
    case False
    then have "length (indices_from (field_count fs) from j) \<le> n"
      using Suc.prems(1) by (simp add: idx)
    note IH = Suc.IH [OF this canonical_iter_at [OF j] Suc.prems(3)]
    have "find (\<lambda>j. P (field_at fs j)) (indices_from (field_count fs) from j) \<noteq> Some i"
      using False by (auto simp: find_Some_iff)
    with IH False show ?thesis
      by (auto simp: step idx simp del: iter_search.simps split: option.split)
  qed
qed

lemma set_indices_from: "i < n \<Longrightarrow> set (indices_from n i i) = {..<n}"
  by (auto simp: indices_from_def)

lemma length_indices_from: "i < n \<Longrightarrow> length (indices_from n i i) = n"
  by (simp add: indices_from_def)

text \<open>The search ends after at most one round, at the first field in circular order that
  satisfies the test.\<close>

lemma search_canonical:
  assumes "canonical fs d i it"
  shows "iter_search P (length fs + 1) i it =
     Some (case find (\<lambda>j. P (field_at fs j)) (indices_from (field_count fs) i i) of
       Some j \<Rightarrow> (True, if j = i then it else iter_at fs d j) | None \<Rightarrow> (False, iter_at fs d i))"
  using canonical_sel(7) [OF assms] field_count_le [of fs]
  by (intro search_eq) (simp_all add: length_indices_from assms)

lemma find_canonical:
  assumes "canonical fs d i it"
  shows "pb_field_iter_find it t =
     Some (case find (\<lambda>j. tag_matches t (field_at fs j)) (indices_from (field_count fs) i i) of
       Some j \<Rightarrow> (True, if j = i then it else iter_at fs d j) | None \<Rightarrow> (False, iter_at fs d i))"
  by (simp only: pb_field_iter_find_def find_loop_search canonical_sel(1,3) [OF assms]
      search_canonical [OF assms])

text \<open>The outcome in one piece: a canonical iterator at a matching field, or none matches and
  the iterator is at its old field.\<close>

lemma search_result:
  assumes "canonical fs d i it"
  obtains (found) j it' where "iter_search P (length fs + 1) i it = Some (True, it')"
      "canonical fs d j it'" "P (field_at fs j)" "j \<noteq> i \<longrightarrow> it' = iter_at fs d j" "j = i \<longrightarrow> it' = it"
  | (absent) "iter_search P (length fs + 1) i it = Some (False, iter_at fs d i)"
      "\<And>j. j < field_count fs \<Longrightarrow> \<not> P (field_at fs j)"
proof (cases "find (\<lambda>j. P (field_at fs j)) (indices_from (field_count fs) i i)")
  case None
  have "iter_search P (length fs + 1) i it = Some (False, iter_at fs d i)"
    by (simp only: search_canonical [OF assms] None option.case)
  then show ?thesis
    using None canonical_sel(7) [OF assms] by (intro absent) (auto simp: find_None_iff set_indices_from)
next
  case (Some j)
  then have "P (field_at fs j)" "j \<in> set (indices_from (field_count fs) i i)"
    by (auto simp: find_Some_iff)
  moreover have "iter_search P (length fs + 1) i it = Some (True, if j = i then it else iter_at fs d j)"
    by (simp only: search_canonical [OF assms] Some option.case)
  ultimately show ?thesis
    using canonical_sel(7) [OF assms] assms
    by (intro found [of "if j = i then it else iter_at fs d j" j]) (auto simp: set_indices_from)
qed

text \<open>On an empty table every search compares the terminator once.\<close>

lemma search_empty:
  assumes "field_count fs = 0"
  shows "iter_search P (Suc n) 0 (iter_at fs d 0) =
     Some (P (field_at fs 0), iter_at fs d 0)"
proof -
  have "pos (iter_at fs d 0) = 0" "iter_field (iter_at fs d 0) = field_at fs 0"
    by (simp_all add: iter_at.simps(1) pb_field_iter_begin_def Let_def iter_field_def)
  then show ?thesis by (simp add: next_empty [OF assms])
qed

end
