(* ===== verification/PbIStream.thy ===== *)
theory PbIStream
  imports PbTypes
begin

text \<open>
  The input side of pb_decode.c up to the field decoders: \<open>pb_istream_t\<close>, reading, varints,
  tags, skipping and substreams. A function that returns \<open>bool\<close> and fills an out-parameter
  returns an option here, with the stream as it leaves it.

  A stream over a buffer (\<open>pb_istream_from_buffer\<close>) has \<open>buf_read\<close> as its callback and the
  bytes still ahead of its read pointer as its state. Any other callback is a function of the
  user's: as pb_decode.h demands, it works on its own state and does not touch \<open>bytes_left\<close>
  or the error message. It is a parameter of the stream.
\<close>

datatype 's sstate = SBuf "u8 list" | SUser 's

datatype 's icallback = Buf_read | User_read "'s \<Rightarrow> nat \<Rightarrow> bool \<times> u8 list \<times> 's"

record 's pb_istream =
  icallback :: "'s icallback"
  istate :: "'s sstate"
  bytes_left :: nat
  ierrmsg :: "string option"

definition set_ierr :: "string \<Rightarrow> 's pb_istream \<Rightarrow> 's pb_istream" where
  "set_ierr msg s = s\<lparr>ierrmsg := PB_SET_ERROR (ierrmsg s) msg\<rparr>"

subsection \<open>Reading\<close>

definition pb_istream_from_buffer :: "u8 list \<Rightarrow> nat \<Rightarrow> 's pb_istream" where
  "pb_istream_from_buffer buf bufsize =
     \<lparr>icallback = Buf_read, istate = SBuf buf, bytes_left = bufsize, ierrmsg = None\<rparr>"

definition buf_read :: "'s pb_istream \<Rightarrow> nat \<Rightarrow> u8 list option \<times> 's pb_istream" where
  "buf_read s count = (case istate s of
       SBuf bs \<Rightarrow> (Some (take count bs), s\<lparr>istate := SBuf (drop count bs)\<rparr>)
     | SUser _ \<Rightarrow> (None, s))"

text \<open>\<open>stream->callback(stream, buf, count)\<close>. The callback and the kind of state always go
  together; the two mixed cases do not occur.\<close>

definition icall :: "'s pb_istream \<Rightarrow> nat \<Rightarrow> u8 list option \<times> 's pb_istream" where
  "icall s count = (case icallback s of
       Buf_read \<Rightarrow> buf_read s count
     | User_read f \<Rightarrow> (case istate s of
         SUser u \<Rightarrow> (case f u count of
           (ok, bs, u') \<Rightarrow> (if ok then Some bs else None, s\<lparr>istate := SUser u'\<rparr>))
       | SBuf _ \<Rightarrow> (None, s)))"

text \<open>\<open>pb_read\<close> past its special case for skipping.\<close>

definition pb_read_direct :: "'s pb_istream \<Rightarrow> nat \<Rightarrow> u8 list option \<times> 's pb_istream" where
  "pb_read_direct s count =
     (if bytes_left s < count then (None, set_ierr ''end-of-stream'' s)
      else case icall s count of
        (None, s') \<Rightarrow> (None, set_ierr ''io error'' s')
      | (Some bs, s') \<Rightarrow> (Some bs, s'\<lparr>bytes_left := bytes_left s' - count\<rparr>))"

text \<open>Skipping on a stream with a user callback reads 16 bytes at a time into a scratch
  array.\<close>

function pb_read_skip :: "'s pb_istream \<Rightarrow> nat \<Rightarrow> u8 list option \<times> 's pb_istream" where
  "pb_read_skip s count =
     (if 16 < count
      then case pb_read_direct s 16 of
        (None, s') \<Rightarrow> (None, s')
      | (Some _, s') \<Rightarrow> pb_read_skip s' (count - 16)
      else pb_read_direct s count)"
  by pat_completeness auto
termination
  by (relation "measure (\<lambda>(s, count). count)") auto

declare pb_read_skip.simps [simp del]

definition is_buf_read :: "'s icallback \<Rightarrow> bool" where
  "is_buf_read c = (case c of Buf_read \<Rightarrow> True | User_read _ \<Rightarrow> False)"

text \<open>\<open>null\<close>: the destination is \<open>NULL\<close>, the bytes are dropped.\<close>

definition pb_read :: "'s pb_istream \<Rightarrow> bool \<Rightarrow> nat \<Rightarrow> u8 list option \<times> 's pb_istream" where
  "pb_read s null count =
     (if null \<and> \<not> is_buf_read (icallback s) then pb_read_skip s count
      else pb_read_direct s count)"

definition first_byte :: "u8 list \<Rightarrow> u8" where
  "first_byte bs = (case bs of [] \<Rightarrow> 0 | b # _ \<Rightarrow> b)"

lemma first_byte_Cons [simp]: "first_byte (b # bs) = b"
  by (simp add: first_byte_def)

definition pb_readbyte :: "'s pb_istream \<Rightarrow> u8 option \<times> 's pb_istream" where
  "pb_readbyte s =
     (if bytes_left s = 0 then (None, set_ierr ''end-of-stream'' s)
      else case icall s 1 of
        (None, s') \<Rightarrow> (None, set_ierr ''io error'' s')
      | (Some bs, s') \<Rightarrow> (Some (first_byte bs), s'\<lparr>bytes_left := bytes_left s' - 1\<rparr>))"

text \<open>Callbacks leave \<open>bytes_left\<close> alone, so every successful read makes it smaller.\<close>

lemma bytes_left_set_ierr [simp]: "bytes_left (set_ierr m s) = bytes_left s"
  by (simp add: set_ierr_def)

lemma icall_bytes_left: "icall s n = (r, s') \<Longrightarrow> bytes_left s' = bytes_left s"
  by (auto simp: icall_def buf_read_def split: icallback.splits sstate.splits prod.splits if_splits)

lemma pb_readbyte_less: "pb_readbyte s = (Some b, s') \<Longrightarrow> bytes_left s' < bytes_left s"
  by (auto simp: pb_readbyte_def split: if_splits prod.splits option.splits dest: icall_bytes_left)

lemma pb_read_direct_less:
  "pb_read_direct s n = (Some bs, s') \<Longrightarrow> bytes_left s' = bytes_left s - n \<and> n \<le> bytes_left s"
  by (auto simp: pb_read_direct_def split: if_splits prod.splits option.splits dest: icall_bytes_left)

subsection \<open>Varints\<close>

text \<open>The loop of \<open>pb_decode_varint32_eof\<close> after its first byte. \<open>bitpos\<close> is a
  \<open>uint_fast8_t\<close> and wraps at 256.\<close>

function varint32_loop :: "'s pb_istream \<Rightarrow> nat \<Rightarrow> u32 \<Rightarrow> u32 option \<times> 's pb_istream" where
  "varint32_loop s bitpos result =
     (case pb_readbyte s of
        (None, s') \<Rightarrow> (None, s')
      | (Some byte, s') \<Rightarrow>
          let sign_extension = (if bitpos < 63 then 0xFF else 0x01 :: u8);
              result' = (if bitpos \<ge> 32 then result
                         else result OR push_bit bitpos (ucast (byte AND 0x7F)));
              bitpos' = (bitpos + 7) mod 256
          in if bitpos \<ge> 32 \<and> byte AND 0x7F \<noteq> 0 \<and>
                (drop_bit 31 result = 0 \<or> byte \<noteq> sign_extension)
             then (None, set_ierr ''varint overflow'' s')
             else if byte AND 0x80 \<noteq> 0 then varint32_loop s' bitpos' result'
             else if bitpos' = 35 \<and> byte AND 0x70 \<noteq> 0
             then (None, set_ierr ''varint overflow'' s')
             else (Some result', s'))"
  by pat_completeness auto
termination
  by (relation "measure (\<lambda>(s, _). bytes_left s)") (auto dest: pb_readbyte_less [OF sym])

declare varint32_loop.simps [simp del]

text \<open>The second component is the out-parameter \<open>eof\<close>.\<close>

definition pb_decode_varint32_eof :: "'s pb_istream \<Rightarrow> u32 option \<times> bool \<times> 's pb_istream" where
  "pb_decode_varint32_eof s =
     (case pb_readbyte s of
        (None, s') \<Rightarrow> (None, bytes_left s' = 0, s')
      | (Some byte, s') \<Rightarrow>
          if byte AND 0x80 = 0 then (Some (ucast byte), False, s')
          else case varint32_loop s' 7 (ucast (byte AND 0x7F)) of (r, s'') \<Rightarrow> (r, False, s''))"

definition pb_decode_varint32 :: "'s pb_istream \<Rightarrow> u32 option \<times> 's pb_istream" where
  "pb_decode_varint32 s = (case pb_decode_varint32_eof s of (r, _, s') \<Rightarrow> (r, s'))"

function varint_loop :: "'s pb_istream \<Rightarrow> nat \<Rightarrow> u64 \<Rightarrow> u64 option \<times> 's pb_istream" where
  "varint_loop s bitpos result =
     (if bitpos \<ge> 64 then (None, set_ierr ''varint overflow'' s)
      else case pb_readbyte s of
        (None, s') \<Rightarrow> (None, s')
      | (Some byte, s') \<Rightarrow>
          let result' = result OR push_bit bitpos (ucast (byte AND 0x7F));
              bitpos' = (bitpos + 7) mod 256
          in if byte AND 0x80 \<noteq> 0 then varint_loop s' bitpos' result' else (Some result', s'))"
  by pat_completeness auto
termination
  by (relation "measure (\<lambda>(s, _). bytes_left s)") (auto dest: pb_readbyte_less [OF sym])

declare varint_loop.simps [simp del]

definition pb_decode_varint :: "'s pb_istream \<Rightarrow> u64 option \<times> 's pb_istream" where
  "pb_decode_varint s = varint_loop s 0 0"

function pb_skip_varint :: "'s pb_istream \<Rightarrow> bool \<times> 's pb_istream" where
  "pb_skip_varint s =
     (case pb_read s False 1 of
        (None, s') \<Rightarrow> (False, s')
      | (Some bs, s') \<Rightarrow> if first_byte bs AND 0x80 \<noteq> 0 then pb_skip_varint s' else (True, s'))"
  by pat_completeness auto
termination
  by (relation "measure bytes_left") (auto simp: pb_read_def dest!: pb_read_direct_less [OF sym])

declare pb_skip_varint.simps [simp del]

subsection \<open>Tags and skipping\<close>

text \<open>A result that is only a success flag.\<close>

definition ok_of :: "'a option \<times> 's \<Rightarrow> bool \<times> 's" where
  "ok_of r = (fst r \<noteq> None, snd r)"

definition pb_skip_string :: "'s pb_istream \<Rightarrow> bool \<times> 's pb_istream" where
  "pb_skip_string s =
     (case pb_decode_varint32 s of
        (None, s') \<Rightarrow> (False, s')
      | (Some len, s') \<Rightarrow> ok_of (pb_read s' True (unat len)))"

text \<open>Result: wire type and tag if there is a field; the out-parameter \<open>eof\<close>; the stream.\<close>

definition pb_decode_tag :: "'s pb_istream \<Rightarrow> (u32 \<times> u32) option \<times> bool \<times> 's pb_istream" where
  "pb_decode_tag s =
     (case pb_decode_varint32_eof s of
        (None, eof, s') \<Rightarrow> (None, eof, s')
      | (Some temp, eof, s') \<Rightarrow>
          if temp = 0 then (None, True, s')
          else (Some (temp AND 7, drop_bit 3 temp), eof, s'))"

definition pb_skip_field :: "'s pb_istream \<Rightarrow> u32 \<Rightarrow> bool \<times> 's pb_istream" where
  "pb_skip_field s wire_type =
     (if wire_type = PB_WT_VARINT then pb_skip_varint s
      else if wire_type = PB_WT_64BIT then ok_of (pb_read s True 8)
      else if wire_type = PB_WT_STRING then pb_skip_string s
      else if wire_type = PB_WT_32BIT then ok_of (pb_read s True 4)
      else (False, set_ierr ''invalid wire_type'' s))"

text \<open>The varint case of \<open>read_raw_value\<close>: \<open>sz\<close> is \<open>*size\<close>, \<open>acc\<close> what is in the buffer.
  Running out of room fails without a message.\<close>

function raw_varint :: "'s pb_istream \<Rightarrow> nat \<Rightarrow> nat \<Rightarrow> u8 list \<Rightarrow> u8 list option \<times> 's pb_istream" where
  "raw_varint s max_size sz acc =
     (if sz + 1 > max_size then (None, s)
      else case pb_read s False 1 of
        (None, s') \<Rightarrow> (None, s')
      | (Some bs, s') \<Rightarrow>
          let acc' = acc @ [first_byte bs]
          in if first_byte bs AND 0x80 \<noteq> 0 then raw_varint s' max_size (sz + 1) acc'
             else (Some acc', s'))"
  by pat_completeness auto
termination
  by (relation "measure (\<lambda>(s, m, sz, _). m - sz)") auto

declare raw_varint.simps [simp del]

definition read_raw_value :: "'s pb_istream \<Rightarrow> u32 \<Rightarrow> nat \<Rightarrow> u8 list option \<times> 's pb_istream" where
  "read_raw_value s wire_type max_size =
     (if wire_type = PB_WT_VARINT then raw_varint s max_size 0 []
      else if wire_type = PB_WT_64BIT then pb_read s False 8
      else if wire_type = PB_WT_32BIT then pb_read s False 4
      else (None, set_ierr ''invalid wire_type'' s))"

subsection \<open>Substreams\<close>

definition pb_make_string_substream ::
  "'s pb_istream \<Rightarrow> 's pb_istream option \<times> 's pb_istream" where
  "pb_make_string_substream s =
     (case pb_decode_varint32 s of
        (None, s') \<Rightarrow> (None, s')
      | (Some sz, s') \<Rightarrow>
          if bytes_left s' < unat sz then (None, set_ierr ''parent stream too short'' s')
          else (Some (s'\<lparr>bytes_left := unat sz\<rparr>),
                s'\<lparr>bytes_left := bytes_left s' - unat sz\<rparr>))"

definition pb_close_string_substream ::
  "'s pb_istream \<Rightarrow> 's pb_istream \<Rightarrow> bool \<times> 's pb_istream" where
  "pb_close_string_substream s sub =
     (case (if bytes_left sub \<noteq> 0 then pb_read sub True (bytes_left sub) else (Some [], sub)) of
        (None, _) \<Rightarrow> (False, s)
      | (Some _, sub') \<Rightarrow> (True, s\<lparr>istate := istate sub', ierrmsg := ierrmsg sub'\<rparr>))"

subsection \<open>Integers\<close>

definition pb_decode_svarint :: "'s pb_istream \<Rightarrow> u64 option \<times> 's pb_istream" where
  "pb_decode_svarint s =
     (case pb_decode_varint s of
        (None, s') \<Rightarrow> (None, s')
      | (Some v, s') \<Rightarrow>
          (Some (if v AND 1 \<noteq> 0 then NOT (drop_bit 1 v) else drop_bit 1 v), s'))"

definition pb_decode_fixed32 :: "'s pb_istream \<Rightarrow> u32 option \<times> 's pb_istream" where
  "pb_decode_fixed32 s =
     (case pb_read s False 4 of
        (None, s') \<Rightarrow> (None, s')
      | (Some bytes, s') \<Rightarrow>
          (Some (push_bit 0 (ucast (bytes ! 0)) OR push_bit 8 (ucast (bytes ! 1)) OR
                 push_bit 16 (ucast (bytes ! 2)) OR push_bit 24 (ucast (bytes ! 3))), s'))"

definition pb_decode_fixed64 :: "'s pb_istream \<Rightarrow> u64 option \<times> 's pb_istream" where
  "pb_decode_fixed64 s =
     (case pb_read s False 8 of
        (None, s') \<Rightarrow> (None, s')
      | (Some bytes, s') \<Rightarrow>
          (Some (push_bit 0 (ucast (bytes ! 0)) OR push_bit 8 (ucast (bytes ! 1)) OR
                 push_bit 16 (ucast (bytes ! 2)) OR push_bit 24 (ucast (bytes ! 3)) OR
                 push_bit 32 (ucast (bytes ! 4)) OR push_bit 40 (ucast (bytes ! 5)) OR
                 push_bit 48 (ucast (bytes ! 6)) OR push_bit 56 (ucast (bytes ! 7))), s'))"

subsection \<open>Streams over a buffer\<close>

text \<open>The stream over a buffer with the bytes \<open>bs\<close> still ahead and \<open>n\<close> of them left to read.\<close>

definition bstream :: "u8 list \<Rightarrow> nat \<Rightarrow> string option \<Rightarrow> 's pb_istream" where
  "bstream bs n e = \<lparr>icallback = Buf_read, istate = SBuf bs, bytes_left = n, ierrmsg = e\<rparr>"

lemma from_buffer_bstream: "pb_istream_from_buffer bs n = bstream bs n None"
  by (simp add: pb_istream_from_buffer_def bstream_def)

lemma bstream_sel [stream_simps]:
  "icallback (bstream bs n e) = Buf_read" "istate (bstream bs n e) = SBuf bs"
  "bytes_left (bstream bs n e) = n" "ierrmsg (bstream bs n e) = e"
  "bstream bs n e\<lparr>bytes_left := n'\<rparr> = bstream bs n' e"
  "bstream bs n e\<lparr>istate := SBuf bs'\<rparr> = bstream bs' n e"
  "bstream bs n e\<lparr>ierrmsg := e'\<rparr> = bstream bs n e'"
  "set_ierr m (bstream bs n e) = bstream bs n (PB_SET_ERROR e m)"
  by (simp_all add: bstream_def set_ierr_def)

lemma pb_read_bstream [stream_simps]:
  "pb_read (bstream bs n e) null count =
     (if n < count then (None, bstream bs n (PB_SET_ERROR e ''end-of-stream''))
      else (Some (take count bs), bstream (drop count bs) (n - count) e))"
  by (simp add: pb_read_def pb_read_direct_def icall_def buf_read_def is_buf_read_def stream_simps)

lemma pb_readbyte_bstream [stream_simps]:
  "pb_readbyte (bstream bs n e) =
     (if n = 0 then (None, bstream bs 0 (PB_SET_ERROR e ''end-of-stream''))
      else (Some (first_byte (take 1 bs)), bstream (drop 1 bs) (n - 1) e))"
  by (simp add: pb_readbyte_def icall_def buf_read_def stream_simps)

lemma pb_readbyte_Cons [stream_simps]:
  "pb_readbyte (bstream (b # bs) (Suc n) e) = (Some b, bstream bs n e)"
  by (simp add: pb_readbyte_bstream first_byte_def)

end
