(* ===== verification/PbFieldDec.thy ===== *)
theory PbFieldDec
  imports PbCommon PbIStream
begin

text \<open>
  The field decoders of pb_decode.c, and what they share: the environment of the decoder,
  the default values, releasing, and allocation.

  The environment holds what lives outside the message and the stream: the descriptor array at
  each address, the allocator, and the functions behind the function pointers. Decoders return
  the success flag, the stream and the memory; the result \<open>None\<close> stands for a call that has no
  result: a recursion deeper than the given bound, or a step C leaves undefined (a call through
  a null pointer, a division by zero).
\<close>

type_synonym ('s, 'h) pb_result = "(bool \<times> 's pb_istream \<times> 'h cstate) option"

type_synonym ('s, 'h) pb_extension_decoder =
  "'s pb_istream \<Rightarrow> nat \<Rightarrow> u32 \<Rightarrow> u32 \<Rightarrow> 'h cstate \<Rightarrow> bool \<times> 's pb_istream \<times> 'h cstate"

type_synonym ('s, 'h) pb_callback_decoder =
  "'s pb_istream \<Rightarrow> pb_field \<Rightarrow> nat \<Rightarrow> 'h cstate \<Rightarrow> bool \<times> 's pb_istream \<times> 'h cstate"

record ('s, 'h) penv =
  field_table :: "nat \<Rightarrow> pb_field list"
  pb_realloc :: "nat \<Rightarrow> nat \<Rightarrow> 'h cstate \<Rightarrow> nat \<times> 'h cstate"
  pb_free :: "nat \<Rightarrow> 'h cstate \<Rightarrow> 'h cstate"
  decode_funcs :: "nat \<Rightarrow> ('s, 'h) pb_callback_decoder"
  extension_funcs :: "nat \<Rightarrow> ('s, 'h) pb_extension_decoder"

definition upd_mem :: "(mem \<Rightarrow> mem) \<Rightarrow> 'h cstate \<Rightarrow> 'h cstate" where
  "upd_mem f c = c\<lparr>mem := f (mem c)\<rparr>"

text \<open>\<open>*(pb_size_t* )a\<close>.\<close>

definition load_size :: "nat \<Rightarrow> 'h cstate \<Rightarrow> nat" where
  "load_size a c = unat (load32 a (mem c))"

definition store_size :: "nat \<Rightarrow> nat \<Rightarrow> 'h cstate \<Rightarrow> 'h cstate" where
  "store_size a n = upd_mem (store 4 a (of_nat n :: u32))"

definition get_ptr :: "nat \<Rightarrow> 'h cstate \<Rightarrow> nat" where
  "get_ptr a c = load_ptr a (mem c)"

definition set_ptr :: "nat \<Rightarrow> nat \<Rightarrow> 'h cstate \<Rightarrow> 'h cstate" where
  "set_ptr a p = upd_mem (store_ptr a p)"

text \<open>\<open>PB_RETURN_ERROR\<close>, and the two ways the code returns early.\<close>

definition pb_return_error :: "'s pb_istream \<Rightarrow> string \<Rightarrow> 'h cstate \<Rightarrow> ('s, 'h) pb_result" where
  "pb_return_error s msg c = Some (False, set_ierr msg s, c)"

definition on_read ::
  "'a option \<times> 's pb_istream \<Rightarrow> 'h cstate \<Rightarrow> ('a \<Rightarrow> 's pb_istream \<Rightarrow> ('s, 'h) pb_result)
     \<Rightarrow> ('s, 'h) pb_result" where
  "on_read r c k = (case r of (None, s) \<Rightarrow> Some (False, s, c) | (Some v, s) \<Rightarrow> k v s)"

definition on_ok ::
  "('s, 'h) pb_result \<Rightarrow> ('s pb_istream \<Rightarrow> 'h cstate \<Rightarrow> ('s, 'h) pb_result) \<Rightarrow> ('s, 'h) pb_result" where
  "on_ok r k = do { (ok, s, c) \<leftarrow> r; if ok then k s c else Some (False, s, c) }"

text \<open>A \<open>do ... while (pb_field_iter_next)\<close> loop over the fields, starting at \<open>it\<close>; \<open>k\<close>
  bounds the number of rounds, and callers pass the length of the table.\<close>

primrec fields_loop ::
  "(pb_field_iter \<Rightarrow> 'h cstate \<Rightarrow> 'h cstate option) \<Rightarrow> nat \<Rightarrow> pb_field_iter \<Rightarrow> 'h cstate
     \<Rightarrow> 'h cstate option" where
  "fields_loop f 0 it c = None"
| "fields_loop f (Suc k) it c = do {
     c \<leftarrow> f it c;
     case pb_field_iter_next it of
       (True, it') \<Rightarrow> fields_loop f k it' c
     | (False, _) \<Rightarrow> Some c }"

text \<open>A walk along a list of extensions, at most \<open>k\<close> of them.\<close>

primrec extensions_loop ::
  "(nat \<Rightarrow> 'h cstate \<Rightarrow> 'h cstate option) \<Rightarrow> nat \<Rightarrow> nat \<Rightarrow> 'h cstate \<Rightarrow> 'h cstate option" where
  "extensions_loop f 0 ext c = (if ext = 0 then Some c else None)"
| "extensions_loop f (Suc k) ext c =
     (if ext = 0 then Some c
      else do { c \<leftarrow> f ext c; extensions_loop f k (ext_next ext (mem c)) c })"

subsection \<open>Default values\<close>

definition iter_from_extension :: "('s, 'h) penv \<Rightarrow> nat \<Rightarrow> 'h cstate \<Rightarrow> pb_field_iter" where
  "iter_from_extension env extension c =
     (let fs = field_table env (ext_type_arg (ext_type extension (mem c)) (mem c));
          dest = get_ptr (ext_dest_addr extension) c;
          it = snd (pb_field_iter_begin fs dest)
      in it\<lparr>pData := (if PB_ATYPE (ftype (field_at fs 0)) = PB_ATYPE_POINTER
                       then ext_dest_addr extension else dest),
            pSize := ext_found_addr extension\<rparr>)"

definition message_defaults_with ::
  "(pb_field_iter \<Rightarrow> 'h cstate \<Rightarrow> 'h cstate option) \<Rightarrow> pb_field list \<Rightarrow> nat \<Rightarrow> 'h cstate
     \<Rightarrow> 'h cstate option" where
  "message_defaults_with f fs dest c =
     (case pb_field_iter_begin fs dest of
        (False, _) \<Rightarrow> Some c
      | (True, it) \<Rightarrow> fields_loop f (length fs) it c)"

text \<open>The first argument bounds the depth of the recursion, through submessages and
  extensions.\<close>

primrec pb_field_set_to_default ::
  "('s, 'h) penv \<Rightarrow> nat \<Rightarrow> pb_field_iter \<Rightarrow> 'h cstate \<Rightarrow> 'h cstate option" where
  "pb_field_set_to_default env 0 it c = None"
| "pb_field_set_to_default env (Suc n) it c =
     (let fld = iter_field it; ty = ftype fld in
      if PB_LTYPE ty = PB_LTYPE_EXTENSION
      then extensions_loop
             (\<lambda>ext c. let c = upd_mem (store_bool (ext_found_addr ext) False) c in
                pb_field_set_to_default env n (iter_from_extension env ext c) c)
             n (get_ptr (pData it) c) c
      else if PB_ATYPE ty = PB_ATYPE_STATIC
      then
        let (c, init_data) =
              (if PB_HTYPE ty = PB_HTYPE_OPTIONAL \<and> pSize it \<noteq> pData it
               then (upd_mem (store_bool (pSize it) False) c, True)
               else if PB_HTYPE ty = PB_HTYPE_REPEATED \<or> PB_HTYPE ty = PB_HTYPE_ONEOF
               then (store_size (pSize it) 0 c, False)
               else (c, True))
        in if \<not> init_data then Some c
           else if PB_LTYPE ty = PB_LTYPE_SUBMESSAGE
           then message_defaults_with (pb_field_set_to_default env n)
                  (field_table env (fptr fld)) (pData it) c
           else if fptr fld \<noteq> 0
           then Some (upd_mem (memcpy (pData it) (fptr fld) (data_size fld)) c)
           else Some (upd_mem (memset0 (pData it) (data_size fld)) c)
      else if PB_ATYPE ty = PB_ATYPE_POINTER
      then
        let c = set_ptr (pData it) 0 c
        in Some (if PB_HTYPE ty = PB_HTYPE_REPEATED \<or> PB_HTYPE ty = PB_HTYPE_ONEOF
                 then store_size (pSize it) 0 c else c)
      else Some c)"

definition pb_message_set_to_defaults ::
  "('s, 'h) penv \<Rightarrow> nat \<Rightarrow> pb_field list \<Rightarrow> nat \<Rightarrow> 'h cstate \<Rightarrow> 'h cstate option" where
  "pb_message_set_to_defaults env n = message_defaults_with (pb_field_set_to_default env n)"

subsection \<open>Releasing\<close>

definition release_with ::
  "(pb_field_iter \<Rightarrow> 'h cstate \<Rightarrow> 'h cstate option) \<Rightarrow> pb_field list \<Rightarrow> nat \<Rightarrow> 'h cstate
     \<Rightarrow> 'h cstate option" where
  "release_with f fs dest c =
     (if dest = 0 then Some c
      else case pb_field_iter_begin fs dest of
        (False, _) \<Rightarrow> Some c
      | (True, it) \<Rightarrow> fields_loop f (length fs) it c)"

text \<open>The \<open>while (count--)\<close> loop over the items of a submessage array, and the one over the
  pointers of an array of strings.\<close>

primrec release_items ::
  "(nat \<Rightarrow> 'h cstate \<Rightarrow> 'h cstate option) \<Rightarrow> nat \<Rightarrow> nat \<Rightarrow> nat \<Rightarrow> 'h cstate \<Rightarrow> 'h cstate option" where
  "release_items f 0 sz item c = Some c"
| "release_items f (Suc k) sz item c = do { c \<leftarrow> f item c; release_items f k sz (item + sz) c }"

primrec free_entries :: "('s, 'h) penv \<Rightarrow> nat \<Rightarrow> nat \<Rightarrow> 'h cstate \<Rightarrow> 'h cstate" where
  "free_entries env 0 item c = c"
| "free_entries env (Suc k) item c =
     free_entries env k (item + 8) (set_ptr item 0 (pb_free env (get_ptr item c) c))"

text \<open>How many submessages a field holds.\<close>

definition release_count :: "pb_field_iter \<Rightarrow> 'h cstate \<Rightarrow> nat" where
  "release_count it c =
     (let fld = iter_field it; ty = ftype fld in
      if PB_HTYPE ty = PB_HTYPE_REPEATED
      then
        let count = (if PB_ATYPE ty = PB_ATYPE_STATIC \<and> pSize it = pData it then array_size fld
                     else load_size (pSize it) c)
        in if PB_ATYPE ty = PB_ATYPE_STATIC \<and> count > array_size fld then array_size fld else count
      else 1)"

text \<open>The part of \<open>pb_release_single_field\<close> that frees a pointer field's own storage.\<close>

definition release_pointer :: "('s, 'h) penv \<Rightarrow> pb_field_iter \<Rightarrow> 'h cstate \<Rightarrow> 'h cstate" where
  "release_pointer env it c =
     (let ty = ftype (iter_field it) in
      if PB_ATYPE ty = PB_ATYPE_POINTER
      then
        let c = (if PB_HTYPE ty = PB_HTYPE_REPEATED \<and>
                    (PB_LTYPE ty = PB_LTYPE_STRING \<or> PB_LTYPE ty = PB_LTYPE_BYTES)
                 then free_entries env (load_size (pSize it) c) (get_ptr (pData it) c) c
                 else c);
            c = (if PB_HTYPE ty = PB_HTYPE_REPEATED then store_size (pSize it) 0 c else c);
            c = pb_free env (get_ptr (pData it) c) c
        in set_ptr (pData it) 0 c
      else c)"

primrec pb_release_single_field ::
  "('s, 'h) penv \<Rightarrow> nat \<Rightarrow> pb_field_iter \<Rightarrow> 'h cstate \<Rightarrow> 'h cstate option" where
  "pb_release_single_field env 0 it c = None"
| "pb_release_single_field env (Suc n) it c =
     (let fld = iter_field it; ty = ftype fld in
      if PB_HTYPE ty = PB_HTYPE_ONEOF \<and> load_size (pSize it) c \<noteq> tag fld then Some c
      else do {
        c \<leftarrow> (if PB_LTYPE ty = PB_LTYPE_EXTENSION
          then extensions_loop
                 (\<lambda>ext c. pb_release_single_field env n (iter_from_extension env ext c) c)
                 n (get_ptr (pData it) c) c
          else if PB_LTYPE ty = PB_LTYPE_SUBMESSAGE
          then
            let item = (if PB_ATYPE ty = PB_ATYPE_POINTER then get_ptr (pData it) c else pData it)
            in if item \<noteq> 0
               then release_items
                      (release_with (pb_release_single_field env n) (field_table env (fptr fld)))
                      (release_count it c) (data_size fld) item c
               else Some c
          else Some c);
        Some (release_pointer env it c) })"

definition pb_release ::
  "('s, 'h) penv \<Rightarrow> nat \<Rightarrow> pb_field list \<Rightarrow> nat \<Rightarrow> 'h cstate \<Rightarrow> 'h cstate option" where
  "pb_release env n = release_with (pb_release_single_field env n)"

text \<open>The iterator comes back too: it is moved to the old field and then to the new one.\<close>

definition pb_release_union_field ::
  "('s, 'h) penv \<Rightarrow> nat \<Rightarrow> 's pb_istream \<Rightarrow> pb_field_iter \<Rightarrow> 'h cstate
     \<Rightarrow> (bool \<times> 's pb_istream \<times> pb_field_iter \<times> 'h cstate) option" where
  "pb_release_union_field env n s it c =
     (let old_tag = load_size (pSize it) c; new_tag = tag (iter_field it) in
      if old_tag = 0 then Some (True, s, it, c)
      else if old_tag = new_tag then Some (True, s, it, c)
      else do {
        (found, it) \<leftarrow> pb_field_iter_find it old_tag;
        if \<not> found then Some (False, set_ierr ''invalid union tag'' s, it, c)
        else do {
          c \<leftarrow> pb_release_single_field env n it c;
          (found, it) \<leftarrow> pb_field_iter_find it new_tag;
          if \<not> found then Some (False, set_ierr ''iterator error'' s, it, c)
          else Some (True, s, it, c) } })"

subsection \<open>Allocation\<close>

definition allocate_field ::
  "('s, 'h) penv \<Rightarrow> 's pb_istream \<Rightarrow> nat \<Rightarrow> nat \<Rightarrow> nat \<Rightarrow> 'h cstate \<Rightarrow> ('s, 'h) pb_result" where
  "allocate_field env s p dsize asize c =
     (if dsize = 0 \<or> asize = 0 then pb_return_error s ''invalid size'' c
      else
        let check_limit = 2 ^ 32; size_max = 2 ^ 64 - 1 in
        if (dsize \<ge> check_limit \<or> asize \<ge> check_limit) \<and> size_max div asize < dsize
        then pb_return_error s ''size too large'' c
        else case pb_realloc env (get_ptr p c) (asize * dsize mod 2 ^ 64) c of
          (q, c') \<Rightarrow>
            if q = 0 then pb_return_error s ''realloc failed'' c'
            else Some (True, s, set_ptr p q c'))"

definition initialize_pointer_field ::
  "('s, 'h) penv \<Rightarrow> nat \<Rightarrow> nat \<Rightarrow> pb_field_iter \<Rightarrow> 'h cstate \<Rightarrow> 'h cstate option" where
  "initialize_pointer_field env n item it c =
     (let fld = iter_field it; lt = PB_LTYPE (ftype fld) in
      if lt = PB_LTYPE_STRING \<or> lt = PB_LTYPE_BYTES then Some (set_ptr item 0 c)
      else if lt = PB_LTYPE_SUBMESSAGE
      then pb_message_set_to_defaults env n (field_table env (fptr fld)) item
             (upd_mem (memset0 item (data_size fld)) c)
      else Some c)"

subsection \<open>Field decoders\<close>

text \<open>A decoder gets the descriptor and the address of the item. \<open>sub\<close> decodes a submessage:
  \<open>sub True\<close> is \<open>pb_decode\<close>, \<open>sub False\<close> is \<open>pb_decode_noinit\<close>.\<close>

type_synonym ('s, 'h) pb_decoder =
  "'s pb_istream \<Rightarrow> pb_field \<Rightarrow> nat \<Rightarrow> 'h cstate \<Rightarrow> ('s, 'h) pb_result"

type_synonym ('s, 'h) pb_subdecoder =
  "bool \<Rightarrow> 's pb_istream \<Rightarrow> pb_field list \<Rightarrow> nat \<Rightarrow> 'h cstate \<Rightarrow> ('s, 'h) pb_result"

text \<open>The common end of the three varint decoders: store the low \<open>data_size\<close> bytes, and
  compare what was stored, converted back to 64 bits, with the value.\<close>

definition clamp_signed :: "nat \<Rightarrow> u64 \<Rightarrow> u64" where
  "clamp_signed n v =
     (if n = 8 then v
      else if n = 4 then scast (ucast v :: 32 word)
      else if n = 2 then scast (ucast v :: 16 word)
      else scast (ucast v :: 8 word))"

definition clamp_unsigned :: "nat \<Rightarrow> u64 \<Rightarrow> u64" where
  "clamp_unsigned n v =
     (if n = 8 then v
      else if n = 4 then ucast (ucast v :: 32 word)
      else if n = 2 then ucast (ucast v :: 16 word)
      else ucast (ucast v :: 8 word))"

definition store_clamped ::
  "(nat \<Rightarrow> u64 \<Rightarrow> u64) \<Rightarrow> 's pb_istream \<Rightarrow> nat \<Rightarrow> u64 \<Rightarrow> nat \<Rightarrow> 'h cstate \<Rightarrow> ('s, 'h) pb_result" where
  "store_clamped clamp s dsize v dest c =
     (if dsize \<notin> {8, 4, 2, 1} then pb_return_error s ''invalid data_size'' c
      else
        let c' = upd_mem (store dsize dest v) c
        in if clamp dsize v \<noteq> v then pb_return_error s ''integer too large'' c'
           else Some (True, s, c'))"

definition pb_dec_varint :: "('s, 'h) pb_decoder" where
  "pb_dec_varint s fld dest c =
     on_read (pb_decode_varint s) c (\<lambda>v s.
       let svalue = (if data_size fld = 8 then v else scast (ucast v :: 32 word))
       in store_clamped clamp_signed s (data_size fld) svalue dest c)"

definition pb_dec_uvarint :: "('s, 'h) pb_decoder" where
  "pb_dec_uvarint s fld dest c =
     on_read (pb_decode_varint s) c (\<lambda>v s. store_clamped clamp_unsigned s (data_size fld) v dest c)"

definition pb_dec_svarint :: "('s, 'h) pb_decoder" where
  "pb_dec_svarint s fld dest c =
     on_read (pb_decode_svarint s) c (\<lambda>v s. store_clamped clamp_signed s (data_size fld) v dest c)"

definition pb_dec_fixed32 :: "('s, 'h) pb_decoder" where
  "pb_dec_fixed32 s fld dest c =
     on_read (pb_decode_fixed32 s) c (\<lambda>v s. Some (True, s, upd_mem (store 4 dest v) c))"

definition pb_dec_fixed64 :: "('s, 'h) pb_decoder" where
  "pb_dec_fixed64 s fld dest c =
     on_read (pb_decode_fixed64 s) c (\<lambda>v s. Some (True, s, upd_mem (store 8 dest v) c))"

text \<open>\<open>pb_read\<close> into memory. A failing read leaves the destination as it was.\<close>

definition read_into :: "'s pb_istream \<Rightarrow> nat \<Rightarrow> nat \<Rightarrow> 'h cstate \<Rightarrow> ('s, 'h) pb_result" where
  "read_into s dest count c =
     on_read (pb_read s (dest = 0) count) c (\<lambda>bs s.
       Some (True, s, if dest = 0 then c else upd_mem (mem_write dest (take count bs)) c))"

definition pb_dec_bytes :: "('s, 'h) penv \<Rightarrow> ('s, 'h) pb_decoder" where
  "pb_dec_bytes env s fld dest c =
     on_read (pb_decode_varint32 s) c (\<lambda>sz s.
       let size = unat sz; alloc_size = PB_BYTES_ARRAY_T_ALLOCSIZE size in
       if size > PB_SIZE_MAX then pb_return_error s ''bytes overflow'' c
       else if size > alloc_size then pb_return_error s ''size too large'' c
       else
         let fill = (\<lambda>bdest s c. read_into s (bdest + bytes_offset) size (store_size bdest size c))
         in if PB_ATYPE (ftype fld) = PB_ATYPE_POINTER
            then on_ok (allocate_field env s dest alloc_size 1 c) (\<lambda>s c. fill (get_ptr dest c) s c)
            else if alloc_size > data_size fld then pb_return_error s ''bytes overflow'' c
            else fill dest s c)"

text \<open>\<open>alloc_size = size + 1\<close> is computed in 32 bits. The terminator is written whether or not
  the read succeeds.\<close>

definition pb_dec_string :: "('s, 'h) penv \<Rightarrow> ('s, 'h) pb_decoder" where
  "pb_dec_string env s fld dest c =
     on_read (pb_decode_varint32 s) c (\<lambda>sz s.
       let size = unat sz; alloc_size = unat (sz + 1);
           fill = (\<lambda>dest s c. do {
             (status, s, c) \<leftarrow> read_into s dest size c;
             Some (status, s, upd_mem (mem_write (dest + size) [0]) c) })
       in if alloc_size < size then pb_return_error s ''size too large'' c
          else if PB_ATYPE (ftype fld) = PB_ATYPE_POINTER
          then on_ok (allocate_field env s dest alloc_size 1 c) (\<lambda>s c. fill (get_ptr dest c) s c)
          else if alloc_size > data_size fld then pb_return_error s ''string overflow'' c
          else fill dest s c)"

text \<open>What is common to the readers of a length-prefixed part: run \<open>body\<close> on the substream,
  then close it.\<close>

definition with_substream ::
  "'s pb_istream \<Rightarrow> 'h cstate \<Rightarrow> ('s pb_istream \<Rightarrow> 's pb_istream \<Rightarrow> ('s, 'h) pb_result)
     \<Rightarrow> ('s, 'h) pb_result" where
  "with_substream s c body =
     (case pb_make_string_substream s of
        (None, s) \<Rightarrow> Some (False, s, c)
      | (Some sub, s) \<Rightarrow> body sub s)"

definition close_with ::
  "bool \<Rightarrow> 's pb_istream \<Rightarrow> 's pb_istream \<Rightarrow> 'h cstate \<Rightarrow> ('s, 'h) pb_result" where
  "close_with status s sub c =
     (case pb_close_string_substream s sub of
        (False, s) \<Rightarrow> Some (False, s, c)
      | (True, s) \<Rightarrow> Some (status, s, c))"

definition pb_dec_submessage ::
  "('s, 'h) penv \<Rightarrow> ('s, 'h) pb_subdecoder \<Rightarrow> ('s, 'h) pb_decoder" where
  "pb_dec_submessage env sub s fld dest c =
     with_substream s c (\<lambda>substream s.
       if fptr fld = 0 then pb_return_error s ''invalid field descriptor'' c
       else do {
         (status, substream, c) \<leftarrow>
           sub (PB_HTYPE (ftype fld) = PB_HTYPE_REPEATED) substream (field_table env (fptr fld)) dest c;
         close_with status s substream c })"

definition pb_dec_fixed_length_bytes :: "('s, 'h) pb_decoder" where
  "pb_dec_fixed_length_bytes s fld dest c =
     on_read (pb_decode_varint32 s) c (\<lambda>sz s.
       let size = unat sz in
       if size > PB_SIZE_MAX then pb_return_error s ''bytes overflow'' c
       else if size = 0 then Some (True, s, upd_mem (memset0 dest (data_size fld)) c)
       else if size \<noteq> data_size fld
       then pb_return_error s ''incorrect fixed length bytes size'' c
       else read_into s dest (data_size fld) c)"

text \<open>The table of decoders; \<open>NULL\<close> for extensions and past its end.\<close>

definition PB_DECODERS ::
  "('s, 'h) penv \<Rightarrow> ('s, 'h) pb_subdecoder \<Rightarrow> u8 \<Rightarrow> ('s, 'h) pb_decoder option" where
  "PB_DECODERS env sub lt =
     (let table = [Some pb_dec_varint, Some pb_dec_uvarint, Some pb_dec_svarint,
        Some pb_dec_fixed32, Some pb_dec_fixed64,
        Some (pb_dec_bytes env), Some (pb_dec_string env), Some (pb_dec_submessage env sub),
        None, Some pb_dec_fixed_length_bytes]
      in if unat lt < PB_LTYPES_COUNT then table ! unat lt else None)"

definition call_decoder ::
  "('s, 'h) penv \<Rightarrow> ('s, 'h) pb_subdecoder \<Rightarrow> ('s, 'h) pb_decoder" where
  "call_decoder env sub s fld dest c =
     (case PB_DECODERS env sub (PB_LTYPE (ftype fld)) of
        None \<Rightarrow> None
      | Some func \<Rightarrow> func s fld dest c)"

end
