(* ===== verification/PbDecode.thy ===== *)
theory PbDecode
  imports PbFieldDec
begin

text \<open>
  The message decoder of pb_decode.c: static, pointer and callback fields, extensions, the loop
  of \<open>pb_decode_noinit\<close> with its bookkeeping of required and fixed-count fields, and the entry
  points. The number in front bounds the nesting of submessages and extensions and the rounds
  of a callback loop; the loops over a stream are bounded by its length.
\<close>

subsection \<open>Static fields\<close>

text \<open>The loop over a packed array: the result is the status, and the substream as it is when
  the loop ends. Every item read takes at least one byte.\<close>

primrec packed_static_loop ::
  "('s, 'h) pb_decoder \<Rightarrow> nat \<Rightarrow> 's pb_istream \<Rightarrow> pb_field_iter \<Rightarrow> 'h cstate \<Rightarrow> ('s, 'h) pb_result"
  where
  "packed_static_loop func 0 sub it c = None"
| "packed_static_loop func (Suc k) sub it c =
     (let fld = iter_field it; size = load_size (pSize it) c in
      if bytes_left sub > 0 \<and> size < array_size fld
      then do {
        (ok, sub, c) \<leftarrow> func sub fld (pData it + data_size fld * size) c;
        if \<not> ok then Some (False, sub, c)
        else packed_static_loop func k sub it
               (store_size (pSize it) (load_size (pSize it) c + 1) c) }
      else Some (True, sub, c))"

definition decode_static_field ::
  "('s, 'h) penv \<Rightarrow> nat \<Rightarrow> ('s, 'h) pb_subdecoder \<Rightarrow> 's pb_istream \<Rightarrow> u32 \<Rightarrow> pb_field_iter \<Rightarrow> 'h cstate
     \<Rightarrow> ('s, 'h) pb_result" where
  "decode_static_field env n sub s wire_type it c =
     (let fld = iter_field it; ty = ftype fld; func = call_decoder env sub in
      if PB_HTYPE ty = PB_HTYPE_REQUIRED then func s fld (pData it) c
      else if PB_HTYPE ty = PB_HTYPE_OPTIONAL
      then
        let c = (if pSize it \<noteq> pData it then upd_mem (store_bool (pSize it) True) c else c)
        in func s fld (pData it) c
      else if PB_HTYPE ty = PB_HTYPE_REPEATED
      then
        if wire_type = PB_WT_STRING \<and> PB_LTYPE ty \<le> PB_LTYPE_LAST_PACKABLE
        then with_substream s c (\<lambda>substream s. do {
          (status, substream, c) \<leftarrow>
            packed_static_loop func (bytes_left substream + 1) substream it c;
          if bytes_left substream \<noteq> 0 then pb_return_error s ''array overflow'' c
          else close_with status s substream c })
        else
          let size = load_size (pSize it) c;
              item = pData it + data_size fld * size;
              c = store_size (pSize it) (size + 1) c
          in if size \<ge> array_size fld then pb_return_error s ''array overflow'' c
             else func s fld item c
      else
        let c = store_size (pSize it) (tag fld) c
        in do {
          c \<leftarrow> (if PB_LTYPE ty = PB_LTYPE_SUBMESSAGE
            then pb_message_set_to_defaults env n (field_table env (fptr fld)) (pData it)
                   (upd_mem (memset0 (pData it) (data_size fld)) c)
            else Some c);
          func s fld (pData it) c })"

subsection \<open>Pointer fields\<close>

primrec packed_pointer_loop ::
  "('s, 'h) penv \<Rightarrow> nat \<Rightarrow> ('s, 'h) pb_decoder \<Rightarrow> nat \<Rightarrow> 's pb_istream \<Rightarrow> 's pb_istream
     \<Rightarrow> pb_field_iter \<Rightarrow> nat \<Rightarrow> 'h cstate
     \<Rightarrow> (bool \<times> 's pb_istream \<times> 's pb_istream \<times> 'h cstate) option" where
  "packed_pointer_loop env n func 0 s sub it allocated c = None"
| "packed_pointer_loop env n func (Suc k) s sub it allocated c =
     (let fld = iter_field it; size = load_size (pSize it) c in
      if bytes_left sub = 0 then Some (True, s, sub, c)
      else do {
        (ok, sub, c, allocated) \<leftarrow>
          (if size + 1 > allocated
           then
             if data_size fld = 0 then None
             else
               let allocated = size_add allocated ((bytes_left sub - 1) div data_size fld + 1)
               in do {
                 (ok, sub, c) \<leftarrow> allocate_field env sub (pData it) (data_size fld) allocated c;
                 Some (ok, sub, c, allocated) }
           else Some (True, sub, c, allocated));
        if \<not> ok then Some (False, s, sub, c)
        else
          let item = get_ptr (pData it) c + data_size fld * load_size (pSize it) c
          in do {
            c \<leftarrow> initialize_pointer_field env n item it c;
            (ok, sub, c) \<leftarrow> func sub fld item c;
            if \<not> ok then Some (False, s, sub, c)
            else if load_size (pSize it) c = PB_SIZE_MAX
            then Some (False, s\<lparr>ierrmsg := Some ''too many array entries''\<rparr>, sub, c)
            else packed_pointer_loop env n func k s sub it allocated
                   (store_size (pSize it) (load_size (pSize it) c + 1) c) } })"

definition decode_pointer_field ::
  "('s, 'h) penv \<Rightarrow> nat \<Rightarrow> ('s, 'h) pb_subdecoder \<Rightarrow> 's pb_istream \<Rightarrow> u32 \<Rightarrow> pb_field_iter \<Rightarrow> 'h cstate
     \<Rightarrow> ('s, 'h) pb_result" where
  "decode_pointer_field env n sub s wire_type it c =
     (let fld = iter_field it; ty = ftype fld; func = call_decoder env sub in
      if PB_HTYPE ty \<noteq> PB_HTYPE_REPEATED
      then do {
        c \<leftarrow> (if PB_LTYPE ty = PB_LTYPE_SUBMESSAGE \<and> get_ptr (pData it) c \<noteq> 0
          then pb_release_single_field env n it c else Some c);
        let c = (if PB_HTYPE ty = PB_HTYPE_ONEOF then store_size (pSize it) (tag fld) c else c);
        if PB_LTYPE ty = PB_LTYPE_STRING \<or> PB_LTYPE ty = PB_LTYPE_BYTES
        then func s fld (pData it) c
        else on_ok (allocate_field env s (pData it) (data_size fld) 1 c) (\<lambda>s c. do {
          c \<leftarrow> initialize_pointer_field env n (get_ptr (pData it) c) it c;
          func s fld (get_ptr (pData it) c) c }) }
      else if wire_type = PB_WT_STRING \<and> PB_LTYPE ty \<le> PB_LTYPE_LAST_PACKABLE
      then with_substream s c (\<lambda>substream s. do {
        (status, s, substream, c) \<leftarrow>
          packed_pointer_loop env n func (bytes_left substream + 1) s substream it
            (load_size (pSize it) c) c;
        close_with status s substream c })
      else if load_size (pSize it) c = PB_SIZE_MAX
      then pb_return_error s ''too many array entries'' c
      else
        let c = store_size (pSize it) (load_size (pSize it) c + 1) c
        in on_ok (allocate_field env s (pData it) (data_size fld) (load_size (pSize it) c) c)
             (\<lambda>s c. 
               let item = get_ptr (pData it) c + data_size fld * (load_size (pSize it) c - 1)
               in do {
                 c \<leftarrow> initialize_pointer_field env n item it c;
                 func s fld item c }))"

subsection \<open>Callback fields\<close>

text \<open>The \<open>do ... while (substream.bytes_left)\<close> loop around a user's callback, at most \<open>k\<close>
  rounds.\<close>

primrec callback_loop ::
  "('s, 'h) pb_callback_decoder \<Rightarrow> nat \<Rightarrow> 's pb_istream \<Rightarrow> pb_field \<Rightarrow> nat \<Rightarrow> 'h cstate
     \<Rightarrow> ('s, 'h) pb_result" where
  "callback_loop f 0 sub fld arg c = None"
| "callback_loop f (Suc k) sub fld arg c =
     (case f sub fld arg c of (ok, sub, c) \<Rightarrow>
        if \<not> ok then Some (False, sub, c)
        else if bytes_left sub \<noteq> 0 then callback_loop f k sub fld arg c
        else Some (True, sub, c))"

definition decode_callback_field ::
  "('s, 'h) penv \<Rightarrow> nat \<Rightarrow> 's pb_istream \<Rightarrow> u32 \<Rightarrow> pb_field_iter \<Rightarrow> 'h cstate \<Rightarrow> ('s, 'h) pb_result"
  where
  "decode_callback_field env n s wire_type it c =
     (let fld = iter_field it; arg = cb_arg_addr (pData it) in
      if pData it = 0 \<or> cb_func (pData it) (mem c) = 0
      then (case pb_skip_field s wire_type of (ok, s) \<Rightarrow> Some (ok, s, c))
      else
        let f = decode_funcs env (cb_func (pData it) (mem c))
        in if wire_type = PB_WT_STRING
           then with_substream s c (\<lambda>substream s. do {
             (ok, substream, c) \<leftarrow> callback_loop f n substream fld arg c;
             if \<not> ok then pb_return_error s ''callback failed'' c
             else close_with True s substream c })
           else on_read (read_raw_value s wire_type 10) c (\<lambda>buffer s.
             case f (pb_istream_from_buffer buffer (length buffer)) fld arg c of
               (ok, _, c) \<Rightarrow> Some (ok, s, c)))"

subsection \<open>Fields and extensions\<close>

text \<open>The iterator is passed by reference: the union release moves it.\<close>

definition decode_field ::
  "('s, 'h) penv \<Rightarrow> nat \<Rightarrow> ('s, 'h) pb_subdecoder \<Rightarrow> 's pb_istream \<Rightarrow> u32 \<Rightarrow> pb_field_iter \<Rightarrow> 'h cstate
     \<Rightarrow> (bool \<times> 's pb_istream \<times> pb_field_iter \<times> 'h cstate) option" where
  "decode_field env n sub s wire_type it c = do {
     (ok, s, it, c) \<leftarrow>
       (if PB_HTYPE (ftype (iter_field it)) = PB_HTYPE_ONEOF
        then pb_release_union_field env n s it c else Some (True, s, it, c));
     if \<not> ok then Some (False, s, it, c)
     else
       let at = PB_ATYPE (ftype (iter_field it)) in do {
         (ok, s, c) \<leftarrow>
           (if at = PB_ATYPE_STATIC then decode_static_field env n sub s wire_type it c
            else if at = PB_ATYPE_POINTER then decode_pointer_field env n sub s wire_type it c
            else if at = PB_ATYPE_CALLBACK then decode_callback_field env n s wire_type it c
            else pb_return_error s ''invalid field type'' c);
         Some (ok, s, it, c) } }"

definition default_extension_decoder ::
  "('s, 'h) penv \<Rightarrow> nat \<Rightarrow> ('s, 'h) pb_subdecoder \<Rightarrow> 's pb_istream \<Rightarrow> nat \<Rightarrow> u32 \<Rightarrow> u32 \<Rightarrow> 'h cstate
     \<Rightarrow> ('s, 'h) pb_result" where
  "default_extension_decoder env n sub s extension t wire_type c =
     (let fs = field_table env (ext_type_arg (ext_type extension (mem c)) (mem c)) in
      if tag (field_at fs 0) \<noteq> unat t then Some (True, s, c)
      else
        let it = iter_from_extension env extension c;
            c = upd_mem (store_bool (ext_found_addr extension) True) c
        in do {
          (ok, s, it, c) \<leftarrow> decode_field env n sub s wire_type it c;
          Some (ok, s, c) })"

text \<open>At most \<open>k\<close> extensions; \<open>p\<close> is the number of bytes left at the start.\<close>

primrec decode_extension_loop ::
  "('s, 'h) penv \<Rightarrow> nat \<Rightarrow> ('s, 'h) pb_subdecoder \<Rightarrow> nat \<Rightarrow> nat \<Rightarrow> 's pb_istream \<Rightarrow> nat \<Rightarrow> u32 \<Rightarrow> u32
     \<Rightarrow> 'h cstate \<Rightarrow> ('s, 'h) pb_result" where
  "decode_extension_loop env n sub 0 p s extension t wire_type c =
     (if extension \<noteq> 0 \<and> p = bytes_left s then None else Some (True, s, c))"
| "decode_extension_loop env n sub (Suc k) p s extension t wire_type c =
     (if extension \<noteq> 0 \<and> p = bytes_left s
      then do {
        (status, s, c) \<leftarrow>
          (let d = ext_type_decode (ext_type extension (mem c)) (mem c) in
           if d \<noteq> 0 then Some (extension_funcs env d s extension t wire_type c)
           else default_extension_decoder env n sub s extension t wire_type c);
        if \<not> status then Some (False, s, c)
        else decode_extension_loop env n sub k p s (ext_next extension (mem c)) t wire_type c }
      else Some (True, s, c))"

definition decode_extension ::
  "('s, 'h) penv \<Rightarrow> nat \<Rightarrow> ('s, 'h) pb_subdecoder \<Rightarrow> 's pb_istream \<Rightarrow> u32 \<Rightarrow> u32 \<Rightarrow> pb_field_iter
     \<Rightarrow> 'h cstate \<Rightarrow> ('s, 'h) pb_result" where
  "decode_extension env n sub s t wire_type it c =
     decode_extension_loop env n sub n (bytes_left s) s (get_ptr (pData it) c) t wire_type c"

text \<open>One round of the table, as for \<open>pb_field_iter_find\<close>.\<close>

fun find_extension_loop :: "nat \<Rightarrow> nat \<Rightarrow> pb_field_iter \<Rightarrow> (bool \<times> pb_field_iter) option" where
  "find_extension_loop 0 from it = None"
| "find_extension_loop (Suc k) from it =
     (if PB_LTYPE (ftype (iter_field it)) = PB_LTYPE_EXTENSION then Some (True, it)
      else let it' = snd (pb_field_iter_next it) in
        if pos it' \<noteq> from then find_extension_loop k from it' else Some (False, it'))"

definition find_extension_field :: "pb_field_iter \<Rightarrow> (bool \<times> pb_field_iter) option" where
  "find_extension_field it = find_extension_loop (length (start it) + 1) (pos it) it"

subsection \<open>Messages\<close>

text \<open>The locals of \<open>pb_decode_noinit\<close>. \<open>fixed_count_field\<close> is a position in the descriptor
  array; \<open>fixed_count_size\<close> is the one local whose address is taken, it lives in memory at the
  stack address the decoder was entered with.\<close>

record dec_locals =
  iter :: pb_field_iter
  fields_seen :: "u32 list"
  extension_range_start :: nat
  fixed_count_field :: "nat option"

text \<open>The check that the last repeated field of fixed count got all its items.\<close>

definition fixed_count_complete :: "nat \<Rightarrow> dec_locals \<Rightarrow> 'h cstate \<Rightarrow> bool" where
  "fixed_count_complete fcs l c =
     (case fixed_count_field l of
        None \<Rightarrow> True
      | Some p \<Rightarrow> load_size fcs c = array_size (field_at (start (iter l)) p))"

text \<open>A tag that no field has: the extension field takes it, or it is skipped.\<close>

definition decode_unknown ::
  "('s, 'h) penv \<Rightarrow> nat \<Rightarrow> ('s, 'h) pb_subdecoder \<Rightarrow> 's pb_istream \<Rightarrow> u32 \<Rightarrow> u32 \<Rightarrow> dec_locals
     \<Rightarrow> 'h cstate \<Rightarrow> (bool \<times> 's pb_istream \<times> dec_locals \<times> 'h cstate) option" where
  "decode_unknown env n sub s wire_type t l c = do {
     (status, handled, s, l, c) \<leftarrow>
       (if unat t \<ge> extension_range_start l
        then do {
          (found, it) \<leftarrow> find_extension_field (iter l);
          let l = l\<lparr>iter := it, extension_range_start := (if found then tag (iter_field it) else 2 ^ 32 - 1)\<rparr>;
          if unat t \<ge> extension_range_start l
          then do {
            (ok, s', c) \<leftarrow> decode_extension env n sub s t wire_type it c;
            Some (ok, bytes_left s' \<noteq> bytes_left s, s', l, c) }
          else Some (True, False, s, l, c) }
        else Some (True, False, s, l, c));
     if \<not> status then Some (False, s, l, c)
     else if handled then Some (True, s, l, c)
     else case pb_skip_field s wire_type of (ok, s) \<Rightarrow> Some (ok, s, l, c) }"

text \<open>A field that was found: the fixed-count bookkeeping, the mark of a required field, and
  the field itself.\<close>

definition enter_fixed_count :: "nat \<Rightarrow> dec_locals \<Rightarrow> 'h cstate \<Rightarrow> (dec_locals \<times> 'h cstate) option" where
  "enter_fixed_count fcs l c =
     (if PB_HTYPE (ftype (iter_field (iter l))) = PB_HTYPE_REPEATED \<and> pSize (iter l) = pData (iter l)
      then
        if fixed_count_field l \<noteq> Some (pos (iter l))
        then
          if \<not> fixed_count_complete fcs l c then None
          else Some (l\<lparr>fixed_count_field := Some (pos (iter l)), iter := iter l\<lparr>pSize := fcs\<rparr>\<rparr>,
                     store_size fcs 0 c)
        else Some (l\<lparr>iter := iter l\<lparr>pSize := fcs\<rparr>\<rparr>, c)
      else Some (l, c))"

definition mark_required :: "dec_locals \<Rightarrow> dec_locals" where
  "mark_required l =
     (let i = required_field_index (iter l) in
      if PB_HTYPE (ftype (iter_field (iter l))) = PB_HTYPE_REQUIRED \<and> i < PB_MAX_REQUIRED_FIELDS
      then l\<lparr>fields_seen := (fields_seen l)[i div 32 := fields_seen l ! (i div 32) OR push_bit (i mod 32) 1]\<rparr>
      else l)"

definition decode_known ::
  "('s, 'h) penv \<Rightarrow> nat \<Rightarrow> ('s, 'h) pb_subdecoder \<Rightarrow> nat \<Rightarrow> 's pb_istream \<Rightarrow> u32 \<Rightarrow> dec_locals
     \<Rightarrow> 'h cstate \<Rightarrow> (bool \<times> 's pb_istream \<times> dec_locals \<times> 'h cstate) option" where
  "decode_known env n sub fcs s wire_type l c =
     (case enter_fixed_count fcs l c of
        None \<Rightarrow> Some (False, set_ierr ''wrong size for fixed count field'' s, l, c)
      | Some (l, c) \<Rightarrow>
          let l = mark_required l in do {
            (ok, s, it, c) \<leftarrow> decode_field env n sub s wire_type (iter l) c;
            Some (ok, s, l\<lparr>iter := it\<rparr>, c) })"

text \<open>The \<open>while (stream->bytes_left)\<close> loop. Every round that goes on takes at least one byte
  from the stream, so the stream's length bounds the rounds.\<close>

primrec decode_loop ::
  "('s, 'h) penv \<Rightarrow> nat \<Rightarrow> ('s, 'h) pb_subdecoder \<Rightarrow> nat \<Rightarrow> nat \<Rightarrow> 's pb_istream \<Rightarrow> dec_locals
     \<Rightarrow> 'h cstate \<Rightarrow> (bool \<times> 's pb_istream \<times> dec_locals \<times> 'h cstate) option" where
  "decode_loop env n sub fcs 0 s l c = None"
| "decode_loop env n sub fcs (Suc k) s l c =
     (if bytes_left s = 0 then Some (True, s, l, c)
      else case pb_decode_tag s of
        (None, eof, s) \<Rightarrow> Some (eof, s, l, c)
      | (Some (wire_type, t), _, s) \<Rightarrow> do {
          (found, it) \<leftarrow> pb_field_iter_find (iter l) (unat t);
          let l = l\<lparr>iter := it\<rparr>;
          (ok, s, l, c) \<leftarrow>
            (if found then decode_known env n sub fcs s wire_type l c
             else decode_unknown env n sub s wire_type t l c);
          if ok then decode_loop env n sub fcs k s l c else Some (False, s, l, c) })"

text \<open>The number of required fields and the type of the last field, by going to the end of the
  descriptor array.\<close>

primrec seek_end :: "nat \<Rightarrow> pb_field_iter \<Rightarrow> (nat \<times> u8 \<times> pb_field_iter) option" where
  "seek_end 0 it = None"
| "seek_end (Suc k) it =
     (case pb_field_iter_next it of
        (True, it') \<Rightarrow> seek_end k it'
      | (False, it') \<Rightarrow> Some (required_field_index it, ftype (iter_field it), it'))"

definition count_required :: "pb_field_iter \<Rightarrow> nat option" where
  "count_required it = do {
     (req, last_type, it) \<leftarrow> seek_end (length (start it) + 1) it;
     let req = (if PB_HTYPE last_type = PB_HTYPE_REQUIRED \<and> tag (iter_field it) \<noteq> 0
                then req + 1 else req);
     Some (min req PB_MAX_REQUIRED_FIELDS) }"

definition all_seen :: "nat \<Rightarrow> u32 list \<Rightarrow> bool" where
  "all_seen req seen \<longleftrightarrow>
     list_all (\<lambda>w. w = - 1) (take (req div 32) seen) \<and>
     (req mod 32 = 0 \<or> seen ! (req div 32) = drop_bit (32 - req mod 32) (- 1))"

definition decode_finish ::
  "nat \<Rightarrow> 's pb_istream \<Rightarrow> dec_locals \<Rightarrow> 'h cstate \<Rightarrow> ('s, 'h) pb_result" where
  "decode_finish fcs s l c =
     (if \<not> fixed_count_complete fcs l c
      then pb_return_error s ''wrong size for fixed count field'' c
      else do {
        req \<leftarrow> count_required (iter l);
        if all_seen req (fields_seen l) then Some (True, s, c)
        else pb_return_error s ''missing required field'' c })"

definition noinit_locals :: "pb_field list \<Rightarrow> nat \<Rightarrow> dec_locals" where
  "noinit_locals fs dest =
     \<lparr>iter = snd (pb_field_iter_begin fs dest), fields_seen = [0, 0], extension_range_start = 0,
      fixed_count_field = None\<rparr>"

definition decode_noinit_with ::
  "('s, 'h) penv \<Rightarrow> nat \<Rightarrow> ('s, 'h) pb_subdecoder \<Rightarrow> 's pb_istream \<Rightarrow> pb_field list \<Rightarrow> nat
     \<Rightarrow> 'h cstate \<Rightarrow> ('s, 'h) pb_result" where
  "decode_noinit_with env n sub s fs dest c =
     (let fcs = sp c; c = store_size fcs 0 (c\<lparr>sp := fcs + 4\<rparr>) in do {
        (ok, s, l, c) \<leftarrow> decode_loop env n sub fcs (bytes_left s + 1) s (noinit_locals fs dest) c;
        (ok, s, c) \<leftarrow> (if ok then decode_finish fcs s l c else Some (False, s, c));
        Some (ok, s, c\<lparr>sp := fcs\<rparr>) })"

text \<open>\<open>pb_decode\<close> in terms of the function for \<open>pb_decode_noinit\<close>.\<close>

definition decode_with ::
  "('s, 'h) penv \<Rightarrow> nat
     \<Rightarrow> ('s pb_istream \<Rightarrow> pb_field list \<Rightarrow> nat \<Rightarrow> 'h cstate \<Rightarrow> ('s, 'h) pb_result)
     \<Rightarrow> 's pb_istream \<Rightarrow> pb_field list \<Rightarrow> nat \<Rightarrow> 'h cstate \<Rightarrow> ('s, 'h) pb_result" where
  "decode_with env n noinit s fs dest c = do {
     c \<leftarrow> pb_message_set_to_defaults env n fs dest c;
     (status, s, c) \<leftarrow> noinit s fs dest c;
     c \<leftarrow> (if status then Some c else pb_release env n fs dest c);
     Some (status, s, c) }"

primrec pb_decode_noinit ::
  "('s, 'h) penv \<Rightarrow> nat \<Rightarrow> 's pb_istream \<Rightarrow> pb_field list \<Rightarrow> nat \<Rightarrow> 'h cstate \<Rightarrow> ('s, 'h) pb_result"
  where
  "pb_decode_noinit env 0 s fs dest c = None"
| "pb_decode_noinit env (Suc n) s fs dest c =
     decode_noinit_with env n
       (\<lambda>init. if init then decode_with env n (pb_decode_noinit env n) else pb_decode_noinit env n)
       s fs dest c"

definition pb_decode ::
  "('s, 'h) penv \<Rightarrow> nat \<Rightarrow> 's pb_istream \<Rightarrow> pb_field list \<Rightarrow> nat \<Rightarrow> 'h cstate \<Rightarrow> ('s, 'h) pb_result"
  where
  "pb_decode env n = decode_with env n (pb_decode_noinit env n)"

definition pb_decode_delimited_noinit ::
  "('s, 'h) penv \<Rightarrow> nat \<Rightarrow> 's pb_istream \<Rightarrow> pb_field list \<Rightarrow> nat \<Rightarrow> 'h cstate \<Rightarrow> ('s, 'h) pb_result"
  where
  "pb_decode_delimited_noinit env n s fs dest c =
     with_substream s c (\<lambda>substream s. do {
       (status, substream, c) \<leftarrow> pb_decode_noinit env n substream fs dest c;
       close_with status s substream c })"

definition pb_decode_delimited ::
  "('s, 'h) penv \<Rightarrow> nat \<Rightarrow> 's pb_istream \<Rightarrow> pb_field list \<Rightarrow> nat \<Rightarrow> 'h cstate \<Rightarrow> ('s, 'h) pb_result"
  where
  "pb_decode_delimited env n s fs dest c =
     with_substream s c (\<lambda>substream s. do {
       (status, substream, c) \<leftarrow> pb_decode env n substream fs dest c;
       close_with status s substream c })"

definition pb_decode_nullterminated ::
  "('s, 'h) penv \<Rightarrow> nat \<Rightarrow> 's pb_istream \<Rightarrow> pb_field list \<Rightarrow> nat \<Rightarrow> 'h cstate \<Rightarrow> ('s, 'h) pb_result"
  where
  "pb_decode_nullterminated = pb_decode"

end
