(* ===== verification/PbProgress.thy ===== *)
theory PbProgress
  imports PbDecode
begin

text \<open>
  Reading never adds to a stream: every routine leaves at most as many bytes as it found, and
  the routines that return a value have taken at least one. This bounds the loops of the
  decoder by the length of the input, for any stream callback.
\<close>

definition shrinks :: "'s pb_istream \<Rightarrow> 'a \<times> 's pb_istream \<Rightarrow> bool" where
  "shrinks s r \<longleftrightarrow> bytes_left (snd r) \<le> bytes_left s"

definition takes :: "'s pb_istream \<Rightarrow> 'a option \<times> 's pb_istream \<Rightarrow> bool" where
  "takes s r \<longleftrightarrow> bytes_left (snd r) \<le> bytes_left s \<and>
     (fst r \<noteq> None \<longrightarrow> bytes_left (snd r) < bytes_left s)"

lemma takes_shrinks: "takes s r \<Longrightarrow> shrinks s r"
  by (simp add: takes_def shrinks_def)

lemma takesD:
  "takes s r \<Longrightarrow> r = (None, s') \<Longrightarrow> bytes_left s' \<le> bytes_left s"
  "takes s r \<Longrightarrow> r = (Some v, s') \<Longrightarrow> bytes_left s' < bytes_left s"
  by (auto simp: takes_def)

lemma shrinksD: "shrinks s r \<Longrightarrow> r = (v, s') \<Longrightarrow> bytes_left s' \<le> bytes_left s"
  by (auto simp: shrinks_def)

lemma icall_left [simp]: "bytes_left (snd (icall s n)) = bytes_left s"
  using icall_bytes_left [of s n "fst (icall s n)" "snd (icall s n)"] by simp

lemma pb_readbyte_takes: "takes s (pb_readbyte s)"
  by (cases "icall s 1"; cases "fst (icall s 1)")
    (auto simp: takes_def pb_readbyte_def simp del: One_nat_def dest: icall_bytes_left)

lemma pb_read_direct_left:
  "bytes_left (snd (pb_read_direct s n)) =
     (if fst (pb_read_direct s n) = None then bytes_left s else bytes_left s - n)"
  by (cases "icall s n"; cases "fst (icall s n)")
    (auto simp: pb_read_direct_def dest: icall_bytes_left)

lemma pb_read_skip_left: "bytes_left (snd (pb_read_skip s n)) \<le> bytes_left s"
proof (induction s n rule: pb_read_skip.induct)
  case (1 s n)
  show ?case
  proof (cases "16 < n")
    case True
    obtain r s' where r: "pb_read_direct s 16 = (r, s')" by (cases "pb_read_direct s 16")
    then have "bytes_left s' \<le> bytes_left s" using pb_read_direct_left [of s 16] by (auto split: if_splits)
    then show ?thesis
      using "1.IH" [OF True r [symmetric]] True
      by (subst pb_read_skip.simps) (auto simp: r split: option.splits intro: order_trans)
  next
    case False
    then show ?thesis using pb_read_direct_left [of s n] by (subst pb_read_skip.simps) auto
  qed
qed

lemma pb_read_shrinks: "shrinks s (pb_read s null n)"
  using pb_read_direct_left [of s n] pb_read_skip_left [of s n]
  by (auto simp: pb_read_def shrinks_def)

lemma pb_read_takes: "0 < n \<Longrightarrow> takes s (pb_read s False n)"
  using pb_read_direct_left [of s n]
  by (cases "pb_read_direct s n") (auto simp: pb_read_def takes_def dest: pb_read_direct_less)

lemma varint32_loop_shrinks: "shrinks s (varint32_loop s p r)"
proof (induction s p r rule: varint32_loop.induct)
  case (1 s p r)
  obtain o' s' where rb: "pb_readbyte s = (o', s')" by (cases "pb_readbyte s")
  then have le: "bytes_left s' \<le> bytes_left s" using pb_readbyte_takes [of s] by (auto simp: takes_def)
  show ?case
  proof (cases o')
    case None
    then show ?thesis using rb le by (subst varint32_loop.simps) (simp add: shrinks_def)
  next
    case (Some b)
    note IH = "1.IH" [OF rb [symmetric] Some refl refl refl]
    show ?thesis using IH le
      by (subst varint32_loop.simps) (auto simp: rb Some Let_def shrinks_def)
  qed
qed

lemma varint_loop_shrinks: "shrinks s (varint_loop s p r)"
proof (induction s p r rule: varint_loop.induct)
  case (1 s p r)
  obtain o' s' where rb: "pb_readbyte s = (o', s')" by (cases "pb_readbyte s")
  then have le: "bytes_left s' \<le> bytes_left s" using pb_readbyte_takes [of s] by (auto simp: takes_def)
  show ?case
  proof (cases "o' = None \<or> p \<ge> 64")
    case True
    then show ?thesis using rb le by (subst varint_loop.simps) (auto simp: shrinks_def)
  next
    case False
    then obtain b where Some: "o' = Some b" and p: "\<not> p \<ge> 64" by auto
    note IH = "1.IH" [OF p rb [symmetric] Some refl refl]
    show ?thesis using IH le p
      by (subst varint_loop.simps) (auto simp: rb Some Let_def shrinks_def)
  qed
qed

lemma pb_decode_varint32_eof_takes:
  "takes s (fst (pb_decode_varint32_eof s), snd (snd (pb_decode_varint32_eof s)))"
proof -
  obtain r s' where r: "pb_readbyte s = (r, s')" by (cases "pb_readbyte s")
  show ?thesis
    using pb_readbyte_takes [of s] varint32_loop_shrinks [of s' 7]
    by (cases r) (auto simp: r pb_decode_varint32_eof_def takes_def shrinks_def split_def
        intro: le_less_trans less_imp_le)
qed

lemma pb_decode_varint32_takes: "takes s (pb_decode_varint32 s)"
  using pb_decode_varint32_eof_takes [of s]
  by (simp add: pb_decode_varint32_def split_def)

lemma pb_decode_varint_takes: "takes s (pb_decode_varint s)"
proof -
  obtain r s' where r: "pb_readbyte s = (r, s')" by (cases "pb_readbyte s")
  show ?thesis
    unfolding pb_decode_varint_def
    using pb_readbyte_takes [of s] varint_loop_shrinks [of s' 7]
    by (subst varint_loop.simps, cases r)
      (auto simp: r takes_def shrinks_def Let_def intro: le_less_trans less_imp_le)
qed

lemma pb_decode_svarint_takes: "takes s (pb_decode_svarint s)"
  using pb_decode_varint_takes [of s]
  by (auto simp: pb_decode_svarint_def takes_def split: prod.splits option.splits)

lemma pb_decode_fixed32_takes: "takes s (pb_decode_fixed32 s)"
  using pb_read_takes [of 4 s]
  by (auto simp: pb_decode_fixed32_def takes_def split: prod.splits option.splits)

lemma pb_decode_fixed64_takes: "takes s (pb_decode_fixed64 s)"
  using pb_read_takes [of 8 s]
  by (auto simp: pb_decode_fixed64_def takes_def split: prod.splits option.splits)

lemma pb_decode_tag_takes: "takes s (fst (pb_decode_tag s), snd (snd (pb_decode_tag s)))"
  using pb_decode_varint32_eof_takes [of s]
  by (auto simp: pb_decode_tag_def takes_def split: prod.splits option.splits)

lemma pb_skip_varint_shrinks: "shrinks s (pb_skip_varint s)"
proof (induction s rule: pb_skip_varint.induct)
  case (1 s)
  obtain r s' where r: "pb_read s False 1 = (r, s')" by (cases "pb_read s False 1")
  then have "bytes_left s' \<le> bytes_left s" using pb_read_shrinks [of s False 1] by (simp add: shrinks_def)
  then show ?case using 1 [OF r [symmetric]]
    by (subst pb_skip_varint.simps, cases r)
      (auto simp: r shrinks_def simp del: One_nat_def intro: order_trans)
qed

lemma shrinks_ok_of: "shrinks s r \<Longrightarrow> shrinks s (ok_of r)"
  by (simp add: shrinks_def ok_of_def)

lemma pb_skip_field_shrinks: "shrinks s (pb_skip_field s wt)"
proof -
  have "shrinks s (pb_skip_string s)"
  proof -
    obtain r s' where r: "pb_decode_varint32 s = (r, s')" by (cases "pb_decode_varint32 s")
    show ?thesis
      using pb_decode_varint32_takes [of s] shrinks_ok_of [OF pb_read_shrinks [of s' True]]
      by (cases r) (auto simp: r pb_skip_string_def shrinks_def takes_def
          intro: le_less_trans less_imp_le order_trans)
  qed
  then show ?thesis
    by (simp add: pb_skip_field_def pb_skip_varint_shrinks shrinks_ok_of pb_read_shrinks)
      (simp add: shrinks_def)
qed

lemma raw_varint_shrinks: "shrinks s (raw_varint s m sz acc)"
proof (induction s m sz acc rule: raw_varint.induct)
  case (1 s m sz acc)
  obtain r s' where r: "pb_read s False 1 = (r, s')" by (cases "pb_read s False 1")
  then have le: "bytes_left s' \<le> bytes_left s" using pb_read_shrinks [of s False 1] by (simp add: shrinks_def)
  show ?case
  proof (cases "sz + 1 > m \<or> r = None")
    case True
    then show ?thesis using r le
      by (subst raw_varint.simps) (auto simp: shrinks_def simp del: One_nat_def)
  next
    case False
    then obtain bs where Some: "r = Some bs" and m: "\<not> sz + 1 > m" by auto
    note IH = "1.IH" [OF m r [symmetric] Some refl]
    show ?thesis using IH le m
      by (subst raw_varint.simps) (auto simp: r Some Let_def shrinks_def simp del: One_nat_def)
  qed
qed

lemma read_raw_value_shrinks: "shrinks s (read_raw_value s wt m)"
  by (simp add: read_raw_value_def raw_varint_shrinks pb_read_shrinks) (simp add: shrinks_def)

text \<open>A substream and what is left of its parent share the parent's bytes.\<close>

lemma make_substream_splits:
  assumes "pb_make_string_substream s = (Some sub, s')"
  shows "bytes_left sub + bytes_left s' < bytes_left s"
  using assms pb_decode_varint32_takes [of s]
  by (auto simp: pb_make_string_substream_def takes_def split: prod.splits option.splits if_splits)

lemma make_substream_shrinks: "shrinks s (pb_make_string_substream s)"
  using pb_decode_varint32_takes [of s]
  by (auto simp: pb_make_string_substream_def takes_def shrinks_def split: prod.splits option.splits if_splits)

lemma close_substream_left [simp]: "bytes_left (snd (pb_close_string_substream s sub)) = bytes_left s"
  by (auto simp: pb_close_string_substream_def split: prod.splits option.splits if_splits)

end
