(* ===== verification/PbSafety.thy ===== *)
theory PbSafety
  imports PbProgress
begin

text \<open>
  Decoding a message whose fields are all statically allocated, as the descriptor table lays
  them out in a struct, returns for every input and writes nothing outside the struct and the
  decoder's own stack slots. \<open>wf_msg\<close> is the requirement on the table, \<open>good\<close> the promise
  about a decoder; it is carried through the code from the field decoders to \<open>pb_decode\<close>.
\<close>

subsection \<open>Well-formed descriptor tables\<close>

definition item_count :: "pb_field \<Rightarrow> nat" where
  "item_count f = (if PB_HTYPE (ftype f) = PB_HTYPE_REPEATED then array_size f else 1)"

text \<open>The bytes of a field's items, and those of its count, has-flag or union selector. An array
  of fixed count has no count of its own, but its default value is set through the same
  pointer (see \<open>pb_field_set_to_default\<close>), so the four bytes there belong to it.\<close>

definition data_bytes :: "pb_field_iter \<Rightarrow> nat set" where
  "data_bytes it = {pData it ..< pData it + data_size (iter_field it) * item_count (iter_field it)}"

definition size_bytes :: "pb_field_iter \<Rightarrow> nat set" where
  "size_bytes it =
     (let h = PB_HTYPE (ftype (iter_field it)) in
      if h = PB_HTYPE_REPEATED \<or> h = PB_HTYPE_ONEOF then {pSize it ..< pSize it + 4}
      else if h = PB_HTYPE_OPTIONAL \<and> pSize it \<noteq> pData it then {pSize it ..< pSize it + 1}
      else {})"

definition wf_field ::
  "('s, 'h) penv \<Rightarrow> (pb_field list \<Rightarrow> nat \<Rightarrow> nat \<Rightarrow> bool) \<Rightarrow> nat set \<Rightarrow> pb_field_iter \<Rightarrow> bool" where
  "wf_field env W S it =
     (let f = iter_field it; lt = PB_LTYPE (ftype f) in
      PB_ATYPE (ftype f) = PB_ATYPE_STATIC \<and> lt \<noteq> PB_LTYPE_EXTENSION \<and> unat lt < PB_LTYPES_COUNT \<and>
      data_bytes it \<subseteq> S \<and> size_bytes it \<subseteq> S \<and>
      (lt = PB_LTYPE_FIXED32 \<longrightarrow> data_size f = 4) \<and> (lt = PB_LTYPE_FIXED64 \<longrightarrow> data_size f = 8) \<and>
      (lt = PB_LTYPE_SUBMESSAGE \<longrightarrow> fptr f \<noteq> 0 \<and>
         (\<forall>j < item_count f. W (field_table env (fptr f)) (pData it + data_size f * j) (data_size f))))"

text \<open>A message type nested at most \<open>k\<close> deep, with at least one field, whose table describes the
  struct at \<open>d\<close> of the given size.\<close>

primrec wf_msg :: "('s, 'h) penv \<Rightarrow> nat \<Rightarrow> pb_field list \<Rightarrow> nat \<Rightarrow> nat \<Rightarrow> bool" where
  "wf_msg env 0 fs d sz \<longleftrightarrow> False"
| "wf_msg env (Suc k) fs d sz \<longleftrightarrow> d \<noteq> 0 \<and> 0 < field_count fs \<and>
     (\<forall>i < field_count fs. wf_field env (wf_msg env k) {d ..< d + sz} (iter_at fs d i))"

lemma wf_field_cong:
  "wf_field env W S it \<Longrightarrow> S \<subseteq> T \<Longrightarrow> (\<And>fs d sz. W fs d sz \<Longrightarrow> W' fs d sz) \<Longrightarrow> wf_field env W' T it"
  by (auto simp: wf_field_def Let_def)

subsection \<open>Effects\<close>

definition ok_mem :: "nat set \<Rightarrow> 'h cstate \<Rightarrow> 'h cstate \<Rightarrow> bool" where
  "ok_mem S c c' \<longleftrightarrow> agree_outside S (mem c) (mem c') \<and> sp c' = sp c \<and> heap c' = heap c"

lemma ok_mem_refl [simp, intro]: "ok_mem S c c"
  by (simp add: ok_mem_def)

lemma ok_mem_trans [trans]: "ok_mem S c c' \<Longrightarrow> ok_mem S c' c'' \<Longrightarrow> ok_mem S c c''"
  by (auto simp: ok_mem_def intro: agree_outside_trans)

lemma ok_mem_mono: "ok_mem S c c' \<Longrightarrow> S \<subseteq> T \<Longrightarrow> ok_mem T c c'"
  by (auto simp: ok_mem_def intro: agree_outside_mono)

lemma ok_mem_upd: "agree_outside S (mem c) (f (mem c)) \<Longrightarrow> ok_mem S c (upd_mem f c)"
  by (simp add: ok_mem_def upd_mem_def)

lemma ok_mem_store_size: "{a ..< a + 4} \<subseteq> S \<Longrightarrow> ok_mem S c (store_size a n c)"
  by (simp add: store_size_def ok_mem_upd agree_outside_store)

lemma ok_mem_sp: "ok_mem S c c' \<Longrightarrow> sp c' = sp c"
  by (simp add: ok_mem_def)

text \<open>The promise: a result, at most the bytes that were there, writes only inside \<open>S\<close>.\<close>

definition good :: "nat set \<Rightarrow> 's pb_istream \<Rightarrow> 'h cstate \<Rightarrow> ('s, 'h) pb_result \<Rightarrow> bool" where
  "good S s c r \<longleftrightarrow>
     (\<exists>ok s' c'. r = Some (ok, s', c') \<and> bytes_left s' \<le> bytes_left s \<and> ok_mem S c c')"

text \<open>A successful result has taken at least one byte.\<close>

definition eats :: "'s pb_istream \<Rightarrow> ('s, 'h) pb_result \<Rightarrow> bool" where
  "eats s r \<longleftrightarrow> (\<forall>s' c'. r = Some (True, s', c') \<longrightarrow> bytes_left s' < bytes_left s)"

lemma goodI: "bytes_left s' \<le> bytes_left s \<Longrightarrow> ok_mem S c c' \<Longrightarrow> good S s c (Some (ok, s', c'))"
  by (simp add: good_def)

lemma good_mono: "good S s c r \<Longrightarrow> S \<subseteq> T \<Longrightarrow> good T s c r"
  by (auto simp: good_def intro: ok_mem_mono)

lemma good_step:
  "good S s' c' r \<Longrightarrow> bytes_left s' \<le> bytes_left s \<Longrightarrow> ok_mem S c c' \<Longrightarrow> good S s c r"
  by (auto simp: good_def intro: ok_mem_trans)

lemma good_return_error [simp, intro]: "good S s c (pb_return_error s msg c)"
  by (auto simp: pb_return_error_def intro!: goodI)

lemma good_bind:
  assumes "good S s c r"
    and "\<And>ok s' c'. bytes_left s' \<le> bytes_left s \<Longrightarrow> ok_mem S c c' \<Longrightarrow> good S s' c' (k ok s' c')"
  shows "good S s c (do { (ok, s, c) \<leftarrow> r; k ok s c })"
proof -
  from assms(1) obtain ok s' c' where r: "r = Some (ok, s', c')" "bytes_left s' \<le> bytes_left s" "ok_mem S c c'"
    by (auto simp: good_def)
  show ?thesis using good_step [OF assms(2) [OF r(2,3)] r(2,3)] by (simp add: r)
qed

lemma good_on_read:
  assumes "shrinks s r"
    and "\<And>v s'. r = (Some v, s') \<Longrightarrow> bytes_left s' \<le> bytes_left s \<Longrightarrow> good S s' c (k v s')"
  shows "good S s c (on_read r c k)"
proof -
  obtain x s' where r: "r = (x, s')" by (cases r)
  then have le: "bytes_left s' \<le> bytes_left s" using assms(1) by (simp add: shrinks_def)
  show ?thesis
  proof (cases x)
    case None
    then show ?thesis using le by (auto simp: on_read_def r intro!: goodI)
  next
    case (Some v)
    then show ?thesis
      using good_step [OF assms(2) [OF r [unfolded Some] le] le ok_mem_refl]
      by (simp add: on_read_def r)
  qed
qed

lemma eats_on_read:
  assumes "takes s r" "\<And>v s' s'' c'. k v s' = Some (True, s'', c') \<Longrightarrow> bytes_left s'' \<le> bytes_left s'"
  shows "eats s (on_read r c k)"
  using assms by (auto simp: eats_def on_read_def takes_def split: prod.splits option.splits dest!: assms(2))

subsection \<open>Field decoders\<close>

lemma good_store_clamped:
  assumes "{dest ..< dest + n} \<subseteq> S"
  shows "good S s c (store_clamped clamp s n v dest c)"
  using assms
  by (auto simp: store_clamped_def Let_def pb_return_error_def intro!: goodI ok_mem_upd agree_outside_store)

lemma store_clamped_left:
  "store_clamped clamp s n v dest c = Some (ok, s', c') \<Longrightarrow> bytes_left s' = bytes_left s"
  by (auto simp: store_clamped_def Let_def pb_return_error_def split: if_splits)

lemma good_read_into:
  assumes "{dest ..< dest + n} \<subseteq> S"
  shows "good S s c (read_into s dest n c)"
  unfolding read_into_def
proof (rule good_on_read [OF pb_read_shrinks])
  fix bs :: "u8 list" and s' :: "'a pb_istream"
  have "{dest ..< dest + length (take n bs)} \<subseteq> S" by (rule order_trans [OF _ assms]) auto
  then show "good S s' c (Some (True, s', if dest = 0 then c else upd_mem (mem_write dest (take n bs)) c))"
    by (auto intro!: goodI ok_mem_upd agree_outside_write)
qed

lemma good_integers:
  assumes "{dest ..< dest + data_size f} \<subseteq> S"
  shows "good S s c (pb_dec_varint s f dest c)" "good S s c (pb_dec_uvarint s f dest c)"
    "good S s c (pb_dec_svarint s f dest c)"
    "data_size f = 4 \<Longrightarrow> good S s c (pb_dec_fixed32 s f dest c)"
    "data_size f = 8 \<Longrightarrow> good S s c (pb_dec_fixed64 s f dest c)"
  unfolding pb_dec_varint_def pb_dec_uvarint_def pb_dec_svarint_def pb_dec_fixed32_def pb_dec_fixed64_def Let_def
  using assms
  by (intro good_on_read takes_shrinks pb_decode_varint_takes pb_decode_svarint_takes
      pb_decode_fixed32_takes pb_decode_fixed64_takes good_store_clamped;
      auto intro!: goodI ok_mem_upd agree_outside_store)+

lemma eats_integers:
  "eats s (pb_dec_varint s f dest c)" "eats s (pb_dec_uvarint s f dest c)"
  "eats s (pb_dec_svarint s f dest c)" "eats s (pb_dec_fixed32 s f dest c)"
  "eats s (pb_dec_fixed64 s f dest c)"
  unfolding pb_dec_varint_def pb_dec_uvarint_def pb_dec_svarint_def pb_dec_fixed32_def pb_dec_fixed64_def Let_def
  by (rule eats_on_read; auto intro: pb_decode_varint_takes pb_decode_svarint_takes
      pb_decode_fixed32_takes pb_decode_fixed64_takes dest: store_clamped_left)+

lemma alloc_size_bytes: "PB_BYTES_ARRAY_T_ALLOCSIZE (unat (sz :: u32)) = unat sz + 4"
  using unat_u32_less [of sz] by (simp add: PB_BYTES_ARRAY_T_ALLOCSIZE_def pb_consts)

lemma unat_plus_1:
  "\<not> unat (sz + 1) < unat sz \<Longrightarrow> unat (sz + 1) = unat (sz :: u32) + 1"
  using unat_u32_less [of sz]
  by (cases "Suc (unat sz) = 2 ^ 32") (auto simp: unat_word_ariths)

lemma good_pb_dec_bytes:
  assumes "{dest ..< dest + data_size f} \<subseteq> S" "PB_ATYPE (ftype f) = PB_ATYPE_STATIC"
  shows "good S s c (pb_dec_bytes env s f dest c)"
  unfolding pb_dec_bytes_def Let_def
proof (rule good_on_read [OF takes_shrinks [OF pb_decode_varint32_takes]])
  fix sz :: u32 and s' :: "'a pb_istream"
  have "good S s' c (read_into s' (dest + bytes_offset) (unat sz) (store_size dest (unat sz) c))"
    if "unat sz + 4 \<le> data_size f"
  proof -
    have 1: "{dest ..< dest + 4} \<subseteq> S" by (rule order_trans [OF _ assms(1)]) (use that in auto)
    have 2: "{dest + bytes_offset ..< dest + bytes_offset + unat sz} \<subseteq> S"
      by (rule order_trans [OF _ assms(1)]) (use that in \<open>auto simp: pb_consts\<close>)
    show ?thesis
      by (rule good_step [OF good_read_into [OF 2] order_refl ok_mem_store_size [OF 1]])
  qed
  then show "good S s' c
      (if PB_SIZE_MAX < unat sz then pb_return_error s' ''bytes overflow'' c
       else if PB_BYTES_ARRAY_T_ALLOCSIZE (unat sz) < unat sz then pb_return_error s' ''size too large'' c
       else if PB_ATYPE (ftype f) = PB_ATYPE_POINTER
       then on_ok (allocate_field env s' dest (PB_BYTES_ARRAY_T_ALLOCSIZE (unat sz)) 1 c)
             (\<lambda>s c. read_into s (get_ptr dest c + bytes_offset) (unat sz)
                      (store_size (get_ptr dest c) (unat sz) c))
       else if data_size f < PB_BYTES_ARRAY_T_ALLOCSIZE (unat sz)
       then pb_return_error s' ''bytes overflow'' c
       else read_into s' (dest + bytes_offset) (unat sz) (store_size dest (unat sz) c))"
    using assms(2) by (simp add: alloc_size_bytes pb_consts)
qed

lemma good_pb_dec_string:
  assumes "{dest ..< dest + data_size f} \<subseteq> S" "PB_ATYPE (ftype f) = PB_ATYPE_STATIC"
  shows "good S s c (pb_dec_string env s f dest c)"
  unfolding pb_dec_string_def Let_def
proof (rule good_on_read [OF takes_shrinks [OF pb_decode_varint32_takes]], goal_cases)
  case (1 sz s')
  have "good S s' c (do { (status, s, c) \<leftarrow> read_into s' dest (unat sz) c;
      Some (status, s, upd_mem (mem_write (dest + unat sz) [0]) c) })"
    if "unat sz + 1 \<le> data_size f"
  proof (rule good_bind [OF good_read_into])
    show "{dest ..< dest + unat sz} \<subseteq> S" by (rule order_trans [OF _ assms(1)]) (use that in auto)
    have "{dest + unat sz ..< dest + unat sz + length [0 :: u8]} \<subseteq> S"
      by (rule order_trans [OF _ assms(1)]) (use that in auto)
    then show "good S s'' c'' (Some (ok, s'', upd_mem (mem_write (dest + unat sz) [0]) c''))"
      for ok and s'' :: "'a pb_istream" and c'' :: "'b cstate"
      by (intro goodI ok_mem_upd agree_outside_write) auto
  qed
  then show ?case
    using assms(2) unat_plus_1 [of sz] by (auto simp: pb_consts)
qed

lemma good_pb_dec_fixed_length_bytes:
  assumes "{dest ..< dest + data_size f} \<subseteq> S"
  shows "good S s c (pb_dec_fixed_length_bytes s f dest c)"
  unfolding pb_dec_fixed_length_bytes_def Let_def
  by (rule good_on_read [OF takes_shrinks [OF pb_decode_varint32_takes]])
    (auto intro!: goodI ok_mem_upd agree_outside_memset0 [OF assms]
      agree_outside_memset0 [of dest 0] good_read_into [OF assms])

lemma good_with_substream:
  assumes "\<And>sub s'. bytes_left sub + bytes_left s' < bytes_left s \<Longrightarrow> good S s' c (body sub s')"
  shows "good S s c (with_substream s c body)"
proof -
  obtain r s' where r: "pb_make_string_substream s = (r, s')" by (cases "pb_make_string_substream s")
  show ?thesis
  proof (cases r)
    case None
    then show ?thesis using make_substream_shrinks [of s]
      by (auto simp: with_substream_def r shrinks_def intro!: goodI)
  next
    case (Some sub)
    then have lt: "bytes_left sub + bytes_left s' < bytes_left s"
      using make_substream_splits [of s] r by simp
    from good_step [OF assms [OF this] _ ok_mem_refl, of s] lt show ?thesis
      by (simp add: with_substream_def r Some)
  qed
qed

lemma good_close_with [intro]: "good S s c (close_with status s sub c)"
  using close_substream_left [of s sub]
  by (cases "pb_close_string_substream s sub"; cases "fst (pb_close_string_substream s sub)")
    (auto simp: close_with_def intro!: goodI)

text \<open>What the decoder of submessages is assumed to do: it is called on descriptor tables that
  satisfy \<open>W\<close>, and may also use \<open>m\<close> bytes of stack.\<close>

definition good_sub ::
  "(pb_field list \<Rightarrow> nat \<Rightarrow> nat \<Rightarrow> bool) \<Rightarrow> nat \<Rightarrow> ('s, 'h) pb_subdecoder \<Rightarrow> bool" where
  "good_sub W m sub \<longleftrightarrow> (\<forall>init s fs d sz c. W fs d sz \<longrightarrow>
     good ({d ..< d + sz} \<union> {sp c ..< sp c + m}) s c (sub init s fs d c))"

lemma good_pb_dec_submessage:
  assumes "good_sub W m sub" "W (field_table env (fptr f)) dest sz" "fptr f \<noteq> 0"
    "{dest ..< dest + sz} \<subseteq> S" "{sp c ..< sp c + m} \<subseteq> S"
  shows "good S s c (pb_dec_submessage env sub s f dest c)"
  unfolding pb_dec_submessage_def
proof (rule good_with_substream)
  fix substream s' :: "'a pb_istream"
  have g: "good S substream c (sub init substream (field_table env (fptr f)) dest c)" for init
    using assms(1,2) by (rule_tac good_mono [where S = "{dest ..< dest + sz} \<union> {sp c ..< sp c + m}"])
      (simp_all add: good_sub_def assms(4,5))
  show "good S s' c
      (if fptr f = 0 then pb_return_error s' ''invalid field descriptor'' c
       else do {
         (status, substream, c) \<leftarrow>
           sub (PB_HTYPE (ftype f) = PB_HTYPE_REPEATED) substream (field_table env (fptr f)) dest c;
         close_with status s' substream c })"
  proof -
    obtain ok sub' c' where r: "sub (PB_HTYPE (ftype f) = PB_HTYPE_REPEATED) substream
        (field_table env (fptr f)) dest c = Some (ok, sub', c')" "ok_mem S c c'"
      using g [of "PB_HTYPE (ftype f) = PB_HTYPE_REPEATED"] by (auto simp: good_def)
    show ?thesis
      using good_step [OF good_close_with order_refl r(2)] assms(3) by (simp add: r(1))
  qed
qed

lemma call_decoder_cases:
  "(call_decoder env sub :: ('s, 'h) pb_decoder) s f dest c =
     (let lt = PB_LTYPE (ftype f) in
      if lt = PB_LTYPE_VARINT then pb_dec_varint s f dest c
      else if lt = PB_LTYPE_UVARINT then pb_dec_uvarint s f dest c
      else if lt = PB_LTYPE_SVARINT then pb_dec_svarint s f dest c
      else if lt = PB_LTYPE_FIXED32 then pb_dec_fixed32 s f dest c
      else if lt = PB_LTYPE_FIXED64 then pb_dec_fixed64 s f dest c
      else if lt = PB_LTYPE_BYTES then pb_dec_bytes env s f dest c
      else if lt = PB_LTYPE_STRING then pb_dec_string env s f dest c
      else if lt = PB_LTYPE_SUBMESSAGE then pb_dec_submessage env sub s f dest c
      else if lt = PB_LTYPE_FIXED_LENGTH_BYTES then pb_dec_fixed_length_bytes s f dest c
      else None)"
proof -
  obtain k where k: "unat (PB_LTYPE (ftype f)) = k" by blast
  then have lt: "PB_LTYPE (ftype f) = of_nat k" by auto
  consider "k \<in> {0,1,2,3,4,5,6,7,8,9}" | "10 \<le> k" by fastforce
  then show ?thesis
  proof cases
    case 1
    then show ?thesis by (auto simp: call_decoder_def PB_DECODERS_def lt pb_consts Let_def)
  next
    case 2
    have "PB_LTYPE (ftype f) \<noteq> w" if "unat w < 10" for w using 2 k that by auto
    then show ?thesis using 2 k by (simp add: call_decoder_def PB_DECODERS_def pb_consts Let_def)
  qed
qed

lemma ltype_cases:
  assumes "unat lt < PB_LTYPES_COUNT"
  shows "lt \<in> {PB_LTYPE_VARINT, PB_LTYPE_UVARINT, PB_LTYPE_SVARINT, PB_LTYPE_FIXED32, PB_LTYPE_FIXED64,
     PB_LTYPE_BYTES, PB_LTYPE_STRING, PB_LTYPE_SUBMESSAGE, PB_LTYPE_EXTENSION, PB_LTYPE_FIXED_LENGTH_BYTES}"
proof -
  obtain k where k: "unat lt = k" by blast
  then have lt: "lt = of_nat k" by auto
  have "k \<in> {0,1,2,3,4,5,6,7,8,9}" using assms k by (auto simp: pb_consts)
  then show ?thesis by (auto simp: lt pb_consts)
qed

definition item_at :: "pb_field_iter \<Rightarrow> nat \<Rightarrow> nat" where
  "item_at it j = pData it + data_size (iter_field it) * j"

lemma item_bytes:
  assumes "j < item_count (iter_field it)"
  shows "{item_at it j ..< item_at it j + data_size (iter_field it)} \<subseteq> data_bytes it"
proof -
  have "data_size (iter_field it) * (j + 1) \<le> data_size (iter_field it) * item_count (iter_field it)"
    using assms by (intro mult_le_mono2) simp
  then show ?thesis by (auto simp: item_at_def data_bytes_def)
qed

lemma good_call_decoder:
  assumes wf: "wf_field env W S it" and sub: "good_sub W m sub" and "S \<subseteq> T"
    and stack: "{sp c ..< sp c + m} \<subseteq> T" and j: "j < item_count (iter_field it)"
  shows "good T s c (call_decoder env sub s (iter_field it) (item_at it j) c)"
proof -
  let ?f = "iter_field it"
  have d: "{item_at it j ..< item_at it j + data_size ?f} \<subseteq> T"
    using item_bytes [OF j] wf \<open>S \<subseteq> T\<close> by (auto simp: wf_field_def Let_def)
  have st: "PB_ATYPE (ftype ?f) = PB_ATYPE_STATIC" using wf by (simp add: wf_field_def Let_def)
  have lt: "PB_LTYPE (ftype ?f) \<in> {PB_LTYPE_VARINT, PB_LTYPE_UVARINT, PB_LTYPE_SVARINT,
     PB_LTYPE_FIXED32, PB_LTYPE_FIXED64, PB_LTYPE_BYTES, PB_LTYPE_STRING, PB_LTYPE_SUBMESSAGE,
     PB_LTYPE_FIXED_LENGTH_BYTES}"
    using wf ltype_cases [of "PB_LTYPE (ftype ?f)"] by (auto simp: wf_field_def Let_def)
  have subm: "good T s c (pb_dec_submessage env sub s ?f (item_at it j) c)"
    if "PB_LTYPE (ftype ?f) = PB_LTYPE_SUBMESSAGE"
    by (rule good_pb_dec_submessage [OF sub _ _ d stack])
      (use wf j that in \<open>auto simp: wf_field_def Let_def item_at_def\<close>)
  have fixed: "PB_LTYPE (ftype ?f) = PB_LTYPE_FIXED32 \<Longrightarrow> data_size ?f = 4"
    "PB_LTYPE (ftype ?f) = PB_LTYPE_FIXED64 \<Longrightarrow> data_size ?f = 8"
    using wf by (simp_all add: wf_field_def Let_def)
  show ?thesis
    using lt subm fixed unfolding call_decoder_cases Let_def
    by (elim insertE emptyE)
      (simp_all add: good_integers [OF d] good_pb_dec_bytes [OF d st] good_pb_dec_string [OF d st]
        good_pb_dec_fixed_length_bytes [OF d] pb_consts)
qed

lemma eats_call_decoder:
  assumes "PB_LTYPE (ftype f) \<le> PB_LTYPE_LAST_PACKABLE"
  shows "eats s (call_decoder env sub s f dest c)"
proof -
  have "unat (PB_LTYPE (ftype f)) \<le> 4" using assms by (simp add: word_le_nat_alt pb_consts)
  moreover from this have "unat (PB_LTYPE (ftype f)) < PB_LTYPES_COUNT" by (simp add: pb_consts)
  ultimately have "PB_LTYPE (ftype f) \<in> {PB_LTYPE_VARINT, PB_LTYPE_UVARINT, PB_LTYPE_SVARINT,
     PB_LTYPE_FIXED32, PB_LTYPE_FIXED64}"
    using ltype_cases [of "PB_LTYPE (ftype f)"] by (auto simp: pb_consts)
  then show ?thesis
    unfolding call_decoder_cases Let_def by (auto intro: eats_integers simp: pb_consts)
qed

subsection \<open>Default values and releasing\<close>

declare pb_field_set_to_default.simps [simp del] pb_release_single_field.simps [simp del]

text \<open>A loop over all fields of a table, when each step may only write \<open>S\<close>.\<close>

lemma fields_loop_ok:
  assumes step: "\<And>i c. i < field_count fs \<Longrightarrow> \<exists>c'. f (iter_at fs d i) c = Some c' \<and> R c c'"
    and R: "\<And>c. R c c" "\<And>a b c. R a b \<Longrightarrow> R b c \<Longrightarrow> R a c"
  shows "i < field_count fs \<Longrightarrow> field_count fs \<le> i + k \<Longrightarrow>
     \<exists>c'. fields_loop f k (iter_at fs d i) c = Some c' \<and> R c c'"
proof (induction k arbitrary: i c)
  case 0
  then show ?case by simp
next
  case (Suc k)
  obtain c1 where 1: "f (iter_at fs d i) c = Some c1" "R c c1" using step Suc.prems(1) by blast
  show ?case
  proof (cases "Suc i < field_count fs")
    case True
    then obtain c2 where "fields_loop f k (iter_at fs d (Suc i)) c1 = Some c2" "R c1 c2"
      using Suc.IH [of "Suc i" c1] Suc.prems by auto
    then show ?thesis using 1 True R(2) Suc.prems(1) by (auto simp: next_iter_at)
  next
    case False
    then show ?thesis using 1 Suc.prems(1) by (simp add: next_iter_at)
  qed
qed

lemma message_loop_ok:
  assumes step: "\<And>i c. i < field_count fs \<Longrightarrow> \<exists>c'. f (iter_at fs d i) c = Some c' \<and> R c c'"
    and R: "\<And>c. R c c" "\<And>a b c. R a b \<Longrightarrow> R b c \<Longrightarrow> R a c"
  shows "\<exists>c'. message_defaults_with f fs d c = Some c' \<and> R c c'"
    and "\<exists>c'. release_with f fs d c = Some c' \<and> R c c'"
proof -
  have loop: "\<exists>c'. fields_loop f (length fs) (iter_at fs d 0) c = Some c' \<and> R c c'" if "0 < field_count fs"
    using fields_loop_ok [of fs f d R 0 "length fs" c, OF step R that] field_count_le [of fs] by simp
  show "\<exists>c'. message_defaults_with f fs d c = Some c' \<and> R c c'"
    "\<exists>c'. release_with f fs d c = Some c' \<and> R c c'"
    using loop R(1)
    by (cases "0 < field_count fs"; auto simp: message_defaults_with_def release_with_def begin_iter_at)+
qed

lemma wf_field_type:
  assumes "wf_field env W S it"
  shows "PB_ATYPE (ftype (iter_field it)) = PB_ATYPE_STATIC"
    "PB_LTYPE (ftype (iter_field it)) \<noteq> PB_LTYPE_EXTENSION"
    "data_bytes it \<subseteq> S" "size_bytes it \<subseteq> S"
  using assms by (simp_all add: wf_field_def Let_def)

lemma wf_field_sub:
  assumes "wf_field env W S it" "PB_LTYPE (ftype (iter_field it)) = PB_LTYPE_SUBMESSAGE"
    "j < item_count (iter_field it)"
  shows "W (field_table env (fptr (iter_field it))) (item_at it j) (data_size (iter_field it))"
    "fptr (iter_field it) \<noteq> 0"
  using assms by (simp_all add: wf_field_def Let_def item_at_def)

lemma first_item [simp]: "item_at it 0 = pData it"
  by (simp add: item_at_def)

lemma single_item:
  assumes "PB_HTYPE (ftype (iter_field it)) \<noteq> PB_HTYPE_REPEATED"
  shows "item_count (iter_field it) = 1" "data_bytes it = {pData it ..< pData it + data_size (iter_field it)}"
  using assms by (simp_all add: item_count_def data_bytes_def)

lemma defaults_step:
  assumes wf: "wf_field env W S it"
    and sub: "\<And>fs d sz c. W fs d sz \<Longrightarrow>
      \<exists>c'. message_defaults_with (pb_field_set_to_default env n) fs d c = Some c' \<and> ok_mem {d ..< d + sz} c c'"
  shows "\<exists>c'. pb_field_set_to_default env (Suc n) it c = Some c' \<and> ok_mem S c c'"
proof -
  let ?f = "iter_field it"
  let ?h = "PB_HTYPE (ftype ?f)"
  note ty = wf_field_type [OF wf]
  show ?thesis
  proof (cases "?h = PB_HTYPE_REPEATED \<or> ?h = PB_HTYPE_ONEOF")
    case True
    then have "{pSize it ..< pSize it + 4} \<subseteq> S" using ty(4) by (simp add: size_bytes_def Let_def)
    then show ?thesis using True ty(1,2)
      by (auto simp: pb_field_set_to_default.simps(2) Let_def pb_consts intro: ok_mem_store_size)
  next
    case False
    define c1 where "c1 = (if ?h = PB_HTYPE_OPTIONAL \<and> pSize it \<noteq> pData it
      then upd_mem (store_bool (pSize it) False) c else c)"
    have "pSize it \<in> S" if "?h = PB_HTYPE_OPTIONAL" "pSize it \<noteq> pData it"
      using that ty(4) by (simp add: size_bytes_def Let_def pb_consts)
    then have c1: "ok_mem S c c1" by (auto simp: c1_def intro!: ok_mem_upd agree_outside_store_bool)
    have d: "{pData it ..< pData it + data_size ?f} \<subseteq> S"
      using ty(3) single_item(2) [of it] False by simp
    have eq: "pb_field_set_to_default env (Suc n) it c =
      (if PB_LTYPE (ftype ?f) = PB_LTYPE_SUBMESSAGE
       then message_defaults_with (pb_field_set_to_default env n) (field_table env (fptr ?f)) (pData it) c1
       else if fptr ?f \<noteq> 0 then Some (upd_mem (memcpy (pData it) (fptr ?f) (data_size ?f)) c1)
       else Some (upd_mem (memset0 (pData it) (data_size ?f)) c1))"
      using False ty(1,2) by (auto simp: pb_field_set_to_default.simps(2) Let_def c1_def)
    show ?thesis
    proof (cases "PB_LTYPE (ftype ?f) = PB_LTYPE_SUBMESSAGE")
      case True
      from wf_field_sub(1) [OF wf this, of 0] single_item(1) [of it] False
      obtain c' where "message_defaults_with (pb_field_set_to_default env n)
          (field_table env (fptr ?f)) (pData it) c1 = Some c'"
        "ok_mem {pData it ..< pData it + data_size ?f} c1 c'"
        using sub by fastforce
      then show ?thesis using True c1 d by (auto simp: eq intro: ok_mem_trans ok_mem_mono)
    next
      case False
      then show ?thesis using c1 d
        by (auto simp: eq intro!: ok_mem_trans [OF c1 ok_mem_upd]
            agree_outside_memcpy agree_outside_memset0)
    qed
  qed
qed

lemma field_defaults_ok:
  "wf_field env (wf_msg env k) S it \<Longrightarrow> k \<le> n \<Longrightarrow>
   \<exists>c'. pb_field_set_to_default env (Suc n) it c = Some c' \<and> ok_mem S c c'"
proof (induction n arbitrary: k S it c)
  case 0
  then show ?case by (intro defaults_step) auto
next
  case (Suc n)
  show ?case
  proof (rule defaults_step [OF Suc.prems(1)])
    fix fs d sz and c :: "'b cstate"
    assume "wf_msg env k fs d sz"
    then obtain k' where k: "k = Suc k'" "wf_msg env (Suc k') fs d sz" by (cases k) auto
    then show "\<exists>c'. message_defaults_with (pb_field_set_to_default env (Suc n)) fs d c = Some c' \<and>
        ok_mem {d ..< d + sz} c c'"
      using Suc.IH [of k'] Suc.prems(2)
      by (intro message_loop_ok) (auto intro: ok_mem_trans)
  qed
qed

lemma defaults_ok:
  assumes "wf_msg env k fs d sz" "k \<le> n"
  shows "\<exists>c'. pb_message_set_to_defaults env n fs d c = Some c' \<and> ok_mem {d ..< d + sz} c c'"
proof -
  obtain k' n' where "k = Suc k'" "n = Suc n'" using assms by (cases k; cases n) auto
  then show ?thesis
    using assms field_defaults_ok [of env k' _ _ n'] unfolding pb_message_set_to_defaults_def
    by (intro message_loop_ok) (auto intro: ok_mem_trans)
qed

text \<open>Releasing static fields does nothing.\<close>

lemma release_items_noop:
  "(\<And>j c. j < k \<Longrightarrow> f (p + sz * j) c = Some c) \<Longrightarrow> release_items f k sz p c = Some c"
proof (induction k arbitrary: p)
  case (Suc k)
  have "release_items f k sz (p + sz) c = Some c"
    by (rule Suc.IH) (use Suc.prems [of "Suc _"] in \<open>simp add: algebra_simps\<close>)
  then show ?case using Suc.prems [of 0] by simp
qed simp

lemma release_count_le:
  assumes "PB_ATYPE (ftype (iter_field it)) = PB_ATYPE_STATIC"
  shows "release_count it c \<le> item_count (iter_field it)"
  using assms by (auto simp: release_count_def item_count_def Let_def)

lemma release_step:
  assumes wf: "wf_field env W S it"
    and sub: "\<And>fs d sz c. W fs d sz \<Longrightarrow> release_with (pb_release_single_field env n) fs d c = Some c"
  shows "pb_release_single_field env (Suc n) it c = Some c"
proof -
  note ty = wf_field_type [OF wf]
  have "release_items (release_with (pb_release_single_field env n) (field_table env (fptr (iter_field it))))
      (release_count it c) (data_size (iter_field it)) (pData it) c = Some c"
    if sm: "PB_LTYPE (ftype (iter_field it)) = PB_LTYPE_SUBMESSAGE"
  proof (rule release_items_noop)
    fix j and c' :: "'b cstate"
    assume "j < release_count it c"
    then have "j < item_count (iter_field it)" using release_count_le [OF ty(1)] by (rule less_le_trans)
    from sub [OF wf_field_sub(1) [OF wf sm this]]
    show "release_with (pb_release_single_field env n) (field_table env (fptr (iter_field it)))
        (pData it + data_size (iter_field it) * j) c' = Some c'" by (simp add: item_at_def)
  qed
  then show ?thesis
    using ty(1,2) by (auto simp: pb_release_single_field.simps(2) Let_def release_pointer_def pb_consts)
qed

lemma release_noop:
  "wf_field env (wf_msg env k) S it \<Longrightarrow> k \<le> n \<Longrightarrow> pb_release_single_field env (Suc n) it c = Some c"
proof (induction n arbitrary: k S it c)
  case 0
  then show ?case by (intro release_step) auto
next
  case (Suc n)
  show ?case
  proof (rule release_step [OF Suc.prems(1)])
    fix fs d sz and c :: "'b cstate"
    assume "wf_msg env k fs d sz"
    then obtain k' where k: "k = Suc k'" "wf_msg env (Suc k') fs d sz" by (cases k) auto
    have "\<exists>c'. release_with (pb_release_single_field env (Suc n)) fs d c = Some c' \<and> c = c'"
      by (rule message_loop_ok(2)) (use k Suc.IH [of k' "{d ..< d + sz}"] Suc.prems(2) in auto)
    then show "release_with (pb_release_single_field env (Suc n)) fs d c = Some c" by simp
  qed
qed

lemma pb_release_noop:
  assumes "wf_msg env k fs d sz" "k \<le> n"
  shows "pb_release env n fs d c = Some c"
proof -
  obtain k' n' where "k = Suc k'" "n = Suc n'" using assms by (cases k; cases n) auto
  then have "\<exists>c'. pb_release env n fs d c = Some c' \<and> c = c'"
    unfolding pb_release_def
    by (intro message_loop_ok(2)) (use assms release_noop [of env k' "{d ..< d + sz}" _ n'] in auto)
  then show ?thesis by simp
qed

end
