(* ===== verification/PbDecSafe.thy ===== *)
theory PbDecSafe
  imports PbSafety
begin

text \<open>
  The promise of \<open>PbSafety\<close> carried through the message decoder: \<open>decode_static_field\<close>, the union
  release, the message loop and \<open>pb_decode\<close>.
\<close>

subsection \<open>Static fields\<close>

declare packed_static_loop.simps [simp del]

lemma array_item_count:
  "PB_HTYPE (ftype f) = PB_HTYPE_REPEATED \<Longrightarrow> item_count f = array_size f"
  by (simp add: item_count_def)

lemma wf_repeated_size:
  "wf_field env W S it \<Longrightarrow> PB_HTYPE (ftype (iter_field it)) = PB_HTYPE_REPEATED \<Longrightarrow>
   {pSize it ..< pSize it + 4} \<subseteq> S"
  using wf_field_type(4) [of env W S it] by (simp add: size_bytes_def Let_def)

lemma good_packed_static_loop:
  assumes wf: "wf_field env W T it" and sub: "good_sub W m sub"
    and rep: "PB_HTYPE (ftype (iter_field it)) = PB_HTYPE_REPEATED"
    and pack: "PB_LTYPE (ftype (iter_field it)) \<le> PB_LTYPE_LAST_PACKABLE"
  shows "bytes_left s < k \<Longrightarrow> {sp c ..< sp c + m} \<subseteq> T \<Longrightarrow>
     good T s c (packed_static_loop (call_decoder env sub) k s it c)"
proof (induction k arbitrary: s c)
  case 0
  then show ?case by simp
next
  case (Suc k)
  let ?f = "iter_field it"
  let ?size = "load_size (pSize it) c"
  show ?case
  proof (cases "bytes_left s > 0 \<and> ?size < array_size ?f")
    case False
    then show ?thesis by (auto simp: packed_static_loop.simps(2) Let_def intro!: goodI)
  next
    case True
    then have j: "?size < item_count ?f" by (simp add: array_item_count [OF rep])
    from good_call_decoder [OF wf sub order_refl Suc.prems(2) j, of s]
    obtain ok s' c' where r: "call_decoder env sub s ?f (pData it + data_size ?f * ?size) c = Some (ok, s', c')"
      and le: "bytes_left s' \<le> bytes_left s" and m: "ok_mem T c c'"
      by (auto simp: good_def item_at_def)
    show ?thesis
    proof (cases ok)
      case False
      then show ?thesis using True le m by (auto simp: packed_static_loop.simps(2) Let_def r intro!: goodI)
    next
      case ok: True
      let ?c = "store_size (pSize it) (load_size (pSize it) c' + 1) c'"
      have lt: "bytes_left s' < k"
        using eats_call_decoder [OF pack, of s env sub] r ok Suc.prems(1) by (fastforce simp: eats_def)
      have m': "ok_mem T c ?c"
        using ok_mem_trans [OF m ok_mem_store_size] wf_repeated_size [OF wf rep] by blast
      then have "{sp ?c ..< sp ?c + m} \<subseteq> T" using Suc.prems(2) by (simp add: ok_mem_def)
      from good_step [OF Suc.IH [OF lt this] le m'] show ?thesis
        using True ok by (simp add: packed_static_loop.simps(2) Let_def r)
    qed
  qed
qed

lemma good_decode_static_field:
  assumes wf: "wf_field env (wf_msg env k) T it" and sub: "good_sub (wf_msg env k) m sub"
    and stack: "{sp c ..< sp c + m} \<subseteq> T" and n: "k \<le> n"
  shows "good T s c (decode_static_field env n sub s wt it c)"
proof -
  let ?f = "iter_field it"
  let ?h = "PB_HTYPE (ftype ?f)"
  let ?call = "call_decoder env sub"
  have call: "good T s c' (?call s ?f (pData it) c')" if "ok_mem T c c'" "?h \<noteq> PB_HTYPE_REPEATED" for c'
    using good_call_decoder [OF wf sub order_refl, of c' 0] stack that single_item(1) [of it]
    by (simp add: ok_mem_def)
  consider "?h = PB_HTYPE_REQUIRED" | "?h = PB_HTYPE_OPTIONAL" | "?h = PB_HTYPE_REPEATED"
    | "?h \<noteq> PB_HTYPE_REQUIRED" "?h \<noteq> PB_HTYPE_OPTIONAL" "?h \<noteq> PB_HTYPE_REPEATED" by blast
  then show ?thesis
  proof cases
    case 1
    then show ?thesis using call [OF ok_mem_refl] by (simp add: decode_static_field_def Let_def pb_consts)
  next
    case 2
    define c' where "c' = (if pSize it \<noteq> pData it then upd_mem (store_bool (pSize it) True) c else c)"
    have "pSize it \<in> T" if "pSize it \<noteq> pData it"
      using that wf_field_type(4) [OF wf] 2 by (simp add: size_bytes_def Let_def pb_consts)
    then have m: "ok_mem T c c'" by (auto simp: c'_def intro!: ok_mem_upd agree_outside_store_bool)
    have "good T s c (?call s ?f (pData it) c')"
      using call [OF m] 2 by (auto intro: good_step [OF _ order_refl m] simp: pb_consts)
    then show ?thesis using 2 by (simp add: decode_static_field_def Let_def pb_consts c'_def)
  next
    case 3
    show ?thesis
    proof (cases "wt = PB_WT_STRING \<and> PB_LTYPE (ftype ?f) \<le> PB_LTYPE_LAST_PACKABLE")
      case True
      have "good T s' c (do {
          (status, substream, c) \<leftarrow> packed_static_loop ?call (bytes_left substream + 1) substream it c;
          if bytes_left substream \<noteq> 0 then pb_return_error s' ''array overflow'' c
          else close_with status s' substream c })" for substream s'
      proof -
        obtain ok sub' c' where "packed_static_loop ?call (bytes_left substream + 1) substream it c = Some (ok, sub', c')"
          "ok_mem T c c'"
          using good_packed_static_loop [OF wf sub 3, of substream "bytes_left substream + 1" c] True stack
          by (auto simp: good_def)
        then show ?thesis
          using good_step [OF good_return_error order_refl] good_step [OF good_close_with order_refl] by auto
      qed
      then have "good T s c (with_substream s c (\<lambda>substream s. do {
          (status, substream, c) \<leftarrow> packed_static_loop ?call (bytes_left substream + 1) substream it c;
          if bytes_left substream \<noteq> 0 then pb_return_error s ''array overflow'' c
          else close_with status s substream c }))" by (rule good_with_substream)
      then show ?thesis using 3 True by (simp add: decode_static_field_def Let_def pb_consts)
    next
      case False
      let ?size = "load_size (pSize it) c"
      define c' where "c' = store_size (pSize it) (?size + 1) c"
      have m: "ok_mem T c c'" unfolding c'_def by (rule ok_mem_store_size [OF wf_repeated_size [OF wf 3]])
      have "good T s c' (?call s ?f (item_at it ?size) c')" if "?size < array_size ?f"
        using good_call_decoder [OF wf sub order_refl, of c' ?size] stack m that
        by (simp add: ok_mem_def array_item_count [OF 3])
      then have "good T s c (if ?size \<ge> array_size ?f then pb_return_error s ''array overflow'' c'
          else ?call s ?f (pData it + data_size ?f * ?size) c')"
        using good_step [OF _ order_refl m] by (auto simp: item_at_def)
      moreover have "decode_static_field env n sub s wt it c =
          (if ?size \<ge> array_size ?f then pb_return_error s ''array overflow'' c'
           else ?call s ?f (pData it + data_size ?f * ?size) c')"
        using False 3 by (auto simp: decode_static_field_def Let_def c'_def pb_consts)
      ultimately show ?thesis by simp
    qed
  next
    case 4
    then have h: "?h = PB_HTYPE_ONEOF"
      using PB_HTYPE_cases [of "ftype ?f"] by auto
    define c1 where "c1 = store_size (pSize it) (tag ?f) c"
    have m1: "ok_mem T c c1" unfolding c1_def
      using wf_field_type(4) [OF wf] h by (intro ok_mem_store_size) (simp add: size_bytes_def)
    have d: "{pData it ..< pData it + data_size ?f} \<subseteq> T"
      using wf_field_type(3) [OF wf] single_item(2) [OF 4(3)] by simp
    obtain c2 where 2: "(if PB_LTYPE (ftype ?f) = PB_LTYPE_SUBMESSAGE
        then pb_message_set_to_defaults env n (field_table env (fptr ?f)) (pData it)
               (upd_mem (memset0 (pData it) (data_size ?f)) c1)
        else Some c1) = Some c2" and m2: "ok_mem T c1 c2"
    proof (cases "PB_LTYPE (ftype ?f) = PB_LTYPE_SUBMESSAGE")
      case True
      have "wf_msg env k (field_table env (fptr ?f)) (pData it) (data_size ?f)"
        using wf_field_sub(1) [OF wf True, of 0] single_item(1) [OF 4(3)] by simp
      from defaults_ok [OF this n, of "upd_mem (memset0 (pData it) (data_size ?f)) c1"]
      obtain c' where c': "pb_message_set_to_defaults env n (field_table env (fptr ?f)) (pData it)
          (upd_mem (memset0 (pData it) (data_size ?f)) c1) = Some c'"
        "ok_mem {pData it ..< pData it + data_size ?f} (upd_mem (memset0 (pData it) (data_size ?f)) c1) c'"
        by blast
      have "ok_mem T c1 (upd_mem (memset0 (pData it) (data_size ?f)) c1)"
        by (intro ok_mem_upd agree_outside_memset0 d)
      then have "ok_mem T c1 c'" using ok_mem_mono [OF c'(2) d] by (rule ok_mem_trans)
      then show ?thesis using that True c'(1) by simp
    next
      case False
      then show ?thesis using that [of c1] by simp
    qed
    have "decode_static_field env n sub s wt it c = ?call s ?f (pData it) c2"
      by (simp only: decode_static_field_def Let_def 4 if_False c1_def [symmetric] 2 Option.bind_lunit)
    moreover have "good T s c (?call s ?f (pData it) c2)"
      by (rule good_step [OF call order_refl]) (use ok_mem_trans [OF m1 m2] 4(3) in auto)
    ultimately show ?thesis by simp
  qed
qed

subsection \<open>One field of a message\<close>

text \<open>What stays fixed while a message is decoded: a non-empty table of well-formed fields, and
  the address of \<open>fixed_count_size\<close>; and where the iterator may be.\<close>

definition msg_ctx ::
  "('s, 'h) penv \<Rightarrow> nat \<Rightarrow> pb_field list \<Rightarrow> nat \<Rightarrow> nat set \<Rightarrow> nat \<Rightarrow> bool" where
  "msg_ctx env k fs d T fcs \<longleftrightarrow> 0 < field_count fs \<and> {fcs ..< fcs + 4} \<subseteq> T \<and>
     (\<forall>i < field_count fs. wf_field env (wf_msg env k) T (iter_at fs d i))"

definition at_field :: "pb_field list \<Rightarrow> nat \<Rightarrow> nat \<Rightarrow> pb_field_iter \<Rightarrow> bool" where
  "at_field fs d fcs it \<longleftrightarrow> (\<exists>i. canonical fs d i it \<and> (it = iter_at fs d i \<or> pSize it = fcs))"

lemma at_field_iter_at [intro]: "i < field_count fs \<Longrightarrow> at_field fs d fcs (iter_at fs d i)"
  by (auto simp: at_field_def)

lemma at_field_wf:
  assumes "msg_ctx env k fs d T fcs" "at_field fs d fcs it"
  shows "wf_field env (wf_msg env k) T it"
proof -
  obtain i where i: "canonical fs d i it" "it = iter_at fs d i \<or> pSize it = fcs"
    using assms(2) by (auto simp: at_field_def)
  note can = canonical_sel [OF i(1)]
  have wf: "wf_field env (wf_msg env k) T (iter_at fs d i)" using assms(1) can(7) by (simp add: msg_ctx_def)
  show ?thesis
  proof (cases "it = iter_at fs d i")
    case False
    then have "PB_HTYPE (ftype (iter_field it)) = PB_HTYPE_REPEATED" "pSize it = fcs"
      using i can(4) by (auto simp: canonical_def)
    then have "size_bytes it \<subseteq> T" using assms(1) by (simp add: size_bytes_def msg_ctx_def)
    then show ?thesis using wf can by (simp add: wf_field_def Let_def data_bytes_def)
  qed (use wf in simp)
qed

lemma find_at_field:
  assumes "at_field fs d fcs it"
  obtains found it' where "pb_field_iter_find it t = Some (found, it')" "at_field fs d fcs it'"
    "found \<Longrightarrow> tag_matches t (iter_field it')"
proof -
  obtain i where i: "canonical fs d i it" "it = iter_at fs d i \<or> pSize it = fcs"
    using assms by (auto simp: at_field_def)
  note can = canonical_sel [OF i(1)]
  have eq: "pb_field_iter_find it t = iter_search (tag_matches t) (length fs + 1) i it"
    by (simp only: pb_field_iter_find_def find_loop_search can(1,3))
  show ?thesis
  proof (cases rule: search_result [OF i(1), of "tag_matches t"])
    case (1 j it')
    then have "at_field fs d fcs it'" using i canonical_sel(7) [OF 1(2)] by (cases "j = i") (auto simp: at_field_def)
    then show ?thesis using that [of True it'] 1 canonical_sel(4) [OF 1(2)] eq by simp
  next
    case 2
    then show ?thesis using that [of False "iter_at fs d i"] can(7) eq by (simp add: at_field_iter_at)
  qed
qed

lemma find_extension_at_field:
  assumes ctx: "msg_ctx env k fs d T fcs" and "at_field fs d fcs it"
  obtains it' where "find_extension_field it = Some (False, it')" "at_field fs d fcs it'"
proof -
  have loop: "find_extension_loop n from it = iter_search (\<lambda>f. PB_LTYPE (ftype f) = PB_LTYPE_EXTENSION) n from it"
    for n "from" it by (induction n arbitrary: it) (simp_all add: Let_def)
  obtain i where i: "canonical fs d i it" using assms(2) by (auto simp: at_field_def)
  note can = canonical_sel [OF i]
  have no: "PB_LTYPE (ftype (field_at fs j)) \<noteq> PB_LTYPE_EXTENSION" if "j < field_count fs" for j
    using ctx that wf_field_type(2) [of env "wf_msg env k" T "iter_at fs d j"] by (simp add: msg_ctx_def)
  show ?thesis
  proof (cases rule: search_result [OF i, of "\<lambda>f. PB_LTYPE (ftype f) = PB_LTYPE_EXTENSION"])
    case (1 j it')
    then show ?thesis using no canonical_sel(7) [OF 1(2)] by blast
  next
    case 2
    then show ?thesis using that [of "iter_at fs d i"] can
      by (simp add: find_extension_field_def loop at_field_iter_at del: iter_search.simps)
  qed
qed

text \<open>Results that carry the iterator.\<close>

definition good_it ::
  "(pb_field_iter \<Rightarrow> bool) \<Rightarrow> nat set \<Rightarrow> 's pb_istream \<Rightarrow> 'h cstate
     \<Rightarrow> (bool \<times> 's pb_istream \<times> pb_field_iter \<times> 'h cstate) option \<Rightarrow> bool" where
  "good_it P S s c r \<longleftrightarrow> (\<exists>ok s' it' c'. r = Some (ok, s', it', c') \<and>
     bytes_left s' \<le> bytes_left s \<and> ok_mem S c c' \<and> P it')"

lemma release_union_ok:
  assumes ctx: "msg_ctx env k fs d T fcs" and it: "at_field fs d fcs it" and n: "k < n"
  shows "\<exists>ok s' it'. pb_release_union_field env n s it c = Some (ok, s', it', c) \<and>
     bytes_left s' = bytes_left s \<and> at_field fs d fcs it'"
proof -
  let ?old = "load_size (pSize it) c" and ?new = "tag (iter_field it)"
  show ?thesis
  proof (cases "?old = 0 \<or> ?old = ?new")
    case True
    then show ?thesis using it by (auto simp: pb_release_union_field_def Let_def)
  next
    case False
    obtain found it1 where 1: "pb_field_iter_find it ?old = Some (found, it1)" "at_field fs d fcs it1"
      using find_at_field [OF it] by metis
    obtain n' where n': "n = Suc n'" "k \<le> n'" using n by (cases n) auto
    have rel: "pb_release_single_field env n it1 c = Some c"
      using release_noop [OF at_field_wf [OF ctx 1(2)] n'(2)] by (simp add: n'(1))
    obtain found2 it2 where "pb_field_iter_find it1 ?new = Some (found2, it2)" "at_field fs d fcs it2"
      using find_at_field [OF 1(2)] by metis
    then show ?thesis using False 1 rel
      by (cases found; cases found2) (auto simp: pb_release_union_field_def Let_def)
  qed
qed

lemma good_decode_field:
  assumes ctx: "msg_ctx env k fs d T fcs" and it: "at_field fs d fcs it" and n: "k < n"
    and sub: "good_sub (wf_msg env k) m sub" and stack: "{sp c ..< sp c + m} \<subseteq> T"
  shows "good_it (at_field fs d fcs) T s c (decode_field env n sub s wt it c)"
proof -
  have "\<exists>ok s1 it1. (if PB_HTYPE (ftype (iter_field it)) = PB_HTYPE_ONEOF
        then pb_release_union_field env n s it c else Some (True, s, it, c)) = Some (ok, s1, it1, c) \<and>
      bytes_left s1 = bytes_left s \<and> at_field fs d fcs it1"
    using release_union_ok [OF ctx it n, of s c] it
    by (cases "PB_HTYPE (ftype (iter_field it)) = PB_HTYPE_ONEOF") auto
  then obtain ok s1 it1 where 1: "(if PB_HTYPE (ftype (iter_field it)) = PB_HTYPE_ONEOF
        then pb_release_union_field env n s it c else Some (True, s, it, c)) = Some (ok, s1, it1, c)"
    "bytes_left s1 = bytes_left s" "at_field fs d fcs it1" by blast
  note wf = at_field_wf [OF ctx 1(3)]
  have "good T s1 c (decode_static_field env n sub s1 wt it1 c)"
    using good_decode_static_field [OF wf sub stack] n by simp
  then obtain ok2 s2 c2 where 2: "decode_static_field env n sub s1 wt it1 c = Some (ok2, s2, c2)"
    "bytes_left s2 \<le> bytes_left s1" "ok_mem T c c2" by (auto simp: good_def)
  have "decode_field env n sub s wt it c =
      (if ok then Some (ok2, s2, it1, c2) else Some (False, s1, it1, c))"
    using wf_field_type(1) [OF wf] by (simp add: decode_field_def 1(1) 2(1) Let_def)
  then show ?thesis using 1(2,3) 2(2,3) by (cases ok) (auto simp: good_it_def)
qed

subsection \<open>Messages\<close>

definition good_locals ::
  "pb_field list \<Rightarrow> nat \<Rightarrow> nat \<Rightarrow> nat set \<Rightarrow> 's pb_istream \<Rightarrow> 'h cstate
     \<Rightarrow> (bool \<times> 's pb_istream \<times> dec_locals \<times> 'h cstate) option \<Rightarrow> bool" where
  "good_locals fs d fcs S s c r \<longleftrightarrow> (\<exists>ok s' l' c'. r = Some (ok, s', l', c') \<and>
     bytes_left s' \<le> bytes_left s \<and> ok_mem S c c' \<and> at_field fs d fcs (iter l'))"

text \<open>Tags from the wire have at most 29 bits.\<close>

lemma decode_tag_small:
  assumes "pb_decode_tag s = (Some (wt, t), e, s')"
  shows "unat t < 2 ^ 29"
proof -
  obtain w where "t = drop_bit 3 (w :: u32)"
    using assms by (auto simp: pb_decode_tag_def split: prod.splits option.splits if_splits)
  then show ?thesis using unat_u32_less [of w] by (simp add: drop_bit_eq_div unat_div)
qed

lemma good_decode_unknown:
  assumes ctx: "msg_ctx env k fs d T fcs" and it: "at_field fs d fcs (iter l)" and t: "unat t < 2 ^ 29"
  shows "good_locals fs d fcs T s c (decode_unknown env n sub s wt t l c)"
proof -
  obtain ok s' where skip: "pb_skip_field s wt = (ok, s')" "bytes_left s' \<le> bytes_left s"
    using pb_skip_field_shrinks [of s wt] by (cases "pb_skip_field s wt") (auto simp: shrinks_def)
  obtain it' where ext: "find_extension_field (iter l) = Some (False, it')" "at_field fs d fcs it'"
    using find_extension_at_field [OF ctx it] .
  show ?thesis
    using t skip ext it by (auto simp: decode_unknown_def Let_def good_locals_def)
qed

lemma good_decode_known:
  assumes ctx: "msg_ctx env k fs d T fcs" and it: "at_field fs d fcs (iter l)" and n: "k < n"
    and sub: "good_sub (wf_msg env k) m sub" and stack: "{sp c ..< sp c + m} \<subseteq> T"
  shows "good_locals fs d fcs T s c (decode_known env n sub fcs s wt l c)"
proof (cases "enter_fixed_count fcs l c")
  case None
  then show ?thesis using it by (auto simp: decode_known_def good_locals_def)
next
  case (Some lc)
  obtain l1 c1 where lc: "lc = (l1, c1)" by (cases lc)
  have fcs: "{fcs ..< fcs + 4} \<subseteq> T" using ctx by (simp add: msg_ctx_def)
  have c1: "ok_mem T c c1"
    using Some ok_mem_store_size [OF fcs] unfolding lc by (auto simp: enter_fixed_count_def split: if_splits)
  have "at_field fs d fcs ((iter l)\<lparr>pSize := fcs\<rparr>)"
    if "PB_HTYPE (ftype (iter_field (iter l))) = PB_HTYPE_REPEATED"
  proof -
    obtain i where i: "canonical fs d i (iter l)" using it by (auto simp: at_field_def)
    then have "canonical fs d i ((iter l)\<lparr>pSize := fcs\<rparr>)"
      using that canonical_sel(4) [OF i] by (auto simp: canonical_def)
    then show ?thesis by (auto simp: at_field_def)
  qed
  then have it1: "at_field fs d fcs (iter l1)"
    using Some it unfolding lc by (auto simp: enter_fixed_count_def split: if_splits)
  have mark: "iter (mark_required l1) = iter l1" by (simp add: mark_required_def Let_def)
  have "good_it (at_field fs d fcs) T s c1 (decode_field env n sub s wt (iter (mark_required l1)) c1)"
    by (rule good_decode_field [OF ctx _ n sub]) (use it1 mark stack c1 in \<open>simp_all add: ok_mem_def\<close>)
  then show ?thesis using Some c1
    by (auto simp: decode_known_def Let_def lc good_it_def good_locals_def intro: ok_mem_trans)
qed

lemma good_decode_loop:
  assumes ctx: "msg_ctx env k fs d T fcs" and n: "k < n" and sub: "good_sub (wf_msg env k) m sub"
  shows "at_field fs d fcs (iter l) \<Longrightarrow> bytes_left s < j \<Longrightarrow> {sp c ..< sp c + m} \<subseteq> T \<Longrightarrow>
     good_locals fs d fcs T s c (decode_loop env n sub fcs j s l c)"
proof (induction j arbitrary: s l c)
  case 0
  then show ?case by simp
next
  case (Suc j)
  show ?case
  proof (cases "bytes_left s = 0 \<or> fst (pb_decode_tag s) = None")
    case True
    then show ?thesis using Suc.prems(1) pb_decode_tag_takes [of s]
      by (cases "pb_decode_tag s") (auto simp: good_locals_def takes_def)
  next
    case False
    then obtain wt t e s1 where tag: "pb_decode_tag s = (Some (wt, t), e, s1)"
      by (cases "pb_decode_tag s") auto
    then have s1: "bytes_left s1 < bytes_left s" using pb_decode_tag_takes [of s] by (simp add: takes_def)
    obtain found it where find: "pb_field_iter_find (iter l) (unat t) = Some (found, it)"
      "at_field fs d fcs it"
      using find_at_field [OF Suc.prems(1)] by metis
    let ?l = "l\<lparr>iter := it\<rparr>"
    let ?r = "if found then decode_known env n sub fcs s1 wt ?l c else decode_unknown env n sub s1 wt t ?l c"
    have "good_locals fs d fcs T s1 c ?r"
      using good_decode_known [OF ctx _ n sub Suc.prems(3), of ?l] find(2)
        good_decode_unknown [OF ctx _ decode_tag_small [OF tag], of ?l] by simp
    then obtain ok s2 l2 c2 where r: "?r = Some (ok, s2, l2, c2)" "bytes_left s2 \<le> bytes_left s1"
      "ok_mem T c c2" "at_field fs d fcs (iter l2)" by (auto simp: good_locals_def)
    have eq: "decode_loop env n sub fcs (Suc j) s l c =
        (if ok then decode_loop env n sub fcs j s2 l2 c2 else Some (False, s2, l2, c2))"
      by (cases found) (use False r(1) in \<open>simp_all add: tag find(1) Let_def\<close>)
    show ?thesis
    proof (cases ok)
      case True
      have "good_locals fs d fcs T s2 c2 (decode_loop env n sub fcs j s2 l2 c2)"
        by (rule Suc.IH [OF r(4)]) (use r(2,3) s1 Suc.prems in \<open>auto simp: ok_mem_def\<close>)
      then show ?thesis using True r(2,3) s1
        unfolding eq by (auto simp: good_locals_def intro: ok_mem_trans)
    next
      case False
      then show ?thesis using r s1 unfolding eq by (auto simp: good_locals_def)
    qed
  qed
qed

text \<open>From any position \<open>seek_end\<close> finds the last field, and the iterator is back at the
  start.\<close>

lemma seek_end_canonical:
  assumes "canonical fs d i it"
  shows "field_count fs \<le> i + k \<Longrightarrow> seek_end k it =
     Some (required_field_index (iter_at fs d (field_count fs - 1)),
       ftype (field_at fs (field_count fs - 1)), iter_at fs d 0)"
  using assms
proof (induction k arbitrary: i it)
  case 0
  then show ?case by (simp add: canonical_def)
next
  case (Suc k)
  note can = canonical_sel [OF Suc.prems(2)]
  show ?case
  proof (cases "Suc i < field_count fs")
    case True
    then show ?thesis
      using Suc.IH [OF _ canonical_iter_at [OF True]] Suc.prems by (simp add: next_canonical [OF Suc.prems(2)])
  next
    case False
    then have "i = field_count fs - 1" using can(7) by simp
    then show ?thesis using False can by (simp add: next_canonical [OF Suc.prems(2)])
  qed
qed

lemma count_required_some:
  assumes "at_field fs d fcs it"
  shows "\<exists>r. count_required it = Some r"
proof -
  obtain i where i: "canonical fs d i it" using assms by (auto simp: at_field_def)
  have "field_count fs \<le> i + (length (start it) + 1)"
    using field_count_le [of fs] canonical_sel(1) [OF i] by simp
  from seek_end_canonical [OF i this] show ?thesis by (simp add: count_required_def)
qed

lemma good_decode_finish:
  assumes "at_field fs d fcs' (iter l)"
  shows "good T s c (decode_finish fcs s l c)"
proof -
  obtain r where "count_required (iter l) = Some r" using count_required_some [OF assms] by blast
  then show ?thesis by (auto simp: decode_finish_def intro!: goodI)
qed

lemma msg_ctxI:
  assumes "wf_msg env (Suc k) fs d sz" "{d ..< d + sz} \<subseteq> T" "{fcs ..< fcs + 4} \<subseteq> T"
  shows "msg_ctx env k fs d T fcs"
  using assms wf_field_cong [OF _ assms(2), of env "wf_msg env k" _ "wf_msg env k"]
  by (simp add: msg_ctx_def)

lemma good_decode_noinit_with:
  assumes wf: "wf_msg env (Suc k) fs d sz" and n: "k < n" and sub: "good_sub (wf_msg env k) m sub"
    and T: "{d ..< d + sz} \<subseteq> T" "{sp c ..< sp c + (4 + m)} \<subseteq> T"
  shows "good T s c (decode_noinit_with env n sub s fs d c)"
proof -
  let ?fcs = "sp c"
  let ?c1 = "store_size ?fcs 0 (c\<lparr>sp := ?fcs + 4\<rparr>)"
  have fcs: "{?fcs ..< ?fcs + 4} \<subseteq> T" by (rule order_trans [OF _ T(2)]) auto
  have st: "{sp ?c1 ..< sp ?c1 + m} \<subseteq> T"
    by (rule order_trans [OF _ T(2)]) (auto simp: store_size_def upd_mem_def)
  note ctx = msg_ctxI [OF wf T(1) fcs]
  have it: "at_field fs d ?fcs (iter (noinit_locals fs d))"
    using ctx by (auto simp: noinit_locals_def begin_iter_at msg_ctx_def)
  have c1: "agree_outside T (mem c) (mem ?c1)" "heap ?c1 = heap c"
    using fcs by (simp_all add: store_size_def upd_mem_def agree_outside_store)
  obtain ok s2 l2 c2 where 2: "decode_loop env n sub ?fcs (bytes_left s + 1) s (noinit_locals fs d) ?c1 =
      Some (ok, s2, l2, c2)" "bytes_left s2 \<le> bytes_left s" "ok_mem T ?c1 c2" "at_field fs d ?fcs (iter l2)"
    using good_decode_loop [OF ctx n sub it _ st, of s "bytes_left s + 1"] by (auto simp: good_locals_def)
  obtain ok3 s3 c3 where 3: "(if ok then decode_finish ?fcs s2 l2 c2 else Some (False, s2, c2)) = Some (ok3, s3, c3)"
    "bytes_left s3 \<le> bytes_left s2" "ok_mem T c2 c3"
    using good_decode_finish [OF 2(4), of T s2 c2 ?fcs] by (cases ok) (auto simp: good_def)
  have "decode_noinit_with env n sub s fs d c = Some (ok3, s3, c3\<lparr>sp := ?fcs\<rparr>)"
    by (simp only: decode_noinit_with_def Let_def 2(1) 3(1) Option.bind_lunit prod.case)
  moreover have "ok_mem T c (c3\<lparr>sp := ?fcs\<rparr>)"
    using c1 2(3) 3(3) by (auto simp: ok_mem_def intro: agree_outside_trans)
  ultimately show ?thesis using 2(2) 3(2) by (simp add: good_def)
qed

lemma good_decode_with:
  assumes wf: "wf_msg env k fs d sz" and n: "k \<le> n" and T: "{d ..< d + sz} \<subseteq> T"
    and noinit: "\<And>c'. sp c' = sp c \<Longrightarrow> good T s c' (noinit s fs d c')"
  shows "good T s c (decode_with env n noinit s fs d c)"
proof -
  obtain c1 where 1: "pb_message_set_to_defaults env n fs d c = Some c1" "ok_mem T c c1"
    using defaults_ok [OF wf n, of c] ok_mem_mono [OF _ T] by blast
  obtain ok s2 c2 where 2: "noinit s fs d c1 = Some (ok, s2, c2)" "bytes_left s2 \<le> bytes_left s" "ok_mem T c1 c2"
    using noinit [OF ok_mem_sp [OF 1(2)]] by (auto simp: good_def)
  have "decode_with env n noinit s fs d c = Some (ok, s2, c2)"
    using 1(1) 2(1) pb_release_noop [OF wf n, of c2] by (simp add: decode_with_def)
  then show ?thesis using 1(2) 2(2,3) by (auto intro!: goodI intro: ok_mem_trans)
qed

theorem good_pb_decode_noinit:
  "wf_msg env k fs d sz \<Longrightarrow> k < n \<Longrightarrow>
   good ({d ..< d + sz} \<union> {sp c ..< sp c + 4 * k}) s c (pb_decode_noinit env n s fs d c)"
proof (induction n arbitrary: k fs d sz s c)
  case 0
  then show ?case by simp
next
  case (Suc n)
  then obtain k' where k: "k = Suc k'" by (cases k) auto
  let ?sub = "\<lambda>init. if init then decode_with env n (pb_decode_noinit env n) else pb_decode_noinit env n"
  have sub: "good_sub (wf_msg env k') (4 * k') ?sub"
    unfolding good_sub_def
  proof (intro allI impI)
    fix init s fs d sz and c :: "'b cstate"
    assume wf: "wf_msg env k' fs d sz"
    note IH = Suc.IH [OF wf]
    show "good ({d ..< d + sz} \<union> {sp c ..< sp c + 4 * k'}) s c (?sub init s fs d c)"
    proof (cases init)
      case True
      have "good ({d ..< d + sz} \<union> {sp c ..< sp c + 4 * k'}) s c' (pb_decode_noinit env n s fs d c')"
        if "sp c' = sp c" for c' :: "'b cstate"
        using IH [of c' s] that Suc.prems(2) k by simp
      then show ?thesis using True Suc.prems(2) k
        by (simp add: good_decode_with [OF wf])
    qed (use IH Suc.prems(2) k in simp)
  qed
  have "good ({d ..< d + sz} \<union> {sp c ..< sp c + 4 * k}) s c (decode_noinit_with env n ?sub s fs d c)"
    by (rule good_decode_noinit_with [OF Suc.prems(1) [unfolded k] _ sub]) (use Suc.prems(2) k in auto)
  then show ?case by simp
qed

theorem good_pb_decode:
  assumes "wf_msg env k fs d sz" "k < n"
  shows "good ({d ..< d + sz} \<union> {sp c ..< sp c + 4 * k}) s c (pb_decode env n s fs d c)"
  unfolding pb_decode_def
proof (rule good_decode_with [OF assms(1)])
  show "good ({d ..< d + sz} \<union> {sp c ..< sp c + 4 * k}) s c' (pb_decode_noinit env n s fs d c')"
    if "sp c' = sp c" for c'
    using good_pb_decode_noinit [OF assms, of c'] that by simp
qed (use assms(2) in auto)

end
