(* ===== verification/PbRequired.thy ===== *)
theory PbRequired
  imports PbDecode
begin

text \<open>
  The bitmap of required fields that \<open>pb_decode_noinit\<close> keeps in \<open>fields_seen\<close>: what
  \<open>mark_required\<close> adds to the set of fields it stands for, and what the final comparison with
  full words, and with a shifted word for the rest, says of that set.
\<close>

text \<open>\<open>seen_set S seen\<close>: the two words hold the set \<open>S\<close>.\<close>

definition seen_set :: "nat set \<Rightarrow> u32 list \<Rightarrow> bool" where
  "seen_set S seen \<longleftrightarrow> length seen = 2 \<and> (\<forall>k < 2. \<forall>j < 32. bit (seen ! k) j \<longleftrightarrow> 32 * k + j \<in> S)"

lemma seen_set_mark:
  assumes "seen_set S seen" "i < 64"
  shows "seen_set (insert i S) (seen[i div 32 := seen ! (i div 32) OR push_bit (i mod 32) 1])"
proof -
  have "(32 * k + j = i) = (k = i div 32 \<and> j = i mod 32)" if "j < 32" for k j
    using that by auto
  moreover have "bit (push_bit (i mod 32) 1 :: u32) j \<longleftrightarrow> j = i mod 32" if "j < 32" for j
    using that by (auto simp: bit_simps)
  ultimately show ?thesis
    using assms by (auto simp: seen_set_def nth_list_update bit_or_iff)
qed

lemma all_bits_u32: "w = - 1 \<longleftrightarrow> (\<forall>j < 32. bit (w :: u32) j)"
  by (auto simp: bit_eq_iff bit_simps)

lemma low_bits_u32: "r < 32 \<Longrightarrow> w = mask r \<longleftrightarrow> (\<forall>j < 32. bit (w :: u32) j \<longleftrightarrow> j < r)"
  by (auto simp: bit_eq_iff bit_simps)

lemma all_seen_set:
  assumes "seen_set S seen" "S \<subseteq> {..<req}" "req \<le> 64"
  shows "all_seen req seen \<longleftrightarrow> S = {..<req}"
proof -
  obtain w0 w1 where s: "seen = [w0, w1]"
    using assms(1) by (auto simp: seen_set_def length_Suc_conv numeral_2_eq_2)
  have w: "bit w0 j \<longleftrightarrow> j \<in> S" "bit w1 j \<longleftrightarrow> 32 + j \<in> S" if "j < 32" for j
    using assms(1) that by (auto simp: seen_set_def s dest: spec [of _ 0] spec [of _ 1])
  consider "req < 32" | "req = 32" | "32 < req" "req < 64" | "req = 64" using assms(3) by linarith
  then show ?thesis
  proof cases
    case 1
    then have "all_seen req seen \<longleftrightarrow> req = 0 \<or> (\<forall>j < 32. j \<in> S \<longleftrightarrow> j < req)"
      by (auto simp: all_seen_def s low_bits_u32 w)
    then show ?thesis using 1 assms(2) by (cases "req = 0") auto
  next
    case 2
    then have "all_seen req seen \<longleftrightarrow> (\<forall>j < 32. j \<in> S)" by (auto simp: all_seen_def s all_bits_u32 w)
    then show ?thesis using 2 assms(2) by auto
  next
    case 3
    define r where "r = req - 32"
    have r: "req = 32 + r" "0 < r" "r < 32" "(32 + r) div 32 = Suc 0" using 3 by (simp_all add: r_def)
    then have "all_seen req seen \<longleftrightarrow> (\<forall>j < 32. j \<in> S) \<and> (\<forall>j < 32. 32 + j \<in> S \<longleftrightarrow> j < r)"
      by (auto simp: all_seen_def s all_bits_u32 low_bits_u32 w)
    moreover have "(\<forall>j < 32. j \<in> S) \<and> (\<forall>j < 32. 32 + j \<in> S \<longleftrightarrow> j < r) \<longleftrightarrow> S = {..<req}"
    proof (intro iffI conjI)
      assume a: "(\<forall>j < 32. j \<in> S) \<and> (\<forall>j < 32. 32 + j \<in> S \<longleftrightarrow> j < r)"
      have "j \<in> S" if "j < req" for j
        using a that r by (cases "j < 32") (auto dest!: conjunct2 spec [of _ "j - 32"])
      then show "S = {..<req}" using assms(2) by auto
    qed (use r in auto)
    ultimately show ?thesis by simp
  next
    case 4
    then have "all_seen req seen \<longleftrightarrow> (\<forall>j < 32. j \<in> S) \<and> (\<forall>j < 32. 32 + j \<in> S)"
      by (auto simp: all_seen_def s all_bits_u32 w)
    moreover have "(\<forall>j < 32. j \<in> S) \<and> (\<forall>j < 32. 32 + j \<in> S) \<longleftrightarrow> S = {..<req}"
    proof (intro iffI conjI)
      assume a: "(\<forall>j < 32. j \<in> S) \<and> (\<forall>j < 32. 32 + j \<in> S)"
      have "j \<in> S" if "j < req" for j
        using a that 4 by (cases "j < 32") (auto dest!: conjunct2 spec [of _ "j - 32"])
      then show "S = {..<req}" using assms(2) by auto
    qed (use 4 in auto)
    ultimately show ?thesis by simp
  qed
qed

lemma seen_set_marks:
  assumes "\<forall>it \<in> set its. PB_HTYPE (ftype (iter_field it)) = PB_HTYPE_REQUIRED \<and> required_field_index it < PB_MAX_REQUIRED_FIELDS"
    and "seen_set S (fields_seen l)"
  shows "seen_set (S \<union> required_field_index ` set its) (fields_seen (fold (\<lambda>it l. mark_required (l\<lparr>iter := it\<rparr>)) its l))"
  using assms
proof (induction its arbitrary: l S)
  case (Cons it its)
  then have "seen_set (insert (required_field_index it) S) (fields_seen (mark_required (l\<lparr>iter := it\<rparr>)))"
    by (simp add: mark_required_def Let_def seen_set_mark [simplified] PB_MAX_REQUIRED_FIELDS_def)
  from Cons.IH [OF _ this] Cons.prems(1) show ?case by simp
qed simp

lemma seen_set_start: "seen_set {} [0, 0]"
  by (auto simp: seen_set_def less_2_cases_iff)

end
