(* ===== verification/PbOStream.thy ===== *)
theory PbOStream
  imports PbIStream
begin

text \<open>
  The output side of pb_encode.c up to the field encoders: \<open>pb_ostream_t\<close>, \<open>pb_write\<close> and the
  integer, tag and string encoders. A \<open>NULL\<close> callback makes a sizing stream, which only
  counts. A stream over a buffer has \<open>buf_write\<close> as its callback and the bytes written to the
  buffer so far as its state. User callbacks are parameters, as on the input side.
\<close>

datatype 's ocallback = Buf_write | User_write "'s \<Rightarrow> u8 list \<Rightarrow> bool \<times> 's"

record 's pb_ostream =
  ocallback :: "'s ocallback option"
  ostate :: "'s sstate"
  max_size :: nat
  bytes_written :: nat
  oerrmsg :: "string option"

definition set_oerr :: "string \<Rightarrow> 's pb_ostream \<Rightarrow> 's pb_ostream" where
  "set_oerr msg s = s\<lparr>oerrmsg := PB_SET_ERROR (oerrmsg s) msg\<rparr>"

subsection \<open>Streams\<close>

definition pb_ostream_from_buffer :: "nat \<Rightarrow> 's pb_ostream" where
  "pb_ostream_from_buffer bufsize =
     \<lparr>ocallback = Some Buf_write, ostate = SBuf [], max_size = bufsize, bytes_written = 0,
      oerrmsg = None\<rparr>"

definition PB_OSTREAM_SIZING :: "'s pb_ostream" where
  "PB_OSTREAM_SIZING =
     \<lparr>ocallback = None, ostate = SBuf [], max_size = 0, bytes_written = 0, oerrmsg = None\<rparr>"

definition buf_write :: "'s pb_ostream \<Rightarrow> u8 list \<Rightarrow> nat \<Rightarrow> bool \<times> 's pb_ostream" where
  "buf_write s buf count = (case ostate s of
       SBuf dest \<Rightarrow> (True, s\<lparr>ostate := SBuf (dest @ take count buf)\<rparr>)
     | SUser _ \<Rightarrow> (False, s))"

definition ocall :: "'s ocallback \<Rightarrow> 's pb_ostream \<Rightarrow> u8 list \<Rightarrow> nat \<Rightarrow> bool \<times> 's pb_ostream" where
  "ocall cb s buf count = (case cb of
       Buf_write \<Rightarrow> buf_write s buf count
     | User_write f \<Rightarrow> (case ostate s of
         SUser u \<Rightarrow> (case f u (take count buf) of (ok, u') \<Rightarrow> (ok, s\<lparr>ostate := SUser u'\<rparr>))
       | SBuf _ \<Rightarrow> (False, s)))"

text \<open>\<open>buf\<close> is \<open>[]\<close> where the code passes \<open>NULL\<close>, which it does on sizing streams only.\<close>

definition pb_write :: "'s pb_ostream \<Rightarrow> u8 list \<Rightarrow> nat \<Rightarrow> bool \<times> 's pb_ostream" where
  "pb_write s buf count =
     (case ocallback s of
        None \<Rightarrow> (True, s\<lparr>bytes_written := size_add (bytes_written s) count\<rparr>)
      | Some cb \<Rightarrow>
          if size_add (bytes_written s) count > max_size s
          then (False, set_oerr ''stream full'' s)
          else case ocall cb s buf count of
            (False, s') \<Rightarrow> (False, set_oerr ''io error'' s')
          | (True, s') \<Rightarrow> (True, s'\<lparr>bytes_written := size_add (bytes_written s') count\<rparr>))"

subsection \<open>Integers, tags and strings\<close>

text \<open>The \<open>while (value)\<close> loop that fills the buffer with 7-bit groups.\<close>

function varint_groups :: "u64 \<Rightarrow> u8 list" where
  "varint_groups v =
     (if v = 0 then [] else (ucast (v AND 0x7F) OR 0x80) # varint_groups (drop_bit 7 v))"
  by pat_completeness auto
termination
  by (relation "measure unat") (auto simp: unat_drop_bit_7_less)

declare varint_groups.simps [simp del]

definition clear_last :: "u8 list \<Rightarrow> u8 list" where
  "clear_last bs = butlast bs @ [last bs AND 0x7F]"

definition varint_buffer :: "u64 \<Rightarrow> u8 list" where
  "varint_buffer v = (if v \<le> 0x7F then [ucast v] else clear_last (varint_groups v))"

definition pb_encode_varint :: "'s pb_ostream \<Rightarrow> u64 \<Rightarrow> bool \<times> 's pb_ostream" where
  "pb_encode_varint s v = pb_write s (varint_buffer v) (length (varint_buffer v))"

definition zigzag :: "u64 \<Rightarrow> u64" where
  "zigzag v = (if v <s 0 then NOT (push_bit 1 v) else push_bit 1 v)"

definition pb_encode_svarint :: "'s pb_ostream \<Rightarrow> u64 \<Rightarrow> bool \<times> 's pb_ostream" where
  "pb_encode_svarint s v = pb_encode_varint s (zigzag v)"

definition pb_encode_fixed32 :: "'s pb_ostream \<Rightarrow> u32 \<Rightarrow> bool \<times> 's pb_ostream" where
  "pb_encode_fixed32 s v =
     pb_write s [ucast (v AND 0xFF), ucast (drop_bit 8 v AND 0xFF), ucast (drop_bit 16 v AND 0xFF),
                 ucast (drop_bit 24 v AND 0xFF)] 4"

definition pb_encode_fixed64 :: "'s pb_ostream \<Rightarrow> u64 \<Rightarrow> bool \<times> 's pb_ostream" where
  "pb_encode_fixed64 s v =
     pb_write s [ucast (v AND 0xFF), ucast (drop_bit 8 v AND 0xFF), ucast (drop_bit 16 v AND 0xFF),
                 ucast (drop_bit 24 v AND 0xFF), ucast (drop_bit 32 v AND 0xFF),
                 ucast (drop_bit 40 v AND 0xFF), ucast (drop_bit 48 v AND 0xFF),
                 ucast (drop_bit 56 v AND 0xFF)] 8"

definition pb_encode_tag :: "'s pb_ostream \<Rightarrow> u32 \<Rightarrow> nat \<Rightarrow> bool \<times> 's pb_ostream" where
  "pb_encode_tag s wiretype field_number =
     pb_encode_varint s (push_bit 3 (of_nat field_number) OR ucast wiretype)"

text \<open>The wire type a field's data type is sent with.\<close>

definition wire_type_of :: "u8 \<Rightarrow> u32 option" where
  "wire_type_of ltype =
     (if ltype \<in> {PB_LTYPE_VARINT, PB_LTYPE_UVARINT, PB_LTYPE_SVARINT} then Some PB_WT_VARINT
      else if ltype = PB_LTYPE_FIXED32 then Some PB_WT_32BIT
      else if ltype = PB_LTYPE_FIXED64 then Some PB_WT_64BIT
      else if ltype \<in> {PB_LTYPE_BYTES, PB_LTYPE_STRING, PB_LTYPE_SUBMESSAGE,
        PB_LTYPE_FIXED_LENGTH_BYTES} then Some PB_WT_STRING
      else None)"

definition pb_encode_tag_for_field :: "'s pb_ostream \<Rightarrow> pb_field \<Rightarrow> bool \<times> 's pb_ostream" where
  "pb_encode_tag_for_field s f =
     (case wire_type_of (PB_LTYPE (ftype f)) of
        None \<Rightarrow> (False, set_oerr ''invalid field type'' s)
      | Some wt \<Rightarrow> pb_encode_tag s wt (tag f))"

definition pb_encode_string :: "'s pb_ostream \<Rightarrow> u8 list \<Rightarrow> nat \<Rightarrow> bool \<times> 's pb_ostream" where
  "pb_encode_string s buffer sz =
     (case pb_encode_varint s (of_nat sz) of
        (False, s') \<Rightarrow> (False, s')
      | (True, s') \<Rightarrow> pb_write s' buffer sz)"

subsection \<open>What the writers emit\<close>

text \<open>
  A stream that takes bytes: a sizing stream, or a buffer stream with what has been written.
  \<open>emit\<close> is the abstract effect of writing \<open>bs\<close>; every encoder below is \<open>emit\<close> of its bytes.
\<close>

definition emit :: "u8 list \<Rightarrow> 's pb_ostream \<Rightarrow> bool \<times> 's pb_ostream" where
  "emit bs s = pb_write s bs (length bs)"

lemma pb_encode_varint_emit: "pb_encode_varint s v = emit (varint_buffer v) s"
  by (simp add: pb_encode_varint_def emit_def)

end
