(* ===== verification/PbEncode.thy ===== *)
theory PbEncode
  imports PbCommon PbOStream
begin

text \<open>
  pb_encode.c from the field encoders up to \<open>pb_encode\<close>. Encoding reads the message in memory
  and writes to the stream only; the memory is an argument and comes back unchanged. As on the
  decoding side, the environment holds the descriptor arrays and the functions behind the
  function pointers, a number bounds the nesting, and \<open>None\<close> stands for a call without a result.
\<close>

type_synonym 's pb_oresult = "(bool \<times> 's pb_ostream) option"

record 's eenv =
  efield_table :: "nat \<Rightarrow> pb_field list"
  encode_funcs :: "nat \<Rightarrow> 's pb_ostream \<Rightarrow> pb_field \<Rightarrow> nat \<Rightarrow> mem \<Rightarrow> bool \<times> 's pb_ostream"
  extension_encoders :: "nat \<Rightarrow> 's pb_ostream \<Rightarrow> nat \<Rightarrow> mem \<Rightarrow> bool \<times> 's pb_ostream"

type_synonym 's pb_encoder = "'s pb_ostream \<Rightarrow> pb_field \<Rightarrow> nat \<Rightarrow> mem \<Rightarrow> 's pb_oresult"

text \<open>The encoder of a message at an address, as the submessage encoder gets it.\<close>

type_synonym 's pb_subencoder = "'s pb_ostream \<Rightarrow> pb_field list \<Rightarrow> nat \<Rightarrow> mem \<Rightarrow> 's pb_oresult"

text \<open>\<open>if (!f(stream)) return false;\<close> and \<open>PB_RETURN_ERROR\<close>.\<close>

definition then_write :: "'s pb_oresult \<Rightarrow> ('s pb_ostream \<Rightarrow> 's pb_oresult) \<Rightarrow> 's pb_oresult" where
  "then_write r k = do { (ok, s) \<leftarrow> r; if ok then k s else Some (False, s) }"

definition pb_oreturn_error :: "'s pb_ostream \<Rightarrow> string \<Rightarrow> 's pb_oresult" where
  "pb_oreturn_error s msg = Some (False, set_oerr msg s)"

subsection \<open>Values\<close>

text \<open>The integer at an address, of one of the four sizes, as 64 bits.\<close>

definition load_signed :: "nat \<Rightarrow> nat \<Rightarrow> mem \<Rightarrow> u64 option" where
  "load_signed n a m =
     (if n = 1 then Some (scast (load8 a m))
      else if n = 2 then Some (scast (load16 a m))
      else if n = 4 then Some (scast (load32 a m))
      else if n = 8 then Some (load64 a m)
      else None)"

definition load_unsigned :: "nat \<Rightarrow> nat \<Rightarrow> mem \<Rightarrow> u64 option" where
  "load_unsigned n a m =
     (if n = 1 then Some (ucast (load8 a m))
      else if n = 2 then Some (ucast (load16 a m))
      else if n = 4 then Some (ucast (load32 a m))
      else if n = 8 then Some (load64 a m)
      else None)"

definition pb_enc_varint :: "'s pb_encoder" where
  "pb_enc_varint s fld src m =
     (case load_signed (data_size fld) src m of
        None \<Rightarrow> pb_oreturn_error s ''invalid data_size''
      | Some v \<Rightarrow> Some (pb_encode_varint s v))"

definition pb_enc_uvarint :: "'s pb_encoder" where
  "pb_enc_uvarint s fld src m =
     (case load_unsigned (data_size fld) src m of
        None \<Rightarrow> pb_oreturn_error s ''invalid data_size''
      | Some v \<Rightarrow> Some (pb_encode_varint s v))"

definition pb_enc_svarint :: "'s pb_encoder" where
  "pb_enc_svarint s fld src m =
     (case load_signed (data_size fld) src m of
        None \<Rightarrow> pb_oreturn_error s ''invalid data_size''
      | Some v \<Rightarrow> Some (pb_encode_svarint s v))"

definition pb_enc_fixed32 :: "'s pb_encoder" where
  "pb_enc_fixed32 s fld src m = Some (pb_encode_fixed32 s (load32 src m))"

definition pb_enc_fixed64 :: "'s pb_encoder" where
  "pb_enc_fixed64 s fld src m = Some (pb_encode_fixed64 s (load64 src m))"

definition pb_enc_bytes :: "'s pb_encoder" where
  "pb_enc_bytes s fld src m =
     (if src = 0 then Some (pb_encode_string s [] 0)
      else
        let size = unat (load32 src m) in
        if PB_ATYPE (ftype fld) = PB_ATYPE_STATIC \<and> PB_BYTES_ARRAY_T_ALLOCSIZE size > data_size fld
        then pb_oreturn_error s ''bytes size exceeded''
        else Some (pb_encode_string s (mem_read (src + bytes_offset) size m) size))"

text \<open>The loop that stands in for \<open>strnlen\<close>.\<close>

function string_size :: "nat \<Rightarrow> nat \<Rightarrow> nat \<Rightarrow> mem \<Rightarrow> nat" where
  "string_size max_sz sz p m =
     (if sz < max_sz \<and> m (p + sz) \<noteq> 0 then string_size max_sz (sz + 1) p m else sz)"
  by pat_completeness auto
termination
  by (relation "measure (\<lambda>(max_sz, sz, _). max_sz - sz)") auto

declare string_size.simps [simp del]

definition pb_enc_string :: "'s pb_encoder" where
  "pb_enc_string s fld src m =
     (let max_sz = (if PB_ATYPE (ftype fld) = PB_ATYPE_POINTER then 2 ^ 64 - 1 else data_size fld);
          size = (if src = 0 then 0 else string_size max_sz 0 src m)
      in Some (pb_encode_string s (mem_read src size m) size))"

text \<open>\<open>stream->errmsg = substream.errmsg\<close> overwrites, unlike \<open>PB_SET_ERROR\<close>.\<close>

definition pb_encode_submessage_with ::
  "'s pb_subencoder \<Rightarrow> 's pb_ostream \<Rightarrow> pb_field list \<Rightarrow> nat \<Rightarrow> mem \<Rightarrow> 's pb_oresult" where
  "pb_encode_submessage_with enc s fs src m = do {
     (ok, substream) \<leftarrow> enc PB_OSTREAM_SIZING fs src m;
     if \<not> ok then Some (False, s\<lparr>oerrmsg := oerrmsg substream\<rparr>)
     else
       let size = bytes_written substream in
       then_write (Some (pb_encode_varint s (of_nat size))) (\<lambda>s.
         case ocallback s of
           None \<Rightarrow> Some (pb_write s [] size)
         | Some cb \<Rightarrow>
             if size_add (bytes_written s) size > max_size s then pb_oreturn_error s ''stream full''
             else do {
               (status, substream) \<leftarrow> enc
                 (substream\<lparr>ocallback := Some cb, ostate := ostate s, max_size := size,
                            bytes_written := 0, oerrmsg := None\<rparr>) fs src m;
               let s = s\<lparr>bytes_written := size_add (bytes_written s) (bytes_written substream),
                         ostate := ostate substream, oerrmsg := oerrmsg substream\<rparr>;
               if bytes_written substream \<noteq> size then pb_oreturn_error s ''submsg size changed''
               else Some (status, s) }) }"

definition pb_enc_submessage :: "'s eenv \<Rightarrow> 's pb_subencoder \<Rightarrow> 's pb_encoder" where
  "pb_enc_submessage env enc s fld src m =
     (if fptr fld = 0 then pb_oreturn_error s ''invalid field descriptor''
      else pb_encode_submessage_with enc s (efield_table env (fptr fld)) src m)"

definition pb_enc_fixed_length_bytes :: "'s pb_encoder" where
  "pb_enc_fixed_length_bytes s fld src m =
     Some (pb_encode_string s (mem_read src (data_size fld) m) (data_size fld))"

definition PB_ENCODERS :: "'s eenv \<Rightarrow> 's pb_subencoder \<Rightarrow> u8 \<Rightarrow> 's pb_encoder option" where
  "PB_ENCODERS env enc lt =
     (let table = [Some pb_enc_varint, Some pb_enc_uvarint, Some pb_enc_svarint,
        Some pb_enc_fixed32, Some pb_enc_fixed64,
        Some pb_enc_bytes, Some pb_enc_string, Some (pb_enc_submessage env enc),
        None, Some pb_enc_fixed_length_bytes]
      in if unat lt < PB_LTYPES_COUNT then table ! unat lt else None)"

definition call_encoder :: "'s eenv \<Rightarrow> 's pb_subencoder \<Rightarrow> 's pb_encoder" where
  "call_encoder env enc s fld src m =
     (case PB_ENCODERS env enc (PB_LTYPE (ftype fld)) of
        None \<Rightarrow> None
      | Some func \<Rightarrow> func s fld src m)"

subsection \<open>Arrays\<close>

text \<open>\<open>for (i = 0; i < count; i++) { ...; p += data_size; }\<close>\<close>

primrec items_loop ::
  "('s pb_ostream \<Rightarrow> nat \<Rightarrow> 's pb_oresult) \<Rightarrow> nat \<Rightarrow> nat \<Rightarrow> 's pb_ostream \<Rightarrow> nat \<Rightarrow> 's pb_oresult"
  where
  "items_loop f 0 sz s p = Some (True, s)"
| "items_loop f (Suc k) sz s p = then_write (f s p) (\<lambda>s. items_loop f k sz s (p + sz))"

definition packed_size ::
  "'s pb_encoder \<Rightarrow> pb_field \<Rightarrow> nat \<Rightarrow> nat \<Rightarrow> mem \<Rightarrow> (bool \<times> nat) option" where
  "packed_size func fld p count m =
     (if PB_LTYPE (ftype fld) = PB_LTYPE_FIXED32 then Some (True, 4 * count)
      else if PB_LTYPE (ftype fld) = PB_LTYPE_FIXED64 then Some (True, 8 * count)
      else do {
        (ok, sizestream) \<leftarrow>
          items_loop (\<lambda>s p. func s fld p m) count (data_size fld) PB_OSTREAM_SIZING p;
        Some (ok, bytes_written sizestream) })"

definition encode_array ::
  "'s pb_ostream \<Rightarrow> pb_field \<Rightarrow> nat \<Rightarrow> nat \<Rightarrow> 's pb_encoder \<Rightarrow> mem \<Rightarrow> 's pb_oresult" where
  "encode_array s fld p count func m =
     (if count = 0 then Some (True, s)
      else if PB_ATYPE (ftype fld) \<noteq> PB_ATYPE_POINTER \<and> count > array_size fld
      then pb_oreturn_error s ''array max size exceeded''
      else if PB_LTYPE (ftype fld) \<le> PB_LTYPE_LAST_PACKABLE
      then then_write (Some (pb_encode_tag s PB_WT_STRING (tag fld))) (\<lambda>s. do {
        (ok, size) \<leftarrow> packed_size func fld p count m;
        if \<not> ok then Some (False, s)
        else then_write (Some (pb_encode_varint s (of_nat size))) (\<lambda>s.
          if ocallback s = None then Some (pb_write s [] size)
          else items_loop (\<lambda>s p. func s fld p m) count (data_size fld) s p) })
      else items_loop (\<lambda>s p. then_write (Some (pb_encode_tag_for_field s fld)) (\<lambda>s.
             if PB_ATYPE (ftype fld) = PB_ATYPE_POINTER \<and>
                (PB_LTYPE (ftype fld) = PB_LTYPE_STRING \<or> PB_LTYPE (ftype fld) = PB_LTYPE_BYTES)
             then func s fld (load_ptr p m) m
             else func s fld p m)) count (data_size fld) s p)"

subsection \<open>Default values of proto3\<close>

definition all_zero :: "nat \<Rightarrow> nat \<Rightarrow> mem \<Rightarrow> bool" where
  "all_zero p n m = list_all (\<lambda>i. m (p + i) = 0) [0..<n]"

text \<open>\<open>do ... while (pb_field_iter_next)\<close> with an early exit.\<close>

primrec all_fields :: "(pb_field_iter \<Rightarrow> bool option) \<Rightarrow> nat \<Rightarrow> pb_field_iter \<Rightarrow> bool option" where
  "all_fields f 0 it = None"
| "all_fields f (Suc k) it = do {
     b \<leftarrow> f it;
     if \<not> b then Some False
     else case pb_field_iter_next it of
       (True, it') \<Rightarrow> all_fields f k it'
     | (False, _) \<Rightarrow> Some True }"

primrec pb_check_proto3_default_value :: "'s eenv \<Rightarrow> nat \<Rightarrow> pb_field \<Rightarrow> nat \<Rightarrow> mem \<Rightarrow> bool option"
  where
  "pb_check_proto3_default_value env 0 fld p m = None"
| "pb_check_proto3_default_value env (Suc n) fld p m =
     (let ty = ftype fld; pSize = size_addr p fld in
      if PB_HTYPE ty = PB_HTYPE_REQUIRED then Some False
      else if PB_HTYPE ty = PB_HTYPE_REPEATED then Some (load32 pSize m = 0)
      else if PB_HTYPE ty = PB_HTYPE_ONEOF then Some (load32 pSize m = 0)
      else if PB_HTYPE ty = PB_HTYPE_OPTIONAL \<and> size_offset fld \<noteq> 0
      then Some (\<not> load_bool pSize m)
      else if PB_ATYPE ty = PB_ATYPE_STATIC \<and> PB_LTYPE ty = PB_LTYPE_BYTES
      then Some (load32 p m = 0)
      else if PB_ATYPE ty = PB_ATYPE_STATIC \<and> PB_LTYPE ty = PB_LTYPE_STRING
      then Some (m p = 0)
      else if PB_ATYPE ty = PB_ATYPE_STATIC \<and> PB_LTYPE ty = PB_LTYPE_FIXED_LENGTH_BYTES
      then Some (data_size fld = 0)
      else if PB_ATYPE ty = PB_ATYPE_STATIC \<and> PB_LTYPE ty = PB_LTYPE_SUBMESSAGE
      then
        let fs = efield_table env (fptr fld) in
        (case pb_field_iter_begin fs p of
           (False, _) \<Rightarrow> Some True
         | (True, it) \<Rightarrow>
             all_fields (\<lambda>it. pb_check_proto3_default_value env n (iter_field it) (pData it) m)
               (length fs) it)
      else Some (all_zero p (data_size fld) m))"

subsection \<open>Fields\<close>

text \<open>\<open>pSize\<close> is \<open>None\<close> where it points to the local \<open>implicit_has\<close>, a \<open>bool\<close>; a oneof without a
  size offset would read four bytes from it.\<close>

definition encode_basic_field ::
  "'s eenv \<Rightarrow> nat \<Rightarrow> 's pb_subencoder \<Rightarrow> 's pb_ostream \<Rightarrow> pb_field \<Rightarrow> nat \<Rightarrow> mem \<Rightarrow> 's pb_oresult"
  where
  "encode_basic_field env n enc s fld p m =
     (let ty = ftype fld; func = call_encoder env enc;
          pSize = (if size_offset fld \<noteq> 0 then Some (size_addr p fld) else None)
      in do {
        implicit_has \<leftarrow>
          (if size_offset fld \<noteq> 0 then Some True
           else if PB_HTYPE ty = PB_HTYPE_OPTIONAL
           then map_option Not (pb_check_proto3_default_value env n fld p m)
           else Some True);
        let (p, implicit_has) =
              (if PB_ATYPE ty = PB_ATYPE_POINTER then (load_ptr p m, load_ptr p m \<noteq> 0)
               else (p, implicit_has));
        if PB_HTYPE ty = PB_HTYPE_REQUIRED
        then
          if p = 0 then pb_oreturn_error s ''missing required field''
          else then_write (Some (pb_encode_tag_for_field s fld)) (\<lambda>s. func s fld p m)
        else if PB_HTYPE ty = PB_HTYPE_OPTIONAL
        then
          if (case pSize of Some a \<Rightarrow> load_bool a m | None \<Rightarrow> implicit_has)
          then then_write (Some (pb_encode_tag_for_field s fld)) (\<lambda>s. func s fld p m)
          else Some (True, s)
        else if PB_HTYPE ty = PB_HTYPE_REPEATED
        then
          let count = (case pSize of Some a \<Rightarrow> unat (load32 a m) | None \<Rightarrow> array_size fld)
          in encode_array s fld p count func m
        else
          case pSize of
            None \<Rightarrow> None
          | Some a \<Rightarrow>
              if unat (load32 a m) = tag fld
              then then_write (Some (pb_encode_tag_for_field s fld)) (\<lambda>s. func s fld p m)
              else Some (True, s) })"

definition encode_callback_field ::
  "'s eenv \<Rightarrow> 's pb_ostream \<Rightarrow> pb_field \<Rightarrow> nat \<Rightarrow> mem \<Rightarrow> 's pb_oresult" where
  "encode_callback_field env s fld p m =
     (if cb_func p m \<noteq> 0
      then case encode_funcs env (cb_func p m) s fld (cb_arg_addr p) m of
        (ok, s) \<Rightarrow> if ok then Some (True, s) else pb_oreturn_error s ''callback error''
      else Some (True, s))"

definition encode_field ::
  "'s eenv \<Rightarrow> nat \<Rightarrow> 's pb_subencoder \<Rightarrow> 's pb_ostream \<Rightarrow> pb_field \<Rightarrow> nat \<Rightarrow> mem \<Rightarrow> 's pb_oresult"
  where
  "encode_field env n enc s fld p m =
     (let at = PB_ATYPE (ftype fld) in
      if at = PB_ATYPE_STATIC \<or> at = PB_ATYPE_POINTER then encode_basic_field env n enc s fld p m
      else if at = PB_ATYPE_CALLBACK then encode_callback_field env s fld p m
      else pb_oreturn_error s ''invalid field type'')"

definition default_extension_encoder ::
  "'s eenv \<Rightarrow> nat \<Rightarrow> 's pb_subencoder \<Rightarrow> 's pb_ostream \<Rightarrow> nat \<Rightarrow> mem \<Rightarrow> 's pb_oresult" where
  "default_extension_encoder env n enc s ext m =
     (let fld = field_at (efield_table env (ext_type_arg (ext_type ext m) m)) 0 in
      if PB_ATYPE (ftype fld) = PB_ATYPE_POINTER
      then encode_field env n enc s fld (ext_dest_addr ext) m
      else encode_field env n enc s fld (load_ptr (ext_dest_addr ext) m) m)"

text \<open>At most \<open>k\<close> extensions.\<close>

primrec encode_extension_loop ::
  "'s eenv \<Rightarrow> nat \<Rightarrow> 's pb_subencoder \<Rightarrow> nat \<Rightarrow> 's pb_ostream \<Rightarrow> nat \<Rightarrow> mem \<Rightarrow> 's pb_oresult" where
  "encode_extension_loop env n enc 0 s ext m = (if ext = 0 then Some (True, s) else None)"
| "encode_extension_loop env n enc (Suc k) s ext m =
     (if ext = 0 then Some (True, s)
      else then_write
        (let f = ext_type_encode (ext_type ext m) m in
         if f \<noteq> 0 then Some (extension_encoders env f s ext m)
         else default_extension_encoder env n enc s ext m)
        (\<lambda>s. encode_extension_loop env n enc k s (ext_next ext m) m))"

definition encode_extension_field ::
  "'s eenv \<Rightarrow> nat \<Rightarrow> 's pb_subencoder \<Rightarrow> 's pb_ostream \<Rightarrow> nat \<Rightarrow> mem \<Rightarrow> 's pb_oresult" where
  "encode_extension_field env n enc s p m = encode_extension_loop env n enc n s (load_ptr p m) m"

subsection \<open>Messages\<close>

primrec encode_fields_loop ::
  "('s pb_ostream \<Rightarrow> pb_field_iter \<Rightarrow> 's pb_oresult) \<Rightarrow> nat \<Rightarrow> 's pb_ostream \<Rightarrow> pb_field_iter
     \<Rightarrow> 's pb_oresult" where
  "encode_fields_loop f 0 s it = None"
| "encode_fields_loop f (Suc k) s it = then_write (f s it) (\<lambda>s.
     case pb_field_iter_next it of
       (True, it') \<Rightarrow> encode_fields_loop f k s it'
     | (False, _) \<Rightarrow> Some (True, s))"

definition encode_item ::
  "'s eenv \<Rightarrow> nat \<Rightarrow> 's pb_subencoder \<Rightarrow> mem \<Rightarrow> 's pb_ostream \<Rightarrow> pb_field_iter \<Rightarrow> 's pb_oresult"
  where
  "encode_item env n enc m s it =
     (if PB_LTYPE (ftype (iter_field it)) = PB_LTYPE_EXTENSION
      then encode_extension_field env n enc s (pData it) m
      else encode_field env n enc s (iter_field it) (pData it) m)"

primrec pb_encode ::
  "'s eenv \<Rightarrow> nat \<Rightarrow> 's pb_ostream \<Rightarrow> pb_field list \<Rightarrow> nat \<Rightarrow> mem \<Rightarrow> 's pb_oresult" where
  "pb_encode env 0 s fs src m = None"
| "pb_encode env (Suc n) s fs src m =
     (case pb_field_iter_begin fs src of
        (False, _) \<Rightarrow> Some (True, s)
      | (True, it) \<Rightarrow> encode_fields_loop (encode_item env n (pb_encode env n) m) (length fs) s it)"

definition pb_encode_submessage ::
  "'s eenv \<Rightarrow> nat \<Rightarrow> 's pb_ostream \<Rightarrow> pb_field list \<Rightarrow> nat \<Rightarrow> mem \<Rightarrow> 's pb_oresult" where
  "pb_encode_submessage env n = pb_encode_submessage_with (pb_encode env n)"

definition pb_encode_delimited ::
  "'s eenv \<Rightarrow> nat \<Rightarrow> 's pb_ostream \<Rightarrow> pb_field list \<Rightarrow> nat \<Rightarrow> mem \<Rightarrow> 's pb_oresult" where
  "pb_encode_delimited = pb_encode_submessage"

definition pb_encode_nullterminated ::
  "'s eenv \<Rightarrow> nat \<Rightarrow> 's pb_ostream \<Rightarrow> pb_field list \<Rightarrow> nat \<Rightarrow> mem \<Rightarrow> 's pb_oresult" where
  "pb_encode_nullterminated env n s fs src m =
     then_write (pb_encode env n s fs src m) (\<lambda>s. Some (pb_write s [0] 1))"

definition pb_get_encoded_size ::
  "'s eenv \<Rightarrow> nat \<Rightarrow> pb_field list \<Rightarrow> nat \<Rightarrow> mem \<Rightarrow> nat option option" where
  "pb_get_encoded_size env n fs src m = do {
     (ok, s) \<leftarrow> pb_encode env n PB_OSTREAM_SIZING fs src m;
     Some (if ok then Some (bytes_written s) else None) }"

end
