(* ===== verification/Codec.thy ===== *)
theory Codec
  imports PbIStream
begin

text \<open>
  The contract between an encoder and a decoder of the wire format, as locales. \<open>stream_codec\<close>
  is what every field decoder promises: from a buffer that starts with an encoding it returns
  the value and leaves the stream right behind it. \<open>wire_codec\<close> adds what the decoder of
  unknown fields needs: \<open>pb_skip_field\<close> moves past exactly the encoding. Both are interpreted
  on the integer, tag and string routines in \<open>PbVarint\<close>.
\<close>

locale stream_codec =
  fixes enc :: "'a \<Rightarrow> u8 list"
    and dec :: "'s pb_istream \<Rightarrow> 'a option \<times> 's pb_istream"
    and valid :: "'a \<Rightarrow> bool"
  assumes dec_enc: "valid a \<Longrightarrow>
    dec (bstream (enc a @ rest) (length (enc a) + k) e) = (Some a, bstream rest k e)"
begin

lemma dec_enc_exact: "valid a \<Longrightarrow> dec (bstream (enc a) (length (enc a)) e) = (Some a, bstream [] 0 e)"
  using dec_enc [of a "[]" 0 e] by simp

text \<open>No encoding is a proper prefix of another, so a sequence of encodings can only be read
  in one way.\<close>

lemma enc_prefix_free:
  assumes "valid a" "valid b" "enc a @ r = enc b @ r'"
  shows "a = b \<and> r = r'"
proof -
  have "dec (bstream (enc a @ r) (length (enc a @ r)) None) = (Some a, bstream r (length r) None)"
    using dec_enc [OF assms(1), of r "length r"] by simp
  moreover have "dec (bstream (enc b @ r') (length (enc b @ r')) None) = (Some b, bstream r' (length r') None)"
    using dec_enc [OF assms(2), of r' "length r'"] by simp
  ultimately show ?thesis using assms(3) by (simp add: bstream_def)
qed

lemma enc_inj: "valid a \<Longrightarrow> valid b \<Longrightarrow> enc a = enc b \<Longrightarrow> a = b"
  using enc_prefix_free [of a b "[]" "[]"] by simp

end

text \<open>Reading items until the stream is used up, as the decoder of packed arrays does.\<close>

function decode_until_end ::
  "('s pb_istream \<Rightarrow> 'a option \<times> 's pb_istream) \<Rightarrow> 's pb_istream \<Rightarrow> 'a list option" where
  "decode_until_end d s =
     (if bytes_left s = 0 then Some []
      else case d s of
        (None, _) \<Rightarrow> None
      | (Some a, s') \<Rightarrow>
          if bytes_left s' < bytes_left s then map_option (Cons a) (decode_until_end d s') else None)"
  by pat_completeness auto
termination
  by (relation "measure (\<lambda>(d, s). bytes_left s)") auto

declare decode_until_end.simps [simp del]

locale nonempty_codec = stream_codec +
  assumes enc_nonempty: "valid a \<Longrightarrow> enc a \<noteq> []"
begin

lemma decode_packed:
  "list_all valid xs \<Longrightarrow>
   decode_until_end dec (bstream (concat (map enc xs)) (length (concat (map enc xs))) e) = Some xs"
proof (induction xs)
  case Nil
  then show ?case by (simp add: decode_until_end.simps stream_simps)
next
  case (Cons x xs)
  let ?ys = "concat (map enc xs)"
  have "dec (bstream (enc x @ ?ys) (length (enc x) + length ?ys) e) =
      (Some x, bstream ?ys (length ?ys) e)"
    using Cons.prems by (simp add: dec_enc)
  then show ?case
    using Cons enc_nonempty [of x]
    by (simp add: decode_until_end.simps [of dec "bstream (enc x @ ?ys) _ e"] stream_simps)
qed

lemma packed_inj:
  "list_all valid xs \<Longrightarrow> list_all valid ys \<Longrightarrow> concat (map enc xs) = concat (map enc ys) \<Longrightarrow> xs = ys"
  by (metis decode_packed option.inject)

end

locale wire_codec = nonempty_codec enc dec valid
  for enc :: "'a \<Rightarrow> u8 list"
    and dec :: "'s pb_istream \<Rightarrow> 'a option \<times> 's pb_istream"
    and valid :: "'a \<Rightarrow> bool" +
  fixes wt :: u32
  assumes skip_enc: "valid a \<Longrightarrow>
    pb_skip_field (bstream (enc a @ rest) (length (enc a) + k) e :: 's pb_istream) wt
      = (True, bstream rest k e)"
begin

text \<open>Skipping and decoding agree on where an encoded value ends.\<close>

lemma skip_as_dec:
  "valid a \<Longrightarrow>
   snd (pb_skip_field (bstream (enc a @ rest) (length (enc a) + k) e :: 's pb_istream) wt) =
   snd (dec (bstream (enc a @ rest) (length (enc a) + k) e))"
  by (simp add: skip_enc dec_enc)

end

end
