(* ===== verification/PbVarint.thy ===== *)
theory PbVarint
  imports PbOStream Codec
begin

text \<open>
  The varint format: what \<open>pb_encode_varint\<close> writes, what \<open>pb_decode_varint\<close> and
  \<open>pb_decode_varint32\<close> read, and that they agree.
\<close>

subsection \<open>The encoder's bytes\<close>

lemma varint_groups_0 [simp]: "varint_groups 0 = []"
  by (subst varint_groups.simps) simp

lemma varint_groups_nonzero:
  "v \<noteq> 0 \<Longrightarrow> varint_groups v = (ucast (v AND 0x7F) OR 0x80) # varint_groups (drop_bit 7 v)"
  by (subst varint_groups.simps) simp

lemma varint_groups_eq_Nil [simp]: "varint_groups v = [] \<longleftrightarrow> v = 0"
  by (cases "v = 0") (simp_all add: varint_groups_nonzero)

lemma clear_last_Cons: "bs \<noteq> [] \<Longrightarrow> clear_last (b # bs) = b # clear_last bs"
  by (simp add: clear_last_def)

lemma group_clear: "v \<le> 0x7F \<Longrightarrow> (ucast (v AND 0x7F) OR 0x80) AND 0x7F = (ucast v :: u8)"
  for v :: u64
  unfolding and_7F 
  by (rule bit_word_eqI) (use le_7F_bit [of v] in \<open>auto simp: bit_take_bit_iff bit_group bit_simps\<close>)

lemma varint_buffer_rec:
  "varint_buffer v = (if v \<le> 0x7F then [ucast v]
     else (ucast (v AND 0x7F) OR 0x80) # varint_buffer (drop_bit 7 v))"
proof (cases "v \<le> 0x7F")
  case False
  then have w: "drop_bit 7 v \<noteq> 0" and "v \<noteq> 0" by (auto simp: le_7F_iff)
  then have "varint_buffer v = (ucast (v AND 0x7F) OR 0x80) # clear_last (varint_groups (drop_bit 7 v))"
    using False by (simp add: varint_buffer_def varint_groups_nonzero [of v] clear_last_Cons)
  moreover have "clear_last (varint_groups (drop_bit 7 v)) = varint_buffer (drop_bit 7 v)"
    using w by (auto simp: varint_buffer_def varint_groups_nonzero clear_last_def group_clear le_7F_iff)
  ultimately show ?thesis using False by simp
qed (simp add: varint_buffer_def)

lemma varint_buffer_induct [case_names last more]:
  assumes "\<And>v. v \<le> 0x7F \<Longrightarrow> P v"
    and "\<And>v. \<not> v \<le> 0x7F \<Longrightarrow> P (drop_bit 7 v) \<Longrightarrow> P v"
  shows "P (v :: u64)"
proof (induction "unat v" arbitrary: v rule: less_induct)
  case less
  show ?case
  proof (cases "v \<le> 0x7F")
    case False
    then have "v \<noteq> 0" by auto
    then have "unat (drop_bit 7 v) < unat v" by (rule unat_drop_bit_7_less)
    from assms(2) [OF False less.hyps [OF this]] show ?thesis .
  qed (rule assms(1))
qed

lemma length_varint_buffer:
  "unat v < 2 ^ (7 * n) \<Longrightarrow> 0 < n \<Longrightarrow> length (varint_buffer v) \<le> n"
proof (induction v arbitrary: n rule: varint_buffer_induct)
  case (last v)
  then show ?case by (simp add: varint_buffer_rec)
next
  case (more v)
  then have "128 \<le> unat v" by (auto simp: word_le_nat_alt)
  with more.prems obtain k where n: "n = Suc k" "0 < k" by (cases n; cases "n - 1") auto
  have "unat (drop_bit 7 v) < 2 ^ (7 * k)"
    using more.prems(1) unfolding n by (simp add: drop_bit_eq_div unat_div power_add less_mult_imp_div_less mult.commute)
  from more.IH [OF this n(2)] show ?case using more.hyps by (subst varint_buffer_rec) (simp add: n)
qed

subsection \<open>Decoding them\<close>

lemma varint_loop_encoded:
  assumes "unat v < 2 ^ (64 - p)" "p < 64"
  shows "varint_loop (bstream (varint_buffer v @ rest) (length (varint_buffer v) + k) e) p r =
     (Some (r OR push_bit p v), bstream rest k e)"
  using assms
proof (induction v arbitrary: p r rule: varint_buffer_induct)
  case (last v)
  then show ?case
    by (subst varint_loop.simps) (simp add: varint_buffer_rec stream_simps last_byte Let_def)
next
  case (more v)
  then have big: "2 ^ 7 \<le> unat v" by (auto simp: word_le_nat_alt)
  have "(2::nat) ^ 7 < 2 ^ (64 - p)" using big more.prems(1) by (rule le_less_trans)
  from power_less_imp_less_exp [OF _ this] have p: "p + 7 < 64" by simp
  have "64 - p = (64 - (p + 7)) + 7" using p by simp
  then have "(2::nat) ^ (64 - p) = 2 ^ (64 - (p + 7)) * 2 ^ 7" by (metis power_add)
  then have "unat (drop_bit 7 v) < 2 ^ (64 - (p + 7))"
    using more.prems(1) by (simp add: drop_bit_eq_div unat_div less_mult_imp_div_less)
  note IH = more.IH [OF this p]
  have eq: "(r OR push_bit p (take_bit 7 v)) OR push_bit (p + 7) (drop_bit 7 v) = r OR push_bit p v"
    by (rule bit_word_eqI)
      (auto simp: bit_simps, metis diff_diff_left le_add_diff_inverse not_less)
  have vb: "varint_buffer v = (ucast (v AND 0x7F) OR 0x80) # varint_buffer (drop_bit 7 v)"
    using more.hyps by (subst varint_buffer_rec) simp
  show ?case
    unfolding vb by (subst varint_loop.simps)
      (use p more.prems in \<open>simp add: stream_simps cont_byte IH eq Let_def\<close>)
qed

lemma pb_decode_varint_encoded:
  "pb_decode_varint (bstream (varint_buffer v @ rest) (length (varint_buffer v) + k) e) =
     (Some v, bstream rest k e)"
proof -
  have "unat v < 2 ^ (64 - 0)" using unsigned_less [of v] by simp
  from varint_loop_encoded [OF this, of rest k e 0] show ?thesis
    by (simp add: pb_decode_varint_def)
qed

lemma length_varint_buffer_le: "length (varint_buffer v) \<le> 10"
proof -
  have "unat v < 2 ^ 64" using unsigned_less [of v] by simp
  also have "\<dots> \<le> (2::nat) ^ (7 * 10)" by simp
  finally show ?thesis by (rule length_varint_buffer) simp
qed

lemma varint_buffer_nonempty [simp]: "varint_buffer v \<noteq> []"
  by (simp add: varint_buffer_def clear_last_def)

text \<open>Skipping a varint drops its bytes.\<close>

lemma pb_skip_varint_encoded:
  "pb_skip_varint (bstream (varint_buffer v @ rest) (length (varint_buffer v) + k) e) =
     (True, bstream rest k e)"
proof (induction v rule: varint_buffer_induct)
  case (last v)
  then show ?case
    by (simp add: varint_buffer_rec pb_skip_varint.simps [of "bstream (_ # _) _ _"] stream_simps last_byte)
next
  case (more v)
  have vb: "varint_buffer v = (ucast (v AND 0x7F) OR 0x80) # varint_buffer (drop_bit 7 v)"
    using more.hyps by (subst varint_buffer_rec) simp
  show ?case
    unfolding vb by (subst pb_skip_varint.simps) (simp add: stream_simps cont_byte more.IH)
qed

interpretation varint: wire_codec varint_buffer pb_decode_varint "\<lambda>_. True" PB_WT_VARINT
  by unfold_locales
    (simp_all add: pb_decode_varint_encoded pb_skip_field_def pb_skip_varint_encoded)

subsection \<open>The 32-bit decoder\<close>

lemma cont_byte32: "ucast ((ucast (v AND 0x7F) OR 0x80 :: u8) AND 0x7F) = (ucast (take_bit 7 v) :: u32)"
  for v :: u64
  unfolding and_7F
  by (rule bit_word_eqI) (auto simp: bit_ucast_iff bit_take_bit_iff bit_group bit_simps)

lemma last_byte32: "v \<le> 0x7F \<Longrightarrow> ucast ((ucast v :: u8) AND 0x7F) = (ucast v :: u32)" for v :: u64
  unfolding and_7F
  by (rule bit_word_eqI) (use le_7F_bit [of v] in \<open>force simp: bit_simps\<close>)

lemma and_70_small: "unat v < 16 \<Longrightarrow> (ucast v :: u8) AND 0x70 = 0" for v :: u64
proof (rule bit_word_eqI)
  fix n
  assume v: "unat v < 16"
  have "(0x70 :: u8) = push_bit 4 7" by simp
  then have low: "bit (0x70 :: u8) n \<Longrightarrow> 4 \<le> n"
    by (simp only: bit_push_bit_iff)
  have "unat (drop_bit 4 v) = 0" using v by (simp add: drop_bit_eq_div unat_div)
  then have "\<not> bit (drop_bit 4 v) (n - 4)" by (simp add: unat_eq_zero)
  then have "4 \<le> n \<Longrightarrow> \<not> bit v n" by (simp add: bit_drop_bit_eq)
  with low show "bit ((ucast v :: u8) AND 0x70) n \<longleftrightarrow> bit (0 :: u8) n"
    unfolding bit_and_iff by (auto simp: bit_ucast_iff)
qed

lemma varint32_loop_encoded:
  assumes "unat v < 2 ^ (32 - p)" "p < 32" "0 < p"
  shows "varint32_loop (bstream (varint_buffer v @ rest) (length (varint_buffer v) + k) e) p r =
     (Some (r OR push_bit p (ucast v)), bstream rest k e)"
  using assms
proof (induction v arbitrary: p r rule: varint_buffer_induct)
  case (last v)
  have "(ucast v :: u8) AND 0x70 = 0" if "p + 7 = 35"
    using that last.prems(1) by (intro and_70_small) simp
  then show ?case
    using last by (subst varint32_loop.simps)
      (simp add: varint_buffer_rec stream_simps last_byte last_byte32 Let_def)
next
  case (more v)
  then have big: "2 ^ 7 \<le> unat v" by (auto simp: word_le_nat_alt)
  have "(2::nat) ^ 7 < 2 ^ (32 - p)" using big more.prems(1) by (rule le_less_trans)
  from power_less_imp_less_exp [OF _ this] have p: "p + 7 < 32" by simp
  have "32 - p = (32 - (p + 7)) + 7" using p by simp
  then have "(2::nat) ^ (32 - p) = 2 ^ (32 - (p + 7)) * 2 ^ 7" by (metis power_add)
  then have "unat (drop_bit 7 v) < 2 ^ (32 - (p + 7))"
    using more.prems(1) by (simp add: drop_bit_eq_div unat_div less_mult_imp_div_less)
  note IH = more.IH [OF this p]
  have eq: "(r OR push_bit p (ucast (take_bit 7 v))) OR push_bit (p + 7) (ucast (drop_bit 7 v)) =
      r OR push_bit p (ucast v :: u32)"
    by (rule bit_word_eqI)
      (auto simp: bit_simps, metis diff_diff_left le_add_diff_inverse not_less)
  have vb: "varint_buffer v = (ucast (v AND 0x7F) OR 0x80) # varint_buffer (drop_bit 7 v)"
    using more.hyps by (subst varint_buffer_rec) simp
  show ?case
    unfolding vb by (subst varint32_loop.simps)
      (use p more.prems in \<open>simp add: stream_simps cont_byte cont_byte32 IH eq Let_def\<close>)
qed

lemma pb_decode_varint32_eof_encoded:
  "pb_decode_varint32_eof
     (bstream (varint_buffer (ucast w) @ rest) (length (varint_buffer (ucast w)) + k) e) =
     (Some w, False, bstream rest k e)" (is "?l = _")
proof (cases "(ucast w :: u64) \<le> 0x7F")
  case True
  then have "varint_buffer (ucast w) = [ucast (ucast w :: u64)]"
    by (subst varint_buffer_rec) simp
  moreover have "ucast (ucast (ucast w :: u64) :: u8) = w"
    using le_7F_bit [OF True]
    by (intro bit_word_eqI) (force simp: bit_simps)
  ultimately show ?thesis
    using True by (simp add: pb_decode_varint32_eof_def stream_simps last_byte)
next
  case False
  let ?v = "ucast w :: u64"
  have vb: "varint_buffer ?v = (ucast (?v AND 0x7F) OR 0x80) # varint_buffer (drop_bit 7 ?v)"
    using False by (subst varint_buffer_rec) simp
  have "unat ?v < 2 ^ 32"
    using unat_u32_less [of w] by simp
  then have "unat (drop_bit 7 ?v) < 2 ^ (32 - 7)"
    by (simp add: drop_bit_eq_div unat_div less_mult_imp_div_less)
  note loop = varint32_loop_encoded [OF this]
  have "ucast (take_bit 7 ?v) OR push_bit 7 (ucast (drop_bit 7 ?v)) = w"
    by (rule bit_word_eqI) (auto simp: bit_simps)
  then show ?thesis
    unfolding vb pb_decode_varint32_eof_def
    by (simp add: stream_simps cont_byte cont_byte32 loop)
qed

lemma pb_decode_varint32_encoded:
  "pb_decode_varint32
     (bstream (varint_buffer (ucast w) @ rest) (length (varint_buffer (ucast w)) + k) e) =
     (Some w, bstream rest k e)"
  by (simp add: pb_decode_varint32_def pb_decode_varint32_eof_encoded)

interpretation varint32: nonempty_codec "\<lambda>w. varint_buffer (ucast w)" pb_decode_varint32 "\<lambda>_. True"
  by unfold_locales (simp_all add: pb_decode_varint32_encoded)

subsection \<open>One step of the 32-bit loop\<close>

lemma varint32_step:
  "varint32_loop (bstream (b # bs) (Suc n) e) bitpos result =
     (let sign_extension = (if bitpos < 63 then 0xFF else 0x01 :: u8);
          result' = (if bitpos \<ge> 32 then result else result OR push_bit bitpos (ucast (b AND 0x7F)));
          bitpos' = (bitpos + 7) mod 256
      in if bitpos \<ge> 32 \<and> b AND 0x7F \<noteq> 0 \<and> (drop_bit 31 result = 0 \<or> b \<noteq> sign_extension)
         then (None, bstream bs n (PB_SET_ERROR e ''varint overflow''))
         else if b AND 0x80 \<noteq> 0 then varint32_loop (bstream bs n e) bitpos' result'
         else if bitpos' = 35 \<and> b AND 0x70 \<noteq> 0 then (None, bstream bs n (PB_SET_ERROR e ''varint overflow''))
         else (Some result', bstream bs n e))"
  by (subst varint32_loop.simps) (simp only: pb_readbyte_Cons prod.case option.case Let_def, simp only: stream_simps)

lemma varint32_zeros:
  "varint32_loop (bstream (replicate k 0x80 @ bs) (k + n) e :: 's pb_istream) p r =
   varint32_loop (bstream bs n e) ((p + 7 * k) mod 256) r" if "p < 256"
  using that
proof (induction k arbitrary: p)
  case (Suc k)
  have "varint32_loop (bstream (replicate (Suc k) 0x80 @ bs) (Suc k + n) e :: 's pb_istream) p r =
      varint32_loop (bstream (replicate k 0x80 @ bs) (k + n) e) ((p + 7) mod 256) r"
    by (simp add: varint32_step Let_def)
  also have "\<dots> = varint32_loop (bstream bs n e) (((p + 7) mod 256 + 7 * k) mod 256) r"
    by (rule Suc.IH) simp
  also have "((p + 7) mod 256 + 7 * k) mod 256 = (p + 7 * Suc k) mod 256"
    by (simp add: mod_simps algebra_simps)
  finally show ?case .
qed simp

end
