(* ===== verification/PbWire.thy ===== *)
theory PbWire
  imports PbVarint
begin

text \<open>
  The other wire formats: zig-zag and fixed-width integers, tags, length-delimited strings and
  substreams; the exact result of \<open>pb_decode_varint\<close> on every input; and the inputs on which
  the overflow checks of the two varint decoders miss.
\<close>

subsection \<open>Every input of the 64-bit decoder\<close>

definition is_cont :: "u8 \<Rightarrow> bool" where
  "is_cont b \<longleftrightarrow> b AND 0x80 \<noteq> 0"

primrec varint_value :: "u8 list \<Rightarrow> u64" where
  "varint_value [] = 0"
| "varint_value (b # bs) = ucast (b AND 0x7F) OR push_bit 7 (varint_value bs)"

text \<open>The number of continuation bytes in front.\<close>

definition cont_len :: "u8 list \<Rightarrow> nat" where
  "cont_len bs = length (takeWhile is_cont bs)"

lemma cont_len_Nil [simp]: "cont_len [] = 0"
  by (simp add: cont_len_def)

lemma cont_len_Cons: "cont_len (b # bs) = (if is_cont b then Suc (cont_len bs) else 0)"
  by (simp add: cont_len_def)

definition varint_result :: "nat \<Rightarrow> u8 list \<Rightarrow> nat \<Rightarrow> string option \<Rightarrow> nat \<Rightarrow> u64
    \<Rightarrow> u64 option \<times> 's pb_istream" where
  "varint_result lim bs n e p r =
     (let k = cont_len (take n bs) in
      if k < lim \<and> k < n
      then (Some (r OR push_bit p (varint_value (take (Suc k) bs))), bstream (drop (Suc k) bs) (n - Suc k) e)
      else if lim \<le> k
      then (None, bstream (drop lim bs) (n - lim) (PB_SET_ERROR e ''varint overflow''))
      else (None, bstream (drop n bs) 0 (PB_SET_ERROR e ''end-of-stream'')))"

lemma varint_loop_result:
  assumes "n \<le> length bs" "i \<le> 10"
  shows "varint_loop (bstream bs n e :: 's pb_istream) (7 * i) r = varint_result (10 - i) bs n e (7 * i) r"
  using assms
proof (induction bs arbitrary: n i r)
  case Nil
  then show ?case
    by (simp add: varint_loop.simps [of "bstream [] 0 e"] varint_result_def stream_simps)
next
  case (Cons b bs)
  show ?case
  proof (cases "i = 10 \<or> n = 0")
    case True
    then show ?thesis using Cons.prems
      by (subst varint_loop.simps) (auto simp: varint_result_def stream_simps)
  next
    case False
    then obtain m where n: "n = Suc m" and i: "i < 10" using Cons.prems by (cases n) auto
    define r' where "r' = r OR push_bit (7 * i) (ucast (b AND 0x7F))"
    have step: "varint_loop (bstream (b # bs) n e :: 's pb_istream) (7 * i) r =
        (if is_cont b then varint_loop (bstream bs m e) (7 * Suc i) r' else (Some r', bstream bs m e))"
      using i unfolding n r'_def
      by (subst varint_loop.simps) (simp add: stream_simps Let_def is_cont_def add.commute)
    show ?thesis
    proof (cases "is_cont b")
      case True
      have "r' OR push_bit (7 * Suc i) w = r OR push_bit (7 * i) (ucast (b AND 0x7F) OR push_bit 7 w)" for w
        unfolding r'_def by (simp add: push_bit_or or.assoc add.commute)
      moreover have b: "m \<le> length bs" "Suc i \<le> 10" "10 - i = Suc (10 - Suc i)"
        using Cons.prems i by (simp_all add: n)
      moreover have "varint_loop (bstream (b # bs) n e :: 's pb_istream) (7 * i) r =
          varint_result (10 - Suc i) bs m e (7 * Suc i) r'"
        using True by (simp only: step if_True Cons.IH [OF b(1,2)])
      ultimately show ?thesis using True
        by (simp add: varint_result_def Let_def n cont_len_Cons)
    next
      case False
      then show ?thesis using i
        by (simp add: step [unfolded n] varint_result_def n cont_len_Cons r'_def)
    qed
  qed
qed

lemma pb_decode_varint_total:
  assumes "n \<le> length bs"
  shows "pb_decode_varint (bstream bs n e) = varint_result 10 bs n e 0 0"
  using varint_loop_result [OF assms, of 0 e 0] by (simp add: pb_decode_varint_def)

subsection \<open>Zig-zag and fixed-width integers\<close>

definition unzigzag :: "u64 \<Rightarrow> u64" where
  "unzigzag v = (if v AND 1 \<noteq> 0 then NOT (drop_bit 1 v) else drop_bit 1 v)"

lemma sless_0_bit: "v <s 0 \<longleftrightarrow> bit v 63" for v :: u64
  using bit_last_iff [of v] by (simp add: word_sless_alt)

lemma and_1_odd: "v AND 1 \<noteq> 0 \<longleftrightarrow> bit v 0" for v :: u64
  by (simp add: and_one_eq bit_0 odd_iff_mod_2_eq_one)

lemma unzigzag_zigzag: "unzigzag (zigzag v) = v"
proof (rule bit_word_eqI)
  fix n
  assume n: "n < LENGTH(64)"
  have odd: "zigzag v AND 1 \<noteq> 0 \<longleftrightarrow> bit v 63"
    unfolding and_1_odd zigzag_def sless_0_bit by (simp only: bit_push_bit_iff bit_not_iff split: if_split) simp
  show "bit (unzigzag (zigzag v)) n = bit v n"
  proof (cases "n = 63")
    case True
    then show ?thesis unfolding unzigzag_def odd unfolding zigzag_def sless_0_bit
      by (simp only: bit_drop_bit_eq bit_push_bit_iff bit_not_iff comp_def split: if_split) simp
  next
    case False
    then show ?thesis using n unfolding unzigzag_def odd unfolding zigzag_def sless_0_bit
      by (simp only: bit_drop_bit_eq bit_push_bit_iff bit_not_iff comp_def split: if_split) simp
  qed
qed

lemma zigzag_inj: "zigzag v = zigzag w \<Longrightarrow> v = w"
  using unzigzag_zigzag by metis

lemma pb_decode_svarint_encoded:
  "pb_decode_svarint
     (bstream (varint_buffer (zigzag v) @ rest) (length (varint_buffer (zigzag v)) + k) e) =
     (Some v, bstream rest k e)"
  using unzigzag_zigzag [of v]
  by (simp add: pb_decode_svarint_def pb_decode_varint_encoded unzigzag_def)

interpretation svarint: wire_codec "\<lambda>v. varint_buffer (zigzag v)" pb_decode_svarint "\<lambda>_. True" PB_WT_VARINT
  by unfold_locales
    (simp_all add: pb_decode_svarint_encoded pb_skip_field_def pb_skip_varint_encoded)

definition fixed32_bytes :: "u32 \<Rightarrow> u8 list" where
  "fixed32_bytes v = [ucast (v AND 0xFF), ucast (drop_bit 8 v AND 0xFF),
     ucast (drop_bit 16 v AND 0xFF), ucast (drop_bit 24 v AND 0xFF)]"

definition fixed64_bytes :: "u64 \<Rightarrow> u8 list" where
  "fixed64_bytes v = [ucast (v AND 0xFF), ucast (drop_bit 8 v AND 0xFF),
     ucast (drop_bit 16 v AND 0xFF), ucast (drop_bit 24 v AND 0xFF), ucast (drop_bit 32 v AND 0xFF),
     ucast (drop_bit 40 v AND 0xFF), ucast (drop_bit 48 v AND 0xFF), ucast (drop_bit 56 v AND 0xFF)]"

lemma and_FF: "v AND 0xFF = take_bit 8 (v :: 'a::len word)"
  by (simp add: take_bit_eq_mask mask_eq_exp_minus_1)

lemma ucast_take_8: "ucast (take_bit 8 v) = (ucast v :: u8)" for v :: "'a::len word"
  by (rule bit_word_eqI) (auto simp: bit_simps)

lemma upt_numeral_Cons: "m < n \<Longrightarrow> [m..<n] = m # [Suc m..<n]"
  by (rule upt_conv_Cons)

lemma fixed32_bytes_le: "fixed32_bytes v = le_bytes 4 v"
  by (simp add: fixed32_bytes_def and_FF ucast_take_8 le_bytes_def upt_numeral_Cons)

lemma fixed64_bytes_le: "fixed64_bytes v = le_bytes 8 v"
  by (simp add: fixed64_bytes_def and_FF ucast_take_8 le_bytes_def upt_numeral_Cons)

lemma pb_decode_fixed32_encoded:
  "pb_decode_fixed32 (bstream (fixed32_bytes v @ rest) (length (fixed32_bytes v) + k) e) =
     (Some v, bstream rest k e)"
proof -
  have "le_word (fixed32_bytes v) = v"
    by (simp add: fixed32_bytes_le le_word_le_bytes_full)
  then show ?thesis
    by (simp add: pb_decode_fixed32_def stream_simps fixed32_bytes_def push_bit_or or.assoc)
qed

lemma pb_decode_fixed64_encoded:
  "pb_decode_fixed64 (bstream (fixed64_bytes v @ rest) (length (fixed64_bytes v) + k) e) =
     (Some v, bstream rest k e)"
proof -
  have "le_word (fixed64_bytes v) = v"
    by (simp add: fixed64_bytes_le le_word_le_bytes_full)
  then show ?thesis
    by (simp add: pb_decode_fixed64_def stream_simps fixed64_bytes_def push_bit_or or.assoc)
qed

lemma pb_encode_fixed32_bytes: "pb_encode_fixed32 s v = emit (fixed32_bytes v) s"
  by (simp add: pb_encode_fixed32_def emit_def fixed32_bytes_def numeral_eq_Suc)

lemma pb_encode_fixed64_bytes: "pb_encode_fixed64 s v = emit (fixed64_bytes v) s"
  by (simp add: pb_encode_fixed64_def emit_def fixed64_bytes_def numeral_eq_Suc)

interpretation fixed32: wire_codec fixed32_bytes pb_decode_fixed32 "\<lambda>_. True" PB_WT_32BIT
  by unfold_locales
    (simp_all add: pb_decode_fixed32_encoded pb_skip_field_def pb_consts stream_simps ok_of_def,
     simp_all add: fixed32_bytes_def)

interpretation fixed64: wire_codec fixed64_bytes pb_decode_fixed64 "\<lambda>_. True" PB_WT_64BIT
  by unfold_locales
    (simp_all add: pb_decode_fixed64_encoded pb_skip_field_def pb_consts stream_simps ok_of_def,
     simp_all add: fixed64_bytes_def)

subsection \<open>Tags\<close>

definition tag_word :: "u32 \<Rightarrow> nat \<Rightarrow> u32" where
  "tag_word wt t = push_bit 3 (of_nat t) OR wt"

definition tag_bytes :: "u32 \<Rightarrow> nat \<Rightarrow> u8 list" where
  "tag_bytes wt t = varint_buffer (push_bit 3 (of_nat t) OR ucast wt)"

definition valid_tag :: "u32 \<Rightarrow> nat \<Rightarrow> bool" where
  "valid_tag wt t \<longleftrightarrow> wt < 8 \<and> 0 < t \<and> t < 2 ^ 29"

lemma pb_encode_tag_bytes: "pb_encode_tag s wt t = emit (tag_bytes wt t) s"
  by (simp add: pb_encode_tag_def pb_encode_varint_emit tag_bytes_def)

lemma wt_bits: "wt < 8 \<Longrightarrow> bit (wt :: u32) n \<Longrightarrow> n < 3"
proof (rule ccontr)
  assume "wt < 8" "bit wt n" "\<not> n < 3"
  then have "drop_bit 3 wt = 0" by (simp add: drop_bit_eq_div word_less_nat_alt unat_div word_arith_nat_div)
  moreover have "bit (drop_bit 3 wt) (n - 3)" using \<open>bit wt n\<close> \<open>\<not> n < 3\<close> by (simp add: bit_simps)
  ultimately show False by simp
qed

lemma tag_bits:
  assumes "t < 2 ^ 29" "bit (of_nat t :: 'a::len word) n"
  shows "n < 29"
proof (rule ccontr)
  assume "\<not> n < 29"
  then have "t < 2 ^ n" using assms(1) by (meson less_le_trans not_less one_le_numeral power_increasing)
  then have "\<not> bit t n" by (simp add: bit_nat_def)
  then show False using assms(2) by (simp add: bit_simps)
qed

lemma tag_word_parts:
  assumes "valid_tag wt t"
  shows "tag_word wt t AND 7 = wt" "drop_bit 3 (tag_word wt t) = of_nat t"
    "tag_word wt t \<noteq> 0" "ucast (tag_word wt t) = (push_bit 3 (of_nat t) OR ucast wt :: u64)"
proof -
  note v = assms [unfolded valid_tag_def]
  have m: "(7::u32) = mask 3" by (simp add: mask_eq_exp_minus_1)
  show "tag_word wt t AND 7 = wt"
    unfolding tag_word_def m
    by (rule bit_word_eqI) (use wt_bits [of wt] v in \<open>auto simp: bit_simps\<close>)
  show d: "drop_bit 3 (tag_word wt t) = of_nat t"
    unfolding tag_word_def
    by (rule bit_word_eqI) (use wt_bits [of wt] tag_bits [of t] v in \<open>fastforce simp: bit_simps\<close>)
  have "unat (of_nat t :: u32) = t" using v by (simp add: unsigned_of_nat take_bit_nat_eq_self)
  then have "(of_nat t :: u32) \<noteq> 0" using v by auto
  with d show "tag_word wt t \<noteq> 0" by auto
  show "ucast (tag_word wt t) = (push_bit 3 (of_nat t) OR ucast wt :: u64)"
    unfolding tag_word_def
    by (rule bit_word_eqI) (use tag_bits [of t, where 'a = 64] v in \<open>fastforce simp: bit_simps\<close>)
qed

lemma pb_decode_tag_encoded:
  assumes "valid_tag wt t"
  shows "pb_decode_tag (bstream (tag_bytes wt t @ rest) (length (tag_bytes wt t) + k) e) =
     (Some (wt, of_nat t), False, bstream rest k e)"
proof -
  have "tag_bytes wt t = varint_buffer (ucast (tag_word wt t))"
    by (simp only: tag_bytes_def tag_word_parts(4) [OF assms])
  then show ?thesis
    by (simp add: pb_decode_tag_def pb_decode_varint32_eof_encoded tag_word_parts(1-3) [OF assms])
qed

subsection \<open>Strings and substreams\<close>

text \<open>The wire form of a string, bytes field or submessage; \<open>pb_read_delimited\<close> is what its
  decoders do: read the length, then that many bytes.\<close>

definition string_bytes :: "u8 list \<Rightarrow> u8 list" where
  "string_bytes bs = varint_buffer (of_nat (length bs)) @ bs"

definition valid_string :: "u8 list \<Rightarrow> bool" where
  "valid_string bs \<longleftrightarrow> length bs < 2 ^ 32"

definition pb_read_delimited :: "'s pb_istream \<Rightarrow> u8 list option \<times> 's pb_istream" where
  "pb_read_delimited s =
     (case pb_decode_varint32 s of
        (None, s') \<Rightarrow> (None, s')
      | (Some sz, s') \<Rightarrow> pb_read s' False (unat sz))"

lemma string_length_word:
  assumes "valid_string bs"
  shows "(of_nat (length bs) :: u64) = ucast (of_nat (length bs) :: u32)"
    "unat (of_nat (length bs) :: u32) = length bs"
proof -
  show u: "unat (of_nat (length bs) :: u32) = length bs"
    using assms by (simp add: valid_string_def unsigned_of_nat take_bit_nat_eq_self)
  have "length bs < 2 ^ 64" using assms by (simp add: valid_string_def)
  then have "unat (of_nat (length bs) :: u64) = length bs"
    by (simp add: unsigned_of_nat take_bit_nat_eq_self)
  with u show "(of_nat (length bs) :: u64) = ucast (of_nat (length bs) :: u32)"
    by (metis unat_ucast_32_64 word_unat_eq_iff)
qed

lemma string_header:
  assumes "valid_string bs"
  shows "pb_decode_varint32
      (bstream (string_bytes bs @ rest) (length (string_bytes bs) + k) e) =
      (Some (of_nat (length bs)), bstream (bs @ rest) (length bs + k) e)"
  using pb_decode_varint32_encoded [of "of_nat (length bs)" "bs @ rest" "length bs + k" e]
  by (simp add: string_bytes_def string_length_word(1) [OF assms] pb_decode_varint32_encoded add.assoc)

lemma pb_read_delimited_encoded:
  assumes "valid_string bs"
  shows "pb_read_delimited (bstream (string_bytes bs @ rest) (length (string_bytes bs) + k) e) =
     (Some bs, bstream rest k e)"
  by (simp add: pb_read_delimited_def string_header [OF assms] string_length_word(2) [OF assms] stream_simps)

lemma pb_skip_string_encoded:
  assumes "valid_string bs"
  shows "pb_skip_string (bstream (string_bytes bs @ rest) (length (string_bytes bs) + k) e) =
     (True, bstream rest k e)"
  by (simp add: pb_skip_string_def string_header [OF assms] string_length_word(2) [OF assms] stream_simps ok_of_def)

lemma string_bytes_nonempty [simp]: "string_bytes bs \<noteq> []"
  by (simp add: string_bytes_def)

interpretation pbstring: wire_codec string_bytes pb_read_delimited valid_string PB_WT_STRING
  by unfold_locales
    (simp_all add: pb_read_delimited_encoded pb_skip_string_encoded pb_skip_field_def pb_consts)

text \<open>Opening a substream splits the remaining bytes; closing it puts the parent right behind
  the delimited part, however much of it the reader consumed.\<close>

lemma make_substream_encoded:
  assumes "valid_string bs"
  shows "pb_make_string_substream (bstream (string_bytes bs @ rest) (length (string_bytes bs) + k) e) =
     (Some (bstream (bs @ rest) (length bs) e), bstream (bs @ rest) k e)"
  by (simp add: pb_make_string_substream_def string_header [OF assms] string_length_word(2) [OF assms] stream_simps)

lemma close_substream:
  "pb_close_string_substream (bstream bs k e) (bstream bs' n e') = (True, bstream (drop n bs') k e')"
  by (auto simp: pb_close_string_substream_def stream_simps)

end
