(* ===== verification/PbWriter.thy ===== *)
theory PbWriter
  imports PbEncode PbWire
begin

text \<open>
  What an encoder means, independently of the stream it writes to: a byte string, or failure.
  \<open>writes f r\<close> says that \<open>f\<close> acts on every sizing stream and every buffer stream as writing
  the bytes \<open>r\<close> does. It composes along the code, and gives that \<open>pb_get_encoded_size\<close>
  returns exactly what \<open>pb_encode\<close> writes and that a buffer of that size is enough.
\<close>

subsection \<open>Writing bytes\<close>

text \<open>The streams the library makes, before any error: no message, within the buffer.\<close>

definition plain :: "'s pb_ostream \<Rightarrow> bool" where
  "plain s \<longleftrightarrow> oerrmsg s = None \<and>
     (case ocallback s of
        None \<Rightarrow> True
      | Some Buf_write \<Rightarrow> (case ostate s of SBuf _ \<Rightarrow> True | SUser _ \<Rightarrow> False)
      | Some (User_write _) \<Rightarrow> False) \<and>
     (ocallback s \<noteq> None \<longrightarrow> bytes_written s \<le> max_size s)"

definition contents :: "'s pb_ostream \<Rightarrow> u8 list" where
  "contents s = (case ostate s of SBuf bs \<Rightarrow> bs | SUser _ \<Rightarrow> [])"

definition fits :: "nat \<Rightarrow> 's pb_ostream \<Rightarrow> bool" where
  "fits n s \<longleftrightarrow> ocallback s = None \<or> bytes_written s + n \<le> max_size s"

definition roomy :: "nat \<Rightarrow> 's pb_ostream \<Rightarrow> bool" where
  "roomy n s \<longleftrightarrow> bytes_written s + n < 2 ^ 64"

definition written :: "u8 list \<Rightarrow> 's pb_ostream \<Rightarrow> 's pb_ostream" where
  "written bs s =
     (if ocallback s = None then s\<lparr>bytes_written := bytes_written s + length bs\<rparr>
      else s\<lparr>ostate := SBuf (contents s @ bs), bytes_written := bytes_written s + length bs\<rparr>)"

lemma written_sel [simp]:
  "ocallback (written bs s) = ocallback s" "max_size (written bs s) = max_size s"
  "bytes_written (written bs s) = bytes_written s + length bs" "oerrmsg (written bs s) = oerrmsg s"
  by (simp_all add: written_def)

lemma contents_written: "ocallback s \<noteq> None \<Longrightarrow> contents (written bs s) = contents s @ bs"
  by (cases "ocallback s") (simp_all add: written_def contents_def)

lemma plain_written [simp]: "plain s \<Longrightarrow> fits (length bs) s \<Longrightarrow> plain (written bs s)"
  by (auto simp: plain_def written_def fits_def split: option.splits ocallback.splits)

lemma written_append: "written b (written a s) = written (a @ b) s"
  by (cases "ocallback s") (auto simp: written_def contents_def)

lemma written_Nil: "plain s \<Longrightarrow> written [] s = s"
  by (auto simp: written_def plain_def contents_def split: option.splits ocallback.splits sstate.splits)

lemma fits_append: "fits (a + b) s \<longleftrightarrow> fits a s \<and> (length bs = a \<longrightarrow> fits b (written bs s))"
  if "length bs = a" using that by (auto simp: fits_def)

lemma roomy_append: "length bs = a \<Longrightarrow> roomy (a + b) s \<Longrightarrow> roomy a s \<and> roomy b (written bs s)"
  by (simp add: roomy_def)

lemma plain_sizing [simp]: "plain PB_OSTREAM_SIZING"
  by (simp add: plain_def PB_OSTREAM_SIZING_def)

lemma sizing_sel [simp]:
  "ocallback PB_OSTREAM_SIZING = None" "bytes_written PB_OSTREAM_SIZING = 0"
  by (simp_all add: PB_OSTREAM_SIZING_def)

lemma plain_buffer [simp]: "plain (pb_ostream_from_buffer n)"
  by (simp add: plain_def pb_ostream_from_buffer_def)

text \<open>\<open>pb_write\<close> of bytes: it succeeds exactly when they fit.\<close>

lemma pb_write_plain:
  assumes "plain s" "roomy n s" "length bs = n"
  shows "pb_write s bs n = (if fits n s then (True, written bs s) else (False, set_oerr ''stream full'' s))"
proof (cases "ocallback s")
  case None
  then show ?thesis using assms by (simp add: pb_write_def fits_def written_def roomy_def)
next
  case (Some cb)
  with assms(1) obtain out where "cb = Buf_write" "ostate s = SBuf out"
    by (auto simp: plain_def split: ocallback.splits sstate.splits)
  then show ?thesis using assms Some
    by (simp add: pb_write_def fits_def written_def roomy_def ocall_def buf_write_def contents_def)
qed

text \<open>On a sizing stream only the count matters.\<close>

lemma pb_write_sizing:
  assumes "ocallback s = None" "roomy n s" "length bs = n"
  shows "pb_write s any n = (True, written bs s)"
  using assms by (simp add: pb_write_def written_def roomy_def)

text \<open>What a successful writer of the bytes \<open>bs\<close> leaves behind: a plain stream of the same kind
  and capacity, and the bytes at the end of the buffer, if there is one.\<close>

definition follows :: "'s pb_ostream \<Rightarrow> u8 list \<Rightarrow> 's pb_ostream \<Rightarrow> bool" where
  "follows s bs s' \<longleftrightarrow> plain s' \<and> ocallback s' = ocallback s \<and> max_size s' = max_size s \<and>
     (ocallback s \<noteq> None \<longrightarrow> contents s' = contents s @ bs)"

lemma follows_trans: "follows s a s' \<Longrightarrow> follows s' b s'' \<Longrightarrow> follows s (a @ b) s''"
  by (simp add: follows_def)

lemma follows_plain: "follows s bs s' \<Longrightarrow> plain s'"
  by (simp add: follows_def)

lemma pb_write_ok_follows:
  "plain s \<Longrightarrow> pb_write s buf n = (True, s') \<Longrightarrow> (ocallback s \<noteq> None \<Longrightarrow> take n buf = bs) \<Longrightarrow>
   follows s bs s'"
  by (auto simp: pb_write_def plain_def follows_def ocall_def buf_write_def contents_def
      split: option.splits ocallback.splits sstate.splits prod.splits if_splits bool.splits)

subsection \<open>Encoders as byte strings\<close>

definition writes :: "('s pb_ostream \<Rightarrow> 's pb_oresult) \<Rightarrow> u8 list option \<Rightarrow> bool" where
  "writes f r \<longleftrightarrow> (\<forall>s. plain s \<longrightarrow>
     (\<forall>s'. f s = Some (True, s') \<longrightarrow> (\<exists>bs. r = Some bs \<and> follows s bs s')) \<and>
     (\<forall>bs. r = Some bs \<longrightarrow> roomy (length bs) s \<longrightarrow>
        (if fits (length bs) s then f s = Some (True, written bs s) else \<exists>s'. f s = Some (False, s'))))"

definition writable :: "('s pb_ostream \<Rightarrow> 's pb_oresult) \<Rightarrow> bool" where
  "writable f \<longleftrightarrow> (\<exists>r. writes f r)"

fun append_opt :: "u8 list option \<Rightarrow> u8 list option \<Rightarrow> u8 list option" where
  "append_opt (Some a) (Some b) = Some (a @ b)"
| "append_opt _ _ = None"

lemma append_opt_eq_Some: "append_opt r r' = Some bs \<longleftrightarrow> (\<exists>a b. r = Some a \<and> r' = Some b \<and> bs = a @ b)"
  by (cases "(r, r')" rule: append_opt.cases) auto

lemma append_opt_eq_None: "append_opt r r' = None \<longleftrightarrow> r = None \<or> r' = None"
  by (cases "(r, r')" rule: append_opt.cases) auto

lemma writesI:
  assumes "\<And>s s'. plain s \<Longrightarrow> f s = Some (True, s') \<Longrightarrow> \<exists>bs. r = Some bs \<and> follows s bs s'"
    and "\<And>s bs. plain s \<Longrightarrow> r = Some bs \<Longrightarrow> roomy (length bs) s \<Longrightarrow> fits (length bs) s \<Longrightarrow>
      f s = Some (True, written bs s)"
    and "\<And>s bs. plain s \<Longrightarrow> r = Some bs \<Longrightarrow> roomy (length bs) s \<Longrightarrow> \<not> fits (length bs) s \<Longrightarrow>
      \<exists>s'. f s = Some (False, s')"
  shows "writes f r"
  using assms by (simp add: writes_def)

lemma writes_follows: "writes f r \<Longrightarrow> plain s \<Longrightarrow> f s = Some (True, s') \<Longrightarrow> \<exists>bs. r = Some bs \<and> follows s bs s'"
  by (simp add: writes_def)

lemma writes_fits:
  "writes f (Some bs) \<Longrightarrow> plain s \<Longrightarrow> roomy (length bs) s \<Longrightarrow> fits (length bs) s \<Longrightarrow>
   f s = Some (True, written bs s)"
  by (simp add: writes_def)

lemma writes_full:
  "writes f (Some bs) \<Longrightarrow> plain s \<Longrightarrow> roomy (length bs) s \<Longrightarrow> \<not> fits (length bs) s \<Longrightarrow>
   \<exists>s'. f s = Some (False, s')"
  by (simp add: writes_def)

lemma writes_then:
  assumes "writes f r" "writes g r'"
  shows "writes (\<lambda>s. then_write (f s) g) (append_opt r r')"
proof (rule writesI)
  fix s s' :: "'a pb_ostream"
  assume s: "plain s" and "then_write (f s) g = Some (True, s')"
  then obtain s1 where 1: "f s = Some (True, s1)" "g s1 = Some (True, s')"
    by (auto simp: then_write_def split: Option.bind_splits prod.splits if_splits)
  with writes_follows [OF assms(1) s] writes_follows [OF assms(2), of s1]
  show "\<exists>bs. append_opt r r' = Some bs \<and> follows s bs s'"
    by (fastforce simp: append_opt_eq_Some dest: follows_plain intro: follows_trans)
next
  fix s :: "'a pb_ostream" and bs
  assume s: "plain s" and r: "append_opt r r' = Some bs" and room: "roomy (length bs) s"
  then obtain a b where ab: "r = Some a" "r' = Some b" "bs = a @ b"
    by (auto simp: append_opt_eq_Some)
  then have rm: "roomy (length a) s" "roomy (length b) (written a s)"
    using room by (simp_all add: roomy_def)
  note f = assms(1) [unfolded ab] and g = assms(2) [unfolded ab]
  show "then_write (f s) g = Some (True, written bs s)" if "fits (length bs) s"
  proof -
    have "fits (length a) s" "fits (length b) (written a s)"
      using that ab(3) by (auto simp: fits_def)
    then show ?thesis
      using writes_fits [OF f s rm(1)] writes_fits [OF g _ rm(2)] s
      by (simp add: then_write_def ab(3) written_append)
  qed
  show "\<exists>s'. then_write (f s) g = Some (False, s')" if n: "\<not> fits (length bs) s"
  proof (cases "fits (length a) s")
    case True
    then have "\<not> fits (length b) (written a s)" using n ab(3) by (auto simp: fits_def)
    then show ?thesis
      using writes_fits [OF f s rm(1) True] writes_full [OF g _ rm(2)] s True by (simp add: then_write_def)
  next
    case False
    then show ?thesis using writes_full [OF f s rm(1)] by (auto simp: then_write_def)
  qed
qed

lemma writable_then: "writable f \<Longrightarrow> writable g \<Longrightarrow> writable (\<lambda>s. then_write (f s) g)"
  using writes_then unfolding writable_def by blast

lemma writes_none: "(\<And>s s'. plain s \<Longrightarrow> f s \<noteq> Some (True, s')) \<Longrightarrow> writes f None"
  by (simp add: writes_def)

lemma writes_fail [intro]: "writes (\<lambda>s. pb_oreturn_error s msg) None" "writes (\<lambda>s. None) None"
  by (simp_all add: writes_def pb_oreturn_error_def)

lemma writes_skip: "writes (\<lambda>s. Some (True, s)) (Some [])"
  by (auto simp: writes_def written_Nil fits_def roomy_def plain_def follows_def contents_def
      split: option.splits)

lemma writes_emit: "writes (\<lambda>s. Some (emit bs s)) (Some bs)"
  by (auto intro!: writesI simp: emit_def pb_write_plain dest: pb_write_ok_follows)

lemma writable_emit [intro]: "writable (\<lambda>s. Some (emit bs s))"
  and writable_fail [intro]: "writable (\<lambda>s. pb_oreturn_error s msg)" "writable (\<lambda>s. None)"
  and writable_skip [intro]: "writable (\<lambda>s. Some (True, s))"
  using writes_emit writes_fail writes_skip unfolding writable_def by blast+

lemma writes_then_Some:
  "writes f (Some a) \<Longrightarrow> writes g (Some b) \<Longrightarrow> writes (\<lambda>s. then_write (f s) g) (Some (a @ b))"
  using writes_then [of f "Some a" g "Some b"] by simp

text \<open>Two encoders that agree on plain streams write the same.\<close>

lemma writes_cong: "writes f r \<Longrightarrow> (\<And>s. plain s \<Longrightarrow> g s = f s) \<Longrightarrow> writes g r"
  by (simp add: writes_def)

subsection \<open>The value encoders\<close>

lemma writes_varint: "writes (\<lambda>s. Some (pb_encode_varint s v)) (Some (varint_buffer v))"
  by (simp add: pb_encode_varint_emit writes_emit)

lemma writes_tag: "writes (\<lambda>s. Some (pb_encode_tag s wt t)) (Some (tag_bytes wt t))"
  by (simp add: pb_encode_tag_bytes writes_emit)

text \<open>\<open>pb_encode_string\<close> on two statements in a row.\<close>

lemma pb_encode_string_then:
  "Some (pb_encode_string s buf sz) =
     then_write (Some (pb_encode_varint s (of_nat sz))) (\<lambda>s. Some (pb_write s buf sz))"
  by (simp add: pb_encode_string_def then_write_def split: prod.splits bool.splits)

lemma writes_string:
  assumes "length bs = sz"
  shows "writes (\<lambda>s. Some (pb_encode_string s bs sz)) (Some (string_bytes bs))"
proof -
  have "writes (\<lambda>s. Some (pb_write s bs sz)) (Some bs)"
    using writes_emit [of bs] assms by (simp add: emit_def)
  from writes_then_Some [OF writes_varint this] show ?thesis
    by (simp add: pb_encode_string_then string_bytes_def assms)
qed

lemma writable_then_fun:
  "writable f \<Longrightarrow> writable g \<Longrightarrow> writable (\<lambda>s. then_write (f s) (\<lambda>s. g s))"
  by (rule writable_then)

lemma writable_tag_for_field [intro]: "writable (\<lambda>s. Some (pb_encode_tag_for_field s fld))"
proof (cases "wire_type_of (PB_LTYPE (ftype fld))")
  case None
  then show ?thesis using writable_fail(1) [of "''invalid field type''"]
    by (simp add: pb_encode_tag_for_field_def pb_oreturn_error_def)
next
  case (Some wt)
  then show ?thesis using writes_tag [of wt "tag fld"]
    by (auto simp: pb_encode_tag_for_field_def writable_def)
qed

text \<open>A submessage is written as a string of its own bytes, with the length found by a first
  pass over a sizing stream. \<open>submessage_body\<close> is what follows the length.\<close>

definition submessage_body ::
  "'s pb_subencoder \<Rightarrow> pb_field list \<Rightarrow> nat \<Rightarrow> mem \<Rightarrow> 's pb_ostream \<Rightarrow> 's pb_ostream \<Rightarrow> 's pb_oresult"
  where
  "submessage_body enc fs src m z s =
     (case ocallback s of
        None \<Rightarrow> Some (pb_write s [] (bytes_written z))
      | Some cb \<Rightarrow>
          if size_add (bytes_written s) (bytes_written z) > max_size s
          then pb_oreturn_error s ''stream full''
          else do {
            (status, sub) \<leftarrow> enc
              (z\<lparr>ocallback := Some cb, ostate := ostate s, max_size := bytes_written z,
                 bytes_written := 0, oerrmsg := None\<rparr>) fs src m;
            let s = s\<lparr>bytes_written := size_add (bytes_written s) (bytes_written sub),
                      ostate := ostate sub, oerrmsg := oerrmsg sub\<rparr>;
            if bytes_written sub \<noteq> bytes_written z then pb_oreturn_error s ''submsg size changed''
            else Some (status, s) })"

lemma encode_submessage_split:
  "enc PB_OSTREAM_SIZING fs src m = Some (True, z) \<Longrightarrow>
   pb_encode_submessage_with enc s fs src m =
     then_write (Some (pb_encode_varint s (of_nat (bytes_written z)))) (submessage_body enc fs src m z)"
  by (simp add: pb_encode_submessage_with_def submessage_body_def [abs_def] Let_def)

lemma writes_submessage_body:
  assumes enc: "writes (\<lambda>s. enc s fs src m) (Some bs)"
    and size: "length bs < 2 ^ 64 \<Longrightarrow> bytes_written z = length bs"
  shows "writes (submessage_body enc fs src m z) (Some bs)"
proof (rule writesI)
  fix s s' :: "'a pb_ostream"
  assume s: "plain s" and ok: "submessage_body enc fs src m z s = Some (True, s')"
  have "follows s bs s'"
  proof (cases "ocallback s")
    case None
    then show ?thesis using s ok by (auto simp: submessage_body_def intro: pb_write_ok_follows)
  next
    case (Some cb)
    let ?sub = "z\<lparr>ocallback := Some cb, ostate := ostate s, max_size := bytes_written z,
                 bytes_written := 0, oerrmsg := None\<rparr>"
    have ps: "plain ?sub" using s Some by (simp add: plain_def split: ocallback.splits sstate.splits)
    obtain sub where 2: "enc ?sub fs src m = Some (True, sub)" "bytes_written sub = bytes_written z"
      "s' = s\<lparr>bytes_written := size_add (bytes_written s) (bytes_written sub),
         ostate := ostate sub, oerrmsg := oerrmsg sub\<rparr>"
      "size_add (bytes_written s) (bytes_written z) \<le> max_size s"
      using ok Some
      by (auto simp: submessage_body_def pb_oreturn_error_def Let_def
          split: Option.bind_splits prod.splits if_splits)
    then have "follows ?sub bs sub" using writes_follows [OF enc ps] by auto
    then show ?thesis using s 2 Some
      by (cases cb) (auto simp: plain_def follows_def contents_def split: sstate.splits)
  qed
  then show "\<exists>b. Some bs = Some b \<and> follows s b s'" by simp
next
  fix s :: "'a pb_ostream" and bs'
  assume s: "plain s" and "Some bs = Some bs'" and room: "roomy (length bs') s"
  then have b: "bs' = bs" and z: "bytes_written z = length bs"
    using size by (simp_all add: roomy_def)
  have add: "size_add (bytes_written s) (length bs) = bytes_written s + length bs"
    using room b by (simp add: roomy_def)
  show "submessage_body enc fs src m z s = Some (True, written bs' s)" if fit: "fits (length bs') s"
  proof (cases "ocallback s")
    case None
    then show ?thesis using pb_write_sizing [of s "length bs" bs] room b z
      by (simp add: submessage_body_def)
  next
    case (Some cb)
    let ?sub = "z\<lparr>ocallback := Some cb, ostate := ostate s, max_size := length bs,
                 bytes_written := 0, oerrmsg := None\<rparr>"
    have ps: "plain ?sub" using s Some by (simp add: plain_def split: ocallback.splits sstate.splits)
    have "roomy (length bs) ?sub" "fits (length bs) ?sub"
      using room b by (simp_all add: roomy_def fits_def)
    from writes_fits [OF enc ps this]
    have e: "enc ?sub fs src m = Some (True, written bs ?sub)" .
    show ?thesis
      using e fit Some s
      by (simp add: submessage_body_def z add b fits_def written_def contents_def plain_def)
  qed
  show "\<exists>s'. submessage_body enc fs src m z s = Some (False, s')" if "\<not> fits (length bs') s"
    using that by (auto simp: submessage_body_def z add b fits_def pb_oreturn_error_def)
qed

lemma writes_submessage:
  assumes enc: "writes (\<lambda>s. enc s fs src m) r"
  shows "\<exists>r'. writes (\<lambda>s. pb_encode_submessage_with enc s fs src m) r' \<and>
     (\<forall>bs. r = Some bs \<and> length bs < 2 ^ 64 \<longrightarrow> r' = Some (string_bytes bs))"
proof (cases "\<exists>z. enc PB_OSTREAM_SIZING fs src m = Some (True, z)")
  case False
  have "2 ^ 64 \<le> length bs" if "r = Some bs" for bs
    using writes_fits [OF enc [unfolded that] plain_sizing] False
    by (fastforce simp: roomy_def fits_def)
  moreover have "writes (\<lambda>s. pb_encode_submessage_with enc s fs src m) None"
    using False
    by (intro writes_none) (auto simp: pb_encode_submessage_with_def split: Option.bind_splits)
  ultimately show ?thesis by (metis not_less)
next
  case True
  then obtain z where z: "enc PB_OSTREAM_SIZING fs src m = Some (True, z)" ..
  from writes_follows [OF enc plain_sizing z] obtain bs where r: "r = Some bs" by auto
  have size: "bytes_written z = length bs" if "length bs < 2 ^ 64"
    using writes_fits [OF enc [unfolded r] plain_sizing] z that
    by (simp add: roomy_def fits_def)
  have "writes (submessage_body enc fs src m z) (Some bs)"
    by (rule writes_submessage_body) (use enc r size in simp_all)
  from writes_then_Some [OF writes_varint this]
  have "writes (\<lambda>s. pb_encode_submessage_with enc s fs src m)
      (Some (varint_buffer (of_nat (bytes_written z)) @ bs))"
    by (simp only: encode_submessage_split [of enc fs src m z, OF z])
  then show ?thesis
    using size r by (auto simp: string_bytes_def)
qed

lemma writable_submessage:
  "writable (\<lambda>s. enc s fs src m) \<Longrightarrow> writable (\<lambda>s. pb_encode_submessage_with enc s fs src m)"
  unfolding writable_def using writes_submessage by blast

lemma writable_if [intro]:
  "(b \<Longrightarrow> writable f) \<Longrightarrow> (\<not> b \<Longrightarrow> writable g) \<Longrightarrow> writable (\<lambda>s. if b then f s else g s)"
  by (cases b) simp_all

lemma writable_string [intro]: "writable (\<lambda>s. Some (pb_encode_string s [] 0))"
  "writable (\<lambda>s. Some (pb_encode_string s (mem_read a n m) n))"
  using writes_string [of "[]" 0] writes_string [OF length_mem_read, of a n m]
  unfolding writable_def by auto

text \<open>Every entry of \<open>PB_ENCODERS\<close> is a writer, if the submessage encoder is.\<close>

lemma writable_varints [intro]:
  "writable (\<lambda>s. pb_enc_varint s fld src m)"
  "writable (\<lambda>s. pb_enc_uvarint s fld src m)"
  "writable (\<lambda>s. pb_enc_svarint s fld src m)"
  by (cases "load_signed (data_size fld) src m"; cases "load_unsigned (data_size fld) src m";
      auto simp: pb_enc_varint_def pb_enc_uvarint_def pb_enc_svarint_def pb_encode_svarint_def
        pb_encode_varint_emit)+

lemma writes_fixed32: "writes (\<lambda>s. pb_enc_fixed32 s fld src m) (Some (fixed32_bytes (load32 src m)))"
  by (simp add: pb_enc_fixed32_def pb_encode_fixed32_bytes writes_emit)

lemma writes_fixed64: "writes (\<lambda>s. pb_enc_fixed64 s fld src m) (Some (fixed64_bytes (load64 src m)))"
  by (simp add: pb_enc_fixed64_def pb_encode_fixed64_bytes writes_emit)

lemma writable_strings [intro]:
  "writable (\<lambda>s. pb_enc_bytes s fld src m)"
  "writable (\<lambda>s. pb_enc_string s fld src m)"
  "writable (\<lambda>s. pb_enc_fixed_length_bytes s fld src m)"
  unfolding pb_enc_bytes_def pb_enc_string_def pb_enc_fixed_length_bytes_def Let_def
  by (intro writable_if writable_string writable_fail)+

definition writable_sub :: "'s pb_subencoder \<Rightarrow> mem \<Rightarrow> bool" where
  "writable_sub enc m \<longleftrightarrow> (\<forall>fs src. writable (\<lambda>s. enc s fs src m))"

lemma call_encoder_cases:
  "(call_encoder env enc :: 's pb_encoder) s fld src m =
     (let lt = PB_LTYPE (ftype fld) in
      if lt = PB_LTYPE_VARINT then pb_enc_varint s fld src m
      else if lt = PB_LTYPE_UVARINT then pb_enc_uvarint s fld src m
      else if lt = PB_LTYPE_SVARINT then pb_enc_svarint s fld src m
      else if lt = PB_LTYPE_FIXED32 then pb_enc_fixed32 s fld src m
      else if lt = PB_LTYPE_FIXED64 then pb_enc_fixed64 s fld src m
      else if lt = PB_LTYPE_BYTES then pb_enc_bytes s fld src m
      else if lt = PB_LTYPE_STRING then pb_enc_string s fld src m
      else if lt = PB_LTYPE_SUBMESSAGE then pb_enc_submessage env enc s fld src m
      else if lt = PB_LTYPE_FIXED_LENGTH_BYTES then pb_enc_fixed_length_bytes s fld src m
      else None)"
proof -
  obtain k where k: "unat (PB_LTYPE (ftype fld)) = k" by blast
  then have lt: "PB_LTYPE (ftype fld) = of_nat k" by auto
  consider "k \<in> {0,1,2,3,4,5,6,7,8,9}" | "10 \<le> k" by fastforce
  then show ?thesis
  proof cases
    case 1
    then show ?thesis
      by (auto simp: call_encoder_def PB_ENCODERS_def lt pb_consts Let_def)
  next
    case 2
    have "PB_LTYPE (ftype fld) \<noteq> c" if "unat c < 10" for c using 2 k that by auto
    then show ?thesis using 2 k
      by (simp add: call_encoder_def PB_ENCODERS_def pb_consts Let_def)
  qed
qed

lemma writable_call [intro]:
  assumes "writable_sub enc m"
  shows "writable (\<lambda>s. call_encoder env enc s fld src m)"
proof -
  have "writable (\<lambda>s. pb_enc_fixed32 s fld src m)" "writable (\<lambda>s. pb_enc_fixed64 s fld src m)"
    using writes_fixed32 [of fld src m] writes_fixed64 [of fld src m] unfolding writable_def by blast+
  moreover have "writable (\<lambda>s. pb_enc_submessage env enc s fld src m)"
    unfolding pb_enc_submessage_def
    by (intro writable_if writable_fail writable_submessage) (use assms in \<open>auto simp: writable_sub_def\<close>)
  ultimately show ?thesis
    unfolding call_encoder_cases Let_def
    by (intro writable_if writable_varints writable_strings writable_fail) assumption+
qed

subsection \<open>Arrays\<close>

text \<open>A loop over items writes their bytes one after the other.\<close>

fun append_all :: "u8 list option list \<Rightarrow> u8 list option" where
  "append_all [] = Some []"
| "append_all (r # rs) = append_opt r (append_all rs)"

lemma writes_items:
  "(\<And>i. i < k \<Longrightarrow> writes (\<lambda>s. f s (p + i * sz)) (r i)) \<Longrightarrow>
   writes (\<lambda>s. items_loop f k sz s p) (append_all (map r [0..<k]))"
proof (induction k arbitrary: p r)
  case 0
  then show ?case by (simp add: writes_skip)
next
  case (Suc k)
  have 0: "writes (\<lambda>s. f s p) (r 0)" using Suc.prems [of 0] by simp
  have "writes (\<lambda>s. items_loop f k sz s (p + sz)) (append_all (map (\<lambda>i. r (Suc i)) [0..<k]))"
    by (rule Suc.IH) (use Suc.prems [of "Suc _"] in \<open>simp add: add.assoc\<close>)
  from writes_then [OF 0 this] show ?case
    by (simp add: upt_conv_Cons map_Suc_upt [symmetric] o_def del: upt_Suc)
qed

lemma writable_items:
  assumes "\<And>p. writable (\<lambda>s. f s p)"
  shows "writable (\<lambda>s. items_loop f k sz s p)"
proof -
  from assms obtain r where "\<And>p. writes (\<lambda>s. f s p) (r p)" unfolding writable_def by metis
  then show ?thesis
    using writes_items [of k f p sz "\<lambda>i. r (p + i * sz)"] unfolding writable_def by blast
qed

lemma append_all_length:
  "append_all rs = Some bs \<Longrightarrow> (\<And>r b. r \<in> set rs \<Longrightarrow> r = Some b \<Longrightarrow> length b = n) \<Longrightarrow>
   length bs = n * length rs"
  by (induction rs arbitrary: bs) (auto simp: append_opt_eq_Some)

text \<open>The size of a packed array is the length of what its items write.\<close>

lemma call_encoder_fixed:
  "PB_LTYPE (ftype fld) = PB_LTYPE_FIXED32 \<Longrightarrow> call_encoder env enc s fld src m = pb_enc_fixed32 s fld src m"
  "PB_LTYPE (ftype fld) = PB_LTYPE_FIXED64 \<Longrightarrow> call_encoder env enc s fld src m = pb_enc_fixed64 s fld src m"
  by (simp_all add: call_encoder_cases Let_def pb_consts)

lemma length_fixed_bytes [simp]: "length (fixed32_bytes v) = 4" "length (fixed64_bytes w) = 8"
  by (simp_all add: fixed32_bytes_le fixed64_bytes_le)

definition packed_items ::
  "'s eenv \<Rightarrow> 's pb_subencoder \<Rightarrow> pb_field \<Rightarrow> nat \<Rightarrow> nat \<Rightarrow> mem \<Rightarrow> 's pb_ostream \<Rightarrow> 's pb_oresult"
  where
  "packed_items env enc fld p count m s =
     items_loop (\<lambda>s p. call_encoder env enc s fld p m) count (data_size fld) s p"

lemma fixed_array_bytes:
  assumes "\<And>p. writes (\<lambda>s. call_encoder env enc s fld p m) (Some (b p))" "\<And>p. length (b p) = n"
  shows "\<exists>bs. writes (packed_items env enc fld p count m) (Some bs) \<and> length bs = n * count"
proof -
  let ?r = "\<lambda>i. Some (b (p + i * data_size fld))"
  have "append_all (map ?r is) \<noteq> None" for "is" by (induction "is") (auto simp: append_opt_eq_None)
  then obtain bs where bs: "append_all (map ?r [0..<count]) = Some bs" by blast
  have "writes (packed_items env enc fld p count m) (append_all (map ?r [0..<count]))"
    unfolding packed_items_def [abs_def] by (rule writes_items) (rule assms(1))
  moreover have "length bs = n * count"
    using append_all_length [OF bs, of n] assms(2) by auto
  ultimately show ?thesis using bs by auto
qed

lemma packed_size_bytes:
  assumes sub: "writable_sub enc m"
    and z: "packed_size (call_encoder env enc :: 's pb_encoder) fld p count m = Some (True, z)"
  obtains bs where "writes (packed_items env enc fld p count m) (Some bs)"
    "length bs < 2 ^ 64 \<Longrightarrow> z = length bs"
proof -
  consider "PB_LTYPE (ftype fld) = PB_LTYPE_FIXED32" | "PB_LTYPE (ftype fld) = PB_LTYPE_FIXED64"
    | "PB_LTYPE (ftype fld) \<noteq> PB_LTYPE_FIXED32" "PB_LTYPE (ftype fld) \<noteq> PB_LTYPE_FIXED64" by blast
  then show thesis
  proof cases
    case 1
    have "z = 4 * count" using z 1 by (simp add: packed_size_def)
    then show thesis
      using fixed_array_bytes [of env enc fld m "\<lambda>p. fixed32_bytes (load32 p m)" 4 p count] that
      by (auto simp: call_encoder_fixed(1) [OF 1] writes_fixed32)
  next
    case 2
    then have "PB_LTYPE (ftype fld) \<noteq> PB_LTYPE_FIXED32" by (simp add: pb_consts)
    then have "z = 8 * count" using z 2 by (simp add: packed_size_def)
    then show thesis
      using fixed_array_bytes [of env enc fld m "\<lambda>p. fixed64_bytes (load64 p m)" 8 p count] that
      by (auto simp: call_encoder_fixed(2) [OF 2] writes_fixed64)
  next
    case 3
    obtain r where w: "writes (packed_items env enc fld p count m :: 's pb_ostream \<Rightarrow> _) r"
      using writable_items [of "\<lambda>s p. call_encoder env enc s fld p m" count "data_size fld" p,
          OF writable_call [OF sub]]
      unfolding packed_items_def [abs_def] writable_def by blast
    obtain zs where zs: "packed_items env enc fld p count m PB_OSTREAM_SIZING = Some (True, zs :: 's pb_ostream)"
      "z = bytes_written zs"
      using z 3 by (auto simp: packed_size_def packed_items_def split: Option.bind_splits)
    from writes_follows [OF w plain_sizing zs(1)] obtain bs where "r = Some bs" by auto
    moreover have "z = length bs" if "length bs < 2 ^ 64" "r = Some bs"
      using writes_fits [OF w [unfolded that(2)] plain_sizing] zs that(1) by (simp add: roomy_def fits_def)
    ultimately show thesis using that w by blast
  qed
qed

lemma writes_packed_body:
  assumes w: "writes f (Some bs)" and z: "length bs < 2 ^ 64 \<Longrightarrow> z = length bs"
  shows "writes (\<lambda>s. if ocallback s = None then Some (pb_write s [] z) else f s) (Some bs)"
proof (rule writesI)
  fix s s' :: "'a pb_ostream"
  assume "plain s" "(if ocallback s = None then Some (pb_write s [] z) else f s) = Some (True, s')"
  then show "\<exists>b. Some bs = Some b \<and> follows s b s'"
    using writes_follows [OF w, of s s'] pb_write_ok_follows [of s "[]" z s' bs] by (simp split: if_splits)
next
  fix s :: "'a pb_ostream" and bs'
  assume s: "plain s" and "Some bs = Some bs'" and room: "roomy (length bs') s"
  then have b: "bs' = bs" and "z = length bs" using z by (simp_all add: roomy_def)
  then show "(if ocallback s = None then Some (pb_write s [] z) else f s) = Some (True, written bs' s)"
    if "fits (length bs') s"
    using writes_fits [OF w s] that room pb_write_sizing [of s "length bs" bs "[]"] by simp
  show "\<exists>s'. (if ocallback s = None then Some (pb_write s [] z) else f s) = Some (False, s')"
    if "\<not> fits (length bs') s"
    using that writes_full [OF w s] room b by (auto simp: fits_def)
qed

lemma writable_array:
  assumes "writable_sub enc m"
  shows "writable (\<lambda>s. encode_array s fld p count (call_encoder env enc) m)"
proof -
  let ?packed = "\<lambda>s. do {
        (ok, size) \<leftarrow> packed_size (call_encoder env enc) fld p count m;
        if \<not> ok then Some (False, s)
        else then_write (Some (pb_encode_varint s (of_nat size))) (\<lambda>s.
          if ocallback s = None then Some (pb_write s [] size)
          else packed_items env enc fld p count m s) }"
  have "writable ?packed"
  proof (cases "\<exists>z. packed_size (call_encoder env enc) fld p count m = Some (True, z)")
    case False
    then have "writes ?packed None"
      by (intro writes_none) (auto split: Option.bind_splits)
    then show ?thesis unfolding writable_def by blast
  next
    case True
    then obtain z where z: "packed_size (call_encoder env enc) fld p count m = Some (True, z)" ..
    obtain bs where "writes (packed_items env enc fld p count m) (Some bs)"
      "length bs < 2 ^ 64 \<Longrightarrow> z = length bs"
      using packed_size_bytes [OF assms z] by blast
    from writes_then_Some [OF writes_varint writes_packed_body [OF this]]
    show ?thesis unfolding writable_def by (auto simp: z)
  qed
  from writable_then [OF _ this, of "\<lambda>s. Some (pb_encode_tag s PB_WT_STRING (tag fld))"]
  have packed: "writable (\<lambda>s. then_write (Some (pb_encode_tag s PB_WT_STRING (tag fld))) ?packed)"
    using writes_tag unfolding writable_def by blast
  have item: "writable (\<lambda>s. then_write (Some (pb_encode_tag_for_field s fld)) (\<lambda>s.
             if PB_ATYPE (ftype fld) = PB_ATYPE_POINTER \<and>
                (PB_LTYPE (ftype fld) = PB_LTYPE_STRING \<or> PB_LTYPE (ftype fld) = PB_LTYPE_BYTES)
             then call_encoder env enc s fld (load_ptr p m) m
             else call_encoder env enc s fld p m))" for p
    by (intro writable_then writable_tag_for_field writable_if writable_call [OF assms])
  show ?thesis
    unfolding encode_array_def
    using packed writable_items [OF item] unfolding packed_items_def
    by (intro writable_if writable_skip writable_fail)
qed

subsection \<open>Fields and messages\<close>

lemma writable_bind: "(\<And>a. writable (f a)) \<Longrightarrow> writable (\<lambda>s. Option.bind x (\<lambda>a. f a s))"
  by (cases x) auto

lemma writable_tagged:
  "writable_sub enc m \<Longrightarrow>
   writable (\<lambda>s. then_write (Some (pb_encode_tag_for_field s fld)) (\<lambda>s. call_encoder env enc s fld p m))"
  by (intro writable_then writable_tag_for_field writable_call)

lemma writable_case_option:
  "writable f \<Longrightarrow> (\<And>a. writable (g a)) \<Longrightarrow>
   writable (\<lambda>s. case x of None \<Rightarrow> f s | Some a \<Rightarrow> g a s)"
  by (cases x) auto

lemma writable_basic_field:
  assumes "writable_sub enc m"
  shows "writable (\<lambda>s. encode_basic_field env n enc s fld p m)"
  unfolding encode_basic_field_def Let_def split_def
  by (intro writable_bind writable_if writable_case_option writable_fail writable_skip
      writable_tagged writable_array assms)

text \<open>The requirement on the user's callbacks: each writes the same bytes whatever stream it is
  called with.\<close>

definition callbacks_write :: "'s eenv \<Rightarrow> mem \<Rightarrow> bool" where
  "callbacks_write env m \<longleftrightarrow>
     (\<forall>f fld arg. writable (\<lambda>s. Some (encode_funcs env f s fld arg m))) \<and>
     (\<forall>f ext. writable (\<lambda>s. Some (extension_encoders env f s ext m)))"

lemma writable_callback_field:
  assumes "callbacks_write env m"
  shows "writable (\<lambda>s. encode_callback_field env s fld p m)"
proof -
  have "(\<lambda>s. case encode_funcs env (cb_func p m) s fld (cb_arg_addr p) m of
        (ok, s) \<Rightarrow> if ok then Some (True, s) else pb_oreturn_error s ''callback error'') =
      (\<lambda>s. do { (ok, s) \<leftarrow> Some (encode_funcs env (cb_func p m) s fld (cb_arg_addr p) m);
         if ok then Some (True, s) else pb_oreturn_error s ''callback error'' })"
    by simp
  have "writes f r \<Longrightarrow>
      writes (\<lambda>s. do { (ok, s) \<leftarrow> f s; if ok then Some (True, s) else pb_oreturn_error s msg }) r"
    for f :: "'a pb_ostream \<Rightarrow> _" and r msg
    unfolding writes_def pb_oreturn_error_def
    by (fastforce split: Option.bind_splits if_splits)
  then have "writable (\<lambda>s. do { (ok, s) \<leftarrow> Some (encode_funcs env (cb_func p m) s fld (cb_arg_addr p) m);
         if ok then Some (True, s) else pb_oreturn_error s ''callback error'' })"
    using assms unfolding callbacks_write_def writable_def by blast
  then show ?thesis
    unfolding encode_callback_field_def by (intro writable_if writable_skip) simp
qed

lemma writable_field:
  assumes "callbacks_write env m" "writable_sub enc m"
  shows "writable (\<lambda>s. encode_field env n enc s fld p m)"
  unfolding encode_field_def Let_def
  by (intro writable_if writable_fail writable_basic_field writable_callback_field assms)

lemma writable_extensions:
  assumes "callbacks_write env m" "writable_sub enc m"
  shows "writable (\<lambda>s. encode_extension_loop env n enc k s ext m)"
proof (induction k arbitrary: ext)
  case 0
  then show ?case by (auto intro: writable_if)
next
  case (Suc k)
  have "writable (\<lambda>s. let f = ext_type_encode (ext_type ext m) m in
         if f \<noteq> 0 then Some (extension_encoders env f s ext m)
         else default_extension_encoder env n enc s ext m)"
    unfolding Let_def default_extension_encoder_def
    using assms(1) by (intro writable_if writable_field assms) (simp add: callbacks_write_def)
  from writable_then [OF this Suc.IH] show ?case
    unfolding encode_extension_loop.simps by (intro writable_if writable_skip)
qed

lemma writable_item:
  assumes "callbacks_write env m" "writable_sub enc m"
  shows "writable (\<lambda>s. encode_item env n enc m s it)"
  unfolding encode_item_def encode_extension_field_def
  by (intro writable_if writable_extensions writable_field assms)

lemma writable_fields_loop:
  assumes "\<And>it. writable (\<lambda>s. f s it)"
  shows "writable (\<lambda>s. encode_fields_loop f k s it)"
proof (induction k arbitrary: it)
  case 0
  then show ?case by auto
next
  case (Suc k)
  show ?case
    unfolding encode_fields_loop.simps
    by (rule writable_then [OF assms])
      (cases "pb_field_iter_next it"; cases "fst (pb_field_iter_next it)";
        auto intro: Suc.IH writable_skip)
qed

theorem pb_encode_writable:
  assumes "callbacks_write env m"
  shows "writable (\<lambda>s. pb_encode env n s fs src m)"
proof (induction n arbitrary: fs src)
  case 0
  then show ?case by auto
next
  case (Suc n)
  then have "writable_sub (pb_encode env n) m" by (simp add: writable_sub_def)
  from writable_fields_loop [of "encode_item env n (pb_encode env n) m", OF writable_item [OF assms this]]
  show ?case
    by (cases "pb_field_iter_begin fs src"; cases "fst (pb_field_iter_begin fs src)")
      (auto intro: writable_skip)
qed

text \<open>One successful encoding fixes what every other stream sees.\<close>

lemma contents_from_buffer [simp]:
  "contents (pb_ostream_from_buffer cap) = []" "bytes_written (pb_ostream_from_buffer cap) = 0"
  "ocallback (pb_ostream_from_buffer cap) = Some Buf_write" "max_size (pb_ostream_from_buffer cap) = cap"
  by (simp_all add: contents_def pb_ostream_from_buffer_def)

lemma encode_once:
  assumes "callbacks_write env m"
    and ok: "pb_encode env n (pb_ostream_from_buffer cap) fs src m = Some (True, s)"
  shows "writes (\<lambda>s. pb_encode env n s fs src m) (Some (contents s))"
proof -
  obtain r where w: "writes (\<lambda>s. pb_encode env n s fs src m) r"
    using pb_encode_writable [OF assms(1)] unfolding writable_def by blast
  from writes_follows [OF w plain_buffer ok] obtain bs
    where "r = Some bs" "follows (pb_ostream_from_buffer cap) bs s" by blast
  with w show ?thesis by (simp add: follows_def)
qed

lemma writes_size:
  assumes "writes (\<lambda>s. pb_encode env n s fs src m) (Some bs)" "length bs < 2 ^ 64"
  shows "pb_get_encoded_size env n fs src m = Some (Some (length bs))"
  using writes_fits [OF assms(1) plain_sizing] assms(2)
  by (simp add: pb_get_encoded_size_def roomy_def fits_def)

lemma writes_to_buffer:
  assumes "writes f (Some bs)" "length bs < 2 ^ 64"
  shows "length bs \<le> cap \<Longrightarrow> f (pb_ostream_from_buffer cap) = Some (True, written bs (pb_ostream_from_buffer cap))"
    and "cap < length bs \<Longrightarrow> \<exists>s. f (pb_ostream_from_buffer cap) = Some (False, s)"
  using writes_fits [OF assms(1) plain_buffer] writes_full [OF assms(1) plain_buffer] assms(2)
  by (simp_all add: roomy_def fits_def)

end
