(* ===== verification/Base64.thy ===== *)
theory Base64
  imports CMemory
begin

text \<open>
  fbase64.c, the base64 routines the Firebase database client opens its web socket with.
  The source text is the list of bytes the pointer walks over (a C string ends at its first 0
  byte, or where the list ends), the target is the memory, \<open>t = 0\<close> a \<open>NULL\<close> target.
  \<open>f_b64_ntop\<close> is shown to write exactly the encoding of RFC 4648 and \<open>f_b64_pton\<close> to accept
  exactly these encodings, with white space anywhere, and to give back the data.
\<close>

definition Base64 :: "u8 list" where
  "Base64 = map of_char
     ''ABCDEFGHIJKLMNOPQRSTUVWXYZabcdefghijklmnopqrstuvwxyz0123456789+/''"

definition Pad64 :: u8 where "Pad64 = of_char (CHR ''='')"

subsection \<open>The encoder\<close>

text \<open>The two digits in the middle of a group; C adds the parts as \<open>int\<close> and stores a byte.\<close>

definition quantum :: "u8 \<Rightarrow> u8 \<Rightarrow> u8 \<Rightarrow> u8 list" where
  "quantum a b c =
    [drop_bit 2 a,
     push_bit 4 (a AND 0x03) + drop_bit 4 b,
     push_bit 2 (b AND 0x0f) + drop_bit 6 c,
     c AND 0x3f]"

definition digit :: "u8 \<Rightarrow> u8" where "digit i = Base64 ! unat i"

text \<open>The loop over whole groups: the bytes left over and the length so far, or \<open>None\<close> when it
  returns -1.\<close>

fun ntop_loop :: "u8 list \<Rightarrow> nat \<Rightarrow> nat \<Rightarrow> nat \<Rightarrow> mem \<Rightarrow> (u8 list \<times> nat) option \<times> mem" where
  "ntop_loop (a # b # c # src) n t targsize m =
     (if size_add n 4 > targsize then (None, m)
      else ntop_loop src (n + 4) t targsize
        (mem_write (t + n) (map digit (quantum a b c)) m))"
| "ntop_loop src n t targsize m = (Some (src, n), m)"

definition ntop_pad :: "u8 list \<Rightarrow> nat \<Rightarrow> nat \<Rightarrow> nat \<Rightarrow> mem \<Rightarrow> nat option \<times> mem" where
  "ntop_pad src n t targsize m =
     (if src = [] then (Some n, m)
      else
        let q = quantum (src ! 0) (if length src = 1 then 0 else src ! 1) 0 in
        if size_add n 4 > targsize then (None, m)
        else (Some (n + 4), mem_write (t + n)
          [digit (q ! 0), digit (q ! 1), if length src = 1 then Pad64 else digit (q ! 2), Pad64] m))"

definition f_b64_ntop :: "u8 list \<Rightarrow> nat \<Rightarrow> nat \<Rightarrow> mem \<Rightarrow> int \<times> mem" where
  "f_b64_ntop src t targsize m =
     (case ntop_loop src 0 t targsize m of
        (None, m) \<Rightarrow> (- 1, m)
      | (Some (src, n), m) \<Rightarrow>
          (case ntop_pad src n t targsize m of
             (None, m) \<Rightarrow> (- 1, m)
           | (Some n, m) \<Rightarrow>
               if n \<ge> targsize then (- 1, m)
               else (sint (of_nat n :: u32), mem_write (t + n) [0] m)))"

subsection \<open>The decoder\<close>

text \<open>\<open>isspace\<close> in the C locale.\<close>

definition isspace :: "u8 \<Rightarrow> bool" where
  "isspace ch \<longleftrightarrow> ch \<in> {9, 10, 11, 12, 13, 32}"

text \<open>\<open>strchr(Base64, ch) - Base64\<close> for a \<open>ch\<close> that is not 0.\<close>

primrec strchr_index :: "u8 \<Rightarrow> u8 list \<Rightarrow> nat option" where
  "strchr_index ch [] = None"
| "strchr_index ch (c # cs) = (if c = ch then Some 0 else map_option Suc (strchr_index ch cs))"

text \<open>The \<open>switch (state)\<close> of the loop; \<open>tarindex\<close> is a \<open>u_int\<close> and wraps at \<open>2^32\<close>.\<close>

definition pton_step :: "nat \<Rightarrow> nat \<Rightarrow> u8 \<Rightarrow> nat \<Rightarrow> nat \<Rightarrow> mem \<Rightarrow> (nat \<times> nat) option \<times> mem" where
  "pton_step t targsize d state i m =
     (let i' = (i + 1) mod 2 ^ 32 in
      if state = 0 then
        if t \<noteq> 0 \<and> i \<ge> targsize then (None, m)
        else (Some (1, i), if t = 0 then m else m(t + i := push_bit 2 d))
      else if state = 1 then
        if t \<noteq> 0 \<and> i' \<ge> targsize then (None, m)
        else (Some (2, i'), if t = 0 then m
          else m(t + i := m (t + i) OR drop_bit 4 d, t + i' := push_bit 4 (d AND 0x0f)))
      else if state = 2 then
        if t \<noteq> 0 \<and> i' \<ge> targsize then (None, m)
        else (Some (3, i'), if t = 0 then m
          else m(t + i := m (t + i) OR drop_bit 2 d, t + i' := push_bit 6 (d AND 0x03)))
      else
        if t \<noteq> 0 \<and> i \<ge> targsize then (None, m)
        else (Some (0, i'), if t = 0 then m else m(t + i := m (t + i) OR d)))"

text \<open>The loop over the characters: \<open>None\<close> when it returns -1, otherwise the rest of the source
  behind a pad character, if it stopped at one, the state and \<open>tarindex\<close>.\<close>

fun pton_loop ::
  "nat \<Rightarrow> nat \<Rightarrow> u8 list \<Rightarrow> nat \<Rightarrow> nat \<Rightarrow> mem \<Rightarrow> (u8 list option \<times> nat \<times> nat) option \<times> mem" where
  "pton_loop t targsize [] state i m = (Some (None, state, i), m)"
| "pton_loop t targsize (ch # src) state i m =
     (if ch = 0 then (Some (None, state, i), m)
      else if isspace ch then pton_loop t targsize src state i m
      else if ch = Pad64 then (Some (Some src, state, i), m)
      else
        case strchr_index ch Base64 of
          None \<Rightarrow> (None, m)
        | Some d \<Rightarrow>
            (case pton_step t targsize (of_nat d) state i m of
               (None, m) \<Rightarrow> (None, m)
             | (Some (state, i), m) \<Rightarrow> pton_loop t targsize src state i m))"

definition next_char :: "u8 list \<Rightarrow> u8 \<times> u8 list" where
  "next_char src = (case src of [] \<Rightarrow> (0, []) | ch # src \<Rightarrow> (ch, src))"

text \<open>\<open>for (; ch != 0; ch = *src++) if (!isspace(ch)) break;\<close> and the same loop returning -1.\<close>

fun skip_spaces :: "u8 \<Rightarrow> u8 list \<Rightarrow> u8 \<times> u8 list" where
  "skip_spaces ch [] = (if ch \<noteq> 0 \<and> isspace ch then (0, []) else (ch, []))"
| "skip_spaces ch (c # src) = (if ch \<noteq> 0 \<and> isspace ch then skip_spaces c src else (ch, c # src))"

fun only_spaces :: "u8 \<Rightarrow> u8 list \<Rightarrow> bool" where
  "only_spaces ch [] \<longleftrightarrow> ch = 0 \<or> isspace ch"
| "only_spaces ch (c # src) \<longleftrightarrow> ch = 0 \<or> isspace ch \<and> only_spaces c src"

text \<open>What follows the first pad character, in state 2 or 3.\<close>

definition pton_pad :: "nat \<Rightarrow> nat \<Rightarrow> u8 \<Rightarrow> u8 list \<Rightarrow> nat \<Rightarrow> mem \<Rightarrow> bool" where
  "pton_pad t state ch src i m \<longleftrightarrow>
     (if state = 2 then
        let (ch, src) = skip_spaces ch src in
        ch = Pad64 \<and> (let (ch, src) = next_char src in only_spaces ch src)
      else state = 3 \<and> only_spaces ch src) \<and>
     \<not> (t \<noteq> 0 \<and> m (t + i) \<noteq> 0)"

definition f_b64_pton :: "u8 list \<Rightarrow> nat \<Rightarrow> nat \<Rightarrow> mem \<Rightarrow> int \<times> mem" where
  "f_b64_pton src t targsize m =
     (case pton_loop t targsize src 0 0 m of
        (None, m) \<Rightarrow> (- 1, m)
      | (Some (Some src, state, i), m) \<Rightarrow>
          (let (ch, src) = next_char src in
           if pton_pad t state ch src i m then (sint (of_nat i :: u32), m) else (- 1, m))
      | (Some (None, state, i), m) \<Rightarrow>
          if state \<noteq> 0 then (- 1, m) else (sint (of_nat i :: u32), m))"

subsection \<open>The alphabet\<close>

lemma Base64_bytes:
  "Base64 = map word_of_nat ([65..<91] @ [97..<123] @ [48..<58] @ [43, 47])"
  by (simp add: Base64_def upt_rec)

lemma length_Base64 [simp]: "length Base64 = 64"
  by (simp add: Base64_def)

lemma distinct_Base64: "distinct Base64"
proof -
  have "inj_on (word_of_nat :: nat \<Rightarrow> u8) {..<256}"
    by (rule inj_onI) (auto simp: of_nat_eq_iff take_bit_nat_eq_self word_of_nat_eq_iff)
  then show ?thesis
    unfolding Base64_bytes distinct_map by (auto intro: inj_on_subset)
qed

lemma strchr_index_Some: "strchr_index ch cs = Some i \<Longrightarrow> i < length cs \<and> cs ! i = ch"
  by (induction cs arbitrary: i) (auto split: if_splits)

lemma strchr_index_nth: "distinct cs \<Longrightarrow> i < length cs \<Longrightarrow> strchr_index (cs ! i) cs = Some i"
  by (induction cs arbitrary: i) (auto simp: nth_Cons split: nat.splits)

lemma strchr_digit: "i < 64 \<Longrightarrow> strchr_index (Base64 ! i) Base64 = Some i"
  by (simp add: strchr_index_nth distinct_Base64)

lemma Pad64_byte: "Pad64 = 61"
  by (simp add: Pad64_def)

lemma digit_char:
  assumes "i < 64"
  shows "Base64 ! i \<noteq> 0 \<and> \<not> isspace (Base64 ! i) \<and> Base64 ! i \<noteq> Pad64"
proof -
  have "list_all (\<lambda>c. c \<noteq> 0 \<and> \<not> isspace c \<and> c \<noteq> Pad64) Base64"
    by (simp add: Base64_bytes isspace_def Pad64_byte upt_rec)
  then show ?thesis using assms by (simp add: list_all_length)
qed

lemma pad_facts [simp]: "Pad64 \<noteq> 0" "\<not> isspace Pad64" "strchr_index Pad64 Base64 = None"
  using digit_char strchr_index_Some [of Pad64 Base64]
  by (cases "strchr_index Pad64 Base64"; force simp: Pad64_byte isspace_def)+

subsection \<open>Groups of bits\<close>

text \<open>The digits of RFC 4648: a group of three bytes is a 24-bit number, a digit six of its bits.\<close>

definition sextets :: "nat \<Rightarrow> nat list" where
  "sextets g = [g div 64 ^ 3, g div 64 ^ 2 mod 64, g div 64 mod 64, g mod 64]"

lemma masks: "a AND 0x03 = take_bit 2 a" "a AND 0x0f = take_bit 4 a" "a AND 0x3f = take_bit 6 a"
  for a :: u8
  by (simp_all add: take_bit_eq_mask mask_eq_exp_minus_1)

lemma quantum_or:
  "quantum a b c =
    [drop_bit 2 a, push_bit 4 (take_bit 2 a) OR drop_bit 4 b,
     push_bit 2 (take_bit 4 b) OR drop_bit 6 c, take_bit 6 c]"
proof -
  have "push_bit 4 (take_bit 2 a) AND drop_bit 4 b = 0" "push_bit 2 (take_bit 4 b) AND drop_bit 6 c = 0"
    by (rule bit_word_eqI, force simp: bit_simps dest: bit_imp_le_length)+
  then show ?thesis by (simp add: quantum_def masks disjunctive_add_eq_or)
qed

lemma unat_u8_less: "unat (a :: u8) < 256"
  using unsigned_less [of a] by simp

lemma base64_digits:
  fixes d0 d1 d2 d3 :: nat
  assumes "d1 < 64" "d2 < 64" "d3 < 64" "g = ((d0 * 64 + d1) * 64 + d2) * 64 + d3"
  shows "g div 64 ^ 3 = d0" "g div 64 ^ 2 mod 64 = d1" "g div 64 mod 64 = d2" "g mod 64 = d3"
proof -
  have 1: "g div 64 = (d0 * 64 + d1) * 64 + d2" using assms by simp
  have 2: "g div 64 ^ 2 = d0 * 64 + d1"
    using 1 assms(2) by (simp add: power2_eq_square div_mult2_eq del: power_numeral)
  have 3: "g div 64 ^ 3 = d0"
  proof -
    have "g div 64 ^ 3 = g div 64 ^ 2 div 64" by (simp add: div_mult2_eq power3_eq_cube power2_eq_square)
    then show ?thesis using 2 assms(1) by simp
  qed
  show "g div 64 ^ 3 = d0" by (rule 3)
  show "g div 64 ^ 2 mod 64 = d1"
    unfolding 2 using assms(1) by (simp only: mod_mult_self3 mod_less)
  show "g div 64 mod 64 = d2"
    unfolding 1 using assms(2) by (simp only: mod_mult_self3 mod_less)
  show "g mod 64 = d3"
    unfolding assms(4) using assms(3) by (simp only: mod_mult_self3 mod_less)
qed

lemma digits_of_group:
  fixes a b c :: nat
  assumes "b < 256" "c < 256"
  shows "a * 2 ^ 16 + b * 2 ^ 8 + c =
    ((a div 4 * 64 + (a mod 4 * 16 + b div 16)) * 64 + (b mod 16 * 4 + c div 64)) * 64 + c mod 64"
    "a mod 4 * 16 + b div 16 < 64" "b mod 16 * 4 + c div 64 < 64"
proof -
  show "a mod 4 * 16 + b div 16 < 64" "b mod 16 * 4 + c div 64 < 64" using assms by linarith+
  define x y where xy: "x = a div 4" "y = a mod 4"
  define u v where uv: "u = b div 16" "v = b mod 16"
  define p q where pq: "p = c div 64" "q = c mod 64"
  have "a = a div 4 * 4 + a mod 4" "b = b div 16 * 16 + b mod 16" "c = c div 64 * 64 + c mod 64" by simp_all
  then have e: "a = x * 4 + y" "b = u * 16 + v" "c = p * 64 + q"
    by (simp_all only: xy uv pq)
  have "(x * 4 + y) * 2 ^ 16 + (u * 16 + v) * 2 ^ 8 + (p * 64 + q) =
    ((x * 64 + (y * 16 + u)) * 64 + (v * 4 + p)) * 64 + q" by simp
  then show "a * 2 ^ 16 + b * 2 ^ 8 + c =
    ((a div 4 * 64 + (a mod 4 * 16 + b div 16)) * 64 + (b mod 16 * 4 + c div 64)) * 64 + c mod 64"
    by (simp only: e [symmetric] xy [symmetric] uv [symmetric] pq [symmetric])
qed

lemma unat_quantum:
  "map unat (quantum a b c) =
    [unat a div 4, unat a mod 4 * 16 + unat b div 16, unat b mod 16 * 4 + unat c div 64, unat c mod 64]"
proof -
  have "unat a mod 4 * 16 + unat b div 16 < 256" "unat b mod 16 * 4 + unat c div 64 < 256"
    using digits_of_group(2) [OF unat_u8_less unat_u8_less, of "unat a" b]
      digits_of_group(3) [OF unat_u8_less unat_u8_less, of b c] by linarith+
  moreover have "unat a mod 4 * 16 < 256" "unat b mod 16 * 4 < 256" by (simp_all add: mod_less_divisor less_mult_imp_div_less)
  ultimately show ?thesis
    by (simp add: quantum_def masks drop_bit_eq_div push_bit_eq_mult take_bit_eq_mod
      unat_div unat_mod unat_word_ariths unat_u8_less)
qed

lemma quantum_sextets:
  "map unat (quantum a b c) = sextets (unat a * 2 ^ 16 + unat b * 2 ^ 8 + unat c)"
proof -
  note d = digits_of_group(1) [OF unat_u8_less unat_u8_less, of "unat a" b c]
    digits_of_group(2) [OF unat_u8_less unat_u8_less, of "unat a" b]
    digits_of_group(3) [OF unat_u8_less unat_u8_less, of b c]
  have "unat c mod 64 < 64" by simp
  from base64_digits [OF d(2) d(3) this d(1)] show ?thesis
    by (simp only: unat_quantum sextets_def)
qed

lemma quantum_less_64: "x \<in> set (quantum a b c) \<Longrightarrow> unat x < 64"
proof -
  assume "x \<in> set (quantum a b c)"
  then have "unat x \<in> set (map unat (quantum a b c))" by simp
  then show ?thesis
    using unat_u8_less [of a] unat_u8_less [of b] unat_u8_less [of c]
    unfolding quantum_sextets by (auto simp: sextets_def)
qed

subsection \<open>What the encoder writes\<close>

fun base64 :: "u8 list \<Rightarrow> u8 list" where
  "base64 (a # b # c # r) = map digit (quantum a b c) @ base64 r"
| "base64 [a, b] = map digit (take 3 (quantum a b 0)) @ [Pad64]"
| "base64 [a] = map digit (take 2 (quantum a 0 0)) @ [Pad64, Pad64]"
| "base64 [] = []"

lemma length_quantum [simp]: "length (quantum a b c) = 4"
  by (simp add: quantum_def)

lemma length_base64: "length (base64 d) = 4 * ((length d + 2) div 3)"
proof (induction d rule: base64.induct)
  case (1 a b c r)
  have "(length (a # b # c # r) + 2) div 3 = (length r + 2) div 3 + 1" using div_add_self1 [of 3 "length r + 2"] by (simp add: add.commute)
  then show ?case using 1 by simp
qed simp_all

lemma mem_write_append: "mem_write (a + length xs) ys (mem_write a xs m) = mem_write a (xs @ ys) m"
  by (rule ext) (auto simp: mem_write_def nth_append)

lemma mem_write_extend: "k = a + length xs \<Longrightarrow> mem_write k ys (mem_write a xs m) = mem_write a (xs @ ys) m"
  by (simp add: mem_write_append)

text \<open>The buffer the encoder needs holds the text and its final 0.\<close>

lemma ntop_run:
  assumes "n \<le> targsize" "targsize < 2 ^ 63"
  shows "\<exists>m'. agree_outside {t..<t + targsize} m m' \<and>
    (case ntop_loop src n t targsize m of
        (None, m1) \<Rightarrow> targsize < n + length (base64 src) \<and> m' = m1
      | (Some (r, n1), m1) \<Rightarrow>
          (case ntop_pad r n1 t targsize m1 of
             (None, m2) \<Rightarrow> targsize < n + length (base64 src) \<and> m' = m2
           | (Some n2, m2) \<Rightarrow> n2 = n + length (base64 src) \<and> n2 \<le> targsize \<and>
               m2 = mem_write (t + n) (base64 src) m \<and> m' = m2))"
  using assms
proof (induction src n t targsize m rule: ntop_loop.induct [case_names group none one two])
  case (group a b c src n t targsize m)
  have sa [simp]: "size_add n 4 = n + 4" using group(2,3) by simp
  show ?case
  proof (cases "n + 4 > targsize")
    case True
    then show ?thesis using group(3) by (intro exI [of _ m]) simp
  next
    case False
    let ?m = "mem_write (t + n) (map digit (quantum a b c)) m"
    have "agree_outside {t..<t + targsize} m ?m"
      using False by (intro agree_outside_write) auto
    moreover from False group(3) obtain m' where "agree_outside {t..<t + targsize} ?m m'" and
      "case ntop_loop src (n + 4) t targsize ?m of
        (None, m1) \<Rightarrow> targsize < n + 4 + length (base64 src) \<and> m' = m1
      | (Some (r, n1), m1) \<Rightarrow>
          (case ntop_pad r n1 t targsize m1 of
             (None, m2) \<Rightarrow> targsize < n + 4 + length (base64 src) \<and> m' = m2
           | (Some n2, m2) \<Rightarrow> n2 = n + 4 + length (base64 src) \<and> n2 \<le> targsize \<and>
               m2 = mem_write (t + (n + 4)) (base64 src) ?m \<and> m' = m2)"
      using group(1) by fastforce
    ultimately show ?thesis
      using False group(3)
      by (intro exI [of _ m'])
        (auto simp: mem_write_extend add.assoc intro: agree_outside_trans split: option.splits prod.splits)
  qed
next
  case (none n t targsize m)
  then show ?case by (intro exI [of _ m]) (simp add: ntop_pad_def)
next
  case (one a n t targsize m)
  then show ?case
    by (cases "n + 4 > targsize"; intro exI [of _ "snd (ntop_pad [a] n t targsize m)"])
      (auto simp: ntop_pad_def quantum_def Let_def intro!: agree_outside_write)
next
  case (two a b n t targsize m)
  then show ?case
    by (cases "n + 4 > targsize"; intro exI [of _ "snd (ntop_pad [a, b] n t targsize m)"])
      (auto simp: ntop_pad_def quantum_def Let_def intro!: agree_outside_write)
qed

lemma sint_u32: "n < 2 ^ 31 \<Longrightarrow> sint (of_nat n :: u32) = int n"
  by (simp add: signed_of_nat signed_take_bit_int_eq_self)

lemma ntop_ok:
  assumes "length (base64 src) < targsize" "targsize < 2 ^ 31"
  shows "f_b64_ntop src t targsize m = (int (length (base64 src)), mem_write t (base64 src @ [0]) m)"
proof -
  from ntop_run [of 0 targsize t m src] assms show ?thesis
    by (auto simp: f_b64_ntop_def mem_write_append sint_u32 split: option.splits prod.splits)
qed

lemma ntop_short:
  assumes "targsize \<le> length (base64 src)" "targsize < 2 ^ 31"
  shows "\<exists>m'. f_b64_ntop src t targsize m = (- 1, m') \<and> agree_outside {t..<t + targsize} m m'"
proof -
  from ntop_run [of 0 targsize t m src] assms show ?thesis
    by (auto simp: f_b64_ntop_def split: option.splits prod.splits)
qed

subsection \<open>What the decoder stores\<close>

text \<open>The bytes stored for a list of digits, the last one perhaps only in part.\<close>

fun stored :: "u8 list \<Rightarrow> u8 list" where
  "stored (d0 # d1 # d2 # d3 # ds) =
     [push_bit 2 d0 OR drop_bit 4 d1, push_bit 4 (d1 AND 0x0f) OR drop_bit 2 d2,
      push_bit 6 (d2 AND 0x03) OR d3] @ stored ds"
| "stored [d0, d1, d2] =
     [push_bit 2 d0 OR drop_bit 4 d1, push_bit 4 (d1 AND 0x0f) OR drop_bit 2 d2,
      push_bit 6 (d2 AND 0x03)]"
| "stored [d0, d1] = [push_bit 2 d0 OR drop_bit 4 d1, push_bit 4 (d1 AND 0x0f)]"
| "stored [d0] = [push_bit 2 d0]"
| "stored [] = []"

definition whole_bytes :: "'a list \<Rightarrow> nat" where
  "whole_bytes ds = length ds div 4 * 3 + (length ds mod 4 - 1)"

abbreviation is_digit :: "u8 \<Rightarrow> bool" where "is_digit d \<equiv> unat d < 64"

lemmas pton_loop_Cons = pton_loop.simps(2)

declare pton_loop_Cons [simp del]

lemma pton_loop_digit:
  "is_digit d \<Longrightarrow> pton_loop t targsize (digit d # src) state i m =
    (case pton_step t targsize d state i m of
       (None, m) \<Rightarrow> (None, m)
     | (Some (state, i), m) \<Rightarrow> pton_loop t targsize src state i m)"
  using digit_char [of "unat d"] by (simp add: digit_def strchr_digit pton_loop_Cons)

lemma less_64_bits: "is_digit d \<Longrightarrow> bit d n \<Longrightarrow> n < 6"
proof (rule ccontr)
  assume d: "is_digit d" "bit d n" "\<not> n < 6"
  then have "bit (drop_bit 6 d) (n - 6)" by (simp add: bit_simps)
  moreover have "unat (drop_bit 6 d) = 0" using d(1) by (simp add: drop_bit_eq_div unat_div)
  then have "drop_bit 6 d = 0" by (simp add: unat_eq_zero)
  ultimately show False by simp
qed

lemma high_bits: "is_digit d \<Longrightarrow> 6 \<le> n \<Longrightarrow> \<not> bit d n"
  using less_64_bits [of d n] by auto

lemma u8_bits_eqI:
  assumes "bit x 0 = bit y 0" "bit x 1 = bit y 1" "bit x 2 = bit y 2" "bit x 3 = bit y 3"
    "bit x 4 = bit y 4" "bit x 5 = bit y 5" "bit x 6 = bit y 6" "bit x 7 = bit y 7"
  shows "x = (y :: u8)"
proof (rule bit_word_eqI)
  fix n assume "n < LENGTH(8)"
  then have "n \<in> {0, 1, 2, 3, 4, 5, 6, 7}" by auto
  with assms show "bit x n = bit y n" by auto
qed

text \<open>The decoder undoes a group, and a group of digits is the group of its bytes.\<close>

lemma group_bits:
  fixes a b c :: u8
  shows "push_bit 2 (drop_bit 2 a) OR drop_bit 4 (push_bit 4 (take_bit 2 a) OR drop_bit 4 b) = a"
    "push_bit 4 (take_bit 4 (push_bit 4 (take_bit 2 a) OR drop_bit 4 b)) OR
      drop_bit 2 (push_bit 2 (take_bit 4 b) OR drop_bit 6 c) = b"
    "push_bit 6 (take_bit 2 (push_bit 2 (take_bit 4 b) OR drop_bit 6 c)) OR take_bit 6 c = c"
    "push_bit 4 (take_bit 4 (push_bit 4 (take_bit 2 a) OR drop_bit 4 0)) = 0"
    "push_bit 6 (take_bit 2 (push_bit 2 (take_bit 4 b) OR drop_bit 6 0)) = 0"
  by (rule u8_bits_eqI; simp add: bit_or_iff bit_push_bit_iff bit_drop_bit_eq bit_take_bit_iff)+

lemma stored_quantum:
  "stored (quantum a b c @ ds) = a # b # c # stored ds"
  "stored (take 3 (quantum a b 0)) = [a, b, 0]"
  "stored (take 2 (quantum a 0 0)) = [a, 0]"
  using group_bits(1) [of a b] group_bits(2) [of a b c] group_bits(3) [of b c] group_bits(4) [of a]
    group_bits(5) [of b] group_bits(1) [of a 0] group_bits(2) [of a b 0]
  by (simp_all add: quantum_or masks)

lemma digit_bits:
  assumes "is_digit d0" "is_digit d1" "is_digit d2" "is_digit d3"
    and "a = push_bit 2 d0 OR drop_bit 4 d1"
    and "b = push_bit 4 (take_bit 4 d1) OR drop_bit 2 d2"
    and "c = push_bit 6 (take_bit 2 d2) OR d3"
  shows "drop_bit 2 a = d0" "push_bit 4 (take_bit 2 a) OR drop_bit 4 b = d1"
    "push_bit 2 (take_bit 4 b) OR drop_bit 6 c = d2" "take_bit 6 c = d3"
  unfolding assms(5-7)
  by (rule u8_bits_eqI; simp add: assms(1-4) high_bits bit_or_iff bit_push_bit_iff bit_drop_bit_eq
    bit_take_bit_iff)+

lemma quantum_stored:
  assumes "is_digit d0" "is_digit d1" "is_digit d2" "is_digit d3"
  shows "quantum (push_bit 2 d0 OR drop_bit 4 d1) (push_bit 4 (d1 AND 0x0f) OR drop_bit 2 d2)
     (push_bit 6 (d2 AND 0x03) OR d3) = [d0, d1, d2, d3]"
  using digit_bits [OF assms refl refl refl] unfolding quantum_or masks by simp

lemma mem_write_upds:
  "mem_write a [x] m = m(a := x)"
  "mem_write a [x, y] m = m(a := x, Suc a := y)"
  "mem_write a [x, y, z] m = m(a := x, Suc a := y, Suc (Suc a) := z)"
  by (rule ext; auto simp: mem_write_def nth_Cons split: nat.splits)+

lemma pton_steps:
  assumes "i + 1 < 2 ^ 32" "t \<noteq> 0"
  shows "pton_step t targsize d 0 i m =
      (if targsize \<le> i then (None, m) else (Some (1, i), m(t + i := push_bit 2 d)))"
    "pton_step t targsize d 1 i m =
      (if targsize \<le> i + 1 then (None, m) else (Some (2, i + 1),
        m(t + i := m (t + i) OR drop_bit 4 d, t + (i + 1) := push_bit 4 (d AND 0x0f))))"
    "pton_step t targsize d 2 i m =
      (if targsize \<le> i + 1 then (None, m) else (Some (3, i + 1),
        m(t + i := m (t + i) OR drop_bit 2 d, t + (i + 1) := push_bit 6 (d AND 0x03))))"
    "pton_step t targsize d 3 i m =
      (if targsize \<le> i then (None, m) else (Some (0, i + 1), m(t + i := m (t + i) OR d)))"
  using assms by (simp_all add: pton_step_def Let_def)

lemmas pton_steps_Suc = pton_steps [unfolded One_nat_def]

text \<open>A run over digits from state 0: it stores \<open>stored ds\<close>, provided the buffer has room.\<close>

lemma pton_run:
  assumes "list_all is_digit ds" "i + length ds < 2 ^ 32" "t \<noteq> 0" "i \<le> targsize"
  shows "\<exists>m'. pton_loop t targsize (map digit ds @ src) 0 i m =
     (if targsize < i + length (stored ds) then (None, m')
      else pton_loop t targsize src (length ds mod 4) (i + whole_bytes ds)
        (mem_write (t + i) (stored ds) m))"
  using assms
proof (induction ds arbitrary: i m rule: stored.induct)
  case (1 d0 d1 d2 d3 ds)
  let ?bs = "[push_bit 2 d0 OR drop_bit 4 d1, push_bit 4 (d1 AND 0x0f) OR drop_bit 2 d2,
    push_bit 6 (d2 AND 0x03) OR d3]"
  have w: "whole_bytes (d0 # d1 # d2 # d3 # ds) = 3 + whole_bytes ds"
    using div_add_self1 [of 4 "length ds"] by (simp add: whole_bytes_def)
  show ?case
  proof (cases "targsize < i + 3")
    case True
    then consider "targsize \<le> i" | "targsize = i + 1" | "targsize = i + 2" by linarith
    then show ?thesis
      using 1(2,3,4) by cases (simp_all add: pton_loop_digit pton_steps_Suc)
  next
    case False
    have i3: "i + 3 = Suc (Suc (Suc i))" by simp
    have "pton_loop t targsize (map digit (d0 # d1 # d2 # d3 # ds) @ src) 0 i m =
        pton_loop t targsize (map digit ds @ src) 0 (i + 3) (mem_write (t + i) ?bs m)"
      using False 1(2,3,4) by (simp add: pton_loop_digit pton_steps_Suc mem_write_upds i3)
    moreover obtain m' where "pton_loop t targsize (map digit ds @ src) 0 (i + 3) (mem_write (t + i) ?bs m) =
        (if targsize < i + 3 + length (stored ds) then (None, m')
         else pton_loop t targsize src (length ds mod 4) (i + 3 + whole_bytes ds)
           (mem_write (t + (i + 3)) (stored ds) (mem_write (t + i) ?bs m)))"
      using 1(1) [of "i + 3" "mem_write (t + i) ?bs m"] False 1(2,3,4) by auto
    ultimately show ?thesis
      by (intro exI [of _ m']) (simp add: w mem_write_extend add.assoc)
  qed
next
  case (2 d0 d1 d2)
  consider "targsize \<le> i" | "targsize = i + 1" | "targsize = i + 2" | "i + 3 \<le> targsize" by linarith
  then show ?case
    using 2 by cases (simp_all add: pton_loop_digit pton_steps_Suc whole_bytes_def mem_write_upds)
next
  case (3 d0 d1)
  consider "targsize \<le> i" | "targsize = i + 1" | "i + 2 \<le> targsize" by linarith
  then show ?case
    using 3 by cases (simp_all add: pton_loop_digit pton_steps_Suc whole_bytes_def mem_write_upds flip: numeral_2_eq_2)
next
  case (4 d0)
  then show ?case
    by (cases "targsize < i + 1") (simp_all add: pton_loop_digit pton_steps_Suc whole_bytes_def mem_write_upds)
qed (simp add: whole_bytes_def)

subsection \<open>Everything but digits\<close>

abbreviation clean :: "u8 list \<Rightarrow> u8 list" where "clean \<equiv> filter (\<lambda>c. \<not> isspace c)"

lemma pton_spaces:
  "0 \<notin> set xs \<Longrightarrow> Pad64 \<notin> set xs \<Longrightarrow>
   pton_loop t targsize (xs @ src) state i m = pton_loop t targsize (clean xs @ src) state i m"
  by (induction xs arbitrary: state i m) (auto simp: pton_loop_Cons split: option.splits prod.splits)

lemma pton_bad:
  "0 \<notin> set xs \<Longrightarrow> Pad64 \<notin> set xs \<Longrightarrow> c \<in> set (clean xs) \<Longrightarrow> strchr_index c Base64 = None \<Longrightarrow>
   fst (pton_loop t targsize (xs @ src) state i m) = None"
  by (induction xs arbitrary: state i m) (auto simp: pton_loop_Cons split: option.splits prod.splits)

lemma digits_or_bad:
  "(\<exists>c \<in> set cs. strchr_index c Base64 = None) \<or> (\<exists>ds. cs = map digit ds \<and> list_all is_digit ds)"
proof (induction cs)
  case (Cons c cs)
  show ?case
  proof (cases "strchr_index c Base64")
    case (Some i)
    then have "c = digit (of_nat i)" "is_digit (of_nat i)"
      using strchr_index_Some [OF Some] by (auto simp: digit_def unat_of_nat)
    then show ?thesis
      using Cons by (auto intro: exI [of _ "of_nat i # _"])
  qed simp
qed simp

lemma pton_step_frame:
  assumes "t \<noteq> 0" "state \<noteq> 0 \<Longrightarrow> i < targsize" "pton_step t targsize d state i m = (r, m')"
  shows "agree_outside {t..<t + targsize} m m' \<and> (\<forall>st i'. r = Some (st, i') \<longrightarrow> st \<noteq> 0 \<longrightarrow> i' < targsize)"
  using assms by (auto simp: pton_step_def Let_def agree_outside_def split: if_splits)

lemma pton_frame:
  assumes "t \<noteq> 0" "state \<noteq> 0 \<Longrightarrow> i < targsize" "pton_loop t targsize src state i m = (r, m')"
  shows "agree_outside {t..<t + targsize} m m' \<and>
    (\<forall>p st i'. r = Some (p, st, i') \<longrightarrow> st \<noteq> 0 \<longrightarrow> i' < targsize)"
  using assms
proof (induction src arbitrary: state i m)
  case (Cons ch src)
  show ?case
  proof (cases "ch = 0 \<or> isspace ch \<or> ch = Pad64")
    case True
    then show ?thesis using Cons.IH [of state i m] Cons.prems
      by (auto simp: pton_loop_Cons split: if_splits)
  next
    case False
    then show ?thesis
    proof (cases "strchr_index ch Base64")
      case (Some d)
      obtain o1 m1 where st: "pton_step t targsize (of_nat d) state i m = (o1, m1)" by fastforce
      note f = pton_step_frame [OF Cons.prems(1,2) st]
      show ?thesis
      proof (cases o1)
        case None
        then show ?thesis using f st False Some Cons.prems by (auto simp: pton_loop_Cons)
      next
        case (Some q)
        then obtain st' i1 where q: "o1 = Some (st', i1)" by (cases q) auto
        have "pton_loop t targsize src st' i1 m1 = (r, m')"
          using Cons.prems(3) False st q \<open>strchr_index ch Base64 = _\<close> by (simp add: pton_loop_Cons)
        from Cons.IH [OF Cons.prems(1) _ this] f q show ?thesis
          by (auto intro: agree_outside_trans)
      qed
    qed (use Cons.prems in \<open>auto simp: pton_loop_Cons\<close>)
  qed
qed auto

lemma only_spaces_clean: "0 \<notin> set src \<Longrightarrow> ch \<noteq> 0 \<Longrightarrow> only_spaces ch src \<longleftrightarrow> clean (ch # src) = []"
  by (induction src arbitrary: ch) auto

lemma only_spaces_next: "0 \<notin> set src \<Longrightarrow> case_prod only_spaces (next_char src) \<longleftrightarrow> clean src = []"
  using only_spaces_clean by (cases src) (auto simp: next_char_def)

lemma skip_spaces_clean:
  "0 \<notin> set src \<Longrightarrow> skip_spaces ch src = (c, r) \<Longrightarrow> ch \<noteq> 0 \<Longrightarrow>
   0 \<notin> set r \<and> (if c = 0 then clean (ch # src) = [] else clean (ch # src) = c # clean r)"
  by (induction ch src rule: skip_spaces.induct) (auto split: if_splits)

lemma pton_pad_clean:
  assumes "0 \<notin> set src" "next_char src = (ch, r)"
  shows "pton_pad t state ch r i m \<longleftrightarrow>
    (state = 2 \<and> clean src = [Pad64] \<or> state = 3 \<and> clean src = []) \<and> \<not> (t \<noteq> 0 \<and> m (t + i) \<noteq> 0)"
proof (cases src)
  case Nil
  then show ?thesis using assms by (auto simp: next_char_def pton_pad_def)
next
  case (Cons c cs)
  then have r: "ch \<noteq> 0" "0 \<notin> set r" "src = ch # r" using assms by (auto simp: next_char_def)
  obtain c' r' where s: "skip_spaces ch r = (c', r')" by fastforce
  from skip_spaces_clean [OF r(2) s r(1)] have "0 \<notin> set r'"
    "c' = Pad64 \<and> clean r' = [] \<longleftrightarrow> clean src = [Pad64]"
    unfolding r(3) by (auto split: if_splits)
  then show ?thesis
    using only_spaces_next [of r'] only_spaces_clean [OF r(2) r(1)] r(3) s
    by (auto simp: pton_pad_def case_prod_beta)
qed

subsection \<open>Accepted texts\<close>

lemma not_3_dvd_2 [simp]: "\<not> 3 dvd Suc (Suc 0)"
  by (simp flip: numeral_2_eq_2)

lemma replicate_2 [simp]: "replicate 2 x = [x, x]"
  by (simp add: numeral_2_eq_2)

lemma base64_stored:
  assumes "list_all is_digit ds" "length ds mod 4 \<noteq> 1"
    "length ds mod 4 \<noteq> 0 \<Longrightarrow> last (stored ds) = 0"
  shows "base64 (take (whole_bytes ds) (stored ds)) = map digit ds @ replicate ((4 - length ds mod 4) mod 4) Pad64 \<and>
    length (stored ds) = whole_bytes ds + (if length ds mod 4 = 0 then 0 else 1) \<and>
    (3 dvd whole_bytes ds \<longleftrightarrow> length ds mod 4 = 0)"
  using assms
proof (induction ds rule: stored.induct)
  case (1 d0 d1 d2 d3 ds)
  have w: "whole_bytes (d0 # d1 # d2 # d3 # ds) = Suc (Suc (Suc (whole_bytes ds)))"
    using div_add_self1 [of 4 "length ds"] by (simp add: whole_bytes_def)
  have l: "last (stored (d0 # d1 # d2 # d3 # ds)) = last (stored ds)" if "length ds mod 4 \<noteq> 0"
    using that by (cases ds rule: stored.cases) auto
  have "3 dvd Suc (Suc (Suc (whole_bytes ds))) \<longleftrightarrow> 3 dvd whole_bytes ds" by presburger
  then show ?case
    using 1 l quantum_stored [of d0 d1 d2 d3] unfolding w by (simp del: One_nat_def)
next
  case (2 d0 d1 d2)
  then show ?case using quantum_stored [of d0 d1 d2 0] by (simp add: whole_bytes_def numeral_2_eq_2)
next
  case (3 d0 d1)
  then show ?case using quantum_stored [of d0 d1 0 0] by (simp add: whole_bytes_def)
qed (simp_all add: whole_bytes_def)

lemma base64_digits_of:
  "\<exists>ds. list_all is_digit ds \<and> base64 d = map digit ds @ replicate ((4 - length ds mod 4) mod 4) Pad64 \<and>
    stored ds = d @ (if 3 dvd length d then [] else [0]) \<and> length ds mod 4 \<noteq> 1 \<and> whole_bytes ds = length d"
proof (induction d rule: base64.induct)
  case (1 a b c d)
  then obtain ds where ds: "list_all is_digit ds" "length ds mod 4 \<noteq> 1" "whole_bytes ds = length d"
    "base64 d = map digit ds @ replicate ((4 - length ds mod 4) mod 4) Pad64"
    "stored ds = d @ (if 3 dvd length d then [] else [0])" by blast
  have w: "whole_bytes (quantum a b c @ ds) = 3 + whole_bytes ds"
    using div_add_self1 [of 4 "length ds"] by (simp add: whole_bytes_def)
  have "3 dvd Suc (Suc (Suc (length d))) \<longleftrightarrow> 3 dvd length d" by presburger
  then show ?case
    using ds by (intro exI [of _ "quantum a b c @ ds"])
      (auto simp: stored_quantum w list_all_iff quantum_less_64)
next
  case (2 a b)
  then show ?case
    by (intro exI [of _ "take 3 (quantum a b 0)"])
      (auto simp: stored_quantum whole_bytes_def list_all_iff dest: in_set_takeD intro: quantum_less_64)
next
  case (3 a)
  then show ?case
    by (intro exI [of _ "take 2 (quantum a 0 0)"])
      (auto simp: stored_quantum whole_bytes_def list_all_iff dest: in_set_takeD intro: quantum_less_64)
next
  case 4
  then show ?case by (intro exI [of _ "[]"]) (simp add: whole_bytes_def)
qed

text \<open>The room the decoder asks for: one byte more when the last group is not full, for the bits
  that slop past the last byte.\<close>

definition pton_room :: "u8 list \<Rightarrow> nat" where
  "pton_room d = length d + (if 3 dvd length d then 0 else 1)"

lemma split_pad: "\<exists>xs. Pad64 \<notin> set xs \<and> (s = xs \<or> (\<exists>post. s = xs @ Pad64 # post))"
  by (metis split_list_first)

lemma clean_pad: "clean (xs @ Pad64 # post) = clean xs @ Pad64 # clean post"
  by simp

text \<open>The outcome on a text whose digits are \<open>ds\<close>.\<close>

lemma length_stored:
  "length (stored ds) = whole_bytes ds + (if length ds mod 4 = 0 then 0 else 1)"
proof (induction ds rule: stored.induct)
  case (1 d0 d1 d2 d3 ds)
  then show ?case using div_add_self1 [of 4 "length ds"] by (simp add: whole_bytes_def)
qed (simp_all add: whole_bytes_def)

lemma mem_write_last: "length xs = Suc k \<Longrightarrow> mem_write a xs m (a + k) = last xs"
  by (cases xs rule: rev_cases) (auto simp: mem_write_def)

lemma pad_count: "(4 - length ds mod 4) mod 4 = 0 \<longleftrightarrow> length ds mod 4 = 0"
  by presburger

lemma pton_digits:
  fixes targsize :: nat
  assumes "list_all is_digit ds" "length ds < 2 ^ 31" "t \<noteq> 0" "0 \<notin> set s"
    and "Pad64 \<notin> set xs" "clean xs = map digit ds" "s = xs \<or> s = xs @ Pad64 # post"
  defines "tail \<equiv> if s = xs then [] else Pad64 # clean post"
  defines "ok \<equiv> length (stored ds) \<le> targsize \<and> length ds mod 4 \<noteq> 1 \<and>
    tail = replicate ((4 - length ds mod 4) mod 4) Pad64 \<and>
    (length ds mod 4 \<noteq> 0 \<longrightarrow> last (stored ds) = 0)"
  shows "\<exists>m'. f_b64_pton s t targsize m = (if ok then int (whole_bytes ds) else - 1, m') \<and>
    (ok \<longrightarrow> m' = mem_write t (stored ds) m)"
proof -
  let ?src = "if s = xs then [] else Pad64 # post"
  let ?m = "mem_write t (stored ds) m"
  have s: "s = xs @ ?src" using assms(7) by auto
  have n0: "0 \<notin> set xs" "0 \<notin> set post \<or> s = xs" using assms(4) s by (auto split: if_splits)
  obtain m1 where run: "pton_loop t targsize s 0 0 m =
      (if targsize < length (stored ds) then (None, m1)
       else pton_loop t targsize ?src (length ds mod 4) (whole_bytes ds) ?m)"
    using pton_run [of ds 0 t targsize ?src m] pton_spaces [OF n0(1) assms(5), of t targsize ?src 0 0 m]
      assms(1-3,6) s by (simp only: add_0 add_0_right) fastforce
  have small: "whole_bytes ds < 2 ^ 31" using assms(2) by (simp add: whole_bytes_def)
  show ?thesis
  proof (cases "targsize < length (stored ds)")
    case True
    then show ?thesis using run by (simp add: f_b64_pton_def ok_def)
  next
    case room: False
    show ?thesis
    proof (cases "s = xs")
      case True
      then have "ok \<longleftrightarrow> length ds mod 4 = 0"
        using room pad_count [of ds] by (auto simp: ok_def tail_def)
      then show ?thesis using True run room small by (simp add: f_b64_pton_def sint_u32)
    next
      case False
      obtain ch r where nx: "next_char post = (ch, r)" by fastforce
      have last: "last (stored ds) = ?m (t + whole_bytes ds)" if "length ds mod 4 \<in> {2, 3}"
        using that by (intro mem_write_last [symmetric]) (auto simp: length_stored)
      have "ok \<longleftrightarrow> pton_pad t (length ds mod 4) ch r (whole_bytes ds) ?m"
      proof -
        have p: "0 \<notin> set post" "\<not> targsize < length (stored ds)" using n0 False room by auto
        consider "length ds mod 4 = 0" | "length ds mod 4 = 1" | "length ds mod 4 = 2" | "length ds mod 4 = 3"
          by linarith
        then show ?thesis
          using last False assms(3) p
          by cases (auto simp: pton_pad_clean [OF p(1) nx] ok_def tail_def)
      qed
      then show ?thesis
        using False run room small nx by (simp add: f_b64_pton_def sint_u32 pton_loop_Cons)
    qed
  qed
qed

text \<open>The decoder against the format.\<close>

lemma digits_length:
  "clean xs = map digit ds \<Longrightarrow> s = xs \<or> s = xs @ Pad64 # post \<Longrightarrow> length ds \<le> length s"
  using length_filter_le [of "\<lambda>c. \<not> isspace c" xs] by (auto dest: arg_cong [where f = length])

lemma pad_no_digit: "list_all is_digit ds \<Longrightarrow> Pad64 \<notin> set (map digit ds)"
  using digit_char by (fastforce simp: list_all_iff digit_def)

lemma takeWhile_pad:
  "Pad64 \<notin> set xs \<Longrightarrow> takeWhile (\<lambda>c. c \<noteq> Pad64) (xs @ Pad64 # r) = xs"
  "Pad64 \<notin> set xs \<Longrightarrow> takeWhile (\<lambda>c. c \<noteq> Pad64) xs = xs"
  by (induction xs) auto

lemma pton_accepts:
  assumes "clean s = base64 d" "pton_room d \<le> targsize" "0 \<notin> set s" "length s < 2 ^ 31" "t \<noteq> 0"
  shows "f_b64_pton s t targsize m =
    (int (length d), mem_write t (d @ (if 3 dvd length d then [] else [0])) m)"
proof -
  obtain ds where ds: "list_all is_digit ds" "stored ds = d @ (if 3 dvd length d then [] else [0])"
    "base64 d = map digit ds @ replicate ((4 - length ds mod 4) mod 4) Pad64"
    "length ds mod 4 \<noteq> 1" "whole_bytes ds = length d"
    using base64_digits_of [of d] by blast
  obtain xs post where xs: "Pad64 \<notin> set xs" "s = xs \<or> s = xs @ Pad64 # post"
    using split_pad [of s] by metis
  define tail where "tail = (if s = xs then [] else Pad64 # clean post)"
  have pd: "Pad64 \<notin> set (map digit ds)"
    using ds(1) by (rule pad_no_digit)
  have c: "clean xs @ tail = map digit ds @ replicate ((4 - length ds mod 4) mod 4) Pad64"
    using xs(2) assms(1) ds(3) by (auto simp: tail_def)
  have "takeWhile (\<lambda>c. c \<noteq> Pad64) (clean xs @ tail) = clean xs"
    using xs(1) by (simp add: tail_def takeWhile_pad)
  moreover have "takeWhile (\<lambda>c. c \<noteq> Pad64) (map digit ds @ replicate k Pad64) = map digit ds" for k
    using pd by (cases k) (simp_all add: takeWhile_pad)
  ultimately have eq: "clean xs = map digit ds" "tail = replicate ((4 - length ds mod 4) mod 4) Pad64"
    using c by (metis, metis same_append_eq)
  have "length ds < 2 ^ 31" using digits_length [OF eq(1) xs(2)] assms(4) by simp
  from pton_digits [OF ds(1) this assms(5,3) xs(1) eq(1) xs(2), of targsize m] show ?thesis
    using ds eq(2) assms(2) length_stored [of ds] unfolding tail_def pton_room_def
    by (auto split: if_splits)
qed

lemma pton_accepted:
  assumes "f_b64_pton s t targsize m = (r, m')" "r \<noteq> - 1" "0 \<notin> set s" "length s < 2 ^ 31" "t \<noteq> 0"
  shows "\<exists>d. clean s = base64 d \<and> pton_room d \<le> targsize"
proof -
  obtain xs post where xs: "Pad64 \<notin> set xs" "s = xs \<or> s = xs @ Pad64 # post"
    using split_pad [of s] by metis
  then have n0: "0 \<notin> set xs" using assms(3) by auto
  have good: "\<not> (\<exists>c \<in> set (clean xs). strchr_index c Base64 = None)"
  proof
    assume "\<exists>c \<in> set (clean xs). strchr_index c Base64 = None"
    then have "fst (pton_loop t targsize (xs @ src) 0 0 m) = None" for src
      using pton_bad [OF n0 xs(1)] by blast
    from this [of "[]"] this [of "Pad64 # post"] have "fst (pton_loop t targsize s 0 0 m) = None"
      using xs(2) by auto
    then show False using assms(1,2) by (auto simp: f_b64_pton_def split: prod.splits)
  qed
  then obtain ds where ds: "clean xs = map digit ds" "list_all is_digit ds"
    using digits_or_bad [of "clean xs"] by auto
  have "length ds < 2 ^ 31" using digits_length [OF ds(1) xs(2)] assms(4) by simp
  from pton_digits [OF ds(2) this assms(5,3) xs(1) ds(1) xs(2), of targsize m] assms(1,2)
  have ok: "length (stored ds) \<le> targsize" "length ds mod 4 \<noteq> 1"
    "(if s = xs then [] else Pad64 # clean post) = replicate ((4 - length ds mod 4) mod 4) Pad64"
    "length ds mod 4 \<noteq> 0 \<longrightarrow> last (stored ds) = 0"
    by (auto split: if_splits)
  note b = base64_stored [OF ds(2) ok(2)] 
  have "clean s = clean xs @ (if s = xs then [] else Pad64 # clean post)" using xs(2) by auto
  then have "clean s = base64 (take (whole_bytes ds) (stored ds))"
    unfolding ok(3) ds(1) using b ok(4) by simp
  moreover have "pton_room (take (whole_bytes ds) (stored ds)) \<le> targsize"
    using b ok(1,4) by (simp add: pton_room_def min_def)
  ultimately show ?thesis by blast
qed

subsection \<open>RFC 4648\<close>

text \<open>The format, stated on 24-bit numbers.\<close>

definition group24 :: "u8 \<Rightarrow> u8 \<Rightarrow> u8 \<Rightarrow> nat" where
  "group24 a b c = unat a * 2 ^ 16 + unat b * 2 ^ 8 + unat c"

fun rfc4648 :: "u8 list \<Rightarrow> u8 list" where
  "rfc4648 (a # b # c # r) = map ((!) Base64) (sextets (group24 a b c)) @ rfc4648 r"
| "rfc4648 [a, b] = map ((!) Base64) (take 3 (sextets (group24 a b 0))) @ [Pad64]"
| "rfc4648 [a] = map ((!) Base64) (take 2 (sextets (group24 a 0 0))) @ [Pad64, Pad64]"
| "rfc4648 [] = []"

lemma map_digit: "map digit (take k (quantum a b c)) = map ((!) Base64) (take k (sextets (group24 a b c)))"
  unfolding group24_def quantum_sextets [symmetric] by (simp add: digit_def take_map)

lemma base64_rfc: "base64 d = rfc4648 d"
  by (induction d rule: base64.induct)
    (simp_all add: map_digit map_digit [of 4, simplified] sextets_def group24_def del: One_nat_def)

end
