(* ===== verification/FirebaseCoreNanopb.thy ===== *)
theory FirebaseCoreNanopb
  imports PbTypes
begin

named_theorems core_tags

text \<open>
  firebasecore.nanopb.h and firebasecore.nanopb.c: the message of Firebase's core diagnostics.
\<close>

subsection \<open>Enumerations\<close>

datatype logs_proto_mobilesdk_ios_ICoreConfiguration_ConfigurationType =
    logs_proto_mobilesdk_ios_ICoreConfiguration_ConfigurationType_UNKNOWN_CONFIGURATION_TYPE
  | logs_proto_mobilesdk_ios_ICoreConfiguration_ConfigurationType_CORE
  | logs_proto_mobilesdk_ios_ICoreConfiguration_ConfigurationType_SDK

primrec logs_proto_mobilesdk_ios_ICoreConfiguration_ConfigurationType_value :: "logs_proto_mobilesdk_ios_ICoreConfiguration_ConfigurationType \<Rightarrow> int" where
  "logs_proto_mobilesdk_ios_ICoreConfiguration_ConfigurationType_value logs_proto_mobilesdk_ios_ICoreConfiguration_ConfigurationType_UNKNOWN_CONFIGURATION_TYPE = 0"
| "logs_proto_mobilesdk_ios_ICoreConfiguration_ConfigurationType_value logs_proto_mobilesdk_ios_ICoreConfiguration_ConfigurationType_CORE = 1"
| "logs_proto_mobilesdk_ios_ICoreConfiguration_ConfigurationType_value logs_proto_mobilesdk_ios_ICoreConfiguration_ConfigurationType_SDK = 2"

definition logs_proto_mobilesdk_ios_ICoreConfiguration_ConfigurationType_MIN :: logs_proto_mobilesdk_ios_ICoreConfiguration_ConfigurationType where "logs_proto_mobilesdk_ios_ICoreConfiguration_ConfigurationType_MIN = logs_proto_mobilesdk_ios_ICoreConfiguration_ConfigurationType_UNKNOWN_CONFIGURATION_TYPE"
definition logs_proto_mobilesdk_ios_ICoreConfiguration_ConfigurationType_MAX :: logs_proto_mobilesdk_ios_ICoreConfiguration_ConfigurationType where "logs_proto_mobilesdk_ios_ICoreConfiguration_ConfigurationType_MAX = logs_proto_mobilesdk_ios_ICoreConfiguration_ConfigurationType_SDK"
definition logs_proto_mobilesdk_ios_ICoreConfiguration_ConfigurationType_ARRAYSIZE :: int where "logs_proto_mobilesdk_ios_ICoreConfiguration_ConfigurationType_ARRAYSIZE = logs_proto_mobilesdk_ios_ICoreConfiguration_ConfigurationType_value logs_proto_mobilesdk_ios_ICoreConfiguration_ConfigurationType_SDK + 1"

datatype logs_proto_mobilesdk_ios_ICoreConfiguration_BuildType =
    logs_proto_mobilesdk_ios_ICoreConfiguration_BuildType_UNKNOWN_BUILD_TYPE
  | logs_proto_mobilesdk_ios_ICoreConfiguration_BuildType_INTERNAL
  | logs_proto_mobilesdk_ios_ICoreConfiguration_BuildType_EAP
  | logs_proto_mobilesdk_ios_ICoreConfiguration_BuildType_PROD

primrec logs_proto_mobilesdk_ios_ICoreConfiguration_BuildType_value :: "logs_proto_mobilesdk_ios_ICoreConfiguration_BuildType \<Rightarrow> int" where
  "logs_proto_mobilesdk_ios_ICoreConfiguration_BuildType_value logs_proto_mobilesdk_ios_ICoreConfiguration_BuildType_UNKNOWN_BUILD_TYPE = 0"
| "logs_proto_mobilesdk_ios_ICoreConfiguration_BuildType_value logs_proto_mobilesdk_ios_ICoreConfiguration_BuildType_INTERNAL = 1"
| "logs_proto_mobilesdk_ios_ICoreConfiguration_BuildType_value logs_proto_mobilesdk_ios_ICoreConfiguration_BuildType_EAP = 2"
| "logs_proto_mobilesdk_ios_ICoreConfiguration_BuildType_value logs_proto_mobilesdk_ios_ICoreConfiguration_BuildType_PROD = 3"

definition logs_proto_mobilesdk_ios_ICoreConfiguration_BuildType_MIN :: logs_proto_mobilesdk_ios_ICoreConfiguration_BuildType where "logs_proto_mobilesdk_ios_ICoreConfiguration_BuildType_MIN = logs_proto_mobilesdk_ios_ICoreConfiguration_BuildType_UNKNOWN_BUILD_TYPE"
definition logs_proto_mobilesdk_ios_ICoreConfiguration_BuildType_MAX :: logs_proto_mobilesdk_ios_ICoreConfiguration_BuildType where "logs_proto_mobilesdk_ios_ICoreConfiguration_BuildType_MAX = logs_proto_mobilesdk_ios_ICoreConfiguration_BuildType_PROD"
definition logs_proto_mobilesdk_ios_ICoreConfiguration_BuildType_ARRAYSIZE :: int where "logs_proto_mobilesdk_ios_ICoreConfiguration_BuildType_ARRAYSIZE = logs_proto_mobilesdk_ios_ICoreConfiguration_BuildType_value logs_proto_mobilesdk_ios_ICoreConfiguration_BuildType_PROD + 1"

datatype logs_proto_mobilesdk_ios_ICoreConfiguration_ServiceType =
    logs_proto_mobilesdk_ios_ICoreConfiguration_ServiceType_UNKNOWN_SDK_SERVICE
  | logs_proto_mobilesdk_ios_ICoreConfiguration_ServiceType_ICORE
  | logs_proto_mobilesdk_ios_ICoreConfiguration_ServiceType_ADMOB
  | logs_proto_mobilesdk_ios_ICoreConfiguration_ServiceType_APP_INVITE
  | logs_proto_mobilesdk_ios_ICoreConfiguration_ServiceType_SIGN_IN
  | logs_proto_mobilesdk_ios_ICoreConfiguration_ServiceType_GCM
  | logs_proto_mobilesdk_ios_ICoreConfiguration_ServiceType_MAPS
  | logs_proto_mobilesdk_ios_ICoreConfiguration_ServiceType_SCION
  | logs_proto_mobilesdk_ios_ICoreConfiguration_ServiceType_ANALYTICS
  | logs_proto_mobilesdk_ios_ICoreConfiguration_ServiceType_APP_INDEXING
  | logs_proto_mobilesdk_ios_ICoreConfiguration_ServiceType_CONFIG
  | logs_proto_mobilesdk_ios_ICoreConfiguration_ServiceType_DURABLE_DEEP_LINKS
  | logs_proto_mobilesdk_ios_ICoreConfiguration_ServiceType_CRASH
  | logs_proto_mobilesdk_ios_ICoreConfiguration_ServiceType_AUTH
  | logs_proto_mobilesdk_ios_ICoreConfiguration_ServiceType_DATABASE
  | logs_proto_mobilesdk_ios_ICoreConfiguration_ServiceType_STORAGE
  | logs_proto_mobilesdk_ios_ICoreConfiguration_ServiceType_MESSAGING
  | logs_proto_mobilesdk_ios_ICoreConfiguration_ServiceType_MEASUREMENT
  | logs_proto_mobilesdk_ios_ICoreConfiguration_ServiceType_REMOTE_CONFIG
  | logs_proto_mobilesdk_ios_ICoreConfiguration_ServiceType_DYNAMIC_LINKS
  | logs_proto_mobilesdk_ios_ICoreConfiguration_ServiceType_INVITES
  | logs_proto_mobilesdk_ios_ICoreConfiguration_ServiceType_AUTH_UI
  | logs_proto_mobilesdk_ios_ICoreConfiguration_ServiceType_FIRESTORE
  | logs_proto_mobilesdk_ios_ICoreConfiguration_ServiceType_PERFORMANCE
  | logs_proto_mobilesdk_ios_ICoreConfiguration_ServiceType_ML_VISION_ON_DEVICE_FACE
  | logs_proto_mobilesdk_ios_ICoreConfiguration_ServiceType_ML_VISION_ON_DEVICE_BARCODE
  | logs_proto_mobilesdk_ios_ICoreConfiguration_ServiceType_ML_VISION_ON_DEVICE_TEXT
  | logs_proto_mobilesdk_ios_ICoreConfiguration_ServiceType_ML_VISION_ON_DEVICE_LABEL
  | logs_proto_mobilesdk_ios_ICoreConfiguration_ServiceType_ML_MODEL_INTERPRETER
  | logs_proto_mobilesdk_ios_ICoreConfiguration_ServiceType_IN_APP_MESSAGING
  | logs_proto_mobilesdk_ios_ICoreConfiguration_ServiceType_FUNCTIONS
  | logs_proto_mobilesdk_ios_ICoreConfiguration_ServiceType_ML_NATURAL_LANGUAGE
  | logs_proto_mobilesdk_ios_ICoreConfiguration_ServiceType_ML_VISION_ON_DEVICE_AUTOML
  | logs_proto_mobilesdk_ios_ICoreConfiguration_ServiceType_ML_VISION_ON_DEVICE_OBJECT_DETECTION

primrec logs_proto_mobilesdk_ios_ICoreConfiguration_ServiceType_value :: "logs_proto_mobilesdk_ios_ICoreConfiguration_ServiceType \<Rightarrow> int" where
  "logs_proto_mobilesdk_ios_ICoreConfiguration_ServiceType_value logs_proto_mobilesdk_ios_ICoreConfiguration_ServiceType_UNKNOWN_SDK_SERVICE = 0"
| "logs_proto_mobilesdk_ios_ICoreConfiguration_ServiceType_value logs_proto_mobilesdk_ios_ICoreConfiguration_ServiceType_ICORE = 1"
| "logs_proto_mobilesdk_ios_ICoreConfiguration_ServiceType_value logs_proto_mobilesdk_ios_ICoreConfiguration_ServiceType_ADMOB = 2"
| "logs_proto_mobilesdk_ios_ICoreConfiguration_ServiceType_value logs_proto_mobilesdk_ios_ICoreConfiguration_ServiceType_APP_INVITE = 3"
| "logs_proto_mobilesdk_ios_ICoreConfiguration_ServiceType_value logs_proto_mobilesdk_ios_ICoreConfiguration_ServiceType_SIGN_IN = 5"
| "logs_proto_mobilesdk_ios_ICoreConfiguration_ServiceType_value logs_proto_mobilesdk_ios_ICoreConfiguration_ServiceType_GCM = 6"
| "logs_proto_mobilesdk_ios_ICoreConfiguration_ServiceType_value logs_proto_mobilesdk_ios_ICoreConfiguration_ServiceType_MAPS = 7"
| "logs_proto_mobilesdk_ios_ICoreConfiguration_ServiceType_value logs_proto_mobilesdk_ios_ICoreConfiguration_ServiceType_SCION = 8"
| "logs_proto_mobilesdk_ios_ICoreConfiguration_ServiceType_value logs_proto_mobilesdk_ios_ICoreConfiguration_ServiceType_ANALYTICS = 9"
| "logs_proto_mobilesdk_ios_ICoreConfiguration_ServiceType_value logs_proto_mobilesdk_ios_ICoreConfiguration_ServiceType_APP_INDEXING = 10"
| "logs_proto_mobilesdk_ios_ICoreConfiguration_ServiceType_value logs_proto_mobilesdk_ios_ICoreConfiguration_ServiceType_CONFIG = 11"
| "logs_proto_mobilesdk_ios_ICoreConfiguration_ServiceType_value logs_proto_mobilesdk_ios_ICoreConfiguration_ServiceType_DURABLE_DEEP_LINKS = 12"
| "logs_proto_mobilesdk_ios_ICoreConfiguration_ServiceType_value logs_proto_mobilesdk_ios_ICoreConfiguration_ServiceType_CRASH = 13"
| "logs_proto_mobilesdk_ios_ICoreConfiguration_ServiceType_value logs_proto_mobilesdk_ios_ICoreConfiguration_ServiceType_AUTH = 14"
| "logs_proto_mobilesdk_ios_ICoreConfiguration_ServiceType_value logs_proto_mobilesdk_ios_ICoreConfiguration_ServiceType_DATABASE = 15"
| "logs_proto_mobilesdk_ios_ICoreConfiguration_ServiceType_value logs_proto_mobilesdk_ios_ICoreConfiguration_ServiceType_STORAGE = 16"
| "logs_proto_mobilesdk_ios_ICoreConfiguration_ServiceType_value logs_proto_mobilesdk_ios_ICoreConfiguration_ServiceType_MESSAGING = 17"
| "logs_proto_mobilesdk_ios_ICoreConfiguration_ServiceType_value logs_proto_mobilesdk_ios_ICoreConfiguration_ServiceType_MEASUREMENT = 18"
| "logs_proto_mobilesdk_ios_ICoreConfiguration_ServiceType_value logs_proto_mobilesdk_ios_ICoreConfiguration_ServiceType_REMOTE_CONFIG = 19"
| "logs_proto_mobilesdk_ios_ICoreConfiguration_ServiceType_value logs_proto_mobilesdk_ios_ICoreConfiguration_ServiceType_DYNAMIC_LINKS = 20"
| "logs_proto_mobilesdk_ios_ICoreConfiguration_ServiceType_value logs_proto_mobilesdk_ios_ICoreConfiguration_ServiceType_INVITES = 21"
| "logs_proto_mobilesdk_ios_ICoreConfiguration_ServiceType_value logs_proto_mobilesdk_ios_ICoreConfiguration_ServiceType_AUTH_UI = 22"
| "logs_proto_mobilesdk_ios_ICoreConfiguration_ServiceType_value logs_proto_mobilesdk_ios_ICoreConfiguration_ServiceType_FIRESTORE = 23"
| "logs_proto_mobilesdk_ios_ICoreConfiguration_ServiceType_value logs_proto_mobilesdk_ios_ICoreConfiguration_ServiceType_PERFORMANCE = 24"
| "logs_proto_mobilesdk_ios_ICoreConfiguration_ServiceType_value logs_proto_mobilesdk_ios_ICoreConfiguration_ServiceType_ML_VISION_ON_DEVICE_FACE = 26"
| "logs_proto_mobilesdk_ios_ICoreConfiguration_ServiceType_value logs_proto_mobilesdk_ios_ICoreConfiguration_ServiceType_ML_VISION_ON_DEVICE_BARCODE = 27"
| "logs_proto_mobilesdk_ios_ICoreConfiguration_ServiceType_value logs_proto_mobilesdk_ios_ICoreConfiguration_ServiceType_ML_VISION_ON_DEVICE_TEXT = 28"
| "logs_proto_mobilesdk_ios_ICoreConfiguration_ServiceType_value logs_proto_mobilesdk_ios_ICoreConfiguration_ServiceType_ML_VISION_ON_DEVICE_LABEL = 29"
| "logs_proto_mobilesdk_ios_ICoreConfiguration_ServiceType_value logs_proto_mobilesdk_ios_ICoreConfiguration_ServiceType_ML_MODEL_INTERPRETER = 30"
| "logs_proto_mobilesdk_ios_ICoreConfiguration_ServiceType_value logs_proto_mobilesdk_ios_ICoreConfiguration_ServiceType_IN_APP_MESSAGING = 31"
| "logs_proto_mobilesdk_ios_ICoreConfiguration_ServiceType_value logs_proto_mobilesdk_ios_ICoreConfiguration_ServiceType_FUNCTIONS = 32"
| "logs_proto_mobilesdk_ios_ICoreConfiguration_ServiceType_value logs_proto_mobilesdk_ios_ICoreConfiguration_ServiceType_ML_NATURAL_LANGUAGE = 33"
| "logs_proto_mobilesdk_ios_ICoreConfiguration_ServiceType_value logs_proto_mobilesdk_ios_ICoreConfiguration_ServiceType_ML_VISION_ON_DEVICE_AUTOML = 34"
| "logs_proto_mobilesdk_ios_ICoreConfiguration_ServiceType_value logs_proto_mobilesdk_ios_ICoreConfiguration_ServiceType_ML_VISION_ON_DEVICE_OBJECT_DETECTION = 35"

definition logs_proto_mobilesdk_ios_ICoreConfiguration_ServiceType_MIN :: logs_proto_mobilesdk_ios_ICoreConfiguration_ServiceType where "logs_proto_mobilesdk_ios_ICoreConfiguration_ServiceType_MIN = logs_proto_mobilesdk_ios_ICoreConfiguration_ServiceType_UNKNOWN_SDK_SERVICE"
definition logs_proto_mobilesdk_ios_ICoreConfiguration_ServiceType_MAX :: logs_proto_mobilesdk_ios_ICoreConfiguration_ServiceType where "logs_proto_mobilesdk_ios_ICoreConfiguration_ServiceType_MAX = logs_proto_mobilesdk_ios_ICoreConfiguration_ServiceType_ML_VISION_ON_DEVICE_OBJECT_DETECTION"
definition logs_proto_mobilesdk_ios_ICoreConfiguration_ServiceType_ARRAYSIZE :: int where "logs_proto_mobilesdk_ios_ICoreConfiguration_ServiceType_ARRAYSIZE = logs_proto_mobilesdk_ios_ICoreConfiguration_ServiceType_value logs_proto_mobilesdk_ios_ICoreConfiguration_ServiceType_ML_VISION_ON_DEVICE_OBJECT_DETECTION + 1"

datatype logs_proto_mobilesdk_ios_ICoreConfiguration_PodName =
    logs_proto_mobilesdk_ios_ICoreConfiguration_PodName_UNKNOWN_POD_NAME
  | logs_proto_mobilesdk_ios_ICoreConfiguration_PodName_GOOGLE
  | logs_proto_mobilesdk_ios_ICoreConfiguration_PodName_FIREBASE

primrec logs_proto_mobilesdk_ios_ICoreConfiguration_PodName_value :: "logs_proto_mobilesdk_ios_ICoreConfiguration_PodName \<Rightarrow> int" where
  "logs_proto_mobilesdk_ios_ICoreConfiguration_PodName_value logs_proto_mobilesdk_ios_ICoreConfiguration_PodName_UNKNOWN_POD_NAME = 0"
| "logs_proto_mobilesdk_ios_ICoreConfiguration_PodName_value logs_proto_mobilesdk_ios_ICoreConfiguration_PodName_GOOGLE = 1"
| "logs_proto_mobilesdk_ios_ICoreConfiguration_PodName_value logs_proto_mobilesdk_ios_ICoreConfiguration_PodName_FIREBASE = 2"

definition logs_proto_mobilesdk_ios_ICoreConfiguration_PodName_MIN :: logs_proto_mobilesdk_ios_ICoreConfiguration_PodName where "logs_proto_mobilesdk_ios_ICoreConfiguration_PodName_MIN = logs_proto_mobilesdk_ios_ICoreConfiguration_PodName_UNKNOWN_POD_NAME"
definition logs_proto_mobilesdk_ios_ICoreConfiguration_PodName_MAX :: logs_proto_mobilesdk_ios_ICoreConfiguration_PodName where "logs_proto_mobilesdk_ios_ICoreConfiguration_PodName_MAX = logs_proto_mobilesdk_ios_ICoreConfiguration_PodName_FIREBASE"
definition logs_proto_mobilesdk_ios_ICoreConfiguration_PodName_ARRAYSIZE :: int where "logs_proto_mobilesdk_ios_ICoreConfiguration_PodName_ARRAYSIZE = logs_proto_mobilesdk_ios_ICoreConfiguration_PodName_value logs_proto_mobilesdk_ios_ICoreConfiguration_PodName_FIREBASE + 1"

datatype logs_proto_mobilesdk_ios_ICoreConfiguration_DeploymentType =
    logs_proto_mobilesdk_ios_ICoreConfiguration_DeploymentType_UNKNOWN
  | logs_proto_mobilesdk_ios_ICoreConfiguration_DeploymentType_COCOAPODS
  | logs_proto_mobilesdk_ios_ICoreConfiguration_DeploymentType_ZIP_FILE
  | logs_proto_mobilesdk_ios_ICoreConfiguration_DeploymentType_CARTHAGE
  | logs_proto_mobilesdk_ios_ICoreConfiguration_DeploymentType_SPM

primrec logs_proto_mobilesdk_ios_ICoreConfiguration_DeploymentType_value :: "logs_proto_mobilesdk_ios_ICoreConfiguration_DeploymentType \<Rightarrow> int" where
  "logs_proto_mobilesdk_ios_ICoreConfiguration_DeploymentType_value logs_proto_mobilesdk_ios_ICoreConfiguration_DeploymentType_UNKNOWN = 0"
| "logs_proto_mobilesdk_ios_ICoreConfiguration_DeploymentType_value logs_proto_mobilesdk_ios_ICoreConfiguration_DeploymentType_COCOAPODS = 1"
| "logs_proto_mobilesdk_ios_ICoreConfiguration_DeploymentType_value logs_proto_mobilesdk_ios_ICoreConfiguration_DeploymentType_ZIP_FILE = 2"
| "logs_proto_mobilesdk_ios_ICoreConfiguration_DeploymentType_value logs_proto_mobilesdk_ios_ICoreConfiguration_DeploymentType_CARTHAGE = 3"
| "logs_proto_mobilesdk_ios_ICoreConfiguration_DeploymentType_value logs_proto_mobilesdk_ios_ICoreConfiguration_DeploymentType_SPM = 4"

definition logs_proto_mobilesdk_ios_ICoreConfiguration_DeploymentType_MIN :: logs_proto_mobilesdk_ios_ICoreConfiguration_DeploymentType where "logs_proto_mobilesdk_ios_ICoreConfiguration_DeploymentType_MIN = logs_proto_mobilesdk_ios_ICoreConfiguration_DeploymentType_UNKNOWN"
definition logs_proto_mobilesdk_ios_ICoreConfiguration_DeploymentType_MAX :: logs_proto_mobilesdk_ios_ICoreConfiguration_DeploymentType where "logs_proto_mobilesdk_ios_ICoreConfiguration_DeploymentType_MAX = logs_proto_mobilesdk_ios_ICoreConfiguration_DeploymentType_SPM"
definition logs_proto_mobilesdk_ios_ICoreConfiguration_DeploymentType_ARRAYSIZE :: int where "logs_proto_mobilesdk_ios_ICoreConfiguration_DeploymentType_ARRAYSIZE = logs_proto_mobilesdk_ios_ICoreConfiguration_DeploymentType_value logs_proto_mobilesdk_ios_ICoreConfiguration_DeploymentType_SPM + 1"

subsection \<open>Message structs\<close>

definition logs_proto_mobilesdk_ios_ICoreConfiguration :: cstruct where
  "logs_proto_mobilesdk_ios_ICoreConfiguration =
    [scalar ''has_configuration_type'' 1,
     scalar ''configuration_type'' 4,
     scalar ''sdk_service_installed_count'' 4,
     ptr_to ''sdk_service_installed'' 4,
     ptr_to ''device_model'' sizeof_pb_bytes_array,
     ptr_to ''app_id'' sizeof_pb_bytes_array,
     ptr_to ''bundle_id'' sizeof_pb_bytes_array,
     scalar ''has_pod_name'' 1,
     scalar ''pod_name'' 4,
     ptr_to ''icore_version'' sizeof_pb_bytes_array,
     ptr_to ''sdk_version'' sizeof_pb_bytes_array,
     scalar ''has_sdk_name'' 1,
     scalar ''sdk_name'' 4,
     scalar ''has_app_count'' 1,
     scalar ''app_count'' 4,
     ptr_to ''os_version'' sizeof_pb_bytes_array,
     ptr_to ''min_supported_ios_version'' sizeof_pb_bytes_array,
     scalar ''has_use_default_app'' 1,
     scalar ''use_default_app'' 1,
     scalar ''has_deployed_in_app_store'' 1,
     scalar ''deployed_in_app_store'' 1,
     scalar ''has_dynamic_framework_count'' 1,
     scalar ''dynamic_framework_count'' 4,
     ptr_to ''apple_framework_version'' sizeof_pb_bytes_array,
     scalar ''has_using_zip_file'' 1,
     scalar ''using_zip_file'' 1,
     scalar ''has_deployment_type'' 1,
     scalar ''deployment_type'' 4,
     ptr_to ''platform_info'' sizeof_pb_bytes_array,
     scalar ''has_swizzling_enabled'' 1,
     scalar ''swizzling_enabled'' 1,
     scalar ''has_using_gdt'' 1,
     scalar ''using_gdt'' 1]"

subsection \<open>Initialisers\<close>

text \<open>\<open>false\<close>, \<open>0\<close> and \<open>NULL\<close> are 0.\<close>

definition logs_proto_mobilesdk_ios_ICoreConfiguration_init_default :: cinit where
  "logs_proto_mobilesdk_ios_ICoreConfiguration_init_default =
    Struct_init [Init 0,
      Init (logs_proto_mobilesdk_ios_ICoreConfiguration_ConfigurationType_value logs_proto_mobilesdk_ios_ICoreConfiguration_ConfigurationType_MIN),
      Init 0,
      Init 0,
      Init 0,
      Init 0,
      Init 0,
      Init 0,
      Init (logs_proto_mobilesdk_ios_ICoreConfiguration_PodName_value logs_proto_mobilesdk_ios_ICoreConfiguration_PodName_MIN),
      Init 0,
      Init 0,
      Init 0,
      Init (logs_proto_mobilesdk_ios_ICoreConfiguration_ServiceType_value logs_proto_mobilesdk_ios_ICoreConfiguration_ServiceType_MIN),
      Init 0,
      Init 0,
      Init 0,
      Init 0,
      Init 0,
      Init 0,
      Init 0,
      Init 0,
      Init 0,
      Init 0,
      Init 0,
      Init 0,
      Init 0,
      Init 0,
      Init (logs_proto_mobilesdk_ios_ICoreConfiguration_DeploymentType_value logs_proto_mobilesdk_ios_ICoreConfiguration_DeploymentType_MIN),
      Init 0,
      Init 0,
      Init 0,
      Init 0,
      Init 0]"

definition logs_proto_mobilesdk_ios_ICoreConfiguration_init_zero :: cinit where
  "logs_proto_mobilesdk_ios_ICoreConfiguration_init_zero =
    Struct_init [Init 0,
      Init (logs_proto_mobilesdk_ios_ICoreConfiguration_ConfigurationType_value logs_proto_mobilesdk_ios_ICoreConfiguration_ConfigurationType_MIN),
      Init 0,
      Init 0,
      Init 0,
      Init 0,
      Init 0,
      Init 0,
      Init (logs_proto_mobilesdk_ios_ICoreConfiguration_PodName_value logs_proto_mobilesdk_ios_ICoreConfiguration_PodName_MIN),
      Init 0,
      Init 0,
      Init 0,
      Init (logs_proto_mobilesdk_ios_ICoreConfiguration_ServiceType_value logs_proto_mobilesdk_ios_ICoreConfiguration_ServiceType_MIN),
      Init 0,
      Init 0,
      Init 0,
      Init 0,
      Init 0,
      Init 0,
      Init 0,
      Init 0,
      Init 0,
      Init 0,
      Init 0,
      Init 0,
      Init 0,
      Init 0,
      Init (logs_proto_mobilesdk_ios_ICoreConfiguration_DeploymentType_value logs_proto_mobilesdk_ios_ICoreConfiguration_DeploymentType_MIN),
      Init 0,
      Init 0,
      Init 0,
      Init 0,
      Init 0]"

subsection \<open>Field tags\<close>

definition logs_proto_mobilesdk_ios_ICoreConfiguration_pod_name_tag :: nat where [core_tags]: "logs_proto_mobilesdk_ios_ICoreConfiguration_pod_name_tag = 16"
definition logs_proto_mobilesdk_ios_ICoreConfiguration_configuration_type_tag :: nat where [core_tags]: "logs_proto_mobilesdk_ios_ICoreConfiguration_configuration_type_tag = 1"
definition logs_proto_mobilesdk_ios_ICoreConfiguration_icore_version_tag :: nat where [core_tags]: "logs_proto_mobilesdk_ios_ICoreConfiguration_icore_version_tag = 18"
definition logs_proto_mobilesdk_ios_ICoreConfiguration_sdk_version_tag :: nat where [core_tags]: "logs_proto_mobilesdk_ios_ICoreConfiguration_sdk_version_tag = 19"
definition logs_proto_mobilesdk_ios_ICoreConfiguration_sdk_service_installed_tag :: nat where [core_tags]: "logs_proto_mobilesdk_ios_ICoreConfiguration_sdk_service_installed_tag = 7"
definition logs_proto_mobilesdk_ios_ICoreConfiguration_sdk_name_tag :: nat where [core_tags]: "logs_proto_mobilesdk_ios_ICoreConfiguration_sdk_name_tag = 20"
definition logs_proto_mobilesdk_ios_ICoreConfiguration_device_model_tag :: nat where [core_tags]: "logs_proto_mobilesdk_ios_ICoreConfiguration_device_model_tag = 9"
definition logs_proto_mobilesdk_ios_ICoreConfiguration_os_version_tag :: nat where [core_tags]: "logs_proto_mobilesdk_ios_ICoreConfiguration_os_version_tag = 22"
definition logs_proto_mobilesdk_ios_ICoreConfiguration_app_id_tag :: nat where [core_tags]: "logs_proto_mobilesdk_ios_ICoreConfiguration_app_id_tag = 10"
definition logs_proto_mobilesdk_ios_ICoreConfiguration_bundle_id_tag :: nat where [core_tags]: "logs_proto_mobilesdk_ios_ICoreConfiguration_bundle_id_tag = 12"
definition logs_proto_mobilesdk_ios_ICoreConfiguration_min_supported_ios_version_tag :: nat where [core_tags]: "logs_proto_mobilesdk_ios_ICoreConfiguration_min_supported_ios_version_tag = 24"
definition logs_proto_mobilesdk_ios_ICoreConfiguration_use_default_app_tag :: nat where [core_tags]: "logs_proto_mobilesdk_ios_ICoreConfiguration_use_default_app_tag = 25"
definition logs_proto_mobilesdk_ios_ICoreConfiguration_app_count_tag :: nat where [core_tags]: "logs_proto_mobilesdk_ios_ICoreConfiguration_app_count_tag = 21"
definition logs_proto_mobilesdk_ios_ICoreConfiguration_deployed_in_app_store_tag :: nat where [core_tags]: "logs_proto_mobilesdk_ios_ICoreConfiguration_deployed_in_app_store_tag = 26"
definition logs_proto_mobilesdk_ios_ICoreConfiguration_dynamic_framework_count_tag :: nat where [core_tags]: "logs_proto_mobilesdk_ios_ICoreConfiguration_dynamic_framework_count_tag = 27"
definition logs_proto_mobilesdk_ios_ICoreConfiguration_apple_framework_version_tag :: nat where [core_tags]: "logs_proto_mobilesdk_ios_ICoreConfiguration_apple_framework_version_tag = 28"
definition logs_proto_mobilesdk_ios_ICoreConfiguration_using_zip_file_tag :: nat where [core_tags]: "logs_proto_mobilesdk_ios_ICoreConfiguration_using_zip_file_tag = 29"
definition logs_proto_mobilesdk_ios_ICoreConfiguration_deployment_type_tag :: nat where [core_tags]: "logs_proto_mobilesdk_ios_ICoreConfiguration_deployment_type_tag = 30"
definition logs_proto_mobilesdk_ios_ICoreConfiguration_platform_info_tag :: nat where [core_tags]: "logs_proto_mobilesdk_ios_ICoreConfiguration_platform_info_tag = 31"
definition logs_proto_mobilesdk_ios_ICoreConfiguration_swizzling_enabled_tag :: nat where [core_tags]: "logs_proto_mobilesdk_ios_ICoreConfiguration_swizzling_enabled_tag = 33"
definition logs_proto_mobilesdk_ios_ICoreConfiguration_using_gdt_tag :: nat where [core_tags]: "logs_proto_mobilesdk_ios_ICoreConfiguration_using_gdt_tag = 36"

subsection \<open>Descriptor tables\<close>

text \<open>\<open>A\<close> gives the addresses the linker chose for the tables and default values.\<close>

definition logs_proto_mobilesdk_ios_ICoreConfiguration_fields :: "(string \<Rightarrow> nat) \<Rightarrow> pb_field list" where
  "logs_proto_mobilesdk_ios_ICoreConfiguration_fields A =
    [PB_FIELD 1 UENUM OPTIONAL STATIC FIRST logs_proto_mobilesdk_ios_ICoreConfiguration ''configuration_type'' ''configuration_type'' 0,
     PB_FIELD 7 UENUM REPEATED POINTER OTHER logs_proto_mobilesdk_ios_ICoreConfiguration ''sdk_service_installed'' ''configuration_type'' 0,
     PB_FIELD 9 BYTES OPTIONAL POINTER OTHER logs_proto_mobilesdk_ios_ICoreConfiguration ''device_model'' ''sdk_service_installed'' 0,
     PB_FIELD 10 BYTES OPTIONAL POINTER OTHER logs_proto_mobilesdk_ios_ICoreConfiguration ''app_id'' ''device_model'' 0,
     PB_FIELD 12 BYTES OPTIONAL POINTER OTHER logs_proto_mobilesdk_ios_ICoreConfiguration ''bundle_id'' ''app_id'' 0,
     PB_FIELD 16 UENUM OPTIONAL STATIC OTHER logs_proto_mobilesdk_ios_ICoreConfiguration ''pod_name'' ''bundle_id'' 0,
     PB_FIELD 18 BYTES OPTIONAL POINTER OTHER logs_proto_mobilesdk_ios_ICoreConfiguration ''icore_version'' ''pod_name'' 0,
     PB_FIELD 19 BYTES OPTIONAL POINTER OTHER logs_proto_mobilesdk_ios_ICoreConfiguration ''sdk_version'' ''icore_version'' 0,
     PB_FIELD 20 UENUM OPTIONAL STATIC OTHER logs_proto_mobilesdk_ios_ICoreConfiguration ''sdk_name'' ''sdk_version'' 0,
     PB_FIELD 21 INT32 OPTIONAL STATIC OTHER logs_proto_mobilesdk_ios_ICoreConfiguration ''app_count'' ''sdk_name'' 0,
     PB_FIELD 22 BYTES OPTIONAL POINTER OTHER logs_proto_mobilesdk_ios_ICoreConfiguration ''os_version'' ''app_count'' 0,
     PB_FIELD 24 BYTES OPTIONAL POINTER OTHER logs_proto_mobilesdk_ios_ICoreConfiguration ''min_supported_ios_version'' ''os_version'' 0,
     PB_FIELD 25 BOOL OPTIONAL STATIC OTHER logs_proto_mobilesdk_ios_ICoreConfiguration ''use_default_app'' ''min_supported_ios_version'' 0,
     PB_FIELD 26 BOOL OPTIONAL STATIC OTHER logs_proto_mobilesdk_ios_ICoreConfiguration ''deployed_in_app_store'' ''use_default_app'' 0,
     PB_FIELD 27 INT32 OPTIONAL STATIC OTHER logs_proto_mobilesdk_ios_ICoreConfiguration ''dynamic_framework_count'' ''deployed_in_app_store'' 0,
     PB_FIELD 28 BYTES OPTIONAL POINTER OTHER logs_proto_mobilesdk_ios_ICoreConfiguration ''apple_framework_version'' ''dynamic_framework_count'' 0,
     PB_FIELD 29 BOOL OPTIONAL STATIC OTHER logs_proto_mobilesdk_ios_ICoreConfiguration ''using_zip_file'' ''apple_framework_version'' 0,
     PB_FIELD 30 UENUM OPTIONAL STATIC OTHER logs_proto_mobilesdk_ios_ICoreConfiguration ''deployment_type'' ''using_zip_file'' 0,
     PB_FIELD 31 BYTES OPTIONAL POINTER OTHER logs_proto_mobilesdk_ios_ICoreConfiguration ''platform_info'' ''deployment_type'' 0,
     PB_FIELD 33 BOOL OPTIONAL STATIC OTHER logs_proto_mobilesdk_ios_ICoreConfiguration ''swizzling_enabled'' ''platform_info'' 0,
     PB_FIELD 36 BOOL OPTIONAL STATIC OTHER logs_proto_mobilesdk_ios_ICoreConfiguration ''using_gdt'' ''swizzling_enabled'' 0,
     PB_LAST_FIELD]"


end
