(* ===== verification/FlatMsg.thy ===== *)
theory FlatMsg
  imports PbDecSafe PbWriter
begin

text \<open>
  Messages whose fields are optional scalars stored in the struct with has-flags, which is what
  NetworkConnectionInfo and QosTierConfiguration of the CCT transport are. \<open>msg_value\<close> is the
  abstract message, a value or nothing per field. The encoder writes \<open>flat_bytes\<close> of it; the
  decoder, on any sequence of encoded fields, computes the message in which the last value of
  each field wins, and so undoes the encoder.
\<close>

subsection \<open>Scalar fields\<close>

definition scalar_field :: "pb_field \<Rightarrow> bool" where
  "scalar_field f \<longleftrightarrow> PB_ATYPE (ftype f) = PB_ATYPE_STATIC \<and> PB_HTYPE (ftype f) = PB_HTYPE_OPTIONAL \<and>
     size_offset f \<noteq> 0 \<and> tag f < 2 ^ 29 \<and>
     (PB_LTYPE (ftype f) \<in> {PB_LTYPE_VARINT, PB_LTYPE_UVARINT, PB_LTYPE_SVARINT} \<and>
        data_size f \<in> {1, 2, 4, 8} \<or>
      PB_LTYPE (ftype f) = PB_LTYPE_FIXED32 \<and> data_size f = 4 \<or>
      PB_LTYPE (ftype f) = PB_LTYPE_FIXED64 \<and> data_size f = 8)"

text \<open>The wire form of a value, given as the bytes of its C object.\<close>

definition scalar_bytes :: "pb_field \<Rightarrow> u8 list \<Rightarrow> u8 list" where
  "scalar_bytes f v =
     (let m = (\<lambda>i. v ! i); n = data_size f; lt = PB_LTYPE (ftype f) in
      if lt = PB_LTYPE_VARINT then varint_buffer (the (load_signed n 0 m))
      else if lt = PB_LTYPE_UVARINT then varint_buffer (the (load_unsigned n 0 m))
      else if lt = PB_LTYPE_SVARINT then varint_buffer (zigzag (the (load_signed n 0 m)))
      else v)"

definition wire_type_for :: "pb_field \<Rightarrow> u32" where
  "wire_type_for f = the (wire_type_of (PB_LTYPE (ftype f)))"

definition field_bytes :: "pb_field \<Rightarrow> u8 list \<Rightarrow> u8 list" where
  "field_bytes f v = tag_bytes (wire_type_for f) (tag f) @ scalar_bytes f v"

lemma mem_read_nth: "mem_read a (length v) m = v \<Longrightarrow> i < length v \<Longrightarrow> v ! i = m (a + i)"
  by (auto simp: mem_read_def dest: arg_cong [where f = "\<lambda>xs. xs ! i"])

lemma load_nth: "v = mem_read p n m \<Longrightarrow> k \<le> n \<Longrightarrow> load k 0 ((!) v) = load k p m"
  by (auto simp: load_def mem_read_def intro!: arg_cong [where f = le_word])

lemma load_signed_nth: "v = mem_read p n m \<Longrightarrow> load_signed n 0 ((!) v) = load_signed n p m"
  "v = mem_read p n m \<Longrightarrow> load_unsigned n 0 ((!) v) = load_unsigned n p m"
  by (simp_all add: load_signed_def load_unsigned_def load_nth)

lemma load_defined: "n \<in> {1, 2, 4, 8} \<Longrightarrow> load_signed n p m \<noteq> None" "n \<in> {1, 2, 4, 8} \<Longrightarrow> load_unsigned n p m \<noteq> None"
  by (auto simp: load_signed_def load_unsigned_def)

lemma le_bytes_load: "8 * n \<le> LENGTH('a) \<Longrightarrow> le_bytes n (load n p m :: 'a::len word) = mem_read p n m"
  using le_bytes_le_word [of "mem_read p n m", where 'a = 'a] by (simp add: load_def)

lemma le_bytes_cast:
  assumes "8 * n \<le> LENGTH('a)" "8 * n \<le> LENGTH('b)"
  shows "le_bytes n (scast (w :: 'a::len word) :: 'b::len word) = le_bytes n w"
    "le_bytes n (ucast w :: 'b word) = le_bytes n w"
  using assms unfolding le_bytes_def
  by (auto intro!: bit_word_eqI simp: bit_simps)

text \<open>Encoding and decoding one value.\<close>

lemma writes_scalar:
  assumes "scalar_field f"
  shows "writes (\<lambda>s. call_encoder env enc s f p m) (Some (scalar_bytes f (mem_read p (data_size f) m)))"
proof -
  let ?v = "mem_read p (data_size f) m"
  note ld = load_signed_nth [OF refl, of "data_size f" p m]
  have fixed: "writes (\<lambda>s. pb_enc_fixed32 s f p m) (Some (mem_read p 4 m))"
    "writes (\<lambda>s. pb_enc_fixed64 s f p m) (Some (mem_read p 8 m))"
    using writes_fixed32 [of f p m] writes_fixed64 [of f p m]
    by (simp_all add: fixed32_bytes_le fixed64_bytes_le le_bytes_load)
  show ?thesis
    using assms load_defined [of "data_size f" p m] unfolding scalar_field_def
    by (auto simp: call_encoder_cases scalar_bytes_def Let_def pb_consts pb_enc_varint_def pb_enc_uvarint_def
        pb_enc_svarint_def pb_encode_svarint_def ld writes_varint fixed)
qed

lemma store_clamped_same:
  assumes "n \<in> {1, 2, 4, 8}" "clamp n v = v"
  shows "store_clamped clamp s n v dest c = Some (True, s, upd_mem (store n dest v) c)"
  using assms by (auto simp: store_clamped_def)

text \<open>What the three varint decoders do to a value that came from an object of their own size.\<close>

lemma scast_16_32: "scast (ucast (scast (w :: 16 word) :: u64) :: u32) = (scast w :: u64)"
  by (rule bit_word_eqI) (auto simp: bit_simps min_def)

lemma scast_8_32: "scast (ucast (scast (w :: 8 word) :: u64) :: u32) = (scast w :: u64)"
  by (rule bit_word_eqI) (auto simp: bit_simps min_def)

lemma scast_32_32: "scast (ucast (scast (w :: u32) :: u64) :: u32) = (scast w :: u64)"
  by (rule bit_word_eqI) (auto simp: bit_simps min_def)

lemma cast_back:
  "ucast (scast w :: u64) = (w :: 16 word)" "ucast (scast b :: u64) = (b :: u8)"
  "ucast (ucast w :: u64) = (w :: 16 word)" "ucast (ucast b :: u64) = (b :: u8)"
  "ucast (ucast x :: u64) = (x :: u32)"
  by (rule bit_word_eqI,
      auto simp: bit_simps min_def intro!: arg_cong [where f = "bit w"] arg_cong [where f = "bit b"])+

lemma load_signed_clamp:
  assumes "load_signed n p m = Some v"
  shows "clamp_signed n v = v" "(if n = 8 then v else scast (ucast v :: u32)) = v"
    "le_bytes n v = mem_read p n m"
  using assms by (auto simp: load_signed_def clamp_signed_def scast_16_32 scast_8_32 scast_32_32
      le_bytes_cast le_bytes_load cast_back split: if_splits)

lemma load_unsigned_clamp:
  assumes "load_unsigned n p m = Some v"
  shows "clamp_unsigned n v = v" "le_bytes n v = mem_read p n m"
  using assms by (auto simp: load_unsigned_def clamp_unsigned_def
      le_bytes_cast le_bytes_load cast_back split: if_splits)

text \<open>A value is decoded to the same bytes at the destination, whatever was there.\<close>

lemma scalar_decoded:
  assumes f: "scalar_field f" and v: "length v = data_size f"
  shows "call_decoder env sub (bstream (scalar_bytes f v @ rest) (length (scalar_bytes f v) + k) e :: 's pb_istream) f q c =
    Some (True, bstream rest k e, upd_mem (mem_write q v) c)"
proof -
  let ?n = "data_size f" and ?m = "\<lambda>i. v ! i"
  have mv: "mem_read 0 ?n ?m = v" using map_nth [of v] v by (simp add: mem_read_def)
  consider (var) "PB_LTYPE (ftype f) \<in> {PB_LTYPE_VARINT, PB_LTYPE_UVARINT, PB_LTYPE_SVARINT}" "?n \<in> {1, 2, 4, 8}"
    | (f32) "PB_LTYPE (ftype f) = PB_LTYPE_FIXED32" "?n = 4" | (f64) "PB_LTYPE (ftype f) = PB_LTYPE_FIXED64" "?n = 8"
    using f by (auto simp: scalar_field_def)
  then show ?thesis
  proof cases
    case var
    obtain x y where xy: "load_signed ?n 0 ?m = Some x" "load_unsigned ?n 0 ?m = Some y"
      using load_defined [OF var(2), of 0 ?m] by blast
    note x = load_signed_clamp [OF xy(1)] and y = load_unsigned_clamp [OF xy(2)]
    have st: "store_clamped clamp_signed s ?n x q c = Some (True, s, upd_mem (mem_write q v) c)"
      "store_clamped clamp_unsigned s ?n y q c = Some (True, s, upd_mem (mem_write q v) c)" for s :: "'s pb_istream"
      using store_clamped_same [OF var(2), of clamp_signed x s q c]
        store_clamped_same [OF var(2), of clamp_unsigned y s q c] x(1) y(1)
      by (simp_all add: upd_mem_def store_def x(3) y(2) mv)
    from var(1) show ?thesis
      using xy x(2) by (elim insertE emptyE)
        (simp_all add: call_decoder_cases scalar_bytes_def Let_def pb_consts pb_dec_varint_def
          pb_dec_uvarint_def pb_dec_svarint_def on_read_def varint.dec_enc svarint.dec_enc st)
  next
    case f32
    have "v = fixed32_bytes (load32 0 ?m)" using mv f32 by (simp add: fixed32_bytes_le le_bytes_load)
    then have "pb_decode_fixed32 (bstream (v @ rest) (length v + k) e :: 's pb_istream) =
        (Some (load32 0 ?m), bstream rest k e)"
      using fixed32.dec_enc [of "load32 0 ?m" rest k e, where 'a = 's] by simp
    then show ?thesis
      using f32 mv by (simp add: call_decoder_cases scalar_bytes_def Let_def pb_consts pb_dec_fixed32_def on_read_def
          upd_mem_def store_def le_bytes_load)
  next
    case f64
    have "v = fixed64_bytes (load64 0 ?m)" using mv f64 by (simp add: fixed64_bytes_le le_bytes_load)
    then have "pb_decode_fixed64 (bstream (v @ rest) (length v + k) e :: 's pb_istream) =
        (Some (load64 0 ?m), bstream rest k e)"
      using fixed64.dec_enc [of "load64 0 ?m" rest k e, where 'a = 's] by simp
    then show ?thesis
      using f64 mv by (simp add: call_decoder_cases scalar_bytes_def Let_def pb_consts pb_dec_fixed64_def on_read_def
          upd_mem_def store_def le_bytes_load)
  qed
qed

subsection \<open>Flat messages\<close>

text \<open>The bytes a field owns in the struct, and the requirement on the table.\<close>

definition field_slots :: "pb_field list \<Rightarrow> nat \<Rightarrow> nat \<Rightarrow> nat set" where
  "field_slots fs d i = insert (pSize (iter_at fs d i))
     {pData (iter_at fs d i) ..< pData (iter_at fs d i) + data_size (field_at fs i)}"

definition flat_msg :: "pb_field list \<Rightarrow> nat \<Rightarrow> bool" where
  "flat_msg fs d \<longleftrightarrow> 0 < field_count fs \<and>
     (\<forall>i < field_count fs. scalar_field (field_at fs i) \<and>
        pSize (iter_at fs d i) \<notin> {pData (iter_at fs d i) ..< pData (iter_at fs d i) + data_size (field_at fs i)} \<and>
        (\<forall>j < field_count fs. i \<noteq> j \<longrightarrow> tag (field_at fs i) \<noteq> tag (field_at fs j) \<and>
           field_slots fs d i \<inter> field_slots fs d j = {}))"

definition msg_value :: "pb_field list \<Rightarrow> nat \<Rightarrow> mem \<Rightarrow> u8 list option list" where
  "msg_value fs d m = map (\<lambda>i.
     if load_bool (pSize (iter_at fs d i)) m
     then Some (mem_read (pData (iter_at fs d i)) (data_size (field_at fs i)) m) else None) [0..<field_count fs]"

lemma length_msg_value [simp]: "length (msg_value fs d m) = field_count fs"
  by (simp add: msg_value_def)

lemma nth_msg_value:
  "i < field_count fs \<Longrightarrow> msg_value fs d m ! i =
    (if load_bool (pSize (iter_at fs d i)) m
     then Some (mem_read (pData (iter_at fs d i)) (data_size (field_at fs i)) m) else None)"
  by (simp add: msg_value_def)

lemma flat_disjoint:
  "flat_msg fs d \<Longrightarrow> i < field_count fs \<Longrightarrow> j < field_count fs \<Longrightarrow> i \<noteq> j \<Longrightarrow>
   field_slots fs d i \<inter> field_slots fs d j = {}"
  by (simp add: flat_msg_def)

lemma msg_value_cong:
  assumes "i < field_count fs" "\<And>a. a \<in> field_slots fs d i \<Longrightarrow> m' a = m a"
  shows "msg_value fs d m' ! i = msg_value fs d m ! i"
  using assms by (auto simp: nth_msg_value load_bool_def field_slots_def intro!: mem_read_cong)

text \<open>Writing one field's value and flag changes that field of the message only.\<close>

definition put_field :: "pb_field list \<Rightarrow> nat \<Rightarrow> nat \<Rightarrow> u8 list \<Rightarrow> mem \<Rightarrow> mem" where
  "put_field fs d i v m = mem_write (pData (iter_at fs d i)) v (store_bool (pSize (iter_at fs d i)) True m)"

lemma put_field_outside:
  "length v = data_size (field_at fs i) \<Longrightarrow> a \<notin> field_slots fs d i \<Longrightarrow> put_field fs d i v m a = m a"
  by (auto simp: put_field_def field_slots_def mem_write_def store_bool_def)

lemma msg_value_put_field:
  assumes flat: "flat_msg fs d" and i: "i < field_count fs" and v: "length v = data_size (field_at fs i)"
  shows "msg_value fs d (put_field fs d i v m) = (msg_value fs d m)[i := Some v]"
proof (rule nth_equalityI)
  fix j assume "j < length (msg_value fs d (put_field fs d i v m))"
  then have j: "j < field_count fs" by simp
  show "msg_value fs d (put_field fs d i v m) ! j = (msg_value fs d m)[i := Some v] ! j"
  proof (cases "j = i")
    case True
    have "pSize (iter_at fs d i) \<notin> {pData (iter_at fs d i) ..< pData (iter_at fs d i) + length v}"
      using flat i v by (simp add: flat_msg_def)
    then have "load_bool (pSize (iter_at fs d i)) (put_field fs d i v m)"
      by (auto simp: load_bool_def put_field_def mem_write_def store_bool_def)
    then show ?thesis
      using True i v by (simp add: nth_msg_value put_field_def mem_simps)
  next
    case False
    then have "field_slots fs d j \<inter> field_slots fs d i = {}" using flat i j by (auto simp: flat_msg_def)
    then have "msg_value fs d (put_field fs d i v m) ! j = msg_value fs d m ! j"
      using put_field_outside [OF v] by (intro msg_value_cong [OF j]) auto
    then show ?thesis using False by simp
  qed
qed simp

subsection \<open>Decoding a sequence of fields\<close>

lemma scalar_wire_type: "scalar_field f \<Longrightarrow> wire_type_of (PB_LTYPE (ftype f)) = Some (wire_type_for f) \<and> wire_type_for f < 8"
  by (auto simp: scalar_field_def wire_type_for_def wire_type_of_def pb_consts)

lemma flat_tag: "flat_msg fs d \<Longrightarrow> i < field_count fs \<Longrightarrow>
   valid_tag (wire_type_for (field_at fs i)) (tag (field_at fs i))"
  using scalar_wire_type [of "field_at fs i"] tag_field_at [of i fs]
  by (auto simp: flat_msg_def valid_tag_def scalar_field_def)

lemma flat_find:
  assumes "flat_msg fs d" "i < field_count fs" "j < field_count fs"
  shows "pb_field_iter_find (iter_at fs d i) (tag (field_at fs j)) = Some (True, iter_at fs d j)"
proof -
  have m: "tag_matches (tag (field_at fs j)) (field_at fs k) \<longleftrightarrow> k = j" if "k < field_count fs" for k
    using assms(1,3) that by (auto simp: flat_msg_def tag_matches_def scalar_field_def pb_consts)
  have "find (\<lambda>k. tag_matches (tag (field_at fs j)) (field_at fs k)) (indices_from (field_count fs) i i) = Some j"
  proof (cases "find (\<lambda>k. tag_matches (tag (field_at fs j)) (field_at fs k)) (indices_from (field_count fs) i i)")
    case None
    then show ?thesis
      using m [OF assms(3)] assms(3) set_indices_from [OF assms(2)] by (auto simp: find_None_iff)
  next
    case (Some k)
    then have "k \<in> set (indices_from (field_count fs) i i)" "tag_matches (tag (field_at fs j)) (field_at fs k)"
      by (auto simp: find_Some_iff)
    then show ?thesis using Some m [of k] set_indices_from [OF assms(2)] by auto
  qed
  then show ?thesis
    using find_canonical [of fs d i "iter_at fs d i" "tag (field_at fs j)"] assms(2) by (auto simp: canonical_iter_at)
qed

lemma decode_known_scalar:
  assumes flat: "flat_msg fs d" and i: "i < field_count fs" "iter l = iter_at fs d i"
    and v: "length v = data_size (field_at fs i)"
  shows "decode_known env n sub fcs
      (bstream (scalar_bytes (field_at fs i) v @ rest) (length (scalar_bytes (field_at fs i) v) + k) e :: 's pb_istream) wt l c =
    Some (True, bstream rest k e, l, upd_mem (put_field fs d i v) c)"
proof -
  let ?f = "field_at fs i"
  have f: "scalar_field ?f" using flat i by (simp add: flat_msg_def)
  then have "0 < data_size ?f" by (auto simp: scalar_field_def)
  then have neq: "pSize (iter_at fs d i) \<noteq> pData (iter_at fs d i)" using flat i by (force simp: flat_msg_def)
  have ty: "PB_ATYPE (ftype ?f) = PB_ATYPE_STATIC" "PB_HTYPE (ftype ?f) = PB_HTYPE_OPTIONAL"
    using f by (simp_all add: scalar_field_def)
  have "enter_fixed_count fcs l c = Some (l, c)" "mark_required l = l"
    using i ty by (simp_all add: enter_fixed_count_def mark_required_def Let_def pb_consts)
  moreover have "decode_field env n sub s wt (iter_at fs d i) c =
      map_option (\<lambda>(ok, s, c). (ok, s, iter_at fs d i, c))
        (call_decoder env sub s ?f (pData (iter_at fs d i)) (upd_mem (store_bool (pSize (iter_at fs d i)) True) c))"
    for s :: "'s pb_istream"
    using i ty neq
    by (cases "call_decoder env sub s ?f (pData (iter_at fs d i)) (upd_mem (store_bool (pSize (iter_at fs d i)) True) c)")
      (auto simp: decode_field_def decode_static_field_def Let_def pb_consts)
  ultimately show ?thesis
    using i by (simp add: decode_known_def scalar_decoded [OF f v] upd_mem_def put_field_def)
qed

lemma decode_loop_field:
  assumes flat: "flat_msg fs d" and i: "i < field_count fs" "iter l = iter_at fs d i" and j: "j < field_count fs"
    and v: "length v = data_size (field_at fs j)"
  shows "decode_loop env n sub fcs (Suc k)
      (bstream (field_bytes (field_at fs j) v @ rest) (length (field_bytes (field_at fs j) v) + r) e :: 's pb_istream) l c =
    decode_loop env n sub fcs k (bstream rest r e) (l\<lparr>iter := iter_at fs d j\<rparr>) (upd_mem (put_field fs d j v) c)"
proof -
  let ?f = "field_at fs j"
  have t: "unat (of_nat (tag ?f) :: u32) = tag ?f"
    using flat_tag [OF flat j] by (simp add: valid_tag_def unat_of_nat)
  let ?tb = "tag_bytes (wire_type_for ?f) (tag ?f)"
  have dt: "pb_decode_tag (bstream (?tb @ bs) (length ?tb + q) e :: 's pb_istream) =
      (Some (wire_type_for ?f, of_nat (tag ?f)), False, bstream bs q e)" for bs q
    by (rule pb_decode_tag_encoded [OF flat_tag [OF flat j]])
  have "?tb \<noteq> []" by (simp add: tag_bytes_def)
  then show ?thesis
    by (simp add: field_bytes_def add.assoc dt i(2) t flat_find [OF flat i(1) j]
        decode_known_scalar [OF flat j _ v] stream_simps)
qed

definition ok_ops :: "pb_field list \<Rightarrow> (nat \<times> u8 list) list \<Rightarrow> bool" where
  "ok_ops fs ops \<longleftrightarrow> (\<forall>(j, v) \<in> set ops. j < field_count fs \<and> length v = data_size (field_at fs j))"

definition ops_bytes :: "pb_field list \<Rightarrow> (nat \<times> u8 list) list \<Rightarrow> u8 list" where
  "ops_bytes fs ops = concat (map (\<lambda>(j, v). field_bytes (field_at fs j) v) ops)"

definition put_fields :: "pb_field list \<Rightarrow> nat \<Rightarrow> (nat \<times> u8 list) list \<Rightarrow> mem \<Rightarrow> mem" where
  "put_fields fs d ops = fold (\<lambda>(j, v). put_field fs d j v) ops"

definition apply_ops :: "(nat \<times> u8 list) list \<Rightarrow> u8 list option list \<Rightarrow> u8 list option list" where
  "apply_ops ops vs = fold (\<lambda>(j, v) vs. vs[j := Some v]) ops vs"

lemma msg_value_put_fields:
  "flat_msg fs d \<Longrightarrow> ok_ops fs ops \<Longrightarrow> msg_value fs d (put_fields fs d ops m) = apply_ops ops (msg_value fs d m)"
  by (induction ops arbitrary: m) (auto simp: put_fields_def apply_ops_def ok_ops_def msg_value_put_field)

lemma field_bytes_nonempty: "field_bytes f v \<noteq> []"
  by (simp add: field_bytes_def tag_bytes_def)

lemma length_ops_bytes: "length ops \<le> length (ops_bytes fs ops)"
proof (induction ops)
  case (Cons x ops)
  then show ?case
    using field_bytes_nonempty [of "field_at fs (fst x)" "snd x"]
    by (cases "field_bytes (field_at fs (fst x)) (snd x)") (auto simp: ops_bytes_def split: prod.splits)
qed simp

lemma upd_mem_upd_mem: "upd_mem f (upd_mem g c) = upd_mem (\<lambda>m. f (g m)) c"
  by (simp add: upd_mem_def)

lemma decode_loop_fields:
  assumes flat: "flat_msg fs d" and ops: "ok_ops fs ops" and i: "i < field_count fs" "iter l = iter_at fs d i"
  shows "\<exists>i'. i' < field_count fs \<and> decode_loop env n sub fcs (length ops + Suc k)
      (bstream (ops_bytes fs ops) (length (ops_bytes fs ops)) e :: 's pb_istream) l c =
    Some (True, bstream [] 0 e, l\<lparr>iter := iter_at fs d i'\<rparr>, upd_mem (put_fields fs d ops) c)"
  using ops i
proof (induction ops arbitrary: i l c)
  case Nil
  then have "l\<lparr>iter := iter_at fs d i\<rparr> = l" by simp
  then show ?case
    using Nil by (intro exI [of _ i]) (simp add: ops_bytes_def put_fields_def stream_simps upd_mem_def)
next
  case (Cons x ops)
  obtain j v where x: "x = (j, v)" by (cases x)
  have j: "j < field_count fs" "length v = data_size (field_at fs j)" "ok_ops fs ops"
    using Cons.prems(1) x by (auto simp: ok_ops_def)
  obtain i' where i': "i' < field_count fs" "decode_loop env n sub fcs (length ops + Suc k)
      (bstream (ops_bytes fs ops) (length (ops_bytes fs ops)) e :: 's pb_istream) (l\<lparr>iter := iter_at fs d j\<rparr>)
      (upd_mem (put_field fs d j v) c) =
    Some (True, bstream [] 0 e, l\<lparr>iter := iter_at fs d i'\<rparr>, upd_mem (put_fields fs d ops) (upd_mem (put_field fs d j v) c))"
    using Cons.IH [OF j(3) j(1), of "l\<lparr>iter := iter_at fs d j\<rparr>" "upd_mem (put_field fs d j v) c"] by auto
  have ob: "ops_bytes fs (x # ops) = field_bytes (field_at fs j) v @ ops_bytes fs ops"
    by (simp add: ops_bytes_def x)
  have "length (x # ops) + Suc k = Suc (length ops + Suc k)" by simp
  then have "decode_loop env n sub fcs (length (x # ops) + Suc k)
      (bstream (ops_bytes fs (x # ops)) (length (ops_bytes fs (x # ops))) e :: 's pb_istream) l c =
    Some (True, bstream [] 0 e, l\<lparr>iter := iter_at fs d i'\<rparr>, upd_mem (put_fields fs d (x # ops)) c)"
    unfolding ob length_append
    using i'(2)
    by (simp add: decode_loop_field [OF flat Cons.prems(2,3) j(1,2)] x put_fields_def upd_mem_upd_mem o_def del: decode_loop.simps)
  with i'(1) show ?case by blast
qed

subsection \<open>Whole messages\<close>

lemma flat_required_index: "flat_msg fs d \<Longrightarrow> i < field_count fs \<Longrightarrow> required_field_index (iter_at fs d i) = 0"
proof (induction i)
  case (Suc i)
  then have "PB_HTYPE (ftype (field_at fs i)) = PB_HTYPE_OPTIONAL" by (simp add: flat_msg_def scalar_field_def)
  then show ?case
    using Suc by (simp add: iter_at.simps pb_field_iter_next_def Let_def iter_field_def pos_iter_at
        tag_field_at in_union_def pb_consts)
qed (simp add: iter_at.simps pb_field_iter_begin_def Let_def)

lemma flat_decode_finish:
  assumes flat: "flat_msg fs d" and i: "i < field_count fs" "iter l = iter_at fs d i"
    and l: "fixed_count_field l = None"
  shows "decode_finish fcs s l c = Some (True, s, c)"
proof -
  have n: "0 < field_count fs" "field_count fs - 1 < field_count fs" using i by auto
  have "PB_HTYPE (ftype (field_at fs (field_count fs - 1))) \<noteq> PB_HTYPE_REQUIRED"
    using flat n by (simp add: flat_msg_def scalar_field_def pb_consts)
  then have "count_required (iter l) = Some 0"
    using seek_end_canonical [OF canonical_iter_at [OF i(1)], of "length fs + 1"] field_count_le [of fs]
      flat_required_index [OF flat n(2)] by (simp add: count_required_def i(2))
  then show ?thesis using l by (simp add: decode_finish_def fixed_count_complete_def all_seen_def)
qed

lemma flat_decode_noinit:
  assumes flat: "flat_msg fs d" and ops: "ok_ops fs ops"
    and sp: "\<And>i. i < field_count fs \<Longrightarrow> field_slots fs d i \<inter> {sp c ..< sp c + 4} = {}"
  shows "\<exists>m'. pb_decode_noinit env (Suc n)
      (pb_istream_from_buffer (ops_bytes fs ops) (length (ops_bytes fs ops)) :: 's pb_istream) fs d c =
    Some (True, bstream [] 0 None, c\<lparr>mem := m'\<rparr>) \<and> msg_value fs d m' = apply_ops ops (msg_value fs d (mem c))"
proof -
  let ?s = "bstream (ops_bytes fs ops) (length (ops_bytes fs ops)) None :: 's pb_istream"
  let ?m0 = "store 4 (sp c) (0 :: u32) (mem c)"
  let ?c0 = "store_size (sp c) 0 (c\<lparr>sp := sp c + 4\<rparr>)"
  let ?sub = "\<lambda>init. if init then decode_with env n (pb_decode_noinit env n) else pb_decode_noinit env n"
  have n: "0 < field_count fs" using flat by (simp add: flat_msg_def)
  have it: "iter (noinit_locals fs d) = iter_at fs d 0" "fixed_count_field (noinit_locals fs d) = None"
    by (simp_all add: noinit_locals_def begin_iter_at)
  obtain k where k: "length (ops_bytes fs ops) + 1 = length ops + Suc k"
    using length_ops_bytes [of ops fs] by (metis add.commute add_Suc_right le_Suc_ex plus_1_eq_Suc)
  obtain i' where i': "i' < field_count fs"
    "decode_loop env n ?sub (sp c) (length (ops_bytes fs ops) + 1) ?s (noinit_locals fs d) ?c0 =
      Some (True, bstream [] 0 None, (noinit_locals fs d)\<lparr>iter := iter_at fs d i'\<rparr>, upd_mem (put_fields fs d ops) ?c0)"
    using decode_loop_fields [OF flat ops n it(1), of env n ?sub "sp c" k None ?c0] unfolding k by blast
  have fin: "decode_finish (sp c) s ((noinit_locals fs d)\<lparr>iter := iter_at fs d i'\<rparr>) c' = Some (True, s, c')"
    for s :: "'s pb_istream" and c'
    by (rule flat_decode_finish [OF flat i'(1)]) (simp_all add: it)
  have "msg_value fs d ?m0 = msg_value fs d (mem c)"
  proof (rule nth_equalityI)
    fix i assume "i < length (msg_value fs d ?m0)"
    then have i: "i < field_count fs" by simp
    show "msg_value fs d ?m0 ! i = msg_value fs d (mem c) ! i"
      using sp [OF i] by (intro msg_value_cong [OF i]) (auto simp: store_def mem_write_def)
  qed simp
  then have "msg_value fs d (put_fields fs d ops ?m0) = apply_ops ops (msg_value fs d (mem c))"
    by (simp add: msg_value_put_fields [OF flat ops])
  moreover have "pb_decode_noinit env (Suc n) ?s fs d c =
      Some (True, bstream [] 0 None, c\<lparr>mem := put_fields fs d ops ?m0\<rparr>)"
    using i'(2) by (simp add: decode_noinit_with_def stream_simps fin Let_def)
      (simp add: store_size_def upd_mem_def)
  ultimately show ?thesis
    by (intro exI [of _ "put_fields fs d ops ?m0"]) (simp add: from_buffer_bstream)
qed

text \<open>The default values: no field is present.\<close>

lemma flat_default_field:
  assumes flat: "flat_msg fs d" and i: "i < field_count fs"
  shows "\<exists>m'. pb_field_set_to_default env (Suc n) (iter_at fs d i) c = Some (c\<lparr>mem := m'\<rparr>) \<and>
    agree_outside (field_slots fs d i) (mem c) m' \<and> \<not> load_bool (pSize (iter_at fs d i)) m'"
proof -
  let ?f = "field_at fs i" and ?it = "iter_at fs d i"
  have f: "scalar_field ?f" "pSize ?it \<notin> {pData ?it ..< pData ?it + data_size ?f}"
    using flat i by (simp_all add: flat_msg_def)
  then have ty: "PB_ATYPE (ftype ?f) = PB_ATYPE_STATIC" "PB_HTYPE (ftype ?f) = PB_HTYPE_OPTIONAL"
    "PB_LTYPE (ftype ?f) \<noteq> PB_LTYPE_EXTENSION" "PB_LTYPE (ftype ?f) \<noteq> PB_LTYPE_SUBMESSAGE"
    and sz: "0 < data_size ?f"
    by (auto simp: scalar_field_def pb_consts)
  have neq: "pSize ?it \<noteq> pData ?it" using f(2) sz by auto
  let ?m1 = "store_bool (pSize ?it) False (mem c)"
  let ?m2 = "if fptr ?f \<noteq> 0 then memcpy (pData ?it) (fptr ?f) (data_size ?f) ?m1
    else memset0 (pData ?it) (data_size ?f) ?m1"
  have "pb_field_set_to_default env (Suc n) ?it c = Some (c\<lparr>mem := ?m2\<rparr>)"
    using i ty neq by (simp add: Let_def upd_mem_def pb_field_set_to_default.simps)
  moreover have "agree_outside (field_slots fs d i) (mem c) ?m2"
    by (auto simp: agree_outside_def field_slots_def store_bool_def memcpy_def memset0_def mem_write_def)
  moreover have "\<not> load_bool (pSize ?it) ?m2"
    using f(2) by (auto simp: load_bool_def store_bool_def memcpy_def memset0_def mem_write_def)
  ultimately show ?thesis by blast
qed

lemma flat_defaults_loop:
  assumes flat: "flat_msg fs d"
  shows "i < field_count fs \<Longrightarrow> field_count fs \<le> i + k \<Longrightarrow>
    \<exists>m'. fields_loop (pb_field_set_to_default env (Suc n)) k (iter_at fs d i) c = Some (c\<lparr>mem := m'\<rparr>) \<and>
      agree_outside (\<Union>j \<in> {i ..< field_count fs}. field_slots fs d j) (mem c) m' \<and>
      (\<forall>j. i \<le> j \<longrightarrow> j < field_count fs \<longrightarrow> \<not> load_bool (pSize (iter_at fs d j)) m')"
proof (induction k arbitrary: i c)
  case (Suc k)
  obtain m1 where m1: "pb_field_set_to_default env (Suc n) (iter_at fs d i) c = Some (c\<lparr>mem := m1\<rparr>)"
    "agree_outside (field_slots fs d i) (mem c) m1" "\<not> load_bool (pSize (iter_at fs d i)) m1"
    using flat_default_field [OF flat Suc.prems(1)] by blast
  show ?case
  proof (cases "Suc i < field_count fs")
    case True
    let ?U = "\<Union>j \<in> {Suc i ..< field_count fs}. field_slots fs d j"
    obtain m2 where m2: "fields_loop (pb_field_set_to_default env (Suc n)) k (iter_at fs d (Suc i)) (c\<lparr>mem := m1\<rparr>) =
        Some (c\<lparr>mem := m2\<rparr>)" "agree_outside ?U m1 m2"
      "\<forall>j. Suc i \<le> j \<longrightarrow> j < field_count fs \<longrightarrow> \<not> load_bool (pSize (iter_at fs d j)) m2"
      using Suc.IH [OF True, of "c\<lparr>mem := m1\<rparr>"] Suc.prems(2) by auto
    have "field_slots fs d i \<inter> field_slots fs d j = {}" if "j \<in> {Suc i ..< field_count fs}" for j
      using flat_disjoint [OF flat Suc.prems(1), of j] that by simp
    then have "field_slots fs d i \<inter> ?U = {}" by blast
    then have "m2 (pSize (iter_at fs d i)) = m1 (pSize (iter_at fs d i))"
      using m2(2) by (auto simp: agree_outside_def field_slots_def)
    then have "\<not> load_bool (pSize (iter_at fs d i)) m2" using m1(3) by (simp add: load_bool_def)
    then have "\<forall>j. i \<le> j \<longrightarrow> j < field_count fs \<longrightarrow> \<not> load_bool (pSize (iter_at fs d j)) m2"
      using m2(3) by (metis le_antisym not_less_eq_eq)
    moreover have "agree_outside (\<Union>j \<in> {i ..< field_count fs}. field_slots fs d j) (mem c) m2"
      using m1(2) m2(2) Suc.prems(1) by (force simp: agree_outside_def)
    ultimately show ?thesis
      using m1(1) m2(1) True Suc.prems(1) by (auto simp: next_iter_at)
  next
    case False
    then have "j = i" if "i \<le> j" "j < field_count fs" for j using that by simp
    then have "\<forall>j. i \<le> j \<longrightarrow> j < field_count fs \<longrightarrow> \<not> load_bool (pSize (iter_at fs d j)) m1"
      using m1(3) by auto
    moreover have "agree_outside (\<Union>j \<in> {i ..< field_count fs}. field_slots fs d j) (mem c) m1"
      by (rule agree_outside_mono [OF m1(2)]) (use Suc.prems(1) in auto)
    ultimately show ?thesis
      using m1(1) False Suc.prems(1) by (intro exI [of _ m1]) (simp add: next_iter_at)
  qed
qed simp

lemma flat_defaults:
  assumes flat: "flat_msg fs d"
  shows "\<exists>m'. pb_message_set_to_defaults env (Suc n) fs d c = Some (c\<lparr>mem := m'\<rparr>) \<and>
    msg_value fs d m' = replicate (field_count fs) None"
proof -
  have n: "0 < field_count fs" using flat by (simp add: flat_msg_def)
  obtain m' where m': "fields_loop (pb_field_set_to_default env (Suc n)) (length fs) (iter_at fs d 0) c = Some (c\<lparr>mem := m'\<rparr>)"
    "\<forall>j. 0 \<le> j \<longrightarrow> j < field_count fs \<longrightarrow> \<not> load_bool (pSize (iter_at fs d j)) m'"
    using flat_defaults_loop [OF flat n, of "length fs" env n c] field_count_le [of fs] by auto
  have "msg_value fs d m' = replicate (field_count fs) None"
    using m'(2) by (intro nth_equalityI) (simp_all add: nth_msg_value)
  moreover have "pb_message_set_to_defaults env (Suc n) fs d c = Some (c\<lparr>mem := m'\<rparr>)"
    using m'(1) n by (simp add: pb_message_set_to_defaults_def message_defaults_with_def begin_iter_at)
  ultimately show ?thesis by blast
qed

lemma flat_decode:
  assumes flat: "flat_msg fs d" and ops: "ok_ops fs ops"
    and sp: "\<And>i. i < field_count fs \<Longrightarrow> field_slots fs d i \<inter> {sp c ..< sp c + 4} = {}"
  shows "\<exists>m'. pb_decode env (Suc n)
      (pb_istream_from_buffer (ops_bytes fs ops) (length (ops_bytes fs ops)) :: 's pb_istream) fs d c =
    Some (True, bstream [] 0 None, c\<lparr>mem := m'\<rparr>) \<and>
    msg_value fs d m' = apply_ops ops (replicate (field_count fs) None)"
proof -
  obtain m1 where m1: "pb_message_set_to_defaults env (Suc n) fs d c = Some (c\<lparr>mem := m1\<rparr>)"
    "msg_value fs d m1 = replicate (field_count fs) None"
    using flat_defaults [OF flat] by blast
  obtain m2 where m2: "pb_decode_noinit env (Suc n)
      (pb_istream_from_buffer (ops_bytes fs ops) (length (ops_bytes fs ops)) :: 's pb_istream) fs d (c\<lparr>mem := m1\<rparr>) =
    Some (True, bstream [] 0 None, c\<lparr>mem := m2\<rparr>)"
    "msg_value fs d m2 = apply_ops ops (replicate (field_count fs) None)"
    using flat_decode_noinit [OF flat ops, of "c\<lparr>mem := m1\<rparr>" env n] sp m1(2) by auto
  show ?thesis
    using m1(1) m2 by (intro exI [of _ m2])
      (simp add: pb_decode_def decode_with_def del: pb_decode_noinit.simps)
qed

text \<open>The encoder writes the fields that are present, in the order of the table.\<close>

definition msg_ops :: "u8 list option list \<Rightarrow> (nat \<times> u8 list) list" where
  "msg_ops vs = concat (map (\<lambda>i. case vs ! i of None \<Rightarrow> [] | Some v \<Rightarrow> [(i, v)]) [0..<length vs])"

lemma flat_size_addr:
  "flat_msg fs d \<Longrightarrow> i < field_count fs \<Longrightarrow> pSize (iter_at fs d i) = size_addr (pData (iter_at fs d i)) (field_at fs i)"
proof (induction i)
  case (Suc i)
  then have "PB_HTYPE (ftype (field_at fs i)) = PB_HTYPE_OPTIONAL" by (simp add: flat_msg_def scalar_field_def)
  then show ?case
    using Suc by (simp add: iter_at.simps pb_field_iter_next_def Let_def iter_field_def pos_iter_at
        tag_field_at in_union_def pb_consts)
qed (simp add: iter_at.simps pb_field_iter_begin_def Let_def)

lemma writes_tag_for_field:
  "scalar_field f \<Longrightarrow> writes (\<lambda>s. Some (pb_encode_tag_for_field s f)) (Some (tag_bytes (wire_type_for f) (tag f)))"
  using scalar_wire_type [of f] by (simp add: pb_encode_tag_for_field_def writes_tag)

lemma writes_flat_item:
  assumes flat: "flat_msg fs d" and i: "i < field_count fs"
  shows "writes (\<lambda>s. encode_item env n enc m s (iter_at fs d i))
    (Some (case msg_value fs d m ! i of None \<Rightarrow> [] | Some v \<Rightarrow> field_bytes (field_at fs i) v))"
proof -
  let ?f = "field_at fs i" and ?it = "iter_at fs d i"
  have f: "scalar_field ?f" using flat i by (simp add: flat_msg_def)
  then have ty: "PB_ATYPE (ftype ?f) = PB_ATYPE_STATIC" "PB_HTYPE (ftype ?f) = PB_HTYPE_OPTIONAL"
    "PB_LTYPE (ftype ?f) \<noteq> PB_LTYPE_EXTENSION" "size_offset ?f \<noteq> 0"
    by (auto simp: scalar_field_def pb_consts)
  have item: "encode_item env n enc m s ?it =
      (if load_bool (pSize ?it) m
       then then_write (Some (pb_encode_tag_for_field s ?f)) (\<lambda>s. call_encoder env enc s ?f (pData ?it) m)
       else Some (True, s))" for s
    using i ty flat_size_addr [OF flat i]
    by (simp add: encode_item_def encode_field_def encode_basic_field_def Let_def pb_consts)
  show ?thesis
    using writes_then_Some [OF writes_tag_for_field [OF f] writes_scalar [OF f, of env enc "pData ?it" m]] i
    by (cases "load_bool (pSize ?it) m") (simp_all add: item nth_msg_value field_bytes_def writes_skip)
qed

lemma writes_flat_loop:
  assumes flat: "flat_msg fs d"
  shows "i < field_count fs \<Longrightarrow> field_count fs \<le> i + k \<Longrightarrow>
    writes (\<lambda>s. encode_fields_loop (encode_item env n enc m) k s (iter_at fs d i))
      (Some (concat (map (\<lambda>i. case msg_value fs d m ! i of None \<Rightarrow> [] | Some v \<Rightarrow> field_bytes (field_at fs i) v)
        [i ..< field_count fs])))"
proof (induction k arbitrary: i)
  case (Suc k)
  note item = writes_flat_item [OF flat Suc.prems(1), of env n enc m]
  show ?case
  proof (cases "Suc i < field_count fs")
    case True
    then show ?thesis
      using writes_then_Some [OF item Suc.IH [OF True]] Suc.prems
      by (simp add: next_iter_at upt_conv_Cons)
  next
    case False
    then have "[i ..< field_count fs] = [i]" using Suc.prems(1) by (simp add: upt_conv_Cons)
    then show ?thesis
      using writes_then_Some [OF item writes_skip] False Suc.prems by (simp add: next_iter_at)
  qed
qed simp

lemma writes_flat_msg:
  assumes flat: "flat_msg fs d"
  shows "writes (\<lambda>s. pb_encode env (Suc n) s fs d m) (Some (ops_bytes fs (msg_ops (msg_value fs d m))))"
proof -
  have n: "0 < field_count fs" using flat by (simp add: flat_msg_def)
  have "ops_bytes fs (concat (map (\<lambda>i. case vs ! i of None \<Rightarrow> [] | Some v \<Rightarrow> [(i, v)]) is)) =
      concat (map (\<lambda>i. case vs ! i of None \<Rightarrow> [] | Some v \<Rightarrow> field_bytes (field_at fs i) v) is)" for vs "is"
    by (induction "is") (auto simp: ops_bytes_def split: option.splits)
  then show ?thesis
    using writes_flat_loop [OF flat n, of "length fs" env n "pb_encode env n" m] n field_count_le [of fs]
    by (simp add: begin_iter_at msg_ops_def)
qed

lemma msg_ops_append: "msg_ops (vs @ [x]) = msg_ops vs @ (case x of None \<Rightarrow> [] | Some v \<Rightarrow> [(length vs, v)])"
proof -
  have "map (\<lambda>i. case (vs @ [x]) ! i of None \<Rightarrow> [] | Some v \<Rightarrow> [(i, v)]) [0..<length vs] =
      map (\<lambda>i. case vs ! i of None \<Rightarrow> [] | Some v \<Rightarrow> [(i, v)]) [0..<length vs]"
    by (intro map_cong) (auto simp: nth_append)
  then show ?thesis by (simp only: msg_ops_def length_append_singleton upt_Suc_append map_append) simp
qed

text \<open>Applying the fields of a message to an empty one gives the message.\<close>

lemma apply_ops_append: "apply_ops ops (vs @ ws) = apply_ops ops vs @ ws" if "\<forall>(j, v) \<in> set ops. j < length vs"
  using that by (induction ops arbitrary: vs) (auto simp: apply_ops_def list_update_append)

lemma length_apply_ops [simp]: "length (apply_ops ops vs) = length vs"
  by (induction ops arbitrary: vs) (auto simp: apply_ops_def)

lemma apply_msg_ops: "apply_ops (msg_ops vs) (replicate (length vs) None) = vs \<and> (\<forall>(j, v) \<in> set (msg_ops vs). j < length vs)"
proof (induction vs rule: rev_induct)
  case Nil
  then show ?case by (simp add: msg_ops_def apply_ops_def)
next
  case (snoc x vs)
  have a: "apply_ops (msg_ops vs) (replicate (length vs) None @ [None]) = vs @ [None]"
    using apply_ops_append [of "msg_ops vs" "replicate (length vs) None" "[None]"] snoc by simp
  have "apply_ops (msg_ops (vs @ [x])) (replicate (length vs) None @ [None]) = vs @ [x]"
    using a by (cases x) (simp_all add: msg_ops_append apply_ops_def)
  then show ?case
    using snoc by (cases x) (auto simp: msg_ops_append replicate_append_same)
qed

lemma ok_msg_ops: "ok_ops fs (msg_ops (msg_value fs d m))"
proof -
  have "length v = data_size (field_at fs j)" if "(j, v) \<in> set (msg_ops (msg_value fs d m))" for j v
    using that by (auto simp: msg_ops_def nth_msg_value split: option.splits if_splits)
  then show ?thesis using apply_msg_ops [of "msg_value fs d m"] by (auto simp: ok_ops_def)
qed

subsection \<open>The size of an encoded field\<close>

lemma length_scalar_bytes: "scalar_field f \<Longrightarrow> length v = data_size f \<Longrightarrow> length (scalar_bytes f v) \<le> 10"
  using length_varint_buffer_le by (auto simp: scalar_bytes_def scalar_field_def Let_def pb_consts)

lemma length_field_bytes: "scalar_field f \<Longrightarrow> length v = data_size f \<Longrightarrow> length (field_bytes f v) \<le> 20"
  using length_scalar_bytes [of f v]
    length_varint_buffer_le [of "push_bit 3 (of_nat (tag f)) OR ucast (wire_type_for f)"]
  by (simp add: field_bytes_def tag_bytes_def)

lemma length_msg_bytes:
  assumes "flat_msg fs d"
  shows "length (ops_bytes fs (msg_ops (msg_value fs d m))) \<le> 20 * field_count fs"
proof -
  have "length (ops_bytes fs ops) \<le> 20 * length ops" if "ok_ops fs ops" for ops
    using that
  proof (induction ops)
    case (Cons x ops)
    then have "length (field_bytes (field_at fs (fst x)) (snd x)) \<le> 20"
      using assms by (intro length_field_bytes) (auto simp: ok_ops_def flat_msg_def)
    then show ?case using Cons by (simp add: ops_bytes_def ok_ops_def split: prod.splits)
  qed (simp add: ops_bytes_def)
  moreover have "length (msg_ops vs) \<le> length vs" for vs :: "u8 list option list"
    by (induction vs rule: rev_induct) (auto simp: msg_ops_append msg_ops_def [of "[]"] split: option.splits)
  ultimately show ?thesis
    using ok_msg_ops [of fs d m] by (metis le_trans length_msg_value mult_le_mono2)
qed

text \<open>Encoding and then decoding a message gives the message.\<close>

lemma flat_round_trip:
  assumes src: "flat_msg fs src" and d: "flat_msg fs d" and n: "20 * field_count fs < 2 ^ 64"
    and sp: "\<And>i. i < field_count fs \<Longrightarrow> field_slots fs d i \<inter> {sp c ..< sp c + 4} = {}"
  shows "\<exists>bs m'. length bs \<le> 20 * field_count fs \<and>
    (\<forall>cap \<ge> length bs. \<exists>s. pb_encode eenv (Suc k) (pb_ostream_from_buffer cap) fs src m = Some (True, s) \<and> contents s = bs) \<and>
    pb_decode env (Suc k) (pb_istream_from_buffer bs (length bs) :: 's pb_istream) fs d c =
      Some (True, bstream [] 0 None, c\<lparr>mem := m'\<rparr>) \<and>
    msg_value fs d m' = msg_value fs src m"
proof -
  let ?vs = "msg_value fs src m"
  let ?bs = "ops_bytes fs (msg_ops ?vs)"
  have len: "length ?bs \<le> 20 * field_count fs" "length ?bs < 2 ^ 64"
    using length_msg_bytes [OF src, of m] n by auto
  obtain m' where "pb_decode env (Suc k) (pb_istream_from_buffer ?bs (length ?bs) :: 's pb_istream) fs d c =
      Some (True, bstream [] 0 None, c\<lparr>mem := m'\<rparr>)" "msg_value fs d m' = ?vs"
    using flat_decode [OF d ok_msg_ops [of fs src m] sp, where env = env and n = k] apply_msg_ops [of ?vs] by auto
  moreover have "\<forall>cap \<ge> length ?bs. \<exists>s. pb_encode eenv (Suc k) (pb_ostream_from_buffer cap) fs src m = Some (True, s) \<and> contents s = ?bs"
    by (simp add: writes_to_buffer(1) [OF writes_flat_msg [OF src] len(2)] contents_written del: pb_encode.simps)
  ultimately show ?thesis using len(1) by blast
qed

end
