(* ===== verification/CctNanopb.thy ===== *)
theory CctNanopb
  imports PbTypes
begin

named_theorems cct_tags

text \<open>
  cct.nanopb.h and cct.nanopb.c, the messages the Google data transport sends: enumerations, the
  structs, their initialisers and tags, and the descriptor tables, all with the macros of pb.h.
\<close>

subsection \<open>Enumerations\<close>

datatype gdt_cct_NetworkConnectionInfo_NetworkType =
    gdt_cct_NetworkConnectionInfo_NetworkType_NONE
  | gdt_cct_NetworkConnectionInfo_NetworkType_MOBILE
  | gdt_cct_NetworkConnectionInfo_NetworkType_WIFI
  | gdt_cct_NetworkConnectionInfo_NetworkType_MOBILE_MMS
  | gdt_cct_NetworkConnectionInfo_NetworkType_MOBILE_SUPL
  | gdt_cct_NetworkConnectionInfo_NetworkType_MOBILE_DUN
  | gdt_cct_NetworkConnectionInfo_NetworkType_MOBILE_HIPRI
  | gdt_cct_NetworkConnectionInfo_NetworkType_WIMAX
  | gdt_cct_NetworkConnectionInfo_NetworkType_BLUETOOTH
  | gdt_cct_NetworkConnectionInfo_NetworkType_DUMMY
  | gdt_cct_NetworkConnectionInfo_NetworkType_ETHERNET
  | gdt_cct_NetworkConnectionInfo_NetworkType_MOBILE_FOTA
  | gdt_cct_NetworkConnectionInfo_NetworkType_MOBILE_IMS
  | gdt_cct_NetworkConnectionInfo_NetworkType_MOBILE_CBS
  | gdt_cct_NetworkConnectionInfo_NetworkType_WIFI_P2P
  | gdt_cct_NetworkConnectionInfo_NetworkType_MOBILE_IA
  | gdt_cct_NetworkConnectionInfo_NetworkType_MOBILE_EMERGENCY
  | gdt_cct_NetworkConnectionInfo_NetworkType_PROXY
  | gdt_cct_NetworkConnectionInfo_NetworkType_VPN

primrec gdt_cct_NetworkConnectionInfo_NetworkType_value :: "gdt_cct_NetworkConnectionInfo_NetworkType \<Rightarrow> int" where
  "gdt_cct_NetworkConnectionInfo_NetworkType_value gdt_cct_NetworkConnectionInfo_NetworkType_NONE = - 1"
| "gdt_cct_NetworkConnectionInfo_NetworkType_value gdt_cct_NetworkConnectionInfo_NetworkType_MOBILE = 0"
| "gdt_cct_NetworkConnectionInfo_NetworkType_value gdt_cct_NetworkConnectionInfo_NetworkType_WIFI = 1"
| "gdt_cct_NetworkConnectionInfo_NetworkType_value gdt_cct_NetworkConnectionInfo_NetworkType_MOBILE_MMS = 2"
| "gdt_cct_NetworkConnectionInfo_NetworkType_value gdt_cct_NetworkConnectionInfo_NetworkType_MOBILE_SUPL = 3"
| "gdt_cct_NetworkConnectionInfo_NetworkType_value gdt_cct_NetworkConnectionInfo_NetworkType_MOBILE_DUN = 4"
| "gdt_cct_NetworkConnectionInfo_NetworkType_value gdt_cct_NetworkConnectionInfo_NetworkType_MOBILE_HIPRI = 5"
| "gdt_cct_NetworkConnectionInfo_NetworkType_value gdt_cct_NetworkConnectionInfo_NetworkType_WIMAX = 6"
| "gdt_cct_NetworkConnectionInfo_NetworkType_value gdt_cct_NetworkConnectionInfo_NetworkType_BLUETOOTH = 7"
| "gdt_cct_NetworkConnectionInfo_NetworkType_value gdt_cct_NetworkConnectionInfo_NetworkType_DUMMY = 8"
| "gdt_cct_NetworkConnectionInfo_NetworkType_value gdt_cct_NetworkConnectionInfo_NetworkType_ETHERNET = 9"
| "gdt_cct_NetworkConnectionInfo_NetworkType_value gdt_cct_NetworkConnectionInfo_NetworkType_MOBILE_FOTA = 10"
| "gdt_cct_NetworkConnectionInfo_NetworkType_value gdt_cct_NetworkConnectionInfo_NetworkType_MOBILE_IMS = 11"
| "gdt_cct_NetworkConnectionInfo_NetworkType_value gdt_cct_NetworkConnectionInfo_NetworkType_MOBILE_CBS = 12"
| "gdt_cct_NetworkConnectionInfo_NetworkType_value gdt_cct_NetworkConnectionInfo_NetworkType_WIFI_P2P = 13"
| "gdt_cct_NetworkConnectionInfo_NetworkType_value gdt_cct_NetworkConnectionInfo_NetworkType_MOBILE_IA = 14"
| "gdt_cct_NetworkConnectionInfo_NetworkType_value gdt_cct_NetworkConnectionInfo_NetworkType_MOBILE_EMERGENCY = 15"
| "gdt_cct_NetworkConnectionInfo_NetworkType_value gdt_cct_NetworkConnectionInfo_NetworkType_PROXY = 16"
| "gdt_cct_NetworkConnectionInfo_NetworkType_value gdt_cct_NetworkConnectionInfo_NetworkType_VPN = 17"

definition gdt_cct_NetworkConnectionInfo_NetworkType_MIN :: gdt_cct_NetworkConnectionInfo_NetworkType where "gdt_cct_NetworkConnectionInfo_NetworkType_MIN = gdt_cct_NetworkConnectionInfo_NetworkType_NONE"
definition gdt_cct_NetworkConnectionInfo_NetworkType_MAX :: gdt_cct_NetworkConnectionInfo_NetworkType where "gdt_cct_NetworkConnectionInfo_NetworkType_MAX = gdt_cct_NetworkConnectionInfo_NetworkType_VPN"
definition gdt_cct_NetworkConnectionInfo_NetworkType_ARRAYSIZE :: int where "gdt_cct_NetworkConnectionInfo_NetworkType_ARRAYSIZE = gdt_cct_NetworkConnectionInfo_NetworkType_value gdt_cct_NetworkConnectionInfo_NetworkType_VPN + 1"

datatype gdt_cct_NetworkConnectionInfo_MobileSubtype =
    gdt_cct_NetworkConnectionInfo_MobileSubtype_UNKNOWN_MOBILE_SUBTYPE
  | gdt_cct_NetworkConnectionInfo_MobileSubtype_GPRS
  | gdt_cct_NetworkConnectionInfo_MobileSubtype_EDGE
  | gdt_cct_NetworkConnectionInfo_MobileSubtype_UMTS
  | gdt_cct_NetworkConnectionInfo_MobileSubtype_CDMA
  | gdt_cct_NetworkConnectionInfo_MobileSubtype_EVDO_0
  | gdt_cct_NetworkConnectionInfo_MobileSubtype_EVDO_A
  | gdt_cct_NetworkConnectionInfo_MobileSubtype_RTT
  | gdt_cct_NetworkConnectionInfo_MobileSubtype_HSDPA
  | gdt_cct_NetworkConnectionInfo_MobileSubtype_HSUPA
  | gdt_cct_NetworkConnectionInfo_MobileSubtype_HSPA
  | gdt_cct_NetworkConnectionInfo_MobileSubtype_IDEN
  | gdt_cct_NetworkConnectionInfo_MobileSubtype_EVDO_B
  | gdt_cct_NetworkConnectionInfo_MobileSubtype_LTE
  | gdt_cct_NetworkConnectionInfo_MobileSubtype_EHRPD
  | gdt_cct_NetworkConnectionInfo_MobileSubtype_HSPAP
  | gdt_cct_NetworkConnectionInfo_MobileSubtype_GSM
  | gdt_cct_NetworkConnectionInfo_MobileSubtype_TD_SCDMA
  | gdt_cct_NetworkConnectionInfo_MobileSubtype_IWLAN
  | gdt_cct_NetworkConnectionInfo_MobileSubtype_LTE_CA
  | gdt_cct_NetworkConnectionInfo_MobileSubtype_COMBINED

primrec gdt_cct_NetworkConnectionInfo_MobileSubtype_value :: "gdt_cct_NetworkConnectionInfo_MobileSubtype \<Rightarrow> int" where
  "gdt_cct_NetworkConnectionInfo_MobileSubtype_value gdt_cct_NetworkConnectionInfo_MobileSubtype_UNKNOWN_MOBILE_SUBTYPE = 0"
| "gdt_cct_NetworkConnectionInfo_MobileSubtype_value gdt_cct_NetworkConnectionInfo_MobileSubtype_GPRS = 1"
| "gdt_cct_NetworkConnectionInfo_MobileSubtype_value gdt_cct_NetworkConnectionInfo_MobileSubtype_EDGE = 2"
| "gdt_cct_NetworkConnectionInfo_MobileSubtype_value gdt_cct_NetworkConnectionInfo_MobileSubtype_UMTS = 3"
| "gdt_cct_NetworkConnectionInfo_MobileSubtype_value gdt_cct_NetworkConnectionInfo_MobileSubtype_CDMA = 4"
| "gdt_cct_NetworkConnectionInfo_MobileSubtype_value gdt_cct_NetworkConnectionInfo_MobileSubtype_EVDO_0 = 5"
| "gdt_cct_NetworkConnectionInfo_MobileSubtype_value gdt_cct_NetworkConnectionInfo_MobileSubtype_EVDO_A = 6"
| "gdt_cct_NetworkConnectionInfo_MobileSubtype_value gdt_cct_NetworkConnectionInfo_MobileSubtype_RTT = 7"
| "gdt_cct_NetworkConnectionInfo_MobileSubtype_value gdt_cct_NetworkConnectionInfo_MobileSubtype_HSDPA = 8"
| "gdt_cct_NetworkConnectionInfo_MobileSubtype_value gdt_cct_NetworkConnectionInfo_MobileSubtype_HSUPA = 9"
| "gdt_cct_NetworkConnectionInfo_MobileSubtype_value gdt_cct_NetworkConnectionInfo_MobileSubtype_HSPA = 10"
| "gdt_cct_NetworkConnectionInfo_MobileSubtype_value gdt_cct_NetworkConnectionInfo_MobileSubtype_IDEN = 11"
| "gdt_cct_NetworkConnectionInfo_MobileSubtype_value gdt_cct_NetworkConnectionInfo_MobileSubtype_EVDO_B = 12"
| "gdt_cct_NetworkConnectionInfo_MobileSubtype_value gdt_cct_NetworkConnectionInfo_MobileSubtype_LTE = 13"
| "gdt_cct_NetworkConnectionInfo_MobileSubtype_value gdt_cct_NetworkConnectionInfo_MobileSubtype_EHRPD = 14"
| "gdt_cct_NetworkConnectionInfo_MobileSubtype_value gdt_cct_NetworkConnectionInfo_MobileSubtype_HSPAP = 15"
| "gdt_cct_NetworkConnectionInfo_MobileSubtype_value gdt_cct_NetworkConnectionInfo_MobileSubtype_GSM = 16"
| "gdt_cct_NetworkConnectionInfo_MobileSubtype_value gdt_cct_NetworkConnectionInfo_MobileSubtype_TD_SCDMA = 17"
| "gdt_cct_NetworkConnectionInfo_MobileSubtype_value gdt_cct_NetworkConnectionInfo_MobileSubtype_IWLAN = 18"
| "gdt_cct_NetworkConnectionInfo_MobileSubtype_value gdt_cct_NetworkConnectionInfo_MobileSubtype_LTE_CA = 19"
| "gdt_cct_NetworkConnectionInfo_MobileSubtype_value gdt_cct_NetworkConnectionInfo_MobileSubtype_COMBINED = 100"

definition gdt_cct_NetworkConnectionInfo_MobileSubtype_MIN :: gdt_cct_NetworkConnectionInfo_MobileSubtype where "gdt_cct_NetworkConnectionInfo_MobileSubtype_MIN = gdt_cct_NetworkConnectionInfo_MobileSubtype_UNKNOWN_MOBILE_SUBTYPE"
definition gdt_cct_NetworkConnectionInfo_MobileSubtype_MAX :: gdt_cct_NetworkConnectionInfo_MobileSubtype where "gdt_cct_NetworkConnectionInfo_MobileSubtype_MAX = gdt_cct_NetworkConnectionInfo_MobileSubtype_COMBINED"
definition gdt_cct_NetworkConnectionInfo_MobileSubtype_ARRAYSIZE :: int where "gdt_cct_NetworkConnectionInfo_MobileSubtype_ARRAYSIZE = gdt_cct_NetworkConnectionInfo_MobileSubtype_value gdt_cct_NetworkConnectionInfo_MobileSubtype_COMBINED + 1"

datatype gdt_cct_ClientInfo_ClientType =
    gdt_cct_ClientInfo_ClientType_CLIENT_UNKNOWN
  | gdt_cct_ClientInfo_ClientType_IOS_FIREBASE

primrec gdt_cct_ClientInfo_ClientType_value :: "gdt_cct_ClientInfo_ClientType \<Rightarrow> int" where
  "gdt_cct_ClientInfo_ClientType_value gdt_cct_ClientInfo_ClientType_CLIENT_UNKNOWN = 0"
| "gdt_cct_ClientInfo_ClientType_value gdt_cct_ClientInfo_ClientType_IOS_FIREBASE = 15"

definition gdt_cct_ClientInfo_ClientType_MIN :: gdt_cct_ClientInfo_ClientType where "gdt_cct_ClientInfo_ClientType_MIN = gdt_cct_ClientInfo_ClientType_CLIENT_UNKNOWN"
definition gdt_cct_ClientInfo_ClientType_MAX :: gdt_cct_ClientInfo_ClientType where "gdt_cct_ClientInfo_ClientType_MAX = gdt_cct_ClientInfo_ClientType_IOS_FIREBASE"
definition gdt_cct_ClientInfo_ClientType_ARRAYSIZE :: int where "gdt_cct_ClientInfo_ClientType_ARRAYSIZE = gdt_cct_ClientInfo_ClientType_value gdt_cct_ClientInfo_ClientType_IOS_FIREBASE + 1"

datatype gdt_cct_QosTierConfiguration_QosTier =
    gdt_cct_QosTierConfiguration_QosTier_DEFAULT
  | gdt_cct_QosTierConfiguration_QosTier_UNMETERED_ONLY
  | gdt_cct_QosTierConfiguration_QosTier_UNMETERED_OR_DAILY
  | gdt_cct_QosTierConfiguration_QosTier_FAST_IF_RADIO_AWAKE
  | gdt_cct_QosTierConfiguration_QosTier_NEVER

primrec gdt_cct_QosTierConfiguration_QosTier_value :: "gdt_cct_QosTierConfiguration_QosTier \<Rightarrow> int" where
  "gdt_cct_QosTierConfiguration_QosTier_value gdt_cct_QosTierConfiguration_QosTier_DEFAULT = 0"
| "gdt_cct_QosTierConfiguration_QosTier_value gdt_cct_QosTierConfiguration_QosTier_UNMETERED_ONLY = 1"
| "gdt_cct_QosTierConfiguration_QosTier_value gdt_cct_QosTierConfiguration_QosTier_UNMETERED_OR_DAILY = 2"
| "gdt_cct_QosTierConfiguration_QosTier_value gdt_cct_QosTierConfiguration_QosTier_FAST_IF_RADIO_AWAKE = 3"
| "gdt_cct_QosTierConfiguration_QosTier_value gdt_cct_QosTierConfiguration_QosTier_NEVER = 4"

definition gdt_cct_QosTierConfiguration_QosTier_MIN :: gdt_cct_QosTierConfiguration_QosTier where "gdt_cct_QosTierConfiguration_QosTier_MIN = gdt_cct_QosTierConfiguration_QosTier_DEFAULT"
definition gdt_cct_QosTierConfiguration_QosTier_MAX :: gdt_cct_QosTierConfiguration_QosTier where "gdt_cct_QosTierConfiguration_QosTier_MAX = gdt_cct_QosTierConfiguration_QosTier_NEVER"
definition gdt_cct_QosTierConfiguration_QosTier_ARRAYSIZE :: int where "gdt_cct_QosTierConfiguration_QosTier_ARRAYSIZE = gdt_cct_QosTierConfiguration_QosTier_value gdt_cct_QosTierConfiguration_QosTier_NEVER + 1"

subsection \<open>Message structs\<close>

definition gdt_cct_IosClientInfo :: cstruct where
  "gdt_cct_IosClientInfo =
    [ptr_to ''os_major_version'' sizeof_pb_bytes_array,
     ptr_to ''os_full_version'' sizeof_pb_bytes_array,
     ptr_to ''application_build'' sizeof_pb_bytes_array,
     ptr_to ''country'' sizeof_pb_bytes_array,
     ptr_to ''model'' sizeof_pb_bytes_array,
     ptr_to ''language_code'' sizeof_pb_bytes_array,
     ptr_to ''application_bundle_id'' sizeof_pb_bytes_array]"

definition gdt_cct_ClientInfo :: cstruct where
  "gdt_cct_ClientInfo =
    [scalar ''has_client_type'' 1,
     scalar ''client_type'' 4,
     scalar ''has_ios_client_info'' 1,
     nested ''ios_client_info'' gdt_cct_IosClientInfo]"

definition gdt_cct_NetworkConnectionInfo :: cstruct where
  "gdt_cct_NetworkConnectionInfo =
    [scalar ''has_network_type'' 1,
     scalar ''network_type'' 4,
     scalar ''has_mobile_subtype'' 1,
     scalar ''mobile_subtype'' 4]"

definition gdt_cct_LogEvent :: cstruct where
  "gdt_cct_LogEvent =
    [scalar ''has_event_time_ms'' 1,
     scalar ''event_time_ms'' 8,
     ptr_to ''source_extension'' sizeof_pb_bytes_array,
     scalar ''has_event_code'' 1,
     scalar ''event_code'' 4,
     scalar ''has_timezone_offset_seconds'' 1,
     scalar ''timezone_offset_seconds'' 8,
     scalar ''has_event_uptime_ms'' 1,
     scalar ''event_uptime_ms'' 8,
     scalar ''has_network_connection_info'' 1,
     nested ''network_connection_info'' gdt_cct_NetworkConnectionInfo]"

definition gdt_cct_LogRequest :: cstruct where
  "gdt_cct_LogRequest =
    [scalar ''has_client_info'' 1,
     nested ''client_info'' gdt_cct_ClientInfo,
     scalar ''has_log_source'' 1,
     scalar ''log_source'' 4,
     scalar ''log_event_count'' 4,
     ptr_to ''log_event'' (struct_size gdt_cct_LogEvent),
     scalar ''has_request_time_ms'' 1,
     scalar ''request_time_ms'' 8,
     scalar ''has_request_uptime_ms'' 1,
     scalar ''request_uptime_ms'' 8,
     scalar ''has_qos_tier'' 1,
     scalar ''qos_tier'' 4]"

definition gdt_cct_BatchedLogRequest :: cstruct where
  "gdt_cct_BatchedLogRequest =
    [scalar ''log_request_count'' 4,
     ptr_to ''log_request'' (struct_size gdt_cct_LogRequest)]"

definition gdt_cct_QosTierConfiguration :: cstruct where
  "gdt_cct_QosTierConfiguration =
    [scalar ''has_qos_tier'' 1,
     scalar ''qos_tier'' 4,
     scalar ''has_log_source'' 1,
     scalar ''log_source'' 4]"

definition gdt_cct_QosTiersOverride :: cstruct where
  "gdt_cct_QosTiersOverride =
    [scalar ''qos_tier_configuration_count'' 4,
     ptr_to ''qos_tier_configuration'' (struct_size gdt_cct_QosTierConfiguration),
     scalar ''has_qos_tier_fingerprint'' 1,
     scalar ''qos_tier_fingerprint'' 8]"

definition gdt_cct_LogResponse :: cstruct where
  "gdt_cct_LogResponse =
    [scalar ''has_next_request_wait_millis'' 1,
     scalar ''next_request_wait_millis'' 8,
     scalar ''has_qos_tier'' 1,
     nested ''qos_tier'' gdt_cct_QosTiersOverride]"

subsection \<open>Initialisers\<close>

text \<open>\<open>false\<close>, \<open>0\<close> and \<open>NULL\<close> are 0.\<close>

definition gdt_cct_NetworkConnectionInfo_init_default :: cinit where
  "gdt_cct_NetworkConnectionInfo_init_default =
    Struct_init [Init 0,
      Init (gdt_cct_NetworkConnectionInfo_NetworkType_value gdt_cct_NetworkConnectionInfo_NetworkType_NONE),
      Init 0,
      Init (gdt_cct_NetworkConnectionInfo_MobileSubtype_value gdt_cct_NetworkConnectionInfo_MobileSubtype_UNKNOWN_MOBILE_SUBTYPE)]"

definition gdt_cct_LogEvent_init_default :: cinit where
  "gdt_cct_LogEvent_init_default =
    Struct_init [Init 0,
      Init 0,
      Init 0,
      Init 0,
      Init 0,
      Init 0,
      Init 0,
      Init 0,
      Init 0,
      Init 0,
      gdt_cct_NetworkConnectionInfo_init_default]"

definition gdt_cct_IosClientInfo_init_default :: cinit where
  "gdt_cct_IosClientInfo_init_default =
    Struct_init [Init 0,
      Init 0,
      Init 0,
      Init 0,
      Init 0,
      Init 0,
      Init 0]"

definition gdt_cct_ClientInfo_init_default :: cinit where
  "gdt_cct_ClientInfo_init_default =
    Struct_init [Init 0,
      Init (gdt_cct_ClientInfo_ClientType_value gdt_cct_ClientInfo_ClientType_MIN),
      Init 0,
      gdt_cct_IosClientInfo_init_default]"

definition gdt_cct_BatchedLogRequest_init_default :: cinit where
  "gdt_cct_BatchedLogRequest_init_default =
    Struct_init [Init 0,
      Init 0]"

definition gdt_cct_LogRequest_init_default :: cinit where
  "gdt_cct_LogRequest_init_default =
    Struct_init [Init 0,
      gdt_cct_ClientInfo_init_default,
      Init 0,
      Init 0,
      Init 0,
      Init 0,
      Init 0,
      Init 0,
      Init 0,
      Init 0,
      Init 0,
      Init (gdt_cct_QosTierConfiguration_QosTier_value gdt_cct_QosTierConfiguration_QosTier_DEFAULT)]"

definition gdt_cct_QosTierConfiguration_init_default :: cinit where
  "gdt_cct_QosTierConfiguration_init_default =
    Struct_init [Init 0,
      Init (gdt_cct_QosTierConfiguration_QosTier_value gdt_cct_QosTierConfiguration_QosTier_MIN),
      Init 0,
      Init 0]"

definition gdt_cct_QosTiersOverride_init_default :: cinit where
  "gdt_cct_QosTiersOverride_init_default =
    Struct_init [Init 0,
      Init 0,
      Init 0,
      Init 0]"

definition gdt_cct_LogResponse_init_default :: cinit where
  "gdt_cct_LogResponse_init_default =
    Struct_init [Init 0,
      Init 0,
      Init 0,
      gdt_cct_QosTiersOverride_init_default]"

definition gdt_cct_NetworkConnectionInfo_init_zero :: cinit where
  "gdt_cct_NetworkConnectionInfo_init_zero =
    Struct_init [Init 0,
      Init (gdt_cct_NetworkConnectionInfo_NetworkType_value gdt_cct_NetworkConnectionInfo_NetworkType_MIN),
      Init 0,
      Init (gdt_cct_NetworkConnectionInfo_MobileSubtype_value gdt_cct_NetworkConnectionInfo_MobileSubtype_MIN)]"

definition gdt_cct_LogEvent_init_zero :: cinit where
  "gdt_cct_LogEvent_init_zero =
    Struct_init [Init 0,
      Init 0,
      Init 0,
      Init 0,
      Init 0,
      Init 0,
      Init 0,
      Init 0,
      Init 0,
      Init 0,
      gdt_cct_NetworkConnectionInfo_init_zero]"

definition gdt_cct_IosClientInfo_init_zero :: cinit where
  "gdt_cct_IosClientInfo_init_zero =
    Struct_init [Init 0,
      Init 0,
      Init 0,
      Init 0,
      Init 0,
      Init 0,
      Init 0]"

definition gdt_cct_ClientInfo_init_zero :: cinit where
  "gdt_cct_ClientInfo_init_zero =
    Struct_init [Init 0,
      Init (gdt_cct_ClientInfo_ClientType_value gdt_cct_ClientInfo_ClientType_MIN),
      Init 0,
      gdt_cct_IosClientInfo_init_zero]"

definition gdt_cct_BatchedLogRequest_init_zero :: cinit where
  "gdt_cct_BatchedLogRequest_init_zero =
    Struct_init [Init 0,
      Init 0]"

definition gdt_cct_LogRequest_init_zero :: cinit where
  "gdt_cct_LogRequest_init_zero =
    Struct_init [Init 0,
      gdt_cct_ClientInfo_init_zero,
      Init 0,
      Init 0,
      Init 0,
      Init 0,
      Init 0,
      Init 0,
      Init 0,
      Init 0,
      Init 0,
      Init (gdt_cct_QosTierConfiguration_QosTier_value gdt_cct_QosTierConfiguration_QosTier_MIN)]"

definition gdt_cct_QosTierConfiguration_init_zero :: cinit where
  "gdt_cct_QosTierConfiguration_init_zero =
    Struct_init [Init 0,
      Init (gdt_cct_QosTierConfiguration_QosTier_value gdt_cct_QosTierConfiguration_QosTier_MIN),
      Init 0,
      Init 0]"

definition gdt_cct_QosTiersOverride_init_zero :: cinit where
  "gdt_cct_QosTiersOverride_init_zero =
    Struct_init [Init 0,
      Init 0,
      Init 0,
      Init 0]"

definition gdt_cct_LogResponse_init_zero :: cinit where
  "gdt_cct_LogResponse_init_zero =
    Struct_init [Init 0,
      Init 0,
      Init 0,
      gdt_cct_QosTiersOverride_init_zero]"

subsection \<open>Default values\<close>

text \<open>Constants in memory, of four bytes each.\<close>

definition gdt_cct_NetworkConnectionInfo_network_type_default :: u32 where "gdt_cct_NetworkConnectionInfo_network_type_default = of_int (gdt_cct_NetworkConnectionInfo_NetworkType_value gdt_cct_NetworkConnectionInfo_NetworkType_NONE)"

definition gdt_cct_NetworkConnectionInfo_mobile_subtype_default :: u32 where "gdt_cct_NetworkConnectionInfo_mobile_subtype_default = of_int (gdt_cct_NetworkConnectionInfo_MobileSubtype_value gdt_cct_NetworkConnectionInfo_MobileSubtype_UNKNOWN_MOBILE_SUBTYPE)"

definition gdt_cct_LogRequest_qos_tier_default :: u32 where "gdt_cct_LogRequest_qos_tier_default = of_int (gdt_cct_QosTierConfiguration_QosTier_value gdt_cct_QosTierConfiguration_QosTier_DEFAULT)"

definition gdt_cct_QosTierConfiguration_log_source_default :: u32 where "gdt_cct_QosTierConfiguration_log_source_default = 0"

subsection \<open>Field tags\<close>

definition gdt_cct_BatchedLogRequest_log_request_tag :: nat where [cct_tags]: "gdt_cct_BatchedLogRequest_log_request_tag = 1"
definition gdt_cct_IosClientInfo_os_major_version_tag :: nat where [cct_tags]: "gdt_cct_IosClientInfo_os_major_version_tag = 3"
definition gdt_cct_IosClientInfo_os_full_version_tag :: nat where [cct_tags]: "gdt_cct_IosClientInfo_os_full_version_tag = 4"
definition gdt_cct_IosClientInfo_application_build_tag :: nat where [cct_tags]: "gdt_cct_IosClientInfo_application_build_tag = 5"
definition gdt_cct_IosClientInfo_country_tag :: nat where [cct_tags]: "gdt_cct_IosClientInfo_country_tag = 6"
definition gdt_cct_IosClientInfo_model_tag :: nat where [cct_tags]: "gdt_cct_IosClientInfo_model_tag = 7"
definition gdt_cct_IosClientInfo_language_code_tag :: nat where [cct_tags]: "gdt_cct_IosClientInfo_language_code_tag = 8"
definition gdt_cct_IosClientInfo_application_bundle_id_tag :: nat where [cct_tags]: "gdt_cct_IosClientInfo_application_bundle_id_tag = 11"
definition gdt_cct_ClientInfo_client_type_tag :: nat where [cct_tags]: "gdt_cct_ClientInfo_client_type_tag = 1"
definition gdt_cct_ClientInfo_ios_client_info_tag :: nat where [cct_tags]: "gdt_cct_ClientInfo_ios_client_info_tag = 4"
definition gdt_cct_NetworkConnectionInfo_network_type_tag :: nat where [cct_tags]: "gdt_cct_NetworkConnectionInfo_network_type_tag = 1"
definition gdt_cct_NetworkConnectionInfo_mobile_subtype_tag :: nat where [cct_tags]: "gdt_cct_NetworkConnectionInfo_mobile_subtype_tag = 2"
definition gdt_cct_QosTierConfiguration_qos_tier_tag :: nat where [cct_tags]: "gdt_cct_QosTierConfiguration_qos_tier_tag = 2"
definition gdt_cct_QosTierConfiguration_log_source_tag :: nat where [cct_tags]: "gdt_cct_QosTierConfiguration_log_source_tag = 3"
definition gdt_cct_QosTiersOverride_qos_tier_configuration_tag :: nat where [cct_tags]: "gdt_cct_QosTiersOverride_qos_tier_configuration_tag = 1"
definition gdt_cct_QosTiersOverride_qos_tier_fingerprint_tag :: nat where [cct_tags]: "gdt_cct_QosTiersOverride_qos_tier_fingerprint_tag = 2"
definition gdt_cct_LogEvent_event_time_ms_tag :: nat where [cct_tags]: "gdt_cct_LogEvent_event_time_ms_tag = 1"
definition gdt_cct_LogEvent_event_code_tag :: nat where [cct_tags]: "gdt_cct_LogEvent_event_code_tag = 11"
definition gdt_cct_LogEvent_event_uptime_ms_tag :: nat where [cct_tags]: "gdt_cct_LogEvent_event_uptime_ms_tag = 17"
definition gdt_cct_LogEvent_source_extension_tag :: nat where [cct_tags]: "gdt_cct_LogEvent_source_extension_tag = 6"
definition gdt_cct_LogEvent_timezone_offset_seconds_tag :: nat where [cct_tags]: "gdt_cct_LogEvent_timezone_offset_seconds_tag = 15"
definition gdt_cct_LogEvent_network_connection_info_tag :: nat where [cct_tags]: "gdt_cct_LogEvent_network_connection_info_tag = 23"
definition gdt_cct_LogRequest_request_time_ms_tag :: nat where [cct_tags]: "gdt_cct_LogRequest_request_time_ms_tag = 4"
definition gdt_cct_LogRequest_request_uptime_ms_tag :: nat where [cct_tags]: "gdt_cct_LogRequest_request_uptime_ms_tag = 8"
definition gdt_cct_LogRequest_client_info_tag :: nat where [cct_tags]: "gdt_cct_LogRequest_client_info_tag = 1"
definition gdt_cct_LogRequest_log_source_tag :: nat where [cct_tags]: "gdt_cct_LogRequest_log_source_tag = 2"
definition gdt_cct_LogRequest_log_event_tag :: nat where [cct_tags]: "gdt_cct_LogRequest_log_event_tag = 3"
definition gdt_cct_LogRequest_qos_tier_tag :: nat where [cct_tags]: "gdt_cct_LogRequest_qos_tier_tag = 9"
definition gdt_cct_LogResponse_next_request_wait_millis_tag :: nat where [cct_tags]: "gdt_cct_LogResponse_next_request_wait_millis_tag = 1"
definition gdt_cct_LogResponse_qos_tier_tag :: nat where [cct_tags]: "gdt_cct_LogResponse_qos_tier_tag = 3"

subsection \<open>Descriptor tables\<close>

text \<open>\<open>A\<close> gives the addresses the linker chose for the tables and default values.\<close>

definition gdt_cct_LogEvent_fields :: "(string \<Rightarrow> nat) \<Rightarrow> pb_field list" where
  "gdt_cct_LogEvent_fields A =
    [PB_FIELD 1 INT64 OPTIONAL STATIC FIRST gdt_cct_LogEvent ''event_time_ms'' ''event_time_ms'' 0,
     PB_FIELD 6 BYTES OPTIONAL POINTER OTHER gdt_cct_LogEvent ''source_extension'' ''event_time_ms'' 0,
     PB_FIELD 11 INT32 OPTIONAL STATIC OTHER gdt_cct_LogEvent ''event_code'' ''source_extension'' 0,
     PB_FIELD 15 SINT64 OPTIONAL STATIC OTHER gdt_cct_LogEvent ''timezone_offset_seconds'' ''event_code'' 0,
     PB_FIELD 17 INT64 OPTIONAL STATIC OTHER gdt_cct_LogEvent ''event_uptime_ms'' ''timezone_offset_seconds'' 0,
     PB_FIELD 23 MESSAGE OPTIONAL STATIC OTHER gdt_cct_LogEvent ''network_connection_info'' ''event_uptime_ms'' (A ''gdt_cct_NetworkConnectionInfo_fields''),
     PB_LAST_FIELD]"

definition gdt_cct_NetworkConnectionInfo_fields :: "(string \<Rightarrow> nat) \<Rightarrow> pb_field list" where
  "gdt_cct_NetworkConnectionInfo_fields A =
    [PB_FIELD 1 ENUM OPTIONAL STATIC FIRST gdt_cct_NetworkConnectionInfo ''network_type'' ''network_type'' (A ''gdt_cct_NetworkConnectionInfo_network_type_default''),
     PB_FIELD 2 UENUM OPTIONAL STATIC OTHER gdt_cct_NetworkConnectionInfo ''mobile_subtype'' ''network_type'' (A ''gdt_cct_NetworkConnectionInfo_mobile_subtype_default''),
     PB_LAST_FIELD]"

definition gdt_cct_IosClientInfo_fields :: "(string \<Rightarrow> nat) \<Rightarrow> pb_field list" where
  "gdt_cct_IosClientInfo_fields A =
    [PB_FIELD 3 BYTES OPTIONAL POINTER FIRST gdt_cct_IosClientInfo ''os_major_version'' ''os_major_version'' 0,
     PB_FIELD 4 BYTES OPTIONAL POINTER OTHER gdt_cct_IosClientInfo ''os_full_version'' ''os_major_version'' 0,
     PB_FIELD 5 BYTES OPTIONAL POINTER OTHER gdt_cct_IosClientInfo ''application_build'' ''os_full_version'' 0,
     PB_FIELD 6 BYTES OPTIONAL POINTER OTHER gdt_cct_IosClientInfo ''country'' ''application_build'' 0,
     PB_FIELD 7 BYTES OPTIONAL POINTER OTHER gdt_cct_IosClientInfo ''model'' ''country'' 0,
     PB_FIELD 8 BYTES OPTIONAL POINTER OTHER gdt_cct_IosClientInfo ''language_code'' ''model'' 0,
     PB_FIELD 11 BYTES OPTIONAL POINTER OTHER gdt_cct_IosClientInfo ''application_bundle_id'' ''language_code'' 0,
     PB_LAST_FIELD]"

definition gdt_cct_ClientInfo_fields :: "(string \<Rightarrow> nat) \<Rightarrow> pb_field list" where
  "gdt_cct_ClientInfo_fields A =
    [PB_FIELD 1 UENUM OPTIONAL STATIC FIRST gdt_cct_ClientInfo ''client_type'' ''client_type'' 0,
     PB_FIELD 4 MESSAGE OPTIONAL STATIC OTHER gdt_cct_ClientInfo ''ios_client_info'' ''client_type'' (A ''gdt_cct_IosClientInfo_fields''),
     PB_LAST_FIELD]"

definition gdt_cct_BatchedLogRequest_fields :: "(string \<Rightarrow> nat) \<Rightarrow> pb_field list" where
  "gdt_cct_BatchedLogRequest_fields A =
    [PB_FIELD 1 MESSAGE REPEATED POINTER FIRST gdt_cct_BatchedLogRequest ''log_request'' ''log_request'' (A ''gdt_cct_LogRequest_fields''),
     PB_LAST_FIELD]"

definition gdt_cct_LogRequest_fields :: "(string \<Rightarrow> nat) \<Rightarrow> pb_field list" where
  "gdt_cct_LogRequest_fields A =
    [PB_FIELD 1 MESSAGE OPTIONAL STATIC FIRST gdt_cct_LogRequest ''client_info'' ''client_info'' (A ''gdt_cct_ClientInfo_fields''),
     PB_FIELD 2 INT32 OPTIONAL STATIC OTHER gdt_cct_LogRequest ''log_source'' ''client_info'' 0,
     PB_FIELD 3 MESSAGE REPEATED POINTER OTHER gdt_cct_LogRequest ''log_event'' ''log_source'' (A ''gdt_cct_LogEvent_fields''),
     PB_FIELD 4 INT64 OPTIONAL STATIC OTHER gdt_cct_LogRequest ''request_time_ms'' ''log_event'' 0,
     PB_FIELD 8 INT64 OPTIONAL STATIC OTHER gdt_cct_LogRequest ''request_uptime_ms'' ''request_time_ms'' 0,
     PB_FIELD 9 UENUM OPTIONAL STATIC OTHER gdt_cct_LogRequest ''qos_tier'' ''request_uptime_ms'' (A ''gdt_cct_LogRequest_qos_tier_default''),
     PB_LAST_FIELD]"

definition gdt_cct_QosTierConfiguration_fields :: "(string \<Rightarrow> nat) \<Rightarrow> pb_field list" where
  "gdt_cct_QosTierConfiguration_fields A =
    [PB_FIELD 2 UENUM OPTIONAL STATIC FIRST gdt_cct_QosTierConfiguration ''qos_tier'' ''qos_tier'' 0,
     PB_FIELD 3 INT32 OPTIONAL STATIC OTHER gdt_cct_QosTierConfiguration ''log_source'' ''qos_tier'' (A ''gdt_cct_QosTierConfiguration_log_source_default''),
     PB_LAST_FIELD]"

definition gdt_cct_QosTiersOverride_fields :: "(string \<Rightarrow> nat) \<Rightarrow> pb_field list" where
  "gdt_cct_QosTiersOverride_fields A =
    [PB_FIELD 1 MESSAGE REPEATED POINTER FIRST gdt_cct_QosTiersOverride ''qos_tier_configuration'' ''qos_tier_configuration'' (A ''gdt_cct_QosTierConfiguration_fields''),
     PB_FIELD 2 INT64 OPTIONAL STATIC OTHER gdt_cct_QosTiersOverride ''qos_tier_fingerprint'' ''qos_tier_configuration'' 0,
     PB_LAST_FIELD]"

definition gdt_cct_LogResponse_fields :: "(string \<Rightarrow> nat) \<Rightarrow> pb_field list" where
  "gdt_cct_LogResponse_fields A =
    [PB_FIELD 1 INT64 OPTIONAL STATIC FIRST gdt_cct_LogResponse ''next_request_wait_millis'' ''next_request_wait_millis'' 0,
     PB_FIELD 3 MESSAGE OPTIONAL STATIC OTHER gdt_cct_LogResponse ''qos_tier'' ''next_request_wait_millis'' (A ''gdt_cct_QosTiersOverride_fields''),
     PB_LAST_FIELD]"

definition gdt_cct_NetworkConnectionInfo_size :: nat where "gdt_cct_NetworkConnectionInfo_size = 13"
definition gdt_cct_QosTierConfiguration_size :: nat where "gdt_cct_QosTierConfiguration_size = 13"

end
