(* ===== verification/Layout.thy ===== *)
theory Layout
  imports CctNanopb FirebaseCoreNanopb PbSafety
begin

text \<open>
  The descriptor tables against the structs they describe. \<open>table_fits\<close> compares, by evaluation,
  the addresses the iterator of pb_common.c computes from a table with \<open>offsetof\<close> of the struct;
  every table of cct.nanopb.c and firebasecore.nanopb.c passes. What follows from it: at every
  address of the struct the iterator points at the member of the field and at its count or
  has-flag, and searching for a tag finds its field.
\<close>

named_theorems table_fits

primrec walk :: "nat \<Rightarrow> pb_field_iter \<Rightarrow> pb_field_iter list" where
  "walk 0 it = []"
| "walk (Suc n) it = it # walk n (snd (pb_field_iter_next it))"

definition fits_at :: "pb_field_iter \<Rightarrow> nat \<times> nat \<times> nat \<Rightarrow> bool" where
  "fits_at it = (\<lambda>(t, p, sp).
     let f = iter_field it in
     tag f = t \<and> pData it = p \<and> pSize it = sp \<and>
     0 \<le> int (pData it) + size_offset f \<and> PB_HTYPE (ftype f) \<noteq> PB_HTYPE_ONEOF \<and>
     PB_LTYPE (ftype f) \<noteq> PB_LTYPE_EXTENSION)"

definition table_fits :: "pb_field list \<Rightarrow> cstruct \<Rightarrow> (nat \<times> string \<times> string) list \<Rightarrow> bool" where
  "table_fits fs st ms \<longleftrightarrow> field_count fs = length ms \<and> sorted_wrt (<) (map fst ms) \<and>
     list_all2 fits_at (walk (length ms) (snd (pb_field_iter_begin fs 0)))
       (map (\<lambda>(t, m, sm). (t, offsetof st m, offsetof st sm)) ms)"

subsection \<open>Consequences\<close>

lemma walk_iter_at:
  "i + k \<le> field_count fs \<Longrightarrow> walk k (iter_at fs d i) = map (iter_at fs d) [i..<i + k]"
proof (induction k arbitrary: i)
  case (Suc k)
  have "walk k (snd (pb_field_iter_next (iter_at fs d i))) = map (iter_at fs d) [Suc i..<Suc i + k]"
  proof (cases k)
    case (Suc j)
    then have "snd (pb_field_iter_next (iter_at fs d i)) = iter_at fs d (Suc i)"
      using Suc.prems by (simp add: next_iter_at)
    then show ?thesis using Suc.IH [of "Suc i"] Suc.prems by simp
  qed simp
  then show ?case by (simp add: upt_conv_Cons del: upt_Suc)
qed simp

text \<open>The iterator over a struct at \<open>d\<close> is the one over a struct at 0, moved by \<open>d\<close>.\<close>

lemma iter_at_shift:
  assumes "\<And>j. j \<le> i \<Longrightarrow> PB_HTYPE (ftype (field_at fs j)) \<noteq> PB_HTYPE_ONEOF"
    and "\<And>j. j \<le> i \<Longrightarrow> 0 \<le> int (pData (iter_at fs 0 j)) + size_offset (field_at fs j)"
    and "i < field_count fs"
  shows "pData (iter_at fs d i) = d + pData (iter_at fs 0 i) \<and> pSize (iter_at fs d i) = d + pSize (iter_at fs 0 i)"
  using assms
proof (induction i)
  case 0
  then show ?case
    using 0(2) [of 0] by (simp add: iter_at.simps pb_field_iter_begin_def Let_def size_addr_def nat_add_distrib)
next
  case (Suc i)
  let ?f = "field_at fs (Suc i)"
  have f: "tag (field_at fs i) \<noteq> 0" "tag ?f \<noteq> 0" using Suc.prems(3) by (simp_all add: tag_field_at)
  have nxt: "pData (iter_at fs e (Suc i)) = pData (iter_at fs e i) + prev_size (field_at fs i) + data_offset ?f \<and>
      pSize (iter_at fs e (Suc i)) = size_addr (pData (iter_at fs e (Suc i))) ?f" for e
    using Suc.prems(1) [of i] Suc.prems(3) f
    by (simp add: iter_at.simps pb_field_iter_next_def Let_def iter_field_def pos_iter_at in_union_def)
  have "pData (iter_at fs d i) = d + pData (iter_at fs 0 i)"
    using Suc.IH Suc.prems by simp
  then have "pData (iter_at fs d (Suc i)) = d + pData (iter_at fs 0 (Suc i))"
    using nxt [of d] nxt [of 0] by simp
  then show ?case
    using nxt [of d] nxt [of 0] Suc.prems(2) [of "Suc i"] by (simp add: size_addr_def add.assoc nat_add_distrib)
qed

lemma table_fits_at:
  assumes "table_fits fs st ms" "i < length ms" "ms ! i = (t, m, sm)"
  shows "i < field_count fs" "tag (field_at fs i) = t" "pData (iter_at fs d i) = d + offsetof st m"
    "pSize (iter_at fs d i) = d + offsetof st sm" "PB_LTYPE (ftype (field_at fs i)) \<noteq> PB_LTYPE_EXTENSION"
proof -
  have n: "field_count fs = length ms" using assms(1) by (simp add: table_fits_def)
  have b: "snd (pb_field_iter_begin fs 0) = iter_at fs 0 0" by (simp add: iter_at.simps)
  have w: "walk (length ms) (iter_at fs 0 0) = map (iter_at fs 0) [0..<length ms]"
    using walk_iter_at [of 0 "length ms" fs 0] n by simp
  have fit: "fits_at (iter_at fs 0 j) (case ms ! j of (t, m, sm) \<Rightarrow> (t, offsetof st m, offsetof st sm))"
    if "j < length ms" for j
    using assms(1) that unfolding table_fits_def b w by (auto simp: list_all2_conv_all_nth split: prod.splits)
  then have a: "PB_HTYPE (ftype (field_at fs j)) \<noteq> PB_HTYPE_ONEOF"
    "0 \<le> int (pData (iter_at fs 0 j)) + size_offset (field_at fs j)" if "j < length ms" for j
    using that n by (force simp: fits_at_def Let_def split: prod.splits)+
  show i: "i < field_count fs" using assms(2) n by simp
  have "pData (iter_at fs d i) = d + pData (iter_at fs 0 i) \<and> pSize (iter_at fs d i) = d + pSize (iter_at fs 0 i)"
    using a assms(2) n by (intro iter_at_shift) auto
  then show "tag (field_at fs i) = t" "pData (iter_at fs d i) = d + offsetof st m"
    "pSize (iter_at fs d i) = d + offsetof st sm" "PB_LTYPE (ftype (field_at fs i)) \<noteq> PB_LTYPE_EXTENSION"
    using fit [OF assms(2)] assms(3) i by (simp_all add: fits_at_def Let_def)
qed

text \<open>Tags are strictly increasing, so the search finds the field of a tag from any position.\<close>

lemma table_fits_find:
  assumes "table_fits fs st ms" "i < length ms" "j < length ms"
  shows "pb_field_iter_find (iter_at fs d i) (fst (ms ! j)) = Some (True, iter_at fs d j)"
proof -
  have n: "field_count fs = length ms" using assms(1) by (simp add: table_fits_def)
  have tags: "tag_matches (fst (ms ! j)) (field_at fs k) \<longleftrightarrow> k = j" if "k < length ms" for k
  proof -
    have "k = j" if "fst (ms ! k) = fst (ms ! j)"
      using assms(1,3) that \<open>k < length ms\<close> sorted_wrt_nth_less [of "(<)" "map fst ms" k j]
        sorted_wrt_nth_less [of "(<)" "map fst ms" j k]
      by (fastforce simp: table_fits_def)
    then show ?thesis
      using table_fits_at(2,5) [OF assms(1) that] by (cases "ms ! k") (auto simp: tag_matches_def)
  qed
  let ?idx = "indices_from (field_count fs) i i"
  have idx: "set ?idx = {..<length ms}" using set_indices_from [of i "field_count fs"] assms(2) n by simp
  have "find (\<lambda>k. tag_matches (fst (ms ! j)) (field_at fs k)) ?idx = Some j"
  proof (cases "find (\<lambda>k. tag_matches (fst (ms ! j)) (field_at fs k)) ?idx")
    case None
    then show ?thesis using tags [OF assms(3)] assms(3) idx by (auto simp: find_None_iff)
  next
    case (Some k)
    then have "k \<in> set ?idx" "tag_matches (fst (ms ! j)) (field_at fs k)"
      by (auto simp: find_Some_iff)
    then show ?thesis using Some tags [of k] idx by auto
  qed
  then show ?thesis
    using find_canonical [of fs d i "iter_at fs d i" "fst (ms ! j)"] assms(2) n by (auto simp: canonical_iter_at)
qed

lemma table_fits_absent:
  assumes "table_fits fs st ms" "i < length ms" "t \<notin> fst ` set ms"
  shows "pb_field_iter_find (iter_at fs d i) t = Some (False, iter_at fs d i)"
proof -
  have n: "field_count fs = length ms" using assms(1) by (simp add: table_fits_def)
  have "\<not> tag_matches t (field_at fs k)" if "k < length ms" for k
    using table_fits_at(2) [OF assms(1) that] assms(3) nth_mem [OF that]
    by (cases "ms ! k") (force simp: tag_matches_def)
  then have "find (\<lambda>k. tag_matches t (field_at fs k)) (indices_from (field_count fs) i i) = None"
    using set_indices_from [of i "field_count fs"] assms(2) n by (auto simp: find_None_iff)
  then show ?thesis
    using find_canonical [of fs d i "iter_at fs d i" t] assms(2) n by (auto simp: canonical_iter_at)
qed

subsection \<open>The tables\<close>

definition gdt_cct_LogEvent_members :: "(nat \<times> string \<times> string) list" where
  "gdt_cct_LogEvent_members =
    [(gdt_cct_LogEvent_event_time_ms_tag, ''event_time_ms'', ''has_event_time_ms''),
     (gdt_cct_LogEvent_source_extension_tag, ''source_extension'', ''source_extension''),
     (gdt_cct_LogEvent_event_code_tag, ''event_code'', ''has_event_code''),
     (gdt_cct_LogEvent_timezone_offset_seconds_tag, ''timezone_offset_seconds'', ''has_timezone_offset_seconds''),
     (gdt_cct_LogEvent_event_uptime_ms_tag, ''event_uptime_ms'', ''has_event_uptime_ms''),
     (gdt_cct_LogEvent_network_connection_info_tag, ''network_connection_info'', ''has_network_connection_info'')]"

definition gdt_cct_NetworkConnectionInfo_members :: "(nat \<times> string \<times> string) list" where
  "gdt_cct_NetworkConnectionInfo_members =
    [(gdt_cct_NetworkConnectionInfo_network_type_tag, ''network_type'', ''has_network_type''),
     (gdt_cct_NetworkConnectionInfo_mobile_subtype_tag, ''mobile_subtype'', ''has_mobile_subtype'')]"

definition gdt_cct_IosClientInfo_members :: "(nat \<times> string \<times> string) list" where
  "gdt_cct_IosClientInfo_members =
    [(gdt_cct_IosClientInfo_os_major_version_tag, ''os_major_version'', ''os_major_version''),
     (gdt_cct_IosClientInfo_os_full_version_tag, ''os_full_version'', ''os_full_version''),
     (gdt_cct_IosClientInfo_application_build_tag, ''application_build'', ''application_build''),
     (gdt_cct_IosClientInfo_country_tag, ''country'', ''country''),
     (gdt_cct_IosClientInfo_model_tag, ''model'', ''model''),
     (gdt_cct_IosClientInfo_language_code_tag, ''language_code'', ''language_code''),
     (gdt_cct_IosClientInfo_application_bundle_id_tag, ''application_bundle_id'', ''application_bundle_id'')]"

definition gdt_cct_ClientInfo_members :: "(nat \<times> string \<times> string) list" where
  "gdt_cct_ClientInfo_members =
    [(gdt_cct_ClientInfo_client_type_tag, ''client_type'', ''has_client_type''),
     (gdt_cct_ClientInfo_ios_client_info_tag, ''ios_client_info'', ''has_ios_client_info'')]"

definition gdt_cct_BatchedLogRequest_members :: "(nat \<times> string \<times> string) list" where
  "gdt_cct_BatchedLogRequest_members =
    [(gdt_cct_BatchedLogRequest_log_request_tag, ''log_request'', ''log_request_count'')]"

definition gdt_cct_LogRequest_members :: "(nat \<times> string \<times> string) list" where
  "gdt_cct_LogRequest_members =
    [(gdt_cct_LogRequest_client_info_tag, ''client_info'', ''has_client_info''),
     (gdt_cct_LogRequest_log_source_tag, ''log_source'', ''has_log_source''),
     (gdt_cct_LogRequest_log_event_tag, ''log_event'', ''log_event_count''),
     (gdt_cct_LogRequest_request_time_ms_tag, ''request_time_ms'', ''has_request_time_ms''),
     (gdt_cct_LogRequest_request_uptime_ms_tag, ''request_uptime_ms'', ''has_request_uptime_ms''),
     (gdt_cct_LogRequest_qos_tier_tag, ''qos_tier'', ''has_qos_tier'')]"

definition gdt_cct_QosTierConfiguration_members :: "(nat \<times> string \<times> string) list" where
  "gdt_cct_QosTierConfiguration_members =
    [(gdt_cct_QosTierConfiguration_qos_tier_tag, ''qos_tier'', ''has_qos_tier''),
     (gdt_cct_QosTierConfiguration_log_source_tag, ''log_source'', ''has_log_source'')]"

definition gdt_cct_QosTiersOverride_members :: "(nat \<times> string \<times> string) list" where
  "gdt_cct_QosTiersOverride_members =
    [(gdt_cct_QosTiersOverride_qos_tier_configuration_tag, ''qos_tier_configuration'', ''qos_tier_configuration_count''),
     (gdt_cct_QosTiersOverride_qos_tier_fingerprint_tag, ''qos_tier_fingerprint'', ''has_qos_tier_fingerprint'')]"

definition gdt_cct_LogResponse_members :: "(nat \<times> string \<times> string) list" where
  "gdt_cct_LogResponse_members =
    [(gdt_cct_LogResponse_next_request_wait_millis_tag, ''next_request_wait_millis'', ''has_next_request_wait_millis''),
     (gdt_cct_LogResponse_qos_tier_tag, ''qos_tier'', ''has_qos_tier'')]"

definition logs_proto_mobilesdk_ios_ICoreConfiguration_members :: "(nat \<times> string \<times> string) list" where
  "logs_proto_mobilesdk_ios_ICoreConfiguration_members =
    [(logs_proto_mobilesdk_ios_ICoreConfiguration_configuration_type_tag, ''configuration_type'', ''has_configuration_type''),
     (logs_proto_mobilesdk_ios_ICoreConfiguration_sdk_service_installed_tag, ''sdk_service_installed'', ''sdk_service_installed_count''),
     (logs_proto_mobilesdk_ios_ICoreConfiguration_device_model_tag, ''device_model'', ''device_model''),
     (logs_proto_mobilesdk_ios_ICoreConfiguration_app_id_tag, ''app_id'', ''app_id''),
     (logs_proto_mobilesdk_ios_ICoreConfiguration_bundle_id_tag, ''bundle_id'', ''bundle_id''),
     (logs_proto_mobilesdk_ios_ICoreConfiguration_pod_name_tag, ''pod_name'', ''has_pod_name''),
     (logs_proto_mobilesdk_ios_ICoreConfiguration_icore_version_tag, ''icore_version'', ''icore_version''),
     (logs_proto_mobilesdk_ios_ICoreConfiguration_sdk_version_tag, ''sdk_version'', ''sdk_version''),
     (logs_proto_mobilesdk_ios_ICoreConfiguration_sdk_name_tag, ''sdk_name'', ''has_sdk_name''),
     (logs_proto_mobilesdk_ios_ICoreConfiguration_app_count_tag, ''app_count'', ''has_app_count''),
     (logs_proto_mobilesdk_ios_ICoreConfiguration_os_version_tag, ''os_version'', ''os_version''),
     (logs_proto_mobilesdk_ios_ICoreConfiguration_min_supported_ios_version_tag, ''min_supported_ios_version'', ''min_supported_ios_version''),
     (logs_proto_mobilesdk_ios_ICoreConfiguration_use_default_app_tag, ''use_default_app'', ''has_use_default_app''),
     (logs_proto_mobilesdk_ios_ICoreConfiguration_deployed_in_app_store_tag, ''deployed_in_app_store'', ''has_deployed_in_app_store''),
     (logs_proto_mobilesdk_ios_ICoreConfiguration_dynamic_framework_count_tag, ''dynamic_framework_count'', ''has_dynamic_framework_count''),
     (logs_proto_mobilesdk_ios_ICoreConfiguration_apple_framework_version_tag, ''apple_framework_version'', ''apple_framework_version''),
     (logs_proto_mobilesdk_ios_ICoreConfiguration_using_zip_file_tag, ''using_zip_file'', ''has_using_zip_file''),
     (logs_proto_mobilesdk_ios_ICoreConfiguration_deployment_type_tag, ''deployment_type'', ''has_deployment_type''),
     (logs_proto_mobilesdk_ios_ICoreConfiguration_platform_info_tag, ''platform_info'', ''platform_info''),
     (logs_proto_mobilesdk_ios_ICoreConfiguration_swizzling_enabled_tag, ''swizzling_enabled'', ''has_swizzling_enabled''),
     (logs_proto_mobilesdk_ios_ICoreConfiguration_using_gdt_tag, ''using_gdt'', ''has_using_gdt'')]"

lemma LogEvent_fits [table_fits]: "table_fits (gdt_cct_LogEvent_fields A) gdt_cct_LogEvent gdt_cct_LogEvent_members"
  by code_simp

lemma NetworkConnectionInfo_fits [table_fits]: "table_fits (gdt_cct_NetworkConnectionInfo_fields A) gdt_cct_NetworkConnectionInfo gdt_cct_NetworkConnectionInfo_members"
  by code_simp

lemma IosClientInfo_fits [table_fits]: "table_fits (gdt_cct_IosClientInfo_fields A) gdt_cct_IosClientInfo gdt_cct_IosClientInfo_members"
  by code_simp

lemma ClientInfo_fits [table_fits]: "table_fits (gdt_cct_ClientInfo_fields A) gdt_cct_ClientInfo gdt_cct_ClientInfo_members"
  by code_simp

lemma BatchedLogRequest_fits [table_fits]: "table_fits (gdt_cct_BatchedLogRequest_fields A) gdt_cct_BatchedLogRequest gdt_cct_BatchedLogRequest_members"
  by code_simp

lemma LogRequest_fits [table_fits]: "table_fits (gdt_cct_LogRequest_fields A) gdt_cct_LogRequest gdt_cct_LogRequest_members"
  by code_simp

lemma QosTierConfiguration_fits [table_fits]: "table_fits (gdt_cct_QosTierConfiguration_fields A) gdt_cct_QosTierConfiguration gdt_cct_QosTierConfiguration_members"
  by code_simp

lemma QosTiersOverride_fits [table_fits]: "table_fits (gdt_cct_QosTiersOverride_fields A) gdt_cct_QosTiersOverride gdt_cct_QosTiersOverride_members"
  by code_simp

lemma LogResponse_fits [table_fits]: "table_fits (gdt_cct_LogResponse_fields A) gdt_cct_LogResponse gdt_cct_LogResponse_members"
  by code_simp


text \<open>The struct of the diagnostics message has 33 members; their layout is evaluated once.\<close>

lemma ICoreConfiguration_layout:
  "layout_from 0 logs_proto_mobilesdk_ios_ICoreConfiguration =
    [(\<lparr>m_name = ''has_configuration_type'', m_size = 1, m_align = 1, m_elem = 1\<rparr>, 0),
     (\<lparr>m_name = ''configuration_type'', m_size = 4, m_align = 4, m_elem = 4\<rparr>, 4),
     (\<lparr>m_name = ''sdk_service_installed_count'', m_size = 4, m_align = 4, m_elem = 4\<rparr>, 8),
     (\<lparr>m_name = ''sdk_service_installed'', m_size = 8, m_align = 8, m_elem = 4\<rparr>, 16),
     (\<lparr>m_name = ''device_model'', m_size = 8, m_align = 8, m_elem = 8\<rparr>, 24),
     (\<lparr>m_name = ''app_id'', m_size = 8, m_align = 8, m_elem = 8\<rparr>, 32),
     (\<lparr>m_name = ''bundle_id'', m_size = 8, m_align = 8, m_elem = 8\<rparr>, 40),
     (\<lparr>m_name = ''has_pod_name'', m_size = 1, m_align = 1, m_elem = 1\<rparr>, 48),
     (\<lparr>m_name = ''pod_name'', m_size = 4, m_align = 4, m_elem = 4\<rparr>, 52),
     (\<lparr>m_name = ''icore_version'', m_size = 8, m_align = 8, m_elem = 8\<rparr>, 56),
     (\<lparr>m_name = ''sdk_version'', m_size = 8, m_align = 8, m_elem = 8\<rparr>, 64),
     (\<lparr>m_name = ''has_sdk_name'', m_size = 1, m_align = 1, m_elem = 1\<rparr>, 72),
     (\<lparr>m_name = ''sdk_name'', m_size = 4, m_align = 4, m_elem = 4\<rparr>, 76),
     (\<lparr>m_name = ''has_app_count'', m_size = 1, m_align = 1, m_elem = 1\<rparr>, 80),
     (\<lparr>m_name = ''app_count'', m_size = 4, m_align = 4, m_elem = 4\<rparr>, 84),
     (\<lparr>m_name = ''os_version'', m_size = 8, m_align = 8, m_elem = 8\<rparr>, 88),
     (\<lparr>m_name = ''min_supported_ios_version'', m_size = 8, m_align = 8, m_elem = 8\<rparr>, 96),
     (\<lparr>m_name = ''has_use_default_app'', m_size = 1, m_align = 1, m_elem = 1\<rparr>, 104),
     (\<lparr>m_name = ''use_default_app'', m_size = 1, m_align = 1, m_elem = 1\<rparr>, 105),
     (\<lparr>m_name = ''has_deployed_in_app_store'', m_size = 1, m_align = 1, m_elem = 1\<rparr>, 106),
     (\<lparr>m_name = ''deployed_in_app_store'', m_size = 1, m_align = 1, m_elem = 1\<rparr>, 107),
     (\<lparr>m_name = ''has_dynamic_framework_count'', m_size = 1, m_align = 1, m_elem = 1\<rparr>, 108),
     (\<lparr>m_name = ''dynamic_framework_count'', m_size = 4, m_align = 4, m_elem = 4\<rparr>, 112),
     (\<lparr>m_name = ''apple_framework_version'', m_size = 8, m_align = 8, m_elem = 8\<rparr>, 120),
     (\<lparr>m_name = ''has_using_zip_file'', m_size = 1, m_align = 1, m_elem = 1\<rparr>, 128),
     (\<lparr>m_name = ''using_zip_file'', m_size = 1, m_align = 1, m_elem = 1\<rparr>, 129),
     (\<lparr>m_name = ''has_deployment_type'', m_size = 1, m_align = 1, m_elem = 1\<rparr>, 130),
     (\<lparr>m_name = ''deployment_type'', m_size = 4, m_align = 4, m_elem = 4\<rparr>, 132),
     (\<lparr>m_name = ''platform_info'', m_size = 8, m_align = 8, m_elem = 8\<rparr>, 136),
     (\<lparr>m_name = ''has_swizzling_enabled'', m_size = 1, m_align = 1, m_elem = 1\<rparr>, 144),
     (\<lparr>m_name = ''swizzling_enabled'', m_size = 1, m_align = 1, m_elem = 1\<rparr>, 145),
     (\<lparr>m_name = ''has_using_gdt'', m_size = 1, m_align = 1, m_elem = 1\<rparr>, 146),
     (\<lparr>m_name = ''using_gdt'', m_size = 1, m_align = 1, m_elem = 1\<rparr>, 147)]"
  by code_simp

lemma ICoreConfiguration_member:
  "member_of logs_proto_mobilesdk_ios_ICoreConfiguration ''has_configuration_type'' = Some (\<lparr>m_name = ''has_configuration_type'', m_size = 1, m_align = 1, m_elem = 1\<rparr>, 0)"
  "member_of logs_proto_mobilesdk_ios_ICoreConfiguration ''configuration_type'' = Some (\<lparr>m_name = ''configuration_type'', m_size = 4, m_align = 4, m_elem = 4\<rparr>, 4)"
  "member_of logs_proto_mobilesdk_ios_ICoreConfiguration ''sdk_service_installed_count'' = Some (\<lparr>m_name = ''sdk_service_installed_count'', m_size = 4, m_align = 4, m_elem = 4\<rparr>, 8)"
  "member_of logs_proto_mobilesdk_ios_ICoreConfiguration ''sdk_service_installed'' = Some (\<lparr>m_name = ''sdk_service_installed'', m_size = 8, m_align = 8, m_elem = 4\<rparr>, 16)"
  "member_of logs_proto_mobilesdk_ios_ICoreConfiguration ''device_model'' = Some (\<lparr>m_name = ''device_model'', m_size = 8, m_align = 8, m_elem = 8\<rparr>, 24)"
  "member_of logs_proto_mobilesdk_ios_ICoreConfiguration ''app_id'' = Some (\<lparr>m_name = ''app_id'', m_size = 8, m_align = 8, m_elem = 8\<rparr>, 32)"
  "member_of logs_proto_mobilesdk_ios_ICoreConfiguration ''bundle_id'' = Some (\<lparr>m_name = ''bundle_id'', m_size = 8, m_align = 8, m_elem = 8\<rparr>, 40)"
  "member_of logs_proto_mobilesdk_ios_ICoreConfiguration ''has_pod_name'' = Some (\<lparr>m_name = ''has_pod_name'', m_size = 1, m_align = 1, m_elem = 1\<rparr>, 48)"
  "member_of logs_proto_mobilesdk_ios_ICoreConfiguration ''pod_name'' = Some (\<lparr>m_name = ''pod_name'', m_size = 4, m_align = 4, m_elem = 4\<rparr>, 52)"
  "member_of logs_proto_mobilesdk_ios_ICoreConfiguration ''icore_version'' = Some (\<lparr>m_name = ''icore_version'', m_size = 8, m_align = 8, m_elem = 8\<rparr>, 56)"
  "member_of logs_proto_mobilesdk_ios_ICoreConfiguration ''sdk_version'' = Some (\<lparr>m_name = ''sdk_version'', m_size = 8, m_align = 8, m_elem = 8\<rparr>, 64)"
  "member_of logs_proto_mobilesdk_ios_ICoreConfiguration ''has_sdk_name'' = Some (\<lparr>m_name = ''has_sdk_name'', m_size = 1, m_align = 1, m_elem = 1\<rparr>, 72)"
  "member_of logs_proto_mobilesdk_ios_ICoreConfiguration ''sdk_name'' = Some (\<lparr>m_name = ''sdk_name'', m_size = 4, m_align = 4, m_elem = 4\<rparr>, 76)"
  "member_of logs_proto_mobilesdk_ios_ICoreConfiguration ''has_app_count'' = Some (\<lparr>m_name = ''has_app_count'', m_size = 1, m_align = 1, m_elem = 1\<rparr>, 80)"
  "member_of logs_proto_mobilesdk_ios_ICoreConfiguration ''app_count'' = Some (\<lparr>m_name = ''app_count'', m_size = 4, m_align = 4, m_elem = 4\<rparr>, 84)"
  "member_of logs_proto_mobilesdk_ios_ICoreConfiguration ''os_version'' = Some (\<lparr>m_name = ''os_version'', m_size = 8, m_align = 8, m_elem = 8\<rparr>, 88)"
  "member_of logs_proto_mobilesdk_ios_ICoreConfiguration ''min_supported_ios_version'' = Some (\<lparr>m_name = ''min_supported_ios_version'', m_size = 8, m_align = 8, m_elem = 8\<rparr>, 96)"
  "member_of logs_proto_mobilesdk_ios_ICoreConfiguration ''has_use_default_app'' = Some (\<lparr>m_name = ''has_use_default_app'', m_size = 1, m_align = 1, m_elem = 1\<rparr>, 104)"
  "member_of logs_proto_mobilesdk_ios_ICoreConfiguration ''use_default_app'' = Some (\<lparr>m_name = ''use_default_app'', m_size = 1, m_align = 1, m_elem = 1\<rparr>, 105)"
  "member_of logs_proto_mobilesdk_ios_ICoreConfiguration ''has_deployed_in_app_store'' = Some (\<lparr>m_name = ''has_deployed_in_app_store'', m_size = 1, m_align = 1, m_elem = 1\<rparr>, 106)"
  "member_of logs_proto_mobilesdk_ios_ICoreConfiguration ''deployed_in_app_store'' = Some (\<lparr>m_name = ''deployed_in_app_store'', m_size = 1, m_align = 1, m_elem = 1\<rparr>, 107)"
  "member_of logs_proto_mobilesdk_ios_ICoreConfiguration ''has_dynamic_framework_count'' = Some (\<lparr>m_name = ''has_dynamic_framework_count'', m_size = 1, m_align = 1, m_elem = 1\<rparr>, 108)"
  "member_of logs_proto_mobilesdk_ios_ICoreConfiguration ''dynamic_framework_count'' = Some (\<lparr>m_name = ''dynamic_framework_count'', m_size = 4, m_align = 4, m_elem = 4\<rparr>, 112)"
  "member_of logs_proto_mobilesdk_ios_ICoreConfiguration ''apple_framework_version'' = Some (\<lparr>m_name = ''apple_framework_version'', m_size = 8, m_align = 8, m_elem = 8\<rparr>, 120)"
  "member_of logs_proto_mobilesdk_ios_ICoreConfiguration ''has_using_zip_file'' = Some (\<lparr>m_name = ''has_using_zip_file'', m_size = 1, m_align = 1, m_elem = 1\<rparr>, 128)"
  "member_of logs_proto_mobilesdk_ios_ICoreConfiguration ''using_zip_file'' = Some (\<lparr>m_name = ''using_zip_file'', m_size = 1, m_align = 1, m_elem = 1\<rparr>, 129)"
  "member_of logs_proto_mobilesdk_ios_ICoreConfiguration ''has_deployment_type'' = Some (\<lparr>m_name = ''has_deployment_type'', m_size = 1, m_align = 1, m_elem = 1\<rparr>, 130)"
  "member_of logs_proto_mobilesdk_ios_ICoreConfiguration ''deployment_type'' = Some (\<lparr>m_name = ''deployment_type'', m_size = 4, m_align = 4, m_elem = 4\<rparr>, 132)"
  "member_of logs_proto_mobilesdk_ios_ICoreConfiguration ''platform_info'' = Some (\<lparr>m_name = ''platform_info'', m_size = 8, m_align = 8, m_elem = 8\<rparr>, 136)"
  "member_of logs_proto_mobilesdk_ios_ICoreConfiguration ''has_swizzling_enabled'' = Some (\<lparr>m_name = ''has_swizzling_enabled'', m_size = 1, m_align = 1, m_elem = 1\<rparr>, 144)"
  "member_of logs_proto_mobilesdk_ios_ICoreConfiguration ''swizzling_enabled'' = Some (\<lparr>m_name = ''swizzling_enabled'', m_size = 1, m_align = 1, m_elem = 1\<rparr>, 145)"
  "member_of logs_proto_mobilesdk_ios_ICoreConfiguration ''has_using_gdt'' = Some (\<lparr>m_name = ''has_using_gdt'', m_size = 1, m_align = 1, m_elem = 1\<rparr>, 146)"
  "member_of logs_proto_mobilesdk_ios_ICoreConfiguration ''using_gdt'' = Some (\<lparr>m_name = ''using_gdt'', m_size = 1, m_align = 1, m_elem = 1\<rparr>, 147)"
  by (simp_all add: member_of_def ICoreConfiguration_layout)

lemmas table_simps = PB_FIELD_def PB_OPTIONAL_STATIC_def PB_OPTIONAL_POINTER_def PB_REPEATED_POINTER_def
  PB_DATAOFFSET_FIRST_def PB_DATAOFFSET_OTHER_def to_pb_size_def pb_delta_def offsetof_def
  pb_membersize_def pb_elemsize_def

lemma ICoreConfiguration_table:
  "logs_proto_mobilesdk_ios_ICoreConfiguration_fields A =
    [\<lparr>tag = 1, ftype = 17, data_offset = 4, size_offset = - 4, data_size = 4, array_size = 0, fptr = 0\<rparr>,
     \<lparr>tag = 7, ftype = 161, data_offset = 8, size_offset = - 8, data_size = 4, array_size = 0, fptr = 0\<rparr>,
     \<lparr>tag = 9, ftype = 149, data_offset = 0, size_offset = 0, data_size = 8, array_size = 0, fptr = 0\<rparr>,
     \<lparr>tag = 10, ftype = 149, data_offset = 0, size_offset = 0, data_size = 8, array_size = 0, fptr = 0\<rparr>,
     \<lparr>tag = 12, ftype = 149, data_offset = 0, size_offset = 0, data_size = 8, array_size = 0, fptr = 0\<rparr>,
     \<lparr>tag = 16, ftype = 17, data_offset = 4, size_offset = - 4, data_size = 4, array_size = 0, fptr = 0\<rparr>,
     \<lparr>tag = 18, ftype = 149, data_offset = 0, size_offset = 0, data_size = 8, array_size = 0, fptr = 0\<rparr>,
     \<lparr>tag = 19, ftype = 149, data_offset = 0, size_offset = 0, data_size = 8, array_size = 0, fptr = 0\<rparr>,
     \<lparr>tag = 20, ftype = 17, data_offset = 4, size_offset = - 4, data_size = 4, array_size = 0, fptr = 0\<rparr>,
     \<lparr>tag = 21, ftype = 16, data_offset = 4, size_offset = - 4, data_size = 4, array_size = 0, fptr = 0\<rparr>,
     \<lparr>tag = 22, ftype = 149, data_offset = 0, size_offset = 0, data_size = 8, array_size = 0, fptr = 0\<rparr>,
     \<lparr>tag = 24, ftype = 149, data_offset = 0, size_offset = 0, data_size = 8, array_size = 0, fptr = 0\<rparr>,
     \<lparr>tag = 25, ftype = 16, data_offset = 1, size_offset = - 1, data_size = 1, array_size = 0, fptr = 0\<rparr>,
     \<lparr>tag = 26, ftype = 16, data_offset = 1, size_offset = - 1, data_size = 1, array_size = 0, fptr = 0\<rparr>,
     \<lparr>tag = 27, ftype = 16, data_offset = 4, size_offset = - 4, data_size = 4, array_size = 0, fptr = 0\<rparr>,
     \<lparr>tag = 28, ftype = 149, data_offset = 4, size_offset = 0, data_size = 8, array_size = 0, fptr = 0\<rparr>,
     \<lparr>tag = 29, ftype = 16, data_offset = 1, size_offset = - 1, data_size = 1, array_size = 0, fptr = 0\<rparr>,
     \<lparr>tag = 30, ftype = 17, data_offset = 2, size_offset = - 2, data_size = 4, array_size = 0, fptr = 0\<rparr>,
     \<lparr>tag = 31, ftype = 149, data_offset = 0, size_offset = 0, data_size = 8, array_size = 0, fptr = 0\<rparr>,
     \<lparr>tag = 33, ftype = 16, data_offset = 1, size_offset = - 1, data_size = 1, array_size = 0, fptr = 0\<rparr>,
     \<lparr>tag = 36, ftype = 16, data_offset = 1, size_offset = - 1, data_size = 1, array_size = 0, fptr = 0\<rparr>,
     PB_LAST_FIELD]"
  by (simp add: logs_proto_mobilesdk_ios_ICoreConfiguration_fields_def table_simps ICoreConfiguration_member pb_consts)

lemma ICoreConfiguration_offsets:
  "map (\<lambda>(t, m, sm). (t, offsetof logs_proto_mobilesdk_ios_ICoreConfiguration m, offsetof logs_proto_mobilesdk_ios_ICoreConfiguration sm)) logs_proto_mobilesdk_ios_ICoreConfiguration_members =
    [(1, 4, 0),
     (7, 16, 8),
     (9, 24, 24),
     (10, 32, 32),
     (12, 40, 40),
     (16, 52, 48),
     (18, 56, 56),
     (19, 64, 64),
     (20, 76, 72),
     (21, 84, 80),
     (22, 88, 88),
     (24, 96, 96),
     (25, 105, 104),
     (26, 107, 106),
     (27, 112, 108),
     (28, 120, 120),
     (29, 129, 128),
     (30, 132, 130),
     (31, 136, 136),
     (33, 145, 144),
     (36, 147, 146)]"
  by (simp add: logs_proto_mobilesdk_ios_ICoreConfiguration_members_def offsetof_def ICoreConfiguration_member core_tags)

lemma ICoreConfiguration_fits [table_fits]:
  "table_fits (logs_proto_mobilesdk_ios_ICoreConfiguration_fields A) logs_proto_mobilesdk_ios_ICoreConfiguration logs_proto_mobilesdk_ios_ICoreConfiguration_members"
  unfolding table_fits_def ICoreConfiguration_offsets ICoreConfiguration_table by code_simp

text \<open>All tables with the struct and the members they describe.\<close>

definition message_tables :: "(string \<Rightarrow> nat) \<Rightarrow> (pb_field list \<times> cstruct \<times> (nat \<times> string \<times> string) list) list" where
  "message_tables A =
    [(gdt_cct_LogEvent_fields A, gdt_cct_LogEvent, gdt_cct_LogEvent_members),
     (gdt_cct_NetworkConnectionInfo_fields A, gdt_cct_NetworkConnectionInfo, gdt_cct_NetworkConnectionInfo_members),
     (gdt_cct_IosClientInfo_fields A, gdt_cct_IosClientInfo, gdt_cct_IosClientInfo_members),
     (gdt_cct_ClientInfo_fields A, gdt_cct_ClientInfo, gdt_cct_ClientInfo_members),
     (gdt_cct_BatchedLogRequest_fields A, gdt_cct_BatchedLogRequest, gdt_cct_BatchedLogRequest_members),
     (gdt_cct_LogRequest_fields A, gdt_cct_LogRequest, gdt_cct_LogRequest_members),
     (gdt_cct_QosTierConfiguration_fields A, gdt_cct_QosTierConfiguration, gdt_cct_QosTierConfiguration_members),
     (gdt_cct_QosTiersOverride_fields A, gdt_cct_QosTiersOverride, gdt_cct_QosTiersOverride_members),
     (gdt_cct_LogResponse_fields A, gdt_cct_LogResponse, gdt_cct_LogResponse_members),
     (logs_proto_mobilesdk_ios_ICoreConfiguration_fields A, logs_proto_mobilesdk_ios_ICoreConfiguration, logs_proto_mobilesdk_ios_ICoreConfiguration_members)]"

lemma message_tables_fit: "(fs, st, ms) \<in> set (message_tables A) \<Longrightarrow> table_fits fs st ms"
  by (auto simp: message_tables_def table_fits)

end
