(* ===== verification/CctFlat.thy ===== *)
theory CctFlat
  imports FlatMsg CctNanopb Layout
begin

text \<open>
  The two flat messages of the CCT transport, NetworkConnectionInfo and QosTierConfiguration
  (cct.nanopb.h): where their tables put each field of a struct at address \<open>d\<close>, and that they
  meet the conditions of the flat message theorems and of the decoder's safety theorem.
\<close>

lemma optional_varint:
  "PB_ATYPE 0x11 = PB_ATYPE_STATIC" "PB_HTYPE 0x11 = PB_HTYPE_OPTIONAL" "PB_LTYPE 0x11 = PB_LTYPE_UVARINT"
  "PB_ATYPE 0x10 = PB_ATYPE_STATIC" "PB_HTYPE 0x10 = PB_HTYPE_OPTIONAL" "PB_LTYPE 0x10 = PB_LTYPE_VARINT"
  by code_simp+

lemma static_field_wf:
  assumes "PB_ATYPE (ftype f) = PB_ATYPE_STATIC" "PB_HTYPE (ftype f) = PB_HTYPE_OPTIONAL"
    "PB_LTYPE (ftype f) = PB_LTYPE_VARINT \<or> PB_LTYPE (ftype f) = PB_LTYPE_UVARINT" "iter_field it = f"
    "d \<le> pData it" "pData it + data_size f \<le> d + sz" "d \<le> pSize it" "pSize it < d + sz"
  shows "wf_field env W {d..<d + sz} it"
  using assms by (auto simp: wf_field_def Let_def data_bytes_def size_bytes_def item_count_def pb_consts)

subsection \<open>QosTierConfiguration\<close>

lemma QosTierConfiguration_table:
  "gdt_cct_QosTierConfiguration_fields A =
    [\<lparr>tag = 2, ftype = 0x11, data_offset = 4, size_offset = - 4, data_size = 4, array_size = 0, fptr = 0\<rparr>,
     \<lparr>tag = 3, ftype = 0x10, data_offset = 4, size_offset = - 4, data_size = 4, array_size = 0,
      fptr = A ''gdt_cct_QosTierConfiguration_log_source_default''\<rparr>, PB_LAST_FIELD]"
  by code_simp

lemma QosTierConfiguration_iter:
  "iter_at (gdt_cct_QosTierConfiguration_fields A) d 0 =
    \<lparr>start = gdt_cct_QosTierConfiguration_fields A, pos = 0, required_field_index = 0, dest_struct = d,
     pData = d + 4, pSize = d\<rparr>"
  "iter_at (gdt_cct_QosTierConfiguration_fields A) d 1 =
    \<lparr>start = gdt_cct_QosTierConfiguration_fields A, pos = 1, required_field_index = 0, dest_struct = d,
     pData = d + 12, pSize = d + 8\<rparr>"
  by (simp_all add: QosTierConfiguration_table iter_at.simps pb_field_iter_begin_def pb_field_iter_next_def
   iter_field_def field_at_def field_count_def Let_def size_addr_def PB_LAST_FIELD_def prev_size_def in_union_def
   PB_ATYPE_def PB_HTYPE_def pb_consts)

lemma QosTierConfiguration_wf:
  assumes "d \<noteq> 0"
  shows "wf_msg env 1 (gdt_cct_QosTierConfiguration_fields A) d (struct_size gdt_cct_QosTierConfiguration)"
proof -
  have n: "field_count (gdt_cct_QosTierConfiguration_fields A) = 2"
    "struct_size gdt_cct_QosTierConfiguration = 16" by code_simp+
  have "wf_field env W {d..<d + 16} (iter_at (gdt_cct_QosTierConfiguration_fields A) d 0)" for W
    by (rule static_field_wf [OF _ _ _ refl], simp_all only: optional_varint QosTierConfiguration_iter iter_field_def pb_field_iter.simps)
      (simp_all add: QosTierConfiguration_table field_at_def optional_varint)
  moreover have "wf_field env W {d..<d + 16} (iter_at (gdt_cct_QosTierConfiguration_fields A) d 1)" for W
    by (rule static_field_wf [OF _ _ _ refl], simp_all only: optional_varint QosTierConfiguration_iter iter_field_def pb_field_iter.simps)
      (simp_all add: QosTierConfiguration_table field_at_def optional_varint)
  ultimately show ?thesis using assms n by (simp add: less_2_cases_iff)
qed

lemma QosTierConfiguration_flat: "flat_msg (gdt_cct_QosTierConfiguration_fields A) d"
proof -
  have n: "field_count (gdt_cct_QosTierConfiguration_fields A) = 2" by code_simp
  show ?thesis
    unfolding flat_msg_def n field_slots_def less_2_cases_iff
    by (auto simp: QosTierConfiguration_iter [unfolded One_nat_def] simp del: One_nat_def)
      (simp_all add: QosTierConfiguration_table field_at_def scalar_field_def optional_varint pb_consts)
qed

lemma QosTierConfiguration_slots:
  "i < field_count (gdt_cct_QosTierConfiguration_fields A) \<Longrightarrow> field_slots (gdt_cct_QosTierConfiguration_fields A) d i \<subseteq> {d ..< d + 16}"
proof -
  have n: "field_count (gdt_cct_QosTierConfiguration_fields A) = 2" by code_simp
  show "i < field_count (gdt_cct_QosTierConfiguration_fields A) \<Longrightarrow> ?thesis"
    unfolding n field_slots_def less_2_cases_iff
    by (elim disjE) (simp_all add: QosTierConfiguration_iter [unfolded One_nat_def] del: One_nat_def, auto simp: QosTierConfiguration_table field_at_def)
qed

subsection \<open>NetworkConnectionInfo\<close>

lemma NetworkConnectionInfo_table:
  "gdt_cct_NetworkConnectionInfo_fields A =
    [\<lparr>tag = 1, ftype = 0x10, data_offset = 4, size_offset = - 4, data_size = 4, array_size = 0,
      fptr = A ''gdt_cct_NetworkConnectionInfo_network_type_default''\<rparr>,
     \<lparr>tag = 2, ftype = 0x11, data_offset = 4, size_offset = - 4, data_size = 4, array_size = 0,
      fptr = A ''gdt_cct_NetworkConnectionInfo_mobile_subtype_default''\<rparr>, PB_LAST_FIELD]"
  by code_simp

lemma NetworkConnectionInfo_iter:
  "iter_at (gdt_cct_NetworkConnectionInfo_fields A) d 0 =
    \<lparr>start = gdt_cct_NetworkConnectionInfo_fields A, pos = 0, required_field_index = 0, dest_struct = d,
     pData = d + 4, pSize = d\<rparr>"
  "iter_at (gdt_cct_NetworkConnectionInfo_fields A) d 1 =
    \<lparr>start = gdt_cct_NetworkConnectionInfo_fields A, pos = 1, required_field_index = 0, dest_struct = d,
     pData = d + 12, pSize = d + 8\<rparr>"
  by (simp_all add: NetworkConnectionInfo_table iter_at.simps pb_field_iter_begin_def pb_field_iter_next_def
   iter_field_def field_at_def field_count_def Let_def size_addr_def PB_LAST_FIELD_def prev_size_def in_union_def
   PB_ATYPE_def PB_HTYPE_def pb_consts)

lemma NetworkConnectionInfo_wf:
  assumes "d \<noteq> 0"
  shows "wf_msg env 1 (gdt_cct_NetworkConnectionInfo_fields A) d (struct_size gdt_cct_NetworkConnectionInfo)"
proof -
  have n: "field_count (gdt_cct_NetworkConnectionInfo_fields A) = 2"
    "struct_size gdt_cct_NetworkConnectionInfo = 16" by code_simp+
  have "wf_field env W {d..<d + 16} (iter_at (gdt_cct_NetworkConnectionInfo_fields A) d 0)" for W
    by (rule static_field_wf [OF _ _ _ refl], simp_all only: optional_varint NetworkConnectionInfo_iter iter_field_def pb_field_iter.simps)
      (simp_all add: NetworkConnectionInfo_table field_at_def optional_varint)
  moreover have "wf_field env W {d..<d + 16} (iter_at (gdt_cct_NetworkConnectionInfo_fields A) d 1)" for W
    by (rule static_field_wf [OF _ _ _ refl], simp_all only: optional_varint NetworkConnectionInfo_iter iter_field_def pb_field_iter.simps)
      (simp_all add: NetworkConnectionInfo_table field_at_def optional_varint)
  ultimately show ?thesis using assms n by (simp add: less_2_cases_iff)
qed

lemma NetworkConnectionInfo_flat: "flat_msg (gdt_cct_NetworkConnectionInfo_fields A) d"
proof -
  have n: "field_count (gdt_cct_NetworkConnectionInfo_fields A) = 2" by code_simp
  show ?thesis
    unfolding flat_msg_def n field_slots_def less_2_cases_iff
    by (auto simp: NetworkConnectionInfo_iter [unfolded One_nat_def] simp del: One_nat_def)
      (simp_all add: NetworkConnectionInfo_table field_at_def scalar_field_def optional_varint pb_consts)
qed

lemma NetworkConnectionInfo_slots:
  "i < field_count (gdt_cct_NetworkConnectionInfo_fields A) \<Longrightarrow> field_slots (gdt_cct_NetworkConnectionInfo_fields A) d i \<subseteq> {d ..< d + 16}"
proof -
  have n: "field_count (gdt_cct_NetworkConnectionInfo_fields A) = 2" by code_simp
  show "i < field_count (gdt_cct_NetworkConnectionInfo_fields A) \<Longrightarrow> ?thesis"
    unfolding n field_slots_def less_2_cases_iff
    by (elim disjE) (simp_all add: NetworkConnectionInfo_iter [unfolded One_nat_def] del: One_nat_def, auto simp: NetworkConnectionInfo_table field_at_def)
qed

subsection \<open>The bytes of an encoded NetworkConnectionInfo\<close>

text \<open>\<open>optional_bytes b bs\<close> is what an optional field contributes.\<close>

definition optional_bytes :: "bool \<Rightarrow> u8 list \<Rightarrow> u8 list" where
  "optional_bytes b bs = (if b then bs else [])"

lemma small_tag_bytes: "tag_bytes 0 1 = [8]" "tag_bytes 0 2 = [16]"
  by code_simp+

lemma NetworkConnectionInfo_bytes:
  "ops_bytes (gdt_cct_NetworkConnectionInfo_fields A) (msg_ops (msg_value (gdt_cct_NetworkConnectionInfo_fields A) d m)) =
    optional_bytes (load_bool d m) (8 # varint_buffer (the (load_signed 4 (d + 4) m))) @
    optional_bytes (load_bool (d + 8) m) (16 # varint_buffer (the (load_unsigned 4 (d + 12) m)))"
proof -
  let ?fs = "gdt_cct_NetworkConnectionInfo_fields A"
  have n: "field_count ?fs = 2" by code_simp
  have f: "data_size (field_at ?fs 0) = 4" "data_size (field_at ?fs 1) = 4"
    "tag (field_at ?fs 0) = 1" "tag (field_at ?fs 1) = 2"
    "PB_LTYPE (ftype (field_at ?fs 0)) = PB_LTYPE_VARINT" "PB_LTYPE (ftype (field_at ?fs 1)) = PB_LTYPE_UVARINT"
    by (simp_all add: NetworkConnectionInfo_table field_at_def optional_varint)
  have w: "wire_type_for (field_at ?fs 0) = 0" "wire_type_for (field_at ?fs 1) = 0"
    using f by (simp_all add: wire_type_for_def wire_type_of_def pb_consts)
  have b: "field_bytes (field_at ?fs 0) (mem_read p 4 m) = 8 # varint_buffer (the (load_signed 4 p m))"
    "field_bytes (field_at ?fs 1) (mem_read p 4 m) = 16 # varint_buffer (the (load_unsigned 4 p m))" for p
    using f w by (simp_all add: field_bytes_def scalar_bytes_def small_tag_bytes load_signed_nth [OF refl] pb_consts
        del: One_nat_def)
  have v: "msg_value ?fs d m =
      [if load_bool d m then Some (mem_read (d + 4) 4 m) else None,
       if load_bool (d + 8) m then Some (mem_read (d + 12) 4 m) else None]"
    using f by (simp add: msg_value_def n NetworkConnectionInfo_iter [unfolded One_nat_def] numeral_2_eq_2)
  show ?thesis
    unfolding v msg_ops_def using b by (auto simp: optional_bytes_def ops_bytes_def numeral_2_eq_2)
qed

lemma NetworkConnectionInfo_size_bound:
  assumes "load_bool (d + 8) m \<longrightarrow> the (load_unsigned 4 (d + 12) m) < 128"
  shows "length (ops_bytes (gdt_cct_NetworkConnectionInfo_fields A)
    (msg_ops (msg_value (gdt_cct_NetworkConnectionInfo_fields A) d m))) \<le> gdt_cct_NetworkConnectionInfo_size"
proof -
  have "length (varint_buffer v) = 1" if "v < 128" for v
    using that by (simp add: varint_buffer_def word_less_nat_alt word_le_nat_alt)
  then show ?thesis
    using assms length_varint_buffer_le [of "the (load_signed 4 (d + 4) m)"]
    by (auto simp: NetworkConnectionInfo_bytes optional_bytes_def gdt_cct_NetworkConnectionInfo_size_def)
qed

end
