(* ===== verification/JudgeQueue.thy ===== *)
theory JudgeQueue
  imports Prelude "HOL-Library.Multiset"
begin

text \<open>
  The cloud functions that hand out teams to judges (functions/index.js). A snapshot of the
  database is a record; an absent object and an empty one are the same map, as they are for
  every use the code makes of them. Ids are ordinary strings, none of them the key
  \<open>judgeAssigned\<close> or a name of \<open>Object.prototype\<close>.
\<close>

subsection \<open>The data\<close>

record team =
  teamId :: "string option"
  team_affinity :: "string option"
  team_scores :: "string list option"

record judge =
  judge_affinity :: "string option"

record queue =
  judgeAssigned :: "string \<rightharpoonup> string"
  queues :: "string \<rightharpoonup> string list"

text \<open>\<open>teams\<close> in the order in which \<open>for (const teamID in teams)\<close> visits them; \<open>scores\<close>: the
  judges with an entry for a team.\<close>

record root =
  judges :: "(string \<rightharpoonup> judge) option"
  teams :: "(string \<times> team) list"
  scores :: "string \<rightharpoonup> string set"
  judgingQueue :: queue

definition compare :: "team \<Rightarrow> team \<Rightarrow> int" where
  "compare team1 team2 =
     (let scores1 = (case team_scores team1 of Some s \<Rightarrow> s | None \<Rightarrow> []);
          scores2 = (case team_scores team2 of Some s \<Rightarrow> s | None \<Rightarrow> []) in
      if length scores1 > length scores2 then 1
      else if length scores1 < length scores2 then - 1 else 0)"

text \<open>What a run of a handler comes to: an exception, or the teams returned and the queue
  written to the database, if one is.\<close>

datatype outcome = Threw | Returned "string list" "queue option"

subsection \<open>Choosing teams\<close>

definition is_preferred :: "judge \<Rightarrow> team \<Rightarrow> bool" where
  "is_preferred judge team =
     (if judge_affinity judge = Some ''None'' then True else team_affinity team = judge_affinity judge)"

definition is_scored :: "root \<Rightarrow> string \<Rightarrow> string \<Rightarrow> bool" where
  "is_scored root judgeId teamID =
     (let s = (case scores root teamID of Some s \<Rightarrow> s | None \<Rightarrow> {}) in judgeId \<in> s)"

text \<open>The \<open>for\<close> loop: the filtered and the preferred teams. Reading a property of an undefined
  judge throws.\<close>

primrec choose_teams ::
  "root \<Rightarrow> string \<Rightarrow> judge option \<Rightarrow> (string \<times> team) list \<Rightarrow> team list \<Rightarrow> team list \<Rightarrow> (team list \<times> team list) option"
  where
  "choose_teams root judgeId judge [] filtered preferred = Some (filtered, preferred)"
| "choose_teams root judgeId judge (e # es) filtered preferred =
     (case judge of
        None \<Rightarrow> None
      | Some jd \<Rightarrow>
          let (teamID, team) = e;
              isPreferredTeam = is_preferred jd team;
              isScored = is_scored root judgeId teamID;
              preferred' = (if isPreferredTeam \<and> \<not> isScored then preferred @ [team] else preferred);
              filtered' = (if judgeAssigned (judgingQueue root) teamID = None \<and> isPreferredTeam \<and> \<not> isScored
                           then filtered @ [team] else filtered)
          in choose_teams root judgeId judge es filtered' preferred')"

text \<open>The two \<open>while\<close> loops are the same loop over different teams. Its index moves only when a
  team is added, so it may run forever: \<open>None\<close>.\<close>

partial_function (option) assign_loop ::
  "team list \<Rightarrow> int \<Rightarrow> string \<Rightarrow> nat \<Rightarrow> int \<Rightarrow> string list \<Rightarrow> (string \<rightharpoonup> string)
     \<Rightarrow> (int \<times> string list \<times> (string \<rightharpoonup> string)) option" where
  "assign_loop ts teamsToAdd judgeId i teamsAdded queue assigned =
     (if i < length ts \<and> teamsAdded < teamsToAdd
      then case teamId (ts ! i) of
        None \<Rightarrow> assign_loop ts teamsToAdd judgeId i teamsAdded queue assigned
      | Some t \<Rightarrow>
          if t \<notin> set queue
          then assign_loop ts teamsToAdd judgeId (i + 1) (teamsAdded + 1) (queue @ [t]) (assigned(t \<mapsto> judgeId))
          else assign_loop ts teamsToAdd judgeId i teamsAdded queue assigned
      else Some (teamsAdded, queue, assigned))"

text \<open>\<open>srt\<close> is the engine's \<open>sort\<close>, of which the language promises an ordered permutation but,
  before 2019, not the order of equal elements.\<close>

definition processAssignedQueue ::
  "((team \<Rightarrow> team \<Rightarrow> int) \<Rightarrow> team list \<Rightarrow> team list) \<Rightarrow> root option \<Rightarrow> string \<Rightarrow> outcome option" where
  "processAssignedQueue srt snapshot judgeId =
     (case snapshot of
        None \<Rightarrow> Some (Returned [] None)
      | Some root \<Rightarrow>
          (case judges root of
             None \<Rightarrow> Some Threw
           | Some js \<Rightarrow>
               let jq = judgingQueue root;
                   judgeAssignedTeams = (case queues jq judgeId of Some q \<Rightarrow> q | None \<Rightarrow> []) in
               case choose_teams root judgeId (js judgeId) (teams root) [] [] of
                 None \<Rightarrow> Some Threw
               | Some (filteredTeams, preferredTeams) \<Rightarrow>
                   let filteredTeams = srt compare filteredTeams;
                       preferredTeams = srt compare preferredTeams;
                       teamsToAdd = 3 - int (length judgeAssignedTeams) in
                   case assign_loop filteredTeams teamsToAdd judgeId 0 0 judgeAssignedTeams (judgeAssigned jq) of
                     None \<Rightarrow> None
                   | Some (teamsAdded, judgeAssignedTeams, assignedTeams) \<Rightarrow>
                       (case assign_loop preferredTeams teamsToAdd judgeId 0 teamsAdded judgeAssignedTeams assignedTeams of
                          None \<Rightarrow> None
                        | Some (teamsAdded, judgeAssignedTeams, assignedTeams) \<Rightarrow>
                            Some (Returned judgeAssignedTeams
                              (Some (jq\<lparr>queues := (queues jq)(judgeId \<mapsto> judgeAssignedTeams),
                                        judgeAssigned := assignedTeams\<rparr>))))))"

text \<open>The removal of a team from a judge's queue: the queue written, after which the caller
  starts a reassignment. The value returned is used by nobody.\<close>

definition filterAssignedQueue :: "root option \<Rightarrow> string \<Rightarrow> string \<Rightarrow> queue option" where
  "filterAssignedQueue snapshot judgeId team =
     (case snapshot of
        None \<Rightarrow> None
      | Some root \<Rightarrow>
          let jq = judgingQueue root;
              judgeAssignedTeams = (case queues jq judgeId of Some q \<Rightarrow> q | None \<Rightarrow> []);
              assignedTeams = (judgeAssigned jq)(team := None);
              judgeAssignedTeams = filter (\<lambda>t. t \<noteq> team) judgeAssignedTeams in
          Some (jq\<lparr>queues := (queues jq)(judgeId \<mapsto> judgeAssignedTeams), judgeAssigned := assignedTeams\<rparr>))"

subsection \<open>The handlers and their interleaving\<close>

text \<open>A call of a handler is a task that waits for its snapshot, and then has it; the snapshot
  is processed in one piece and the queue computed from it overwrites the one in the database.
  A removal that was written starts a reassignment. Between a task's read and its write other
  tasks may read and write, and clients may change everything but the queue.\<close>

datatype task =
    AssignTeams string
  | RemoveAssignedTeam string string
  | Assigning string "root option"
  | Removing string string "root option"

record system =
  db :: "root option"
  tasks :: "task list"

definition write_queue :: "queue option \<Rightarrow> root option \<Rightarrow> root option" where
  "write_queue w d = (case w of None \<Rightarrow> d
     | Some q \<Rightarrow> Some (case d of
         None \<Rightarrow> \<lparr>judges = None, teams = [], scores = Map.empty, judgingQueue = q\<rparr>
       | Some r \<Rightarrow> r\<lparr>judgingQueue := q\<rparr>))"

definition empty_queue :: queue where
  "empty_queue = \<lparr>judgeAssigned = Map.empty, queues = Map.empty\<rparr>"

definition queue_of :: "root option \<Rightarrow> queue" where
  "queue_of d = (case d of None \<Rightarrow> empty_queue | Some r \<Rightarrow> judgingQueue r)"

inductive step :: "((team \<Rightarrow> team \<Rightarrow> int) \<Rightarrow> team list \<Rightarrow> team list) \<Rightarrow> system \<Rightarrow> system \<Rightarrow> bool"
  for srt where
  call: "t = AssignTeams j \<or> t = RemoveAssignedTeam j team \<Longrightarrow> step srt s (s\<lparr>tasks := tasks s @ [t]\<rparr>)"
| client: "queue_of d = queue_of (db s) \<Longrightarrow> step srt s (s\<lparr>db := d\<rparr>)"
| read_assign: "tasks s = ts @ AssignTeams j # us \<Longrightarrow>
    step srt s (s\<lparr>tasks := ts @ Assigning j (db s) # us\<rparr>)"
| read_remove: "tasks s = ts @ RemoveAssignedTeam j team # us \<Longrightarrow>
    step srt s (s\<lparr>tasks := ts @ Removing j team (db s) # us\<rparr>)"
| assigned: "tasks s = ts @ Assigning j d # us \<Longrightarrow> processAssignedQueue srt d j = Some (Returned r w) \<Longrightarrow>
    step srt s (s\<lparr>tasks := ts @ us, db := write_queue w (db s)\<rparr>)"
| threw: "tasks s = ts @ Assigning j d # us \<Longrightarrow> processAssignedQueue srt d j = Some Threw \<Longrightarrow>
    step srt s (s\<lparr>tasks := ts @ us\<rparr>)"
| removed: "tasks s = ts @ Removing j team d # us \<Longrightarrow> filterAssignedQueue d j team = Some q \<Longrightarrow>
    step srt s (s\<lparr>tasks := ts @ us @ [AssignTeams j], db := write_queue (Some q) (db s)\<rparr>)"
| nothing_removed: "tasks s = ts @ Removing j team d # us \<Longrightarrow> filterAssignedQueue d j team = None \<Longrightarrow>
    step srt s (s\<lparr>tasks := ts @ us\<rparr>)"

definition start_state :: "system \<Rightarrow> bool" where
  "start_state s \<longleftrightarrow> queue_of (db s) = empty_queue \<and> tasks s = []"

definition reachable :: "((team \<Rightarrow> team \<Rightarrow> int) \<Rightarrow> team list \<Rightarrow> team list) \<Rightarrow> system \<Rightarrow> bool" where
  "reachable srt s \<longleftrightarrow> (\<exists>s0. start_state s0 \<and> (step srt)\<^sup>*\<^sup>* s0 s)"

subsection \<open>The assignment loop\<close>

text \<open>\<open>fresh_ids ts queue ids\<close>: the teams have the given ids, no two the same and none in the queue.\<close>

definition fresh_ids :: "team list \<Rightarrow> string list \<Rightarrow> string list \<Rightarrow> bool" where
  "fresh_ids ts queue ids \<longleftrightarrow> map teamId ts = map Some ids \<and> distinct ids \<and> set ids \<inter> set queue = {}"

definition assign_all :: "string list \<Rightarrow> string \<Rightarrow> (string \<rightharpoonup> string) \<Rightarrow> string \<rightharpoonup> string" where
  "assign_all ids judgeId assigned = (\<lambda>t. if t \<in> set ids then Some judgeId else assigned t)"

lemma fresh_ids_Nil [simp]: "fresh_ids [] queue ids \<longleftrightarrow> ids = []"
  by (auto simp: fresh_ids_def)

lemma fresh_ids_Cons:
  "fresh_ids (t # ts) queue ids \<longleftrightarrow>
     (\<exists>x xs. ids = x # xs \<and> teamId t = Some x \<and> x \<notin> set queue \<and> fresh_ids ts (queue @ [x]) xs)"
  by (auto simp: fresh_ids_def Cons_eq_map_conv)

lemma fresh_ids_length: "fresh_ids ts queue ids \<Longrightarrow> length ids = length ts"
  unfolding fresh_ids_def by (metis length_map)

lemma fresh_ids_unique: "fresh_ids ts queue ids \<Longrightarrow> fresh_ids ts queue ids' \<Longrightarrow> ids = ids'"
  unfolding fresh_ids_def by (metis (no_types, lifting) list.inj_map_strong option.inject)

lemma assign_all_simps [simp]:
  "assign_all [] j a = a" "assign_all (t # ts) j a = assign_all ts j (a(t \<mapsto> j))"
  by (auto simp: assign_all_def)

lemma assign_all_append: "assign_all (xs @ ys) j a = assign_all ys j (assign_all xs j a)"
  by (auto simp: assign_all_def)

lemma take_drop_step:
  assumes "i < length ts" "added < n"
  shows "take (nat (n - added)) (drop i ts) = ts ! i # take (nat (n - (added + 1))) (drop (i + 1) ts)"
proof -
  have "nat (n - added) = Suc (nat (n - (added + 1)))" using assms(2) by arith
  then show ?thesis
    unfolding Cons_nth_drop_Suc [OF assms(1), symmetric] by simp
qed

lemma assign_loop_returns:
  "fresh_ids (take (nat (n - added)) (drop i ts)) queue ids \<Longrightarrow>
   assign_loop ts n j i added queue assigned = Some (added + int (length ids), queue @ ids, assign_all ids j assigned)"
proof (induction ids arbitrary: i added queue assigned)
  case Nil
  then have "take (nat (n - added)) (drop i ts) = []" using fresh_ids_length by fastforce
  then show ?case by (subst assign_loop.simps) auto
next
  case (Cons x xs)
  then have "take (nat (n - added)) (drop i ts) \<noteq> []" by auto
  then have i: "i < length ts" "added < n" by auto
  show ?case
    using Cons.prems Cons.IH [of "added + 1" "i + 1" "queue @ [x]"] i
    by (subst assign_loop.simps) (simp add: take_drop_step fresh_ids_Cons)
qed

lemma assign_loop_only:
  assumes "assign_loop ts n j i added queue assigned = Some r"
  shows "\<exists>ids. fresh_ids (take (nat (n - added)) (drop i ts)) queue ids"
  using assms
proof (induction rule: assign_loop.raw_induct [rotated, consumes 1, case_names step])
  case (step loop ts n j i added queue assigned r)
  show ?case
  proof (cases "i < length ts \<and> added < n")
    case True
    then show ?thesis
      using step(2) step(1) [of ts n j i added queue assigned r]
        step(1) [of ts n j "i + 1" "added + 1" "queue @ [the (teamId (ts ! i))]" "assigned(the (teamId (ts ! i)) \<mapsto> j)" r]
      by (auto simp: take_drop_step fresh_ids_Cons split: option.splits if_splits)
  next
    case False
    then have none: "take (nat (n - added)) (drop i ts) = []" by auto
    show ?thesis unfolding none by simp
  qed
qed

text \<open>So the loop returns exactly when the teams it would add can all be added.\<close>

lemma assign_loop_iff:
  "assign_loop ts n j 0 added queue assigned = Some r \<longleftrightarrow>
     (\<exists>ids. fresh_ids (take (nat (n - added)) ts) queue ids \<and>
        r = (added + int (length ids), queue @ ids, assign_all ids j assigned))"
proof
  assume r: "assign_loop ts n j 0 added queue assigned = Some r"
  then obtain ids where "fresh_ids (take (nat (n - added)) ts) queue ids"
    using assign_loop_only [OF r] by auto
  then show "\<exists>ids. fresh_ids (take (nat (n - added)) ts) queue ids \<and>
      r = (added + int (length ids), queue @ ids, assign_all ids j assigned)"
    using assign_loop_returns [of n added 0 ts queue ids j assigned] r by auto
qed (auto simp: assign_loop_returns)

subsection \<open>What a run assigns\<close>

definition eligible :: "root \<Rightarrow> string \<Rightarrow> judge \<Rightarrow> team list" where
  "eligible root j jd = map snd (filter (\<lambda>(k, t). is_preferred jd t \<and> \<not> is_scored root j k) (teams root))"

definition unassigned :: "root \<Rightarrow> string \<Rightarrow> judge \<Rightarrow> team list" where
  "unassigned root j jd = map snd (filter
     (\<lambda>(k, t). judgeAssigned (judgingQueue root) k = None \<and> is_preferred jd t \<and> \<not> is_scored root j k) (teams root))"

definition old_queue :: "root \<Rightarrow> string \<Rightarrow> string list" where
  "old_queue root j = (case queues (judgingQueue root) j of Some q \<Rightarrow> q | None \<Rightarrow> [])"

definition open_slots :: "root \<Rightarrow> string \<Rightarrow> nat" where
  "open_slots root j = 3 - length (old_queue root j)"

definition extend_queue :: "root \<Rightarrow> string \<Rightarrow> string list \<Rightarrow> queue" where
  "extend_queue root j ids =
     (let jq = judgingQueue root in
      jq\<lparr>queues := (queues jq)(j \<mapsto> old_queue root j @ ids), judgeAssigned := assign_all ids j (judgeAssigned jq)\<rparr>)"

lemma choose_teams_Some:
  "choose_teams root j (Some jd) es fs ps = Some
     (fs @ map snd (filter (\<lambda>(k, t). judgeAssigned (judgingQueue root) k = None \<and> is_preferred jd t \<and> \<not> is_scored root j k) es),
      ps @ map snd (filter (\<lambda>(k, t). is_preferred jd t \<and> \<not> is_scored root j k) es))"
  by (induction es arbitrary: fs ps) (auto simp: Let_def)

lemma choose_teams_None: "choose_teams root j None es fs ps = (if es = [] then Some (fs, ps) else None)"
  by (cases es) simp_all

text \<open>The outcome in terms of the two sorted lists: it exists exactly when both loops can add what
  they look at.\<close>

lemma process_loops:
  assumes "judges root = Some js" and c: "choose_teams root j (js j) (teams root) [] [] = Some (fs, ps)"
  shows "processAssignedQueue srt (Some root) j = Some out \<longleftrightarrow>
    (\<exists>ids1 ids2.
       fresh_ids (take (open_slots root j) (srt compare fs)) (old_queue root j) ids1 \<and>
       fresh_ids (take (open_slots root j - length ids1) (srt compare ps)) (old_queue root j @ ids1) ids2 \<and>
       out = Returned (old_queue root j @ ids1 @ ids2) (Some (extend_queue root j (ids1 @ ids2))))"
proof -
  have n: "nat (3 - int (length (old_queue root j))) = open_slots root j"
    "nat (3 - int (length (old_queue root j)) - int k) = open_slots root j - k" for k
    by (simp_all add: open_slots_def)
  let ?q = "old_queue root j"
  let ?jq = "judgingQueue root"
  let ?F = "srt compare fs"
  let ?P = "srt compare ps"
  have "processAssignedQueue srt (Some root) j = Some out \<longleftrightarrow>
    (\<exists>a q g. assign_loop ?F (3 - int (length ?q)) j 0 0 ?q (judgeAssigned ?jq) = Some (a, q, g) \<and>
      (\<exists>a' q' g'. assign_loop ?P (3 - int (length ?q)) j 0 a q g = Some (a', q', g') \<and>
        out = Returned q' (Some (?jq\<lparr>queues := (queues ?jq)(j \<mapsto> q'), judgeAssigned := g'\<rparr>))))"
    unfolding processAssignedQueue_def
    by (simp add: assms(1) c Let_def old_queue_def [symmetric] split: option.splits) auto
  also have "\<dots> \<longleftrightarrow> (\<exists>ids1. fresh_ids (take (open_slots root j) ?F) ?q ids1 \<and>
      (\<exists>ids2. fresh_ids (take (open_slots root j - length ids1) ?P) (?q @ ids1) ids2 \<and>
        out = Returned (?q @ ids1 @ ids2) (Some (extend_queue root j (ids1 @ ids2)))))"
    unfolding assign_loop_iff extend_queue_def Let_def assign_all_append
    by (rule iffI; elim exE conjE; clarsimp simp: n simp del: ex_simps; fastforce simp: n)
  finally show ?thesis by blast
qed

lemma process_iff:
  assumes "judges root = Some js" "js j = Some jd"
  shows "processAssignedQueue srt (Some root) j = Some out \<longleftrightarrow>
    (\<exists>ids1 ids2.
       fresh_ids (take (open_slots root j) (srt compare (unassigned root j jd))) (old_queue root j) ids1 \<and>
       fresh_ids (take (open_slots root j - length ids1) (srt compare (eligible root j jd))) (old_queue root j @ ids1) ids2 \<and>
       out = Returned (old_queue root j @ ids1 @ ids2) (Some (extend_queue root j (ids1 @ ids2))))"
  by (rule process_loops [where js = js]) (simp_all add: assms choose_teams_Some unassigned_def eligible_def)

text \<open>Whatever a run writes extends the judge's queue by new ids, to three at most.\<close>

lemma process_write:
  assumes "processAssignedQueue srt d j = Some (Returned r (Some q))"
  obtains root ids where "d = Some root" "r = old_queue root j @ ids" "q = extend_queue root j ids"
    "distinct ids" "set ids \<inter> set (old_queue root j) = {}" "length ids \<le> open_slots root j"
proof -
  from assms obtain root js fs ps where r: "d = Some root" "judges root = Some js"
    "choose_teams root j (js j) (teams root) [] [] = Some (fs, ps)"
    by (auto simp: processAssignedQueue_def Let_def split: option.splits)
  from assms [unfolded r(1) process_loops [OF r(2,3)]] obtain ids1 ids2 where
    "fresh_ids (take (open_slots root j) (srt compare fs)) (old_queue root j) ids1"
    "fresh_ids (take (open_slots root j - length ids1) (srt compare ps)) (old_queue root j @ ids1) ids2"
    "r = old_queue root j @ ids1 @ ids2" "q = extend_queue root j (ids1 @ ids2)"
    by blast
  moreover from calculation(1,2) have "length ids1 \<le> open_slots root j" "length ids2 \<le> open_slots root j - length ids1"
    by (auto dest!: fresh_ids_length)
  ultimately show thesis
    by (intro that [of root "ids1 @ ids2"]) (auto simp: fresh_ids_def r)
qed

subsection \<open>Sorting\<close>

definition score_count :: "team \<Rightarrow> nat" where
  "score_count t = (case team_scores t of Some s \<Rightarrow> length s | None \<Rightarrow> 0)"

lemma compare_count: "compare a b = sgn (int (score_count a) - int (score_count b))"
  by (auto simp: compare_def score_count_def Let_def split: option.split)

text \<open>What the code relies on: \<open>sort\<close> gives an ordered permutation. Insertion sort does.\<close>

definition sorts :: "((team \<Rightarrow> team \<Rightarrow> int) \<Rightarrow> team list \<Rightarrow> team list) \<Rightarrow> bool" where
  "sorts srt \<longleftrightarrow> (\<forall>xs. mset (srt compare xs) = mset xs \<and> sorted_wrt (\<lambda>a b. compare a b \<le> 0) (srt compare xs))"

primrec insert_by :: "('a \<Rightarrow> 'a \<Rightarrow> int) \<Rightarrow> 'a \<Rightarrow> 'a list \<Rightarrow> 'a list" where
  "insert_by cmp x [] = [x]"
| "insert_by cmp x (y # ys) = (if cmp x y \<le> 0 then x # y # ys else y # insert_by cmp x ys)"

definition insertion_sort :: "('a \<Rightarrow> 'a \<Rightarrow> int) \<Rightarrow> 'a list \<Rightarrow> 'a list" where
  "insertion_sort cmp xs = foldr (insert_by cmp) xs []"

lemma compare_le: "compare a b \<le> 0 \<longleftrightarrow> score_count a \<le> score_count b"
  by (auto simp: compare_count sgn_if)

lemma set_insert_by [simp]: "set (insert_by cmp x ys) = insert x (set ys)"
  by (induction ys) auto

lemma sorts_insertion_sort: "sorts insertion_sort"
proof -
  have "mset (insert_by cmp x ys) = add_mset x (mset ys)" for cmp x and ys :: "team list"
    by (induction ys) auto
  moreover have "sorted_wrt (\<lambda>a b. compare a b \<le> 0) ys \<Longrightarrow> sorted_wrt (\<lambda>a b. compare a b \<le> 0) (insert_by compare x ys)" for x ys
    by (induction ys) (auto simp: compare_le)
  ultimately have "mset (foldr (insert_by compare) xs []) = mset xs \<and>
      sorted_wrt (\<lambda>a b. compare a b \<le> 0) (foldr (insert_by compare) xs [])" for xs
    by (induction xs) auto
  then show ?thesis by (simp add: sorts_def insertion_sort_def)
qed

lemma sorts_set [simp]: "sorts srt \<Longrightarrow> set (srt compare xs) = set xs" "sorts srt \<Longrightarrow> length (srt compare xs) = length xs"
  by (auto simp: sorts_def dest: mset_eq_setD mset_eq_length)

subsection \<open>The invariant of the queues\<close>

definition queue_ok :: "queue \<Rightarrow> bool" where
  "queue_ok q \<longleftrightarrow> (\<forall>j l. queues q j = Some l \<longrightarrow> length l \<le> 3 \<and> distinct l)"

definition task_ok :: "task \<Rightarrow> bool" where
  "task_ok t = (case t of Assigning _ d \<Rightarrow> queue_ok (queue_of d) | Removing _ _ d \<Rightarrow> queue_ok (queue_of d) | _ \<Rightarrow> True)"

definition system_ok :: "system \<Rightarrow> bool" where
  "system_ok s \<longleftrightarrow> queue_ok (queue_of (db s)) \<and> list_all task_ok (tasks s)"

lemma queue_of_write [simp]: "queue_of (write_queue (Some q) d) = q" "write_queue None d = d"
  by (cases d) (simp_all add: write_queue_def queue_of_def)

lemma queue_ok_old: "queue_ok (judgingQueue root) \<Longrightarrow> length (old_queue root j) \<le> 3 \<and> distinct (old_queue root j)"
  by (auto simp: queue_ok_def old_queue_def split: option.split)

lemma queue_ok_extend:
  assumes "queue_ok (judgingQueue root)" "distinct ids" "set ids \<inter> set (old_queue root j) = {}"
    "length ids \<le> open_slots root j"
  shows "queue_ok (extend_queue root j ids)"
  using assms queue_ok_old [OF assms(1), of j]
  by (auto simp: queue_ok_def extend_queue_def Let_def open_slots_def)

lemma process_ok:
  assumes "processAssignedQueue srt d j = Some (Returned r w)" "queue_ok (queue_of d)" "queue_ok (queue_of d')"
  shows "queue_ok (queue_of (write_queue w d'))"
proof (cases w)
  case (Some q)
  then obtain root ids where "d = Some root" "q = extend_queue root j ids"
    "distinct ids" "set ids \<inter> set (old_queue root j) = {}" "length ids \<le> open_slots root j"
    using assms(1) by (auto elim: process_write)
  then have "queue_ok q" using assms(2) by (simp add: queue_ok_extend queue_of_def)
  then show ?thesis using Some by simp
qed (use assms in simp)

lemma filter_ok:
  assumes "filterAssignedQueue d j t = Some q" "queue_ok (queue_of d)"
  shows "queue_ok q"
proof -
  from assms(1) obtain root where r: "d = Some root"
    "q = (judgingQueue root)\<lparr>queues := (queues (judgingQueue root))(j \<mapsto> filter (\<lambda>x. x \<noteq> t) (old_queue root j)),
      judgeAssigned := (judgeAssigned (judgingQueue root))(t := None)\<rparr>"
    by (auto simp: filterAssignedQueue_def Let_def old_queue_def split: option.splits)
  have ok: "queue_ok (judgingQueue root)" using assms(2) r(1) by (simp add: queue_of_def)
  have "length (filter (\<lambda>x. x \<noteq> t) (old_queue root j)) \<le> 3"
    using queue_ok_old [OF ok, of j] length_filter_le [of "\<lambda>x. x \<noteq> t" "old_queue root j"] by linarith
  then show ?thesis using queue_ok_old [OF ok, of j] ok r(2) by (auto simp: queue_ok_def)
qed

lemma step_ok: "step srt s s' \<Longrightarrow> system_ok s \<Longrightarrow> system_ok s'"
  by (induction rule: step.induct)
    (auto simp: system_ok_def task_ok_def intro: process_ok filter_ok)

lemma steps_ok: "(step srt)\<^sup>*\<^sup>* s s' \<Longrightarrow> system_ok s \<Longrightarrow> system_ok s'"
  by (induction rule: rtranclp.induct) (auto intro: step_ok)

lemma reachable_ok: "reachable srt s \<Longrightarrow> system_ok s"
proof -
  assume "reachable srt s"
  then obtain s0 where s0: "start_state s0" "(step srt)\<^sup>*\<^sup>* s0 s" by (auto simp: reachable_def)
  have "system_ok s0"
    using s0(1) by (simp add: start_state_def system_ok_def queue_ok_def empty_queue_def)
  with s0(2) show ?thesis by (rule steps_ok)
qed

subsection \<open>Returning, and not returning\<close>

text \<open>A database in which a team's \<open>teamId\<close> is its key, no key comes twice, and whatever stands
  in the judge's queue is marked as assigned.\<close>

definition consistent :: "root \<Rightarrow> string \<Rightarrow> bool" where
  "consistent root j \<longleftrightarrow> distinct (map fst (teams root)) \<and> (\<forall>(k, t) \<in> set (teams root). teamId t = Some k) \<and>
     set (old_queue root j) \<subseteq> dom (judgeAssigned (judgingQueue root))"

lemma take_fresh:
  assumes "mset ts = mset us" "map teamId us = map Some ids" "distinct ids" "set ids \<inter> set q = {}"
  shows "\<exists>xs. fresh_ids (take n ts) q xs"
proof -
  define xs where "xs = map (the \<circ> teamId) ts"
  have us: "map (the \<circ> teamId) us = ids" using arg_cong [OF assms(2), of "map the"] by (simp add: comp_def)
  have "mset xs = mset ids" using assms(1) unfolding xs_def us [symmetric] by (simp only: mset_map)
  then have x: "distinct xs" "set xs = set ids" using assms(3) by (metis mset_eq_imp_distinct_iff, metis mset_eq_setD)
  have "teamId t \<noteq> None" if "t \<in> set us" for t
    using imageI [OF that, of teamId] arg_cong [OF assms(2), of set] by auto
  then have "map teamId ts = map Some xs" using mset_eq_setD [OF assms(1)] by (auto simp: xs_def)
  then have "fresh_ids (take n ts) q (take n xs)"
    using x assms(4) by (auto simp: fresh_ids_def take_map [symmetric] dest: in_set_takeD)
  then show ?thesis ..
qed

lemma returns_if_enough:
  assumes srt: "sorts srt" and j: "judges root = Some js" "js j = Some jd"
    and c: "consistent root j" and n: "open_slots root j \<le> length (unassigned root j jd)"
  shows "\<exists>ids. processAssignedQueue srt (Some root) j =
      Some (Returned (old_queue root j @ ids) (Some (extend_queue root j ids))) \<and>
    length ids = open_slots root j \<and>
    map teamId (take (open_slots root j) (srt compare (unassigned root j jd))) = map Some ids"
proof -
  let ?es = "filter (\<lambda>(k, t). judgeAssigned (judgingQueue root) k = None \<and> is_preferred jd t \<and> \<not> is_scored root j k) (teams root)"
  have "map teamId (unassigned root j jd) = map Some (map fst ?es)"
    using c by (auto simp: unassigned_def consistent_def)
  moreover have "distinct (map fst ?es)" using c by (simp add: consistent_def distinct_map_filter)
  moreover have "set (map fst ?es) \<inter> set (old_queue root j) = {}" using c by (fastforce simp: consistent_def)
  moreover have "mset (srt compare (unassigned root j jd)) = mset (unassigned root j jd)" using srt by (simp add: sorts_def)
  ultimately obtain ids where ids: "fresh_ids (take (open_slots root j) (srt compare (unassigned root j jd))) (old_queue root j) ids"
    using take_fresh by blast
  have len: "length ids = open_slots root j" using fresh_ids_length [OF ids] srt n by simp
  then show ?thesis
    using ids process_iff [of root js j jd srt] j by (intro exI [of _ ids]) (auto simp: fresh_ids_def)
qed

lemma never_returns:
  assumes srt: "sorts srt" and j: "judges root = Some js" "js j = Some jd"
    and n: "length (unassigned root j jd) + length (eligible root j jd) \<le> open_slots root j"
    and t: "t \<in> set (eligible root j jd)"
      "t \<in> set (unassigned root j jd) \<or> (\<exists>x \<in> set (old_queue root j). teamId t = Some x)"
  shows "processAssignedQueue srt (Some root) j = None"
proof (rule ccontr)
  assume "\<not> ?thesis"
  then obtain ids1 ids2 where
    i1: "fresh_ids (take (open_slots root j) (srt compare (unassigned root j jd))) (old_queue root j) ids1" and
    i2: "fresh_ids (take (open_slots root j - length ids1) (srt compare (eligible root j jd))) (old_queue root j @ ids1) ids2"
    using process_iff [of root js j jd srt] j by auto
  have f1: "fresh_ids (srt compare (unassigned root j jd)) (old_queue root j) ids1"
    using i1 srt n by (simp add: take_all)
  have f2: "fresh_ids (srt compare (eligible root j jd)) (old_queue root j @ ids1) ids2"
    using i2 fresh_ids_length [OF f1] srt n by (simp add: take_all)
  have s1: "teamId ` set (unassigned root j jd) = Some ` set ids1"
    using arg_cong [OF conjunct1 [OF f1 [unfolded fresh_ids_def]], of set] srt by simp
  have s2: "teamId ` set (eligible root j jd) = Some ` set ids2"
    using arg_cong [OF conjunct1 [OF f2 [unfolded fresh_ids_def]], of set] srt by simp
  obtain x where x: "teamId t = Some x" "x \<in> set ids2"
    using imageI [OF t(1), of teamId] unfolding s2 by auto
  have "x \<in> set (old_queue root j) \<union> set ids1"
    using t(2) x(1) imageI [of t "set (unassigned root j jd)" teamId] unfolding s1 by auto
  then show False using f2 x(2) by (auto simp: fresh_ids_def)
qed

end
