(* ===== verification/LdbCoding.thy ===== *)
theory LdbCoding
  imports PbVarint
begin

text \<open>
  LevelDB's encoding of integers and byte strings (util/coding.cc, util/coding.h). A \<open>Slice\<close> and
  a \<open>std::string\<close> are lists of bytes; an encoder that appends to a string is the list it appends;
  a decoder with a pointer and a limit takes the bytes from the one to the other and gives the
  value and the bytes after it, or \<open>None\<close> where the code returns a null pointer or false.
\<close>

type_synonym bytes = "u8 list"

subsection \<open>Fixed-width integers\<close>

definition EncodeFixed32 :: "u32 \<Rightarrow> bytes" where
  "EncodeFixed32 v = [ucast v, ucast (drop_bit 8 v), ucast (drop_bit 16 v), ucast (drop_bit 24 v)]"

definition EncodeFixed64 :: "u64 \<Rightarrow> bytes" where
  "EncodeFixed64 v = [ucast v, ucast (drop_bit 8 v), ucast (drop_bit 16 v), ucast (drop_bit 24 v),
     ucast (drop_bit 32 v), ucast (drop_bit 40 v), ucast (drop_bit 48 v), ucast (drop_bit 56 v)]"

definition PutFixed32 :: "bytes \<Rightarrow> u32 \<Rightarrow> bytes" where "PutFixed32 dst v = dst @ EncodeFixed32 v"
definition PutFixed64 :: "bytes \<Rightarrow> u64 \<Rightarrow> bytes" where "PutFixed64 dst v = dst @ EncodeFixed64 v"

definition DecodeFixed32 :: "bytes \<Rightarrow> u32" where
  "DecodeFixed32 p = ucast (p ! 0) OR push_bit 8 (ucast (p ! 1)) OR push_bit 16 (ucast (p ! 2)) OR push_bit 24 (ucast (p ! 3))"

definition DecodeFixed64 :: "bytes \<Rightarrow> u64" where
  "DecodeFixed64 p =
     (let lo = ucast (DecodeFixed32 p); hi = ucast (DecodeFixed32 (drop 4 p)) in push_bit 32 hi OR lo)"

lemma length_EncodeFixed [simp]: "length (EncodeFixed32 v) = 4" "length (EncodeFixed64 w) = 8"
  by (simp_all add: EncodeFixed32_def EncodeFixed64_def)

lemma nth_four: "(a # b # c # d # r) ! 0 = a" "(a # b # c # d # r) ! 1 = b" "(a # b # c # d # r) ! 2 = c"
  "(a # b # c # d # r) ! 3 = d"
  by simp_all

lemma DecodeFixed32_Encode [simp]: "DecodeFixed32 (EncodeFixed32 v @ rest) = v"
  unfolding DecodeFixed32_def EncodeFixed32_def append_Cons append_Nil nth_four
  by (rule bit_word_eqI) (auto simp: bit_simps not_less, rule ccontr, simp add: not_less)

lemma DecodeFixed64_Encode [simp]: "DecodeFixed64 (EncodeFixed64 v @ rest) = v"
proof -
  have "EncodeFixed64 v @ rest = EncodeFixed32 (ucast v) @ EncodeFixed32 (ucast (drop_bit 32 v)) @ rest"
    by (simp add: EncodeFixed64_def EncodeFixed32_def) (intro conjI bit_word_eqI; simp add: bit_simps)
  then have "DecodeFixed64 (EncodeFixed64 v @ rest) = push_bit 32 (ucast (ucast (drop_bit 32 v) :: u32)) OR ucast (ucast v :: u32)"
    by (simp add: DecodeFixed64_def Let_def)
  also have "\<dots> = v" by (rule bit_word_eqI) (auto simp: bit_simps)
  finally show ?thesis .
qed

subsection \<open>Variable-length integers\<close>

definition EncodeVarint32 :: "u32 \<Rightarrow> bytes" where
  "EncodeVarint32 v =
     (let B = 128 in
      if v < 2 ^ 7 then [ucast v]
      else if v < 2 ^ 14 then [ucast (v OR B), ucast (drop_bit 7 v)]
      else if v < 2 ^ 21 then [ucast (v OR B), ucast (drop_bit 7 v OR B), ucast (drop_bit 14 v)]
      else if v < 2 ^ 28 then [ucast (v OR B), ucast (drop_bit 7 v OR B), ucast (drop_bit 14 v OR B), ucast (drop_bit 21 v)]
      else [ucast (v OR B), ucast (drop_bit 7 v OR B), ucast (drop_bit 14 v OR B), ucast (drop_bit 21 v OR B),
            ucast (drop_bit 28 v)])"

definition PutVarint32 :: "bytes \<Rightarrow> u32 \<Rightarrow> bytes" where "PutVarint32 dst v = dst @ EncodeVarint32 v"

function EncodeVarint64 :: "u64 \<Rightarrow> bytes" where
  "EncodeVarint64 v =
     (if v \<ge> 128 then ucast (v OR 128) # EncodeVarint64 (drop_bit 7 v) else [ucast v])"
  by pat_completeness auto
termination
  by (relation "measure unat") (auto intro!: unat_drop_bit_7_less)

declare EncodeVarint64.simps [simp del]

definition PutVarint64 :: "bytes \<Rightarrow> u64 \<Rightarrow> bytes" where "PutVarint64 dst v = dst @ EncodeVarint64 v"

text \<open>The length of the string is cut to 32 bits.\<close>

definition PutLengthPrefixedSlice :: "bytes \<Rightarrow> bytes \<Rightarrow> bytes" where
  "PutLengthPrefixedSlice dst value = PutVarint32 dst (of_nat (length value)) @ value"

function VarintLength :: "u64 \<Rightarrow> nat" where
  "VarintLength v = (if v \<ge> 128 then VarintLength (drop_bit 7 v) + 1 else 1)"
  by pat_completeness auto
termination
  by (relation "measure unat") (auto intro!: unat_drop_bit_7_less)

declare VarintLength.simps [simp del]

fun get_varint32_loop :: "nat \<Rightarrow> u32 \<Rightarrow> bytes \<Rightarrow> (u32 \<times> bytes) option" where
  "get_varint32_loop shift result [] = None"
| "get_varint32_loop shift result (b # p) =
     (if shift \<le> 28
      then let byte = ucast b in
        if byte AND 128 \<noteq> 0 then get_varint32_loop (shift + 7) (result OR push_bit shift (byte AND 127)) p
        else Some (result OR push_bit shift byte, p)
      else None)"

definition GetVarint32PtrFallback :: "bytes \<Rightarrow> (u32 \<times> bytes) option" where
  "GetVarint32PtrFallback p = get_varint32_loop 0 0 p"

definition GetVarint32Ptr :: "bytes \<Rightarrow> (u32 \<times> bytes) option" where
  "GetVarint32Ptr p =
     (case p of
        [] \<Rightarrow> GetVarint32PtrFallback p
      | b # q \<Rightarrow> let result = ucast b in if result AND 128 = 0 then Some (result, q) else GetVarint32PtrFallback p)"

definition GetVarint32 :: "bytes \<Rightarrow> (u32 \<times> bytes) option" where
  "GetVarint32 input = GetVarint32Ptr input"

fun get_varint64_loop :: "nat \<Rightarrow> u64 \<Rightarrow> bytes \<Rightarrow> (u64 \<times> bytes) option" where
  "get_varint64_loop shift result [] = None"
| "get_varint64_loop shift result (b # p) =
     (if shift \<le> 63
      then let byte = ucast b in
        if byte AND 128 \<noteq> 0 then get_varint64_loop (shift + 7) (result OR push_bit shift (byte AND 127)) p
        else Some (result OR push_bit shift byte, p)
      else None)"

definition GetVarint64Ptr :: "bytes \<Rightarrow> (u64 \<times> bytes) option" where
  "GetVarint64Ptr p = get_varint64_loop 0 0 p"

definition GetVarint64 :: "bytes \<Rightarrow> (u64 \<times> bytes) option" where
  "GetVarint64 input = GetVarint64Ptr input"

text \<open>The version that advances a slice; the one with pointers computes the same.\<close>

definition GetLengthPrefixedSlice :: "bytes \<Rightarrow> (bytes \<times> bytes) option" where
  "GetLengthPrefixedSlice input =
     (case GetVarint32 input of
        Some (len, input) \<Rightarrow>
          if length input \<ge> unat len then Some (take (unat len) input, drop (unat len) input) else None
      | None \<Rightarrow> None)"

definition GetLengthPrefixedSlicePtr :: "bytes \<Rightarrow> (bytes \<times> bytes) option" where
  "GetLengthPrefixedSlicePtr p =
     (case GetVarint32Ptr p of
        None \<Rightarrow> None
      | Some (len, p) \<Rightarrow>
          if unat len > length p then None else Some (take (unat len) p, drop (unat len) p))"

subsection \<open>The contract of a pair of Put and Get\<close>

text \<open>\<open>put\<close> gives the bytes of a value and \<open>get\<close> takes them off the front of a slice.\<close>

locale slice_codec =
  fixes put :: "'a \<Rightarrow> bytes" and get :: "bytes \<Rightarrow> ('a \<times> bytes) option" and valid :: "'a \<Rightarrow> bool"
  assumes get_put: "valid a \<Longrightarrow> get (put a @ rest) = Some (a, rest)"
begin

lemma get_put_exact: "valid a \<Longrightarrow> get (put a) = Some (a, [])"
  using get_put [of a "[]"] by simp

lemma put_prefix_free: "valid a \<Longrightarrow> valid b \<Longrightarrow> put a @ r = put b @ r' \<Longrightarrow> a = b \<and> r = r'"
  by (metis get_put option.inject prod.inject)

end

text \<open>The bytes are those of protocol buffers.\<close>

lemma ucast_or_128: "ucast (v OR 128 :: 'a::len word) = (ucast v OR 0x80 :: u8)" if "8 \<le> LENGTH('a)"
  using that by (intro bit_word_eqI) (auto simp: bit_simps)

lemma and_7F_or_80: "ucast (v AND 0x7F) OR 0x80 = (ucast v OR 0x80 :: u8)" for v :: u64
  unfolding and_7F by (rule bit_word_eqI) (unfold bit_or_iff bit_80_u8, auto simp: bit_simps)

lemma EncodeVarint64_bytes: "EncodeVarint64 v = varint_buffer v"
proof (induction v rule: varint_buffer_induct)
  case (last v)
  then show ?case by (subst EncodeVarint64.simps) (auto simp: varint_buffer_rec word_le_nat_alt)
next
  case (more v)
  then show ?case
    by (subst EncodeVarint64.simps, subst varint_buffer_rec) (auto simp: word_le_nat_alt ucast_or_128 and_7F_or_80)
qed


lemma unat_drop_bit_7: "unat (drop_bit 7 v) = unat (v :: u64) div 128"
  by (simp add: drop_bit_eq_div unat_div)

lemma unat_two_power: "n < LENGTH('a) \<Longrightarrow> unat (2 ^ n :: 'a::len word) = 2 ^ n"
proof -
  assume n: "n < LENGTH('a)"
  have "unat (of_nat (2 ^ n) :: 'a word) = 2 ^ n"
    using n by (simp only: unat_of_nat) (simp add: take_bit_nat_eq_self)
  then show ?thesis by simp
qed

lemma EncodeVarint32_bytes: "EncodeVarint32 v = varint_buffer (ucast v)"
proof -
  have d: "ucast (drop_bit n v) = (drop_bit n (ucast v) :: u64)" for n
    by (rule bit_word_eqI) (auto simp: bit_simps dest: bit_imp_le_length)
  have g: "ucast (drop_bit n v OR 128) = (ucast (drop_bit n (ucast v :: u64) AND 0x7F) OR 0x80 :: u8)" for n
    unfolding and_7F_or_80 d [symmetric] by (subst ucast_or_128) (auto intro!: arg_cong2 [where f = "(OR)"] bit_word_eqI simp: bit_simps)
  have l: "ucast (drop_bit n v) = (ucast (drop_bit n (ucast v :: u64)) :: u8)" for n
    unfolding d [symmetric] by (auto intro!: bit_word_eqI simp: bit_simps)
  have le: "drop_bit n (ucast v :: u64) \<le> 0x7F \<longleftrightarrow> v < 2 ^ (n + 7)" if "n < 25" for n
  proof -
    have t: "unat (2 ^ n :: u64) = 2 ^ n" "unat (2 ^ (n + 7) :: u32) = 2 ^ (n + 7)"
      by (rule unat_two_power, use that in simp)+
    have "drop_bit n (ucast v :: u64) \<le> 0x7F \<longleftrightarrow> unat v div 2 ^ n < 128"
      by (auto simp: word_le_nat_alt drop_bit_eq_div unat_div t)
    also have "\<dots> \<longleftrightarrow> unat v < 2 ^ (n + 7)"
      by (simp add: div_less_iff_less_mult power_add mult.commute)
    also have "\<dots> \<longleftrightarrow> v < 2 ^ (n + 7)"
      by (simp only: word_less_nat_alt t)
    finally show ?thesis .
  qed
  have top: "drop_bit 28 (ucast v :: u64) \<le> 0x7F"
    using unat_u32_less [of v] by (simp add: word_le_nat_alt drop_bit_eq_div unat_div)
  show ?thesis
    using le [of 0] le [of 7] le [of 14] le [of 21] top g [of 0] g [of 7] g [of 14] g [of 21] l [of 0] l [of 7] l [of 14] l [of 21] l [of 28]
    by (simp add: EncodeVarint32_def Let_def varint_buffer_rec [of "ucast v"] varint_buffer_rec [of "drop_bit 7 (ucast v)"]
        varint_buffer_rec [of "drop_bit 14 (ucast v)"] varint_buffer_rec [of "drop_bit 21 (ucast v)"]
        varint_buffer_rec [of "drop_bit 28 (ucast v)"])
qed

lemma VarintLength_EncodeVarint64: "VarintLength v = length (EncodeVarint64 v)"
proof (induction v rule: VarintLength.induct)
  case (1 v)
  then show ?case by (subst VarintLength.simps, subst EncodeVarint64.simps) simp
qed

lemma length_EncodeVarint: "length (EncodeVarint64 v) \<le> 10" "length (EncodeVarint32 w) \<le> 5"
proof -
  have "unat w < 2 ^ (7 * 5)" using unat_u32_less [of w] by simp
  then show "length (EncodeVarint64 v) \<le> 10" "length (EncodeVarint32 w) \<le> 5"
    using length_varint_buffer_le [of v] length_varint_buffer [of "ucast w" 5]
    by (simp_all add: EncodeVarint64_bytes EncodeVarint32_bytes)
qed

subsection \<open>Reading them back\<close>

lemma group_byte:
  assumes "v \<le> 0x7F"
  shows "(ucast (ucast v :: u8) :: 'a::len word) AND 128 = 0" "ucast (ucast v :: u8) = (ucast (v :: u64) :: 'a word)"
proof -
  have b: "bit (ucast (ucast v :: u8) :: 'a word) n \<longleftrightarrow> n < LENGTH('a) \<and> n < 7 \<and> bit v n" for n
    using le_7F_bit [OF assms, of n] by (auto simp: bit_simps)
  show "(ucast (ucast v :: u8) :: 'a word) AND 128 = 0"
    using bit_iff_and_push_bit_not_eq_0 [of "ucast (ucast v :: u8) :: 'a word" 7] b [of 7] by simp
  show "ucast (ucast v :: u8) = (ucast v :: 'a word)"
  proof (rule bit_word_eqI)
    fix n
    show "bit (ucast (ucast v :: u8) :: 'a word) n = bit (ucast v :: 'a word) n" if "n < LENGTH('a)"
      using le_7F_bit [OF assms, of n] b [of n] that by (auto simp: bit_ucast_iff)
  qed
qed

lemma more_byte:
  fixes v :: u64
  defines "b \<equiv> ucast (ucast (v AND 0x7F) OR 0x80 :: u8) :: 'a::len word"
  assumes "8 \<le> LENGTH('a)"
  shows "b AND 128 \<noteq> 0" "b AND 127 = ucast (take_bit 7 v)"
proof -
  have b: "bit b n \<longleftrightarrow> n < 7 \<and> bit v n \<or> n = 7" for n
    using assms(2) unfolding b_def and_7F bit_ucast_iff bit_group by auto
  have "b AND 128 = 0 \<longleftrightarrow> \<not> bit b 7"
    using bit_iff_and_push_bit_not_eq_0 [of b 7] by simp
  then show "b AND 128 \<noteq> 0" using b by simp
  show "b AND 127 = ucast (take_bit 7 v)"
    using and_7F [of b] assms(2) by (intro bit_word_eqI) (auto simp: bit_simps b)
qed

lemma get_varint64_loop_put:
  assumes "unat v < 2 ^ (64 - p)" "p < 64"
  shows "get_varint64_loop p r (varint_buffer v @ rest) = Some (r OR push_bit p v, rest)"
  using assms
proof (induction v arbitrary: p r rule: varint_buffer_induct)
  case (last v)
  then show ?case using group_byte [OF last(1), where 'a = 64] by (simp add: varint_buffer_rec Let_def)
next
  case (more v)
  then have big: "2 ^ 7 \<le> unat v" by (auto simp: word_le_nat_alt)
  have "(2::nat) ^ 7 < 2 ^ (64 - p)" using big more.prems(1) by (rule le_less_trans)
  from power_less_imp_less_exp [OF _ this] have p: "p + 7 < 64" by simp
  have "64 - p = (64 - (p + 7)) + 7" using p by simp
  then have "(2::nat) ^ (64 - p) = 2 ^ (64 - (p + 7)) * 2 ^ 7" by (metis power_add)
  then have "unat (drop_bit 7 v) < 2 ^ (64 - (p + 7))"
    using more.prems(1) by (simp add: unat_drop_bit_7 less_mult_imp_div_less)
  note IH = more.IH [OF this p]
  have "(r OR push_bit p (take_bit 7 v)) OR push_bit (p + 7) (drop_bit 7 v) = r OR push_bit p v"
    by (rule bit_word_eqI) (auto simp: bit_simps, metis diff_diff_left le_add_diff_inverse not_less)
  moreover have "varint_buffer v = (ucast (v AND 0x7F) OR 0x80) # varint_buffer (drop_bit 7 v)"
    using more.hyps by (subst varint_buffer_rec) simp
  ultimately show ?case
    using p more_byte [of v, where 'a = 64] by (simp add: Let_def IH)
qed

lemma get_varint32_loop_put:
  assumes "unat v < 2 ^ (32 - 7 * k)" "k < 5"
  shows "get_varint32_loop (7 * k) r (varint_buffer v @ rest) = Some (r OR push_bit (7 * k) (ucast v), rest)"
  using assms
proof (induction v arbitrary: k r rule: varint_buffer_induct)
  case (last v)
  then show ?case using group_byte [OF last(1), where 'a = 32] by (simp add: varint_buffer_rec Let_def)
next
  case (more v)
  then have big: "2 ^ 7 \<le> unat v" by (auto simp: word_le_nat_alt)
  have "(2::nat) ^ 7 < 2 ^ (32 - 7 * k)" using big more.prems(1) by (rule le_less_trans)
  from power_less_imp_less_exp [OF _ this] have p: "Suc k < 5" by simp
  have "32 - 7 * k = (32 - 7 * Suc k) + 7" using p by simp
  then have "(2::nat) ^ (32 - 7 * k) = 2 ^ (32 - 7 * Suc k) * 2 ^ 7" by (metis power_add)
  then have "unat (drop_bit 7 v) < 2 ^ (32 - 7 * Suc k)"
    using more.prems(1) by (simp add: unat_drop_bit_7 less_mult_imp_div_less)
  note IH = more.IH [OF this p]
  have "(r OR push_bit (7 * k) (ucast (take_bit 7 v))) OR push_bit (7 * Suc k) (ucast (drop_bit 7 v)) = r OR push_bit (7 * k) (ucast v)"
    by (rule bit_word_eqI) (auto simp: bit_simps not_less, smt (verit) add.commute add_diff_cancel_right add_diff_inverse_nat add_le_imp_le_diff diff_diff_left not_less)
  moreover have "varint_buffer v = (ucast (v AND 0x7F) OR 0x80) # varint_buffer (drop_bit 7 v)"
    using more.hyps by (subst varint_buffer_rec) simp
  ultimately show ?case
    using p more_byte [of v, where 'a = 32] IH by (simp add: Let_def add.commute [of "7 * k"])
qed


lemma GetVarint64_put: "GetVarint64 (EncodeVarint64 v @ rest) = Some (v, rest)"
  using get_varint64_loop_put [of v 0 0 rest] unat_u64_less [of v]
  by (simp add: GetVarint64_def GetVarint64Ptr_def EncodeVarint64_bytes)

text \<open>The one-byte fast path computes what the loop does.\<close>

lemma GetVarint32Ptr_loop: "GetVarint32Ptr p = get_varint32_loop 0 0 p"
  by (cases p) (simp_all add: GetVarint32Ptr_def GetVarint32PtrFallback_def Let_def)

lemma ucast_32_64_32: "ucast (ucast v :: u64) = (v :: u32)"
  by (rule bit_word_eqI) (simp add: bit_simps)

lemma GetVarint32_put: "GetVarint32 (EncodeVarint32 v @ rest) = Some (v, rest)"
  using get_varint32_loop_put [of "ucast v" 0 0 rest] unat_u32_less [of v]
  by (simp add: GetVarint32_def GetVarint32Ptr_loop EncodeVarint32_bytes ucast_32_64_32)

text \<open>Both decoders shorten the slice, and look at no more than five and ten bytes.\<close>

lemma get_varint32_loop_bound:
  "get_varint32_loop s r p = Some (v, q) \<Longrightarrow> \<exists>u. p = u @ q \<and> u \<noteq> [] \<and> (s = 7 * k \<longrightarrow> length u + k \<le> 5)"
proof (induction s r p arbitrary: k rule: get_varint32_loop.induct)
  case (2 s r b p)
  show ?case
  proof (cases "(ucast b :: u32) AND 128 \<noteq> 0")
    case True
    then obtain u where "p = u @ q" "s + 7 = 7 * Suc k \<longrightarrow> length u + Suc k \<le> 5"
      using 2(1) [of "ucast b" "Suc k"] 2(2) by (auto simp: Let_def split: if_splits)
    then show ?thesis by (intro exI [of _ "b # u"]) auto
  next
    case False
    then show ?thesis using 2(2) by (intro exI [of _ "[b]"]) (auto simp: Let_def split: if_splits)
  qed
qed simp

lemma get_varint64_loop_bound:
  "get_varint64_loop s r p = Some (v, q) \<Longrightarrow> \<exists>u. p = u @ q \<and> u \<noteq> [] \<and> (s = 7 * k \<longrightarrow> length u + k \<le> 10)"
proof (induction s r p arbitrary: k rule: get_varint64_loop.induct)
  case (2 s r b p)
  show ?case
  proof (cases "(ucast b :: u64) AND 128 \<noteq> 0")
    case True
    then obtain u where "p = u @ q" "s + 7 = 7 * Suc k \<longrightarrow> length u + Suc k \<le> 10"
      using 2(1) [of "ucast b" "Suc k"] 2(2) by (auto simp: Let_def split: if_splits)
    then show ?thesis by (intro exI [of _ "b # u"]) auto
  next
    case False
    then show ?thesis using 2(2) by (intro exI [of _ "[b]"]) (auto simp: Let_def split: if_splits)
  qed
qed simp

lemma GetVarint_bound:
  "GetVarint32 p = Some (v, q) \<Longrightarrow> \<exists>u. p = u @ q \<and> u \<noteq> [] \<and> length u \<le> 5"
  "GetVarint64 p = Some (w, q) \<Longrightarrow> \<exists>u. p = u @ q \<and> u \<noteq> [] \<and> length u \<le> 10"
  using get_varint32_loop_bound [of 0 0 p v q 0] get_varint64_loop_bound [of 0 0 p w q 0]
  by (auto simp: GetVarint32_def GetVarint32Ptr_loop GetVarint64_def GetVarint64Ptr_def)

definition length_prefixed :: "bytes \<Rightarrow> bytes" where
  "length_prefixed x = PutLengthPrefixedSlice [] x"

lemma PutLengthPrefixedSlice_append: "PutLengthPrefixedSlice dst x = dst @ length_prefixed x"
  by (simp add: length_prefixed_def PutLengthPrefixedSlice_def PutVarint32_def)

lemma unat_of_nat_32: "n < 2 ^ 32 \<Longrightarrow> unat (of_nat n :: u32) = n"
  by (simp add: unat_of_nat take_bit_nat_eq_self)

lemma GetLengthPrefixedSlice_put:
  "length x < 2 ^ 32 \<Longrightarrow> GetLengthPrefixedSlice (length_prefixed x @ rest) = Some (x, rest)"
  by (simp add: length_prefixed_def PutLengthPrefixedSlice_def PutVarint32_def GetLengthPrefixedSlice_def
      GetVarint32_put unat_of_nat_32)

lemma GetLengthPrefixedSlicePtr_eq: "GetLengthPrefixedSlicePtr = GetLengthPrefixedSlice"
  by (rule ext) (auto simp: GetLengthPrefixedSlicePtr_def GetLengthPrefixedSlice_def GetVarint32_def split: option.split)

interpretation varint32_slice: slice_codec EncodeVarint32 GetVarint32 "\<lambda>_. True"
  by unfold_locales (rule GetVarint32_put)

interpretation varint64_slice: slice_codec EncodeVarint64 GetVarint64 "\<lambda>_. True"
  by unfold_locales (rule GetVarint64_put)

interpretation prefixed_slice: slice_codec length_prefixed GetLengthPrefixedSlice "\<lambda>x. length x < 2 ^ 32"
  by unfold_locales (rule GetLengthPrefixedSlice_put)

subsection \<open>Arrays of fixed-width integers\<close>

lemma fold_PutFixed32: "fold (\<lambda>v dst. PutFixed32 dst v) vs dst = dst @ concat (map EncodeFixed32 vs)"
  by (induction vs arbitrary: dst) (simp_all add: PutFixed32_def)

lemma length_EncodeFixed32s: "length (concat (map EncodeFixed32 vs)) = 4 * length vs"
  by (induction vs) simp_all

lemma nth_EncodeFixed32s:
  "i < length vs \<Longrightarrow> DecodeFixed32 (drop (i * 4) (concat (map EncodeFixed32 vs)) @ r) = vs ! i"
proof (induction vs arbitrary: i)
  case (Cons v vs)
  then show ?case by (cases i) (simp_all add: length_EncodeFixed32s)
qed simp

end
