(* ===== verification/LdbKey.thy ===== *)
theory LdbKey
  imports LdbCoding "HOL-Library.List_Lexorder"
begin

text \<open>
  LevelDB's key orders: the contract of a comparator (include/leveldb/comparator.h) as a locale,
  the bytewise comparator (util/comparator.cc) and the internal keys that carry a sequence
  number and a value type (db/dbformat.cc, db/dbformat.h), whose comparator meets the contract
  whenever the user's does. Byte strings are ordered lexicographically by the library's
  instance for lists.
\<close>

subsection \<open>The contract of a comparator\<close>

locale comparator =
  fixes compare :: "bytes \<Rightarrow> bytes \<Rightarrow> int"
    and find_separator :: "bytes \<Rightarrow> bytes \<Rightarrow> bytes"
    and find_successor :: "bytes \<Rightarrow> bytes"
    and valid :: "bytes \<Rightarrow> bool"
  assumes compare_eq: "valid a \<Longrightarrow> valid b \<Longrightarrow> compare a b = 0 \<longleftrightarrow> a = b"
    and compare_swap: "valid a \<Longrightarrow> valid b \<Longrightarrow> compare a b < 0 \<longleftrightarrow> 0 < compare b a"
    and compare_trans: "valid a \<Longrightarrow> valid b \<Longrightarrow> valid c \<Longrightarrow> compare a b < 0 \<Longrightarrow> compare b c < 0 \<Longrightarrow> compare a c < 0"
    and separator: "valid a \<Longrightarrow> valid b \<Longrightarrow> compare a b < 0 \<Longrightarrow>
      valid (find_separator a b) \<and> compare a (find_separator a b) \<le> 0 \<and> compare (find_separator a b) b < 0"
    and separator_same: "valid a \<Longrightarrow> find_separator a a = a"
    and successor: "valid a \<Longrightarrow> valid (find_successor a) \<and> compare a (find_successor a) \<le> 0"
begin

lemma compare_refl: "valid a \<Longrightarrow> compare a a = 0"
  by (simp add: compare_eq)

lemma compare_le_less: "valid a \<Longrightarrow> valid b \<Longrightarrow> valid c \<Longrightarrow> compare a b \<le> 0 \<Longrightarrow> compare b c < 0 \<Longrightarrow> compare a c < 0"
  using compare_eq compare_trans by (metis order_le_less)

lemma compare_le_trans: "valid a \<Longrightarrow> valid b \<Longrightarrow> valid c \<Longrightarrow> compare a b \<le> 0 \<Longrightarrow> compare b c \<le> 0 \<Longrightarrow> compare a c \<le> 0"
  using compare_eq compare_trans by (metis order_le_less)

lemma compare_linear: "valid a \<Longrightarrow> valid b \<Longrightarrow> compare a b \<le> 0 \<or> compare b a < 0"
  using compare_swap by force

end

subsection \<open>Bytewise order\<close>

text \<open>\<open>memcmp\<close> on as many bytes as both lists have; only its sign is used.\<close>

fun memcmp :: "bytes \<Rightarrow> bytes \<Rightarrow> int" where
  "memcmp (a # as) (b # bs) = (if a < b then - 1 else if b < a then 1 else memcmp as bs)"
| "memcmp _ _ = 0"

definition Slice_compare :: "bytes \<Rightarrow> bytes \<Rightarrow> int" where
  "Slice_compare a b =
     (let min_len = (if length a < length b then length a else length b);
          r = memcmp (take min_len a) (take min_len b) in
      if r = 0 then (if length a < length b then - 1 else if length a > length b then 1 else r) else r)"

definition starts_with :: "bytes \<Rightarrow> bytes \<Rightarrow> bool" where
  "starts_with a x \<longleftrightarrow> length a \<ge> length x \<and> memcmp (take (length x) a) x = 0"

definition BytewiseCompare :: "bytes \<Rightarrow> bytes \<Rightarrow> int" where
  "BytewiseCompare a b = Slice_compare a b"

text \<open>The \<open>while\<close> loop, from a given index on.\<close>

function diff_index :: "bytes \<Rightarrow> bytes \<Rightarrow> nat \<Rightarrow> nat" where
  "diff_index start limit i =
     (if i < min (length start) (length limit) \<and> start ! i = limit ! i then diff_index start limit (i + 1) else i)"
  by pat_completeness auto
termination
  by (relation "measure (\<lambda>(s, l, i). length s - i)") auto

declare diff_index.simps [simp del]

definition BytewiseFindShortestSeparator :: "bytes \<Rightarrow> bytes \<Rightarrow> bytes" where
  "BytewiseFindShortestSeparator start limit =
     (let min_length = min (length start) (length limit); d = diff_index start limit 0 in
      if d \<ge> min_length then start
      else let diff_byte = start ! d in
        if diff_byte < 0xff \<and> unat diff_byte + 1 < unat (limit ! d)
        then take (d + 1) (start[d := diff_byte + 1]) else start)"

fun short_successor_loop :: "bytes \<Rightarrow> nat \<Rightarrow> nat \<Rightarrow> bytes" where
  "short_successor_loop key i 0 = key"
| "short_successor_loop key i (Suc n) =
     (let byte = key ! i in
      if byte \<noteq> 0xff then take (i + 1) (key[i := byte + 1]) else short_successor_loop key (i + 1) n)"

definition BytewiseFindShortSuccessor :: "bytes \<Rightarrow> bytes" where
  "BytewiseFindShortSuccessor key = short_successor_loop key 0 (length key)"

lemma Slice_compare_Cons [simp]:
  "Slice_compare (a # as) (b # bs) = (if a < b then - 1 else if b < a then 1 else Slice_compare as bs)"
  by (simp add: Slice_compare_def Let_def)

lemma Slice_compare_Nil [simp]:
  "Slice_compare [] bs = (if bs = [] then 0 else - 1)" "Slice_compare (a # as) [] = 1"
  by (simp_all add: Slice_compare_def)

lemma Slice_compare_order: "Slice_compare a b = (if a < b then - 1 else if a = b then 0 else 1)"
proof (induction a arbitrary: b)
  case Nil
  then show ?case by (cases b) simp_all
next
  case (Cons x a)
  then show ?case by (cases b) (auto simp: not_less)
qed

lemma starts_with_prefix: "starts_with a x \<longleftrightarrow> (\<exists>r. a = x @ r)"
proof -
  have "length u = length v \<Longrightarrow> memcmp u v = 0 \<longleftrightarrow> u = v" for u v
    by (induction u v rule: memcmp.induct) auto
  then show ?thesis by (auto simp: starts_with_def) (metis append_take_drop_id)
qed

lemma diff_index_split:
  "take i start = take i limit \<Longrightarrow> i \<le> min (length start) (length limit) \<Longrightarrow>
   (let d = diff_index start limit i in take d start = take d limit \<and> d \<le> min (length start) (length limit) \<and>
      (d < min (length start) (length limit) \<longrightarrow> start ! d \<noteq> limit ! d))"
proof (induction start limit i rule: diff_index.induct)
  case (1 start limit i)
  show ?case
  proof (cases "i < min (length start) (length limit) \<and> start ! i = limit ! i")
    case True
    then have "take (i + 1) start = take (i + 1) limit" using 1(2) by (simp add: take_Suc_conv_app_nth)
    then show ?thesis using 1(1) True by (subst diff_index.simps) simp
  next
    case False
    have "diff_index start limit i = i" by (subst diff_index.simps) (simp only: False if_False)
    then show ?thesis using 1(2,3) False by (auto simp: Let_def)
  qed
qed

lemma prefix_less: "xs @ ys < xs @ zs \<longleftrightarrow> ys < (zs :: bytes)"
  by (induction xs) auto

lemma u8_less_Suc: "unat b + 1 < unat (c :: u8) \<Longrightarrow> b < b + 1 \<and> b + 1 < c"
proof -
  assume a: "unat b + 1 < unat c"
  have "unat c < 256" using unsigned_less [of c] by simp
  then have "unat (b + 1) = unat b + 1" using a by (simp add: unat_word_ariths)
  then show ?thesis using a by (simp add: word_less_nat_alt)
qed

lemma unat_eq_numeral_255: "unat (b :: u8) = 255 \<Longrightarrow> b = 0xff"
  by (simp add: word_unat_eq_iff)

lemma u8_less_inc: "b \<noteq> 0xff \<Longrightarrow> b < b + (1 :: u8)"
proof -
  assume "b \<noteq> 0xff"
  then have "unat b \<noteq> 255" by (metis unat_eq_numeral_255)
  moreover have "unat b < 256" using unsigned_less [of b] by simp
  ultimately have "unat (b + 1) = unat b + 1" by (simp add: unat_word_ariths)
  then show ?thesis by (simp add: word_less_nat_alt)
qed

text \<open>The separator lies between the two keys and is not longer than the first.\<close>

lemma bytewise_separator:
  assumes "start < limit"
  shows "start \<le> BytewiseFindShortestSeparator start limit \<and> BytewiseFindShortestSeparator start limit < limit \<and>
    length (BytewiseFindShortestSeparator start limit) \<le> length start"
proof -
  define d where "d = diff_index start limit 0"
  have d: "take d start = take d limit" "d \<le> min (length start) (length limit)"
    "d < min (length start) (length limit) \<longrightarrow> start ! d \<noteq> limit ! d"
    using diff_index_split [of 0 start limit] by (simp_all add: d_def Let_def)
  show ?thesis
  proof (cases "d < min (length start) (length limit) \<and> start ! d < 0xff \<and> unat (start ! d) + 1 < unat (limit ! d)")
    case True
    let ?b = "start ! d" and ?p = "take d start"
    have s: "start = ?p @ ?b # drop (Suc d) start" using True by (simp add: id_take_nth_drop)
    have l: "limit = ?p @ (limit ! d) # drop (Suc d) limit" using True d(1) by (metis id_take_nth_drop min_less_iff_conj)
    have r: "BytewiseFindShortestSeparator start limit = ?p @ [?b + 1]"
      using True by (auto simp: BytewiseFindShortestSeparator_def Let_def d_def [symmetric] take_Suc_conv_app_nth)
    have "?p @ ?b # drop (Suc d) start < ?p @ [?b + 1]" "?p @ [?b + 1] < ?p @ (limit ! d) # drop (Suc d) limit"
      using u8_less_Suc [of ?b "limit ! d"] True by (simp_all add: prefix_less)
    then show ?thesis using True s l r by auto
  next
    case False
    then have "BytewiseFindShortestSeparator start limit = start"
      by (auto simp: BytewiseFindShortestSeparator_def Let_def d_def [symmetric])
    then show ?thesis using assms by simp
  qed
qed

lemma bytewise_separator_same: "BytewiseFindShortestSeparator a a = a"
  using diff_index_split [of 0 a a] by (auto simp: BytewiseFindShortestSeparator_def Let_def)

lemma short_successor:
  "length key = i + n \<Longrightarrow> key \<le> short_successor_loop key i n \<and> length (short_successor_loop key i n) \<le> length key"
proof (induction n arbitrary: i)
  case (Suc n)
  show ?case
  proof (cases "key ! i = 0xff")
    case False
    have k: "key = take i key @ key ! i # drop (Suc i) key" using Suc.prems by (simp add: id_take_nth_drop)
    have "take i key @ key ! i # drop (Suc i) key < take i key @ [key ! i + 1]"
      using u8_less_inc [OF False] by (simp add: prefix_less)
    then show ?thesis using False Suc.prems k by (simp add: Let_def take_Suc_conv_app_nth)
  qed (use Suc in simp)
qed simp

interpretation bytewise: comparator BytewiseCompare BytewiseFindShortestSeparator BytewiseFindShortSuccessor "\<lambda>_. True"
proof
  show "True \<and> BytewiseCompare a (BytewiseFindShortSuccessor a) \<le> 0" for a
    using short_successor [of a 0 "length a"]
    by (auto simp: BytewiseCompare_def Slice_compare_order BytewiseFindShortSuccessor_def)
  show "True \<and> BytewiseCompare a (BytewiseFindShortestSeparator a b) \<le> 0 \<and> BytewiseCompare (BytewiseFindShortestSeparator a b) b < 0"
    if "BytewiseCompare a b < 0" for a b
    using bytewise_separator [of a b] that by (auto simp: BytewiseCompare_def Slice_compare_order split: if_splits)
qed (auto simp: BytewiseCompare_def Slice_compare_order bytewise_separator_same split: if_splits)

subsection \<open>Internal keys\<close>

datatype ValueType = kTypeDeletion | kTypeValue

definition value_type_num :: "ValueType \<Rightarrow> u64" where
  "value_type_num t = (case t of kTypeDeletion \<Rightarrow> 0 | kTypeValue \<Rightarrow> 1)"

definition kValueTypeForSeek :: ValueType where "kValueTypeForSeek = kTypeValue"

definition kMaxSequenceNumber :: u64 where "kMaxSequenceNumber = push_bit 56 1 - 1"

record ParsedInternalKey =
  user_key :: bytes
  sequence :: u64
  vtype :: ValueType

definition PackSequenceAndType :: "u64 \<Rightarrow> ValueType \<Rightarrow> u64" where
  "PackSequenceAndType seq t = push_bit 8 seq OR value_type_num t"

definition AppendInternalKey :: "bytes \<Rightarrow> ParsedInternalKey \<Rightarrow> bytes" where
  "AppendInternalKey result key = PutFixed64 (result @ user_key key) (PackSequenceAndType (sequence key) (vtype key))"

definition InternalKeyEncodingLength :: "ParsedInternalKey \<Rightarrow> nat" where
  "InternalKeyEncodingLength key = length (user_key key) + 8"

definition ExtractUserKey :: "bytes \<Rightarrow> bytes" where
  "ExtractUserKey k = take (length k - 8) k"

text \<open>The number in the last eight bytes.\<close>

definition key_num :: "bytes \<Rightarrow> u64" where
  "key_num k = DecodeFixed64 (drop (length k - 8) k)"

definition ParseInternalKey :: "bytes \<Rightarrow> ParsedInternalKey option" where
  "ParseInternalKey internal_key =
     (let n = length internal_key in
      if n < 8 then None
      else let num = key_num internal_key; c = num AND 0xff in
        if c = 0 then Some \<lparr>user_key = take (n - 8) internal_key, sequence = drop_bit 8 num, vtype = kTypeDeletion\<rparr>
        else if c = 1 then Some \<lparr>user_key = take (n - 8) internal_key, sequence = drop_bit 8 num, vtype = kTypeValue\<rparr>
        else None)"

definition InternalCompare :: "(bytes \<Rightarrow> bytes \<Rightarrow> int) \<Rightarrow> bytes \<Rightarrow> bytes \<Rightarrow> int" where
  "InternalCompare ucmp akey bkey =
     (let r = ucmp (ExtractUserKey akey) (ExtractUserKey bkey) in
      if r = 0
      then let anum = key_num akey; bnum = key_num bkey in
        if anum > bnum then - 1 else if anum < bnum then 1 else r
      else r)"

definition InternalFindShortestSeparator ::
  "(bytes \<Rightarrow> bytes \<Rightarrow> int) \<Rightarrow> (bytes \<Rightarrow> bytes \<Rightarrow> bytes) \<Rightarrow> bytes \<Rightarrow> bytes \<Rightarrow> bytes" where
  "InternalFindShortestSeparator ucmp usep start limit =
     (let user_start = ExtractUserKey start; user_limit = ExtractUserKey limit;
          tmp = usep user_start user_limit in
      if length tmp < length user_start \<and> ucmp user_start tmp < 0
      then PutFixed64 tmp (PackSequenceAndType kMaxSequenceNumber kValueTypeForSeek) else start)"

definition InternalFindShortSuccessor ::
  "(bytes \<Rightarrow> bytes \<Rightarrow> int) \<Rightarrow> (bytes \<Rightarrow> bytes) \<Rightarrow> bytes \<Rightarrow> bytes" where
  "InternalFindShortSuccessor ucmp usucc key =
     (let ukey = ExtractUserKey key; tmp = usucc ukey in
      if length tmp < length ukey \<and> ucmp ukey tmp < 0
      then PutFixed64 tmp (PackSequenceAndType kMaxSequenceNumber kValueTypeForSeek) else key)"

text \<open>A lookup key is one array; the three slices are its parts.\<close>

record LookupKey =
  lk_array :: bytes
  lk_kstart :: nat

definition new_LookupKey :: "bytes \<Rightarrow> u64 \<Rightarrow> LookupKey" where
  "new_LookupKey ukey s =
     (let klen = EncodeVarint32 (of_nat (length ukey + 8)) in
      \<lparr>lk_array = klen @ ukey @ EncodeFixed64 (PackSequenceAndType s kValueTypeForSeek), lk_kstart = length klen\<rparr>)"

definition memtable_key :: "LookupKey \<Rightarrow> bytes" where "memtable_key k = lk_array k"
definition internal_key :: "LookupKey \<Rightarrow> bytes" where "internal_key k = drop (lk_kstart k) (lk_array k)"
definition lookup_user_key :: "LookupKey \<Rightarrow> bytes" where
  "lookup_user_key k = take (length (lk_array k) - lk_kstart k - 8) (drop (lk_kstart k) (lk_array k))"

definition internal_valid :: "(bytes \<Rightarrow> bool) \<Rightarrow> bytes \<Rightarrow> bool" where
  "internal_valid uvalid k \<longleftrightarrow> 8 \<le> length k \<and> uvalid (ExtractUserKey k)"

definition encode_key :: "bytes \<Rightarrow> u64 \<Rightarrow> ValueType \<Rightarrow> bytes" where
  "encode_key u s t = AppendInternalKey [] \<lparr>user_key = u, sequence = s, vtype = t\<rparr>"

lemma encode_key_bytes: "encode_key u s t = u @ EncodeFixed64 (PackSequenceAndType s t)"
  by (simp add: encode_key_def AppendInternalKey_def PutFixed64_def)

lemma ExtractUserKey_append [simp]: "ExtractUserKey (u @ EncodeFixed64 w) = u"
  by (simp add: ExtractUserKey_def)

lemma key_num_append [simp]: "key_num (u @ EncodeFixed64 w) = w"
  using DecodeFixed64_Encode [of w "[]"] by (simp add: key_num_def)

lemma EncodeFixed64_Decode: "length p = 8 \<Longrightarrow> EncodeFixed64 (DecodeFixed64 p) = p"
proof -
  assume p: "length p = 8"
  have "EncodeFixed64 w = le_bytes 8 w" for w
    by (simp add: EncodeFixed64_def le_bytes_def upt_rec)
  then have "EncodeFixed64 (le_word p) = p"
    using le_bytes_le_word [of p, where 'a = 64] p by simp
  then show ?thesis by (metis DecodeFixed64_Encode append_Nil2)
qed

lemma key_split: "8 \<le> length k \<Longrightarrow> k = ExtractUserKey k @ EncodeFixed64 (key_num k)"
  using EncodeFixed64_Decode [of "drop (length k - 8) k"] by (simp add: ExtractUserKey_def key_num_def)

lemma key_eqI: "8 \<le> length a \<Longrightarrow> 8 \<le> length b \<Longrightarrow> ExtractUserKey a = ExtractUserKey b \<Longrightarrow> key_num a = key_num b \<Longrightarrow> a = b"
  by (metis key_split)

lemma bit_value_type: "bit (value_type_num t) n \<longleftrightarrow> n = 0 \<and> t = kTypeValue"
  by (cases t) (auto simp: value_type_num_def bit_1_iff)

lemma seq_bits: "s \<le> kMaxSequenceNumber \<Longrightarrow> bit (s :: u64) n \<Longrightarrow> n < 56"
proof (rule ccontr)
  assume a: "s \<le> kMaxSequenceNumber" "bit s n" "\<not> n < 56"
  have "unat s \<le> 2 ^ 56 - 1" using a(1) by (simp add: word_le_nat_alt kMaxSequenceNumber_def)
  then have "unat (drop_bit 56 s) = 0" by (simp add: drop_bit_eq_div unat_div)
  then have "drop_bit 56 s = 0" by (simp add: unat_eq_zero)
  moreover have "bit (drop_bit 56 s) (n - 56)" using a by (simp add: bit_simps)
  ultimately show False by simp
qed

lemma unpack_sequence: "s \<le> kMaxSequenceNumber \<Longrightarrow> drop_bit 8 (PackSequenceAndType s t) = s"
  using seq_bits [of s]
  by (intro bit_word_eqI) (auto simp: PackSequenceAndType_def bit_simps bit_value_type)

lemma low_byte: "x AND 0xff = take_bit 8 (x :: u64)"
  by (simp add: take_bit_eq_mask mask_eq_exp_minus_1)

lemma unpack_type: "PackSequenceAndType s t AND 0xff = value_type_num t"
  unfolding low_byte by (rule bit_word_eqI) (auto simp: PackSequenceAndType_def bit_simps bit_value_type)

lemma pack_unpack: "num AND 0xff = value_type_num t \<Longrightarrow> PackSequenceAndType (drop_bit 8 num) t = num"
proof -
  assume "num AND 0xff = value_type_num t"
  then have t: "value_type_num t = take_bit 8 num" by (simp add: low_byte)
  show ?thesis
    unfolding PackSequenceAndType_def t by (rule bit_word_eqI) (auto simp: bit_simps)
qed

text \<open>Parsing gives back what was appended.\<close>

lemma ParseInternalKey_Append:
  assumes "sequence k \<le> kMaxSequenceNumber"
  shows "ParseInternalKey (AppendInternalKey [] k) = Some k"
proof -
  have "ParseInternalKey (AppendInternalKey [] k) = Some \<lparr>user_key = user_key k, sequence = sequence k, vtype = vtype k\<rparr>"
    using assms
    by (cases "vtype k")
      (simp_all add: ParseInternalKey_def AppendInternalKey_def PutFixed64_def unpack_sequence unpack_type value_type_num_def)
  then show ?thesis by simp
qed

lemma ParseInternalKey_Some:
  assumes "ParseInternalKey b = Some k"
  shows "b = AppendInternalKey [] k"
proof -
  have n: "8 \<le> length b" using assms by (auto simp: ParseInternalKey_def Let_def split: if_splits)
  obtain t where "key_num b AND 0xff = value_type_num t"
    "k = \<lparr>user_key = ExtractUserKey b, sequence = drop_bit 8 (key_num b), vtype = t\<rparr>"
    using assms that [of kTypeDeletion] that [of kTypeValue]
    by (auto simp: ParseInternalKey_def Let_def ExtractUserKey_def value_type_num_def split: if_splits)
  then show ?thesis
    using key_split [OF n] by (simp add: AppendInternalKey_def PutFixed64_def pack_unpack)
qed

subsection \<open>The order of internal keys\<close>

lemma unat_pack: "s \<le> kMaxSequenceNumber \<Longrightarrow> unat (PackSequenceAndType s t) = 256 * unat s + unat (value_type_num t)"
proof -
  assume s: "s \<le> kMaxSequenceNumber"
  have b: "unat s < 2 ^ 56" using s by (simp add: word_le_nat_alt kMaxSequenceNumber_def)
  have t: "unat (value_type_num t) < 2" by (cases t) (simp_all add: value_type_num_def)
  have z: "push_bit 8 s AND value_type_num t = 0"
    by (rule bit_word_eqI) (auto simp: bit_simps bit_value_type)
  have "PackSequenceAndType s t = push_bit 8 s + value_type_num t"
    unfolding PackSequenceAndType_def using disjunctive_add_eq_or [OF z] by simp
  moreover have "unat (push_bit 8 s) = 256 * unat s"
    using b by (simp add: push_bit_eq_mult unat_word_ariths)
  ultimately show ?thesis using b t by (simp add: unat_word_ariths)
qed

context comparator
begin

text \<open>By user key, then by descending sequence number and type.\<close>

lemma InternalCompare_encode:
  assumes "valid u" "valid u'" "s \<le> kMaxSequenceNumber" "s' \<le> kMaxSequenceNumber"
  shows "InternalCompare compare (encode_key u s t) (encode_key u' s' t') < 0 \<longleftrightarrow>
    compare u u' < 0 \<or> u = u' \<and> (s > s' \<or> s = s' \<and> t = kTypeValue \<and> t' = kTypeDeletion)"
proof -
  have "PackSequenceAndType s t > PackSequenceAndType s' t' \<longleftrightarrow>
      s > s' \<or> s = s' \<and> t = kTypeValue \<and> t' = kTypeDeletion"
    by (cases t; cases t')
      (auto simp: word_less_nat_alt unat_pack assms word_unat_eq_iff value_type_num_def)
  then show ?thesis
    using compare_eq [OF assms(1,2)] by (auto simp: InternalCompare_def encode_key_bytes Let_def)
qed

lemma InternalCompare_less:
  "internal_valid valid a \<Longrightarrow> internal_valid valid b \<Longrightarrow> InternalCompare compare a b < 0 \<longleftrightarrow>
    compare (ExtractUserKey a) (ExtractUserKey b) < 0 \<or> ExtractUserKey a = ExtractUserKey b \<and> key_num a > key_num b"
  using compare_eq [of "ExtractUserKey a" "ExtractUserKey b"]
  by (auto simp: InternalCompare_def internal_valid_def Let_def)

lemma InternalCompare_greater:
  "internal_valid valid a \<Longrightarrow> internal_valid valid b \<Longrightarrow> 0 < InternalCompare compare a b \<longleftrightarrow>
    0 < compare (ExtractUserKey a) (ExtractUserKey b) \<or> ExtractUserKey a = ExtractUserKey b \<and> key_num a < key_num b"
  using compare_eq [of "ExtractUserKey a" "ExtractUserKey b"]
  by (auto simp: InternalCompare_def internal_valid_def Let_def)

lemma InternalCompare_eq:
  assumes "internal_valid valid a" "internal_valid valid b"
  shows "InternalCompare compare a b = 0 \<longleftrightarrow> a = b"
proof -
  have "InternalCompare compare a b = 0 \<longleftrightarrow> compare (ExtractUserKey a) (ExtractUserKey b) = 0 \<and> key_num a = key_num b"
    by (auto simp: InternalCompare_def Let_def)
  then show ?thesis
    using assms compare_eq [of "ExtractUserKey a" "ExtractUserKey b"] key_eqI [of a b]
    unfolding internal_valid_def by blast
qed

lemma short_valid: "valid u \<Longrightarrow> internal_valid valid (PutFixed64 u w)"
  by (simp add: internal_valid_def PutFixed64_def)

lemma internal_separator:
  assumes "internal_valid valid a" "internal_valid valid b" "InternalCompare compare a b < 0"
  defines "m \<equiv> InternalFindShortestSeparator compare find_separator a b"
  shows "internal_valid valid m \<and> InternalCompare compare a m \<le> 0 \<and> InternalCompare compare m b < 0"
proof (cases "length (find_separator (ExtractUserKey a) (ExtractUserKey b)) < length (ExtractUserKey a) \<and>
    compare (ExtractUserKey a) (find_separator (ExtractUserKey a) (ExtractUserKey b)) < 0")
  case True
  let ?t = "find_separator (ExtractUserKey a) (ExtractUserKey b)"
  have v: "valid (ExtractUserKey a)" "valid (ExtractUserKey b)" using assms(1,2) by (simp_all add: internal_valid_def)
  have "compare (ExtractUserKey a) (ExtractUserKey b) < 0"
    using assms(3) True separator_same [OF v(1)] by (auto simp: InternalCompare_less [OF assms(1,2)])
  from separator [OF v this] have t: "valid ?t" "compare ?t (ExtractUserKey b) < 0" by auto
  have m: "m = PutFixed64 ?t (PackSequenceAndType kMaxSequenceNumber kValueTypeForSeek)"
    using True by (simp add: m_def InternalFindShortestSeparator_def Let_def)
  then have "internal_valid valid m" "ExtractUserKey m = ?t" using short_valid [OF t(1)] by (simp_all add: PutFixed64_def)
  then show ?thesis
    using True t InternalCompare_less [OF assms(1), of m] InternalCompare_less [of m b, OF _ assms(2)] by auto
next
  case False
  then have "m = a" by (auto simp: m_def InternalFindShortestSeparator_def Let_def)
  then show ?thesis using assms(1,3) InternalCompare_eq [OF assms(1,1)] by simp
qed

lemma internal_successor:
  assumes "internal_valid valid a"
  defines "m \<equiv> InternalFindShortSuccessor compare find_successor a"
  shows "internal_valid valid m \<and> InternalCompare compare a m \<le> 0"
proof (cases "length (find_successor (ExtractUserKey a)) < length (ExtractUserKey a) \<and>
    compare (ExtractUserKey a) (find_successor (ExtractUserKey a)) < 0")
  case True
  let ?t = "find_successor (ExtractUserKey a)"
  have "valid ?t" using assms(1) successor [of "ExtractUserKey a"] by (simp add: internal_valid_def)
  moreover have m: "m = PutFixed64 ?t (PackSequenceAndType kMaxSequenceNumber kValueTypeForSeek)"
    using True by (simp add: m_def InternalFindShortSuccessor_def Let_def)
  ultimately have "internal_valid valid m" "ExtractUserKey m = ?t" using short_valid by (simp_all add: PutFixed64_def)
  then show ?thesis using True InternalCompare_less [OF assms(1), of m] by auto
next
  case False
  then have "m = a" by (auto simp: m_def InternalFindShortSuccessor_def Let_def)
  then show ?thesis using assms(1) InternalCompare_eq [OF assms(1,1)] by simp
qed

lemma internal_comparator:
  "comparator (InternalCompare compare) (InternalFindShortestSeparator compare find_separator)
     (InternalFindShortSuccessor compare find_successor) (internal_valid valid)"
proof
  show "InternalCompare compare a c < 0"
    if "internal_valid valid a" "internal_valid valid b" "internal_valid valid c"
      "InternalCompare compare a b < 0" "InternalCompare compare b c < 0" for a b c
    using that compare_trans [of "ExtractUserKey a" "ExtractUserKey b" "ExtractUserKey c"]
    by (auto simp: InternalCompare_less) (auto simp: internal_valid_def)
  show "InternalFindShortestSeparator compare find_separator a a = a" if "internal_valid valid a" for a
    using that separator_same [of "ExtractUserKey a"]
    by (simp add: InternalFindShortestSeparator_def internal_valid_def Let_def)
  show "InternalCompare compare a b < 0 \<longleftrightarrow> 0 < InternalCompare compare b a"
    if "internal_valid valid a" "internal_valid valid b" for a b
    using that compare_swap [of "ExtractUserKey a" "ExtractUserKey b"]
    by (auto simp: InternalCompare_less InternalCompare_greater) (auto simp: internal_valid_def)
qed (simp_all add: InternalCompare_eq internal_separator internal_successor)

end

interpretation internal_bytewise: comparator "InternalCompare BytewiseCompare"
  "InternalFindShortestSeparator BytewiseCompare BytewiseFindShortestSeparator"
  "InternalFindShortSuccessor BytewiseCompare BytewiseFindShortSuccessor" "internal_valid (\<lambda>_. True)"
  by (rule bytewise.internal_comparator)

subsection \<open>Lookup keys\<close>

lemma LookupKey_parts:
  "internal_key (new_LookupKey u s) = encode_key u s kTypeValue"
  "lookup_user_key (new_LookupKey u s) = u"
  by (simp_all add: new_LookupKey_def internal_key_def lookup_user_key_def encode_key_bytes kValueTypeForSeek_def Let_def)

lemma memtable_key_prefixed:
  "length u + 8 < 2 ^ 32 \<Longrightarrow> memtable_key (new_LookupKey u s) = length_prefixed (encode_key u s kTypeValue)"
  by (simp add: new_LookupKey_def memtable_key_def length_prefixed_def PutLengthPrefixedSlice_def PutVarint32_def
      encode_key_bytes kValueTypeForSeek_def Let_def)

end
