(* ===== verification/LdbEnv.thy ===== *)
theory LdbEnv
  imports LdbCoding
begin

text \<open>
  What the storage code sees of its environment: the status values of include/leveldb/status.h and
  util/status.cc, and the two file interfaces of include/leveldb/env.h that the logs use. An
  operation that may never return gives an option.
\<close>

subsection \<open>Status\<close>

datatype Code = kOk | kNotFound | kCorruption | kNotSupported | kInvalidArgument | kIOError

type_synonym Status = "(Code \<times> string) option"

abbreviation OK :: Status where "OK \<equiv> None"

definition new_Status :: "Code \<Rightarrow> string \<Rightarrow> string \<Rightarrow> Status" where
  "new_Status code msg msg2 = Some (code, msg @ (if msg2 \<noteq> [] then '': '' @ msg2 else []))"

definition NotFound :: "string \<Rightarrow> string \<Rightarrow> Status" where "NotFound = new_Status kNotFound"
definition Corruption :: "string \<Rightarrow> string \<Rightarrow> Status" where "Corruption = new_Status kCorruption"
definition NotSupported :: "string \<Rightarrow> string \<Rightarrow> Status" where "NotSupported = new_Status kNotSupported"
definition InvalidArgument :: "string \<Rightarrow> string \<Rightarrow> Status" where "InvalidArgument = new_Status kInvalidArgument"
definition IOError :: "string \<Rightarrow> string \<Rightarrow> Status" where "IOError = new_Status kIOError"

definition ok :: "Status \<Rightarrow> bool" where "ok s \<longleftrightarrow> s = None"
definition code :: "Status \<Rightarrow> Code" where "code s = (case s of None \<Rightarrow> kOk | Some (c, _) \<Rightarrow> c)"
definition IsNotFound :: "Status \<Rightarrow> bool" where "IsNotFound s \<longleftrightarrow> code s = kNotFound"
definition IsCorruption :: "Status \<Rightarrow> bool" where "IsCorruption s \<longleftrightarrow> code s = kCorruption"
definition IsIOError :: "Status \<Rightarrow> bool" where "IsIOError s \<longleftrightarrow> code s = kIOError"
definition IsNotSupportedError :: "Status \<Rightarrow> bool" where "IsNotSupportedError s \<longleftrightarrow> code s = kNotSupported"
definition IsInvalidArgument :: "Status \<Rightarrow> bool" where "IsInvalidArgument s \<longleftrightarrow> code s = kInvalidArgument"

definition Status_ToString :: "Status \<Rightarrow> string" where
  "Status_ToString s =
     (case s of
        None \<Rightarrow> ''OK''
      | Some (c, msg) \<Rightarrow>
          (case c of
             kOk \<Rightarrow> ''OK''
           | kNotFound \<Rightarrow> ''NotFound: ''
           | kCorruption \<Rightarrow> ''Corruption: ''
           | kNotSupported \<Rightarrow> ''Not implemented: ''
           | kInvalidArgument \<Rightarrow> ''Invalid argument: ''
           | kIOError \<Rightarrow> ''IO error: '') @ msg)"

lemma ok_simps [simp]: "ok None" "\<not> ok (Some e)"
  by (simp_all add: ok_def)

lemma not_ok_new [simp]: "\<not> ok (new_Status c m m2)" "code (new_Status c m m2) = c"
  by (simp_all add: new_Status_def code_def)

subsection \<open>Files\<close>

record 'f writable_ops =
  Append :: "bytes \<Rightarrow> 'f \<Rightarrow> (Status \<times> 'f) option"
  Flush :: "'f \<Rightarrow> (Status \<times> 'f) option"

record 'f sequential_ops =
  Read :: "nat \<Rightarrow> 'f \<Rightarrow> (Status \<times> bytes \<times> 'f) option"
  Skip :: "u64 \<Rightarrow> 'f \<Rightarrow> Status \<times> 'f"

text \<open>A file that takes everything, and a file that is read to its end.\<close>

locale writable_file =
  fixes ops :: "'f writable_ops"
    and contents :: "'f \<Rightarrow> bytes"
    and good :: "'f \<Rightarrow> bool"
  assumes Append: "good f \<Longrightarrow> \<exists>f'. Append ops d f = Some (OK, f') \<and> good f' \<and> contents f' = contents f @ d"
    and Flush: "good f \<Longrightarrow> \<exists>f'. Flush ops f = Some (OK, f') \<and> good f' \<and> contents f' = contents f"

locale sequential_file =
  fixes ops :: "'f sequential_ops"
    and rest :: "'f \<Rightarrow> bytes"
    and good :: "'f \<Rightarrow> bool"
  assumes Read: "good f \<Longrightarrow> 0 < n \<Longrightarrow> n \<le> 32768 \<Longrightarrow>
      \<exists>f'. Read ops n f = Some (OK, take n (rest f), f') \<and> good f' \<and> rest f' = drop n (rest f)"
    and Skip: "good f \<Longrightarrow> Skip ops m f = (s, f') \<Longrightarrow> good f' \<and> length (rest f') \<le> length (rest f)"

subsection \<open>Decimal numbers\<close>

fun decimal :: "nat \<Rightarrow> string" where
  "decimal n = (if n < 10 then [char_of (48 + n)] else decimal (n div 10) @ [char_of (48 + n mod 10)])"

declare decimal.simps [simp del]

end
