(* ===== verification/LdbCrc.thy ===== *)
theory LdbCrc
  imports LdbCrcTables
begin

text \<open>
  The portable CRC-32C of util/crc32c.cc, byte steps and interleaved four-byte strides, and the
  proof that all of it computes the bitwise CRC of the bytes, wherever the buffer starts. Then
  the masking of stored checksums (util/crc32c.h).
\<close>

subsection \<open>The code\<close>

definition kCRC32Xor :: u32 where "kCRC32Xor = 0xffffffff"

text \<open>The hardware library is not part of the build, so its stub is.\<close>

definition AcceleratedCRC32C :: "u32 \<Rightarrow> bytes \<Rightarrow> u32" where
  "AcceleratedCRC32C crc buf = 0"

definition CanAccelerateCRC32C :: bool where
  "CanAccelerateCRC32C \<longleftrightarrow>
     AcceleratedCRC32C 0 [0x54, 0x65, 0x73, 0x74, 0x43, 0x52, 0x43, 0x42, 0x75, 0x66, 0x66, 0x65, 0x72] = 0xdcbc59fa"

text \<open>The smallest multiple of four not below an address.\<close>

definition RoundUp4 :: "nat \<Rightarrow> nat" where
  "RoundUp4 a = (a + 3) div 4 * 4"

definition STEP1 :: "u8 \<Rightarrow> u32 \<Rightarrow> u32" where
  "STEP1 b l = (let c = (l AND 0xff) XOR ucast b in kByteExtensionTable ! unat c XOR drop_bit 8 l)"

definition STEP4 :: "bytes \<Rightarrow> u32 \<Rightarrow> u32" where
  "STEP4 p crc = DecodeFixed32 p XOR kStrideExtensionTable3 ! unat (crc AND 0xff) XOR
     kStrideExtensionTable2 ! unat (drop_bit 8 crc AND 0xff) XOR
     kStrideExtensionTable1 ! unat (drop_bit 16 crc AND 0xff) XOR
     kStrideExtensionTable0 ! unat (drop_bit 24 crc)"

primrec step4w_loop :: "nat \<Rightarrow> u32 \<Rightarrow> u32" where
  "step4w_loop 0 w = w"
| "step4w_loop (Suc i) w = step4w_loop i (drop_bit 8 w XOR kByteExtensionTable ! unat (w AND 0xff))"

definition STEP4W :: "u32 \<Rightarrow> u32 \<Rightarrow> u32" where
  "STEP4W w l = step4w_loop 4 (w XOR l)"

type_synonym strides = "u32 \<times> u32 \<times> u32 \<times> u32"

fun stride16_loop :: "bytes \<Rightarrow> strides \<Rightarrow> bytes \<times> strides" where
  "stride16_loop p (crc0, crc1, crc2, crc3) =
     (if length p \<ge> 16
      then stride16_loop (drop 16 p)
        (STEP4 p crc0, STEP4 (drop 4 p) crc1, STEP4 (drop 8 p) crc2, STEP4 (drop 12 p) crc3)
      else (p, crc0, crc1, crc2, crc3))"

fun stride4_loop :: "bytes \<Rightarrow> strides \<Rightarrow> bytes \<times> strides" where
  "stride4_loop p (crc0, crc1, crc2, crc3) =
     (if length p \<ge> 4
      then stride4_loop (drop 4 p) (crc1, crc2, crc3, STEP4 p crc0)
      else (p, crc0, crc1, crc2, crc3))"

declare stride16_loop.simps [simp del] stride4_loop.simps [simp del]

text \<open>The parts of \<open>Extend\<close>, each taking the running sum and the rest of the data: the bytes up
  to the first aligned address \<open>x\<close> bytes ahead, then the words. \<open>addr\<close> is the address of the
  data.\<close>

definition align :: "nat \<Rightarrow> bytes \<Rightarrow> u32 \<Rightarrow> u32 \<times> bytes" where
  "align x p l = (if x \<le> length p then (fold STEP1 (take x p) l, drop x p) else (l, p))"

definition words :: "bytes \<Rightarrow> u32 \<Rightarrow> u32 \<times> bytes" where
  "words p l =
     (if length p \<ge> 16
      then
        let crc0 = DecodeFixed32 p XOR l;
            crc1 = DecodeFixed32 (drop 4 p);
            crc2 = DecodeFixed32 (drop 8 p);
            crc3 = DecodeFixed32 (drop 12 p);
            (p, strides) = stride16_loop (drop 16 p) (crc0, crc1, crc2, crc3);
            (p, crc0, crc1, crc2, crc3) = stride4_loop p strides
        in (STEP4W crc3 (STEP4W crc2 (STEP4W crc1 (STEP4W crc0 0))), p)
      else (l, p))"

definition Extend :: "nat \<Rightarrow> u32 \<Rightarrow> bytes \<Rightarrow> u32" where
  "Extend addr crc data =
     (if CanAccelerateCRC32C then AcceleratedCRC32C crc data
      else
        let l = crc XOR kCRC32Xor;
            (l, p) = align (RoundUp4 addr - addr) data l;
            (l, p) = words p l
        in fold STEP1 p l XOR kCRC32Xor)"

definition Value :: "nat \<Rightarrow> bytes \<Rightarrow> u32" where
  "Value addr data = Extend addr 0 data"

definition kMaskDelta :: u32 where "kMaskDelta = 0xa282ead8"

definition Mask :: "u32 \<Rightarrow> u32" where
  "Mask crc = (drop_bit 15 crc OR push_bit 17 crc) + kMaskDelta"

definition Unmask :: "u32 \<Rightarrow> u32" where
  "Unmask masked_crc = (let rot = masked_crc - kMaskDelta in drop_bit 17 rot OR push_bit 15 rot)"

definition crc_step :: "u8 \<Rightarrow> u32 \<Rightarrow> u32" where
  "crc_step b l = crc_byte (l XOR ucast b)"

definition crc32c :: "u32 \<Rightarrow> bytes \<Rightarrow> u32" where
  "crc32c crc data = fold crc_step data (crc XOR kCRC32Xor) XOR kCRC32Xor"

subsection \<open>Bytes and words\<close>

lemma crc_bit_push: "(\<And>m. bit x m \<Longrightarrow> m + n < 31) \<Longrightarrow> crc_bit (push_bit (Suc n) x) = push_bit n x"
proof (rule bit_word_eqI)
  fix m
  assume x: "\<And>m. bit x m \<Longrightarrow> m + n < 31"
  show "bit (crc_bit (push_bit (Suc n) x)) m = bit (push_bit n x) m"
    using x [of "m - n"] by (auto simp: crc_bit_def bit_simps simp del: push_bit_Suc)
qed

lemma crc_byte_push: "(\<And>m. bit x m \<Longrightarrow> m < 24) \<Longrightarrow> crc_byte (push_bit 8 x) = x"
proof -
  assume x: "\<And>m. bit x m \<Longrightarrow> m < 24"
  have c: "crc_bit (push_bit (Suc n) x) = push_bit n x" if "n < 8" for n
    using that x by (intro crc_bit_push) fastforce
  have "push_bit 8 x = push_bit (Suc (Suc (Suc (Suc (Suc (Suc (Suc (Suc 0)))))))) x" by (simp add: numeral_eq_Suc)
  then show ?thesis unfolding crc_byte_def by (simp only: c) (simp add: c del: push_bit_Suc)
qed

lemma low_byte_32: "x AND 0xff = take_bit 8 (x :: u32)"
  by (simp add: take_bit_eq_mask mask_eq_exp_minus_1)

lemma low_byte_less: "unat (take_bit 8 x :: u32) < 256"
proof -
  have "unat (take_bit 8 x) = take_bit 8 (unat x)" by (rule unsigned_take_bit_eq)
  then show ?thesis using take_bit_nat_less_exp [of 8 "unat x"] by simp
qed

lemma take_bit_ucast_8: "take_bit 8 (ucast b :: u32) = ucast (b :: u8)"
  by (rule bit_word_eqI) (auto simp: bit_simps dest: bit_imp_le_length)

text \<open>A byte step: the low byte through the table, the rest shifted down.\<close>

lemma crc_byte_table: "crc_byte w = drop_bit 8 w XOR kByteExtensionTable ! unat (take_bit 8 w)"
proof -
  have w: "w = push_bit 8 (drop_bit 8 w) XOR take_bit 8 w"
    by (rule bit_word_eqI) (auto simp: bit_simps)
  have "crc_byte w = crc_byte (push_bit 8 (drop_bit 8 w)) XOR crc_byte (take_bit 8 w)"
    by (subst w) (rule crc_byte_xor)
  moreover have "crc_byte (push_bit 8 (drop_bit 8 w)) = drop_bit 8 w"
    by (rule crc_byte_push) (auto simp: bit_simps dest: bit_imp_le_length)
  ultimately show ?thesis by (simp add: byte_lookup low_byte_less)
qed

lemma STEP1_crc: "STEP1 b l = crc_step b l"
proof -
  have "take_bit 8 l XOR ucast b = take_bit 8 (l XOR ucast b)"
    by (rule bit_word_eqI) (auto simp: bit_simps dest: bit_imp_le_length)
  moreover have "drop_bit 8 (l XOR ucast b) = drop_bit 8 l"
    by (rule bit_word_eqI) (auto simp: bit_simps dest: bit_imp_le_length)
  ultimately show ?thesis by (simp add: STEP1_def Let_def low_byte_32 crc_step_def crc_byte_table xor.commute)
qed

lemma step4w: "step4w_loop i w = (crc_byte ^^ i) w"
  by (induction i arbitrary: w) (simp_all add: low_byte_32 crc_byte_table [symmetric] funpow_swap1)

lemma STEP4W_crc: "STEP4W w l = (crc_byte ^^ 4) (w XOR l)"
  by (simp add: STEP4W_def step4w)

text \<open>A stride step advances the partial result by sixteen bytes and adds the next word.\<close>

lemma crc_bytes_push: "(\<And>m. bit x m \<Longrightarrow> m < 24) \<Longrightarrow> (crc_byte ^^ Suc n) (push_bit 8 x) = (crc_byte ^^ n) x"
  by (simp add: funpow_swap1 crc_byte_push)

lemma STEP4_crc: "STEP4 p crc = DecodeFixed32 p XOR (crc_byte ^^ 16) crc"
proof -
  define a b c d where abcd: "a = take_bit 8 crc" "b = take_bit 8 (drop_bit 8 crc)" "c = take_bit 8 (drop_bit 16 crc)"
    "d = drop_bit 24 crc"
  have small: "bit a m \<Longrightarrow> m < 8" "bit b m \<Longrightarrow> m < 8" "bit c m \<Longrightarrow> m < 8" "bit d m \<Longrightarrow> m < 8" for m
    by (auto simp: abcd bit_simps dest: bit_imp_le_length)
  have "d = take_bit 8 d" by (rule bit_word_eqI) (auto simp: bit_simps dest: small)
  then have less: "unat a < 256" "unat b < 256" "unat c < 256" "unat d < 256"
    using low_byte_less [of crc] low_byte_less [of "drop_bit 8 crc"] low_byte_less [of "drop_bit 16 crc"] low_byte_less [of d]
    by (simp_all add: abcd)
  have crc: "crc = a XOR push_bit 8 b XOR push_bit 16 c XOR push_bit 24 d"
    by (rule bit_word_eqI) (auto simp: abcd bit_simps not_less)
  have push: "(crc_byte ^^ 16) (push_bit 8 b) = (crc_byte ^^ 15) b"
    "(crc_byte ^^ 16) (push_bit 16 c) = (crc_byte ^^ 14) c" "(crc_byte ^^ 16) (push_bit 24 d) = (crc_byte ^^ 13) d"
  proof -
    have c2: "push_bit 16 c = push_bit 8 (push_bit 8 c)" "push_bit 24 d = push_bit 8 (push_bit 8 (push_bit 8 d))" by simp_all
    have s: "bit (push_bit 8 c) m \<Longrightarrow> m < 24" "bit (push_bit 8 d) m \<Longrightarrow> m < 24" "bit (push_bit 8 (push_bit 8 d)) m \<Longrightarrow> m < 24" for m
      using small [of "m - 8"] small(4) [of "m - 16"] by (auto simp: bit_simps)
    have s1: "bit b m \<Longrightarrow> m < 24" "bit c m \<Longrightarrow> m < 24" "bit d m \<Longrightarrow> m < 24" for m using small [of m] by auto
    have p16: "(crc_byte ^^ 16) (push_bit 8 x) = (crc_byte ^^ 15) x" if "\<And>m. bit x m \<Longrightarrow> m < 24" for x
      using crc_bytes_push [of x 15, OF that] by simp
    have p15: "(crc_byte ^^ 15) (push_bit 8 x) = (crc_byte ^^ 14) x" if "\<And>m. bit x m \<Longrightarrow> m < 24" for x
      using crc_bytes_push [of x 14, OF that] by simp
    have p14: "(crc_byte ^^ 14) (push_bit 8 x) = (crc_byte ^^ 13) x" if "\<And>m. bit x m \<Longrightarrow> m < 24" for x
      using crc_bytes_push [of x 13, OF that] by simp
    show "(crc_byte ^^ 16) (push_bit 8 b) = (crc_byte ^^ 15) b" by (rule p16) (rule s1)
    show "(crc_byte ^^ 16) (push_bit 16 c) = (crc_byte ^^ 14) c"
      unfolding c2(1) by (subst p16, erule s, rule p15, erule s1)
    show "(crc_byte ^^ 16) (push_bit 24 d) = (crc_byte ^^ 13) d"
      unfolding c2(2) by (subst p16, erule s, subst p15, erule s, rule p14, erule s1)
  qed
  have "(crc_byte ^^ 16) crc = (crc_byte ^^ 16) a XOR (crc_byte ^^ 15) b XOR (crc_byte ^^ 14) c XOR (crc_byte ^^ 13) d"
    by (subst crc) (simp only: crc_bytes_xor push)
  then show ?thesis
    using less by (simp add: STEP4_def low_byte_32 abcd [symmetric] stride_lookup xor.assoc)
qed

text \<open>Four byte steps are one word step.\<close>

lemma crc_word:
  assumes "4 \<le> length p"
  shows "fold crc_step (take 4 p) l = (crc_byte ^^ 4) (l XOR DecodeFixed32 p)"
proof -
  obtain b0 b1 b2 b3 r where p: "p = b0 # b1 # b2 # b3 # r"
    using assms by (auto simp: Suc_le_length_iff numeral_eq_Suc)
  have u: "crc_byte (push_bit 8 x) = x" if "x = ucast (b :: u8) \<or> x = push_bit 8 (ucast b) \<or> x = push_bit 16 (ucast b)" for x b
  proof -
    have "bit b m \<Longrightarrow> m < 8" for m using bit_imp_le_length [of b m] by simp
    then show ?thesis using that by (intro crc_byte_push) (auto simp: bit_simps, fastforce+)
  qed
  have w: "DecodeFixed32 p = ucast b0 XOR push_bit 8 (ucast b1) XOR push_bit 8 (push_bit 8 (ucast b2)) XOR
      push_bit 8 (push_bit 8 (push_bit 8 (ucast b3)))"
    unfolding DecodeFixed32_def p nth_four
    by (rule bit_word_eqI) (auto simp: bit_simps dest: bit_imp_le_length)
  have f: "(f ^^ 4) x = f (f (f (f x)))" for f :: "u32 \<Rightarrow> u32" and x by (simp add: numeral_eq_Suc)
  have 8: "push_bit 8 (push_bit 8 x) = push_bit 16 x" for x :: u32 by simp
  have "crc_byte (push_bit 8 (ucast b)) = ucast b" "crc_byte (push_bit 8 (push_bit 8 (ucast b))) = push_bit 8 (ucast b)"
    "crc_byte (push_bit 8 (push_bit 8 (push_bit 8 (ucast b)))) = push_bit 8 (push_bit 8 (ucast b))" for b :: u8
    using u [of "ucast b" b] u [of "push_bit 8 (ucast b)" b] u [of "push_bit 16 (ucast b)" b] by simp_all
  then show ?thesis
    unfolding w f crc_byte_xor by (simp add: p crc_step_def crc_byte_xor xor.assoc)
qed

subsection \<open>The strides\<close>

fun combine :: "strides \<Rightarrow> u32" where
  "combine (c0, c1, c2, c3) = STEP4W c3 (STEP4W c2 (STEP4W c1 (STEP4W c0 0)))"

lemma combine_next:
  assumes "4 \<le> length p"
  shows "combine (c1, c2, c3, STEP4 p c0) = fold crc_step (take 4 p) (combine (c0, c1, c2, c3))"
proof -
  have 16: "(crc_byte ^^ 16) x = (crc_byte ^^ 4) ((crc_byte ^^ 4) ((crc_byte ^^ 4) ((crc_byte ^^ 4) x)))" for x
    unfolding funpow_add [symmetric, THEN fun_cong, unfolded comp_def] by simp
  show ?thesis
    unfolding crc_word [OF assms] combine.simps STEP4W_crc STEP4_crc 16
    by (simp add: crc_bytes_xor xor.assoc xor.commute xor.left_commute)
qed

lemma combine_first:
  assumes "4 \<le> length p" "4 \<le> length q" "4 \<le> length r" "4 \<le> length s"
  shows "combine (DecodeFixed32 p XOR l, DecodeFixed32 q, DecodeFixed32 r, DecodeFixed32 s) =
    fold crc_step (take 4 s) (fold crc_step (take 4 r) (fold crc_step (take 4 q) (fold crc_step (take 4 p) l)))"
  by (simp only: crc_word [OF assms(1)] crc_word [OF assms(2)] crc_word [OF assms(3)] crc_word [OF assms(4)]
      combine.simps STEP4W_crc xor.right_neutral xor.left_neutral xor.commute)

declare combine.simps [simp del]

lemma fold_take_drop: "fold f (drop n q) (fold f (take n q) x) = fold f q x"
  by (metis append_take_drop_id comp_apply fold_append)

text \<open>A run over at least sixteen bytes, as four words and the rest.\<close>

lemma fold_four_words:
  "fold f p l = fold f (drop 16 p)
    (fold f (take 4 (drop 12 p)) (fold f (take 4 (drop 8 p)) (fold f (take 4 (drop 4 p)) (fold f (take 4 p) l))))"
  using fold_take_drop [of f 4 p l] fold_take_drop [of f 4 "drop 4 p"] fold_take_drop [of f 4 "drop 8 p"]
    fold_take_drop [of f 4 "drop 12 p"] by simp

lemma stride4_loop_crc:
  "stride4_loop p s = (q, t) \<Longrightarrow> fold crc_step q (combine t) = fold crc_step p (combine s)"
proof (induction p s rule: stride4_loop.induct)
  case (1 p c0 c1 c2 c3)
  show ?case
  proof (cases "4 \<le> length p")
    case True
    then have "fold crc_step q (combine t) = fold crc_step (drop 4 p) (combine (c1, c2, c3, STEP4 p c0))"
      using 1 by (simp add: stride4_loop.simps [of p])
    also have "\<dots> = fold crc_step (take 4 p @ drop 4 p) (combine (c0, c1, c2, c3))"
      unfolding combine_next [OF True] by (simp only: fold_append comp_def)
    finally show ?thesis by simp
  qed (use 1 in \<open>simp add: stride4_loop.simps [of p]\<close>)
qed

lemma stride16_loop_crc:
  "stride16_loop p s = (q, t) \<Longrightarrow> fold crc_step q (combine t) = fold crc_step p (combine s)"
proof (induction p s rule: stride16_loop.induct)
  case (1 p c0 c1 c2 c3)
  show ?case
  proof (cases "16 \<le> length p")
    case True
    let ?f = "fold crc_step"
    have "?f q (combine t) = ?f (drop 16 p) (combine (STEP4 p c0, STEP4 (drop 4 p) c1, STEP4 (drop 8 p) c2, STEP4 (drop 12 p) c3))"
      using 1 True by (simp add: stride16_loop.simps [of p])
    also have "\<dots> = ?f (drop 16 p) (?f (take 4 (drop 12 p)) (?f (take 4 (drop 8 p)) (?f (take 4 (drop 4 p)) (?f (take 4 p)
        (combine (c0, c1, c2, c3))))))"
      using True by (simp add: combine_next)
    also have "\<dots> = ?f p (combine (c0, c1, c2, c3))" by (rule fold_four_words [symmetric])
    finally show ?thesis .
  qed (use 1 in \<open>simp add: stride16_loop.simps [of p]\<close>)
qed

lemma fold_STEP1: "fold STEP1 p l = fold crc_step p l"
  by (induction p arbitrary: l) (simp_all add: STEP1_crc)

text \<open>The first swath is loaded, the other swaths and words pass through the strides, and the
  four partial results are put together.\<close>

lemma swaths_crc:
  assumes "16 \<le> length p"
    "stride16_loop (drop 16 p) (DecodeFixed32 p XOR l, DecodeFixed32 (drop 4 p), DecodeFixed32 (drop 8 p), DecodeFixed32 (drop 12 p)) = (q, s)"
    "stride4_loop q s = (r, t)"
  shows "fold crc_step r (combine t) = fold crc_step p l"
proof -
  let ?f = "fold crc_step"
  have "?f r (combine t) = ?f (drop 16 p) (combine
      (DecodeFixed32 p XOR l, DecodeFixed32 (drop 4 p), DecodeFixed32 (drop 8 p), DecodeFixed32 (drop 12 p)))"
    using stride4_loop_crc [OF assms(3)] stride16_loop_crc [OF assms(2)] by simp
  also have "combine (DecodeFixed32 p XOR l, DecodeFixed32 (drop 4 p), DecodeFixed32 (drop 8 p), DecodeFixed32 (drop 12 p)) =
      ?f (take 4 (drop 12 p)) (?f (take 4 (drop 8 p)) (?f (take 4 (drop 4 p)) (?f (take 4 p) l)))"
    using assms(1) by (intro combine_first) simp_all
  also have "?f (drop 16 p) (?f (take 4 (drop 12 p)) (?f (take 4 (drop 8 p)) (?f (take 4 (drop 4 p)) (?f (take 4 p) l)))) = ?f p l"
    by (rule fold_four_words [symmetric])
  finally show ?thesis .
qed

lemma no_acceleration: "\<not> CanAccelerateCRC32C"
  by (simp add: CanAccelerateCRC32C_def AcceleratedCRC32C_def)

text \<open>The middle of \<open>Extend\<close>: the words, when there are four, and the rest.\<close>

lemma words_crc:
  "fold crc_step (snd (words p l)) (fst (words p l)) = fold crc_step p l"
proof (cases "16 \<le> length p")
  case True
  let ?s = "stride16_loop (drop 16 p) (DecodeFixed32 p XOR l, DecodeFixed32 (drop 4 p), DecodeFixed32 (drop 8 p), DecodeFixed32 (drop 12 p))"
  obtain q s where q: "?s = (q, s)" by (cases ?s)
  obtain r c0 c1 c2 c3 where r: "stride4_loop q s = (r, c0, c1, c2, c3)" by (cases "stride4_loop q s") auto
  show ?thesis
    using swaths_crc [OF True q r] True by (simp add: words_def Let_def q r combine.simps)
qed (simp add: words_def)

lemma Extend_crc32c: "Extend addr crc data = crc32c crc data"
proof -
  let ?x = "RoundUp4 addr - addr"
  have "fold crc_step (snd (align ?x data l)) (fst (align ?x data l)) = fold crc_step data l" for l
    by (simp add: align_def fold_take_drop fold_STEP1)
  then show ?thesis
    by (simp add: Extend_def no_acceleration Let_def fold_STEP1 words_crc crc32c_def split_beta)
qed

text \<open>So a checksum can be computed in parts, at any addresses.\<close>

lemma crc32c_append: "crc32c (crc32c crc a) b = crc32c crc (a @ b)"
  by (simp add: crc32c_def xor.assoc)

lemma Extend_append: "Extend u (Extend v crc a) b = Extend w crc (a @ b)"
  by (simp add: Extend_crc32c crc32c_append)

text \<open>A step is injective in the running sum, so damage in four neighbouring bytes is never missed.\<close>

lemma xor_cancel: "a XOR b = a XOR c \<longleftrightarrow> b = c" "b XOR a = c XOR a \<longleftrightarrow> b = c" for a b c :: "'a::len word"
  by (auto simp: bit_eq_iff bit_simps)

lemma crc_bit_inject: "crc_bit x = crc_bit y \<longleftrightarrow> x = y"
proof
  assume eq: "crc_bit x = crc_bit y"
  have top: "bit (crc_bit z) 31 \<longleftrightarrow> bit z 0" for z
    using bit_imp_le_length [of z 32] by (auto simp: crc_bit_def bit_simps)
  then have low: "bit x 0 \<longleftrightarrow> bit y 0" using eq by metis
  have d: "drop_bit 1 x = drop_bit 1 y" using eq low by (cases "bit y 0") (simp_all add: crc_bit_def xor_cancel)
  have "bit x (Suc n) \<longleftrightarrow> bit y (Suc n)" for n
    using arg_cong [OF d, of "\<lambda>w. bit w n"] by (simp add: bit_drop_bit_eq)
  then have "bit x n \<longleftrightarrow> bit y n" for n using low by (cases n) auto
  then show "x = y" by (simp add: bit_eq_iff)
qed simp

lemma crc_byte_inject: "crc_byte x = crc_byte y \<longleftrightarrow> x = y"
  by (simp add: crc_byte_def crc_bit_inject)

lemma fold_crc_step_inject: "fold crc_step p l = fold crc_step p l' \<longleftrightarrow> l = l'"
proof (induction p arbitrary: l l')
  case (Cons b p)
  have "crc_step b l = crc_step b l' \<longleftrightarrow> l = l'" 
    by (simp add: crc_step_def crc_byte_inject xor_cancel)
  then show ?case using Cons by simp
qed simp

lemma crc_bytes_inject: "(crc_byte ^^ n) x = (crc_byte ^^ n) y \<longleftrightarrow> x = y"
  by (induction n) (simp_all add: crc_byte_inject)

lemma EncodeFixed32_Decode:
  assumes "length p = 4"
  shows "EncodeFixed32 (DecodeFixed32 p) = p"
proof -
  obtain a b c d where p: "p = [a, b, c, d]" using assms by (auto simp: length_Suc_conv eval_nat_numeral)
  show ?thesis
    unfolding EncodeFixed32_def DecodeFixed32_def p nth_four
    by simp (intro conjI bit_word_eqI; auto simp: bit_simps dest: bit_imp_le_length)
qed

lemma crc32c_burst:
  assumes "length x = 4" "length y = 4" "x \<noteq> y"
  shows "crc32c crc (a @ x @ c) \<noteq> crc32c crc (a @ y @ c)"
proof -
  have "DecodeFixed32 x \<noteq> DecodeFixed32 y" using assms EncodeFixed32_Decode by metis
  then have "fold crc_step x l \<noteq> fold crc_step y l" for l
    using crc_word [of x l] crc_word [of y l] assms by (simp add: crc_bytes_inject xor_cancel)
  then show ?thesis by (simp add: crc32c_def fold_crc_step_inject xor_cancel)
qed

subsection \<open>Masking\<close>

lemma Unmask_Mask: "Unmask (Mask crc) = crc"
proof -
  have "drop_bit 17 (drop_bit 15 crc OR push_bit 17 crc) OR push_bit 15 (drop_bit 15 crc OR push_bit 17 crc) = crc"
    by (rule bit_word_eqI) (auto simp: bit_simps, rule ccontr, simp add: not_less)
  then show ?thesis by (simp add: Unmask_def Mask_def Let_def)
qed

lemma Mask_Unmask: "Mask (Unmask m) = m"
proof -
  have "drop_bit 15 (drop_bit 17 x OR push_bit 15 x) OR push_bit 17 (drop_bit 17 x OR push_bit 15 x) = x" for x :: u32
    by (rule bit_word_eqI) (auto simp: bit_simps, rule ccontr, simp add: not_less)
  then show ?thesis by (simp add: Unmask_def Mask_def Let_def)
qed

end
