(* ===== verification/LdbLog.thy ===== *)
theory LdbLog
  imports LdbEnv LdbCrc
begin

text \<open>
  The write-ahead log (db/log_format.h, db/log_writer.cc, db/log_reader.cc): records are cut into
  fragments that fill blocks of 32768 bytes, each with its checksum, length and type; the reader
  puts them together again, skips damaged blocks and reports what it drops.
\<close>

subsection \<open>Format\<close>

datatype RecordType = kZeroType | kFullType | kFirstType | kMiddleType | kLastType

primrec type_num :: "RecordType \<Rightarrow> nat" where
  "type_num kZeroType = 0"
| "type_num kFullType = 1"
| "type_num kFirstType = 2"
| "type_num kMiddleType = 3"
| "type_num kLastType = 4"

definition kMaxRecordType :: nat where "kMaxRecordType = type_num kLastType"
definition kBlockSize :: nat where "kBlockSize = 32768"
definition kHeaderSize :: nat where "kHeaderSize = 4 + 2 + 1"

text \<open>The checksum does not depend on where a buffer lies, so every address is taken as 0.\<close>

definition InitTypeCrc :: "u32 list" where
  "InitTypeCrc = map (\<lambda>i. Value 0 [of_nat i]) [0 ..< kMaxRecordType + 1]"

subsection \<open>The writer\<close>

record 'f log_writer =
  dest :: 'f
  block_offset :: nat
  type_crc :: "u32 list"

definition new_Writer :: "'f \<Rightarrow> 'f log_writer" where
  "new_Writer f = \<lparr>dest = f, block_offset = 0, type_crc = InitTypeCrc\<rparr>"

definition new_Writer_at :: "'f \<Rightarrow> u64 \<Rightarrow> 'f log_writer" where
  "new_Writer_at f dest_length = \<lparr>dest = f, block_offset = unat dest_length mod kBlockSize, type_crc = InitTypeCrc\<rparr>"

definition EmitPhysicalRecord :: "'f writable_ops \<Rightarrow> RecordType \<Rightarrow> bytes \<Rightarrow> 'f log_writer \<Rightarrow> (Status \<times> 'f log_writer) option" where
  "EmitPhysicalRecord ops t data w =
     (let len = length data;
          crc = Mask (Extend 0 (type_crc w ! type_num t) data);
          buf = EncodeFixed32 crc @ [of_nat len AND 0xff, of_nat (len div 256), of_nat (type_num t)];
          moved = (\<lambda>f. w\<lparr>dest := f, block_offset := block_offset w + kHeaderSize + len\<rparr>)
      in case Append ops buf (dest w) of
           None \<Rightarrow> None
         | Some (s, f) \<Rightarrow>
             if \<not> ok s then Some (s, moved f)
             else case Append ops data f of
                 None \<Rightarrow> None
               | Some (s, f) \<Rightarrow>
                   if \<not> ok s then Some (s, moved f)
                   else case Flush ops f of None \<Rightarrow> None | Some (s, f) \<Rightarrow> Some (s, moved f))"

text \<open>The trailer: when no header fits into the block, the rest is filled with zeros. The result
  of that write is not looked at.\<close>

definition switch_block :: "'f writable_ops \<Rightarrow> 'f log_writer \<Rightarrow> 'f log_writer option" where
  "switch_block ops w =
     (let leftover = kBlockSize - block_offset w in
      if leftover < kHeaderSize
      then if leftover > 0
        then case Append ops (replicate leftover 0) (dest w) of
            None \<Rightarrow> None
          | Some (_, f) \<Rightarrow> Some (w\<lparr>dest := f, block_offset := 0\<rparr>)
        else Some (w\<lparr>block_offset := 0\<rparr>)
      else Some w)"

definition fragment_type :: "bool \<Rightarrow> bool \<Rightarrow> RecordType" where
  "fragment_type starts ends =
     (if starts \<and> ends then kFullType else if starts then kFirstType else if ends then kLastType else kMiddleType)"

definition fragment_length :: "nat \<Rightarrow> nat \<Rightarrow> nat" where
  "fragment_length left offset = (let avail = kBlockSize - offset - kHeaderSize in if left < avail then left else avail)"

lemma log_sizes [simp]: "kBlockSize = 32768" "kHeaderSize = 7" "kMaxRecordType = 4"
  by (simp_all add: kBlockSize_def kHeaderSize_def kMaxRecordType_def)

lemma EmitPhysicalRecord_offset:
  "EmitPhysicalRecord ops t data w = Some (s, w') \<Longrightarrow> block_offset w' = block_offset w + 7 + length data"
  by (auto simp: EmitPhysicalRecord_def Let_def split: option.splits prod.splits if_splits)

lemma switch_block_offset:
  "switch_block ops w = Some w' \<Longrightarrow> block_offset w' = (if 32768 - block_offset w < 7 then 0 else block_offset w)"
  by (auto simp: switch_block_def Let_def split: option.splits prod.splits if_splits)

function add_loop :: "'f writable_ops \<Rightarrow> bool \<Rightarrow> bytes \<Rightarrow> 'f log_writer \<Rightarrow> (Status \<times> 'f log_writer) option" where
  "add_loop ops starts data w =
     (case switch_block ops w of
        None \<Rightarrow> None
      | Some w1 \<Rightarrow>
          let n = fragment_length (length data) (block_offset w1) in
          case EmitPhysicalRecord ops (fragment_type starts (length data = n)) (take n data) w1 of
            None \<Rightarrow> None
          | Some (s, w2) \<Rightarrow>
              if ok s \<and> length data - n > 0 then add_loop ops False (drop n data) w2 else Some (s, w2))"
  by pat_completeness auto
termination
  by (relation "measure (\<lambda>(_, _, data, w). 2 * length data + (if block_offset w = 32761 then 1 else 0))")
    (auto dest!: EmitPhysicalRecord_offset switch_block_offset simp: fragment_length_def Let_def split: if_splits)

definition AddRecord :: "'f writable_ops \<Rightarrow> bytes \<Rightarrow> 'f log_writer \<Rightarrow> (Status \<times> 'f log_writer) option" where
  "AddRecord ops data w = add_loop ops True data w"

subsection \<open>The reader\<close>

text \<open>The record type is a char that is widened with its sign; two more values stand for the end
  of the file and for a damaged record.\<close>

definition kEof :: u32 where "kEof = of_nat (kMaxRecordType + 1)"
definition kBadRecord :: u32 where "kBadRecord = of_nat (kMaxRecordType + 2)"

record 'f log_reader =
  rfile :: 'f
  checksum :: bool
  buffer :: bytes
  eof :: bool
  last_record_offset :: u64
  end_of_buffer_offset :: u64
  initial_offset :: u64
  resyncing :: bool
  reports :: "(nat \<times> Status) list"

definition new_Reader :: "'f \<Rightarrow> bool \<Rightarrow> u64 \<Rightarrow> 'f log_reader" where
  "new_Reader f chk initial =
     \<lparr>rfile = f, checksum = chk, buffer = [], eof = False, last_record_offset = 0, end_of_buffer_offset = 0,
      initial_offset = initial, resyncing = (initial > 0), reports = []\<rparr>"

definition ReportDrop :: "nat \<Rightarrow> Status \<Rightarrow> 'f log_reader \<Rightarrow> 'f log_reader" where
  "ReportDrop n reason r =
     (if end_of_buffer_offset r - of_nat (length (buffer r)) - of_nat n \<ge> initial_offset r
      then r\<lparr>reports := reports r @ [(n, reason)]\<rparr> else r)"

definition ReportCorruption :: "nat \<Rightarrow> string \<Rightarrow> 'f log_reader \<Rightarrow> 'f log_reader" where
  "ReportCorruption n reason r = ReportDrop n (Corruption reason []) r"

definition SkipToInitialBlock :: "'f sequential_ops \<Rightarrow> 'f log_reader \<Rightarrow> bool \<times> 'f log_reader" where
  "SkipToInitialBlock ops r =
     (let offset_in_block = initial_offset r mod of_nat kBlockSize;
          start = initial_offset r - offset_in_block;
          start = (if offset_in_block > of_nat (kBlockSize - 6) then start + of_nat kBlockSize else start);
          r = r\<lparr>end_of_buffer_offset := start\<rparr>
      in if start > 0
         then let (s, f) = Skip ops start (rfile r); r = r\<lparr>rfile := f\<rparr>
           in if \<not> ok s then (False, ReportDrop (unat start) s r) else (True, r)
         else (True, r))"

definition header_length :: "bytes \<Rightarrow> nat" where
  "header_length header =
     (let a = ucast (header ! 4) AND 0xff :: u32; b = ucast (header ! 5) AND 0xff :: u32 in unat (a OR push_bit 8 b))"

text \<open>One physical record from a buffer that holds at least a header.\<close>

definition parse_physical :: "bytes \<Rightarrow> 'f log_reader \<Rightarrow> u32 \<times> bytes \<times> 'f log_reader" where
  "parse_physical result r =
     (let header = buffer r;
          type = scast (header ! 6) :: u32;
          len = header_length header
      in if kHeaderSize + len > length (buffer r)
         then let drop_size = length (buffer r); r = r\<lparr>buffer := []\<rparr>
           in if \<not> eof r then (kBadRecord, result, ReportCorruption drop_size ''bad record length'' r) else (kEof, result, r)
         else if type = of_nat (type_num kZeroType) \<and> len = 0 then (kBadRecord, result, r\<lparr>buffer := []\<rparr>)
         else if checksum r \<and> Value 0 (take (1 + len) (drop 6 header)) \<noteq> Unmask (DecodeFixed32 header)
         then (kBadRecord, result, ReportCorruption (length (buffer r)) ''checksum mismatch'' (r\<lparr>buffer := []\<rparr>))
         else let r = r\<lparr>buffer := drop (kHeaderSize + len) (buffer r)\<rparr>
           in if end_of_buffer_offset r - of_nat (length (buffer r)) - of_nat kHeaderSize - of_nat len < initial_offset r
              then (kBadRecord, [], r)
              else (type, take len (drop kHeaderSize header), r))"

text \<open>The buffer is filled when no header is left in it.\<close>

function ReadPhysicalRecord :: "'f sequential_ops \<Rightarrow> bytes \<Rightarrow> 'f log_reader \<Rightarrow> (u32 \<times> bytes \<times> 'f log_reader) option" where
  "ReadPhysicalRecord ops result r =
     (if length (buffer r) < kHeaderSize
      then if \<not> eof r
        then case Read ops kBlockSize (rfile r) of
            None \<Rightarrow> None
          | Some (s, data, f) \<Rightarrow>
              let r = r\<lparr>rfile := f, buffer := data, end_of_buffer_offset := end_of_buffer_offset r + of_nat (length data)\<rparr>
              in if \<not> ok s then Some (kEof, result, (ReportDrop kBlockSize s (r\<lparr>buffer := []\<rparr>))\<lparr>eof := True\<rparr>)
                 else ReadPhysicalRecord ops result (if length data < kBlockSize then r\<lparr>eof := True\<rparr> else r)
        else Some (kEof, result, r\<lparr>buffer := []\<rparr>)
      else Some (parse_physical result r))"
  by pat_completeness auto
termination
  by (relation "measure (\<lambda>(_, _, r). if \<not> eof r \<and> length (buffer r) < 7 then 1 else 0)") auto

text \<open>What one physical record does to the logical record being put together: the loop goes on with
  a new fragment state or stops with the result of \<open>ReadRecord\<close>.\<close>

record fragments =
  in_fragmented :: bool
  scratch :: bytes
  prospective :: u64

definition partial_record :: "string \<Rightarrow> fragments \<Rightarrow> 'f log_reader \<Rightarrow> 'f log_reader" where
  "partial_record msg fs r =
     (if in_fragmented fs \<and> scratch fs \<noteq> [] then ReportCorruption (length (scratch fs)) msg r else r)"

definition logical_step ::
  "u32 \<Rightarrow> bytes \<Rightarrow> u64 \<Rightarrow> fragments \<Rightarrow> 'f log_reader \<Rightarrow> (fragments + bytes option) \<times> 'f log_reader" where
  "logical_step type fragment offset fs r =
     (if type = of_nat (type_num kFullType)
      then (Inr (Some fragment), (partial_record ''partial record without end(1)'' fs r)\<lparr>last_record_offset := offset\<rparr>)
      else if type = of_nat (type_num kFirstType)
      then (Inl \<lparr>in_fragmented = True, scratch = fragment, prospective = offset\<rparr>,
            partial_record ''partial record without end(2)'' fs r)
      else if type = of_nat (type_num kMiddleType)
      then if \<not> in_fragmented fs
        then (Inl fs, ReportCorruption (length fragment) ''missing start of fragmented record(1)'' r)
        else (Inl (fs\<lparr>scratch := scratch fs @ fragment\<rparr>), r)
      else if type = of_nat (type_num kLastType)
      then if \<not> in_fragmented fs
        then (Inl fs, ReportCorruption (length fragment) ''missing start of fragmented record(2)'' r)
        else (Inr (Some (scratch fs @ fragment)), r\<lparr>last_record_offset := prospective fs\<rparr>)
      else if type = kEof then (Inr None, r)
      else if type = kBadRecord
      then if in_fragmented fs
        then (Inl (fs\<lparr>in_fragmented := False, scratch := []\<rparr>), ReportCorruption (length (scratch fs)) ''error in middle of record'' r)
        else (Inl fs, r)
      else (Inl (fs\<lparr>in_fragmented := False, scratch := []\<rparr>),
            ReportCorruption (length fragment + (if in_fragmented fs then length (scratch fs) else 0))
              (''unknown record type '' @ decimal (unat type)) r))"

text \<open>While resyncing, the rest of a record that began before the initial offset is passed over.\<close>

definition resync :: "u32 \<Rightarrow> 'f log_reader \<Rightarrow> bool \<times> 'f log_reader" where
  "resync type r =
     (if resyncing r
      then if type = of_nat (type_num kMiddleType) then (True, r)
        else if type = of_nat (type_num kLastType) then (True, r\<lparr>resyncing := False\<rparr>)
        else (False, r\<lparr>resyncing := False\<rparr>)
      else (False, r))"

partial_function (option) read_record_loop ::
  "'f sequential_ops \<Rightarrow> bytes \<Rightarrow> fragments \<Rightarrow> 'f log_reader \<Rightarrow> (bytes option \<times> 'f log_reader) option" where
  "read_record_loop ops fragment fs r =
     (case ReadPhysicalRecord ops fragment r of
        None \<Rightarrow> None
      | Some (type, fragment, r) \<Rightarrow>
          let offset = end_of_buffer_offset r - of_nat (length (buffer r)) - of_nat kHeaderSize - of_nat (length fragment);
              (skipped, r) = resync type r
          in if skipped then read_record_loop ops fragment fs r
             else case logical_step type fragment offset fs r of
                 (Inr res, r) \<Rightarrow> Some (res, r)
               | (Inl fs, r) \<Rightarrow> read_record_loop ops fragment fs r)"

definition ReadRecord :: "'f sequential_ops \<Rightarrow> 'f log_reader \<Rightarrow> (bytes option \<times> 'f log_reader) option" where
  "ReadRecord ops r =
     (let (skipped, r) = (if last_record_offset r < initial_offset r then SkipToInitialBlock ops r else (True, r)) in
      if \<not> skipped then Some (None, r)
      else read_record_loop ops [] \<lparr>in_fragmented = False, scratch = [], prospective = 0\<rparr> r)"

text \<open>Reading until there is no further record, as the callers do.\<close>

partial_function (option) read_log :: "'f sequential_ops \<Rightarrow> 'f log_reader \<Rightarrow> (bytes list \<times> 'f log_reader) option" where
  "read_log ops r =
     (case ReadRecord ops r of
        None \<Rightarrow> None
      | Some (None, r) \<Rightarrow> Some ([], r)
      | Some (Some x, r) \<Rightarrow> Option.bind (read_log ops r) (\<lambda>(xs, r). Some (x # xs, r)))"

subsection \<open>What the writer appends\<close>

definition physical :: "RecordType \<Rightarrow> bytes \<Rightarrow> bytes" where
  "physical t d = EncodeFixed32 (Mask (Value 0 (of_nat (type_num t) # d))) @
     [of_nat (length d) AND 0xff, of_nat (length d div 256), of_nat (type_num t)] @ d"

definition block_start :: "nat \<Rightarrow> nat" where "block_start b = (if 32768 - b < 7 then 0 else b)"
definition trailer :: "nat \<Rightarrow> bytes" where "trailer b = (if 32768 - b < 7 then replicate (32768 - b) 0 else [])"

function record_bytes :: "bool \<Rightarrow> bytes \<Rightarrow> nat \<Rightarrow> bytes \<times> nat" where
  "record_bytes starts data b =
     (let n = fragment_length (length data) (block_start b);
          p = trailer b @ physical (fragment_type starts (length data = n)) (take n data)
      in if n < length data
         then let (q, b') = record_bytes False (drop n data) (block_start b + 7 + n) in (p @ q, b')
         else (p, block_start b + 7 + n))"
  by pat_completeness auto
termination
  by (relation "measure (\<lambda>(_, data, b). 2 * length data + (if b = 32761 then 1 else 0))")
    (auto simp: fragment_length_def block_start_def Let_def split: if_splits)

declare record_bytes.simps [simp del] add_loop.simps [simp del]

lemma length_physical [simp]: "length (physical t d) = 7 + length d"
  by (simp add: physical_def)

lemma length_trailer: "length (trailer b) = (if 32768 - b < 7 then 32768 - b else 0)"
  by (simp add: trailer_def)

lemma fragment_fits: "b \<le> 32761 \<Longrightarrow> b + 7 + fragment_length n b \<le> 32768"
  by (auto simp: fragment_length_def Let_def)

lemma fragment_length_le: "fragment_length n b \<le> n"
  by (auto simp: fragment_length_def Let_def)

lemma block_start_le: "block_start b \<le> 32761"
  by (auto simp: block_start_def)

lemma Extend_type_crc: "Extend 0 (InitTypeCrc ! type_num t) d = Value 0 (of_nat (type_num t) # d)"
proof -
  have "InitTypeCrc ! type_num t = Value 0 [of_nat (type_num t)]"
    unfolding InitTypeCrc_def by (cases t) (simp_all add: upt_rec)
  then show ?thesis by (simp add: Value_def Extend_append [where w = 0])
qed

context writable_file
begin

lemma Append_good:
  assumes "good f"
  obtains f' where "Append ops d f = Some (OK, f')" "good f'" "contents f' = contents f @ d"
  using Append [OF assms] by blast

lemma EmitPhysicalRecord_bytes:
  assumes "good (dest w)" "type_crc w = InitTypeCrc"
  shows "\<exists>f. EmitPhysicalRecord ops t d w = Some (OK, w\<lparr>dest := f, block_offset := block_offset w + 7 + length d\<rparr>) \<and>
    good f \<and> contents f = contents (dest w) @ physical t d"
proof -
  let ?h = "EncodeFixed32 (Mask (Value 0 (of_nat (type_num t) # d))) @
     [of_nat (length d) AND 0xff, of_nat (length d div 256), of_nat (type_num t)]"
  obtain f1 where 1: "Append ops ?h (dest w) = Some (OK, f1)" "good f1" "contents f1 = contents (dest w) @ ?h"
    using Append [OF assms(1)] by blast
  obtain f2 where 2: "Append ops d f1 = Some (OK, f2)" "good f2" "contents f2 = contents f1 @ d"
    using Append [OF 1(2)] by blast
  obtain f3 where 3: "Flush ops f2 = Some (OK, f3)" "good f3" "contents f3 = contents f2"
    using Flush [OF 2(2)] by blast
  show ?thesis
    using 1 2 3 by (auto simp: EmitPhysicalRecord_def Let_def assms(2) Extend_type_crc physical_def)
qed

lemma switch_block_bytes:
  assumes "good (dest w)"
  shows "\<exists>f. switch_block ops w = Some (w\<lparr>dest := f, block_offset := block_start (block_offset w)\<rparr>) \<and>
    good f \<and> contents f = contents (dest w) @ trailer (block_offset w)"
proof -
  obtain f where f: "Append ops (replicate (32768 - block_offset w) 0) (dest w) = Some (OK, f)" "good f"
    "contents f = contents (dest w) @ replicate (32768 - block_offset w) 0"
    using Append [OF assms] by blast
  then show ?thesis
    using assms by (cases w) (auto simp: switch_block_def block_start_def trailer_def Let_def)
qed

lemma add_loop_bytes:
  assumes "good (dest w)" "type_crc w = InitTypeCrc"
  shows "\<exists>f. add_loop ops starts data w =
      Some (OK, w\<lparr>dest := f, block_offset := snd (record_bytes starts data (block_offset w))\<rparr>) \<and>
    good f \<and> contents f = contents (dest w) @ fst (record_bytes starts data (block_offset w))"
  using assms
proof (induction starts data "block_offset w" arbitrary: w rule: record_bytes.induct)
  case (1 starts data)
  let ?b = "block_start (block_offset w)"
  let ?n = "fragment_length (length data) ?b"
  let ?t = "fragment_type starts (length data = ?n)"
  obtain f1 where f1: "switch_block ops w = Some (w\<lparr>dest := f1, block_offset := ?b\<rparr>)" "good f1"
    "contents f1 = contents (dest w) @ trailer (block_offset w)"
    using switch_block_bytes [OF 1(2)] by blast
  define w1 where "w1 = w\<lparr>dest := f1, block_offset := ?b\<rparr>"
  have w1: "dest w1 = f1" "block_offset w1 = ?b" "type_crc w1 = InitTypeCrc" using 1(3) by (simp_all add: w1_def)
  obtain f2 where f2: "EmitPhysicalRecord ops ?t (take ?n data) w1 = Some (OK, w1\<lparr>dest := f2, block_offset := ?b + 7 + ?n\<rparr>)"
    "good f2" "contents f2 = contents f1 @ physical ?t (take ?n data)"
    using EmitPhysicalRecord_bytes [of w1 ?t "take ?n data"] w1 f1(2) fragment_length_le [of "length data" ?b]
    by (auto simp: min_absorb2)
  define w2 where "w2 = w1\<lparr>dest := f2, block_offset := ?b + 7 + ?n\<rparr>"
  have w2: "dest w2 = f2" "block_offset w2 = ?b + 7 + ?n" "type_crc w2 = InitTypeCrc" using w1 by (simp_all add: w2_def)
  have once: "add_loop ops starts data w = (if ?n < length data then add_loop ops False (drop ?n data) w2 else Some (OK, w2))"
    using f1(1) f2(1) by (simp add: add_loop.simps [of ops starts] w1_def [symmetric] w1 w2_def [symmetric])
  show ?case
  proof (cases "?n < length data")
    case True
    obtain q b' where q: "record_bytes False (drop ?n data) (?b + 7 + ?n) = (q, b')" by fastforce
    have "\<exists>f. add_loop ops False (drop ?n data) w2 = Some (OK, w2\<lparr>dest := f, block_offset := b'\<rparr>) \<and>
        good f \<and> contents f = contents (dest w2) @ q"
      using 1(1) [OF refl refl True, of w2] w2 f2(2) q by simp
    then show ?thesis
      using True f1 f2 w1 w2
      by (auto simp: once record_bytes.simps [of starts] Let_def q w1_def w2_def)
  next
    case False
    then show ?thesis
      using f1 f2 w1 w2 by (auto simp: once record_bytes.simps [of starts] Let_def w1_def w2_def)
  qed
qed

end

text \<open>A log of several records.\<close>

fun log_bytes :: "bytes list \<Rightarrow> nat \<Rightarrow> bytes" where
  "log_bytes [] b = []"
| "log_bytes (x # xs) b = (let (p, b') = record_bytes True x b in p @ log_bytes xs b')"

fun add_records :: "'f writable_ops \<Rightarrow> bytes list \<Rightarrow> 'f log_writer \<Rightarrow> (Status \<times> 'f log_writer) option" where
  "add_records ops [] w = Some (OK, w)"
| "add_records ops (x # xs) w =
     (case AddRecord ops x w of
        None \<Rightarrow> None
      | Some (s, w) \<Rightarrow> if ok s then add_records ops xs w else Some (s, w))"

context writable_file
begin

lemma add_records_bytes:
  assumes "good (dest w)" "type_crc w = InitTypeCrc"
  shows "\<exists>w'. add_records ops xs w = Some (OK, w') \<and> good (dest w') \<and>
    contents (dest w') = contents (dest w) @ log_bytes xs (block_offset w)"
  using assms
proof (induction xs arbitrary: w)
  case (Cons x xs)
  obtain p b where p: "record_bytes True x (block_offset w) = (p, b)" by fastforce
  obtain f where f: "AddRecord ops x w = Some (OK, w\<lparr>dest := f, block_offset := b\<rparr>)" "good f" "contents f = contents (dest w) @ p"
    using add_loop_bytes [OF Cons(2,3), of True x] p by (auto simp: AddRecord_def)
  then show ?case using Cons(1) [of "w\<lparr>dest := f, block_offset := b\<rparr>"] Cons(3) p by auto
qed auto

end

subsection \<open>What the reader takes back\<close>

declare ReadPhysicalRecord.simps [simp del]

lemma scast_type: "scast (of_nat (type_num t) :: u8) = (of_nat (type_num t) :: u32)"
  by (cases t) simp_all

lemma type_zero: "of_nat (type_num t) = (0 :: u32) \<longleftrightarrow> t = kZeroType"
  by (cases t) simp_all

lemma header_length:
  assumes "n < 65536"
  shows "header_length (c0 # c1 # c2 # c3 # (of_nat n AND 0xff) # of_nat (n div 256) # xs) = n"
proof -
  have d: "n div 256 = drop_bit 8 n" by (simp add: drop_bit_eq_div)
  have n: "bit n k \<Longrightarrow> k < 16" for k
    using assms take_bit_nat_eq_self [of n 16] bit_take_bit_iff [of 16 n k] by simp
  have 8: "x AND 0xff = take_bit 8 x" for x :: "'a::len word"
    by (simp add: take_bit_eq_mask mask_eq_exp_minus_1)
  have "(ucast (of_nat n AND 0xff :: u8) AND 0xff :: u32) OR push_bit 8 (ucast (of_nat (n div 256) :: u8) AND 0xff) = of_nat n"
    unfolding d 8 by (rule bit_word_eqI) (auto simp: bit_simps dest: n)
  then show ?thesis using assms by (simp add: header_length_def unat_of_nat_32 del: push_bit_and)
qed

lemma list_of_4: "length xs = 4 \<Longrightarrow> \<exists>a b c d. xs = [a, b, c, d]"
  by (auto simp: length_Suc_conv eval_nat_numeral)

text \<open>The reader's place: block offset \<open>b\<close>, the rest \<open>S\<close> of the file. The buffer holds the rest of
  the block, and a block cut short by the end of the file is the last one.\<close>

definition reads_at :: "('f \<Rightarrow> bytes) \<Rightarrow> ('f \<Rightarrow> bool) \<Rightarrow> nat \<Rightarrow> bytes \<Rightarrow> 'f log_reader \<Rightarrow> bool" where
  "reads_at rest good b S r \<longleftrightarrow>
     b \<le> 32768 \<and> good (rfile r) \<and> buffer r = take (32768 - b) S \<and> rest (rfile r) = drop (32768 - b) S \<and>
     (eof r \<longleftrightarrow> length S < 32768 - b) \<and> initial_offset r = 0 \<and> \<not> resyncing r"

text \<open>A fragment in the buffer, whole or cut off by the end of the file.\<close>

lemma parse_physical_whole:
  assumes "buffer r = physical t d @ X" "length d < 65536" "t \<noteq> kZeroType" "initial_offset r = 0"
  shows "parse_physical result r = (of_nat (type_num t), d, r\<lparr>buffer := X\<rparr>)"
proof -
  have len: "length (EncodeFixed32 c) = 4" for c by simp
  obtain c0 c1 c2 c3 where c: "EncodeFixed32 (Mask (Value 0 (of_nat (type_num t) # d))) = [c0, c1, c2, c3]"
    using list_of_4 [OF len] by blast
  have "DecodeFixed32 (buffer r) = Mask (Value 0 (of_nat (type_num t) # d))"
    by (simp add: assms(1) physical_def)
  moreover have drop7: "drop (7 + n) (a0 # a1 # a2 # a3 # a4 # a5 # a6 # xs) = drop n xs" for n a0 a1 a2 a3 a4 a5 a6 and xs :: bytes
    by (simp add: eval_nat_numeral)
  ultimately show ?thesis
    using assms(2-4)
    by (simp add: parse_physical_def Let_def assms(1) physical_def c Unmask_Mask scast_type type_zero header_length drop7)
qed

lemma parse_physical_cut:
  assumes "buffer r = take n (physical t d @ X)" "length d < 65536" "7 \<le> n" "n < 7 + length d" "eof r"
  shows "parse_physical result r = (kEof, result, r\<lparr>buffer := []\<rparr>)"
proof -
  obtain m where m: "n = Suc (Suc (Suc (Suc (Suc (Suc (Suc m))))))" "m < length d"
    using assms(3,4) by (auto simp: le_iff_add)
  have len: "length (EncodeFixed32 c) = 4" for c by simp
  obtain c0 c1 c2 c3 where c: "EncodeFixed32 (Mask (Value 0 (of_nat (type_num t) # d))) = [c0, c1, c2, c3]"
    using list_of_4 [OF len] by blast
  show ?thesis
    using assms(2,5) m(2) by (simp add: parse_physical_def Let_def assms(1) physical_def c header_length m(1))
qed

text \<open>Reading on from a place in the file.\<close>

context sequential_file
begin

abbreviation "at \<equiv> reads_at rest good"

lemma at_refill:
  assumes "at b S r" "32768 - b < 7" "32768 - b \<le> length S"
  shows "\<exists>r'. ReadPhysicalRecord ops fr r = ReadPhysicalRecord ops fr r' \<and> at 0 (drop (32768 - b) S) r' \<and>
    reports r' = reports r"
proof -
  have r: "good (rfile r)" "buffer r = take (32768 - b) S" "rest (rfile r) = drop (32768 - b) S" "\<not> eof r"
    "initial_offset r = 0" "\<not> resyncing r" using assms by (auto simp: reads_at_def)
  obtain f where f: "Read ops 32768 (rfile r) = Some (OK, take 32768 (rest (rfile r)), f)" "good f"
    "rest f = drop 32768 (rest (rfile r))"
    using Read [OF r(1), of 32768] by auto
  define r1 where "r1 = r\<lparr>rfile := f, buffer := take 32768 (rest (rfile r)),
    end_of_buffer_offset := end_of_buffer_offset r + of_nat (length (take 32768 (rest (rfile r))))\<rparr>"
  define r' where "r' = (if length (rest (rfile r)) < 32768 then r1\<lparr>eof := True\<rparr> else r1)"
  have "ReadPhysicalRecord ops fr r = ReadPhysicalRecord ops fr r'"
    using assms(2,3) r f by (subst ReadPhysicalRecord.simps) (simp add: r'_def r1_def Let_def)
  moreover have "at 0 (drop (32768 - b) S) r'" "reports r' = reports r"
    using r f by (auto simp: reads_at_def r'_def r1_def)
  ultimately show ?thesis by blast
qed

lemma at_end:
  assumes "at b S r" "length S < 7" "length S < 32768 - b"
  shows "ReadPhysicalRecord ops fr r = Some (kEof, fr, r\<lparr>buffer := []\<rparr>)"
  using assms by (subst ReadPhysicalRecord.simps) (simp add: reads_at_def)

lemma at_physical:
  assumes "at b (take m (physical t d @ X)) r" "b + 7 + length d \<le> 32768" "t \<noteq> kZeroType" "7 + length d \<le> m"
  shows "\<exists>r'. ReadPhysicalRecord ops fr r = Some (of_nat (type_num t), d, r') \<and>
    at (b + 7 + length d) (take (m - (7 + length d)) X) r' \<and> reports r' = reports r"
proof -
  let ?Y = "take (m - (7 + length d)) X"
  have S: "take m (physical t d @ X) = physical t d @ ?Y" using assms(4) by (simp add: take_append)
  note at = assms(1) [unfolded S]
  have b: "buffer r = physical t d @ take (32768 - (b + 7 + length d)) ?Y"
    using assms(2) at by (simp add: reads_at_def del: take_take)
  then have "ReadPhysicalRecord ops fr r = Some (of_nat (type_num t), d, r\<lparr>buffer := take (32768 - (b + 7 + length d)) ?Y\<rparr>)"
    using at assms(2,3) parse_physical_whole [OF b]
    by (subst ReadPhysicalRecord.simps) (simp add: reads_at_def)
  moreover have "at (b + 7 + length d) ?Y (r\<lparr>buffer := take (32768 - (b + 7 + length d)) ?Y\<rparr>)"
    using at assms(2) by (auto simp: reads_at_def)
  ultimately show ?thesis by force
qed

lemma at_cut:
  assumes "at b (take m (physical t d @ X)) r" "b + 7 + length d \<le> 32768" "m < 7 + length d"
  shows "ReadPhysicalRecord ops fr r = Some (kEof, fr, r\<lparr>buffer := []\<rparr>)"
proof (cases "7 \<le> m")
  case True
  have b: "buffer r = take m (physical t d @ X)" "eof r" using assms by (auto simp: reads_at_def)
  then show ?thesis
    using parse_physical_cut [OF b(1) _ True assms(3) b(2)] assms(2,3) True
    by (subst ReadPhysicalRecord.simps) simp
next
  case False
  then show ?thesis using at_end [OF assms(1)] assms(2) by simp
qed

lemma at_empty:
  assumes "at b [] r"
  shows "\<exists>r'. ReadPhysicalRecord ops fr r = Some (kEof, fr, r') \<and> reports r' = reports r \<and> \<not> resyncing r'"
proof (cases "b = 32768")
  case True
  obtain r1 where r1: "ReadPhysicalRecord ops fr r = ReadPhysicalRecord ops fr r1" "at 0 [] r1" "reports r1 = reports r"
    using at_refill [OF assms] True by auto
  then show ?thesis using at_end [OF r1(2)] by (auto simp: reads_at_def)
next
  case False
  then show ?thesis using at_end [OF assms] assms by (auto simp: reads_at_def)
qed

text \<open>With the trailer in front.\<close>

lemma at_trailer:
  assumes "at b (take m (trailer b @ X)) r" "length (trailer b) \<le> m"
  shows "\<exists>r'. ReadPhysicalRecord ops fr r = ReadPhysicalRecord ops fr r' \<and>
    at (block_start b) (take (m - length (trailer b)) X) r' \<and> reports r' = reports r"
proof (cases "32768 - b < 7")
  case True
  then have len: "length (trailer b) = 32768 - b" "block_start b = 0" by (simp_all add: length_trailer block_start_def)
  then show ?thesis
    using at_refill [OF assms(1) True] assms(2) by (auto simp: take_append)
next
  case False
  then show ?thesis using assms by (auto simp: trailer_def block_start_def)
qed

lemma at_trailer_cut:
  assumes "at b (take m (trailer b @ X)) r" "m < length (trailer b)"
  shows "ReadPhysicalRecord ops fr r = Some (kEof, fr, r\<lparr>buffer := []\<rparr>)"
  using assms at_end [OF assms(1)] by (auto simp: length_trailer split: if_splits)

text \<open>The fragments of one record, complete or cut off somewhere.\<close>

lemma loop_end:
  assumes "ReadPhysicalRecord ops fr r = Some (kEof, fr', r')" "\<not> resyncing r'"
  shows "read_record_loop ops fr fs r = Some (None, r')"
  using assms by (subst read_record_loop.simps) (simp add: resync_def logical_step_def kEof_def)

lemma loop_fragment:
  assumes "ReadPhysicalRecord ops fr r = Some (of_nat (type_num (fragment_type starts ends)), d, r')" "\<not> resyncing r'"
    "in_fragmented fs \<longleftrightarrow> \<not> starts"
  shows "\<exists>p x. read_record_loop ops fr fs r =
    (if ends then Some (Some ((if starts then [] else scratch fs) @ d), r'\<lparr>last_record_offset := x\<rparr>)
     else read_record_loop ops d \<lparr>in_fragmented = True, scratch = (if starts then [] else scratch fs) @ d, prospective = p\<rparr> r')"
proof -
  obtain i s p where fs: "fs = \<lparr>in_fragmented = i, scratch = s, prospective = p\<rparr>" by (cases fs)
  show ?thesis
    using assms
    by (subst (1) read_record_loop.simps)
      (auto simp: resync_def logical_step_def fragment_type_def partial_record_def Let_def fs)
qed

lemma loop_record:
  assumes "at b (take m (fst (record_bytes starts data b) @ X)) r" "in_fragmented fs \<longleftrightarrow> \<not> starts"
  shows "\<exists>r'. reports r' = reports r \<and>
    (if length (fst (record_bytes starts data b)) \<le> m
     then read_record_loop ops fr fs r = Some (Some ((if starts then [] else scratch fs) @ data), r') \<and>
       at (snd (record_bytes starts data b)) (take (m - length (fst (record_bytes starts data b))) X) r'
     else read_record_loop ops fr fs r = Some (None, r'))"
  using assms
proof (induction starts data b arbitrary: m fs fr r rule: record_bytes.induct)
  case (1 starts data b)
  let ?n = "fragment_length (length data) (block_start b)"
  let ?d = "take ?n data" and ?t = "fragment_type starts (length data = ?n)"
  let ?p = "trailer b @ physical ?t ?d"
  let ?e = "block_start b + 7 + ?n"
  obtain q e' where q: "(if ?n < length data then record_bytes False (drop ?n data) ?e else ([], ?e)) = (q, e')" by fastforce
  have rb: "record_bytes starts data b = (?p @ q, e')"
    using q by (subst record_bytes.simps) (auto simp: Let_def split: prod.splits if_splits)
  have d: "length ?d = ?n" using fragment_length_le [of "length data" "block_start b"] by simp
  have fits: "block_start b + 7 + length ?d \<le> 32768" using d fragment_fits [OF block_start_le] by simp
  have t: "?t \<noteq> kZeroType" by (simp add: fragment_type_def)
  have S: "at b (take m (trailer b @ physical ?t ?d @ q @ X)) r" using 1(2) by (simp add: rb)
  have nores: "at b' S' r' \<Longrightarrow> \<not> resyncing r'" for b' S' r' by (simp add: reads_at_def)
  have fail: ?case if "ReadPhysicalRecord ops fr r = Some (kEof, fr, r'\<lparr>buffer := []\<rparr>)" "\<not> resyncing r'" "reports r' = reports r"
    "m < length (fst (record_bytes starts data b))" for r'
    using loop_end [OF that(1)] that by (auto intro!: exI [of _ "r'\<lparr>buffer := []\<rparr>"])
  show ?case
  proof (cases "length (trailer b) \<le> m")
    case False
    then show ?thesis
      using fail [OF at_trailer_cut [OF S]] nores [OF S] by (simp add: rb)
  next
    case True
    obtain r1 where r1: "ReadPhysicalRecord ops fr r = ReadPhysicalRecord ops fr r1" "reports r1 = reports r"
      "at (block_start b) (take (m - length (trailer b)) (physical ?t ?d @ q @ X)) r1"
      using at_trailer [OF S True] by blast
    show ?thesis
    proof (cases "7 + length ?d \<le> m - length (trailer b)")
      case False
      then have "m < length (fst (record_bytes starts data b))"
        and "ReadPhysicalRecord ops fr r = Some (kEof, fr, r1\<lparr>buffer := []\<rparr>)"
        using at_cut [OF r1(3) fits] r1(1) True by (simp_all add: rb)
      then show ?thesis using nores [OF r1(3)] r1(2) by (intro fail)
    next
      case whole: True
      obtain r2 where r2: "ReadPhysicalRecord ops fr r = Some (of_nat (type_num ?t), ?d, r2)" "reports r2 = reports r"
        "at ?e (take (m - length ?p) (q @ X)) r2"
        using at_physical [OF r1(3) fits t whole] r1(1,2) d by (auto simp: diff_diff_add)
      show ?thesis
      proof (cases "?n < length data")
        case False
        then have "q = []" "e' = ?e" "?d = data" "length data = ?n" using q d by (auto simp: not_less)
        moreover obtain x where "read_record_loop ops fr fs r =
            Some (Some ((if starts then [] else scratch fs) @ ?d), r2\<lparr>last_record_offset := x\<rparr>)"
          using loop_fragment [OF r2(1) nores [OF r2(3)] 1(3)] calculation(4) by auto
        moreover have "at ?e (take (m - length ?p) X) (r2\<lparr>last_record_offset := x\<rparr>)" for x
          using r2(3) calculation(1) by (simp add: reads_at_def)
        moreover have "length ?p \<le> m" using whole True by simp
        ultimately show ?thesis
          unfolding rb fst_conv snd_conv using r2(2)
          by (intro exI [of _ "r2\<lparr>last_record_offset := x\<rparr>"]) (simp only: if_True append_Nil2, simp)
      next
        case more: True
        then have e: "record_bytes False (drop ?n data) ?e = (q, e')" "length data \<noteq> ?n" using q by simp_all
        obtain p where l: "read_record_loop ops fr fs r =
            read_record_loop ops ?d \<lparr>in_fragmented = True, scratch = (if starts then [] else scratch fs) @ ?d, prospective = p\<rparr> r2"
          using loop_fragment [OF r2(1) nores [OF r2(3)] 1(3)] e(2) by auto
        have "at ?e (take (m - length ?p) (fst (record_bytes False (drop ?n data) ?e) @ X)) r2" using r2(3) e(1) by simp
        from 1(1) [OF refl refl more this, of "\<lparr>in_fragmented = True, scratch = (if starts then [] else scratch fs) @ ?d, prospective = p\<rparr>" ?d]
        obtain r3 where r3: "reports r3 = reports r2"
          "if length q \<le> m - length ?p then read_record_loop ops fr fs r = Some (Some ((if starts then [] else scratch fs) @ data), r3) \<and>
             at e' (take (m - length ?p - length q) X) r3
           else read_record_loop ops fr fs r = Some (None, r3)"
          unfolding l e(1) fst_conv snd_conv fragments.simps if_False append_assoc append_take_drop_id by blast
        have "length q \<le> m - length ?p \<longleftrightarrow> length (?p @ q) \<le> m" "m - length ?p - length q = m - length (?p @ q)"
          using whole True by auto
        then show ?thesis
          unfolding rb fst_conv snd_conv using r3 r2(2) by (intro exI [of _ r3]) (simp only: simp_thms)
      qed
    qed
  qed
qed

text \<open>A whole log: the records that lie completely before the cut, and nothing is reported.\<close>

lemma ReadRecord_loop:
  "initial_offset r = 0 \<Longrightarrow> ReadRecord ops r = read_record_loop ops [] \<lparr>in_fragmented = False, scratch = [], prospective = 0\<rparr> r"
  by (simp add: ReadRecord_def)

lemma read_log_bytes:
  assumes "at b (take m (log_bytes rs b)) r"
  shows "\<exists>k r'. read_log ops r = Some (take k rs, r') \<and> reports r' = reports r \<and> k \<le> length rs \<and>
    length (log_bytes (take k rs) b) \<le> m \<and> (k < length rs \<longrightarrow> m < length (log_bytes (take (Suc k) rs) b))"
  using assms
proof (induction rs arbitrary: b m r)
  case Nil
  then have "at b [] r" by simp
  then obtain r' where "ReadRecord ops r = Some (None, r')" "reports r' = reports r"
    using at_empty loop_end ReadRecord_loop by (metis reads_at_def)
  then show ?case by (subst read_log.simps) simp
next
  case (Cons x rs)
  obtain p b' where p: "record_bytes True x b = (p, b')" by fastforce
  have i: "initial_offset r = 0" using Cons(2) by (simp add: reads_at_def)
  have "at b (take m (fst (record_bytes True x b) @ log_bytes rs b')) r" using Cons(2) p by simp
  from loop_record [OF this, of "\<lparr>in_fragmented = False, scratch = [], prospective = 0\<rparr>" "[]"]
  obtain r1 where r1: "reports r1 = reports r"
    "if length p \<le> m then ReadRecord ops r = Some (Some x, r1) \<and> at b' (take (m - length p) (log_bytes rs b')) r1
     else ReadRecord ops r = Some (None, r1)"
    unfolding p fst_conv snd_conv fragments.simps if_True append_Nil ReadRecord_loop [OF i] by blast
  show ?case
  proof (cases "length p \<le> m")
    case True
    then have x: "ReadRecord ops r = Some (Some x, r1)" "at b' (take (m - length p) (log_bytes rs b')) r1" using r1(2) by simp_all
    obtain k r2 where k: "read_log ops r1 = Some (take k rs, r2)" "reports r2 = reports r1" "k \<le> length rs"
      "length (log_bytes (take k rs) b') \<le> m - length p" "k < length rs \<longrightarrow> m - length p < length (log_bytes (take (Suc k) rs) b')"
      using Cons(1) [OF x(2)] by blast
    then show ?thesis
      using True x(1) p r1(1) by (subst read_log.simps, intro exI [of _ "Suc k"] exI [of _ r2]) auto
  next
    case False
    then show ?thesis
      using r1 p by (subst read_log.simps, intro exI [of _ 0] exI [of _ r1]) auto
  qed
qed

end

lemma report_keeps [simp]:
  "rfile (ReportCorruption n m r) = rfile r" "buffer (ReportCorruption n m r) = buffer r"
  "rfile (partial_record m fs r) = rfile r" "buffer (partial_record m fs r) = buffer r"
  by (simp_all add: ReportCorruption_def ReportDrop_def partial_record_def)

lemma logical_step_keeps:
  "logical_step t d x fs r = (c, r') \<Longrightarrow> rfile r' = rfile r \<and> buffer r' = buffer r \<and> (t = kEof \<longrightarrow> c = Inr None)"
  unfolding logical_step_def by (auto simp: kEof_def split: if_splits)

context sequential_file
begin

subsection \<open>Any file\<close>

text \<open>Whatever the file holds, every call of \<open>ReadRecord\<close> returns: each physical record takes bytes
  away or ends the file.\<close>

abbreviation unread :: "'f log_reader \<Rightarrow> nat" where
  "unread r \<equiv> length (buffer r) + length (rest (rfile r))"

lemma ReadPhysicalRecord_takes:
  assumes "good (rfile r)"
  shows "\<exists>t d r'. ReadPhysicalRecord ops fr r = Some (t, d, r') \<and> good (rfile r') \<and> (t = kEof \<or> unread r' < unread r)"
proof -
  have parse: "\<exists>t d r'. Some (parse_physical fr s) = Some (t, d, r') \<and> good (rfile r') \<and> (t = kEof \<or> unread r' < unread s)"
    if "7 \<le> length (buffer s)" "good (rfile s)" for s :: "'f log_reader"
    using that by (auto simp: parse_physical_def Let_def ReportCorruption_def ReportDrop_def)
  show ?thesis
  proof (cases "length (buffer r) < 7 \<and> \<not> eof r")
    case True
    obtain f where f: "Read ops 32768 (rfile r) = Some (OK, take 32768 (rest (rfile r)), f)" "good f"
      "rest f = drop 32768 (rest (rfile r))"
      using Read [OF assms, of 32768] by auto
    define s0 where "s0 = r\<lparr>rfile := f, buffer := take 32768 (rest (rfile r)),
        end_of_buffer_offset := end_of_buffer_offset r + of_nat (length (take 32768 (rest (rfile r))))\<rparr>"
    define s where "s = (if length (take 32768 (rest (rfile r))) < 32768 then s0\<lparr>eof := True\<rparr> else s0)"
    have s: "good (rfile s)" "buffer s = take 32768 (rest (rfile r))" "unread s \<le> unread r" "length (buffer s) < 7 \<longrightarrow> eof s"
      using f by (auto simp: s_def s0_def)
    have step: "ReadPhysicalRecord ops fr r = ReadPhysicalRecord ops fr s"
      using True f by (subst ReadPhysicalRecord.simps) (simp add: s_def s0_def Let_def)
    show ?thesis
    proof (cases "length (buffer s) < 7")
      case True
      then show ?thesis using s by (subst step, subst ReadPhysicalRecord.simps) simp
    next
      case False
      then show ?thesis using parse [of s] s by (subst step, subst ReadPhysicalRecord.simps) force
    qed
  next
    case False
    then show ?thesis
      using parse [of r] assms by (subst ReadPhysicalRecord.simps) (cases "length (buffer r) < 7"; simp)
  qed
qed

lemma read_record_loop_returns:
  assumes "good (rfile r)"
  shows "\<exists>x r'. read_record_loop ops fr fs r = Some (x, r') \<and> good (rfile r') \<and> (x = None \<or> unread r' < unread r)"
  using assms
proof (induction "unread r" arbitrary: fr fs r rule: less_induct)
  case less
  obtain t d r1 where r1: "ReadPhysicalRecord ops fr r = Some (t, d, r1)" "good (rfile r1)" "t = kEof \<or> unread r1 < unread r"
    using ReadPhysicalRecord_takes [OF less(2)] by blast
  obtain skipped r2 where r2: "resync t r1 = (skipped, r2)" by fastforce
  have 2: "good (rfile r2)" "unread r2 = unread r1" "skipped \<longrightarrow> t \<noteq> kEof"
    using r1(2) r2 by (auto simp: resync_def kEof_def split: if_splits)
  have again: ?case if "read_record_loop ops fr fs r = read_record_loop ops d gs r3" "good (rfile r3)" "unread r3 = unread r1" "t \<noteq> kEof" for gs r3
  proof -
    have less': "unread r3 < unread r" using that(3,4) r1(3) by simp
    show ?thesis unfolding that(1) using less(1) [OF less' that(2), of d gs] less' by force
  qed
  obtain c r3 where r3: "logical_step t d (end_of_buffer_offset r1 - of_nat (length (buffer r1)) - of_nat kHeaderSize - of_nat (length d)) fs r2 = (c, r3)"
    by fastforce
  have 3: "good (rfile r3)" "unread r3 = unread r1" "isl c \<longrightarrow> t \<noteq> kEof" "t = kEof \<longrightarrow> c = Inr None"
    using 2 logical_step_keeps [OF r3] by auto
  have loop: "read_record_loop ops fr fs r = (if skipped then read_record_loop ops d fs r2
      else case c of Inr res \<Rightarrow> Some (res, r3) | Inl fs \<Rightarrow> read_record_loop ops d fs r3)"
    using r1(1) r2 r3 by (subst (1) read_record_loop.simps) (simp split: sum.splits)
  show ?case
  proof (cases skipped)
    case True
    then show ?thesis using again [of fs r2] loop 2 by simp
  next
    case False
    show ?thesis
    proof (cases c)
      case (Inl gs)
      then show ?thesis using again [of gs r3] loop False 3 by simp
    next
      case (Inr x)
      then show ?thesis using loop False 3 r1(3) by auto
    qed
  qed
qed

lemma ReadRecord_returns:
  assumes "good (rfile r)"
  shows "\<exists>x r'. ReadRecord ops r = Some (x, r') \<and> good (rfile r') \<and> (x = None \<or> unread r' < unread r)"
proof -
  obtain okay r1 where r1: "(if last_record_offset r < initial_offset r then SkipToInitialBlock ops r else (True, r)) = (okay, r1)"
    by fastforce
  have "good (rfile r1) \<and> unread r1 \<le> unread r"
    using r1 assms Skip [OF assms] unfolding SkipToInitialBlock_def
    by (force simp: Let_def ReportDrop_def split: if_splits prod.splits)
  then show ?thesis
    using read_record_loop_returns [of r1 "[]" "\<lparr>in_fragmented = False, scratch = [], prospective = 0\<rparr>"]
    by (auto simp: ReadRecord_def r1 intro: less_le_trans)
qed

text \<open>So the callers' loop ends on every file.\<close>

lemma read_log_returns: "good (rfile r) \<Longrightarrow> \<exists>xs r'. read_log ops r = Some (xs, r')"
proof (induction "unread r" arbitrary: r rule: less_induct)
  case less
  obtain x r1 where r1: "ReadRecord ops r = Some (x, r1)" "good (rfile r1)" "x = None \<or> unread r1 < unread r"
    using ReadRecord_returns [OF less(2)] by blast
  show ?case
  proof (cases x)
    case None
    then show ?thesis using r1 by (subst read_log.simps) simp
  next
    case (Some y)
    then obtain xs r2 where "read_log ops r1 = Some (xs, r2)" using less(1) [of r1] r1 by auto
    then show ?thesis using r1 Some by (subst read_log.simps) simp
  qed
qed

end

text \<open>A new reader stands before the first block.\<close>

lemma log_bytes_start: "log_bytes rs 32768 = log_bytes rs 0"
proof (cases rs)
  case (Cons x xs)
  have "record_bytes True x 32768 = record_bytes True x 0"
    unfolding record_bytes.simps [of True x 32768] record_bytes.simps [of True x 0]
    by (simp add: block_start_def trailer_def cong: if_cong)
  then show ?thesis using Cons by simp
qed simp

lemma new_Reader_at: "good f \<Longrightarrow> reads_at rest good 32768 (rest f) (new_Reader f chk 0)"
  by (simp add: reads_at_def new_Reader_def)

text \<open>A payload damaged in at most four neighbouring bytes is dropped and reported.\<close>

lemma parse_physical_mismatch:
  assumes "length d < 65536" "length d' = length d" "t \<noteq> kZeroType" "checksum r"
    "Value 0 (of_nat (type_num t) # d') \<noteq> Value 0 (of_nat (type_num t) # d)"
    "buffer r = take 7 (physical t d) @ d' @ rest"
  shows "parse_physical result r = (kBadRecord, result, ReportCorruption (length (buffer r)) ''checksum mismatch'' (r\<lparr>buffer := []\<rparr>))"
proof -
  have len: "length (EncodeFixed32 c) = 4" for c by simp
  obtain c0 c1 c2 c3 where c: "EncodeFixed32 (Mask (Value 0 (of_nat (type_num t) # d))) = [c0, c1, c2, c3]"
    using list_of_4 [OF len] by blast
  have b: "buffer r = [c0, c1, c2, c3, of_nat (length d) AND 0xff, of_nat (length d div 256), of_nat (type_num t)] @ d' @ rest"
    using assms(6) by (simp add: physical_def c)
  have "DecodeFixed32 (buffer r) = Mask (Value 0 (of_nat (type_num t) # d))"
    using DecodeFixed32_Encode [of "Mask (Value 0 (of_nat (type_num t) # d))"] unfolding b c by simp
  then show ?thesis
    using assms(1-5)
    by (simp add: parse_physical_def Let_def b header_length Unmask_Mask scast_type type_zero)
qed

lemma parse_physical_damaged:
  assumes "length a + 4 + length c < 65536" "length x = 4" "length y = 4" "x \<noteq> y" "t \<noteq> kZeroType" "checksum r"
    "buffer r = take 7 (physical t (a @ x @ c)) @ a @ y @ c @ rest"
  shows "parse_physical result r = (kBadRecord, result, ReportCorruption (length (buffer r)) ''checksum mismatch'' (r\<lparr>buffer := []\<rparr>))"
proof -
  have "Value 0 ((of_nat (type_num t) # a) @ y @ c) \<noteq> Value 0 ((of_nat (type_num t) # a) @ x @ c)"
    unfolding Value_def Extend_crc32c by (rule crc32c_burst) (use assms in auto)
  then show ?thesis
    using assms by (intro parse_physical_mismatch [of "a @ x @ c" "a @ y @ c"]) simp_all
qed

end
