(* ===== verification/LdbPosix.thy ===== *)
theory LdbPosix
  imports LdbLog "HOL-Library.Stream"
begin

text \<open>
  The files of util/env_posix.cc. What the kernel answers to each call is a stream of answers: how
  many bytes a transfer moves at most, or an error number. The writing loop returns only if the
  kernel takes bytes in the end.
\<close>

subsection \<open>System calls\<close>

datatype answer = Done nat | Error nat

definition EINTR :: nat where "EINTR = 4"
definition ENOENT :: nat where "ENOENT = 2"
definition EINVAL :: nat where "EINVAL = 22"

record descriptor =
  fd_bytes :: bytes
  fd_answers :: "answer stream"

definition next_answer :: "descriptor \<Rightarrow> answer \<times> descriptor" where
  "next_answer k = (shd (fd_answers k), k\<lparr>fd_answers := stl (fd_answers k)\<rparr>)"

definition sys_write :: "bytes \<Rightarrow> descriptor \<Rightarrow> (nat + nat) \<times> descriptor" where
  "sys_write d k =
     (case next_answer k of
        (Error e, k) \<Rightarrow> (Inl e, k)
      | (Done n, k) \<Rightarrow> (Inr (length (take n d)), k\<lparr>fd_bytes := fd_bytes k @ take n d\<rparr>))"

definition sys_read :: "nat \<Rightarrow> descriptor \<Rightarrow> (nat + bytes) \<times> descriptor" where
  "sys_read n k =
     (case next_answer k of
        (Error e, k) \<Rightarrow> (Inl e, k)
      | (Done m, k) \<Rightarrow> (Inr (take (min m n) (fd_bytes k)), k\<lparr>fd_bytes := drop (min m n) (fd_bytes k)\<rparr>))"

definition sys_lseek :: "u64 \<Rightarrow> descriptor \<Rightarrow> nat option \<times> descriptor" where
  "sys_lseek n k =
     (case next_answer k of
        (Error e, k) \<Rightarrow> (Some e, k)
      | (Done _, k) \<Rightarrow> (None, k\<lparr>fd_bytes := drop (unat n) (fd_bytes k)\<rparr>))"

text \<open>The other calls only succeed or fail.\<close>

definition sys_call :: "descriptor \<Rightarrow> nat option \<times> descriptor" where
  "sys_call k = (case next_answer k of (Error e, k) \<Rightarrow> (Some e, k) | (Done _, k) \<Rightarrow> (None, k))"

text \<open>\<open>strerror\<close> gives the text of an error number.\<close>

definition PosixError :: "(nat \<Rightarrow> string) \<Rightarrow> string \<Rightarrow> nat \<Rightarrow> Status" where
  "PosixError strerror ctxt error_number =
     (if error_number = ENOENT then NotFound ctxt (strerror error_number) else IOError ctxt (strerror error_number))"

subsection \<open>File names\<close>

definition rfind_slash :: "string \<Rightarrow> nat option" where
  "rfind_slash s = (if CHR ''/'' \<in> set s then Some (length s - 1 - length (takeWhile (\<lambda>c. c \<noteq> CHR ''/'') (rev s))) else None)"

definition Dirname :: "string \<Rightarrow> string" where
  "Dirname filename = (case rfind_slash filename of None \<Rightarrow> ''.'' | Some i \<Rightarrow> take i filename)"

definition Basename :: "string \<Rightarrow> string" where
  "Basename filename = (case rfind_slash filename of None \<Rightarrow> filename | Some i \<Rightarrow> drop (i + 1) filename)"

definition IsManifest :: "string \<Rightarrow> bool" where
  "IsManifest filename \<longleftrightarrow> take 8 (Basename filename) = ''MANIFEST''"

subsection \<open>Sequential files\<close>

record posix_sequential =
  ps_fd :: descriptor
  ps_filename :: string

partial_function (option) Sequential_Read ::
  "(nat \<Rightarrow> string) \<Rightarrow> nat \<Rightarrow> posix_sequential \<Rightarrow> (Status \<times> bytes \<times> posix_sequential) option" where
  "Sequential_Read strerror n f =
     (case sys_read n (ps_fd f) of
        (Inl e, k) \<Rightarrow>
          if e = EINTR then Sequential_Read strerror n (f\<lparr>ps_fd := k\<rparr>)
          else Some (PosixError strerror (ps_filename f) e, [], f\<lparr>ps_fd := k\<rparr>)
      | (Inr d, k) \<Rightarrow> Some (OK, d, f\<lparr>ps_fd := k\<rparr>))"

definition Sequential_Skip :: "(nat \<Rightarrow> string) \<Rightarrow> u64 \<Rightarrow> posix_sequential \<Rightarrow> Status \<times> posix_sequential" where
  "Sequential_Skip strerror n f =
     (case sys_lseek n (ps_fd f) of
        (Some e, k) \<Rightarrow> (PosixError strerror (ps_filename f) e, f\<lparr>ps_fd := k\<rparr>)
      | (None, k) \<Rightarrow> (OK, f\<lparr>ps_fd := k\<rparr>))"

definition PosixSequentialFile :: "(nat \<Rightarrow> string) \<Rightarrow> posix_sequential sequential_ops" where
  "PosixSequentialFile strerror = \<lparr>Read = Sequential_Read strerror, Skip = Sequential_Skip strerror\<rparr>"

subsection \<open>Writable files\<close>

definition kWritableFileBufferSize :: nat where "kWritableFileBufferSize = 65536"

text \<open>\<open>pw_buf\<close> holds the first \<open>pos_\<close> bytes of the buffer; a closed file has no descriptor.\<close>

record posix_writable =
  pw_buf :: bytes
  pw_fd :: descriptor
  pw_open :: bool
  pw_is_manifest :: bool
  pw_filename :: string
  pw_dirname :: string

definition new_PosixWritableFile :: "string \<Rightarrow> descriptor \<Rightarrow> posix_writable" where
  "new_PosixWritableFile filename k =
     \<lparr>pw_buf = [], pw_fd = k, pw_open = True, pw_is_manifest = IsManifest filename, pw_filename = filename,
      pw_dirname = Dirname filename\<rparr>"

partial_function (option) WriteUnbuffered ::
  "(nat \<Rightarrow> string) \<Rightarrow> bytes \<Rightarrow> posix_writable \<Rightarrow> (Status \<times> posix_writable) option" where
  "WriteUnbuffered strerror data f =
     (if data = [] then Some (OK, f)
      else case sys_write data (pw_fd f) of
          (Inl e, k) \<Rightarrow>
            if e = EINTR then WriteUnbuffered strerror data (f\<lparr>pw_fd := k\<rparr>)
            else Some (PosixError strerror (pw_filename f) e, f\<lparr>pw_fd := k\<rparr>)
        | (Inr n, k) \<Rightarrow> WriteUnbuffered strerror (drop n data) (f\<lparr>pw_fd := k\<rparr>))"

definition FlushBuffer :: "(nat \<Rightarrow> string) \<Rightarrow> posix_writable \<Rightarrow> (Status \<times> posix_writable) option" where
  "FlushBuffer strerror f =
     (case WriteUnbuffered strerror (pw_buf f) f of None \<Rightarrow> None | Some (s, f) \<Rightarrow> Some (s, f\<lparr>pw_buf := []\<rparr>))"

definition Writable_Append :: "(nat \<Rightarrow> string) \<Rightarrow> bytes \<Rightarrow> posix_writable \<Rightarrow> (Status \<times> posix_writable) option" where
  "Writable_Append strerror data f =
     (let copy_size = min (length data) (kWritableFileBufferSize - length (pw_buf f));
          f = f\<lparr>pw_buf := pw_buf f @ take copy_size data\<rparr>;
          data = drop copy_size data
      in if data = [] then Some (OK, f)
         else case FlushBuffer strerror f of
             None \<Rightarrow> None
           | Some (s, f) \<Rightarrow>
               if \<not> ok s then Some (s, f)
               else if length data < kWritableFileBufferSize then Some (OK, f\<lparr>pw_buf := data\<rparr>)
               else WriteUnbuffered strerror data f)"

definition Writable_Close :: "(nat \<Rightarrow> string) \<Rightarrow> posix_writable \<Rightarrow> (Status \<times> posix_writable) option" where
  "Writable_Close strerror f =
     (case FlushBuffer strerror f of
        None \<Rightarrow> None
      | Some (s, f) \<Rightarrow>
          (case sys_call (pw_fd f) of
             (e, k) \<Rightarrow>
               Some (case e of Some e \<Rightarrow> if ok s then PosixError strerror (pw_filename f) e else s | None \<Rightarrow> s,
                 f\<lparr>pw_fd := k, pw_open := False\<rparr>)))"

text \<open>With a full synchronisation to the medium, and a plain one where that is not supported.\<close>

definition SyncFd :: "(nat \<Rightarrow> string) \<Rightarrow> string \<Rightarrow> descriptor \<Rightarrow> Status \<times> descriptor" where
  "SyncFd strerror fd_path k =
     (case sys_call k of
        (None, k) \<Rightarrow> (OK, k)
      | (Some _, k) \<Rightarrow>
          (case sys_call k of (None, k) \<Rightarrow> (OK, k) | (Some e, k) \<Rightarrow> (PosixError strerror fd_path e, k)))"

definition SyncDirIfManifest :: "(nat \<Rightarrow> string) \<Rightarrow> posix_writable \<Rightarrow> Status \<times> posix_writable" where
  "SyncDirIfManifest strerror f =
     (if \<not> pw_is_manifest f then (OK, f)
      else case sys_call (pw_fd f) of
          (Some e, k) \<Rightarrow> (PosixError strerror (pw_dirname f) e, f\<lparr>pw_fd := k\<rparr>)
        | (None, k) \<Rightarrow>
            (case SyncFd strerror (pw_dirname f) k of
               (s, k) \<Rightarrow> (s, f\<lparr>pw_fd := snd (sys_call k)\<rparr>)))"

definition Writable_Sync :: "(nat \<Rightarrow> string) \<Rightarrow> posix_writable \<Rightarrow> (Status \<times> posix_writable) option" where
  "Writable_Sync strerror f =
     (case SyncDirIfManifest strerror f of
        (s, f) \<Rightarrow>
          if \<not> ok s then Some (s, f)
          else case FlushBuffer strerror f of
              None \<Rightarrow> None
            | Some (s, f) \<Rightarrow>
                if \<not> ok s then Some (s, f)
                else (case SyncFd strerror (pw_filename f) (pw_fd f) of (s, k) \<Rightarrow> Some (s, f\<lparr>pw_fd := k\<rparr>)))"

definition PosixWritableFile :: "(nat \<Rightarrow> string) \<Rightarrow> posix_writable writable_ops" where
  "PosixWritableFile strerror = \<lparr>Append = Writable_Append strerror, Flush = FlushBuffer strerror\<rparr>"

subsection \<open>A kernel that takes every byte in the end\<close>

definition takes_bytes :: "answer stream \<Rightarrow> bool" where
  "takes_bytes a \<longleftrightarrow>
     (\<forall>i e. a !! i = Error e \<longrightarrow> e = EINTR) \<and> (\<forall>i. \<exists>j \<ge> i. \<exists>n > 0. a !! j = Done n)"

definition gives_blocks :: "answer stream \<Rightarrow> bool" where
  "gives_blocks a \<longleftrightarrow>
     (\<forall>i. a !! i = Error EINTR \<or> (\<exists>n \<ge> 32768. a !! i = Done n)) \<and> (\<forall>i. \<exists>j \<ge> i. \<exists>n. a !! j = Done n)"

lemma takes_bytes_stl: "takes_bytes a \<Longrightarrow> takes_bytes (stl a)"
  unfolding takes_bytes_def by (metis Suc_le_D Suc_le_mono snth.simps(2))

lemma gives_blocks_stl: "gives_blocks a \<Longrightarrow> gives_blocks (stl a)"
  unfolding gives_blocks_def by (metis Suc_le_D Suc_le_mono snth.simps(2))

lemma WriteUnbuffered_takes:
  assumes "takes_bytes (fd_answers (pw_fd f))"
  shows "\<exists>k. WriteUnbuffered strerror data f = Some (OK, f\<lparr>pw_fd := k\<rparr>) \<and> takes_bytes (fd_answers k) \<and>
    fd_bytes k = fd_bytes (pw_fd f) @ data"
  using assms
proof (induction "length data" arbitrary: data f rule: less_induct)
  case less
  show ?case
  proof (cases "data = []")
    case True
    then show ?thesis using less(2) by (subst WriteUnbuffered.simps) (auto intro: exI [of _ "pw_fd f"])
  next
    case data: False
    let ?claim = "\<lambda>g. \<exists>k. WriteUnbuffered strerror data g = Some (OK, g\<lparr>pw_fd := k\<rparr>) \<and> takes_bytes (fd_answers k) \<and>
        fd_bytes k = fd_bytes (pw_fd g) @ data"
    have written: "?claim g" if "takes_bytes (fd_answers (pw_fd g))" "shd (fd_answers (pw_fd g)) = Done m" "0 < m" for g m
    proof -
      define k where "k = snd (sys_write data (pw_fd g))"
      have k: "sys_write data (pw_fd g) = (Inr (length (take m data)), k)" "fd_bytes k = fd_bytes (pw_fd g) @ take m data"
        "fd_answers k = stl (fd_answers (pw_fd g))"
        using that(2) by (simp_all add: k_def sys_write_def next_answer_def)
      have "length (drop (length (take m data)) data) < length data" using data that(3) by simp
      from less(1) [OF this, of "g\<lparr>pw_fd := k\<rparr>"] show ?thesis
        using takes_bytes_stl [OF that(1)] k data by (subst WriteUnbuffered.simps) (auto simp: min_def split: if_splits)
    qed
    have "?claim g" if "takes_bytes (fd_answers (pw_fd g))" "fd_answers (pw_fd g) !! d = Done n" "0 < n" for g d n
      using that
    proof (induction d arbitrary: g)
      case (Suc d)
      have again: "?claim g" if "WriteUnbuffered strerror data g = WriteUnbuffered strerror data (g\<lparr>pw_fd := k\<rparr>)"
        "fd_bytes k = fd_bytes (pw_fd g)" "fd_answers k = stl (fd_answers (pw_fd g))" for k
        using Suc(1) [of "g\<lparr>pw_fd := k\<rparr>"] Suc(3,4) takes_bytes_stl [OF Suc(2)] that by simp
      show ?case
      proof (cases "shd (fd_answers (pw_fd g))")
        case (Error e)
        then have "e = EINTR" using Suc(2) unfolding takes_bytes_def by (metis snth.simps(1))
        then show ?thesis
          using Error data
          by (intro again [of "snd (sys_write data (pw_fd g))"], subst WriteUnbuffered.simps)
            (simp_all add: sys_write_def next_answer_def)
      next
        case (Done m)
        show ?thesis
        proof (cases "m = 0")
          case True
          then show ?thesis
            using Done data
            by (intro again [of "snd (sys_write data (pw_fd g))"], subst WriteUnbuffered.simps)
              (simp_all add: sys_write_def next_answer_def)
        qed (use written [OF Suc(2) Done] in simp)
      qed
    qed (use written in simp)
    moreover obtain d n where "fd_answers (pw_fd f) !! d = Done n" "0 < n"
      using less(2) by (auto simp: takes_bytes_def)
    ultimately show ?thesis using less(2) by blast
  qed
qed

lemma Sequential_Read_blocks:
  assumes "gives_blocks (fd_answers (ps_fd f))" "n \<le> 32768"
  shows "\<exists>k. Sequential_Read strerror n f = Some (OK, take n (fd_bytes (ps_fd f)), f\<lparr>ps_fd := k\<rparr>) \<and>
    gives_blocks (fd_answers k) \<and> fd_bytes k = drop n (fd_bytes (ps_fd f))"
proof -
  have "\<exists>k. Sequential_Read strerror n g = Some (OK, take n (fd_bytes (ps_fd g)), g\<lparr>ps_fd := k\<rparr>) \<and>
      gives_blocks (fd_answers k) \<and> fd_bytes k = drop n (fd_bytes (ps_fd g))"
    if "gives_blocks (fd_answers (ps_fd g))" "fd_answers (ps_fd g) !! d = Done m" for g d m
    using that
  proof (induction d arbitrary: g)
    case 0
    then have "32768 \<le> m" by (auto simp: gives_blocks_def dest: spec [of _ 0])
    then show ?case
      using 0 gives_blocks_stl [OF 0(1)] assms(2)
      by (subst Sequential_Read.simps) (auto simp: sys_read_def next_answer_def min_absorb2)
  next
    case (Suc d)
    show ?case
    proof (cases "shd (fd_answers (ps_fd g))")
      case (Error e)
      then have "e = EINTR" using Suc(2) unfolding gives_blocks_def by (metis answer.distinct(1) answer.inject(2) snth.simps(1))
      then show ?thesis
        using Suc(1) [of "g\<lparr>ps_fd := snd (sys_read n (ps_fd g))\<rparr>"] Suc(3) gives_blocks_stl [OF Suc(2)] Error
        by (subst Sequential_Read.simps) (simp add: sys_read_def next_answer_def)
    next
      case (Done l)
      then have "32768 \<le> l" using Suc(2) unfolding gives_blocks_def by (metis answer.distinct(1) answer.inject(1) snth.simps(1))
      then show ?thesis
        using Done gives_blocks_stl [OF Suc(2)] assms(2)
        by (subst Sequential_Read.simps) (auto simp: sys_read_def next_answer_def min_absorb2)
    qed
  qed
  then show ?thesis using assms(1) by (meson gives_blocks_def order_refl)
qed



text \<open>These files keep the contracts the logs rely on.\<close>

definition posix_contents :: "posix_writable \<Rightarrow> bytes" where
  "posix_contents f = fd_bytes (pw_fd f) @ pw_buf f"

definition posix_good :: "posix_writable \<Rightarrow> bool" where
  "posix_good f \<longleftrightarrow> takes_bytes (fd_answers (pw_fd f)) \<and> length (pw_buf f) \<le> 65536"

lemma FlushBuffer_takes:
  assumes "takes_bytes (fd_answers (pw_fd f))"
  shows "\<exists>k. FlushBuffer strerror f = Some (OK, f\<lparr>pw_fd := k, pw_buf := []\<rparr>) \<and> takes_bytes (fd_answers k) \<and>
    fd_bytes k = posix_contents f"
  using WriteUnbuffered_takes [OF assms, of strerror "pw_buf f"] by (auto simp: FlushBuffer_def posix_contents_def)

lemma Writable_Append_takes:
  assumes "posix_good f"
  shows "\<exists>f'. Writable_Append strerror d f = Some (OK, f') \<and> posix_good f' \<and> posix_contents f' = posix_contents f @ d"
proof -
  define n where "n = min (length d) (65536 - length (pw_buf f))"
  define g where "g = f\<lparr>pw_buf := pw_buf f @ take n d\<rparr>"
  have g: "takes_bytes (fd_answers (pw_fd g))" "posix_contents g = posix_contents f @ take n d" "length (pw_buf g) \<le> 65536"
    using assms by (auto simp: g_def posix_good_def posix_contents_def n_def)
  obtain k where k: "FlushBuffer strerror g = Some (OK, g\<lparr>pw_fd := k, pw_buf := []\<rparr>)" "takes_bytes (fd_answers k)"
    "fd_bytes k = posix_contents g" using FlushBuffer_takes [OF g(1)] by blast
  define h where "h = g\<lparr>pw_fd := k, pw_buf := []\<rparr>"
  obtain j where j: "WriteUnbuffered strerror (drop n d) h = Some (OK, h\<lparr>pw_fd := j\<rparr>)" "takes_bytes (fd_answers j)"
    "fd_bytes j = fd_bytes k @ drop n d"
    using WriteUnbuffered_takes [of h strerror "drop n d"] k(2) by (auto simp: h_def)
  have step: "Writable_Append strerror d f = (if drop n d = [] then Some (OK, g)
      else if length (drop n d) < 65536 then Some (OK, h\<lparr>pw_buf := drop n d\<rparr>) else Some (OK, h\<lparr>pw_fd := j\<rparr>))"
    using k(1) j(1) by (simp add: Writable_Append_def kWritableFileBufferSize_def n_def [symmetric] g_def [symmetric] h_def [symmetric] Let_def
        del: drop_eq_Nil)
  consider "drop n d = []" | "drop n d \<noteq> []" "length (drop n d) < 65536" | "drop n d \<noteq> []" "\<not> length (drop n d) < 65536" by blast
  then show ?thesis
  proof cases
    case 1
    then show ?thesis unfolding step using g by (auto simp: posix_good_def)
  next
    case 2
    then show ?thesis unfolding step using g(2) k
      by (simp add: posix_good_def posix_contents_def [of "h\<lparr>pw_buf := drop n d\<rparr>"]) (simp add: h_def)
  next
    case 3
    then show ?thesis unfolding step using g(2) k j
      by (simp add: posix_good_def posix_contents_def [of "h\<lparr>pw_fd := j\<rparr>"]) (simp add: h_def)
  qed
qed

interpretation posix_writable: writable_file "PosixWritableFile strerror" posix_contents posix_good for strerror
proof
  show "\<exists>f'. Append (PosixWritableFile strerror) d f = Some (OK, f') \<and> posix_good f' \<and> posix_contents f' = posix_contents f @ d"
    if "posix_good f" for f d
    using Writable_Append_takes [OF that] by (simp add: PosixWritableFile_def)
  show "\<exists>f'. Flush (PosixWritableFile strerror) f = Some (OK, f') \<and> posix_good f' \<and> posix_contents f' = posix_contents f"
    if "posix_good f" for f
    using FlushBuffer_takes [of f strerror] that by (auto simp: PosixWritableFile_def posix_good_def posix_contents_def)
qed

interpretation posix_sequential: sequential_file "PosixSequentialFile strerror" "\<lambda>f. fd_bytes (ps_fd f)"
  "\<lambda>f. gives_blocks (fd_answers (ps_fd f))" for strerror
proof
  show "\<exists>f'. Read (PosixSequentialFile strerror) n f = Some (OK, take n (fd_bytes (ps_fd f)), f') \<and>
      gives_blocks (fd_answers (ps_fd f')) \<and> fd_bytes (ps_fd f') = drop n (fd_bytes (ps_fd f))"
    if "gives_blocks (fd_answers (ps_fd f))" "0 < n" "n \<le> 32768" for f n
    using Sequential_Read_blocks [OF that(1,3), of strerror] by (auto simp: PosixSequentialFile_def)
  show "gives_blocks (fd_answers (ps_fd f')) \<and> length (fd_bytes (ps_fd f')) \<le> length (fd_bytes (ps_fd f))"
    if "gives_blocks (fd_answers (ps_fd f))" "Skip (PosixSequentialFile strerror) n f = (s, f')" for f f' n s
    using that gives_blocks_stl
    by (auto simp: PosixSequentialFile_def Sequential_Skip_def sys_lseek_def next_answer_def split: answer.splits)
qed

end
