(* ===== verification/LdbTheorems.thy ===== *)
theory LdbTheorems
  imports LdbKey LdbPosix
begin

text \<open>
  The properties of the LevelDB components that the app carries: the encodings shared with
  protocol buffers, the order of internal keys and the short keys put into index blocks, and the
  checksum of every stored block and log record.
\<close>

section \<open>Encodings\<close>

text \<open>C27: LevelDB's variable length integers are the bytes protocol buffers use, whatever their
  width; reading takes back exactly the value and leaves the rest of the input, and
  \<open>VarintLength\<close> is the length of what is written, at most 5 and 10 bytes.\<close>

theorem leveldb_varint:
  "EncodeVarint32 v = varint_buffer (ucast v) \<and> EncodeVarint64 w = varint_buffer w \<and>
   GetVarint32 (PutVarint32 [] v @ rest) = Some (v, rest) \<and>
   GetVarint64 (PutVarint64 [] w @ rest) = Some (w, rest) \<and>
   VarintLength w = length (PutVarint64 [] w) \<and>
   length (PutVarint32 [] v) \<le> 5 \<and> length (PutVarint64 [] w) \<le> 10"
  by (intro conjI EncodeVarint32_bytes EncodeVarint64_bytes)
    (simp_all add: PutVarint32_def PutVarint64_def GetVarint32_put GetVarint64_put VarintLength_EncodeVarint64 length_EncodeVarint)

section \<open>Keys\<close>

text \<open>C25: An internal key can be taken apart again, and the comparator of the tables orders internal
  keys by ascending user key, then by descending sequence number, then values before deletions.\<close>

theorem internal_key_order:
  assumes "s \<le> kMaxSequenceNumber" "s' \<le> kMaxSequenceNumber"
  shows "ParseInternalKey (encode_key u s t) = Some \<lparr>user_key = u, sequence = s, vtype = t\<rparr> \<and>
    (InternalCompare BytewiseCompare (encode_key u s t) (encode_key u' s' t') < 0 \<longleftrightarrow>
      u < u' \<or> u = u' \<and> (s > s' \<or> s = s' \<and> t = kTypeValue \<and> t' = kTypeDeletion)) \<and>
    (InternalCompare BytewiseCompare (encode_key u s t) (encode_key u' s' t') = 0 \<longleftrightarrow> u = u' \<and> s = s' \<and> t = t')"
proof -
  have "ParseInternalKey (encode_key u s t) = Some \<lparr>user_key = u, sequence = s, vtype = t\<rparr>"
    if "s \<le> kMaxSequenceNumber" for u s t using that by (simp add: encode_key_def ParseInternalKey_Append)
  note p = this [OF assms(1), where u = u and t = t] this [OF assms(2), where u = u' and t = t']
  moreover have "internal_valid (\<lambda>_. True) (encode_key u s t)" for u s t
    by (simp add: internal_valid_def encode_key_bytes)
  then have "InternalCompare BytewiseCompare (encode_key u s t) (encode_key u' s' t') = 0 \<longleftrightarrow> encode_key u s t = encode_key u' s' t'"
    by (simp add: bytewise.InternalCompare_eq)
  moreover have "encode_key u s t = encode_key u' s' t' \<longleftrightarrow> u = u' \<and> s = s' \<and> t = t'"
    using p by (metis option.inject ParsedInternalKey.ext_inject)
  ultimately show ?thesis
    using bytewise.InternalCompare_encode [OF _ _ assms, where u = u and u' = u' and t = t and t' = t']
    by (simp add: BytewiseCompare_def Slice_compare_order)
qed

theorem internal_key_order_witness:
  "InternalCompare BytewiseCompare (encode_key [1] 7 kTypeDeletion) (encode_key [1] 5 kTypeValue) < 0"
  using internal_key_order [of 7 5 "[1]" kTypeDeletion "[1]" kTypeValue] by (simp add: kMaxSequenceNumber_def)

text \<open>C26: The keys an index block uses in place of the last key of a data block: for internal keys
  \<open>a\<close> before \<open>b\<close>, the shortened separator is a valid internal key, not before \<open>a\<close>, strictly
  before \<open>b\<close> and never longer than \<open>a\<close>; the successor of the last key is not before it.\<close>

theorem shortened_keys:
  assumes "8 \<le> length a" "8 \<le> length b" "InternalCompare BytewiseCompare a b < 0"
  defines "m \<equiv> InternalFindShortestSeparator BytewiseCompare BytewiseFindShortestSeparator a b"
    and "n \<equiv> InternalFindShortSuccessor BytewiseCompare BytewiseFindShortSuccessor a"
  shows "InternalCompare BytewiseCompare a m \<le> 0 \<and> InternalCompare BytewiseCompare m b < 0 \<and>
    8 \<le> length m \<and> length m \<le> length a \<and> InternalCompare BytewiseCompare a n \<le> 0 \<and> 8 \<le> length n \<and> length n \<le> length a"
proof -
  have v: "internal_valid (\<lambda>_. True) a" "internal_valid (\<lambda>_. True) b" using assms by (simp_all add: internal_valid_def)
  have "length m \<le> length a" "length n \<le> length a"
    using assms(1)
    by (auto simp: m_def n_def InternalFindShortestSeparator_def InternalFindShortSuccessor_def Let_def PutFixed64_def ExtractUserKey_def)
  then show ?thesis
    using internal_bytewise.separator [OF v assms(3)] internal_bytewise.successor [OF v(1)]
    by (simp add: m_def n_def internal_valid_def)
qed

theorem shortened_keys_witness:
  defines "a \<equiv> encode_key [1, 2, 3] 9 kTypeValue" and "b \<equiv> encode_key [1, 8] 4 kTypeValue"
  shows "InternalCompare BytewiseCompare (InternalFindShortestSeparator BytewiseCompare BytewiseFindShortestSeparator a b) b < 0"
proof -
  have "InternalCompare BytewiseCompare a b < 0" by (simp add: a_def b_def encode_key_def) code_simp
  then show ?thesis using shortened_keys [of a b] by (simp add: a_def b_def encode_key_bytes)
qed

section \<open>Checksums\<close>

text \<open>C24: The table driven checksum is the bitwise CRC-32C: for every address, alignment and
  length the result of \<open>Extend\<close> is what feeding the bytes one bit at a time gives; checksums of
  parts chain, and masking is undone by unmasking, in both directions.\<close>

theorem crc32c_bitwise:
  "Extend addr crc data = crc32c crc data \<and>
   Extend addr' (Extend addr crc data) data' = Extend addr crc (data @ data') \<and>
   Unmask (Mask crc) = crc \<and> Mask (Unmask crc) = crc"
  by (simp add: Extend_crc32c crc32c_append Unmask_Mask Mask_Unmask)

section \<open>The write-ahead log\<close>

text \<open>C28: Whatever records are added to a new log file through the buffered POSIX file, as long as the
  kernel takes bytes in the end, every \<open>AddRecord\<close> succeeds, and if the process dies and only the
  first \<open>m\<close> bytes reach the disk, a reader gets back exactly the records that lie completely
  within them, in order, unchanged, and reports no corruption; with all bytes there it gets all
  the records.\<close>

theorem log_round_trip:
  assumes "takes_bytes a" "gives_blocks a'"
  shows "\<exists>w. add_records (PosixWritableFile e) rs (new_Writer (new_PosixWritableFile name \<lparr>fd_bytes = [], fd_answers = a\<rparr>)) = Some (OK, w) \<and>
    posix_contents (dest w) = log_bytes rs 0 \<and>
    (\<exists>k r. read_log (PosixSequentialFile e)
          (new_Reader \<lparr>ps_fd = \<lparr>fd_bytes = take m (posix_contents (dest w)), fd_answers = a'\<rparr>, ps_filename = name\<rparr> chk 0) =
        Some (take k rs, r) \<and> reports r = [] \<and> k \<le> length rs \<and> length (log_bytes (take k rs) 0) \<le> m \<and>
        (k < length rs \<longrightarrow> m < length (log_bytes (take (Suc k) rs) 0)))"
proof -
  define w0 where "w0 = new_Writer (new_PosixWritableFile name \<lparr>fd_bytes = [], fd_answers = a\<rparr>)"
  have w0: "posix_good (dest w0)" "type_crc w0 = InitTypeCrc" "block_offset w0 = 0" "posix_contents (dest w0) = []"
    using assms(1) by (simp_all add: w0_def new_Writer_def new_PosixWritableFile_def posix_good_def posix_contents_def)
  obtain w where w: "add_records (PosixWritableFile e) rs w0 = Some (OK, w)" "posix_contents (dest w) = log_bytes rs 0"
    using posix_writable.add_records_bytes [OF w0(1,2), of e rs] w0(3,4) by auto
  define f where "f = \<lparr>ps_fd = \<lparr>fd_bytes = take m (log_bytes rs 32768), fd_answers = a'\<rparr>, ps_filename = name\<rparr>"
  have "gives_blocks (fd_answers (ps_fd f))" using assms(2) by (simp add: f_def)
  from new_Reader_at [of "\<lambda>f. gives_blocks (fd_answers (ps_fd f))", OF this, of "\<lambda>f. fd_bytes (ps_fd f)" chk]
  have "reads_at (\<lambda>f. fd_bytes (ps_fd f)) (\<lambda>f. gives_blocks (fd_answers (ps_fd f))) 32768 (take m (log_bytes rs 32768)) (new_Reader f chk 0)"
    by (simp add: f_def)
  from posix_sequential.read_log_bytes [OF this, of e] obtain k r where
    "read_log (PosixSequentialFile e) (new_Reader f chk 0) = Some (take k rs, r)" "reports r = []" "k \<le> length rs"
    "length (log_bytes (take k rs) 0) \<le> m" "k < length rs \<longrightarrow> m < length (log_bytes (take (Suc k) rs) 0)"
    by (auto simp: log_bytes_start new_Reader_def)
  then show ?thesis using w unfolding w0_def f_def log_bytes_start by auto
qed

theorem log_round_trip_witness:
  "\<exists>w r. add_records (PosixWritableFile (\<lambda>_. [])) [[1, 2, 3], []]
       (new_Writer (new_PosixWritableFile ''000003.log'' \<lparr>fd_bytes = [], fd_answers = sconst (Done 5)\<rparr>)) = Some (OK, w) \<and>
     read_log (PosixSequentialFile (\<lambda>_. []))
       (new_Reader \<lparr>ps_fd = \<lparr>fd_bytes = take 100 (posix_contents (dest w)), fd_answers = sconst (Done 32768)\<rparr>,
          ps_filename = ''000003.log''\<rparr> True 0) = Some ([[1, 2, 3], []], r)"
proof -
  have "takes_bytes (sconst (Done 5))" "gives_blocks (sconst (Done 32768))"
    by (auto simp: takes_bytes_def gives_blocks_def snth_siterate)
  note log_round_trip [OF this, of "\<lambda>_. []" "[[1, 2, 3], []]" "''000003.log''" 100 True]
  moreover have "length (log_bytes (take (Suc k) [[1, 2, 3], []]) 0) \<le> 100" for k
    by (cases k) (simp_all add: record_bytes.simps fragment_length_def block_start_def trailer_def Let_def)
  then have "k = 2" if "k \<le> length [[1, 2, 3], []]" "k < length [[1 :: u8, 2, 3], []] \<longrightarrow> 100 < length (log_bytes (take (Suc k) [[1, 2, 3], []]) 0)" for k
    using that by (metis One_nat_def Suc_1 le_neq_implies_less length_Cons linorder_not_less list.size(3))
  ultimately show ?thesis by fastforce
qed

text \<open>C29: Recovery always ends: on a file with any content, sound or damaged, from any place, and for
  any offset to start from, every call of \<open>ReadRecord\<close> returns, each record it gives takes bytes
  away from the file, and the loop over the records ends.\<close>

theorem log_reader_returns:
  assumes "gives_blocks (fd_answers (ps_fd (rfile r)))"
  shows "(\<exists>x r'. ReadRecord (PosixSequentialFile e) r = Some (x, r') \<and>
      (x = None \<or> length (buffer r') + length (fd_bytes (ps_fd (rfile r'))) < length (buffer r) + length (fd_bytes (ps_fd (rfile r))))) \<and>
    (\<exists>xs r'. read_log (PosixSequentialFile e) r = Some (xs, r'))"
  using posix_sequential.ReadRecord_returns [OF assms, of e] posix_sequential.read_log_returns [OF assms, of e] by blast

theorem log_reader_returns_witness:
  "\<exists>xs r'. read_log (PosixSequentialFile (\<lambda>_. []))
     (new_Reader \<lparr>ps_fd = \<lparr>fd_bytes = replicate 70000 7, fd_answers = sconst (Done 65536)\<rparr>, ps_filename = ''000004.log''\<rparr> True 5) = Some (xs, r')"
  by (rule log_reader_returns [THEN conjunct2]) (auto simp: new_Reader_def gives_blocks_def snth_siterate)



end
