(* ===== verification/LdbFilter.thy ===== *)
theory LdbFilter
  imports LdbKey
begin

text \<open>
  Filters: the hash function (util/hash.cc), the Bloom filter policy (util/bloom.cc), the policy on
  internal keys (db/dbformat.cc) and the filter block of a table, one filter for every 2 KB of
  data (table/filter_block.cc). The locale \<open>filter_policy\<close> is what include/leveldb/filter_policy.h
  demands of a policy: no key that went into a filter is ever denied.
\<close>

subsection \<open>Hash\<close>

definition hash_m :: u32 where "hash_m = 0xc6a4a793"

function hash_loop :: "bytes \<Rightarrow> u32 \<Rightarrow> u32 \<times> bytes" where
  "hash_loop data h =
     (if 4 \<le> length data
      then let w = DecodeFixed32 data; h = h + w; h = h * hash_m; h = h XOR drop_bit 16 h in hash_loop (drop 4 data) h
      else (h, data))"
  by pat_completeness auto
termination by (relation "measure (length \<circ> fst)") auto

declare hash_loop.simps [simp del]

definition hash_last :: "bytes \<Rightarrow> u32 \<Rightarrow> u32" where
  "hash_last data h = (let h = h + ucast (data ! 0); h = h * hash_m in h XOR drop_bit 24 h)"

definition Hash :: "bytes \<Rightarrow> u32 \<Rightarrow> u32" where
  "Hash data seed =
     (case hash_loop data (seed XOR (of_nat (length data) * hash_m)) of (h, data) \<Rightarrow>
        if length data = 3
        then hash_last data (h + push_bit 16 (ucast (data ! 2)) + push_bit 8 (ucast (data ! 1)))
        else if length data = 2 then hash_last data (h + push_bit 8 (ucast (data ! 1)))
        else if length data = 1 then hash_last data h
        else h)"

subsection \<open>Policies\<close>

record policy =
  CreateFilter :: "bytes list \<Rightarrow> bytes \<Rightarrow> bytes"
  PolicyKeyMayMatch :: "bytes \<Rightarrow> bytes \<Rightarrow> bool"

locale filter_policy =
  fixes pol :: policy and valid :: "bytes \<Rightarrow> bool"
  assumes create: "keys \<noteq> [] \<Longrightarrow> (\<And>k. k \<in> set keys \<Longrightarrow> valid k) \<Longrightarrow>
    \<exists>f. CreateFilter pol keys dst = dst @ f \<and> (\<forall>k \<in> set keys. PolicyKeyMayMatch pol k f)"

subsection \<open>The Bloom filter\<close>

definition BloomHash :: "bytes \<Rightarrow> u32" where "BloomHash key = Hash key 0xbc9f1d34"

record bloom =
  bits_per_key :: nat
  bloom_k :: nat

text \<open>The product with 0.69 is rounded down; it is never near a whole number below 30.\<close>

definition new_BloomFilterPolicy :: "nat \<Rightarrow> bloom" where
  "new_BloomFilterPolicy n =
     (let k = n * 69 div 100; k = (if k < 1 then 1 else k); k = (if k > 30 then 30 else k)
      in \<lparr>bits_per_key = n, bloom_k = k\<rparr>)"

definition bloom_delta :: "u32 \<Rightarrow> u32" where "bloom_delta h = drop_bit 17 h OR push_bit 15 h"

definition set_bit_at :: "nat \<Rightarrow> bytes \<Rightarrow> bytes" where
  "set_bit_at bitpos array = array[bitpos div 8 := array ! (bitpos div 8) OR push_bit (bitpos mod 8) 1]"

primrec probe_loop :: "nat \<Rightarrow> nat \<Rightarrow> u32 \<Rightarrow> u32 \<Rightarrow> bytes \<Rightarrow> bytes" where
  "probe_loop 0 bits delta h array = array"
| "probe_loop (Suc j) bits delta h array = probe_loop j bits delta (h + delta) (set_bit_at (unat h mod bits) array)"

definition bloom_add :: "nat \<Rightarrow> nat \<Rightarrow> bytes \<Rightarrow> bytes \<Rightarrow> bytes" where
  "bloom_add k bits key array = (let h = BloomHash key in probe_loop k bits (bloom_delta h) h array)"

definition bloom_bytes :: "bloom \<Rightarrow> nat \<Rightarrow> nat" where
  "bloom_bytes b n = (let bits = n * bits_per_key b; bits = (if bits < 64 then 64 else bits) in (bits + 7) div 8)"

definition BloomCreateFilter :: "bloom \<Rightarrow> bytes list \<Rightarrow> bytes \<Rightarrow> bytes" where
  "BloomCreateFilter b keys dst =
     (let n = bloom_bytes b (length keys); bits = n * 8
      in dst @ fold (bloom_add (bloom_k b) bits) keys (replicate n 0) @ [of_nat (bloom_k b)])"

primrec match_loop :: "nat \<Rightarrow> nat \<Rightarrow> u32 \<Rightarrow> u32 \<Rightarrow> bytes \<Rightarrow> bool" where
  "match_loop 0 bits delta h array = True"
| "match_loop (Suc j) bits delta h array =
     (let bitpos = unat h mod bits
      in if array ! (bitpos div 8) AND push_bit (bitpos mod 8) 1 = 0 then False
         else match_loop j bits delta (h + delta) array)"

text \<open>The number of probes is a signed char.\<close>

definition BloomKeyMayMatch :: "bytes \<Rightarrow> bytes \<Rightarrow> bool" where
  "BloomKeyMayMatch key flt =
     (let len = length flt in
      if len < 2 then False
      else let bits = (len - 1) * 8; k = unat (scast (flt ! (len - 1)) :: u64) in
        if k > 30 then True else let h = BloomHash key in match_loop k bits (bloom_delta h) h flt)"

definition BloomPolicy :: "nat \<Rightarrow> policy" where
  "BloomPolicy n = \<lparr>CreateFilter = BloomCreateFilter (new_BloomFilterPolicy n), PolicyKeyMayMatch = BloomKeyMayMatch\<rparr>"

text \<open>The policy of a database: the user's, on the user keys of internal keys.\<close>

definition InternalFilterPolicy :: "policy \<Rightarrow> policy" where
  "InternalFilterPolicy user =
     \<lparr>CreateFilter = (\<lambda>keys. CreateFilter user (map ExtractUserKey keys)),
      PolicyKeyMayMatch = (\<lambda>key. PolicyKeyMayMatch user (ExtractUserKey key))\<rparr>"

subsection \<open>Added keys match\<close>

definition bit_at :: "nat \<Rightarrow> bytes \<Rightarrow> bool" where
  "bit_at p array \<longleftrightarrow> bit (array ! (p div 8)) (p mod 8)"

lemma length_set_bit_at [simp]: "length (set_bit_at p array) = length array"
  by (simp add: set_bit_at_def)

lemma bit_at_set: "p < 8 * length array \<Longrightarrow> bit_at q (set_bit_at p array) \<longleftrightarrow> q = p \<or> bit_at q array"
proof -
  assume p: "p < 8 * length array"
  have "q = p" if "q div 8 = p div 8" "q mod 8 = p mod 8" using that by (metis div_mult_mod_eq)
  moreover have "p mod 8 < 8" by simp
  ultimately show ?thesis
    using p by (auto simp: bit_at_def set_bit_at_def nth_list_update bit_simps)
qed

lemma length_probe_loop [simp]: "length (probe_loop j bits delta h array) = length array"
  by (induction j arbitrary: h array) simp_all

lemma probe_loop_bits:
  "bits = 8 * length array \<Longrightarrow> 0 < bits \<Longrightarrow>
    bit_at q (probe_loop j bits delta h array) \<longleftrightarrow> bit_at q array \<or> (\<exists>i < j. q = unat (h + of_nat i * delta) mod bits)"
proof (induction j arbitrary: h array)
  case (Suc j)
  let ?p = "unat h mod bits"
  have p: "?p < 8 * length array" using Suc.prems by simp
  have "bit_at q (probe_loop j bits delta (h + delta) (set_bit_at ?p array)) \<longleftrightarrow>
      bit_at q (set_bit_at ?p array) \<or> (\<exists>i < j. q = unat (h + delta + of_nat i * delta) mod bits)"
    using Suc.prems by (intro Suc.IH) simp_all
  then show ?case
    using bit_at_set [OF p] by (auto simp: Ex_less_Suc2 algebra_simps)
qed simp

lemma and_bit: "x AND push_bit n 1 = 0 \<longleftrightarrow> \<not> bit x n" if "n < LENGTH('a)" for x :: "'a::len word" and n :: nat
proof
  assume "x AND push_bit n 1 = 0"
  then have "\<not> bit (x AND push_bit n 1) n" by simp
  then show "\<not> bit x n" using that by (simp add: bit_simps)
next
  assume "\<not> bit x n"
  then show "x AND push_bit n 1 = 0" by (intro bit_word_eqI) (auto simp: bit_simps)
qed

lemma and_power: "n < LENGTH('a) \<Longrightarrow> x AND 2 ^ n = 0 \<longleftrightarrow> \<not> bit (x :: 'a::len word) n"
  using and_bit [of n x] by (simp add: push_bit_eq_mult)

lemma match_loop_bits:
  "match_loop j bits delta h array \<longleftrightarrow> (\<forall>i < j. bit_at (unat (h + of_nat i * delta) mod bits) array)"
  by (induction j arbitrary: h) (simp_all add: and_power bit_at_def All_less_Suc2 algebra_simps Let_def)

lemma length_bloom_add [simp]: "length (bloom_add k bits key array) = length array"
  by (simp add: bloom_add_def Let_def)

lemma bloom_add_bits:
  assumes "bits = 8 * length array" "0 < bits"
  shows "bit_at q (bloom_add k bits key array) \<longleftrightarrow> bit_at q array \<or>
    (\<exists>i < k. q = unat (BloomHash key + of_nat i * bloom_delta (BloomHash key)) mod bits)"
  using probe_loop_bits [OF assms] by (simp add: bloom_add_def Let_def)

lemma length_bloom_adds [simp]: "length (fold (bloom_add k bits) keys array) = length array"
  by (induction keys arbitrary: array) simp_all

lemma bloom_adds_bits:
  assumes "bits = 8 * length array" "0 < bits"
  shows "bit_at q (fold (bloom_add k bits) keys array) \<longleftrightarrow> bit_at q array \<or>
    (\<exists>key \<in> set keys. \<exists>i < k. q = unat (BloomHash key + of_nat i * bloom_delta (BloomHash key)) mod bits)"
  using assms
proof (induction keys arbitrary: array)
  case (Cons key keys)
  then show ?case
    using bloom_add_bits [of bits array q k key] Cons.IH [of "bloom_add k bits key array"] by auto
qed simp

text \<open>The probes only look at the array, not at the byte behind it.\<close>

lemma bit_at_append: "p < 8 * length array \<Longrightarrow> bit_at p (array @ r) = bit_at p array"
  by (simp add: bit_at_def nth_append less_mult_imp_div_less mult.commute)

lemma bloom_k_range: "1 \<le> bloom_k (new_BloomFilterPolicy n)" "bloom_k (new_BloomFilterPolicy n) \<le> 30"
  by (simp_all add: new_BloomFilterPolicy_def Let_def)

lemma small_char: "k \<le> 30 \<Longrightarrow> unat (scast (of_nat k :: u8) :: u64) = k"
proof -
  have "\<forall>k \<in> set [0 ..< 31]. unat (scast (of_nat k :: u8) :: u64) = k" by code_simp
  then show "k \<le> 30 \<Longrightarrow> unat (scast (of_nat k :: u8) :: u64) = k" by simp
qed

lemma bloom_no_false_negative:
  assumes "key \<in> set keys" "1 \<le> bloom_k b" "bloom_k b \<le> 30"
  shows "BloomKeyMayMatch key (drop (length dst) (BloomCreateFilter b keys dst))"
proof -
  define n where "n = bloom_bytes b (length keys)"
  define array where "array = fold (bloom_add (bloom_k b) (n * 8)) keys (replicate n 0)"
  have n: "8 \<le> n"
    using div_le_mono [of 64 "length keys * bits_per_key b + 7" 8] by (simp add: n_def bloom_bytes_def Let_def)
  have len: "length array = n" by (simp add: array_def)
  have k: "unat (scast (of_nat (bloom_k b) :: u8) :: u64) = bloom_k b" using small_char assms(3) by simp
  have "match_loop (bloom_k b) (n * 8) (bloom_delta (BloomHash key)) (BloomHash key) (array @ [of_nat (bloom_k b)])"
    unfolding match_loop_bits
  proof (intro allI impI)
    fix i assume "i < bloom_k b"
    let ?p = "unat (BloomHash key + of_nat i * bloom_delta (BloomHash key)) mod (n * 8)"
    have "bit_at ?p array"
      using bloom_adds_bits [of "n * 8" "replicate n 0" ?p "bloom_k b" keys] n assms(1) \<open>i < bloom_k b\<close>
      by (auto simp: array_def)
    moreover have "?p < 8 * length array" using mod_less_divisor [of "n * 8"] n len by (simp add: mult.commute)
    ultimately show "bit_at ?p (array @ [of_nat (bloom_k b)])" by (simp add: bit_at_append)
  qed
  then show ?thesis
    using n len k assms(3)
    by (simp add: BloomKeyMayMatch_def BloomCreateFilter_def n_def [symmetric] array_def [symmetric] Let_def nth_append)
qed

interpretation bloom: filter_policy "BloomPolicy n" "\<lambda>_. True" for n
proof
  show "\<exists>f. CreateFilter (BloomPolicy n) keys dst = dst @ f \<and> (\<forall>k \<in> set keys. PolicyKeyMayMatch (BloomPolicy n) k f)"
    for keys dst
    using bloom_no_false_negative [of _ keys "new_BloomFilterPolicy n" dst] bloom_k_range [of n]
    by (auto simp: BloomPolicy_def BloomCreateFilter_def Let_def)
qed

text \<open>Wrapping a policy for internal keys keeps the contract.\<close>

context filter_policy
begin

lemma internal_policy: "filter_policy (InternalFilterPolicy pol) (\<lambda>k. valid (ExtractUserKey k))"
proof
  show "\<exists>f. CreateFilter (InternalFilterPolicy pol) keys dst = dst @ f \<and> (\<forall>k \<in> set keys. PolicyKeyMayMatch (InternalFilterPolicy pol) k f)"
    if "keys \<noteq> []" "\<And>k. k \<in> set keys \<Longrightarrow> valid (ExtractUserKey k)" for keys dst
    using create [of "map ExtractUserKey keys" dst] that by (auto simp: InternalFilterPolicy_def)
qed

end

interpretation internal_bloom: filter_policy "InternalFilterPolicy (BloomPolicy n)" "\<lambda>_. True" for n
  using bloom.internal_policy .

subsection \<open>The filter block\<close>

definition kFilterBaseLg :: nat where "kFilterBaseLg = 11"
definition kFilterBase :: nat where "kFilterBase = push_bit kFilterBaseLg 1"

text \<open>The keys for the next filter are kept in one string with the index where each starts.\<close>

record filter_builder =
  fb_keys :: bytes
  fb_start :: "nat list"
  fb_result :: bytes
  fb_offsets :: "u32 list"

definition new_FilterBlockBuilder :: filter_builder where
  "new_FilterBlockBuilder = \<lparr>fb_keys = [], fb_start = [], fb_result = [], fb_offsets = []\<rparr>"

definition AddKey :: "bytes \<Rightarrow> filter_builder \<Rightarrow> filter_builder" where
  "AddKey key b = b\<lparr>fb_start := fb_start b @ [length (fb_keys b)], fb_keys := fb_keys b @ key\<rparr>"

definition GenerateFilter :: "policy \<Rightarrow> filter_builder \<Rightarrow> filter_builder" where
  "GenerateFilter pol b =
     (let num_keys = length (fb_start b) in
      if num_keys = 0 then b\<lparr>fb_offsets := fb_offsets b @ [of_nat (length (fb_result b))]\<rparr>
      else
        let start = fb_start b @ [length (fb_keys b)];
            tmp_keys = map (\<lambda>i. take (start ! (i + 1) - start ! i) (drop (start ! i) (fb_keys b))) [0 ..< num_keys]
        in b\<lparr>fb_offsets := fb_offsets b @ [of_nat (length (fb_result b))],
             fb_result := CreateFilter pol tmp_keys (fb_result b), fb_keys := [], fb_start := []\<rparr>)"

lemma length_GenerateFilter [simp]: "length (fb_offsets (GenerateFilter pol b)) = Suc (length (fb_offsets b))"
  by (simp add: GenerateFilter_def Let_def)

function generate_until :: "policy \<Rightarrow> nat \<Rightarrow> filter_builder \<Rightarrow> filter_builder" where
  "generate_until pol filter_index b =
     (if filter_index > length (fb_offsets b) then generate_until pol filter_index (GenerateFilter pol b) else b)"
  by pat_completeness auto
termination by (relation "measure (\<lambda>(_, i, b). i - length (fb_offsets b))") auto

declare generate_until.simps [simp del]

definition StartBlock :: "policy \<Rightarrow> nat \<Rightarrow> filter_builder \<Rightarrow> filter_builder" where
  "StartBlock pol block_offset b = generate_until pol (block_offset div kFilterBase) b"

definition FilterFinish :: "policy \<Rightarrow> filter_builder \<Rightarrow> bytes \<times> filter_builder" where
  "FilterFinish pol b =
     (let b = (if fb_start b \<noteq> [] then GenerateFilter pol b else b);
          array_offset = of_nat (length (fb_result b));
          result = fold (\<lambda>v dst. PutFixed32 dst v) (fb_offsets b) (fb_result b);
          result = PutFixed32 result array_offset @ [of_nat kFilterBaseLg]
      in (result, b\<lparr>fb_result := result\<rparr>))"

text \<open>A reader that was given too little has no filters at all.\<close>

record filter_reader =
  fr_data :: bytes
  fr_offset :: nat
  fr_num :: nat
  fr_base_lg :: nat

definition new_FilterBlockReader :: "bytes \<Rightarrow> filter_reader" where
  "new_FilterBlockReader contents =
     (let n = length contents in
      if n < 5 then \<lparr>fr_data = [], fr_offset = 0, fr_num = 0, fr_base_lg = 0\<rparr>
      else
        let base_lg = unat (scast (contents ! (n - 1)) :: u64);
            last_word = unat (DecodeFixed32 (drop (n - 5) contents))
        in if last_word > n - 5 then \<lparr>fr_data = [], fr_offset = 0, fr_num = 0, fr_base_lg = base_lg\<rparr>
           else \<lparr>fr_data = contents, fr_offset = last_word, fr_num = (n - 5 - last_word) div 4, fr_base_lg = base_lg\<rparr>)"

definition FilterKeyMayMatch :: "policy \<Rightarrow> filter_reader \<Rightarrow> u64 \<Rightarrow> bytes \<Rightarrow> bool" where
  "FilterKeyMayMatch pol r block_offset key =
     (let index = unat (drop_bit (fr_base_lg r) block_offset) in
      if index < fr_num r
      then
        let start = unat (DecodeFixed32 (drop (fr_offset r + index * 4) (fr_data r)));
            limit = unat (DecodeFixed32 (drop (fr_offset r + index * 4 + 4) (fr_data r)))
        in if start \<le> limit \<and> limit \<le> fr_offset r
           then PolicyKeyMayMatch pol key (take (limit - start) (drop start (fr_data r)))
           else if start = limit then False else True
      else True)"

text \<open>Strings one after another, and where each starts.\<close>

definition starts_of :: "bytes list \<Rightarrow> nat list" where
  "starts_of xs = map (\<lambda>i. length (concat (take i xs))) [0 ..< length xs]"

lemma starts_of_snoc [simp]: "starts_of (xs @ [x]) = starts_of xs @ [length (concat xs)]"
  by (simp add: starts_of_def)

lemma length_starts_of [simp]: "length (starts_of xs) = length xs"
  by (simp add: starts_of_def)

lemma starts_of_end: "i \<le> length xs \<Longrightarrow> (starts_of xs @ [length (concat xs)]) ! i = length (concat (take i xs))"
  by (simp add: starts_of_def nth_append)

lemma segment:
  assumes "i < length xs"
  shows "take (length (concat (take (Suc i) xs)) - length (concat (take i xs))) (drop (length (concat (take i xs))) (concat xs @ r)) = xs ! i"
proof -
  have "concat xs = concat (take i xs) @ xs ! i @ concat (drop (Suc i) xs)"
    using id_take_nth_drop [OF assms] by (metis concat.simps(2) concat_append)
  then show ?thesis using assms by (simp add: take_Suc_conv_app_nth)
qed

lemma length_concat_take: "length (concat (take i xs)) \<le> length (concat xs)"
  by (metis append_take_drop_id concat_append length_append le_add1)

lemma length_concat_mono: "i \<le> j \<Longrightarrow> length (concat (take i xs)) \<le> length (concat (take j xs))"
  using length_concat_take [of i "take j xs"] by (simp add: min_absorb1)

text \<open>A builder with the filters \<open>fs\<close> done and the keys \<open>pend\<close> waiting for the next one.\<close>

definition builder_holds :: "filter_builder \<Rightarrow> bytes list \<Rightarrow> bytes list \<Rightarrow> bool" where
  "builder_holds b fs pend \<longleftrightarrow> fb_keys b = concat pend \<and> fb_start b = starts_of pend \<and>
     fb_result b = concat fs \<and> fb_offsets b = map of_nat (starts_of fs)"

lemma holds_new: "builder_holds new_FilterBlockBuilder [] []"
  by (simp add: builder_holds_def new_FilterBlockBuilder_def starts_of_def)

lemma holds_AddKey: "builder_holds b fs pend \<Longrightarrow> builder_holds (AddKey k b) fs (pend @ [k])"
  by (simp add: builder_holds_def AddKey_def)

lemma tmp_keys:
  "map (\<lambda>i. take ((starts_of xs @ [length (concat xs)]) ! (i + 1) - (starts_of xs @ [length (concat xs)]) ! i)
      (drop ((starts_of xs @ [length (concat xs)]) ! i) (concat xs))) [0 ..< length xs] = xs"
proof (rule nth_equalityI)
  fix i assume "i < length (map (\<lambda>i. take ((starts_of xs @ [length (concat xs)]) ! (i + 1) - (starts_of xs @ [length (concat xs)]) ! i)
      (drop ((starts_of xs @ [length (concat xs)]) ! i) (concat xs))) [0 ..< length xs])"
  then have i: "i < length xs" by simp
  then show "map (\<lambda>i. take ((starts_of xs @ [length (concat xs)]) ! (i + 1) - (starts_of xs @ [length (concat xs)]) ! i)
      (drop ((starts_of xs @ [length (concat xs)]) ! i) (concat xs))) [0 ..< length xs] ! i = xs ! i"
    using segment [OF i, of "[]"] by (simp add: starts_of_end)
qed simp

datatype filter_event = Block nat | Key bytes

fun filter_run :: "policy \<Rightarrow> filter_event list \<Rightarrow> filter_builder \<Rightarrow> filter_builder" where
  "filter_run pol [] b = b"
| "filter_run pol (Block off # es) b = filter_run pol es (StartBlock pol off b)"
| "filter_run pol (Key k # es) b = filter_run pol es (AddKey k b)"

text \<open>The keys with the offset of the block they are in; offsets must not go down.\<close>

fun keys_of :: "filter_event list \<Rightarrow> nat \<Rightarrow> (nat \<times> bytes) list" where
  "keys_of [] off = []"
| "keys_of (Block off # es) _ = keys_of es off"
| "keys_of (Key k # es) off = (off, k) # keys_of es off"

fun ascending :: "filter_event list \<Rightarrow> nat \<Rightarrow> bool" where
  "ascending [] off \<longleftrightarrow> True"
| "ascending (Block off # es) prev \<longleftrightarrow> prev \<le> off \<and> ascending es off"
| "ascending (Key k # es) off \<longleftrightarrow> ascending es off"

text \<open>Each key is in its filter, or waits for it.\<close>

definition keeps :: "policy \<Rightarrow> (bytes \<Rightarrow> bool) \<Rightarrow> bytes list \<Rightarrow> bytes list \<Rightarrow> (nat \<times> bytes) list \<Rightarrow> bool" where
  "keeps pol valid fs pend ks \<longleftrightarrow> (\<forall>(off, k) \<in> set ks. valid k \<and>
     (let i = off div 2048 in i < length fs \<and> PolicyKeyMayMatch pol k (fs ! i) \<or> i = length fs \<and> k \<in> set pend)) \<and>
     (\<forall>k \<in> set pend. valid k)"

context filter_policy
begin

lemma holds_GenerateFilter:
  assumes "builder_holds b fs pend" "\<And>k. k \<in> set pend \<Longrightarrow> valid k"
  shows "\<exists>f. builder_holds (GenerateFilter pol b) (fs @ [f]) [] \<and> (\<forall>k \<in> set pend. PolicyKeyMayMatch pol k f)"
proof (cases "pend = []")
  case True
  then show ?thesis using assms(1) by (intro exI [of _ "[]"]) (simp add: builder_holds_def GenerateFilter_def Let_def starts_of_def)
next
  case False
  obtain f where f: "CreateFilter pol pend (concat fs) = concat fs @ f" "\<forall>k \<in> set pend. PolicyKeyMayMatch pol k f"
    using create [OF False, of "concat fs"] assms(2) by blast
  then show ?thesis
    using assms(1) False tmp_keys [of pend]
    by (intro exI [of _ f]) (simp add: builder_holds_def GenerateFilter_def Let_def starts_of_def [of "[]"])
qed

lemma keeps_GenerateFilter:
  assumes "builder_holds b fs pend" "keeps pol valid fs pend ks"
  shows "\<exists>f. builder_holds (GenerateFilter pol b) (fs @ [f]) [] \<and> keeps pol valid (fs @ [f]) [] ks"
proof -
  obtain f where f: "builder_holds (GenerateFilter pol b) (fs @ [f]) []" "\<forall>k \<in> set pend. PolicyKeyMayMatch pol k f"
    using holds_GenerateFilter [OF assms(1)] assms(2) by (auto simp: keeps_def)
  moreover have "keeps pol valid (fs @ [f]) [] ks"
    using assms(2) f(2) by (fastforce simp: keeps_def Let_def nth_append)
  ultimately show ?thesis by blast
qed

lemma keeps_generate_until:
  assumes "builder_holds b fs pend" "keeps pol valid fs pend ks" "length fs \<le> i"
  shows "\<exists>fs' pend'. builder_holds (generate_until pol i b) fs' pend' \<and> keeps pol valid fs' pend' ks \<and> length fs' = i"
  using assms
proof (induction "i - length fs" arbitrary: b fs pend)
  case 0
  then show ?case by (subst generate_until.simps) (auto simp: builder_holds_def)
next
  case (Suc n)
  have more: "length (fb_offsets b) < i" using Suc by (simp add: builder_holds_def)
  obtain f where f: "builder_holds (GenerateFilter pol b) (fs @ [f]) []" "keeps pol valid (fs @ [f]) [] ks"
    using keeps_GenerateFilter [OF Suc(3,4)] by blast
  show ?case using Suc(1) [OF _ f] Suc(2) more by (subst generate_until.simps) simp
qed

lemma keeps_run:
  assumes "builder_holds b fs pend" "keeps pol valid fs pend ks" "length fs = off div 2048" "ascending es off"
    "\<And>k. Key k \<in> set es \<Longrightarrow> valid k"
  shows "\<exists>fs' pend'. builder_holds (filter_run pol es b) fs' pend' \<and> keeps pol valid fs' pend' (ks @ keys_of es off)"
  using assms
proof (induction es off arbitrary: b fs pend ks rule: keys_of.induct)
  case (2 off' es off)
  have "off div 2048 \<le> off' div 2048" using 2(5) by (simp add: div_le_mono)
  then obtain fs' pend' where "builder_holds (generate_until pol (off' div 2048) b) fs' pend'" "keeps pol valid fs' pend' ks"
    "length fs' = off' div 2048"
    using keeps_generate_until [OF 2(2,3), of "off' div 2048"] 2(4) by auto
  then show ?case using 2 by (auto simp: StartBlock_def kFilterBase_def kFilterBaseLg_def)
next
  case (3 k es off)
  have "keeps pol valid fs (pend @ [k]) (ks @ [(off, k)])"
    using 3(3,4,6) by (auto simp: keeps_def Let_def)
  then show ?case using 3(1) [OF holds_AddKey [OF 3(2)], of k "ks @ [(off, k)]"] 3(4-6) by auto
qed auto

end

text \<open>What the reader finds in a finished block.\<close>

definition filter_block :: "bytes list \<Rightarrow> bytes" where
  "filter_block fs = concat fs @ concat (map EncodeFixed32 (map of_nat (starts_of fs))) @
     EncodeFixed32 (of_nat (length (concat fs))) @ [11]"

lemma FilterFinish_block: "builder_holds b fs [] \<Longrightarrow> fst (FilterFinish pol b) = filter_block fs"
  by (simp add: FilterFinish_def filter_block_def builder_holds_def starts_of_def [of "[]"] fold_PutFixed32
      kFilterBaseLg_def Let_def) (simp add: PutFixed32_def)

lemma length_filter_block: "length (filter_block fs) = length (concat fs) + 4 * length fs + 5"
  unfolding filter_block_def length_append length_EncodeFixed32s by simp

lemma new_reader_block:
  assumes "length (filter_block fs) < 2 ^ 32"
  shows "new_FilterBlockReader (filter_block fs) =
    \<lparr>fr_data = filter_block fs, fr_offset = length (concat fs), fr_num = length fs, fr_base_lg = 11\<rparr>"
proof -
  let ?n = "length (filter_block fs)"
  define p where "p = concat fs @ concat (map EncodeFixed32 (map of_nat (starts_of fs)))"
  have p: "filter_block fs = p @ EncodeFixed32 (of_nat (length (concat fs))) @ [11]" "length p = length (concat fs) + 4 * length fs"
    unfolding p_def length_append length_EncodeFixed32s by (simp_all add: filter_block_def)
  have last: "filter_block fs ! (?n - 1) = 11"
    using p(2) unfolding length_filter_block by (simp add: p(1) nth_append)
  have "drop (?n - 5) (filter_block fs) = EncodeFixed32 (of_nat (length (concat fs))) @ [11]"
    using p(2) unfolding length_filter_block by (simp add: p(1))
  then have word: "unat (DecodeFixed32 (drop (?n - 5) (filter_block fs))) = length (concat fs)"
    using assms unfolding length_filter_block by (simp add: unat_of_nat_32)
  have "unat (scast (11 :: u8) :: u64) = 11" by simp
  then show ?thesis
    unfolding new_FilterBlockReader_def Let_def last word by (simp add: length_filter_block)
qed

lemma filter_block_offset:
  assumes "length (filter_block fs) < 2 ^ 32" "i \<le> length fs"
  shows "unat (DecodeFixed32 (drop (length (concat fs) + i * 4) (filter_block fs))) = length (concat (take i fs))"
proof -
  let ?os = "map of_nat (starts_of fs @ [length (concat fs)]) :: u32 list"
  define E where "E = concat (map EncodeFixed32 ?os)"
  have "length E = 4 * Suc (length fs)" unfolding E_def length_EncodeFixed32s by simp
  then have "drop (i * 4) (E @ [11]) = drop (i * 4) E @ [11]" using assms(2) by simp
  moreover have "filter_block fs = concat fs @ E @ [11]" by (simp add: filter_block_def E_def)
  then have "drop (length (concat fs) + i * 4) (filter_block fs) = drop (i * 4) (E @ [11])"
    by (simp add: add.commute [of "length (concat fs)"] flip: drop_drop)
  ultimately have "DecodeFixed32 (drop (length (concat fs) + i * 4) (filter_block fs)) = ?os ! i"
    using nth_EncodeFixed32s [of i ?os "[11]"] assms(2) by (simp add: E_def del: map_append)
  also have "\<dots> = of_nat ((starts_of fs @ [length (concat fs)]) ! i)"
    using assms(2) by (intro nth_map) simp
  also have "\<dots> = of_nat (length (concat (take i fs)))"
    using assms(2) by (simp add: starts_of_end)
  finally show ?thesis
    using assms(1) length_concat_take [of i fs] unfolding length_filter_block by (simp add: unat_of_nat_32)
qed

lemma filter_block_matches:
  assumes "length (filter_block fs) < 2 ^ 32" "off div 2048 < length fs" "off < 2 ^ 64"
  shows "FilterKeyMayMatch pol (new_FilterBlockReader (filter_block fs)) (of_nat off) k = PolicyKeyMayMatch pol k (fs ! (off div 2048))"
proof -
  let ?i = "off div 2048"
  have i: "unat (drop_bit 11 (of_nat off :: u64)) = ?i"
    using assms(3) by (simp add: drop_bit_eq_div unat_div unsigned_of_nat take_bit_nat_eq_self)
  have le: "length (concat (take ?i fs)) \<le> length (concat (take (Suc ?i) fs))" "length (concat (take (Suc ?i) fs)) \<le> length (concat fs)"
    by (rule length_concat_mono, simp) (rule length_concat_take)
  have seg: "take (length (concat (take (Suc ?i) fs)) - length (concat (take ?i fs))) (drop (length (concat (take ?i fs))) (filter_block fs)) = fs ! ?i"
    unfolding filter_block_def by (rule segment [OF assms(2)])
  have off: "unat (DecodeFixed32 (drop (length (concat fs) + ?i * 4) (filter_block fs))) = length (concat (take ?i fs))"
    "unat (DecodeFixed32 (drop (length (concat fs) + ?i * 4 + 4) (filter_block fs))) = length (concat (take (Suc ?i) fs))"
    using filter_block_offset [OF assms(1), of ?i] filter_block_offset [OF assms(1), of "Suc ?i"] assms(2)
    by (simp_all add: algebra_simps)
  show ?thesis
    unfolding new_reader_block [OF assms(1)] FilterKeyMayMatch_def
    using assms(2) le seg off by (simp add: i Let_def)
qed

context filter_policy
begin

text \<open>No added key is denied, for any run of the builder.\<close>

lemma filter_block_complete:
  assumes "ascending es 0" "\<And>k. Key k \<in> set es \<Longrightarrow> valid k" "(off, k) \<in> set (keys_of es 0)" "off < 2 ^ 64"
  defines "contents \<equiv> fst (FilterFinish pol (filter_run pol es new_FilterBlockBuilder))"
  assumes "length contents < 2 ^ 32"
  shows "FilterKeyMayMatch pol (new_FilterBlockReader contents) (of_nat off) k"
proof -
  obtain fs pend where r: "builder_holds (filter_run pol es new_FilterBlockBuilder) fs pend" "keeps pol valid fs pend (keys_of es 0)"
    using keeps_run [OF holds_new, of "[]" 0 es] assms(1,2) by (auto simp: keeps_def)
  obtain fs' where fs': "contents = filter_block fs'" "keeps pol valid fs' [] (keys_of es 0)"
  proof (cases "pend = []")
    case True
    then show ?thesis using that [of fs] r FilterFinish_block by (simp add: contents_def)
  next
    case False
    obtain f where f: "builder_holds (GenerateFilter pol (filter_run pol es new_FilterBlockBuilder)) (fs @ [f]) []"
      "keeps pol valid (fs @ [f]) [] (keys_of es 0)"
      using keeps_GenerateFilter [OF r] by blast
    have "fb_start (filter_run pol es new_FilterBlockBuilder) \<noteq> []" using r(1) False by (auto simp: builder_holds_def starts_of_def)
    moreover have "fb_start (GenerateFilter pol (filter_run pol es new_FilterBlockBuilder)) = []"
      using f(1) by (simp add: builder_holds_def starts_of_def)
    ultimately have "contents = fst (FilterFinish pol (GenerateFilter pol (filter_run pol es new_FilterBlockBuilder)))"
      by (simp add: contents_def FilterFinish_def)
    then show ?thesis using that [of "fs @ [f]"] f FilterFinish_block by simp
  qed
  then have "off div 2048 < length fs'" "PolicyKeyMayMatch pol k (fs' ! (off div 2048))"
    using assms(3) by (auto simp: keeps_def Let_def)
  then show ?thesis
    using filter_block_matches [of fs' off pol k] assms(4,6) fs'(1) by simp
qed

end

end
