(* ===== verification/LdbSkipList.thy ===== *)
theory LdbSkipList
  imports LdbKey
begin

text \<open>
  The skip list under the memtable (db/skiplist.h) with its random number generator
  (util/random.h). Nodes are never freed, so a pointer is an index into the list of all nodes; node
  0 is the head. The searches follow the pointers as long as they lead on, so they are partial
  functions; on a well-formed list they return.
\<close>

subsection \<open>Random numbers\<close>

definition new_Random :: "u32 \<Rightarrow> u32" where
  "new_Random s = (let seed = s AND 0x7fffffff in if seed = 0 \<or> seed = 2147483647 then 1 else seed)"

definition Random_Next :: "u32 \<Rightarrow> u32" where
  "Random_Next seed =
     (let product = ucast seed * (16807 :: u64);
          seed = ucast (drop_bit 31 product + (product AND 2147483647))
      in if seed > 2147483647 then seed - 2147483647 else seed)"

definition Random_Uniform :: "u32 \<Rightarrow> u32 \<Rightarrow> u32 \<times> u32" where
  "Random_Uniform n seed = (let seed = Random_Next seed in (seed mod n, seed))"

definition Random_OneIn :: "u32 \<Rightarrow> u32 \<Rightarrow> bool \<times> u32" where
  "Random_OneIn n seed = (let seed = Random_Next seed in (seed mod n = 0, seed))"

definition Random_Skewed :: "nat \<Rightarrow> u32 \<Rightarrow> u32 \<times> u32" where
  "Random_Skewed max_log seed =
     (case Random_Uniform (of_nat (max_log + 1)) seed of (k, seed) \<Rightarrow> Random_Uniform (push_bit (unat k) 1) seed)"

text \<open>The shift and the mask compute the product modulo the prime \<open>2\<^sup>3\<^sup>1 - 1\<close>; the seed stays in range.\<close>

lemma mod_mersenne:
  fixes p :: nat
  assumes "p div 2 ^ 31 + p mod 2 ^ 31 < 2 * 2147483647" "\<not> 2147483647 dvd p"
  shows "(let s = p div 2 ^ 31 + p mod 2 ^ 31 in if s > 2147483647 then s - 2147483647 else s) = p mod 2147483647"
proof -
  define s where "s = p div 2 ^ 31 + p mod 2 ^ 31"
  have p: "p = s + 2147483647 * (p div 2 ^ 31)"
    using mult_div_mod_eq [of "2 ^ 31" p] unfolding s_def by simp
  then have m: "p mod 2147483647 = s mod 2147483647" by (metis mod_mult_self2)
  then have "s \<noteq> 2147483647" using assms(2) by (auto simp: dvd_eq_mod_eq_0)
  then show ?thesis
    using assms(1) m unfolding s_def [symmetric] Let_def by (auto simp: mod_if [of s] mod_if [of "s - 2147483647"])
qed

lemma unat_low_31: "unat (x AND 2147483647) = unat x mod 2 ^ 31" for x :: u64
proof -
  have "(2147483647 :: u64) = mask 31" by (simp add: mask_eq_exp_minus_1)
  then show ?thesis
    by (simp only: take_bit_eq_mask [symmetric] unsigned_take_bit_eq) (simp add: take_bit_eq_mod)
qed

lemma unat_sum_32: "unat x + unat y < 2 ^ 32 \<Longrightarrow> unat (ucast (x + y) :: u32) = unat x + unat y" for x y :: u64
  by (simp add: unsigned_ucast_eq unat_word_ariths take_bit_nat_eq_self)

lemma Random_Next_mod:
  assumes "0 < unat seed" "unat seed < 2147483647"
  shows "unat (Random_Next seed) = unat seed * 16807 mod 2147483647"
proof -
  define p where "p = unat seed * 16807"
  define product where "product = ucast seed * (16807 :: u64)"
  define sum where "sum = (ucast (drop_bit 31 product + (product AND 2147483647)) :: u32)"
  have p: "p < 2 ^ 46" using assms(2) by (simp add: p_def)
  have "unat (ucast seed :: u64) = unat seed" by (simp add: unsigned_ucast_eq)
  then have u: "unat product = p" using p by (simp add: product_def p_def unat_word_ariths)
  have "p div 2 ^ 31 < 2 ^ 15" using p by (simp add: less_mult_imp_div_less)
  moreover have "p mod 2 ^ 31 < 2 ^ 31" by simp
  ultimately have s: "p div 2 ^ 31 + p mod 2 ^ 31 < 2 * 2147483647" "p div 2 ^ 31 + p mod 2 ^ 31 < 2 ^ 32" by simp_all
  have sum: "unat sum = p div 2 ^ 31 + p mod 2 ^ 31"
    using unat_sum_32 [of "drop_bit 31 product" "product AND 2147483647"] s(2)
    unfolding sum_def drop_bit_eq_div unat_div unat_low_31 u by (simp add: u)
  have "coprime (2147483647 :: nat) 16807" by (simp add: coprime_iff_gcd_eq_1 gcd_non_0_nat)
  then have "2147483647 dvd p \<longleftrightarrow> 2147483647 dvd unat seed" by (simp add: p_def coprime_dvd_mult_left_iff)
  then have "\<not> 2147483647 dvd p" using assms by (auto dest: dvd_imp_le)
  then have r: "(if unat sum > 2147483647 then unat sum - 2147483647 else unat sum) = p mod 2147483647"
    using mod_mersenne [OF s(1)] unfolding sum Let_def by blast
  have "Random_Next seed = (if sum > 2147483647 then sum - 2147483647 else sum)"
    by (simp add: Random_Next_def sum_def product_def Let_def)
  then have "unat (Random_Next seed) = (if unat sum > 2147483647 then unat sum - 2147483647 else unat sum)"
    by (simp add: word_less_nat_alt word_le_nat_alt unat_sub_if_size)
  then show ?thesis using r by (simp only: p_def)
qed

subsection \<open>Nodes\<close>

record 'k node =
  nkey :: 'k
  next_ptrs :: "nat option list"

record 'k skiplist =
  nodes :: "'k node list"
  max_height :: nat
  rnd :: u32

definition kMaxHeight :: nat where "kMaxHeight = 12"

definition Node_Next :: "'k skiplist \<Rightarrow> nat \<Rightarrow> nat \<Rightarrow> nat option" where
  "Node_Next s x n = next_ptrs (nodes s ! x) ! n"

definition Node_SetNext :: "nat \<Rightarrow> nat \<Rightarrow> nat option \<Rightarrow> 'k skiplist \<Rightarrow> 'k skiplist" where
  "Node_SetNext x n y s =
     s\<lparr>nodes := (nodes s)[x := (nodes s ! x)\<lparr>next_ptrs := (next_ptrs (nodes s ! x))[n := y]\<rparr>]\<rparr>"

definition NewNode :: "'k \<Rightarrow> nat \<Rightarrow> 'k skiplist \<Rightarrow> nat \<times> 'k skiplist" where
  "NewNode key height s = (length (nodes s), s\<lparr>nodes := nodes s @ [\<lparr>nkey = key, next_ptrs = replicate height None\<rparr>]\<rparr>)"

definition new_SkipList :: "'k \<Rightarrow> 'k skiplist" where
  "new_SkipList any_key =
     \<lparr>nodes = [\<lparr>nkey = any_key, next_ptrs = replicate kMaxHeight None\<rparr>], max_height = 1, rnd = new_Random 0xdeadbeef\<rparr>"

definition key_at :: "'k skiplist \<Rightarrow> nat \<Rightarrow> 'k" where
  "key_at s x = nkey (nodes s ! x)"

subsection \<open>Searching\<close>

definition KeyIsAfterNode :: "('k \<Rightarrow> 'k \<Rightarrow> int) \<Rightarrow> 'k skiplist \<Rightarrow> 'k \<Rightarrow> nat option \<Rightarrow> bool" where
  "KeyIsAfterNode cmp s key n = (case n of None \<Rightarrow> False | Some y \<Rightarrow> cmp (key_at s y) key < 0)"

partial_function (option) find_ge_loop ::
  "('k \<Rightarrow> 'k \<Rightarrow> int) \<Rightarrow> 'k skiplist \<Rightarrow> 'k \<Rightarrow> nat \<Rightarrow> nat \<Rightarrow> nat list \<Rightarrow> (nat option \<times> nat list) option" where
  "find_ge_loop cmp s key x level prev =
     (let next = Node_Next s x level in
      if KeyIsAfterNode cmp s key next then find_ge_loop cmp s key (the next) level prev
      else
        let prev = prev[level := x]
        in if level = 0 then Some (next, prev) else find_ge_loop cmp s key x (level - 1) prev)"

text \<open>The array \<open>prev\<close> is filled up to the height of the list.\<close>

definition FindGreaterOrEqual :: "('k \<Rightarrow> 'k \<Rightarrow> int) \<Rightarrow> 'k skiplist \<Rightarrow> 'k \<Rightarrow> nat list \<Rightarrow> (nat option \<times> nat list) option" where
  "FindGreaterOrEqual cmp s key prev = find_ge_loop cmp s key 0 (max_height s - 1) prev"

partial_function (option) find_less_loop :: "('k \<Rightarrow> 'k \<Rightarrow> int) \<Rightarrow> 'k skiplist \<Rightarrow> 'k \<Rightarrow> nat \<Rightarrow> nat \<Rightarrow> nat option" where
  "find_less_loop cmp s key x level =
     (let next = Node_Next s x level in
      if next = None \<or> cmp (key_at s (the next)) key \<ge> 0
      then if level = 0 then Some x else find_less_loop cmp s key x (level - 1)
      else find_less_loop cmp s key (the next) level)"

definition FindLessThan :: "('k \<Rightarrow> 'k \<Rightarrow> int) \<Rightarrow> 'k skiplist \<Rightarrow> 'k \<Rightarrow> nat option" where
  "FindLessThan cmp s key = find_less_loop cmp s key 0 (max_height s - 1)"

partial_function (option) find_last_loop :: "'k skiplist \<Rightarrow> nat \<Rightarrow> nat \<Rightarrow> nat option" where
  "find_last_loop s x level =
     (let next = Node_Next s x level in
      if next = None then if level = 0 then Some x else find_last_loop s x (level - 1)
      else find_last_loop s (the next) level)"

definition FindLast :: "'k skiplist \<Rightarrow> nat option" where
  "FindLast s = find_last_loop s 0 (max_height s - 1)"

definition Contains :: "('k \<Rightarrow> 'k \<Rightarrow> int) \<Rightarrow> 'k skiplist \<Rightarrow> 'k \<Rightarrow> bool option" where
  "Contains cmp s key =
     (case FindGreaterOrEqual cmp s key [] of
        None \<Rightarrow> None
      | Some (x, _) \<Rightarrow> Some (case x of None \<Rightarrow> False | Some y \<Rightarrow> cmp key (key_at s y) = 0))"

subsection \<open>Inserting\<close>

function random_height_loop :: "nat \<Rightarrow> u32 \<Rightarrow> nat \<times> u32" where
  "random_height_loop height seed =
     (if height < kMaxHeight
      then let seed = Random_Next seed in if seed mod 4 = 0 then random_height_loop (height + 1) seed else (height, seed)
      else (height, seed))"
  by pat_completeness auto
termination by (relation "measure (\<lambda>(h, _). kMaxHeight - h)") auto

declare random_height_loop.simps [simp del]

definition RandomHeight :: "'k skiplist \<Rightarrow> nat \<times> 'k skiplist" where
  "RandomHeight s = (case random_height_loop 1 (rnd s) of (h, seed) \<Rightarrow> (h, s\<lparr>rnd := seed\<rparr>))"

text \<open>The links of the new node \<open>x\<close>, from the lowest level up; each round publishes one level.\<close>

definition link_level :: "nat \<Rightarrow> nat list \<Rightarrow> nat \<Rightarrow> 'k skiplist \<Rightarrow> 'k skiplist" where
  "link_level x prev i s = Node_SetNext (prev ! i) i (Some x) (Node_SetNext x i (Node_Next s (prev ! i) i) s)"

definition prepare_insert :: "('k \<Rightarrow> 'k \<Rightarrow> int) \<Rightarrow> 'k \<Rightarrow> 'k skiplist \<Rightarrow> (nat \<times> nat \<times> nat list \<times> 'k skiplist) option" where
  "prepare_insert cmp key s =
     (case FindGreaterOrEqual cmp s key (replicate kMaxHeight 0) of
        None \<Rightarrow> None
      | Some (_, prev) \<Rightarrow>
          let (height, s) = RandomHeight s;
              (prev, s) =
                (if height > max_height s
                 then (fold (\<lambda>i prev. prev[i := 0]) [max_height s ..< height] prev, s\<lparr>max_height := height\<rparr>)
                 else (prev, s));
              (x, s) = NewNode key height s
          in Some (x, height, prev, s))"

definition Insert :: "('k \<Rightarrow> 'k \<Rightarrow> int) \<Rightarrow> 'k \<Rightarrow> 'k skiplist \<Rightarrow> 'k skiplist option" where
  "Insert cmp key s =
     (case prepare_insert cmp key s of
        None \<Rightarrow> None
      | Some (x, height, prev, s) \<Rightarrow> Some (fold (link_level x prev) [0 ..< height] s))"

subsection \<open>Iterators\<close>

text \<open>An iterator is its node; none means that it is not valid.\<close>

definition Iter_Next :: "'k skiplist \<Rightarrow> nat \<Rightarrow> nat option" where
  "Iter_Next s x = Node_Next s x 0"

definition Iter_Prev :: "('k \<Rightarrow> 'k \<Rightarrow> int) \<Rightarrow> 'k skiplist \<Rightarrow> nat \<Rightarrow> nat option option" where
  "Iter_Prev cmp s x =
     (case FindLessThan cmp s (key_at s x) of None \<Rightarrow> None | Some y \<Rightarrow> Some (if y = 0 then None else Some y))"

definition Iter_Seek :: "('k \<Rightarrow> 'k \<Rightarrow> int) \<Rightarrow> 'k skiplist \<Rightarrow> 'k \<Rightarrow> nat option option" where
  "Iter_Seek cmp s target = map_option fst (FindGreaterOrEqual cmp s target [])"

definition Iter_SeekToFirst :: "'k skiplist \<Rightarrow> nat option" where
  "Iter_SeekToFirst s = Node_Next s 0 0"

definition Iter_SeekToLast :: "'k skiplist \<Rightarrow> nat option option" where
  "Iter_SeekToLast s = (case FindLast s of None \<Rightarrow> None | Some y \<Rightarrow> Some (if y = 0 then None else Some y))"

subsection \<open>Well-formed lists\<close>

text \<open>\<open>linked s i x ys\<close>: on level \<open>i\<close> the pointers lead from \<open>x\<close> through \<open>ys\<close> to the end.\<close>

fun linked :: "'k skiplist \<Rightarrow> nat \<Rightarrow> nat \<Rightarrow> nat list \<Rightarrow> bool" where
  "linked s i x [] \<longleftrightarrow> Node_Next s x i = None"
| "linked s i x (y # ys) \<longleftrightarrow> Node_Next s x i = Some y \<and> linked s i y ys"

text \<open>\<open>L\<close> are the nodes in order, \<open>lv\<close> tells how many levels of a node are linked: level \<open>i\<close> is
  the sublist of the nodes with more than \<open>i\<close> levels.\<close>

definition level :: "(nat \<Rightarrow> nat) \<Rightarrow> nat \<Rightarrow> nat list \<Rightarrow> nat list" where
  "level lv i L = filter (\<lambda>x. i < lv x) L"

definition wf_list :: "('k \<Rightarrow> 'k \<Rightarrow> int) \<Rightarrow> 'k skiplist \<Rightarrow> nat list \<Rightarrow> (nat \<Rightarrow> nat) \<Rightarrow> bool" where
  "wf_list cmp s L lv \<longleftrightarrow>
     distinct L \<and> set L \<subseteq> {0 <..< length (nodes s)} \<and> 1 \<le> max_height s \<and> max_height s \<le> 12 \<and>
     0 < length (nodes s) \<and> length (next_ptrs (nodes s ! 0)) = 12 \<and>
     (\<forall>x \<in> set L. 1 \<le> lv x \<and> lv x \<le> max_height s \<and> lv x \<le> length (next_ptrs (nodes s ! x))) \<and>
     (\<forall>i < 12. linked s i 0 (level lv i L)) \<and>
     sorted_wrt (\<lambda>x y. cmp (key_at s x) (key_at s y) < 0) L"

lemma level_append [simp]: "level lv i (A @ B) = level lv i A @ level lv i B"
  by (simp add: level_def)

lemma level_Cons: "level lv i (x # L) = (if i < lv x then x # level lv i L else level lv i L)"
  by (simp add: level_def)

lemma set_level: "set (level lv i L) = {x \<in> set L. i < lv x}"
  by (simp add: level_def)


text \<open>A list that is linked leads from each of its nodes to the one behind it.\<close>

lemma linked_next:
  "linked s i x (ys @ zs) \<Longrightarrow> Node_Next s (last (x # ys)) i = (case zs of [] \<Rightarrow> None | z # _ \<Rightarrow> Some z)"
  by (induction ys arbitrary: x) (auto split: list.splits)

lemma linked_0: "(\<And>x. x \<in> set L \<Longrightarrow> 0 < lv x) \<Longrightarrow> level lv 0 L = L"
  by (simp add: level_def)

definition first :: "nat list \<Rightarrow> nat option" where
  "first B = (case B of [] \<Rightarrow> None | b # _ \<Rightarrow> Some b)"

lemma last_split: "x = last (y # P) \<Longrightarrow> P \<noteq> [] \<Longrightarrow> x \<in> set P"
  by (metis last.simps last_in_set)

text \<open>Every search goes the same way: it moves along a level while the next node is in \<open>A\<close>, goes
  down behind the last such node, and stops on the lowest level.\<close>

lemma search_induct [case_names move down stop]:
  assumes links: "\<And>i. i < 12 \<Longrightarrow> linked s i 0 (level lv i (A @ B))"
    and move: "\<And>i x y. i < 12 \<Longrightarrow> Node_Next s x i = Some y \<Longrightarrow> y \<in> set A \<Longrightarrow> R i y \<Longrightarrow> R i x"
    and down: "\<And>i x. 0 < i \<Longrightarrow> i < 12 \<Longrightarrow> x = last (0 # level lv i A) \<Longrightarrow> Node_Next s x i = first (level lv i B) \<Longrightarrow>
      R (i - 1) x \<Longrightarrow> R i x"
    and stop: "\<And>x. x = last (0 # level lv 0 A) \<Longrightarrow> Node_Next s x 0 = first (level lv 0 B) \<Longrightarrow> R 0 x"
  shows "i < 12 \<Longrightarrow> level lv i A = P @ Q \<Longrightarrow> R i (last (0 # P))"
proof (induction i arbitrary: P Q)
  case (Suc i)
  from Suc.prems show ?case
  proof (induction Q arbitrary: P)
    case Nil
    have "Node_Next s (last (0 # P)) (Suc i) = first (level lv (Suc i) B)"
      using linked_next [of s "Suc i" 0 P "level lv (Suc i) B"] links [of "Suc i"] Nil by (simp add: first_def)
    moreover have "R i (last (0 # P))"
    proof (cases "P = []")
      case True
      then show ?thesis using Suc.IH [of "[]"] Nil(1) by simp
    next
      case False
      then have "last (0 # P) \<in> set (level lv i A)" using Nil(2) by (auto simp: set_level dest: last_in_set)
      then obtain P' Q' where "level lv i A = (P' @ [last (0 # P)]) @ Q'" using split_list by fastforce
      then show ?thesis using Suc.IH [of "P' @ [last (0 # P)]" Q'] Nil(1) by simp
    qed
    ultimately show ?case using down [of "Suc i" "last (0 # P)"] Nil by simp
  next
    case (Cons y Q)
    have "Node_Next s (last (0 # P)) (Suc i) = Some y"
      using linked_next [of s "Suc i" 0 P "y # Q @ level lv (Suc i) B"] links [of "Suc i"] Cons(2,3) by simp
    moreover have "y \<in> set A" using Cons(3) by (auto simp: set_level dest!: arg_cong [of _ _ set])
    moreover have "R (Suc i) (last (0 # (P @ [y])))" using Cons(1) [of "P @ [y]"] Cons(2,3) by simp
    ultimately show ?case using move [OF Cons(2)] by simp
  qed
next
  case 0
  from 0 show ?case
  proof (induction Q arbitrary: P)
    case Nil
    have "Node_Next s (last (0 # P)) 0 = first (level lv 0 B)"
      using linked_next [of s 0 0 P "level lv 0 B"] links [of 0] Nil by (simp add: first_def)
    then show ?case using stop Nil by simp
  next
    case (Cons y Q)
    have "Node_Next s (last (0 # P)) 0 = Some y"
      using linked_next [of s 0 0 P "y # Q @ level lv 0 B"] links [of 0] Cons(3) by simp
    moreover have "y \<in> set A" using Cons(3) by (auto simp: set_level dest!: arg_cong [of _ _ set])
    moreover have "R 0 (last (0 # (P @ [y])))" using Cons(1) [of "P @ [y]"] Cons(2,3) by simp
    ultimately show ?case using move [OF Cons(2)] by simp
  qed
qed

text \<open>Where a key divides the list.\<close>

definition divides :: "('k \<Rightarrow> 'k \<Rightarrow> int) \<Rightarrow> 'k skiplist \<Rightarrow> 'k \<Rightarrow> nat list \<Rightarrow> nat list \<Rightarrow> bool" where
  "divides cmp s key A B \<longleftrightarrow> (\<forall>x \<in> set A. cmp (key_at s x) key < 0) \<and> (\<forall>x \<in> set B. \<not> cmp (key_at s x) key < 0)"

lemma wf_links: "wf_list cmp s L lv \<Longrightarrow> i < 12 \<Longrightarrow> linked s i 0 (level lv i L)"
  by (simp add: wf_list_def)

lemma wf_level_0: "wf_list cmp s (A @ B) lv \<Longrightarrow> level lv 0 A = A \<and> level lv 0 B = B"
  unfolding wf_list_def by (auto intro!: linked_0 simp: less_eq_Suc_le)

lemma wf_max_height: "wf_list cmp s L lv \<Longrightarrow> max_height s - 1 < 12"
  by (auto simp: wf_list_def)

lemma first_in: "first (level lv i B) = Some y \<Longrightarrow> y \<in> set B"
  by (auto simp: first_def level_def split: list.splits dest!: arg_cong [of _ _ set])

lemma find_ge_loop_wf:
  assumes "wf_list cmp s (A @ B) lv" "divides cmp s key A B" "i < 12"
  shows "\<exists>prev'. find_ge_loop cmp s key 0 i prev = Some (first B, prev') \<and> length prev' = length prev \<and>
    (\<forall>j < length prev. prev' ! j = (if j \<le> i then last (0 # level lv j A) else prev ! j))"
proof -
  define R where "R = (\<lambda>i x. \<forall>prev. \<exists>prev'. find_ge_loop cmp s key x i prev = Some (first B, prev') \<and> length prev' = length prev \<and>
    (\<forall>j < length prev. prev' ! j = (if j \<le> i then last (0 # level lv j A) else prev ! j)))"
  have stay: "\<not> KeyIsAfterNode cmp s key (first (level lv i B))" for i
    using assms(2) first_in [of lv i B] by (auto simp: KeyIsAfterNode_def divides_def split: option.splits)
  have "R i (last (0 # []))"
  proof (rule search_induct [where A = A and B = B and lv = lv and s = s])
    show "linked s i 0 (level lv i (A @ B))" if "i < 12" for i using wf_links [OF assms(1) that] .
    show "R i x" if "i < 12" "Node_Next s x i = Some y" "y \<in> set A" "R i y" for i x y
      using that assms(2) unfolding R_def
      by (subst find_ge_loop.simps) (simp add: KeyIsAfterNode_def divides_def Let_def)
    show "R i x" if "0 < i" "x = last (0 # level lv i A)" "Node_Next s x i = first (level lv i B)" "R (i - 1) x" for i x
      unfolding R_def
    proof
      note h = that
      fix prev :: "nat list"
      obtain prev' where p: "find_ge_loop cmp s key x (i - 1) (prev[i := x]) = Some (first B, prev')" "length prev' = length prev"
        "\<forall>j < length prev. prev' ! j = (if j \<le> i - 1 then last (0 # level lv j A) else prev[i := x] ! j)"
        using h(4) unfolding R_def by (metis length_list_update)
      have "find_ge_loop cmp s key x i prev = Some (first B, prev')"
        using h(1,3) stay p(1) by (subst find_ge_loop.simps) (simp add: Let_def)
      moreover have "\<forall>j < length prev. prev' ! j = (if j \<le> i then last (0 # level lv j A) else prev ! j)"
        using p(3) h(1,2) by (auto simp: nth_list_update le_eq_less_or_eq)
      ultimately show "\<exists>prev'. find_ge_loop cmp s key x i prev = Some (first B, prev') \<and> length prev' = length prev \<and>
          (\<forall>j < length prev. prev' ! j = (if j \<le> i then last (0 # level lv j A) else prev ! j))"
        using p(2) by blast
    qed
    show "R 0 x" if "x = last (0 # level lv 0 A)" "Node_Next s x 0 = first (level lv 0 B)" for x
      using that stay [of 0] wf_level_0 [OF assms(1)] unfolding R_def
      by (subst find_ge_loop.simps) (auto simp: Let_def nth_list_update)
  qed (use assms(3) in auto)
  then show ?thesis by (simp add: R_def)
qed

lemma find_less_loop_wf:
  assumes "wf_list cmp s (A @ B) lv" "divides cmp s key A B" "i < 12"
  shows "find_less_loop cmp s key 0 i = Some (last (0 # A))"
proof -
  define R where "R = (\<lambda>i x. find_less_loop cmp s key x i = Some (last (0 # A)))"
  have stay: "first (level lv i B) = None \<or> cmp (key_at s (the (first (level lv i B)))) key \<ge> 0" for i
    using assms(2) first_in [of lv i B] by (cases "first (level lv i B)") (auto simp: divides_def)
  have "R i (last (0 # []))"
  proof (rule search_induct [where A = A and B = B and lv = lv and s = s])
    show "linked s i 0 (level lv i (A @ B))" if "i < 12" for i using wf_links [OF assms(1) that] .
    show "R i x" if "Node_Next s x i = Some y" "y \<in> set A" "R i y" for i x y
      using that assms(2) unfolding R_def by (subst find_less_loop.simps) (force simp: divides_def Let_def)
    show "R i x" if "0 < i" "Node_Next s x i = first (level lv i B)" "R (i - 1) x" for i x
      using that stay [of i] unfolding R_def by (subst find_less_loop.simps) (simp add: Let_def)
    show "R 0 x" if "x = last (0 # level lv 0 A)" "Node_Next s x 0 = first (level lv 0 B)" for x
      using that stay [of 0] wf_level_0 [OF assms(1)] unfolding R_def by (subst find_less_loop.simps) (simp add: Let_def)
  qed (use assms(3) in auto)
  then show ?thesis by (simp add: R_def)
qed

lemma find_last_loop_wf:
  assumes "wf_list cmp s L lv" "i < 12"
  shows "find_last_loop s 0 i = Some (last (0 # L))"
proof -
  define R where "R = (\<lambda>i x. find_last_loop s x i = Some (last (0 # L)))"
  have wf: "wf_list cmp s (L @ []) lv" using assms(1) by simp
  have "R i (last (0 # []))"
  proof (rule search_induct [where A = L and B = "[]" and lv = lv and s = s])
    show "linked s i 0 (level lv i (L @ []))" if "i < 12" for i using wf_links [OF wf that] .
    show "R i x" if "Node_Next s x i = Some y" "R i y" for i x y
      using that unfolding R_def by (subst find_last_loop.simps) (simp add: Let_def)
    show "R i x" if "0 < i" "Node_Next s x i = first (level lv i [])" "R (i - 1) x" for i x
      using that unfolding R_def by (subst find_last_loop.simps) (simp add: Let_def first_def level_def)
    show "R 0 x" if "x = last (0 # level lv 0 L)" "Node_Next s x 0 = first (level lv 0 [])" for x
      using that wf_level_0 [OF wf] unfolding R_def by (subst find_last_loop.simps) (simp add: Let_def first_def level_def)
  qed (use assms(2) in auto)
  then show ?thesis by (simp add: R_def)
qed

text \<open>Linking a node.\<close>

lemma Node_Next_SetNext:
  "x < length (nodes s) \<Longrightarrow> i < length (next_ptrs (nodes s ! x)) \<Longrightarrow>
    Node_Next (Node_SetNext x i v s) y j = (if y = x \<and> j = i then v else Node_Next s y j)"
  by (auto simp: Node_Next_def Node_SetNext_def nth_list_update)

lemma SetNext_keeps [simp]:
  "length (nodes (Node_SetNext x i v s)) = length (nodes s)" "max_height (Node_SetNext x i v s) = max_height s"
  "key_at (Node_SetNext x i v s) y = key_at s y"
  "length (next_ptrs (nodes (Node_SetNext x i v s) ! y)) = length (next_ptrs (nodes s ! y))"
  by (simp_all add: Node_SetNext_def key_at_def) (cases "x < length (nodes s)"; cases "y = x"; simp add: list_update_beyond)+

lemma linked_cong: "(\<And>y. y \<in> set (x # ys) \<Longrightarrow> Node_Next s' y i = Node_Next s y i) \<Longrightarrow> linked s' i x ys = linked s i x ys"
  by (induction ys arbitrary: x) simp_all

lemma linked_insert:
  assumes "linked s i x (P @ Q)" "distinct (x # P @ Q)" "n \<notin> set (x # P @ Q)"
    "\<And>y. Node_Next s' y i = (if y = last (x # P) then Some n else if y = n then Node_Next s (last (x # P)) i else Node_Next s y i)"
  shows "linked s' i x (P @ n # Q)"
  using assms
proof (induction P arbitrary: x)
  case Nil
  have "linked s' i y R = linked s i y R" if "x \<notin> set (y # R)" "n \<notin> set (y # R)" for y R
    using that Nil(4) by (intro linked_cong) auto
  then show ?case using Nil by (cases Q) auto
next
  case (Cons y P)
  have "x \<noteq> last (y # P)" "x \<noteq> n" using Cons(3,4) by (auto dest: last_split)
  then show ?case using Cons by auto
qed

lemma link_level_keeps [simp]:
  "length (nodes (link_level n prev i s)) = length (nodes s)" "max_height (link_level n prev i s) = max_height s"
  "key_at (link_level n prev i s) y = key_at s y"
  "length (next_ptrs (nodes (link_level n prev i s) ! y)) = length (next_ptrs (nodes s ! y))"
  by (simp_all add: link_level_def)

lemma Node_Next_link_level:
  assumes "n < length (nodes s)" "i < length (next_ptrs (nodes s ! n))" "prev ! i < length (nodes s)"
    "i < length (next_ptrs (nodes s ! (prev ! i)))" "prev ! i \<noteq> n"
  shows "Node_Next (link_level n prev i s) y j =
    (if j = i then if y = prev ! i then Some n else if y = n then Node_Next s (prev ! i) i else Node_Next s y i else Node_Next s y j)"
  using assms by (simp add: link_level_def Node_Next_SetNext)

lemma level_fresh: "n \<notin> set A \<Longrightarrow> level (lv(n := k)) i A = level lv i A"
  unfolding level_def by (rule filter_cong) auto

lemma level_upd:
  "n \<notin> set A \<Longrightarrow> n \<notin> set B \<Longrightarrow> level (lv(n := k)) i (A @ n # B) =
    (if i < k then level lv i A @ n # level lv i B else level lv i (A @ B))"
  by (simp add: level_Cons level_fresh)

text \<open>The state after the lowest \<open>k\<close> levels of the new node have been linked.\<close>

definition linked_upto :: "nat \<Rightarrow> nat list \<Rightarrow> nat \<Rightarrow> 'k skiplist \<Rightarrow> 'k skiplist" where
  "linked_upto n prev k s = fold (link_level n prev) [0 ..< k] s"

lemma linked_upto_Suc: "linked_upto n prev (Suc k) s = link_level n prev k (linked_upto n prev k s)"
  by (simp add: linked_upto_def)

lemma linked_upto_keeps [simp]:
  "length (nodes (linked_upto n prev k s)) = length (nodes s)" "max_height (linked_upto n prev k s) = max_height s"
  "key_at (linked_upto n prev k s) y = key_at s y"
  "length (next_ptrs (nodes (linked_upto n prev k s) ! y)) = length (next_ptrs (nodes s ! y))"
  by (induction k) (simp_all add: linked_upto_Suc, simp_all add: linked_upto_def)

lemma linked_upto_links:
  assumes "\<And>i. i < 12 \<Longrightarrow> linked s i 0 (level lv i (A @ B))" "distinct (0 # A @ n # B)" "n < length (nodes s)" "0 < length (nodes s)"
    "\<And>x. x \<in> set A \<Longrightarrow> x < length (nodes s) \<and> lv x \<le> length (next_ptrs (nodes s ! x))" "length (next_ptrs (nodes s ! 0)) = 12"
    "\<And>i. i < k \<Longrightarrow> prev ! i = last (0 # level lv i A)" "k \<le> length (next_ptrs (nodes s ! n))" "k \<le> 12" "i < 12"
  shows "linked (linked_upto n prev k s) i 0 (level (lv(n := k)) i (A @ n # B))"
  using assms(7-10)
proof (induction k arbitrary: i)
  case 0
  have notin: "n \<notin> set A" "n \<notin> set B" using assms(2) by auto
  show ?case unfolding level_upd [OF notin] linked_upto_def using assms(1) [OF 0(4)] by simp
next
  case (Suc k)
  let ?s = "linked_upto n prev k s"
  let ?p = "prev ! k"
  have IH: "linked ?s i 0 (level (lv(n := k)) i (A @ n # B))" if "i < 12" for i
    by (rule Suc.IH) (use Suc that in simp_all)
  have p: "?p = last (0 # level lv k A)" using Suc(2) by simp
  then have "?p = 0 \<or> ?p \<in> set A \<and> k < lv ?p" 
    using last_in_set [of "level lv k A"] by (cases "level lv k A = []") (simp_all add: set_level)
  then have ok: "?p < length (nodes ?s)" "k < length (next_ptrs (nodes ?s ! ?p))" "?p \<noteq> n"
    using assms(2,4,5,6) Suc(4) by (auto simp: order_less_le_trans)
  have nxt: "Node_Next (link_level n prev k ?s) y j =
      (if j = k then if y = ?p then Some n else if y = n then Node_Next ?s ?p k else Node_Next ?s y k else Node_Next ?s y j)" for y j
    using assms(3) Suc(3) ok by (intro Node_Next_link_level) simp_all
  have notin: "n \<notin> set A" "n \<notin> set B" using assms(2) by auto
  show ?case
  proof (cases "i = k")
    case True
    have "linked (link_level n prev k ?s) k 0 (level lv k A @ n # level lv k B)"
    proof (rule linked_insert)
      show "linked ?s k 0 (level lv k A @ level lv k B)" using IH [of k, unfolded level_upd [OF notin]] Suc(4) by simp
      show "distinct (0 # level lv k A @ level lv k B)" "n \<notin> set (0 # level lv k A @ level lv k B)"
        using assms(2) by (auto simp: level_def)
      show "Node_Next (link_level n prev k ?s) y k = (if y = last (0 # level lv k A) then Some n else if y = n
          then Node_Next ?s (last (0 # level lv k A)) k else Node_Next ?s y k)" for y using nxt p by simp
    qed
    then show ?thesis unfolding True linked_upto_Suc level_upd [OF notin] by simp
  next
    case False
    have "level (lv(n := Suc k)) i (A @ n # B) = level (lv(n := k)) i (A @ n # B)"
      unfolding level_upd [OF notin] using False by auto
    moreover have "linked (link_level n prev k ?s) i 0 L = linked ?s i 0 L" for L
      using False nxt by (intro linked_cong) simp
    ultimately show ?thesis using IH [OF Suc(5)] by (simp only: linked_upto_Suc)
  qed
qed

lemma random_height_range: "h \<le> 12 \<Longrightarrow> h \<le> fst (random_height_loop h seed) \<and> fst (random_height_loop h seed) \<le> 12"
proof (induction h seed rule: random_height_loop.induct)
  case (1 h seed)
  let ?next = "Random_Next seed"
  have eq: "random_height_loop h seed =
      (if h < 12 \<and> ?next mod 4 = 0 then random_height_loop (h + 1) ?next else (h, if h < 12 then ?next else seed))"
    by (subst random_height_loop.simps) (simp add: kMaxHeight_def Let_def)
  show ?case
  proof (cases "h < 12 \<and> ?next mod 4 = 0")
    case True
    then have "h + 1 \<le> fst (random_height_loop (h + 1) ?next) \<and> fst (random_height_loop (h + 1) ?next) \<le> 12"
      using 1(1) [OF _ refl] by (simp add: kMaxHeight_def)
    then show ?thesis unfolding eq if_P [OF True] by simp
  next
    case False
    then show ?thesis unfolding eq if_not_P [OF False] using 1(2) by simp
  qed
qed

lemma length_fold_zero [simp]: "length (fold (\<lambda>i prev. prev[i := 0]) js prev) = length prev"
  by (induction js arbitrary: prev) simp_all

lemma fold_zero_nth:
  "j < length prev \<Longrightarrow> fold (\<lambda>i prev. prev[i := 0]) [a ..< b] prev ! j = (if a \<le> j \<and> j < b then 0 else prev ! j)"
  by (induction b) (auto simp: nth_list_update less_Suc_eq)

text \<open>The order on the keys of a list.\<close>

locale skiplist_order =
  fixes cmp :: "'k \<Rightarrow> 'k \<Rightarrow> int" and valid :: "'k \<Rightarrow> bool"
  assumes swap: "valid a \<Longrightarrow> valid b \<Longrightarrow> cmp a b < 0 \<longleftrightarrow> 0 < cmp b a"
    and trans: "valid a \<Longrightarrow> valid b \<Longrightarrow> valid c \<Longrightarrow> cmp a b < 0 \<Longrightarrow> cmp b c < 0 \<Longrightarrow> cmp a c < 0"
begin

lemma divides_exists:
  assumes "sorted_wrt (\<lambda>x y. cmp (key_at s x) (key_at s y) < 0) L" "\<And>x. x \<in> set L \<Longrightarrow> valid (key_at s x)" "valid key"
  shows "\<exists>A B. L = A @ B \<and> divides cmp s key A B"
  using assms
proof (induction L)
  case Nil
  then show ?case by (simp add: divides_def)
next
  case (Cons x L)
  obtain A B where "L = A @ B" "divides cmp s key A B" using Cons by auto
  show ?case
  proof (cases "cmp (key_at s x) key < 0")
    case True
    then have "x # L = (x # A) @ B \<and> divides cmp s key (x # A) B"
      using \<open>L = A @ B\<close> \<open>divides cmp s key A B\<close> by (simp add: divides_def)
    then show ?thesis by blast
  next
    case False
    have "\<not> cmp (key_at s y) key < 0" if "y \<in> set L" for y
      using trans [of "key_at s x" "key_at s y" key] Cons(2-4) that False by auto
    then show ?thesis using False by (intro exI [of _ "[]"] exI [of _ "x # L"]) (auto simp: divides_def)
  qed
qed

lemma divided_greater:
  assumes "divides cmp s key A B" "\<And>x. x \<in> set B \<Longrightarrow> valid (key_at s x) \<and> cmp (key_at s x) key \<noteq> 0" "valid key" "x \<in> set B"
  shows "cmp key (key_at s x) < 0"
proof -
  have "0 < cmp (key_at s x) key" using assms by (force simp: divides_def)
  then show ?thesis using swap [of key "key_at s x"] assms by auto
qed

text \<open>What an insertion does before it links the new node.\<close>

lemma prepare_insert_wf:
  assumes "wf_list cmp s (A @ B) lv" "divides cmp s key A B"
  shows "\<exists>h prev s'. prepare_insert cmp key s = Some (length (nodes s), h, prev, s') \<and> 1 \<le> h \<and> h \<le> 12 \<and>
    (\<forall>i < h. prev ! i = last (0 # level lv i A)) \<and> max_height s' = max h (max_height s) \<and>
    nodes s' = nodes s @ [\<lparr>nkey = key, next_ptrs = replicate h None\<rparr>]"
proof -
  have m: "1 \<le> max_height s" "max_height s \<le> 12" using assms(1) by (auto simp: wf_list_def)
  obtain prev where p: "FindGreaterOrEqual cmp s key (replicate 12 0) = Some (first B, prev)" "length prev = 12"
    "\<And>j. j < 12 \<Longrightarrow> prev ! j = (if j \<le> max_height s - 1 then last (0 # level lv j A) else 0)"
    using find_ge_loop_wf [OF assms wf_max_height [OF assms(1)], of "replicate 12 0"] by (auto simp: FindGreaterOrEqual_def)
  have high: "last (0 # level lv j A) = 0" if "max_height s \<le> j" for j
  proof -
    have "lv x \<le> max_height s" if "x \<in> set A" for x using assms(1) that by (simp add: wf_list_def)
    then have "level lv j A = []" using that by (force simp: level_def filter_empty_conv)
    then show ?thesis by simp
  qed
  obtain h seed where h: "random_height_loop 1 (rnd s) = (h, seed)" by fastforce
  have "1 \<le> h \<and> h \<le> 12" using random_height_range [of 1 "rnd s"] h by simp
  have "prepare_insert cmp key s = Some (length (nodes s), h,
      (if h > max_height s then fold (\<lambda>i prev. prev[i := 0]) [max_height s ..< h] prev else prev),
      s\<lparr>rnd := seed, max_height := max h (max_height s), nodes := nodes s @ [\<lparr>nkey = key, next_ptrs = replicate h None\<rparr>]\<rparr>)"
    using p(1) h by (cases "h > max_height s") (simp_all add: prepare_insert_def RandomHeight_def NewNode_def kMaxHeight_def max_def)
  moreover have "\<forall>i < h. (if h > max_height s then fold (\<lambda>i prev. prev[i := 0]) [max_height s ..< h] prev else prev) ! i =
      last (0 # level lv i A)"
  proof (intro allI impI)
    fix i assume "i < h"
    then have "i < 12" "i < length prev" using \<open>1 \<le> h \<and> h \<le> 12\<close> p(2) by auto
    show "(if h > max_height s then fold (\<lambda>i prev. prev[i := 0]) [max_height s ..< h] prev else prev) ! i = last (0 # level lv i A)"
    proof (cases "max_height s \<le> i")
      case True
      then have "max_height s < h" using \<open>i < h\<close> by simp
      then show ?thesis
        using True \<open>i < h\<close> unfolding if_P [OF \<open>max_height s < h\<close>] fold_zero_nth [OF \<open>i < length prev\<close>] high [OF True] by simp
    next
      case False
      then have "(if h > max_height s then fold (\<lambda>i prev. prev[i := 0]) [max_height s ..< h] prev else prev) ! i = prev ! i"
        by (simp add: fold_zero_nth [OF \<open>i < length prev\<close>])
      moreover have "i \<le> max_height s - 1" using False by simp
      ultimately show ?thesis using p(3) [OF \<open>i < 12\<close>] by (simp only: if_True)
    qed
  qed
  ultimately show ?thesis using \<open>1 \<le> h \<and> h \<le> 12\<close> by (intro exI conjI) auto
qed

text \<open>After any number of levels has been linked, the list is well-formed, with the new key in its
  place: this is what readers see while an insertion is under way, and when it is done.\<close>

lemma partial_insert_wf:
  assumes "wf_list cmp s (A @ B) lv" "divides cmp s key A B" "valid key"
    "\<And>x. x \<in> set (A @ B) \<Longrightarrow> valid (key_at s x) \<and> cmp (key_at s x) key \<noteq> 0"
    "prepare_insert cmp key s = Some (n, h, prev, s')" "1 \<le> k" "k \<le> h"
  shows "wf_list cmp (linked_upto n prev k s') (A @ n # B) (lv(n := k)) \<and>
    map (key_at (linked_upto n prev k s')) (A @ n # B) = map (key_at s) A @ key # map (key_at s) B"
proof -
  obtain s'' prev' h' where p: "prepare_insert cmp key s = Some (length (nodes s), h', prev', s'')" "1 \<le> h' \<and> h' \<le> 12"
    "\<forall>i < h'. prev' ! i = last (0 # level lv i A)" "max_height s'' = max h' (max_height s)"
    "nodes s'' = nodes s @ [\<lparr>nkey = key, next_ptrs = replicate h' None\<rparr>]"
    using prepare_insert_wf [OF assms(1,2)] by blast
  then have n: "n = length (nodes s)" "h = h'" "prev = prev'" "s' = s''" using assms(5) by simp_all
  note wf = assms(1) [unfolded wf_list_def]
  have old: "Node_Next s' x i = Node_Next s x i" "key_at s' x = key_at s x" "next_ptrs (nodes s' ! x) = next_ptrs (nodes s ! x)"
    if "x < length (nodes s)" for x i
    using that p(5) n by (simp_all add: Node_Next_def key_at_def nth_append)
  have new: "key_at s' n = key" "next_ptrs (nodes s' ! n) = replicate h None" "length (nodes s') = Suc n"
    using p(5) n by (simp_all add: key_at_def nth_append)
  have L: "set (A @ B) \<subseteq> {0 <..< n}" "distinct (A @ B)" "0 < n" using wf n(1) by auto
  have in_old: "x < length (nodes s)" if "x \<in> set (0 # A @ B)" for x using that L n(1) by auto
  let ?s = "linked_upto n prev k s'"
  have "linked ?s i 0 (level (lv(n := k)) i (A @ n # B))" if "i < 12" for i
  proof (rule linked_upto_links)
    show "linked s' j 0 (level lv j (A @ B))" if "j < 12" for j
    proof -
      have "linked s' j 0 (level lv j (A @ B)) = linked s j 0 (level lv j (A @ B))"
        by (rule linked_cong) (use in_old old(1) in \<open>auto simp: level_def\<close>)
      then show ?thesis using wf_links [OF assms(1) that] by simp
    qed
    show "distinct (0 # A @ n # B)" "n < length (nodes s')" "0 < length (nodes s')" using L new(3) by auto
    show "x < length (nodes s') \<and> lv x \<le> length (next_ptrs (nodes s' ! x))" if "x \<in> set A" for x
      using that wf in_old [of x] old(3) [of x] new(3) n(1) by auto
    show "length (next_ptrs (nodes s' ! 0)) = 12" using wf old(3) [of 0] by simp
    show "prev ! j = last (0 # level lv j A)" if "j < k" for j using p(3) n that assms(7) by simp
    show "k \<le> length (next_ptrs (nodes s' ! n))" "k \<le> 12" using new(2) assms(7) p(2) n by simp_all
  qed (rule that)
  moreover have "sorted_wrt (\<lambda>x y. cmp (key_at ?s x) (key_at ?s y) < 0) (A @ n # B)"
  proof -
    have keys: "key_at ?s x = key_at s x" if "x \<in> set (A @ B)" for x using old(2) in_old that by simp
    have "cmp (key_at s x) key < 0" if "x \<in> set A" for x using assms(2) that by (simp add: divides_def)
    moreover have "cmp key (key_at s x) < 0" if "x \<in> set B" for x
      using divided_greater [OF assms(2) _ assms(3) that] assms(4) by simp
    moreover have "sorted_wrt (\<lambda>x y. cmp (key_at ?s x) (key_at ?s y) < 0) (A @ B)"
      using wf keys by (auto intro: sorted_wrt_mono_rel [of "A @ B" "\<lambda>x y. cmp (key_at s x) (key_at s y) < 0"])
    ultimately show ?thesis using new(1) keys by (auto simp: sorted_wrt_append)
  qed
  moreover have "1 \<le> (lv(n := k)) x \<and> (lv(n := k)) x \<le> max_height ?s \<and> (lv(n := k)) x \<le> length (next_ptrs (nodes ?s ! x))"
    if "x \<in> set (A @ n # B)" for x
  proof (cases "x = n")
    case True
    then show ?thesis using assms(6,7) p(4) n new(2) by simp
  next
    case False
    then show ?thesis using that wf in_old [of x] old(3) [of x] p(4) n by (auto intro: max.coboundedI2)
  qed
  moreover have "length (next_ptrs (nodes ?s ! 0)) = 12" using wf old(3) [of 0] by simp
  moreover have "1 \<le> max_height ?s" "max_height ?s \<le> 12" using wf p(2,4) n by auto
  ultimately have "wf_list cmp ?s (A @ n # B) (lv(n := k))"
    using L new(3) unfolding wf_list_def by auto
  moreover have "map (key_at ?s) (A @ n # B) = map (key_at s) A @ key # map (key_at s) B"
    using new(1) old(2) in_old by simp
  ultimately show ?thesis by blast
qed

text \<open>Before the first level is linked, nothing has changed for a reader.\<close>

lemma prepared_wf:
  assumes "wf_list cmp s (A @ B) lv" "divides cmp s key A B" "prepare_insert cmp key s = Some (n, h, prev, s')"
  shows "wf_list cmp s' (A @ B) lv \<and> map (key_at s') (A @ B) = map (key_at s) (A @ B)"
proof -
  have p: "1 \<le> h" "h \<le> 12" "max_height s' = max h (max_height s)"
    "nodes s' = nodes s @ [\<lparr>nkey = key, next_ptrs = replicate h None\<rparr>]"
    using prepare_insert_wf [OF assms(1,2)] assms(3) by auto
  note wf = assms(1) [unfolded wf_list_def]
  have old: "Node_Next s' x i = Node_Next s x i" "key_at s' x = key_at s x" "next_ptrs (nodes s' ! x) = next_ptrs (nodes s ! x)"
    if "x \<in> set (0 # A @ B)" for x i
    using that wf p(4) by (auto simp: Node_Next_def key_at_def nth_append)
  have "linked s' i 0 (level lv i (A @ B))" if "i < 12" for i
  proof -
    have "linked s' i 0 (level lv i (A @ B)) = linked s i 0 (level lv i (A @ B))"
      by (rule linked_cong) (use old(1) in \<open>auto simp: level_def\<close>)
    then show ?thesis using wf_links [OF assms(1) that] by simp
  qed
  moreover have "sorted_wrt (\<lambda>x y. cmp (key_at s' x) (key_at s' y) < 0) (A @ B)"
    using wf old(2) by (auto intro: sorted_wrt_mono_rel [of "A @ B" "\<lambda>x y. cmp (key_at s x) (key_at s y) < 0"])
  moreover have "set (A @ B) \<subseteq> {0 <..< length (nodes s')}" "distinct (A @ B)" "length (next_ptrs (nodes s' ! 0)) = 12"
    "1 \<le> max_height s'" "max_height s' \<le> 12" "0 < length (nodes s')"
    using wf p old(3) [of 0] by (auto simp: subset_iff)
  moreover have "1 \<le> lv x \<and> lv x \<le> max_height s' \<and> lv x \<le> length (next_ptrs (nodes s' ! x))" if "x \<in> set (A @ B)" for x
    using that wf p(3) old(3) [of x] by (auto intro: max.coboundedI2)
  ultimately have "wf_list cmp s' (A @ B) lv" unfolding wf_list_def by simp
  then show ?thesis using old(2) by simp
qed

text \<open>So an insertion returns and puts the key where it belongs.\<close>

lemma Insert_wf:
  assumes "wf_list cmp s L lv" "valid key" "\<And>x. x \<in> set L \<Longrightarrow> valid (key_at s x) \<and> cmp (key_at s x) key \<noteq> 0"
  shows "\<exists>A B n s' lv'. L = A @ B \<and> divides cmp s key A B \<and> Insert cmp key s = Some s' \<and> wf_list cmp s' (A @ n # B) lv' \<and>
    map (key_at s') (A @ n # B) = map (key_at s) A @ key # map (key_at s) B"
proof -
  obtain A B where L: "L = A @ B" "divides cmp s key A B"
    using divides_exists [of s L key] assms by (auto simp: wf_list_def)
  obtain n h prev s' where p: "prepare_insert cmp key s = Some (n, h, prev, s')" "1 \<le> h"
    using prepare_insert_wf [of s A B lv key] assms(1) L by auto
  have "Insert cmp key s = Some (linked_upto n prev h s')" using p(1) by (simp add: Insert_def linked_upto_def)
  then show ?thesis
    using partial_insert_wf [of s A B lv key n h prev s' h] assms L p by blast
qed

text \<open>Searching on a well-formed list.\<close>

lemma FindGreaterOrEqual_wf:
  assumes "wf_list cmp s (A @ B) lv" "divides cmp s key A B"
  shows "\<exists>prev'. FindGreaterOrEqual cmp s key prev = Some (first B, prev')"
  using find_ge_loop_wf [OF assms wf_max_height [OF assms(1)], of prev] by (auto simp: FindGreaterOrEqual_def)

lemma Contains_wf:
  assumes "wf_list cmp s L lv" "valid key" "\<And>x. x \<in> set L \<Longrightarrow> valid (key_at s x)"
    "\<And>a b. valid a \<Longrightarrow> valid b \<Longrightarrow> cmp a b = 0 \<longleftrightarrow> a = b"
  shows "Contains cmp s key = Some (key \<in> key_at s ` set L)"
proof -
  obtain A B where L: "L = A @ B" "divides cmp s key A B"
    using divides_exists [of s L key] assms(1-3) by (auto simp: wf_list_def)
  obtain prev where f: "FindGreaterOrEqual cmp s key [] = Some (first B, prev)"
    using FindGreaterOrEqual_wf [of s A B lv key "[]"] assms(1) L by auto
  have A: "key_at s x \<noteq> key" if "x \<in> set A" for x
    using L assms(2,3,4) that by (force simp: divides_def)
  have "key \<in> key_at s ` set B \<longleftrightarrow> (case first B of None \<Rightarrow> False | Some y \<Rightarrow> cmp key (key_at s y) = 0)"
  proof (cases B)
    case (Cons b B')
    have "key_at s y \<noteq> key" if "y \<in> set B'" for y
    proof
      assume "key_at s y = key"
      then have "cmp (key_at s b) key < 0"
        using assms(1) L(1) Cons that by (auto simp: wf_list_def sorted_wrt_append)
      then show False using L(2) Cons by (simp add: divides_def)
    qed
    then show ?thesis using Cons assms(2,3,4) L(1) by (auto simp: first_def)
  qed (simp add: first_def)
  then show ?thesis using f A L(1) by (auto simp: Contains_def)
qed

end

lemma new_SkipList_wf: "wf_list cmp (new_SkipList k) [] lv"
  by (auto simp: wf_list_def new_SkipList_def kMaxHeight_def level_def Node_Next_def)

text \<open>Iterators walk through the list in both directions.\<close>

lemma Iter_Next_wf:
  assumes "wf_list cmp s (A @ x # B) lv"
  shows "Iter_Next s x = first B"
proof -
  have "level lv 0 (A @ x # B) = A @ x # B" using wf_level_0 [of cmp s "A @ x # B" "[]" lv] assms by simp
  then have "linked s 0 0 ((A @ [x]) @ B)" using wf_links [OF assms, of 0] by simp
  from linked_next [OF this] show ?thesis by (simp add: Iter_Next_def first_def)
qed

lemma Iter_SeekToFirst_wf:
  assumes "wf_list cmp s L lv"
  shows "Iter_SeekToFirst s = first L"
proof -
  have "level lv 0 L = L" using wf_level_0 [of cmp s L "[]" lv] assms by simp
  then have "linked s 0 0 ([] @ L)" using wf_links [OF assms, of 0] by simp
  from linked_next [OF this] show ?thesis by (simp add: Iter_SeekToFirst_def first_def)
qed

definition last_of :: "nat list \<Rightarrow> nat option" where
  "last_of A = (if A = [] then None else Some (last A))"

lemma head_not_in: "wf_list cmp s L lv \<Longrightarrow> A \<noteq> [] \<Longrightarrow> set A \<subseteq> set L \<Longrightarrow> last A \<noteq> 0"
  using last_in_set [of A] by (force simp: wf_list_def)

lemma Iter_SeekToLast_wf: "wf_list cmp s L lv \<Longrightarrow> Iter_SeekToLast s = Some (last_of L)"
  using find_last_loop_wf [of cmp s L lv "max_height s - 1"] wf_max_height [of cmp s L lv] head_not_in [of cmp s L lv L]
  by (cases "L = []") (simp_all add: Iter_SeekToLast_def FindLast_def last_of_def)

context skiplist_order
begin

lemma Iter_Seek_wf:
  "wf_list cmp s (A @ B) lv \<Longrightarrow> divides cmp s key A B \<Longrightarrow> Iter_Seek cmp s key = Some (first B)"
  using FindGreaterOrEqual_wf [of s A B lv key "[]"] by (auto simp: Iter_Seek_def)

lemma Iter_Prev_wf:
  assumes "wf_list cmp s (A @ x # B) lv" "\<And>y. y \<in> set (A @ x # B) \<Longrightarrow> valid (key_at s y)"
  shows "Iter_Prev cmp s x = Some (last_of A)"
proof -
  have irrefl: "\<not> cmp a a < 0" if "valid a" for a using swap [OF that that] by auto
  have "\<not> cmp (key_at s y) (key_at s x) < 0" if "y \<in> set B" for y
  proof
    assume "cmp (key_at s y) (key_at s x) < 0"
    moreover have "cmp (key_at s x) (key_at s y) < 0" using assms(1) that by (simp add: wf_list_def sorted_wrt_append)
    ultimately show False using trans [of "key_at s x" "key_at s y" "key_at s x"] irrefl [of "key_at s x"] assms(2) that by simp
  qed
  then have d: "divides cmp s (key_at s x) A (x # B)"
    using assms irrefl by (auto simp: divides_def wf_list_def sorted_wrt_append)
  have "last A \<noteq> 0" if "A \<noteq> []" using that by (intro head_not_in [OF assms(1)]) auto
  then show ?thesis
    using find_less_loop_wf [OF assms(1) d wf_max_height [OF assms(1)]]
    by (cases "A = []") (simp_all add: Iter_Prev_def FindLessThan_def last_of_def)
qed

end

end
