(* ===== verification/LdbMem.thy ===== *)
theory LdbMem
  imports LdbSkipList LdbEnv
begin

text \<open>
  The memtable (db/memtable.cc): the entries of the newest writes, kept in a skip list of buffers. A
  buffer is never changed once it is in the list, so the pointer to it is modelled by its bytes. The
  memory of buffers and nodes comes from an arena, which is a theory of its own.
\<close>

subsection \<open>Entries\<close>

text \<open>\<open>GetVarint32Ptr(p, p + 5, &len)\<close> on a buffer that goes on behind the length.\<close>

definition read_len :: "bytes \<Rightarrow> (u32 \<times> bytes) option" where
  "read_len p =
     (case GetVarint32Ptr (take 5 p) of
        None \<Rightarrow> None
      | Some (len, q) \<Rightarrow> Some (len, drop (length (take 5 p) - length q) p))"

text \<open>The bytes behind the length are a pair: the string and what follows it.\<close>

definition entry_slice :: "bytes \<Rightarrow> (bytes \<times> bytes) option" where
  "entry_slice data =
     (case read_len data of None \<Rightarrow> None | Some (len, p) \<Rightarrow> Some (take (unat len) p, drop (unat len) p))"

definition mem_slice :: "bytes \<Rightarrow> bytes" where
  "mem_slice data = fst (the (entry_slice data))"

definition KeyComparator :: "(bytes \<Rightarrow> bytes \<Rightarrow> int) \<Rightarrow> bytes \<Rightarrow> bytes \<Rightarrow> int" where
  "KeyComparator cmp aptr bptr = (let a = mem_slice aptr; b = mem_slice bptr in cmp a b)"

definition EncodeKey :: "bytes \<Rightarrow> bytes" where
  "EncodeKey target = PutVarint32 [] (of_nat (length target)) @ target"

definition encoded_len :: "nat \<Rightarrow> nat \<Rightarrow> nat" where
  "encoded_len key_size val_size =
     (let internal_key_size = key_size + 8 in
      VarintLength (of_nat internal_key_size) + internal_key_size + VarintLength (of_nat val_size) + val_size)"

definition mem_entry :: "u64 \<Rightarrow> ValueType \<Rightarrow> bytes \<Rightarrow> bytes \<Rightarrow> bytes" where
  "mem_entry s t key value =
     (let internal_key_size = length key + 8 in
      EncodeVarint32 (of_nat internal_key_size) @ key @ EncodeFixed64 (push_bit 8 s OR value_type_num t) @
      EncodeVarint32 (of_nat (length value)) @ value)"

subsection \<open>The table\<close>

type_synonym memtable = "bytes skiplist"

definition new_MemTable :: memtable where "new_MemTable = new_SkipList []"

definition MemTable_Add ::
  "(bytes \<Rightarrow> bytes \<Rightarrow> int) \<Rightarrow> u64 \<Rightarrow> ValueType \<Rightarrow> bytes \<Rightarrow> bytes \<Rightarrow> memtable \<Rightarrow> memtable option" where
  "MemTable_Add ucmp s t key value table =
     Insert (KeyComparator (InternalCompare ucmp)) (mem_entry s t key value) table"

text \<open>What \<open>Get\<close> does with the entry the search ends at; the results are the value of the call,
  \<open>*value\<close> and \<open>*s\<close>.\<close>

definition mem_found :: "(bytes \<Rightarrow> bytes \<Rightarrow> int) \<Rightarrow> bytes \<Rightarrow> bytes \<Rightarrow> bytes \<Rightarrow> Status \<Rightarrow> (bool \<times> bytes \<times> Status) option" where
  "mem_found ucmp e u value st =
     (case read_len e of
        None \<Rightarrow> None
      | Some (key_length, key_ptr) \<Rightarrow>
          if ucmp (take (unat (key_length - 8)) key_ptr) u = 0
          then
            let tag = DecodeFixed64 (drop (unat key_length - 8) key_ptr) in
            if tag AND 0xff = value_type_num kTypeValue
            then (case entry_slice (drop (unat key_length) key_ptr) of None \<Rightarrow> None | Some (v, _) \<Rightarrow> Some (True, v, st))
            else if tag AND 0xff = value_type_num kTypeDeletion then Some (True, value, NotFound [] [])
            else Some (False, value, st)
          else Some (False, value, st))"

definition MemTable_Get ::
  "(bytes \<Rightarrow> bytes \<Rightarrow> int) \<Rightarrow> LookupKey \<Rightarrow> bytes \<Rightarrow> Status \<Rightarrow> memtable \<Rightarrow> (bool \<times> bytes \<times> Status) option" where
  "MemTable_Get ucmp key value s table =
     (case Iter_Seek (KeyComparator (InternalCompare ucmp)) table (memtable_key key) of
        None \<Rightarrow> None
      | Some None \<Rightarrow> Some (False, value, s)
      | Some (Some x) \<Rightarrow> mem_found ucmp (key_at table x) (lookup_user_key key) value s)"

subsection \<open>Iterators\<close>

definition MemIter_Seek :: "(bytes \<Rightarrow> bytes \<Rightarrow> int) \<Rightarrow> bytes \<Rightarrow> memtable \<Rightarrow> nat option option" where
  "MemIter_Seek ucmp k table = Iter_Seek (KeyComparator (InternalCompare ucmp)) table (EncodeKey k)"

definition MemIter_Prev :: "(bytes \<Rightarrow> bytes \<Rightarrow> int) \<Rightarrow> nat \<Rightarrow> memtable \<Rightarrow> nat option option" where
  "MemIter_Prev ucmp x table = Iter_Prev (KeyComparator (InternalCompare ucmp)) table x"

definition MemIter_key :: "memtable \<Rightarrow> nat \<Rightarrow> bytes" where
  "MemIter_key table x = mem_slice (key_at table x)"

definition MemIter_value :: "memtable \<Rightarrow> nat \<Rightarrow> bytes" where
  "MemIter_value table x = mem_slice (snd (the (entry_slice (key_at table x))))"

subsection \<open>The bytes of an entry\<close>

lemma read_len_put: "read_len (EncodeVarint32 v @ rest) = Some (v, rest)"
proof -
  have "take 5 (EncodeVarint32 v @ rest) = EncodeVarint32 v @ take (5 - length (EncodeVarint32 v)) rest"
    using length_EncodeVarint(2) [of v] by simp
  then show ?thesis
    using GetVarint32_put [of v "take (5 - length (EncodeVarint32 v)) rest"]
    by (simp add: read_len_def GetVarint32_def)
qed

lemma length_prefixed_bytes: "length_prefixed x = EncodeVarint32 (of_nat (length x)) @ x"
  by (simp add: length_prefixed_def PutLengthPrefixedSlice_def PutVarint32_def)

lemma entry_slice_put [simp]: "length x < 2 ^ 32 \<Longrightarrow> entry_slice (length_prefixed x @ rest) = Some (x, rest)"
  by (simp add: entry_slice_def length_prefixed_bytes read_len_put unat_of_nat_32)

lemma mem_slice_put [simp]:
  "length x < 2 ^ 32 \<Longrightarrow> mem_slice (length_prefixed x @ rest) = x"
  "length x < 2 ^ 32 \<Longrightarrow> mem_slice (length_prefixed x) = x"
  using entry_slice_put [of x rest] entry_slice_put [of x "[]"] by (simp_all add: mem_slice_def)

lemma EncodeKey_prefixed: "EncodeKey k = length_prefixed k"
  by (simp add: EncodeKey_def length_prefixed_bytes PutVarint32_def)

lemma mem_entry_prefixed: "mem_entry s t u v = length_prefixed (encode_key u s t) @ length_prefixed v"
  by (simp add: mem_entry_def length_prefixed_bytes encode_key_bytes PackSequenceAndType_def Let_def)

lemma length_encode_key [simp]: "length (encode_key u s t) = length u + 8"
  by (simp add: encode_key_bytes)

text \<open>The buffer is as long as what is written into it.\<close>

lemma ucast_of_nat_32: "n < 2 ^ 32 \<Longrightarrow> ucast (of_nat n :: u32) = (of_nat n :: u64)"
  by (rule word_unat_eq_iff [THEN iffD2]) (simp add: unat_of_nat take_bit_nat_eq_self unsigned_ucast_eq)

lemma length_mem_entry:
  assumes "length u + 8 < 2 ^ 32" "length v < 2 ^ 32"
  shows "length (mem_entry s t u v) = encoded_len (length u) (length v)"
proof -
  have n: "length (EncodeVarint32 (of_nat n)) = VarintLength (of_nat n)" if "n < 2 ^ 32" for n
    by (simp add: EncodeVarint32_bytes VarintLength_EncodeVarint64 EncodeVarint64_bytes ucast_of_nat_32 [OF that])
  show ?thesis
    using n [OF assms(1)] n [OF assms(2)] by (simp add: mem_entry_def encoded_len_def Let_def)
qed

text \<open>A buffer that holds an internal key.\<close>

definition mem_valid :: "(bytes \<Rightarrow> bool) \<Rightarrow> bytes \<Rightarrow> bool" where
  "mem_valid uvalid e \<longleftrightarrow> internal_valid uvalid (mem_slice e)"

lemma mem_valid_entry:
  "uvalid u \<Longrightarrow> length u + 8 < 2 ^ 32 \<Longrightarrow> mem_valid uvalid (mem_entry s t u v)"
  "uvalid u \<Longrightarrow> length u + 8 < 2 ^ 32 \<Longrightarrow> mem_valid uvalid (length_prefixed (encode_key u s t))"
  by (simp_all add: mem_valid_def mem_entry_prefixed internal_valid_def) (simp_all add: encode_key_bytes)

sublocale comparator \<subseteq> mem: skiplist_order "KeyComparator (InternalCompare compare)" "mem_valid valid"
proof
  show "KeyComparator (InternalCompare compare) a b < 0 \<longleftrightarrow> 0 < KeyComparator (InternalCompare compare) b a"
    if "mem_valid valid a" "mem_valid valid b" for a b
    using that comparator.compare_swap [OF internal_comparator] by (simp add: mem_valid_def KeyComparator_def)
  show "KeyComparator (InternalCompare compare) a c < 0"
    if "mem_valid valid a" "mem_valid valid b" "mem_valid valid c"
      "KeyComparator (InternalCompare compare) a b < 0" "KeyComparator (InternalCompare compare) b c < 0" for a b c
    using that comparator.compare_trans [OF internal_comparator, of "mem_slice a" "mem_slice b" "mem_slice c"]
    by (simp add: mem_valid_def KeyComparator_def)
qed

interpretation mem_bytewise: skiplist_order "KeyComparator (InternalCompare BytewiseCompare)" "mem_valid (\<lambda>_. True)"
  by (rule bytewise.mem.skiplist_order_axioms)


subsection \<open>What a memtable holds\<close>

text \<open>The abstract memtable: for a user key and a sequence number, a type and a value.\<close>

type_synonym mem_map = "bytes \<times> u64 \<rightharpoonup> ValueType \<times> bytes"

definition mem_fits :: "(bytes \<Rightarrow> bool) \<Rightarrow> bytes \<Rightarrow> u64 \<Rightarrow> bytes \<Rightarrow> bool" where
  "mem_fits uvalid u s v \<longleftrightarrow> uvalid u \<and> length u + 8 < 2 ^ 32 \<and> length v < 2 ^ 32 \<and> s \<le> kMaxSequenceNumber"

definition mem_entries :: "mem_map \<Rightarrow> bytes set" where
  "mem_entries M = {e. \<exists>u s t v. e = mem_entry s t u v \<and> M (u, s) = Some (t, v)}"

definition mem_holds :: "(bytes \<Rightarrow> bytes \<Rightarrow> int) \<Rightarrow> (bytes \<Rightarrow> bool) \<Rightarrow> memtable \<Rightarrow> mem_map \<Rightarrow> bool" where
  "mem_holds ucmp uvalid table M \<longleftrightarrow>
     (\<exists>L lv. wf_list (KeyComparator (InternalCompare ucmp)) table L lv \<and> key_at table ` set L = mem_entries M) \<and>
     (\<forall>u s t v. M (u, s) = Some (t, v) \<longrightarrow> mem_fits uvalid u s v)"

text \<open>The newest entry of a user key that a reader at \<open>seq\<close> sees.\<close>

definition mem_newest :: "mem_map \<Rightarrow> bytes \<Rightarrow> u64 \<Rightarrow> (ValueType \<times> bytes) option" where
  "mem_newest M u seq =
     (let S = {s. s \<le> seq \<and> (u, s) \<in> dom M} in if S = {} then None else M (u, Max S))"

definition mem_result :: "(ValueType \<times> bytes) option \<Rightarrow> bytes \<Rightarrow> Status \<Rightarrow> bool \<times> bytes \<times> Status" where
  "mem_result r value s =
     (case r of
        None \<Rightarrow> (False, value, s)
      | Some (kTypeValue, v) \<Rightarrow> (True, v, s)
      | Some (kTypeDeletion, _) \<Rightarrow> (True, value, NotFound [] []))"

lemma encode_key_inject:
  assumes "encode_key u s t = encode_key u' s' t'" "s \<le> kMaxSequenceNumber" "s' \<le> kMaxSequenceNumber"
  shows "u = u' \<and> s = s' \<and> t = t'"
proof -
  let ?k = "\<lparr>user_key = u, sequence = s, vtype = t\<rparr>" and ?k' = "\<lparr>user_key = u', sequence = s', vtype = t'\<rparr>"
  have "Some ?k = Some ?k'"
    using ParseInternalKey_Append [of ?k] ParseInternalKey_Append [of ?k'] assms(2,3)
    unfolding assms(1) [unfolded encode_key_def] by (simp only: ParsedInternalKey.select_convs)
  then show ?thesis by simp
qed

lemma mem_entry_slice [simp]: "length u + 8 < 2 ^ 32 \<Longrightarrow> mem_slice (mem_entry s t u v) = encode_key u s t"
  by (simp add: mem_entry_prefixed)

lemma mem_holdsI:
  "wf_list (KeyComparator (InternalCompare ucmp)) table L lv \<Longrightarrow> key_at table ` set L = mem_entries M \<Longrightarrow>
   (\<And>u s t v. M (u, s) = Some (t, v) \<Longrightarrow> mem_fits uvalid u s v) \<Longrightarrow> mem_holds ucmp uvalid table M"
  unfolding mem_holds_def by blast

lemma mem_holds_fits: "mem_holds ucmp uvalid table M \<Longrightarrow> M (u, s) = Some (t, v) \<Longrightarrow> mem_fits uvalid u s v"
  unfolding mem_holds_def by blast

lemma mem_entries_update:
  "M (u, s) = None \<Longrightarrow> mem_entries (M((u, s) \<mapsto> (t, v))) = insert (mem_entry s t u v) (mem_entries M)"
  by (auto simp: mem_entries_def) (metis option.distinct(1))

lemma new_MemTable_holds: "mem_holds ucmp uvalid new_MemTable Map.empty"
proof -
  have "key_at new_MemTable ` set [] = mem_entries Map.empty" by (simp add: mem_entries_def)
  then show ?thesis
    using new_SkipList_wf [of "KeyComparator (InternalCompare ucmp)" "[]"] unfolding mem_holds_def new_MemTable_def by blast
qed

lemma mem_newest_first:
  assumes "M (u, s) = Some e" "s \<le> seq" "\<And>s'. (u, s') \<in> dom M \<Longrightarrow> s' \<le> seq \<Longrightarrow> s' \<le> s"
  shows "mem_newest M u seq = Some e"
proof -
  have "Max {s. s \<le> seq \<and> (u, s) \<in> dom M} = s" using assms by (intro Max_eqI) auto
  then show ?thesis using assms(1,2) by (auto simp: mem_newest_def Let_def)
qed

lemma mem_newest_none: "(\<And>s. (u, s) \<in> dom M \<Longrightarrow> \<not> s \<le> seq) \<Longrightarrow> mem_newest M u seq = None"
  by (auto simp: mem_newest_def Let_def)

lemma unat_minus_8: "8 \<le> n \<Longrightarrow> n < 2 ^ 32 \<Longrightarrow> unat (of_nat n - 8 :: u32) = n - 8"
  using unat_of_nat_32 [of n] by (simp add: unat_sub_if_size word_le_nat_alt wsst_TYs)

lemma mem_found_entry:
  assumes "mem_fits uvalid u' s v"
  shows "mem_found ucmp (mem_entry s t u' v) u value st =
    Some (if ucmp u' u = 0 then mem_result (Some (t, v)) value st else (False, value, st))"
proof -
  let ?n = "length u' + 8"
  have n: "?n < 2 ^ 32" "length v < 2 ^ 32" using assms by (simp_all add: mem_fits_def)
  have r: "read_len (mem_entry s t u' v) = Some (of_nat ?n, encode_key u' s t @ length_prefixed v)"
    using read_len_put by (simp add: mem_entry_prefixed length_prefixed_bytes)
  have l: "unat (of_nat ?n - 8 :: u32) = length u'" "unat (of_nat ?n :: u32) = ?n"
    using unat_minus_8 [of ?n] unat_of_nat_32 [of ?n] n by simp_all
  have "take (length u') (encode_key u' s t @ length_prefixed v) = u'"
    "DecodeFixed64 (drop (?n - 8) (encode_key u' s t @ length_prefixed v)) = PackSequenceAndType s t"
    "drop ?n (encode_key u' s t @ length_prefixed v) = length_prefixed v"
    by (simp_all add: encode_key_bytes)
  then show ?thesis
    using entry_slice_put [OF n(2), of "[]"]
    unfolding mem_found_def r option.case prod.case l
    by (cases t) (simp_all add: unpack_type mem_result_def value_type_num_def)
qed

context comparator
begin

lemma KeyComparator_lookup:
  assumes "mem_fits valid u s v" "valid u'" "length u' + 8 < 2 ^ 32" "s' \<le> kMaxSequenceNumber"
  shows "KeyComparator (InternalCompare compare) (mem_entry s t u v) (length_prefixed (encode_key u' s' kTypeValue)) < 0 \<longleftrightarrow>
    compare u u' < 0 \<or> u = u' \<and> s > s'"
  using assms InternalCompare_encode [of u u' s s' t kTypeValue]
  by (simp add: KeyComparator_def mem_fits_def)

lemma KeyComparator_entries:
  assumes "mem_fits valid u s v" "mem_fits valid u' s' v'"
  shows "KeyComparator (InternalCompare compare) (mem_entry s t u v) (mem_entry s' t' u' v') < 0 \<longleftrightarrow>
    compare u u' < 0 \<or> u = u' \<and> (s > s' \<or> s = s' \<and> t = kTypeValue \<and> t' = kTypeDeletion)"
  using assms InternalCompare_encode [of u u' s s' t t'] by (simp add: KeyComparator_def mem_fits_def)

lemma KeyComparator_distinct:
  assumes "mem_fits valid u s v" "mem_fits valid u' s' v'" "(u, s) \<noteq> (u', s')"
  shows "KeyComparator (InternalCompare compare) (mem_entry s t u v) (mem_entry s' t' u' v') \<noteq> 0"
  using assms InternalCompare_eq [of "encode_key u s t" "encode_key u' s' t'"] encode_key_inject [of u s t u' s' t']
  by (auto simp: KeyComparator_def mem_fits_def internal_valid_def) (auto simp: encode_key_bytes)

lemma MemTable_Add_holds:
  assumes "mem_holds compare valid table M" "mem_fits valid u s v" "M (u, s) = None"
  shows "\<exists>table'. MemTable_Add compare s t u v table = Some table' \<and> mem_holds compare valid table' (M((u, s) \<mapsto> (t, v)))"
proof -
  let ?K = "KeyComparator (InternalCompare compare)" and ?e = "mem_entry s t u v"
  obtain L lv where L: "wf_list ?K table L lv" "key_at table ` set L = mem_entries M"
    using assms(1) by (auto simp: mem_holds_def)
  have e: "mem_valid valid ?e" using assms(2) by (simp add: mem_valid_entry mem_fits_def)
  have old: "mem_valid valid (key_at table x) \<and> ?K (key_at table x) ?e \<noteq> 0" if "x \<in> set L" for x
  proof -
    have "key_at table x \<in> mem_entries M" using L(2) that by blast
    then obtain u' s' t' v' where x: "key_at table x = mem_entry s' t' u' v'" "M (u', s') = Some (t', v')"
      by (auto simp: mem_entries_def)
    then have f: "mem_fits valid u' s' v'" using assms(1) by (simp add: mem_holds_def)
    then have "mem_valid valid (key_at table x)" using x by (simp add: mem_valid_entry mem_fits_def)
    moreover have "(u', s') \<noteq> (u, s)" using x(2) assms(3) by (metis option.distinct(1))
    ultimately show ?thesis using KeyComparator_distinct [OF f assms(2)] x(1) by simp
  qed
  obtain A B n table' lv' where t': "L = A @ B" "Insert ?K ?e table = Some table'" "wf_list ?K table' (A @ n # B) lv'"
    "map (key_at table') (A @ n # B) = map (key_at table) A @ ?e # map (key_at table) B"
    using mem.Insert_wf [OF L(1) e old] by blast
  have "key_at table' ` set (A @ n # B) = set (map (key_at table) A @ ?e # map (key_at table) B)"
    using t'(4) by (metis set_map)
  then have "key_at table' ` set (A @ n # B) = mem_entries (M((u, s) \<mapsto> (t, v)))"
    using L(2) t'(1) assms(3) by (auto simp: mem_entries_update)
  then have "mem_holds compare valid table' (M((u, s) \<mapsto> (t, v)))"
    by (rule mem_holdsI [OF t'(3)]) (use mem_holds_fits [OF assms(1)] assms(2) in \<open>auto split: if_splits\<close>)
  then show ?thesis using t'(2) by (simp add: MemTable_Add_def)
qed

text \<open>\<open>Get\<close> returns the newest entry the lookup key sees.\<close>

lemma MemTable_Get_newest:
  assumes "mem_holds compare valid table M" "valid u" "length u + 8 < 2 ^ 32" "seq \<le> kMaxSequenceNumber"
  shows "MemTable_Get compare (new_LookupKey u seq) value st table = Some (mem_result (mem_newest M u seq) value st)"
proof -
  let ?K = "KeyComparator (InternalCompare compare)" and ?k = "length_prefixed (encode_key u seq kTypeValue)"
  obtain L lv where L: "wf_list ?K table L lv" "key_at table ` set L = mem_entries M"
    using assms(1) by (auto simp: mem_holds_def)
  have entry: "\<exists>u' s t v. key_at table x = mem_entry s t u' v \<and> M (u', s) = Some (t, v) \<and> mem_fits valid u' s v"
    if "x \<in> set L" for x
  proof -
    have "key_at table x \<in> mem_entries M" using L(2) that by blast
    then show ?thesis using mem_holds_fits [OF assms(1)] unfolding mem_entries_def by blast
  qed
  have "mem_valid valid (key_at table x)" if "x \<in> set L" for x
    using entry [OF that] by (auto simp: mem_valid_entry mem_fits_def)
  moreover have "mem_valid valid ?k" using assms by (simp add: mem_valid_entry)
  ultimately obtain A B where AB: "L = A @ B" "divides ?K table ?k A B"
    using mem.divides_exists [of table L ?k] L(1) by (auto simp: wf_list_def)
  have seek: "Iter_Seek ?K table (memtable_key (new_LookupKey u seq)) = Some (first B)"
    using mem.Iter_Seek_wf L(1) AB assms(3) by (simp add: memtable_key_prefixed)
  have seen: "\<exists>x \<in> set B. key_at table x = mem_entry s t u v" if "M (u, s) = Some (t, v)" "s \<le> seq" for s t v
  proof -
    have "mem_entry s t u v \<in> key_at table ` set L" using that(1) unfolding L(2) by (auto simp: mem_entries_def)
    moreover have "mem_fits valid u s v" using assms(1) that(1) by (simp add: mem_holds_def)
    then have "\<not> ?K (mem_entry s t u v) ?k < 0"
      using KeyComparator_lookup [of u s v u seq] that(2) assms compare_refl [of u] by simp
    ultimately show ?thesis using AB by (auto simp: divides_def)
  qed
  show ?thesis
  proof (cases B)
    case Nil
    have "mem_newest M u seq = None" by (rule mem_newest_none) (use seen Nil in force)
    then show ?thesis using seek Nil by (simp add: MemTable_Get_def first_def mem_result_def)
  next
    case (Cons x B')
    obtain u' s t v where e: "key_at table x = mem_entry s t u' v" "M (u', s) = Some (t, v)" "mem_fits valid u' s v"
      using entry [of x] AB(1) Cons by auto
    have get: "MemTable_Get compare (new_LookupKey u seq) value st table = mem_found compare (mem_entry s t u' v) u value st"
      using seek Cons e(1) by (simp add: MemTable_Get_def first_def LookupKey_parts)
    have "\<not> ?K (mem_entry s t u' v) ?k < 0" using AB(2) Cons e(1) by (simp add: divides_def)
    then have x: "\<not> compare u' u < 0" "u' = u \<Longrightarrow> s \<le> seq"
      using KeyComparator_lookup [OF e(3) assms(2,3,4)] by auto
    have least: "compare u' u < 0 \<or> u' = u \<and> s2 \<le> s" if m: "M (u, s2) = Some (t2, v2)" "s2 \<le> seq" for s2 t2 v2
    proof -
      obtain y where y: "y \<in> set B" "key_at table y = mem_entry s2 t2 u v2" using seen [OF m] by blast
      have f: "mem_fits valid u s2 v2" using assms(1) m(1) by (simp add: mem_holds_def)
      show ?thesis
      proof (cases "y = x")
        case True
        then have "encode_key u s2 t2 = encode_key u' s t"
          using y e f by (metis mem_entry_slice mem_fits_def)
        then show ?thesis using encode_key_inject f e(3) by (metis mem_fits_def order_refl)
      next
        case False
        then have "?K (key_at table x) (key_at table y) < 0"
          using L(1) AB(1) Cons y(1) by (simp add: wf_list_def sorted_wrt_append)
        then show ?thesis using KeyComparator_entries [OF e(3) f] e(1) y(2) by auto
      qed
    qed
    show ?thesis
    proof (cases "u' = u")
      case True
      have "mem_newest M u seq = Some (t, v)"
      proof (rule mem_newest_first)
        show "M (u, s) = Some (t, v)" using e(2) True by simp
        show "s \<le> seq" using x(2) True by simp
        show "s2 \<le> s" if "(u, s2) \<in> dom M" "s2 \<le> seq" for s2
          using that least [of s2] x(1) by auto
      qed
      then show ?thesis using get mem_found_entry [OF e(3)] True compare_refl [OF assms(2)] by simp
    next
      case False
      have "mem_newest M u seq = None" by (rule mem_newest_none) (use least x(1) False in auto)
      moreover have "compare u' u \<noteq> 0" using False compare_eq [of u' u] e(3) assms(2) by (simp add: mem_fits_def)
      ultimately show ?thesis using get mem_found_entry [OF e(3)] by (simp add: mem_result_def)
    qed
  qed
qed

end

end
