(* ===== verification/LdbBatch.thy ===== *)
theory LdbBatch
  imports LdbMem
begin

text \<open>
  Write batches (db/write_batch.cc, db/write_batch_internal.h): the bytes of a batch, the handler
  they are played back to, and their insertion into the memtable. A handler's call is an option, for
  a call that does not return.
\<close>

subsection \<open>The batch\<close>

definition kHeader :: nat where "kHeader = 12"

type_synonym write_batch = bytes

definition Batch_Clear :: write_batch where "Batch_Clear = replicate kHeader 0"
definition Batch_ApproximateSize :: "write_batch \<Rightarrow> nat" where "Batch_ApproximateSize b = length b"
definition Batch_Contents :: "write_batch \<Rightarrow> bytes" where "Batch_Contents b = b"
definition Batch_ByteSize :: "write_batch \<Rightarrow> nat" where "Batch_ByteSize b = length b"
definition Batch_SetContents :: "bytes \<Rightarrow> write_batch" where "Batch_SetContents contents = contents"

definition Batch_Count :: "write_batch \<Rightarrow> u32" where "Batch_Count b = DecodeFixed32 (drop 8 b)"
definition Batch_SetCount :: "write_batch \<Rightarrow> u32 \<Rightarrow> write_batch" where
  "Batch_SetCount b n = take 8 b @ EncodeFixed32 n @ drop 12 b"
definition Batch_Sequence :: "write_batch \<Rightarrow> u64" where "Batch_Sequence b = DecodeFixed64 b"
definition Batch_SetSequence :: "write_batch \<Rightarrow> u64 \<Rightarrow> write_batch" where
  "Batch_SetSequence b seq = EncodeFixed64 seq @ drop 8 b"

definition type_tag :: "ValueType \<Rightarrow> u8" where
  "type_tag t = (case t of kTypeDeletion \<Rightarrow> 0 | kTypeValue \<Rightarrow> 1)"

definition Batch_Put :: "bytes \<Rightarrow> bytes \<Rightarrow> write_batch \<Rightarrow> write_batch" where
  "Batch_Put key value b =
     (let b = Batch_SetCount b (Batch_Count b + 1);
          b = b @ [type_tag kTypeValue];
          b = PutLengthPrefixedSlice b key
      in PutLengthPrefixedSlice b value)"

definition Batch_Delete :: "bytes \<Rightarrow> write_batch \<Rightarrow> write_batch" where
  "Batch_Delete key b =
     (let b = Batch_SetCount b (Batch_Count b + 1); b = b @ [type_tag kTypeDeletion] in PutLengthPrefixedSlice b key)"

definition Batch_Append :: "write_batch \<Rightarrow> write_batch \<Rightarrow> write_batch" where
  "Batch_Append dst src = Batch_SetCount dst (Batch_Count dst + Batch_Count src) @ drop kHeader src"

subsection \<open>Playing a batch back\<close>

record 'h batch_handler =
  HPut :: "bytes \<Rightarrow> bytes \<Rightarrow> 'h \<Rightarrow> 'h option"
  HDelete :: "bytes \<Rightarrow> 'h \<Rightarrow> 'h option"

lemma GetLengthPrefixedSlice_shorter:
  "GetLengthPrefixedSlice p = Some (x, q) \<Longrightarrow> length q < length p"
proof -
  assume "GetLengthPrefixedSlice p = Some (x, q)"
  then obtain len r where "GetVarint32 p = Some (len, r)" "q = drop (unat len) r"
    by (auto simp: GetLengthPrefixedSlice_def split: option.splits if_splits)
  moreover from this have "length r < length p" using GetVarint_bound(1) [of p len r] by auto
  ultimately show ?thesis by simp
qed

text \<open>The loop of \<open>Iterate\<close>: the status it returns, or the number of records found.\<close>

function iterate_loop :: "'h batch_handler \<Rightarrow> bytes \<Rightarrow> u32 \<Rightarrow> 'h \<Rightarrow> ((Status + u32) \<times> 'h) option" where
  "iterate_loop h [] found st = Some (Inr found, st)"
| "iterate_loop h (b # input) found st =
     (if b = type_tag kTypeValue
      then (case GetLengthPrefixedSlice input of
              None \<Rightarrow> Some (Inl (Corruption ''bad WriteBatch Put'' []), st)
            | Some (key, input1) \<Rightarrow>
                (case GetLengthPrefixedSlice input1 of
                   None \<Rightarrow> Some (Inl (Corruption ''bad WriteBatch Put'' []), st)
                 | Some (value, input2) \<Rightarrow>
                     (case HPut h key value st of
                        None \<Rightarrow> None
                      | Some st \<Rightarrow> iterate_loop h input2 (found + 1) st)))
      else if b = type_tag kTypeDeletion
      then (case GetLengthPrefixedSlice input of
              None \<Rightarrow> Some (Inl (Corruption ''bad WriteBatch Delete'' []), st)
            | Some (key, input1) \<Rightarrow>
                (case HDelete h key st of
                   None \<Rightarrow> None
                 | Some st \<Rightarrow> iterate_loop h input1 (found + 1) st))
      else Some (Inl (Corruption ''unknown WriteBatch tag'' []), st))"
  by pat_completeness auto
termination
  by (relation "measure (\<lambda>(h, input, found, st). length input)") (auto dest!: GetLengthPrefixedSlice_shorter)

definition Batch_Iterate :: "'h batch_handler \<Rightarrow> write_batch \<Rightarrow> 'h \<Rightarrow> (Status \<times> 'h) option" where
  "Batch_Iterate h b st =
     (if length b < kHeader then Some (Corruption ''malformed WriteBatch (too small)'' [], st)
      else
        (case iterate_loop h (drop kHeader b) 0 st of
           None \<Rightarrow> None
         | Some (Inl e, st) \<Rightarrow> Some (e, st)
         | Some (Inr found, st) \<Rightarrow>
             if found \<noteq> Batch_Count b then Some (Corruption ''WriteBatch has wrong count'' [], st)
             else Some (OK, st)))"

text \<open>The memtable and the next sequence number.\<close>

definition MemTableInserter :: "(bytes \<Rightarrow> bytes \<Rightarrow> int) \<Rightarrow> (u64 \<times> memtable) batch_handler" where
  "MemTableInserter ucmp =
     \<lparr>HPut = (\<lambda>key value (s, table). map_option (\<lambda>table. (s + 1, table)) (MemTable_Add ucmp s kTypeValue key value table)),
      HDelete = (\<lambda>key (s, table). map_option (\<lambda>table. (s + 1, table)) (MemTable_Add ucmp s kTypeDeletion key [] table))\<rparr>"

definition Batch_InsertInto :: "(bytes \<Rightarrow> bytes \<Rightarrow> int) \<Rightarrow> write_batch \<Rightarrow> memtable \<Rightarrow> (Status \<times> memtable) option" where
  "Batch_InsertInto ucmp b table =
     map_option (\<lambda>(st, _, table). (st, table)) (Batch_Iterate (MemTableInserter ucmp) b (Batch_Sequence b, table))"

subsection \<open>What a batch holds\<close>

datatype batch_op = OpPut bytes bytes | OpDelete bytes

fun op_bytes :: "batch_op \<Rightarrow> bytes" where
  "op_bytes (OpPut k v) = type_tag kTypeValue # length_prefixed k @ length_prefixed v"
| "op_bytes (OpDelete k) = type_tag kTypeDeletion # length_prefixed k"

fun op_fits :: "batch_op \<Rightarrow> bool" where
  "op_fits (OpPut k v) \<longleftrightarrow> length k < 2 ^ 32 \<and> length v < 2 ^ 32"
| "op_fits (OpDelete k) \<longleftrightarrow> length k < 2 ^ 32"

fun batch_write :: "batch_op \<Rightarrow> write_batch \<Rightarrow> write_batch" where
  "batch_write (OpPut k v) b = Batch_Put k v b"
| "batch_write (OpDelete k) b = Batch_Delete k b"

fun handle_op :: "'h batch_handler \<Rightarrow> batch_op \<Rightarrow> 'h \<Rightarrow> 'h option" where
  "handle_op h (OpPut k v) st = HPut h k v st"
| "handle_op h (OpDelete k) st = HDelete h k st"

fun handle_ops :: "'h batch_handler \<Rightarrow> batch_op list \<Rightarrow> 'h \<Rightarrow> 'h option" where
  "handle_ops h [] st = Some st"
| "handle_ops h (op # ops) st = (case handle_op h op st of None \<Rightarrow> None | Some st \<Rightarrow> handle_ops h ops st)"

definition batch_rep :: "u64 \<Rightarrow> batch_op list \<Rightarrow> write_batch" where
  "batch_rep seq ops = EncodeFixed64 seq @ EncodeFixed32 (of_nat (length ops)) @ concat (map op_bytes ops)"

lemma batch_rep_parts [simp]:
  "Batch_Count (batch_rep seq ops) = of_nat (length ops)"
  "Batch_Sequence (batch_rep seq ops) = seq"
  "Batch_SetSequence (batch_rep seq ops) seq' = batch_rep seq' ops"
  "drop kHeader (batch_rep seq ops) = concat (map op_bytes ops)"
  by (simp_all add: batch_rep_def Batch_Count_def Batch_Sequence_def Batch_SetSequence_def kHeader_def)

lemma Batch_Clear_rep: "Batch_Clear = batch_rep 0 []"
  by (simp add: Batch_Clear_def batch_rep_def kHeader_def EncodeFixed32_def EncodeFixed64_def) (simp add: numeral_eq_Suc)

lemma SetCount_rep:
  "Batch_SetCount (batch_rep seq ops @ r) n =
     EncodeFixed64 seq @ EncodeFixed32 n @ concat (map op_bytes ops) @ r"
  by (simp add: batch_rep_def Batch_SetCount_def)

lemma batch_write_rep: "batch_write op (batch_rep seq ops) = batch_rep seq (ops @ [op])"
  using SetCount_rep [of seq ops "[]"]
  by (cases op)
    (simp_all add: Batch_Put_def Batch_Delete_def PutLengthPrefixedSlice_append Let_def,
     simp_all add: batch_rep_def add.commute)

lemma batch_writes_rep: "fold batch_write ops (batch_rep seq ops0) = batch_rep seq (ops0 @ ops)"
  by (induction ops arbitrary: ops0) (simp_all add: batch_write_rep)

lemma Batch_Append_rep: "Batch_Append (batch_rep seq ops) (batch_rep seq' ops') = batch_rep seq (ops @ ops')"
  using SetCount_rep [of seq ops "[]"] by (simp add: Batch_Append_def) (simp add: batch_rep_def)

text \<open>Playing back runs the operations in their order.\<close>

lemma iterate_loop_ops:
  "(\<And>op. op \<in> set ops \<Longrightarrow> op_fits op) \<Longrightarrow>
   iterate_loop h (concat (map op_bytes ops) @ r) found st =
     (case handle_ops h ops st of None \<Rightarrow> None | Some st \<Rightarrow> iterate_loop h r (found + of_nat (length ops)) st)"
proof (induction ops arbitrary: found st)
  case (Cons op ops)
  have fits: "op_fits op" using Cons.prems by simp
  show ?case
    using fits Cons.IH [OF Cons.prems]
    by (cases op) (auto simp: GetLengthPrefixedSlice_put type_tag_def add.assoc split: option.splits)
qed simp

lemma Batch_Iterate_rep:
  assumes "\<And>op. op \<in> set ops \<Longrightarrow> op_fits op"
  shows "Batch_Iterate h (batch_rep seq ops) st = map_option (Pair OK) (handle_ops h ops st)"
proof -
  have "kHeader \<le> length (batch_rep seq ops)" by (simp add: batch_rep_def kHeader_def)
  moreover have "iterate_loop h (concat (map op_bytes ops)) 0 st =
      (case handle_ops h ops st of None \<Rightarrow> None | Some st \<Rightarrow> Some (Inr (of_nat (length ops)), st))"
    using iterate_loop_ops [of ops h "[]" 0 st] assms by (simp split: option.split)
  ultimately show ?thesis by (simp add: Batch_Iterate_def split: option.split)
qed

text \<open>A handler that collects the operations.\<close>

definition recorder :: "batch_op list batch_handler" where
  "recorder = \<lparr>HPut = (\<lambda>k v ops. Some (ops @ [OpPut k v])), HDelete = (\<lambda>k ops. Some (ops @ [OpDelete k]))\<rparr>"

lemma recorder_ops: "handle_ops recorder ops st = Some (st @ ops)"
proof (induction ops arbitrary: st)
  case (Cons op ops)
  then show ?case by (cases op) (simp_all add: recorder_def)
qed simp


subsection \<open>Insertion into the memtable\<close>

fun op_key :: "batch_op \<Rightarrow> bytes" where
  "op_key (OpPut k v) = k"
| "op_key (OpDelete k) = k"

fun op_entry :: "batch_op \<Rightarrow> ValueType \<times> bytes" where
  "op_entry (OpPut k v) = (kTypeValue, v)"
| "op_entry (OpDelete k) = (kTypeDeletion, [])"

fun apply_batch :: "mem_map \<Rightarrow> u64 \<Rightarrow> batch_op list \<Rightarrow> mem_map" where
  "apply_batch M s [] = M"
| "apply_batch M s (op # ops) = apply_batch (M((op_key op, s) \<mapsto> op_entry op)) (s + 1) ops"

definition op_ok :: "(bytes \<Rightarrow> bool) \<Rightarrow> batch_op \<Rightarrow> bool" where
  "op_ok uvalid op \<longleftrightarrow> uvalid (op_key op) \<and> length (op_key op) + 8 < 2 ^ 32 \<and> length (snd (op_entry op)) < 2 ^ 32"

lemma op_ok_fits: "op_ok uvalid op \<Longrightarrow> op_fits op"
  by (cases op) (auto simp: op_ok_def)

text \<open>The last operation of the list on a key, and what a reader sees who sees all of them.\<close>

fun last_op :: "bytes \<Rightarrow> batch_op list \<Rightarrow> (ValueType \<times> bytes) option" where
  "last_op u [] = None"
| "last_op u (op # ops) =
     (case last_op u ops of Some e \<Rightarrow> Some e | None \<Rightarrow> if op_key op = u then Some (op_entry op) else None)"

lemma unat_Suc_word: "unat (s :: u64) < unat kMaxSequenceNumber \<Longrightarrow> unat (s + 1) = unat s + 1"
proof -
  assume "unat s < unat kMaxSequenceNumber"
  then have "unat s + 1 < 2 ^ 64" using unat_u64_less [of kMaxSequenceNumber] by linarith
  then show ?thesis by (simp add: unat_word_ariths(1))
qed

lemma mem_newest_cong: "(\<And>s. s \<le> seq \<Longrightarrow> M (u, s) = M' (u, s)) \<Longrightarrow> mem_newest M u seq = mem_newest M' u seq"
proof -
  assume eq: "\<And>s. s \<le> seq \<Longrightarrow> M (u, s) = M' (u, s)"
  then have S: "{s. s \<le> seq \<and> (u, s) \<in> dom M} = {s. s \<le> seq \<and> (u, s) \<in> dom M'}" (is "?S = ?S'") by auto
  show ?thesis
  proof (cases "?S' = {}")
    case True
    then show ?thesis unfolding mem_newest_def S Let_def by simp
  next
    case False
    then have "Max ?S' \<le> seq" using Max_in [of ?S'] by auto
    then show ?thesis using eq [of "Max ?S'"] unfolding mem_newest_def S Let_def if_not_P [OF False] by blast
  qed
qed

text \<open>All sequence numbers are below \<open>s\<close>.\<close>

definition mem_below :: "mem_map \<Rightarrow> u64 \<Rightarrow> bool" where
  "mem_below M s \<longleftrightarrow> (\<forall>(u, s') \<in> dom M. s' < s)"

lemma mem_belowD: "mem_below M s \<Longrightarrow> (u, s') \<in> dom M \<Longrightarrow> s' < s"
  by (auto simp: mem_below_def)

lemma mem_below_fresh: "mem_below M s \<Longrightarrow> M (u, s) = None"
  using mem_belowD [of M s u s] by auto

lemma mem_below_update:
  assumes "mem_below M s" "unat (s + 1) = unat s + 1"
  shows "mem_below (M((k, s) \<mapsto> e)) (s + 1)"
  unfolding mem_below_def
proof clarify
  fix u s' t v
  assume m: "(M((k, s) \<mapsto> e)) (u, s') = Some (t, v)"
  show "s' < s + 1"
  proof (cases "s' = s")
    case False
    then have "s' < s" using mem_belowD [OF assms(1), of u s'] m by auto
    then show ?thesis using assms(2) by (simp add: word_less_nat_alt)
  qed (use assms(2) in \<open>simp add: word_less_nat_alt\<close>)
qed

lemma apply_batch_old:
  "unat s + length ops \<le> unat kMaxSequenceNumber \<Longrightarrow> s' < s \<Longrightarrow> apply_batch M s ops (u, s') = M (u, s')"
proof (induction ops arbitrary: M s)
  case (Cons op ops)
  have "unat (s + 1) = unat s + 1" using Cons.prems by (intro unat_Suc_word) simp
  then have "s' < s + 1" "s < s + 1" "unat (s + 1) + length ops \<le> unat kMaxSequenceNumber"
    using Cons.prems by (simp_all add: word_less_nat_alt)
  moreover have "(M((op_key op, s) \<mapsto> op_entry op)) (u, s') = M (u, s')" using Cons.prems(2) by auto
  ultimately show ?case
    using Cons.IH [of "s + 1" "M((op_key op, s) \<mapsto> op_entry op)"] by (simp del: fun_upd_apply)
qed simp

lemma apply_batch_newest:
  assumes "unat s + length ops \<le> unat kMaxSequenceNumber" "mem_below M s"
    "unat s + length ops \<le> unat seq + 1"
  shows "mem_newest (apply_batch M s ops) u seq = (case last_op u ops of Some e \<Rightarrow> Some e | None \<Rightarrow> mem_newest M u seq)"
  using assms
proof (induction ops arbitrary: M s)
  case (Cons op ops)
  let ?M = "M((op_key op, s) \<mapsto> op_entry op)"
  have s: "unat (s + 1) = unat s + 1" using Cons.prems(1) by (intro unat_Suc_word) simp
  have old: "mem_below ?M (s + 1)" by (rule mem_below_update [OF Cons.prems(2) s])
  have IH: "mem_newest (apply_batch ?M (s + 1) ops) u seq = (case last_op u ops of Some e \<Rightarrow> Some e | None \<Rightarrow> mem_newest ?M u seq)"
    by (rule Cons.IH [OF _ old]) (use Cons.prems(1,3) s in simp_all)
  have m: "mem_newest ?M u seq = (if op_key op = u then Some (op_entry op) else mem_newest M u seq)"
  proof (cases "op_key op = u")
    case True
    have "s \<le> seq" using Cons.prems(3) by (simp add: word_le_nat_alt)
    then have "mem_newest ?M u seq = Some (op_entry op)"
      by (intro mem_newest_first [where s = s]) (auto simp: True dest!: mem_belowD [OF Cons.prems(2), OF domI])
    then show ?thesis using True by simp
  next
    case False
    then have "mem_newest ?M u seq = mem_newest M u seq" by (intro mem_newest_cong) auto
    then show ?thesis using False by simp
  qed
  show ?case unfolding apply_batch.simps last_op.simps IH m by (simp split: option.split)
qed simp

context comparator
begin

lemma InsertInto_ops:
  assumes "mem_holds compare valid table M" "\<And>op. op \<in> set ops \<Longrightarrow> op_ok valid op"
    "unat s + length ops \<le> unat kMaxSequenceNumber" "mem_below M s"
  shows "\<exists>table'. handle_ops (MemTableInserter compare) ops (s, table) = Some (s + of_nat (length ops), table') \<and>
    mem_holds compare valid table' (apply_batch M s ops)"
  using assms
proof (induction ops arbitrary: M s table)
  case (Cons op ops)
  let ?M = "M((op_key op, s) \<mapsto> op_entry op)"
  have s: "unat (s + 1) = unat s + 1" using Cons.prems(3) by (intro unat_Suc_word) simp
  have "mem_fits valid (op_key op) s (snd (op_entry op))"
    using Cons.prems(2) [of op] Cons.prems(3) by (simp add: mem_fits_def op_ok_def word_le_nat_alt)
  moreover have "M (op_key op, s) = None" using Cons.prems(4) by (rule mem_below_fresh)
  ultimately obtain table1 where add: "MemTable_Add compare s (fst (op_entry op)) (op_key op) (snd (op_entry op)) table = Some table1"
    "mem_holds compare valid table1 ?M"
    using MemTable_Add_holds [OF Cons.prems(1), of "op_key op" s "snd (op_entry op)" "fst (op_entry op)"] by auto
  have old: "mem_below ?M (s + 1)" by (rule mem_below_update [OF Cons.prems(4) s])
  obtain table' where "handle_ops (MemTableInserter compare) ops (s + 1, table1) = Some (s + 1 + of_nat (length ops), table')"
    "mem_holds compare valid table' (apply_batch ?M (s + 1) ops)"
    using Cons.IH [OF add(2) _ _ old] Cons.prems(2,3) s by (auto simp del: fun_upd_apply)
  moreover have "handle_op (MemTableInserter compare) op (s, table) = Some (s + 1, table1)"
    using add(1) by (cases op) (simp_all add: MemTableInserter_def)
  ultimately show ?case by (simp add: add.assoc)
qed simp

text \<open>A batch that is inserted behind everything the memtable holds: its last operation on a key
  is what a reader finds.\<close>

lemma InsertInto_Get:
  assumes "mem_holds compare valid table M" "\<And>op. op \<in> set ops \<Longrightarrow> op_ok valid op"
    "unat s + length ops \<le> unat kMaxSequenceNumber" "mem_below M s"
  shows "\<exists>table'. Batch_InsertInto compare (batch_rep s ops) table = Some (OK, table') \<and>
    mem_holds compare valid table' (apply_batch M s ops)"
proof -
  obtain table' where "handle_ops (MemTableInserter compare) ops (s, table) = Some (s + of_nat (length ops), table')"
    "mem_holds compare valid table' (apply_batch M s ops)"
    using InsertInto_ops [of table M ops s] assms by blast
  then show ?thesis
    using Batch_Iterate_rep [OF op_ok_fits, OF assms(2), of ops "MemTableInserter compare" s "(s, table)"]
    by (simp add: Batch_InsertInto_def)
qed

end

subsection \<open>Truncated batches\<close>

lemma get_varint32_loop_extend:
  "get_varint32_loop s r p = Some (v, q) \<Longrightarrow> get_varint32_loop s r (p @ e) = Some (v, q @ e)"
  by (induction s r p rule: get_varint32_loop.induct) (auto simp: Let_def split: if_splits)

lemma GetLengthPrefixedSlice_extend:
  assumes "GetLengthPrefixedSlice p = Some (x, q)"
  shows "GetLengthPrefixedSlice (p @ e) = Some (x, q @ e)"
proof -
  obtain len r where "get_varint32_loop 0 0 p = Some (len, r)" "unat len \<le> length r" "x = take (unat len) r" "q = drop (unat len) r"
    using assms by (auto simp: GetLengthPrefixedSlice_def GetVarint32_def GetVarint32Ptr_loop split: option.splits if_splits)
  then show ?thesis
    using get_varint32_loop_extend [of 0 0 p len r e]
    by (simp add: GetLengthPrefixedSlice_def GetVarint32_def GetVarint32Ptr_loop)
qed

lemma prefixed_cases:
  assumes "p @ e = length_prefixed x @ r" "length x < 2 ^ 32"
  obtains "GetLengthPrefixedSlice p = None"
  | q where "GetLengthPrefixedSlice p = Some (x, q)" "q @ e = r"
proof (cases "GetLengthPrefixedSlice p")
  case (Some yq)
  obtain y q where yq: "yq = (y, q)" by (cases yq)
  have "Some (y, q @ e) = Some (x, r)"
    using GetLengthPrefixedSlice_extend [OF Some [unfolded yq], of e] GetLengthPrefixedSlice_put [OF assms(2), of r]
    unfolding assms(1) by simp
  then show ?thesis using that(2) Some yq by simp
qed (rule that(1))

text \<open>A handler whose calls return.\<close>

definition total_handler :: "'h batch_handler \<Rightarrow> bool" where
  "total_handler h \<longleftrightarrow> (\<forall>op st. handle_op h op st \<noteq> None)"

definition loop_fails :: "nat \<Rightarrow> u32 \<Rightarrow> Status + u32 \<Rightarrow> bool" where
  "loop_fails n found r = (case r of Inl e \<Rightarrow> code e = kCorruption | Inr f \<Rightarrow> \<exists>k < n. f = found + of_nat k)"

lemma loop_fails_corruption [simp]: "loop_fails n found (Inl (Corruption m m2))"
  by (simp add: loop_fails_def Corruption_def)

lemma loop_fails_Suc: "loop_fails n (found + 1) r \<Longrightarrow> loop_fails (Suc n) found r"
proof (cases r)
  case (Inr f)
  assume "loop_fails n (found + 1) r"
  then obtain k where "k < n" "f = found + 1 + of_nat k" using Inr by (auto simp: loop_fails_def)
  then show ?thesis using Inr by (auto simp: loop_fails_def intro!: exI [of _ "Suc k"])
qed (simp add: loop_fails_def)

lemma iterate_loop_truncated:
  assumes "p @ e = concat (map op_bytes ops)" "e \<noteq> []" "\<And>op. op \<in> set ops \<Longrightarrow> op_fits op" "total_handler h"
  shows "\<exists>r st'. iterate_loop h p found st = Some (r, st') \<and> loop_fails (length ops) found r"
  using assms
proof (induction ops arbitrary: p found st)
  case (Cons op ops)
  have fits: "op_fits op" using Cons.prems(3) by simp
  have IH: "\<exists>r st'. iterate_loop h q (found + 1) st = Some (r, st') \<and> loop_fails (Suc (length ops)) found r"
    if "q @ e = concat (map op_bytes ops)" for q st
    using Cons.IH [OF that Cons.prems(2) _ Cons.prems(4), of "found + 1" st] Cons.prems(3) loop_fails_Suc by fastforce
  have total: "\<exists>st'. handle_op h op st = Some st'" using Cons.prems(4) by (auto simp: total_handler_def)
  show ?case
  proof (cases p)
    case Nil
    then show ?thesis by (auto simp: loop_fails_def intro!: exI [of _ 0])
  next
    case p: (Cons b p')
    show ?thesis
    proof (cases op)
      case (OpPut k v)
      have b: "b = type_tag kTypeValue" "p' @ e = length_prefixed k @ length_prefixed v @ concat (map op_bytes ops)"
        and l: "length k < 2 ^ 32" "length v < 2 ^ 32"
        using Cons.prems(1) p OpPut fits by simp_all
      show ?thesis
      proof (cases rule: prefixed_cases [OF b(2) l(1)])
        case 1
        then show ?thesis using p b(1) by simp
      next
        case (2 q)
        show ?thesis
          by (cases rule: prefixed_cases [OF 2(2) l(2)]) (use p b(1) 2(1) total IH OpPut in auto)
      qed
    next
      case (OpDelete k)
      have b: "b = type_tag kTypeDeletion" "p' @ e = length_prefixed k @ concat (map op_bytes ops)"
        and l: "length k < 2 ^ 32"
        using Cons.prems(1) p OpDelete fits by simp_all
      show ?thesis
        by (cases rule: prefixed_cases [OF b(2) l]) (use p b(1) total IH OpDelete in \<open>auto simp: type_tag_def\<close>)
    qed
  qed
qed simp

lemma Batch_Iterate_truncated:
  assumes "n < length (batch_rep seq ops)" "\<And>op. op \<in> set ops \<Longrightarrow> op_fits op" "length ops < 2 ^ 32" "total_handler h"
  shows "\<exists>e st'. Batch_Iterate h (take n (batch_rep seq ops)) st = Some (e, st') \<and> IsCorruption e"
proof (cases "n < kHeader")
  case True
  then have "length (take n (batch_rep seq ops)) < kHeader" by (simp add: min_less_iff_disj)
  then show ?thesis unfolding Batch_Iterate_def by (simp add: IsCorruption_def Corruption_def)
next
  case False
  let ?b = "take n (batch_rep seq ops)"
  have n: "12 \<le> n" using False by (simp add: kHeader_def)
  have len: "length ?b = n" using assms(1) by simp
  have d: "drop kHeader ?b = take (n - 12) (concat (map op_bytes ops))"
    using n by (simp add: batch_rep_def kHeader_def)
  have "drop (n - 12) (concat (map op_bytes ops)) \<noteq> []" using assms(1) n by (simp add: batch_rep_def)
  then obtain r st' where r: "iterate_loop h (drop kHeader ?b) 0 st = Some (r, st')" "loop_fails (length ops) 0 r"
    using iterate_loop_truncated [of "drop kHeader ?b" "drop (n - 12) (concat (map op_bytes ops))" ops h 0 st] assms(2,4) d
    by auto
  have "drop 8 ?b = EncodeFixed32 (of_nat (length ops)) @ take (n - 12) (concat (map op_bytes ops))"
    using n by (simp add: batch_rep_def)
  then have c: "Batch_Count ?b = of_nat (length ops)" by (simp add: Batch_Count_def)
  have "of_nat k \<noteq> (of_nat (length ops) :: u32)" if "k < length ops" for k
  proof
    assume "of_nat k = (of_nat (length ops) :: u32)"
    then have "unat (of_nat k :: u32) = unat (of_nat (length ops) :: u32)" by simp
    then show False using that assms(3) by (simp only: unat_of_nat_32)
  qed
  then show ?thesis
    using r False len c by (auto simp: Batch_Iterate_def IsCorruption_def Corruption_def loop_fails_def split: sum.splits)
qed

end
