(* ===== verification/LdbArena.thy ===== *)
theory LdbArena
  imports Prelude
begin

text \<open>
  The arena (util/arena.cc, util/arena.h) the memtable takes its buffers and nodes from: it hands
  out consecutive pieces of blocks and never frees one. Addresses are natural numbers; what
  \<open>new char[n]\<close> answers is an argument of every operation that may call it.
\<close>

record arena =
  alloc_ptr :: nat
  alloc_bytes_remaining :: nat
  blocks :: "nat list"
  memory_usage :: nat

definition kArenaBlockSize :: nat where "kArenaBlockSize = 4096"

definition new_Arena :: arena where
  "new_Arena = \<lparr>alloc_ptr = 0, alloc_bytes_remaining = 0, blocks = [], memory_usage = 0\<rparr>"

definition Arena_MemoryUsage :: "arena \<Rightarrow> nat" where "Arena_MemoryUsage a = memory_usage a"

definition AllocateNewBlock :: "nat \<Rightarrow> nat \<Rightarrow> arena \<Rightarrow> nat \<times> arena" where
  "AllocateNewBlock new block_bytes a =
     (new, a\<lparr>blocks := blocks a @ [new], memory_usage := memory_usage a + (block_bytes + 8)\<rparr>)"

definition AllocateFallback :: "nat \<Rightarrow> nat \<Rightarrow> arena \<Rightarrow> nat \<times> arena" where
  "AllocateFallback new bytes a =
     (if bytes > kArenaBlockSize div 4 then AllocateNewBlock new bytes a
      else
        let (p, a) = AllocateNewBlock new kArenaBlockSize a
        in (p, a\<lparr>alloc_ptr := p + bytes, alloc_bytes_remaining := kArenaBlockSize - bytes\<rparr>))"

definition Allocate :: "nat \<Rightarrow> nat \<Rightarrow> arena \<Rightarrow> nat \<times> arena" where
  "Allocate new bytes a =
     (if bytes \<le> alloc_bytes_remaining a
      then (alloc_ptr a,
        a\<lparr>alloc_ptr := alloc_ptr a + bytes, alloc_bytes_remaining := alloc_bytes_remaining a - bytes\<rparr>)
      else AllocateFallback new bytes a)"

text \<open>The sum \<open>needed\<close> is a \<open>size_t\<close>.\<close>

definition AllocateAligned :: "nat \<Rightarrow> nat \<Rightarrow> arena \<Rightarrow> nat \<times> arena" where
  "AllocateAligned new bytes a =
     (let align = 8;
          current_mod = alloc_ptr a mod align;
          slop = (if current_mod = 0 then 0 else align - current_mod);
          needed = (bytes + slop) mod 2 ^ 64
      in if needed \<le> alloc_bytes_remaining a
         then (alloc_ptr a + slop,
           a\<lparr>alloc_ptr := alloc_ptr a + needed, alloc_bytes_remaining := alloc_bytes_remaining a - needed\<rparr>)
         else AllocateFallback new bytes a)"

subsection \<open>What the arena keeps\<close>

text \<open>Pieces of memory: their address and their size.\<close>

type_synonym piece = "nat \<times> nat"

definition piece_set :: "piece \<Rightarrow> nat set" where
  "piece_set p = {fst p ..< fst p + snd p}"

definition separate :: "piece list \<Rightarrow> bool" where
  "separate ps \<longleftrightarrow> sorted_wrt (\<lambda>p q. piece_set p \<inter> piece_set q = {}) ps"

definition pieces_set :: "piece list \<Rightarrow> nat set" where
  "pieces_set ps = (\<Union>p \<in> set ps. piece_set p)"

text \<open>\<open>B\<close> are the blocks with their sizes, \<open>U\<close> what has been handed out: pieces of blocks that do
  not overlap, nor the piece that is still free; every block is counted with its pointer.\<close>

definition arena_wf :: "arena \<Rightarrow> piece list \<Rightarrow> piece list \<Rightarrow> bool" where
  "arena_wf a B U \<longleftrightarrow>
     map fst B = blocks a \<and> memory_usage a = sum_list (map (\<lambda>b. snd b + 8) B) \<and>
     separate ((alloc_ptr a, alloc_bytes_remaining a) # U) \<and>
     (\<forall>p \<in> set ((alloc_ptr a, alloc_bytes_remaining a) # U). piece_set p \<subseteq> pieces_set B) \<and>
     alloc_bytes_remaining a \<le> kArenaBlockSize"

text \<open>The memory that \<open>new\<close> returns is aligned and not in use.\<close>

definition fresh_block :: "nat \<Rightarrow> nat \<Rightarrow> piece list \<Rightarrow> bool" where
  "fresh_block new n B \<longleftrightarrow> 8 dvd new \<and> piece_set (new, n) \<inter> pieces_set B = {}"

definition block_bytes_for :: "nat \<Rightarrow> nat" where
  "block_bytes_for bytes = (if bytes > kArenaBlockSize div 4 then bytes else kArenaBlockSize)"

lemma pieces_set_simps [simp]: "pieces_set [] = {}" "pieces_set (p # ps) = piece_set p \<union> pieces_set ps"
  "pieces_set (ps @ qs) = pieces_set ps \<union> pieces_set qs"
  by (auto simp: pieces_set_def)

lemma separate_Cons: "separate (p # ps) \<longleftrightarrow> piece_set p \<inter> pieces_set ps = {} \<and> separate ps"
  by (auto simp: separate_def pieces_set_def)

lemma new_Arena_wf: "arena_wf new_Arena [] []"
  by (simp add: arena_wf_def new_Arena_def separate_def piece_set_def)

lemma arena_wf_used: "arena_wf a B U \<Longrightarrow> pieces_set U \<subseteq> pieces_set B"
  by (auto simp: arena_wf_def pieces_set_def)

text \<open>Taking a piece of the free memory.\<close>

lemma take_piece_wf:
  assumes "arena_wf a B U" "slop + bytes \<le> alloc_bytes_remaining a"
  shows "arena_wf (a\<lparr>alloc_ptr := alloc_ptr a + (slop + bytes), alloc_bytes_remaining := alloc_bytes_remaining a - (slop + bytes)\<rparr>)
    B ((alloc_ptr a + slop, bytes) # U)"
proof -
  let ?free = "(alloc_ptr a, alloc_bytes_remaining a)"
    and ?new = "(alloc_ptr a + slop, bytes)"
    and ?left = "(alloc_ptr a + (slop + bytes), alloc_bytes_remaining a - (slop + bytes))"
  have parts: "piece_set ?new \<subseteq> piece_set ?free" "piece_set ?left \<subseteq> piece_set ?free" "piece_set ?left \<inter> piece_set ?new = {}"
    using assms(2) by (auto simp: piece_set_def)
  then have "separate (?left # ?new # U)"
    using assms(1) unfolding arena_wf_def separate_Cons pieces_set_simps by blast
  then show ?thesis using assms parts unfolding arena_wf_def by auto
qed

lemma AllocateFallback_wf:
  assumes "arena_wf a B U" "fresh_block new (block_bytes_for bytes) B" "AllocateFallback new bytes a = (p, a')"
  shows "p = new \<and> arena_wf a' (B @ [(new, block_bytes_for bytes)]) ((p, bytes) # U)"
proof (cases "bytes > kArenaBlockSize div 4")
  case True
  then have a': "p = new" "a' = a\<lparr>blocks := blocks a @ [new], memory_usage := memory_usage a + (bytes + 8)\<rparr>"
    using assms(3) by (auto simp: AllocateFallback_def AllocateNewBlock_def)
  have "piece_set (new, bytes) \<inter> pieces_set B = {}" using assms(2) True by (simp add: fresh_block_def block_bytes_for_def)
  moreover have "piece_set (alloc_ptr a, alloc_bytes_remaining a) \<subseteq> pieces_set B" using assms(1) by (simp add: arena_wf_def)
  ultimately have "separate ((alloc_ptr a, alloc_bytes_remaining a) # (new, bytes) # U)"
    using assms(1) arena_wf_used [OF assms(1)] unfolding arena_wf_def separate_Cons pieces_set_simps by blast
  then show ?thesis using assms(1) True a' by (auto simp: arena_wf_def block_bytes_for_def)
next
  case False
  let ?left = "(new + bytes, kArenaBlockSize - bytes)"
  have a': "p = new" "a' = a\<lparr>blocks := blocks a @ [new], memory_usage := memory_usage a + (kArenaBlockSize + 8),
      alloc_ptr := new + bytes, alloc_bytes_remaining := kArenaBlockSize - bytes\<rparr>"
    using assms(3) False by (auto simp: AllocateFallback_def AllocateNewBlock_def)
  have fresh: "piece_set (new, kArenaBlockSize) \<inter> pieces_set B = {}"
    using assms(2) False by (simp add: fresh_block_def block_bytes_for_def)
  have parts: "piece_set (new, bytes) \<subseteq> piece_set (new, kArenaBlockSize)" "piece_set ?left \<subseteq> piece_set (new, kArenaBlockSize)"
    "piece_set ?left \<inter> piece_set (new, bytes) = {}"
    using False by (auto simp: piece_set_def kArenaBlockSize_def)
  have "separate (?left # (new, bytes) # U)"
    using assms(1) arena_wf_used [OF assms(1)] fresh parts unfolding arena_wf_def separate_Cons pieces_set_simps by blast
  then show ?thesis using assms(1) False a' parts by (auto simp: arena_wf_def block_bytes_for_def)
qed

text \<open>Every operation hands out memory of its own, from the blocks the arena had or a new one.\<close>

lemma Allocate_wf:
  assumes "arena_wf a B U" "fresh_block new (block_bytes_for bytes) B" "Allocate new bytes a = (p, a')"
  shows "\<exists>B'. arena_wf a' B' ((p, bytes) # U) \<and> (B' = B \<or> B' = B @ [(new, block_bytes_for bytes)])"
proof (cases "bytes \<le> alloc_bytes_remaining a")
  case True
  then show ?thesis using take_piece_wf [OF assms(1), of 0 bytes] assms(3) by (auto simp: Allocate_def)
next
  case False
  then show ?thesis using AllocateFallback_wf [OF assms(1,2)] assms(3) by (auto simp: Allocate_def)
qed

lemma slop_aligns: "8 dvd x + (if x mod 8 = 0 then 0 else 8 - x mod 8)" for x :: nat
  by presburger

lemma AllocateAligned_wf:
  assumes "arena_wf a B U" "fresh_block new (block_bytes_for bytes) B" "bytes < 2 ^ 63" "AllocateAligned new bytes a = (p, a')"
  shows "8 dvd p \<and> (\<exists>B'. arena_wf a' B' ((p, bytes) # U) \<and> (B' = B \<or> B' = B @ [(new, block_bytes_for bytes)]))"
proof -
  define slop where "slop = (if alloc_ptr a mod 8 = 0 then 0 else 8 - alloc_ptr a mod 8)"
  have "slop \<le> 8" by (simp add: slop_def)
  then have n: "(bytes + slop) mod 2 ^ 64 = slop + bytes" using assms(3) by (simp add: add.commute)
  show ?thesis
  proof (cases "slop + bytes \<le> alloc_bytes_remaining a")
    case True
    then have "p = alloc_ptr a + slop" "a' = a\<lparr>alloc_ptr := alloc_ptr a + (slop + bytes),
        alloc_bytes_remaining := alloc_bytes_remaining a - (slop + bytes)\<rparr>"
      using assms(4) unfolding AllocateAligned_def Let_def slop_def [symmetric] n by simp_all
    then show ?thesis using take_piece_wf [OF assms(1) True] slop_aligns [of "alloc_ptr a"] by (auto simp: slop_def)
  next
    case False
    then have f: "AllocateFallback new bytes a = (p, a')"
      using assms(4) unfolding AllocateAligned_def Let_def slop_def [symmetric] n by simp
    then show ?thesis using AllocateFallback_wf [OF assms(1,2) f] assms(2) by (auto simp: fresh_block_def)
  qed
qed

subsection \<open>Sequences of requests\<close>

text \<open>A request: whether it is for aligned memory, its size, and what \<open>new\<close> answers should it be
  called. The result are the pieces, the last one first.\<close>

type_synonym request = "bool \<times> nat \<times> nat"

fun arena_run :: "request list \<Rightarrow> arena \<Rightarrow> piece list \<Rightarrow> piece list \<times> arena" where
  "arena_run [] a U = (U, a)"
| "arena_run ((aligned, bytes, new) # rs) a U =
     (let (p, a) = (if aligned then AllocateAligned new bytes a else Allocate new bytes a)
      in arena_run rs a ((p, bytes) # U))"

definition request_block :: "request \<Rightarrow> piece" where
  "request_block r = (case r of (_, bytes, new) \<Rightarrow> (new, block_bytes_for bytes))"

definition good_request :: "request \<Rightarrow> bool" where
  "good_request r \<longleftrightarrow> (case r of (_, bytes, new) \<Rightarrow> 8 dvd new \<and> bytes < 2 ^ 63)"

lemma arena_run_wf:
  assumes "arena_wf a B U" "separate (map request_block rs)" "pieces_set (map request_block rs) \<inter> pieces_set B = {}"
    "\<And>r. r \<in> set rs \<Longrightarrow> good_request r" "arena_run rs a U = (U', a')"
  shows "\<exists>B' V. arena_wf a' B' U' \<and> U' = V @ U \<and>
    list_all2 (\<lambda>r p. snd p = fst (snd r) \<and> (fst r \<longrightarrow> 8 dvd fst p)) rs (rev V)"
  using assms
proof (induction rs arbitrary: a B U)
  case Nil
  then show ?case by auto
next
  case (Cons r rs)
  obtain aligned bytes new where r: "r = (aligned, bytes, new)" by (cases r)
  have rb: "request_block r = (new, block_bytes_for bytes)" by (simp add: r request_block_def)
  obtain p a1 where step: "(if aligned then AllocateAligned new bytes a else Allocate new bytes a) = (p, a1)"
    by (metis surj_pair)
  have fresh: "fresh_block new (block_bytes_for bytes) B" and small: "bytes < 2 ^ 63"
    using Cons.prems(3) Cons.prems(4) [of r] r by (auto simp: fresh_block_def request_block_def good_request_def)
  obtain B1 where B1: "arena_wf a1 B1 ((p, bytes) # U)" "B1 = B \<or> B1 = B @ [(new, block_bytes_for bytes)]" "aligned \<longrightarrow> 8 dvd p"
    using Allocate_wf [OF Cons.prems(1) fresh, of p a1] AllocateAligned_wf [OF Cons.prems(1) fresh small, of p a1] step
    by (auto split: if_splits)
  have "pieces_set (map request_block rs) \<inter> pieces_set B1 = {}"
    using B1(2) Cons.prems(2,3) rb by (auto simp: separate_Cons)
  moreover have "separate (map request_block rs)" using Cons.prems(2) by (simp add: separate_Cons)
  moreover have "arena_run rs a1 ((p, bytes) # U) = (U', a')" using Cons.prems(5) r step by simp
  ultimately obtain B' V where "arena_wf a' B' U'" "U' = V @ (p, bytes) # U"
    "list_all2 (\<lambda>r p. snd p = fst (snd r) \<and> (fst r \<longrightarrow> 8 dvd fst p)) rs (rev V)"
    using Cons.IH [OF B1(1)] Cons.prems(4) by auto
  then show ?case using B1(3) r by (intro exI [of _ B'] exI [of _ "V @ [(p, bytes)]"]) simp
qed

end
