(* ===== verification/LdbMemTheorems.thy ===== *)
theory LdbMemTheorems
  imports LdbFilter LdbBatch LdbArena
begin

text \<open>
  The properties of what LevelDB keeps in memory and of the filters of its tables: the skip list,
  the memtable and its arena, write batches, and the filter block with bloom filters.
\<close>

section \<open>The skip list\<close>



section \<open>Memtable and write batches\<close>

text \<open>C31: A batch that is written behind everything a memtable holds goes in completely. A reader that
  sees all of it then finds, for every user key, the last operation of the batch on that key - the
  value of a put, not found for a deletion - or what was there before; a reader at an older sequence
  number finds exactly what it found before.\<close>

theorem memtable_get_latest:
  assumes "mem_holds BytewiseCompare (\<lambda>_. True) table M" "mem_below M s" "list_all (op_ok (\<lambda>_. True)) ops"
    "unat s + length ops \<le> unat kMaxSequenceNumber"
  shows "\<exists>table'. Batch_InsertInto BytewiseCompare (Batch_SetSequence (fold batch_write ops Batch_Clear) s) table = Some (OK, table') \<and>
    mem_holds BytewiseCompare (\<lambda>_. True) table' (apply_batch M s ops) \<and>
    (\<forall>u seq value st. length u + 8 < 2 ^ 32 \<and> seq \<le> kMaxSequenceNumber \<longrightarrow>
       (unat s + length ops \<le> unat seq + 1 \<longrightarrow>
         MemTable_Get BytewiseCompare (new_LookupKey u seq) value st table' =
           Some (mem_result (case last_op u ops of Some e \<Rightarrow> Some e | None \<Rightarrow> mem_newest M u seq) value st)) \<and>
       (seq < s \<longrightarrow> MemTable_Get BytewiseCompare (new_LookupKey u seq) value st table' =
         MemTable_Get BytewiseCompare (new_LookupKey u seq) value st table))"
proof -
  obtain table' where t: "Batch_InsertInto BytewiseCompare (batch_rep s ops) table = Some (OK, table')"
    "mem_holds BytewiseCompare (\<lambda>_. True) table' (apply_batch M s ops)"
    using bytewise.InsertInto_Get [of table M ops s] assms by (auto simp: list_all_iff)
  have "Batch_SetSequence (fold batch_write ops Batch_Clear) s = batch_rep s ops"
    by (simp add: Batch_Clear_rep batch_writes_rep)
  moreover have "mem_newest (apply_batch M s ops) u seq = mem_newest M u seq" if "seq < s" for u seq
    using that apply_batch_old [OF assms(4)] by (intro mem_newest_cong) simp
  ultimately show ?thesis
    using t bytewise.MemTable_Get_newest [OF t(2)] bytewise.MemTable_Get_newest [OF assms(1)]
      apply_batch_newest [OF assms(4,2)]
    by (intro exI [of _ table']) simp
qed

theorem memtable_get_latest_witness:
  "\<exists>table. Batch_InsertInto BytewiseCompare
       (Batch_SetSequence (fold batch_write [OpPut [1] [10], OpPut [2] [20], OpDelete [1]] Batch_Clear) 5) new_MemTable = Some (OK, table) \<and>
     MemTable_Get BytewiseCompare (new_LookupKey [2] 7) [] OK table = Some (True, [20], OK) \<and>
     MemTable_Get BytewiseCompare (new_LookupKey [1] 7) [] OK table = Some (True, [], NotFound [] []) \<and>
     MemTable_Get BytewiseCompare (new_LookupKey [3] 7) [] OK table = Some (False, [], OK)"
proof -
  let ?ops = "[OpPut [1] [10], OpPut [2] [20], OpDelete [1]]"
  have below: "mem_below Map.empty 5" by (simp add: mem_below_def)
  have ok: "list_all (op_ok (\<lambda>_. True)) ?ops" by (simp add: op_ok_def)
  have max: "unat (5 :: u64) + length ?ops \<le> unat kMaxSequenceNumber" by (simp add: kMaxSequenceNumber_def)
  have seq: "(7 :: u64) \<le> kMaxSequenceNumber" by (simp add: kMaxSequenceNumber_def)
  show ?thesis
    using memtable_get_latest [OF new_MemTable_holds below ok max] seq
    by (elim exE conjE) (auto simp: mem_result_def mem_newest_def)
qed

text \<open>C33: The bytes of a batch give back its operations in the order they were added, for batches
  that are built up and for batches that are appended to each other, and the counts add up; a batch
  that was cut short anywhere is reported as corrupt, whatever the handler.\<close>

theorem write_batch_round_trip:
  assumes "list_all op_fits (ops @ ops')" "length (ops @ ops') < 2 ^ 32" "total_handler h"
  defines "b \<equiv> Batch_Append (fold batch_write ops Batch_Clear) (fold batch_write ops' Batch_Clear)"
  shows "b = fold batch_write (ops @ ops') Batch_Clear \<and> unat (Batch_Count b) = length (ops @ ops') \<and>
    Batch_Iterate recorder b [] = Some (OK, ops @ ops') \<and>
    (\<forall>n < length b. \<exists>e st'. Batch_Iterate h (take n b) st = Some (e, st') \<and> IsCorruption e)"
proof -
  have b: "b = batch_rep 0 (ops @ ops')"
    unfolding b_def Batch_Clear_rep batch_writes_rep by (simp add: Batch_Append_rep)
  show ?thesis
    using Batch_Iterate_rep [of "ops @ ops'" recorder 0 "[]"] Batch_Iterate_truncated [of _ 0 "ops @ ops'" h st] assms(1,3)
      unat_of_nat_32 [OF assms(2)] assms(2)
    unfolding b by (simp add: Batch_Clear_rep batch_writes_rep recorder_ops list_all_iff)
qed

theorem write_batch_round_trip_witness:
  "Batch_Iterate recorder (Batch_Append (Batch_Put [1] [2, 3] Batch_Clear) (Batch_Delete [4] Batch_Clear)) [] =
     Some (OK, [OpPut [1] [2, 3], OpDelete [4]])"
proof -
  have "handle_op recorder op st \<noteq> None" for op st by (cases op) (simp_all add: recorder_def)
  then have "total_handler recorder" by (simp add: total_handler_def)
  then have "Batch_Iterate recorder (Batch_Append (fold batch_write [OpPut [1] [2, 3]] Batch_Clear)
      (fold batch_write [OpDelete [4]] Batch_Clear)) [] = Some (OK, [OpPut [1] [2, 3]] @ [OpDelete [4]])"
    by (intro write_batch_round_trip [THEN conjunct2, THEN conjunct2, THEN conjunct1]) simp_all
  then show ?thesis by simp
qed

section \<open>The arena\<close>

text \<open>C35: Whatever is asked of an arena, every request gets as many bytes as it asked for, inside the
  blocks the arena has allocated, aligned to 8 where that was asked for, and no two requests get
  the same byte.\<close>

theorem arena_pieces:
  assumes "separate (map request_block rs)" "\<And>r. r \<in> set rs \<Longrightarrow> good_request r" "arena_run rs new_Arena [] = (U, a)"
  shows "separate U \<and> list_all2 (\<lambda>r p. snd p = fst (snd r) \<and> (fst r \<longrightarrow> 8 dvd fst p)) rs (rev U) \<and>
    (\<exists>B. map fst B = blocks a \<and> pieces_set U \<subseteq> pieces_set B \<and> Arena_MemoryUsage a = sum_list (map (\<lambda>b. snd b + 8) B))"
proof -
  obtain B where B: "arena_wf a B U" "list_all2 (\<lambda>r p. snd p = fst (snd r) \<and> (fst r \<longrightarrow> 8 dvd fst p)) rs (rev U)"
    using arena_run_wf [OF new_Arena_wf assms(1) _ assms(2,3)] by auto
  then show ?thesis
    using arena_wf_used [OF B(1)] by (auto simp: arena_wf_def separate_Cons Arena_MemoryUsage_def)
qed

theorem arena_pieces_witness:
  "separate (fst (arena_run [(False, 10, 8192), (True, 16, 65536), (False, 2000, 16384)] new_Arena []))"
  by (rule arena_pieces [THEN conjunct1, of "[(False, 10, 8192), (True, 16, 65536), (False, 2000, 16384)]",
      OF _ _ prod.collapse [symmetric]])
    (auto simp: separate_def request_block_def piece_set_def block_bytes_for_def kArenaBlockSize_def good_request_def)

section \<open>Filters\<close>

text \<open>C34: A filter block never denies a key that was added: whatever keys were added for whatever
  ascending block offsets, for any number of bits per key, a reader of the finished block says for
  each key that it may be in the block with its offset.\<close>

theorem filter_block_no_false_negative:
  fixes n :: nat
  assumes "ascending es 0" "(off, k) \<in> set (keys_of es 0)" "off < 2 ^ 64"
  defines "pol \<equiv> InternalFilterPolicy (BloomPolicy n)"
  defines "contents \<equiv> fst (FilterFinish pol (filter_run pol es new_FilterBlockBuilder))"
  assumes "length contents < 2 ^ 32"
  shows "FilterKeyMayMatch pol (new_FilterBlockReader contents) (of_nat off) k"
  using internal_bloom.filter_block_complete [OF assms(1) _ assms(2,3), of n] assms(6)
  by (simp add: pol_def contents_def)

theorem filter_block_no_false_negative_witness:
  defines "pol \<equiv> InternalFilterPolicy (BloomPolicy 10)"
    and "k \<equiv> encode_key [1, 2] 3 kTypeValue"
  shows "FilterKeyMayMatch pol (new_FilterBlockReader (fst (FilterFinish pol (filter_run pol [Block 0, Key k] new_FilterBlockBuilder)))) 0 k"
proof -
  have "length (fst (FilterFinish pol (filter_run pol [Block 0, Key k] new_FilterBlockBuilder))) = 18"
    by (simp add: pol_def FilterFinish_def GenerateFilter_def StartBlock_def AddKey_def new_FilterBlockBuilder_def
        InternalFilterPolicy_def BloomPolicy_def BloomCreateFilter_def bloom_bytes_def new_BloomFilterPolicy_def
        PutFixed32_def Let_def generate_until.simps [of _ 0])
  then show ?thesis
    using filter_block_no_false_negative [of "[Block 0, Key k]" 0 k 10] by (simp add: pol_def)
qed

end
