(* ===== verification/LdbIterator.thy ===== *)
theory LdbIterator
  imports LdbKey LdbEnv
begin

text \<open>
  The interface of iterators (include/leveldb/iterator.h) as a record of operations, and its
  contract as a locale: an iterator is a cursor in a list of entries. Moving is an option, for a
  call that does not return. table/iterator_wrapper.h and the empty iterators of table/iterator.cc
  are here too.
\<close>

record 's iterator_ops =
  iValid :: "'s \<Rightarrow> bool"
  iSeekToFirst :: "'s \<Rightarrow> 's option"
  iSeekToLast :: "'s \<Rightarrow> 's option"
  iSeek :: "bytes \<Rightarrow> 's \<Rightarrow> 's option"
  iNext :: "'s \<Rightarrow> 's option"
  iPrev :: "'s \<Rightarrow> 's option"
  iKey :: "'s \<Rightarrow> bytes"
  iValue :: "'s \<Rightarrow> bytes"
  iStatus :: "'s \<Rightarrow> Status"

type_synonym entries = "(bytes \<times> bytes) list"

subsection \<open>Positions in a list\<close>

text \<open>A position is an index; none is the state in which an iterator is not valid.\<close>

definition position :: "entries \<Rightarrow> nat \<Rightarrow> nat option" where
  "position kvs i = (if i < length kvs then Some i else None)"

definition last_position :: "entries \<Rightarrow> nat option" where
  "last_position kvs = (if kvs = [] then None else Some (length kvs - 1))"

definition before_position :: "nat \<Rightarrow> nat option" where
  "before_position i = (case i of 0 \<Rightarrow> None | Suc j \<Rightarrow> Some j)"

text \<open>A list in the order of its keys.\<close>

definition keys_sorted :: "(bytes \<Rightarrow> bytes \<Rightarrow> int) \<Rightarrow> (bytes \<Rightarrow> bool) \<Rightarrow> entries \<Rightarrow> bool" where
  "keys_sorted cmp valid kvs \<longleftrightarrow> sorted_wrt (\<lambda>a b. cmp (fst a) (fst b) < 0) kvs \<and> (\<forall>kv \<in> set kvs. valid (fst kv))"

text \<open>How many entries have a key before \<open>target\<close>.\<close>

definition lower_bound :: "(bytes \<Rightarrow> bytes \<Rightarrow> int) \<Rightarrow> bytes \<Rightarrow> entries \<Rightarrow> nat" where
  "lower_bound cmp target kvs = length (takeWhile (\<lambda>kv. cmp (fst kv) target < 0) kvs)"

lemma lower_bound_eqI:
  "n \<le> length kvs \<Longrightarrow> (\<And>i. i < n \<Longrightarrow> cmp (fst (kvs ! i)) target < 0) \<Longrightarrow>
   (n < length kvs \<Longrightarrow> \<not> cmp (fst (kvs ! n)) target < 0) \<Longrightarrow> lower_bound cmp target kvs = n"
proof (induction kvs arbitrary: n)
  case (Cons kv kvs)
  show ?case
  proof (cases n)
    case 0
    then show ?thesis using Cons.prems(3) by (simp add: lower_bound_def)
  next
    case (Suc m)
    have "lower_bound cmp target kvs = m"
      using Cons.prems(1) Cons.prems(2) [of "Suc _"] Cons.prems(3) Suc by (intro Cons.IH) simp_all
    then show ?thesis using Cons.prems(2) [of 0] Suc by (simp add: lower_bound_def)
  qed
qed (simp add: lower_bound_def)

lemma lower_bound_le: "lower_bound cmp target kvs \<le> length kvs"
  by (simp add: lower_bound_def length_takeWhile_le)

lemma lower_bound_less: "i < lower_bound cmp target kvs \<Longrightarrow> cmp (fst (kvs ! i)) target < 0"
  using nth_mem [of i "takeWhile (\<lambda>kv. cmp (fst kv) target < 0) kvs"] takeWhile_nth [of i "\<lambda>kv. cmp (fst kv) target < 0" kvs]
  by (auto simp: lower_bound_def dest: set_takeWhileD)

lemma lower_bound_stop: "lower_bound cmp target kvs < length kvs \<Longrightarrow> \<not> cmp (fst (kvs ! lower_bound cmp target kvs)) target < 0"
  using nth_length_takeWhile [of "\<lambda>kv. cmp (fst kv) target < 0" kvs] by (simp add: lower_bound_def)

subsection \<open>The contract\<close>

locale cursor =
  fixes ops :: "'s iterator_ops"
    and cmp :: "bytes \<Rightarrow> bytes \<Rightarrow> int"
    and valid :: "bytes \<Rightarrow> bool"
    and at :: "entries \<Rightarrow> nat option \<Rightarrow> 's \<Rightarrow> bool"
  assumes at_none: "at kvs None s \<Longrightarrow> \<not> iValid ops s"
    and at_some: "at kvs (Some i) s \<Longrightarrow> i < length kvs \<and> iValid ops s \<and> iKey ops s = fst (kvs ! i) \<and> iValue ops s = snd (kvs ! i)"
    and status: "at kvs p s \<Longrightarrow> iStatus ops s = OK"
    and first: "at kvs p s \<Longrightarrow> \<exists>s'. iSeekToFirst ops s = Some s' \<and> at kvs (position kvs 0) s'"
    and last: "at kvs p s \<Longrightarrow> \<exists>s'. iSeekToLast ops s = Some s' \<and> at kvs (last_position kvs) s'"
    and seek: "at kvs p s \<Longrightarrow> valid target \<Longrightarrow>
      \<exists>s'. iSeek ops target s = Some s' \<and> at kvs (position kvs (lower_bound cmp target kvs)) s'"
    and "next": "at kvs (Some i) s \<Longrightarrow> \<exists>s'. iNext ops s = Some s' \<and> at kvs (position kvs (Suc i)) s'"
    and prev: "at kvs (Some i) s \<Longrightarrow> \<exists>s'. iPrev ops s = Some s' \<and> at kvs (before_position i) s'"

text \<open>Whatever a client does with an iterator, it sees the list. A client that moves an invalid
  iterator breaks the contract, so the move is left out.\<close>

datatype cursor_op = CFirst | CLast | CSeek bytes | CNext | CPrev

fun cursor_step :: "'s iterator_ops \<Rightarrow> cursor_op \<Rightarrow> 's \<Rightarrow> 's option" where
  "cursor_step ops CFirst s = iSeekToFirst ops s"
| "cursor_step ops CLast s = iSeekToLast ops s"
| "cursor_step ops (CSeek target) s = iSeek ops target s"
| "cursor_step ops CNext s = (if iValid ops s then iNext ops s else Some s)"
| "cursor_step ops CPrev s = (if iValid ops s then iPrev ops s else Some s)"

definition cursor_view :: "'s iterator_ops \<Rightarrow> 's \<Rightarrow> (bytes \<times> bytes) option" where
  "cursor_view ops s = (if iValid ops s then Some (iKey ops s, iValue ops s) else None)"

fun cursor_run :: "'s iterator_ops \<Rightarrow> cursor_op list \<Rightarrow> 's \<Rightarrow> (bytes \<times> bytes) option list option" where
  "cursor_run ops [] s = Some []"
| "cursor_run ops (c # cs) s =
     (case cursor_step ops c s of
        None \<Rightarrow> None
      | Some s \<Rightarrow> map_option (Cons (cursor_view ops s)) (cursor_run ops cs s))"

fun list_step :: "(bytes \<Rightarrow> bytes \<Rightarrow> int) \<Rightarrow> entries \<Rightarrow> cursor_op \<Rightarrow> nat option \<Rightarrow> nat option" where
  "list_step cmp kvs CFirst p = position kvs 0"
| "list_step cmp kvs CLast p = last_position kvs"
| "list_step cmp kvs (CSeek target) p = position kvs (lower_bound cmp target kvs)"
| "list_step cmp kvs CNext p = (case p of None \<Rightarrow> None | Some i \<Rightarrow> position kvs (Suc i))"
| "list_step cmp kvs CPrev p = (case p of None \<Rightarrow> None | Some i \<Rightarrow> before_position i)"

fun list_run :: "(bytes \<Rightarrow> bytes \<Rightarrow> int) \<Rightarrow> entries \<Rightarrow> cursor_op list \<Rightarrow> nat option \<Rightarrow> (bytes \<times> bytes) option list" where
  "list_run cmp kvs [] p = []"
| "list_run cmp kvs (c # cs) p =
     (let p = list_step cmp kvs c p in map_option (nth kvs) p # list_run cmp kvs cs p)"

definition seeks_valid :: "(bytes \<Rightarrow> bool) \<Rightarrow> cursor_op list \<Rightarrow> bool" where
  "seeks_valid valid cs \<longleftrightarrow> (\<forall>target. CSeek target \<in> set cs \<longrightarrow> valid target)"

lemma seeks_valid_simps [simp]:
  "seeks_valid valid []" "seeks_valid valid (c # cs) \<longleftrightarrow> (\<forall>target. c = CSeek target \<longrightarrow> valid target) \<and> seeks_valid valid cs"
  by (auto simp: seeks_valid_def)

context cursor
begin

lemma view: "at kvs p s \<Longrightarrow> cursor_view ops s = map_option (nth kvs) p"
  using at_none [of kvs s] at_some [of kvs _ s] by (cases p) (auto simp: cursor_view_def)

lemma steps:
  assumes "at kvs p s" "\<forall>target. c = CSeek target \<longrightarrow> valid target"
  shows "\<exists>s'. cursor_step ops c s = Some s' \<and> at kvs (list_step cmp kvs c p) s'"
proof (cases c)
  case CNext
  then show ?thesis using assms(1) at_none [of kvs s] at_some [of kvs _ s] "next" [of kvs _ s] by (cases p) auto
next
  case CPrev
  then show ?thesis using assms(1) at_none [of kvs s] at_some [of kvs _ s] prev [of kvs _ s] by (cases p) auto
qed (use assms first last seek in auto)

lemma run: "at kvs p s \<Longrightarrow> seeks_valid valid cs \<Longrightarrow> cursor_run ops cs s = Some (list_run cmp kvs cs p)"
proof (induction cs arbitrary: p s)
  case (Cons c cs)
  obtain s' where "cursor_step ops c s = Some s'" "at kvs (list_step cmp kvs c p) s'"
    using steps [OF Cons.prems(1)] Cons.prems(2) by auto
  then show ?case using Cons.IH Cons.prems(2) view by (auto simp: Let_def)
qed simp

end

subsection \<open>Empty iterators\<close>

text \<open>The state is the status the iterator was made with.\<close>

definition EmptyIterator_ops :: "Status iterator_ops" where
  "EmptyIterator_ops = \<lparr>iValid = \<lambda>s. False, iSeekToFirst = Some, iSeekToLast = Some, iSeek = \<lambda>target. Some,
     iNext = Some, iPrev = Some, iKey = \<lambda>s. [], iValue = \<lambda>s. [], iStatus = \<lambda>s. s\<rparr>"

definition NewEmptyIterator :: Status where "NewEmptyIterator = OK"
definition NewErrorIterator :: "Status \<Rightarrow> Status" where "NewErrorIterator s = s"

interpretation empty_cursor: cursor EmptyIterator_ops cmp valid "\<lambda>kvs p s. kvs = [] \<and> p = None \<and> s = OK"
  by unfold_locales (simp_all add: EmptyIterator_ops_def position_def last_position_def)

subsection \<open>Wrappers\<close>

text \<open>A wrapper keeps what the iterator said last about its validity and its key.\<close>

record 's wrapper =
  w_iter :: "'s option"
  w_valid :: bool
  w_key :: bytes

definition wrapper_Update :: "'s iterator_ops \<Rightarrow> 's wrapper \<Rightarrow> 's wrapper" where
  "wrapper_Update ops w =
     (let w = w\<lparr>w_valid := iValid ops (the (w_iter w))\<rparr>
      in if w_valid w then w\<lparr>w_key := iKey ops (the (w_iter w))\<rparr> else w)"

definition wrapper_Set :: "'s iterator_ops \<Rightarrow> 's option \<Rightarrow> 's wrapper \<Rightarrow> 's wrapper" where
  "wrapper_Set ops iter w =
     (let w = w\<lparr>w_iter := iter\<rparr> in case iter of None \<Rightarrow> w\<lparr>w_valid := False\<rparr> | Some _ \<Rightarrow> wrapper_Update ops w)"

definition new_wrapper :: "'s wrapper" where
  "new_wrapper = \<lparr>w_iter = None, w_valid = False, w_key = []\<rparr>"

definition wrapper_move :: "'s iterator_ops \<Rightarrow> ('s \<Rightarrow> 's option) \<Rightarrow> 's wrapper \<Rightarrow> 's wrapper option" where
  "wrapper_move ops f w =
     (case f (the (w_iter w)) of None \<Rightarrow> None | Some s \<Rightarrow> Some (wrapper_Update ops (w\<lparr>w_iter := Some s\<rparr>)))"

text \<open>The operations of a wrapper that has an iterator.\<close>

definition Wrapper_ops :: "'s iterator_ops \<Rightarrow> 's wrapper iterator_ops" where
  "Wrapper_ops ops = \<lparr>iValid = w_valid, iSeekToFirst = wrapper_move ops (iSeekToFirst ops),
     iSeekToLast = wrapper_move ops (iSeekToLast ops), iSeek = (\<lambda>k. wrapper_move ops (iSeek ops k)),
     iNext = wrapper_move ops (iNext ops), iPrev = wrapper_move ops (iPrev ops),
     iKey = w_key, iValue = (\<lambda>w. iValue ops (the (w_iter w))), iStatus = (\<lambda>w. iStatus ops (the (w_iter w)))\<rparr>"

definition wrapper_at :: "'s iterator_ops \<Rightarrow> ('s \<Rightarrow> bool) \<Rightarrow> 's wrapper \<Rightarrow> bool" where
  "wrapper_at ops at w \<longleftrightarrow> (\<exists>s. w_iter w = Some s \<and> at s \<and> w_valid w = iValid ops s \<and> (w_valid w \<longrightarrow> w_key w = iKey ops s))"

lemma wrapper_Update_at: "at s \<Longrightarrow> wrapper_at ops at (wrapper_Update ops (w\<lparr>w_iter := Some s\<rparr>))"
  by (simp add: wrapper_at_def wrapper_Update_def Let_def)

lemma wrapper_Set_at: "at s \<Longrightarrow> wrapper_at ops at (wrapper_Set ops (Some s) w)"
  using wrapper_Update_at [of at s ops w] by (simp add: wrapper_Set_def)

lemma wrapper_move_at:
  "wrapper_at ops at w \<Longrightarrow> (\<And>s. at s \<Longrightarrow> \<exists>s'. f s = Some s' \<and> at' s') \<Longrightarrow>
   \<exists>w'. wrapper_move ops f w = Some w' \<and> wrapper_at ops at' w'"
  using wrapper_Update_at by (fastforce simp: wrapper_at_def wrapper_move_def)

text \<open>A wrapper is a cursor when its iterator is one.\<close>

context cursor
begin

lemma wrapped: "cursor (Wrapper_ops ops) cmp valid (\<lambda>kvs p. wrapper_at ops (at kvs p))"
proof
  show "\<not> iValid (Wrapper_ops ops) w" if "wrapper_at ops (at kvs None) w" for kvs w
    using that at_none by (auto simp: wrapper_at_def Wrapper_ops_def)
  show "i < length kvs \<and> iValid (Wrapper_ops ops) w \<and> iKey (Wrapper_ops ops) w = fst (kvs ! i) \<and> iValue (Wrapper_ops ops) w = snd (kvs ! i)"
    if "wrapper_at ops (at kvs (Some i)) w" for kvs i w
    using that at_some by (auto simp: wrapper_at_def Wrapper_ops_def)
  show "iStatus (Wrapper_ops ops) w = OK" if "wrapper_at ops (at kvs p) w" for kvs p w
    using that status by (auto simp: wrapper_at_def Wrapper_ops_def)
qed (simp_all add: Wrapper_ops_def wrapper_move_at first last seek "next" prev)

end

end
