(* ===== verification/LdbBlock.thy ===== *)
theory LdbBlock
  imports LdbIterator
begin

text \<open>
  The blocks of tables: table/block_builder.cc builds them, table/block.cc reads them. A block is a
  list of entries, whose keys share a prefix with the key before, followed by the offsets of the
  entries that do not (the restart points) and their number. A pointer into a block is its offset;
  \<open>uint32_t\<close> offsets are natural numbers, cut to 32 bits where they can be larger.
\<close>

subsection \<open>Building a block\<close>

record block_builder =
  bb_buffer :: bytes
  bb_restarts :: "u32 list"
  bb_counter :: nat
  bb_finished :: bool
  bb_last_key :: bytes

definition new_BlockBuilder :: block_builder where
  "new_BlockBuilder = \<lparr>bb_buffer = [], bb_restarts = [0], bb_counter = 0, bb_finished = False, bb_last_key = []\<rparr>"

definition BlockBuilder_Reset :: "block_builder \<Rightarrow> block_builder" where
  "BlockBuilder_Reset b =
     b\<lparr>bb_buffer := [], bb_restarts := [0], bb_counter := 0, bb_finished := False, bb_last_key := []\<rparr>"

definition CurrentSizeEstimate :: "block_builder \<Rightarrow> nat" where
  "CurrentSizeEstimate b = length (bb_buffer b) + length (bb_restarts b) * 4 + 4"

definition BlockBuilder_empty :: "block_builder \<Rightarrow> bool" where
  "BlockBuilder_empty b \<longleftrightarrow> bb_buffer b = []"

definition BlockBuilder_Finish :: "block_builder \<Rightarrow> bytes \<times> block_builder" where
  "BlockBuilder_Finish b =
     (let buffer = fold (\<lambda>r dst. PutFixed32 dst r) (bb_restarts b) (bb_buffer b);
          buffer = PutFixed32 buffer (of_nat (length (bb_restarts b)))
      in (buffer, b\<lparr>bb_buffer := buffer, bb_finished := True\<rparr>))"

function shared_loop :: "bytes \<Rightarrow> bytes \<Rightarrow> nat \<Rightarrow> nat" where
  "shared_loop last_key_piece key shared =
     (if shared < min (length last_key_piece) (length key) \<and> last_key_piece ! shared = key ! shared
      then shared_loop last_key_piece key (shared + 1) else shared)"
  by pat_completeness auto
termination by (relation "measure (\<lambda>(a, _, i). length a - i)") auto

declare shared_loop.simps [simp del]

definition BlockBuilder_Add :: "nat \<Rightarrow> bytes \<Rightarrow> bytes \<Rightarrow> block_builder \<Rightarrow> block_builder" where
  "BlockBuilder_Add block_restart_interval key value b =
     (let (shared, b) =
            (if bb_counter b < block_restart_interval
             then (shared_loop (bb_last_key b) key 0, b)
             else (0, b\<lparr>bb_restarts := bb_restarts b @ [of_nat (length (bb_buffer b))], bb_counter := 0\<rparr>));
          non_shared = length key - shared;
          buffer = bb_buffer b;
          buffer = PutVarint32 buffer (of_nat shared);
          buffer = PutVarint32 buffer (of_nat non_shared);
          buffer = PutVarint32 buffer (of_nat (length value));
          buffer = buffer @ take non_shared (drop shared key);
          buffer = buffer @ value
      in b\<lparr>bb_buffer := buffer,
          bb_last_key := take shared (bb_last_key b) @ take non_shared (drop shared key),
          bb_counter := bb_counter b + 1\<rparr>)"

subsection \<open>Opening a block\<close>

record block =
  bl_data :: bytes
  bl_size :: nat
  bl_restart_offset :: nat

text \<open>\<open>NumRestarts\<close> of a block of the given size.\<close>

definition NumRestarts :: "bytes \<Rightarrow> nat \<Rightarrow> nat" where
  "NumRestarts data sz = unat (DecodeFixed32 (drop (sz - 4) data))"

text \<open>The offset of the restart array keeps its initial value, here 0, when the block is bad.\<close>

definition new_Block :: "bytes \<Rightarrow> block" where
  "new_Block data =
     (let sz = length data in
      if sz < 4 then \<lparr>bl_data = data, bl_size = 0, bl_restart_offset = 0\<rparr>
      else
        let max_restarts_allowed = (sz - 4) div 4
        in if NumRestarts data sz > max_restarts_allowed
           then \<lparr>bl_data = data, bl_size = 0, bl_restart_offset = 0\<rparr>
           else \<lparr>bl_data = data, bl_size = sz,
             bl_restart_offset = (sz - (1 + NumRestarts data sz) * 4) mod 2 ^ 32\<rparr>)"

text \<open>\<open>DecodeEntry\<close> at \<open>p\<close>: shared, non_shared, value_length and where the key goes on.\<close>

definition varint_at :: "bytes \<Rightarrow> nat \<Rightarrow> nat \<Rightarrow> (u32 \<times> nat) option" where
  "varint_at data p limit =
     (case GetVarint32Ptr (drop p (take limit data)) of None \<Rightarrow> None | Some (v, q) \<Rightarrow> Some (v, limit - length q))"

definition DecodeEntry :: "bytes \<Rightarrow> nat \<Rightarrow> nat \<Rightarrow> (u32 \<times> u32 \<times> u32 \<times> nat) option" where
  "DecodeEntry data p limit =
     (if limit < p + 3 then None
      else
        let shared = (ucast (data ! p) :: u32);
            non_shared = ucast (data ! (p + 1));
            value_length = ucast (data ! (p + 2));
            decoded =
              (if shared OR non_shared OR value_length < 128 then Some (shared, non_shared, value_length, p + 3)
               else
                 (case varint_at data p limit of
                    None \<Rightarrow> None
                  | Some (shared, p) \<Rightarrow>
                      (case varint_at data p limit of
                         None \<Rightarrow> None
                       | Some (non_shared, p) \<Rightarrow>
                           (case varint_at data p limit of
                              None \<Rightarrow> None
                            | Some (value_length, p) \<Rightarrow> Some (shared, non_shared, value_length, p)))))
        in (case decoded of
              None \<Rightarrow> None
            | Some (shared, non_shared, value_length, p) \<Rightarrow>
                if (of_nat (limit - p) :: u32) < non_shared + value_length then None
                else Some (shared, non_shared, value_length, p)))"

subsection \<open>The iterator\<close>

text \<open>The value is the offset and the length of a slice. An operation is \<open>None\<close> when it would read
  outside of the block, or would not return.\<close>

record block_iter =
  bi_data :: bytes
  bi_restarts :: nat
  bi_num_restarts :: nat
  bi_current :: nat
  bi_restart_index :: nat
  bi_key :: bytes
  bi_value :: "nat \<times> nat"
  bi_status :: Status

definition new_BlockIter :: "bytes \<Rightarrow> nat \<Rightarrow> nat \<Rightarrow> block_iter" where
  "new_BlockIter data restarts num_restarts =
     \<lparr>bi_data = data, bi_restarts = restarts, bi_num_restarts = num_restarts, bi_current = restarts,
      bi_restart_index = num_restarts, bi_key = [], bi_value = (0, 0), bi_status = OK\<rparr>"

definition BlockIter_Valid :: "block_iter \<Rightarrow> bool" where
  "BlockIter_Valid it \<longleftrightarrow> bi_current it < bi_restarts it"

definition BlockIter_value :: "block_iter \<Rightarrow> bytes" where
  "BlockIter_value it = take (snd (bi_value it)) (drop (fst (bi_value it)) (bi_data it))"

definition NextEntryOffset :: "block_iter \<Rightarrow> nat" where
  "NextEntryOffset it = (fst (bi_value it) + snd (bi_value it)) mod 2 ^ 32"

definition GetRestartPoint :: "block_iter \<Rightarrow> nat \<Rightarrow> nat" where
  "GetRestartPoint it index = unat (DecodeFixed32 (drop (bi_restarts it + index * 4) (bi_data it)))"

definition SeekToRestartPoint :: "nat \<Rightarrow> block_iter \<Rightarrow> block_iter" where
  "SeekToRestartPoint index it =
     it\<lparr>bi_key := [], bi_restart_index := index, bi_value := (GetRestartPoint it index, 0)\<rparr>"

text \<open>The value is cleared; nothing reads it before the next seek.\<close>

definition BlockIter_CorruptionError :: "block_iter \<Rightarrow> block_iter" where
  "BlockIter_CorruptionError it =
     it\<lparr>bi_current := bi_restarts it, bi_restart_index := bi_num_restarts it,
       bi_status := Corruption ''bad entry in block'' [], bi_key := [], bi_value := (0, 0)\<rparr>"

function restart_loop :: "block_iter \<Rightarrow> nat \<Rightarrow> nat" where
  "restart_loop it i =
     (if i + 1 < bi_num_restarts it \<and> GetRestartPoint it (i + 1) < bi_current it then restart_loop it (i + 1) else i)"
  by pat_completeness auto
termination by (relation "measure (\<lambda>(it, i). bi_num_restarts it - i)") auto

declare restart_loop.simps [simp del]

definition ParseNextKey :: "block_iter \<Rightarrow> (bool \<times> block_iter) option" where
  "ParseNextKey it =
     (let it = it\<lparr>bi_current := NextEntryOffset it\<rparr>;
          p = bi_current it;
          limit = bi_restarts it
      in if p \<ge> limit
         then Some (False, it\<lparr>bi_current := bi_restarts it, bi_restart_index := bi_num_restarts it\<rparr>)
         else
           (case DecodeEntry (bi_data it) p limit of
              None \<Rightarrow> Some (False, BlockIter_CorruptionError it)
            | Some (shared, non_shared, value_length, p) \<Rightarrow>
                if length (bi_key it) < unat shared then Some (False, BlockIter_CorruptionError it)
                else if length (bi_data it) < p + unat non_shared then None
                else
                  let it = it\<lparr>bi_key := take (unat shared) (bi_key it) @ take (unat non_shared) (drop p (bi_data it)),
                             bi_value := (p + unat non_shared, unat value_length)\<rparr>;
                      it = it\<lparr>bi_restart_index := restart_loop it (bi_restart_index it)\<rparr>
                  in Some (True, it)))"

definition BlockIter_Next :: "block_iter \<Rightarrow> block_iter option" where
  "BlockIter_Next it = map_option snd (ParseNextKey it)"

definition BlockIter_SeekToFirst :: "block_iter \<Rightarrow> block_iter option" where
  "BlockIter_SeekToFirst it = map_option snd (ParseNextKey (SeekToRestartPoint 0 it))"

text \<open>The loops that parse on until the entry that ends at \<open>stop\<close>.\<close>

partial_function (option) parse_until :: "nat \<Rightarrow> block_iter \<Rightarrow> block_iter option" where
  "parse_until stop it =
     Option.bind (ParseNextKey it)
       (\<lambda>(found, it). if found \<and> NextEntryOffset it < stop then parse_until stop it else Some it)"

definition BlockIter_SeekToLast :: "block_iter \<Rightarrow> block_iter option" where
  "BlockIter_SeekToLast it = parse_until (bi_restarts it) (SeekToRestartPoint (bi_num_restarts it - 1) it)"

fun prev_loop :: "block_iter \<Rightarrow> nat \<Rightarrow> nat \<Rightarrow> nat option" where
  "prev_loop it original i =
     (if GetRestartPoint it i \<ge> original then (case i of 0 \<Rightarrow> None | Suc j \<Rightarrow> prev_loop it original j) else Some i)"

declare prev_loop.simps [simp del]

definition BlockIter_Prev :: "block_iter \<Rightarrow> block_iter option" where
  "BlockIter_Prev it =
     (let original = bi_current it in
      case prev_loop it original (bi_restart_index it) of
        None \<Rightarrow> Some (it\<lparr>bi_current := bi_restarts it, bi_restart_index := bi_num_restarts it\<rparr>)
      | Some i \<Rightarrow> parse_until original (SeekToRestartPoint i it))"

text \<open>The binary search in the restart points: the last one with a smaller key, or an error.\<close>

datatype bsearch_result = SearchAt nat | SearchCorrupt

partial_function (option) binary_search ::
  "(bytes \<Rightarrow> bytes \<Rightarrow> int) \<Rightarrow> bytes \<Rightarrow> block_iter \<Rightarrow> nat \<Rightarrow> nat \<Rightarrow> bsearch_result option" where
  "binary_search cmp target it left right =
     (if left < right
      then
        let mid = (left + right + 1) mod 2 ^ 32 div 2;
            region_offset = GetRestartPoint it mid
        in (case DecodeEntry (bi_data it) region_offset (bi_restarts it) of
              None \<Rightarrow> Some SearchCorrupt
            | Some (shared, non_shared, value_length, key_ptr) \<Rightarrow>
                if shared \<noteq> 0 then Some SearchCorrupt
                else if length (bi_data it) < key_ptr + unat non_shared then None
                else if cmp (take (unat non_shared) (drop key_ptr (bi_data it))) target < 0
                then binary_search cmp target it mid right
                else binary_search cmp target it left (mid - 1))
      else Some (SearchAt left))"

partial_function (option) linear_search :: "(bytes \<Rightarrow> bytes \<Rightarrow> int) \<Rightarrow> bytes \<Rightarrow> block_iter \<Rightarrow> block_iter option" where
  "linear_search cmp target it =
     Option.bind (ParseNextKey it)
       (\<lambda>(found, it). if \<not> found then Some it else if cmp (bi_key it) target \<ge> 0 then Some it else linear_search cmp target it)"

definition BlockIter_Seek :: "(bytes \<Rightarrow> bytes \<Rightarrow> int) \<Rightarrow> bytes \<Rightarrow> block_iter \<Rightarrow> block_iter option" where
  "BlockIter_Seek cmp target it =
     (case binary_search cmp target it 0 (bi_num_restarts it - 1) of
        None \<Rightarrow> None
      | Some SearchCorrupt \<Rightarrow> Some (BlockIter_CorruptionError it)
      | Some (SearchAt left) \<Rightarrow> linear_search cmp target (SeekToRestartPoint left it))"

text \<open>What \<open>NewIterator\<close> makes: an iterator that only has an error, one that is empty, or one on
  the entries.\<close>

datatype block_iterator = ErrorIterator Status | EmptyIterator | BlockIterator block_iter

definition Block_NewIterator :: "block \<Rightarrow> block_iterator" where
  "Block_NewIterator b =
     (if bl_size b < 4 then ErrorIterator (Corruption ''bad block contents'' [])
      else
        let num_restarts = NumRestarts (bl_data b) (bl_size b)
        in if num_restarts = 0 then EmptyIterator
           else BlockIterator (new_BlockIter (bl_data b) (bl_restart_offset b) num_restarts))"


subsection \<open>Entries\<close>

type_synonym entry = "nat \<times> bytes \<times> bytes"

abbreviation entry_shared :: "entry \<Rightarrow> nat" where "entry_shared e \<equiv> fst e"
abbreviation entry_key :: "entry \<Rightarrow> bytes" where "entry_key e \<equiv> fst (snd e)"
abbreviation entry_value :: "entry \<Rightarrow> bytes" where "entry_value e \<equiv> snd (snd e)"

definition entry_header :: "entry \<Rightarrow> bytes" where
  "entry_header e = EncodeVarint32 (of_nat (entry_shared e)) @ EncodeVarint32 (of_nat (length (entry_key e) - entry_shared e)) @
     EncodeVarint32 (of_nat (length (entry_value e)))"

definition entry_bytes :: "entry \<Rightarrow> bytes" where
  "entry_bytes e = entry_header e @ drop (entry_shared e) (entry_key e) @ entry_value e"

lemma EncodeVarint32_nonempty: "0 < length (EncodeVarint32 v)"
  by (simp add: EncodeVarint32_bytes varint_buffer_nonempty)

lemma entry_header_length: "3 \<le> length (entry_header e)"
  using EncodeVarint32_nonempty [of "of_nat (entry_shared e)"] EncodeVarint32_nonempty [of "of_nat (length (entry_key e) - entry_shared e)"]
    EncodeVarint32_nonempty [of "of_nat (length (entry_value e))"]
  by (simp only: entry_header_def length_append)

lemma varint_at_put:
  assumes "drop p (take limit data) = EncodeVarint32 v @ r" "limit \<le> length data"
  shows "varint_at data p limit = Some (v, p + length (EncodeVarint32 v)) \<and>
    drop (p + length (EncodeVarint32 v)) (take limit data) = r"
proof -
  have "limit - p = length (EncodeVarint32 v) + length r"
    using arg_cong [OF assms(1), of length] assms(2) by simp
  moreover have "p \<le> limit" using calculation EncodeVarint32_nonempty [of v] by linarith
  ultimately have "limit - length r = p + length (EncodeVarint32 v)" by linarith
  moreover have "drop (p + length (EncodeVarint32 v)) (take limit data) = drop (length (EncodeVarint32 v)) (drop p (take limit data))"
    by (simp add: add.commute)
  ultimately show ?thesis
    using assms(1) GetVarint32_put [of v r] by (simp add: varint_at_def GetVarint32_def)
qed

text \<open>The fast path: three bytes below 128 are three varints.\<close>

lemma and_128: "(x :: u32) AND 128 = 0 \<longleftrightarrow> \<not> bit x 7"
proof -
  have e: "(128 :: u32) = push_bit 7 1" by simp
  have b: "bit (128 :: u32) n \<longleftrightarrow> n = 7" for n unfolding e bit_push_bit_iff bit_1_iff by auto
  show ?thesis
  proof
    show "\<not> bit x 7" if "x AND 128 = 0"
      using arg_cong [OF that, of "\<lambda>y. bit y 7"] by (simp only: bit_and_iff b bit_0_eq) simp
    show "x AND 128 = 0" if "\<not> bit x 7"
      using that by (intro bit_word_eqI) (simp only: bit_and_iff b, auto)
  qed
qed

lemma small_bit_7: "(x :: u32) < 128 \<Longrightarrow> \<not> bit x 7"
proof -
  assume "x < 128"
  then have "unat x < 2 ^ 7" by (simp add: word_less_nat_alt)
  then have "take_bit 7 x = x"
    by (simp add: word_unat_eq_iff unsigned_take_bit_eq take_bit_nat_eq_self)
  then show "\<not> bit x 7" by (metis bit_take_bit_iff less_irrefl)
qed

lemma varint_at_small:
  assumes "\<not> bit (ucast (data ! p) :: u32) 7" "p < limit" "limit \<le> length data"
  shows "varint_at data p limit = Some (ucast (data ! p), p + 1)"
proof -
  have "drop p (take limit data) = data ! p # drop (p + 1) (take limit data)"
    using assms(2,3) Cons_nth_drop_Suc [of p "take limit data"] by simp
  moreover have "limit - length (drop (p + 1) (take limit data)) = p + 1" using assms(2,3) by simp
  ultimately show ?thesis
    using assms(1) unfolding and_128 [symmetric] varint_at_def GetVarint32Ptr_def Let_def by simp
qed

text \<open>So an entry is decoded to three varints, whatever the path.\<close>

definition decode_slow :: "bytes \<Rightarrow> nat \<Rightarrow> nat \<Rightarrow> (u32 \<times> u32 \<times> u32 \<times> nat) option" where
  "decode_slow data p limit =
     (case varint_at data p limit of
        None \<Rightarrow> None
      | Some (shared, p) \<Rightarrow>
          (case varint_at data p limit of
             None \<Rightarrow> None
           | Some (non_shared, p) \<Rightarrow>
               (case varint_at data p limit of
                  None \<Rightarrow> None
                | Some (value_length, p) \<Rightarrow> Some (shared, non_shared, value_length, p))))"

lemma DecodeEntry_slow:
  assumes "limit \<le> length data" "p + 3 \<le> limit"
  shows "DecodeEntry data p limit =
    (case decode_slow data p limit of
       None \<Rightarrow> None
     | Some (shared, non_shared, value_length, p) \<Rightarrow>
         if (of_nat (limit - p) :: u32) < non_shared + value_length then None
         else Some (shared, non_shared, value_length, p))"
proof -
  let ?a = "ucast (data ! p) :: u32" and ?b = "ucast (data ! (p + 1)) :: u32" and ?c = "ucast (data ! (p + 2)) :: u32"
  have "decode_slow data p limit = Some (?a, ?b, ?c, p + 3)" if "?a OR ?b OR ?c < 128"
  proof -
    have "\<not> bit ?a 7" "\<not> bit ?b 7" "\<not> bit ?c 7" using small_bit_7 [OF that] unfolding bit_or_iff by blast+
    then show ?thesis
      using varint_at_small [of data p limit] varint_at_small [of data "p + 1" limit] varint_at_small [of data "p + 2" limit] assms
      by (simp add: decode_slow_def numeral_3_eq_3)
  qed
  moreover have "\<not> limit < p + 3" using assms(2) by simp
  ultimately show ?thesis
    unfolding DecodeEntry_def Let_def decode_slow_def by (cases "?a OR ?b OR ?c < 128") (simp_all only: if_True if_False option.case prod.case)
qed

lemma decode_slow_entry:
  assumes "drop p (take limit data) = entry_header e @ r" "limit \<le> length data"
  shows "decode_slow data p limit = Some (of_nat (entry_shared e), of_nat (length (entry_key e) - entry_shared e),
    of_nat (length (entry_value e)), p + length (entry_header e))"
proof -
  let ?a = "EncodeVarint32 (of_nat (entry_shared e))" and ?b = "EncodeVarint32 (of_nat (length (entry_key e) - entry_shared e))"
    and ?c = "EncodeVarint32 (of_nat (length (entry_value e)))"
  note a = varint_at_put [of p limit data "of_nat (entry_shared e)" "?b @ ?c @ r", OF _ assms(2)]
  note b = varint_at_put [of "p + length ?a" limit data "of_nat (length (entry_key e) - entry_shared e)" "?c @ r", OF _ assms(2)]
  note c = varint_at_put [of "p + length ?a + length ?b" limit data "of_nat (length (entry_value e))" r, OF _ assms(2)]
  show ?thesis
    using a b c assms(1) by (simp add: decode_slow_def entry_header_def add.assoc)
qed

lemma take_drop_part: "drop p (take limit data) = x @ r \<Longrightarrow> take (length x) (drop p data) = x"
proof -
  assume "drop p (take limit data) = x @ r"
  then have "take (limit - p) (drop p data) = x @ r" by (simp only: drop_take)
  then have "drop p data = (x @ r) @ drop (limit - p) (drop p data)" using append_take_drop_id [of "limit - p" "drop p data"] by simp
  then have "take (length x) (drop p data) = take (length x) ((x @ r) @ drop (limit - p) (drop p data))" by (rule arg_cong)
  then show ?thesis by simp
qed

lemma drop_part: "drop p xs = a @ b \<Longrightarrow> drop (p + length a) xs = b"
  by (metis add.commute append_eq_conv_conj drop_drop)

lemma DecodeEntry_entry:
  assumes "drop p (take limit data) = entry_bytes e @ r" "limit \<le> length data" "length data < 2 ^ 32"
    "entry_shared e \<le> length (entry_key e)"
  shows "DecodeEntry data p limit = Some (of_nat (entry_shared e), of_nat (length (entry_key e) - entry_shared e),
      of_nat (length (entry_value e)), p + length (entry_header e)) \<and>
    take (length (entry_key e) - entry_shared e) (drop (p + length (entry_header e)) data) = drop (entry_shared e) (entry_key e) \<and>
    take (length (entry_value e)) (drop (p + length (entry_header e) + (length (entry_key e) - entry_shared e)) data) = entry_value e \<and>
    p + length (entry_bytes e) \<le> limit"
proof -
  define h ns vl q where "h = length (entry_header e)" and "ns = length (entry_key e) - entry_shared e"
    and "vl = length (entry_value e)" and "q = p + h"
  have d: "drop p (take limit data) = entry_header e @ drop (entry_shared e) (entry_key e) @ entry_value e @ r"
    using assms(1) by (simp add: entry_bytes_def)
  have total: "length (entry_bytes e) = h + ns + vl" by (simp add: entry_bytes_def h_def ns_def vl_def)
  have "limit - p = length (entry_bytes e) + length r" using arg_cong [OF assms(1), of length] assms(2) by simp
  moreover have "3 \<le> h" using entry_header_length [of e] by (simp add: h_def)
  ultimately have p: "p + length (entry_bytes e) \<le> limit" "p + 3 \<le> limit" and sizes: "ns + vl \<le> limit - q" "limit - q < 2 ^ 32"
    using total assms(2,3) by (simp_all add: q_def)
  have dk: "drop q (take limit data) = drop (entry_shared e) (entry_key e) @ entry_value e @ r"
    unfolding q_def h_def by (rule drop_part [OF d])
  have dv: "drop (q + ns) (take limit data) = entry_value e @ r"
    using drop_part [OF dk] by (simp add: ns_def)
  have "of_nat ns + of_nat vl = (of_nat (ns + vl) :: u32)" by simp
  then have "unat (of_nat ns + of_nat vl :: u32) = ns + vl"
    using sizes unat_of_nat_32 [of "ns + vl"] by (simp only:)
  moreover have "unat (of_nat (limit - q) :: u32) = limit - q" using sizes(2) by (rule unat_of_nat_32)
  ultimately have "\<not> (of_nat (limit - q) :: u32) < of_nat ns + of_nat vl"
    using sizes(1) by (simp only: word_less_nat_alt not_less)
  then have "DecodeEntry data p limit = Some (of_nat (entry_shared e), of_nat ns, of_nat vl, q)"
    unfolding DecodeEntry_slow [OF assms(2) p(2)] decode_slow_entry [OF d assms(2)]
    by (simp only: option.case prod.case if_False h_def ns_def vl_def q_def)
  moreover have "take ns (drop q data) = drop (entry_shared e) (entry_key e)" using take_drop_part [OF dk] by (simp add: ns_def)
  moreover have "take vl (drop (q + ns) data) = entry_value e" using take_drop_part [OF dv] by (simp only: vl_def)
  ultimately show ?thesis using p(1) unfolding q_def h_def ns_def vl_def by blast
qed

subsection \<open>Well-formed blocks\<close>

definition entries_bytes :: "entry list \<Rightarrow> bytes" where
  "entries_bytes es = concat (map entry_bytes es)"

definition entry_offset :: "entry list \<Rightarrow> nat \<Rightarrow> nat" where
  "entry_offset es i = length (entries_bytes (take i es))"

fun chained :: "bytes \<Rightarrow> entry list \<Rightarrow> bool" where
  "chained prev [] \<longleftrightarrow> True"
| "chained prev (e # es) \<longleftrightarrow> entry_shared e \<le> length prev \<and> entry_shared e \<le> length (entry_key e) \<and>
     take (entry_shared e) prev = take (entry_shared e) (entry_key e) \<and> chained (entry_key e) es"

text \<open>The block of the entries \<open>es\<close>; \<open>ri\<close> are the indices of the restart points.\<close>

definition block_bytes :: "entry list \<Rightarrow> nat list \<Rightarrow> bytes" where
  "block_bytes es ri = entries_bytes es @ concat (map EncodeFixed32 (map (\<lambda>i. of_nat (entry_offset es i)) ri)) @
     EncodeFixed32 (of_nat (length ri))"

definition wf_block :: "entry list \<Rightarrow> nat list \<Rightarrow> bool" where
  "wf_block es ri \<longleftrightarrow> chained [] es \<and> ri \<noteq> [] \<and> ri ! 0 = 0 \<and> sorted_wrt (<) ri \<and>
     (\<forall>i \<in> set ri. i < length es \<and> entry_shared (es ! i) = 0 \<or> i = 0) \<and> length (block_bytes es ri) < 2 ^ 32"

lemma entries_bytes_simps [simp]:
  "entries_bytes [] = []" "entries_bytes (e # es) = entry_bytes e @ entries_bytes es"
  "entries_bytes (es @ es') = entries_bytes es @ entries_bytes es'"
  by (simp_all add: entries_bytes_def)

lemma entry_bytes_pos: "0 < length (entry_bytes e)"
proof -
  have "entry_header e \<noteq> []" using entry_header_length [of e] by auto
  then show ?thesis by (simp add: entry_bytes_def)
qed

lemma entry_offset_0 [simp]: "entry_offset es 0 = 0"
  by (simp add: entry_offset_def)

lemma entry_offset_Suc: "i < length es \<Longrightarrow> entry_offset es (Suc i) = entry_offset es i + length (entry_bytes (es ! i))"
  by (simp add: entry_offset_def take_Suc_conv_app_nth)

lemma entry_offset_end: "entry_offset es (length es) = length (entries_bytes es)"
  by (simp add: entry_offset_def)

lemma entry_offset_less: "i < j \<Longrightarrow> j \<le> length es \<Longrightarrow> entry_offset es i < entry_offset es j"
proof (induction j)
  case (Suc j)
  have "entry_offset es j < entry_offset es (Suc j)" using Suc.prems(2) entry_offset_Suc [of j es] entry_bytes_pos [of "es ! j"] by simp
  then show ?case using Suc by (cases "i = j") auto
qed simp

lemma entry_offset_less_iff: "i \<le> length es \<Longrightarrow> j \<le> length es \<Longrightarrow> entry_offset es i < entry_offset es j \<longleftrightarrow> i < j"
  using entry_offset_less [of i j es] entry_offset_less [of j i es] by (metis linorder_neqE_nat order_less_asym)

lemma entry_offset_le_iff: "i \<le> length es \<Longrightarrow> j \<le> length es \<Longrightarrow> entry_offset es i \<le> entry_offset es j \<longleftrightarrow> i \<le> j"
  using entry_offset_less_iff [of j es i] by (simp add: not_less flip: linorder_not_less)

lemma chained_key_length: "chained prev es \<Longrightarrow> e \<in> set es \<Longrightarrow> length (entry_key e) \<le> length prev + length (entries_bytes es)"
proof (induction es arbitrary: prev)
  case (Cons x es)
  have "length (entry_key x) \<le> length prev + length (entry_bytes x)" 
    using Cons.prems(1) unfolding entry_bytes_def length_append length_drop chained.simps by linarith
  then show ?case using Cons.IH [of "entry_key x"] Cons.prems by (auto simp: add.assoc intro: le_trans)
qed simp

definition key_before :: "bytes \<Rightarrow> entry list \<Rightarrow> nat \<Rightarrow> bytes" where
  "key_before prev es i = (case i of 0 \<Rightarrow> prev | Suc j \<Rightarrow> entry_key (es ! j))"

lemma chained_nth:
  "chained prev es \<Longrightarrow> i < length es \<Longrightarrow>
   entry_shared (es ! i) \<le> length (key_before prev es i) \<and> entry_shared (es ! i) \<le> length (entry_key (es ! i)) \<and>
   take (entry_shared (es ! i)) (key_before prev es i) = take (entry_shared (es ! i)) (entry_key (es ! i))"
proof (induction es arbitrary: prev i)
  case (Cons e es)
  show ?case
  proof (cases i)
    case (Suc j)
    then have "key_before prev (e # es) i = key_before (entry_key e) es j" by (cases j) (simp_all add: key_before_def)
    then show ?thesis using Cons.IH [of "entry_key e" j] Cons.prems Suc by simp
  qed (use Cons.prems in \<open>simp add: key_before_def\<close>)
qed simp


lemma entries_split:
  "i < length es \<Longrightarrow> entries_bytes es = entries_bytes (take i es) @ entry_bytes (es ! i) @ entries_bytes (drop (Suc i) es)"
  by (metis append_Cons append_Nil entries_bytes_simps(2,3) id_take_nth_drop)

lemma wf_block_sizes:
  assumes "wf_block es ri"
  shows "length (entries_bytes es) + 4 * length ri < 2 ^ 32" "\<And>i. entry_offset es i < 2 ^ 32"
    "\<And>e. e \<in> set es \<Longrightarrow> length (entry_key e) < 2 ^ 32"
proof -
  have total: "length (entries_bytes es) + (4 * length ri + 4) < 2 ^ 32"
    using assms unfolding wf_block_def block_bytes_def length_append length_EncodeFixed32s length_map length_EncodeFixed by simp
  then show "length (entries_bytes es) + 4 * length ri < 2 ^ 32" by simp
  have "entry_offset es i \<le> length (entries_bytes es)" for i
  proof -
    have "entries_bytes es = entries_bytes (take i es) @ entries_bytes (drop i es)" by (simp flip: entries_bytes_simps(3))
    then show ?thesis by (metis entry_offset_def le_add1 length_append)
  qed
  then show "entry_offset es i < 2 ^ 32" for i using total by (meson add_lessD1 le_less_trans)
  show "length (entry_key e) < 2 ^ 32" if "e \<in> set es" for e
    using chained_key_length [of "[]" es e] assms that total by (simp add: wf_block_def)
qed

definition iter_on :: "entry list \<Rightarrow> nat list \<Rightarrow> block_iter \<Rightarrow> bool" where
  "iter_on es ri it \<longleftrightarrow> bi_data it = block_bytes es ri \<and> bi_restarts it = length (entries_bytes es) \<and>
     bi_num_restarts it = length ri \<and> bi_status it = OK"

definition biter_at :: "entry list \<Rightarrow> nat list \<Rightarrow> nat \<Rightarrow> block_iter \<Rightarrow> bool" where
  "biter_at es ri i it \<longleftrightarrow> iter_on es ri it \<and> i < length es \<and> bi_current it = entry_offset es i \<and> bi_key it = entry_key (es ! i) \<and>
     bi_value it = (entry_offset es (Suc i) - length (entry_value (es ! i)), length (entry_value (es ! i))) \<and>
     bi_restart_index it < length ri \<and> ri ! bi_restart_index it \<le> i"

text \<open>The next entry to parse is \<open>i\<close>.\<close>

definition iter_ready :: "entry list \<Rightarrow> nat list \<Rightarrow> nat \<Rightarrow> block_iter \<Rightarrow> bool" where
  "iter_ready es ri i it \<longleftrightarrow> iter_on es ri it \<and> i \<le> length es \<and> NextEntryOffset it = entry_offset es i \<and>
     bi_restart_index it < length ri \<and> ri ! bi_restart_index it \<le> i \<and>
     (i < length es \<longrightarrow> entry_shared (es ! i) \<le> length (bi_key it) \<and>
        take (entry_shared (es ! i)) (bi_key it) = take (entry_shared (es ! i)) (entry_key (es ! i)))"

lemma restart_point:
  assumes "wf_block es ri" "iter_on es ri it" "r < length ri"
  shows "GetRestartPoint it r = entry_offset es (ri ! r)"
proof -
  define vs where "vs = map (\<lambda>i. of_nat (entry_offset es i) :: u32) ri"
  have vs: "length vs = length ri" "vs ! r = of_nat (entry_offset es (ri ! r))" using assms(3) by (simp_all add: vs_def)
  have data: "bi_data it = entries_bytes es @ concat (map EncodeFixed32 vs) @ EncodeFixed32 (of_nat (length ri))"
    and rs: "bi_restarts it = length (entries_bytes es)"
    using assms(2) by (simp_all only: iter_on_def block_bytes_def vs_def)
  have "drop (bi_restarts it + r * 4) (bi_data it) = drop (r * 4) (drop (bi_restarts it) (bi_data it))" by (simp add: add.commute)
  also have "\<dots> = drop (r * 4) (concat (map EncodeFixed32 vs) @ EncodeFixed32 (of_nat (length ri)))"
    unfolding data rs by simp
  also have "\<dots> = drop (r * 4) (concat (map EncodeFixed32 vs)) @ EncodeFixed32 (of_nat (length ri))"
    using assms(3) unfolding drop_append length_EncodeFixed32s vs(1) by simp
  finally have "DecodeFixed32 (drop (bi_restarts it + r * 4) (bi_data it)) = of_nat (entry_offset es (ri ! r))"
    using nth_EncodeFixed32s [of r vs] assms(3) vs by (simp only:)
  then show ?thesis using unat_of_nat_32 [OF wf_block_sizes(2) [OF assms(1)]] by (simp only: GetRestartPoint_def)
qed

lemma wf_block_restart: "wf_block es ri \<Longrightarrow> i \<in> set ri \<Longrightarrow> i < length es \<and> entry_shared (es ! i) = 0 \<or> i = 0"
  by (simp add: wf_block_def)

lemma restart_index_le: "wf_block es ri \<Longrightarrow> r < length ri \<Longrightarrow> ri ! r \<le> length es"
proof -
  assume wf: "wf_block es ri" and r: "r < length ri"
  show ?thesis using wf_block_restart [OF wf nth_mem [OF r]] by auto
qed

lemma entry_in_block:
  assumes "i < length es"
  shows "drop (entry_offset es i) (take (length (entries_bytes es)) (block_bytes es ri)) =
    entry_bytes (es ! i) @ entries_bytes (drop (Suc i) es)"
proof -
  have "take (length (entries_bytes es)) (block_bytes es ri) = entries_bytes es" by (simp add: block_bytes_def)
  then show ?thesis using entries_split [OF assms] by (simp add: entry_offset_def)
qed

lemma restart_loop_at:
  assumes "wf_block es ri" "iter_on es ri it" "bi_current it = entry_offset es i" "i \<le> length es"
  shows "r < length ri \<Longrightarrow> ri ! r \<le> i \<Longrightarrow> restart_loop it r < length ri \<and> ri ! restart_loop it r \<le> i"
proof (induction "length ri - r" arbitrary: r rule: less_induct)
  case less
  show ?case
  proof (cases "r + 1 < length ri \<and> GetRestartPoint it (r + 1) < bi_current it")
    case True
    then have "ri ! (r + 1) \<le> i"
      using restart_point [OF assms(1,2), of "r + 1"] assms(3,4) entry_offset_less_iff [of "ri ! (r + 1)" es i]
        restart_index_le [OF assms(1), of "r + 1"] by simp
    moreover have "length ri - (r + 1) < length ri - r" using True by linarith
    ultimately have "restart_loop it (r + 1) < length ri \<and> ri ! restart_loop it (r + 1) \<le> i" using less.hyps [of "r + 1"] True by blast
    then show ?thesis using True assms(2) by (subst (1 2) restart_loop.simps) (simp add: iter_on_def)
  next
    case False
    then have "restart_loop it r = r" using assms(2) by (subst restart_loop.simps) (auto simp: iter_on_def)
    then show ?thesis using less.prems by simp
  qed
qed

lemma ParseNextKey_at:
  assumes "wf_block es ri" "iter_ready es ri i it" "i < length es"
  shows "\<exists>it'. ParseNextKey it = Some (True, it') \<and> biter_at es ri i it'"
proof -
  let ?e = "es ! i" and ?p = "entry_offset es i" and ?data = "block_bytes es ri" and ?limit = "length (entries_bytes es)"
  note on = assms(2) [unfolded iter_ready_def iter_on_def]
  have chain: "entry_shared ?e \<le> length (entry_key ?e)" using chained_nth [of "[]" es i] assms(1,3) by (simp add: wf_block_def)
  have size: "length ?data < 2 ^ 32" using assms(1) by (simp add: wf_block_def)
  have "?limit \<le> length ?data" by (simp add: block_bytes_def)
  note d = DecodeEntry_entry [OF entry_in_block [OF assms(3), of ri] this size chain]
  have less: "\<not> ?limit \<le> ?p" using entry_offset_less [OF assms(3), of es] by (simp add: entry_offset_end)
  have "length (entry_key ?e) < 2 ^ 32" using wf_block_sizes(3) [OF assms(1)] assms(3) by simp
  then have u: "unat (of_nat (entry_shared ?e) :: u32) = entry_shared ?e"
    "unat (of_nat (length (entry_key ?e) - entry_shared ?e) :: u32) = length (entry_key ?e) - entry_shared ?e"
    using chain by (intro unat_of_nat_32; simp)+
  have bytes: "length (entry_bytes ?e) = length (entry_header ?e) + (length (entry_key ?e) - entry_shared ?e) + length (entry_value ?e)"
    by (simp add: entry_bytes_def)
  then have v: "unat (of_nat (length (entry_value ?e)) :: u32) = length (entry_value ?e)"
    using d size \<open>?limit \<le> length ?data\<close> by (intro unat_of_nat_32) linarith
  have end_key: "\<not> length ?data < ?p + length (entry_header ?e) + (length (entry_key ?e) - entry_shared ?e)"
    using d bytes \<open>?limit \<le> length ?data\<close> by linarith
  have val: "?p + length (entry_header ?e) + (length (entry_key ?e) - entry_shared ?e) = entry_offset es (Suc i) - length (entry_value ?e)"
    using bytes entry_offset_Suc [OF assms(3)] by simp
  define it1 where "it1 = it\<lparr>bi_current := ?p, bi_key := entry_key ?e,
    bi_value := (entry_offset es (Suc i) - length (entry_value ?e), length (entry_value ?e))\<rparr>"
  have key: "take (entry_shared ?e) (bi_key it) @ drop (entry_shared ?e) (entry_key ?e) = entry_key ?e" using on assms(3) by simp
  have parse: "ParseNextKey it = Some (True, it1\<lparr>bi_restart_index := restart_loop it1 (bi_restart_index it)\<rparr>)"
    using on d less u v end_key key assms(3)
    by (simp add: ParseNextKey_def Let_def it1_def val)
  have it1: "iter_on es ri it1" "bi_current it1 = ?p" using on by (simp_all add: it1_def iter_on_def)
  then have "restart_loop it1 (bi_restart_index it) < length ri \<and> ri ! restart_loop it1 (bi_restart_index it) \<le> i"
    using restart_loop_at [OF assms(1) it1] on assms(3) by simp
  then show ?thesis using parse on assms(3) by (simp add: biter_at_def iter_on_def it1_def)
qed

lemma ParseNextKey_end:
  assumes "iter_ready es ri (length es) it"
  shows "\<exists>it'. ParseNextKey it = Some (False, it') \<and> iter_on es ri it' \<and> bi_current it' = bi_restarts it'"
  using assms by (simp add: ParseNextKey_def iter_ready_def iter_on_def entry_offset_end)


subsection \<open>Moving in a block\<close>

definition iter_end :: "entry list \<Rightarrow> nat list \<Rightarrow> block_iter \<Rightarrow> bool" where
  "iter_end es ri it \<longleftrightarrow> iter_on es ri it \<and> bi_current it = bi_restarts it"

lemma value_in_entry: "i < length es \<Longrightarrow> length (entry_value (es ! i)) \<le> entry_offset es (Suc i)"
  by (simp add: entry_offset_Suc entry_bytes_def)

lemma at_ready:
  assumes "wf_block es ri" "biter_at es ri i it"
  shows "iter_ready es ri (Suc i) it"
proof -
  note at = assms(2) [unfolded biter_at_def]
  have "NextEntryOffset it = entry_offset es (Suc i) mod 2 ^ 32"
    using at value_in_entry [of i es] by (simp add: NextEntryOffset_def)
  then have "NextEntryOffset it = entry_offset es (Suc i)" using wf_block_sizes(2) [OF assms(1)] by simp
  moreover have "entry_shared (es ! Suc i) \<le> length (bi_key it) \<and>
      take (entry_shared (es ! Suc i)) (bi_key it) = take (entry_shared (es ! Suc i)) (entry_key (es ! Suc i))" if "Suc i < length es"
    using chained_nth [of "[]" es "Suc i"] assms(1) at that by (simp add: wf_block_def key_before_def)
  ultimately show ?thesis using at by (simp add: iter_ready_def)
qed

lemma restart_ready:
  assumes "wf_block es ri" "iter_on es ri it" "r < length ri"
  shows "iter_ready es ri (ri ! r) (SeekToRestartPoint r it)"
proof -
  have "entry_shared (es ! (ri ! r)) = 0" if "ri ! r < length es"
    using wf_block_restart [OF assms(1) nth_mem [OF assms(3)]] chained_nth [of "[]" es 0] assms(1) that
    by (auto simp: wf_block_def key_before_def)
  moreover have "NextEntryOffset (SeekToRestartPoint r it) = entry_offset es (ri ! r)"
    using restart_point [OF assms] wf_block_sizes(2) [OF assms(1)] by (simp add: NextEntryOffset_def SeekToRestartPoint_def)
  ultimately show ?thesis
    using assms restart_index_le [OF assms(1,3)] by (simp add: iter_ready_def iter_on_def SeekToRestartPoint_def)
qed

lemma parse_until_at:
  assumes "wf_block es ri" "m \<le> length es"
  shows "iter_ready es ri j it \<Longrightarrow> j < m \<Longrightarrow> \<exists>it'. parse_until (entry_offset es m) it = Some it' \<and> biter_at es ri (m - 1) it'"
proof (induction "m - j" arbitrary: j it rule: less_induct)
  case less
  have j: "j < length es" using less.prems(2) assms(2) by simp
  obtain it' where p: "ParseNextKey it = Some (True, it')" "biter_at es ri j it'"
    using ParseNextKey_at [OF assms(1) less.prems(1) j] by blast
  have r: "iter_ready es ri (Suc j) it'" by (rule at_ready [OF assms(1) p(2)])
  then have "NextEntryOffset it' < entry_offset es m \<longleftrightarrow> Suc j < m"
    using entry_offset_less_iff [of "Suc j" es m] j assms(2) by (simp add: iter_ready_def)
  moreover have "m - 1 = j" if "\<not> Suc j < m" using less.prems(2) that by simp
  ultimately show ?case
    using p less.hyps [OF _ r] less.prems(2) by (subst parse_until.simps) (cases "Suc j < m", auto)
qed

lemma prev_loop_at:
  assumes "wf_block es ri" "iter_on es ri it" "i \<le> length es"
  shows "r < length ri \<Longrightarrow> case prev_loop it (entry_offset es i) r of None \<Rightarrow> i = 0 | Some r' \<Rightarrow> r' < length ri \<and> ri ! r' < i"
proof (induction r)
  case 0
  have "GetRestartPoint it 0 = 0" using restart_point [OF assms(1,2) 0] assms(1) by (simp add: wf_block_def)
  then show ?case
    using entry_offset_less_iff [of 0 es i] assms 0 by (subst prev_loop.simps) (auto simp: wf_block_def)
next
  case (Suc r)
  have "GetRestartPoint it (Suc r) \<ge> entry_offset es i \<longleftrightarrow> \<not> ri ! Suc r < i"
    using restart_point [OF assms(1,2) Suc.prems] entry_offset_le_iff [of i es "ri ! Suc r"] restart_index_le [OF assms(1) Suc.prems] assms(3)
    by (simp add: not_less)
  then show ?case using Suc by (subst prev_loop.simps) simp
qed

lemma BlockIter_Next_at:
  assumes "wf_block es ri" "biter_at es ri i it"
  shows "\<exists>it'. BlockIter_Next it = Some it' \<and> (if Suc i < length es then biter_at es ri (Suc i) it' else iter_end es ri it')"
proof (cases "Suc i < length es")
  case True
  then show ?thesis using ParseNextKey_at [OF assms(1) at_ready [OF assms] True] by (auto simp: BlockIter_Next_def)
next
  case False
  then have "iter_ready es ri (length es) it" using at_ready [OF assms] by (simp add: iter_ready_def le_less_Suc_eq)
  then show ?thesis using ParseNextKey_end [of es ri it] False by (auto simp: BlockIter_Next_def iter_end_def)
qed

lemma BlockIter_Prev_at:
  assumes "wf_block es ri" "biter_at es ri i it"
  shows "\<exists>it'. BlockIter_Prev it = Some it' \<and> (if i = 0 then iter_end es ri it' else biter_at es ri (i - 1) it')"
proof -
  note at = assms(2) [unfolded biter_at_def]
  have l: "case prev_loop it (entry_offset es i) (bi_restart_index it) of None \<Rightarrow> i = 0 | Some r' \<Rightarrow> r' < length ri \<and> ri ! r' < i"
    using prev_loop_at [OF assms(1), of it i "bi_restart_index it"] at by simp
  show ?thesis
  proof (cases "prev_loop it (entry_offset es i) (bi_restart_index it)")
    case None
    then show ?thesis using l at by (simp add: BlockIter_Prev_def iter_end_def iter_on_def)
  next
    case (Some r)
    then have r: "r < length ri" "ri ! r < i" using l by simp_all
    obtain it' where "parse_until (entry_offset es i) (SeekToRestartPoint r it) = Some it'" "biter_at es ri (i - 1) it'"
      using parse_until_at [OF assms(1) _ restart_ready [OF assms(1) _ r(1)] r(2)] at by auto
    then show ?thesis using Some at r(2) by (simp add: BlockIter_Prev_def)
  qed
qed

lemma BlockIter_SeekToFirst_at:
  assumes "wf_block es ri" "iter_on es ri it"
  shows "\<exists>it'. BlockIter_SeekToFirst it = Some it' \<and> (if es \<noteq> [] then biter_at es ri 0 it' else iter_end es ri it')"
proof -
  have r: "iter_ready es ri 0 (SeekToRestartPoint 0 it)"
    using restart_ready [OF assms, of 0] assms(1) by (simp add: wf_block_def)
  show ?thesis
  proof (cases "es = []")
    case True
    then obtain it' where "ParseNextKey (SeekToRestartPoint 0 it) = Some (False, it')" "iter_end es ri it'"
      using ParseNextKey_end [of es ri "SeekToRestartPoint 0 it"] r by (auto simp: iter_end_def)
    then show ?thesis using True by (simp add: BlockIter_SeekToFirst_def)
  next
    case False
    then show ?thesis using ParseNextKey_at [OF assms(1) r] by (auto simp: BlockIter_SeekToFirst_def)
  qed
qed

lemma BlockIter_SeekToLast_at:
  assumes "wf_block es ri" "iter_on es ri it"
  shows "\<exists>it'. BlockIter_SeekToLast it = Some it' \<and> (if es \<noteq> [] then biter_at es ri (length es - 1) it' else iter_end es ri it')"
proof -
  let ?r = "length ri - 1"
  have r: "?r < length ri" using assms(1) by (simp add: wf_block_def)
  have ready: "iter_ready es ri (ri ! ?r) (SeekToRestartPoint ?r it)" by (rule restart_ready [OF assms r])
  have stop: "bi_restarts it = entry_offset es (length es)" "bi_num_restarts it = length ri"
    using assms(2) by (simp_all add: iter_on_def entry_offset_end)
  show ?thesis
  proof (cases "es = []")
    case True
    then have "ri ! ?r = 0" using restart_index_le [OF assms(1) r] by simp
    then obtain it' where "ParseNextKey (SeekToRestartPoint ?r it) = Some (False, it')" "iter_end es ri it'"
      using ParseNextKey_end [of es ri "SeekToRestartPoint ?r it"] ready True by (auto simp: iter_end_def)
    then show ?thesis using True stop by (simp add: BlockIter_SeekToLast_def parse_until.simps)
  next
    case False
    then have "ri ! ?r < length es" using wf_block_restart [OF assms(1) nth_mem [OF r]] by auto
    then show ?thesis
      using parse_until_at [OF assms(1) order_refl ready] False stop by (auto simp: BlockIter_SeekToLast_def)
  qed
qed


subsection \<open>Seeking\<close>

lemma DecodeEntry_at:
  assumes "wf_block es ri" "iter_on es ri it" "i < length es"
  shows "\<exists>q. DecodeEntry (bi_data it) (entry_offset es i) (bi_restarts it) =
      Some (of_nat (entry_shared (es ! i)), of_nat (length (entry_key (es ! i)) - entry_shared (es ! i)),
        of_nat (length (entry_value (es ! i))), q) \<and>
    unat (of_nat (length (entry_key (es ! i)) - entry_shared (es ! i)) :: u32) = length (entry_key (es ! i)) - entry_shared (es ! i) \<and>
    q + (length (entry_key (es ! i)) - entry_shared (es ! i)) \<le> length (bi_data it) \<and>
    take (length (entry_key (es ! i)) - entry_shared (es ! i)) (drop q (bi_data it)) = drop (entry_shared (es ! i)) (entry_key (es ! i))"
proof -
  let ?e = "es ! i"
  have limit: "length (entries_bytes es) \<le> length (block_bytes es ri)" by (simp add: block_bytes_def)
  have size: "length (block_bytes es ri) < 2 ^ 32" using assms(1) by (simp add: wf_block_def)
  have chain: "entry_shared ?e \<le> length (entry_key ?e)" using chained_nth [of "[]" es i] assms(1,3) by (simp add: wf_block_def)
  note d = DecodeEntry_entry [OF entry_in_block [OF assms(3), of ri] limit size chain]
  have "length (entry_key ?e) < 2 ^ 32" using wf_block_sizes(3) [OF assms(1)] assms(3) by simp
  then have "unat (of_nat (length (entry_key ?e) - entry_shared ?e) :: u32) = length (entry_key ?e) - entry_shared ?e"
    by (intro unat_of_nat_32) simp
  moreover have "length (entry_bytes ?e) = length (entry_header ?e) + (length (entry_key ?e) - entry_shared ?e) + length (entry_value ?e)"
    by (simp add: entry_bytes_def)
  then have "entry_offset es i + length (entry_header ?e) + (length (entry_key ?e) - entry_shared ?e) \<le> length (block_bytes es ri)"
    using d limit by linarith
  moreover have "bi_data it = block_bytes es ri" "bi_restarts it = length (entries_bytes es)"
    using assms(2) by (simp_all add: iter_on_def)
  ultimately show ?thesis using d by (intro exI [of _ "entry_offset es i + length (entry_header ?e)"]) (simp only: simp_thms)
qed

lemma binary_search_at:
  assumes "wf_block es ri" "iter_on es ri it"
  shows "left \<le> right \<Longrightarrow> right < length ri \<Longrightarrow> left = 0 \<or> cmp (entry_key (es ! (ri ! left))) target < 0 \<Longrightarrow>
    \<exists>l. binary_search cmp target it left right = Some (SearchAt l) \<and> l < length ri \<and> (l = 0 \<or> cmp (entry_key (es ! (ri ! l))) target < 0)"
proof (induction "right - left" arbitrary: left right rule: less_induct)
  case less
  show ?case
  proof (cases "left < right")
    case True
    define mid where "mid = (left + right + 1) mod 2 ^ 32 div 2"
    have "left + right + 1 < 2 ^ 32" using wf_block_sizes(1) [OF assms(1)] less.prems(1,2) by simp
    then have m: "mid = (left + right + 1) div 2" by (simp add: mid_def)
    then have mid: "left < mid" "mid \<le> right" using True by simp_all
    then have "mid < length ri" using less.prems(2) by simp
    have "ri ! 0 < ri ! mid"
      using assms(1) mid \<open>mid < length ri\<close> sorted_wrt_nth_less [of "(<)" ri 0 mid] by (simp add: wf_block_def)
    then have i: "ri ! mid < length es" "entry_shared (es ! (ri ! mid)) = 0"
      using wf_block_restart [OF assms(1) nth_mem [OF \<open>mid < length ri\<close>]] by auto
    obtain q where d: "DecodeEntry (bi_data it) (GetRestartPoint it mid) (bi_restarts it) =
        Some (0, of_nat (length (entry_key (es ! (ri ! mid)))), of_nat (length (entry_value (es ! (ri ! mid)))), q)"
      "unat (of_nat (length (entry_key (es ! (ri ! mid)))) :: u32) = length (entry_key (es ! (ri ! mid)))"
      "\<not> length (bi_data it) < q + length (entry_key (es ! (ri ! mid)))"
      "take (length (entry_key (es ! (ri ! mid)))) (drop q (bi_data it)) = entry_key (es ! (ri ! mid))"
      using DecodeEntry_at [OF assms i(1)] i(2) restart_point [OF assms \<open>mid < length ri\<close>] by (auto simp: not_less)
    have step: "binary_search cmp target it left right =
      (if cmp (entry_key (es ! (ri ! mid))) target < 0 then binary_search cmp target it mid right
       else binary_search cmp target it left (mid - 1))"
      using True d by (subst binary_search.simps) (unfold Let_def mid_def [symmetric], simp)
    show ?thesis
    proof (cases "cmp (entry_key (es ! (ri ! mid))) target < 0")
      case True
      then show ?thesis using less.hyps [of right mid] less.prems mid step by simp
    next
      case False
      have "mid - 1 - left < right - left" "left \<le> mid - 1" "mid - 1 < length ri" using mid less.prems(2) by simp_all
      then show ?thesis using less.hyps [of "mid - 1" left] less.prems(3) step False by simp
    qed
  next
    case False
    then show ?thesis using less.prems by (subst binary_search.simps) auto
  qed
qed

definition smaller :: "(bytes \<Rightarrow> bytes \<Rightarrow> int) \<Rightarrow> bytes \<Rightarrow> entry \<Rightarrow> bool" where
  "smaller cmp target e \<longleftrightarrow> cmp (entry_key e) target < 0"

lemma linear_search_at:
  assumes "wf_block es ri"
  shows "iter_ready es ri j it \<Longrightarrow> m = j + length (takeWhile (smaller cmp target) (drop j es)) \<Longrightarrow>
    \<exists>it'. linear_search cmp target it = Some it' \<and> (if m < length es then biter_at es ri m it' else iter_end es ri it')"
proof (induction "length es - j" arbitrary: j it)
  case 0
  then have j: "j = length es" by (simp add: iter_ready_def)
  then show ?case
    using ParseNextKey_end [of es ri it] 0 by (subst linear_search.simps) (auto simp: iter_end_def)
next
  case (Suc n)
  have j: "j < length es" using Suc.hyps(2) by simp
  obtain it' where p: "ParseNextKey it = Some (True, it')" "biter_at es ri j it'"
    using ParseNextKey_at [OF assms Suc.prems(1) j] by blast
  have key: "bi_key it' = entry_key (es ! j)" using p(2) by (simp add: biter_at_def)
  have d: "drop j es = es ! j # drop (Suc j) es" using j by (simp add: Cons_nth_drop_Suc)
  show ?case
  proof (cases "smaller cmp target (es ! j)")
    case True
    then have m: "m = Suc j + length (takeWhile (smaller cmp target) (drop (Suc j) es))" using Suc.prems(2) d by simp
    have "n = length es - Suc j" using Suc.hyps(2) by simp
    then show ?thesis
      using Suc.hyps(1) [OF _ at_ready [OF assms p(2)] m] p(1) key True
      by (subst linear_search.simps) (simp add: smaller_def)
  next
    case False
    then have "m = j" using Suc.prems(2) d by simp
    then show ?thesis using p key False j by (subst linear_search.simps) (auto simp: smaller_def)
  qed
qed

context comparator
begin

lemma smaller_prefix:
  assumes "keys_sorted compare valid (map snd es)" "valid target" "m < length es" "smaller compare target (es ! m)" "i \<le> m"
  shows "smaller compare target (es ! i)"
proof (cases "i = m")
  case False
  then have "compare (entry_key (es ! i)) (entry_key (es ! m)) < 0"
    using assms(1,3,5) sorted_wrt_nth_less [of "\<lambda>a b. compare (fst a) (fst b) < 0" "map snd es" i m] by (simp add: keys_sorted_def)
  moreover have "valid (entry_key (es ! i))" "valid (entry_key (es ! m))" using assms(1,3,5) by (simp_all add: keys_sorted_def)
  ultimately show ?thesis using compare_trans assms(2,4) unfolding smaller_def by blast
qed (use assms(4) in simp)

lemma BlockIter_Seek_at:
  assumes "wf_block es ri" "iter_on es ri it" "keys_sorted compare valid (map snd es)" "valid target"
  defines "m \<equiv> lower_bound compare target (map snd es)"
  shows "\<exists>it'. BlockIter_Seek compare target it = Some it' \<and> (if m < length es then biter_at es ri m it' else iter_end es ri it')"
proof -
  have "bi_num_restarts it - 1 < length ri" using assms(1,2) by (simp add: wf_block_def iter_on_def)
  then obtain l where l: "binary_search compare target it 0 (bi_num_restarts it - 1) = Some (SearchAt l)" "l < length ri"
    "l = 0 \<or> compare (entry_key (es ! (ri ! l))) target < 0"
    using binary_search_at [OF assms(1,2), of 0 "bi_num_restarts it - 1" compare target] by auto
  have before: "smaller compare target e" if e: "e \<in> set (take (ri ! l) es)" for e
  proof -
    obtain i where "i < length (take (ri ! l) es)" "take (ri ! l) es ! i = e" using e unfolding in_set_conv_nth by blast
    then have i: "i < ri ! l" "i < length es" "e = es ! i" by simp_all
    have "ri ! 0 = 0" using assms(1) by (simp add: wf_block_def)
    then have "l \<noteq> 0" using i(1) by (cases l) simp_all
    then have s: "smaller compare target (es ! (ri ! l))" using l(3) by (simp add: smaller_def)
    have "ri ! l < length es" using wf_block_restart [OF assms(1) nth_mem [OF l(2)]] i(1) by auto
    then show ?thesis using smaller_prefix [OF assms(3,4) _ s] i by simp
  qed
  have "takeWhile (smaller compare target) es = take (ri ! l) es @ takeWhile (smaller compare target) (drop (ri ! l) es)"
    using takeWhile_append2 [of "take (ri ! l) es" "smaller compare target" "drop (ri ! l) es"] before by simp
  moreover have "m = length (takeWhile (smaller compare target) es)"
    by (simp add: m_def lower_bound_def takeWhile_map comp_def smaller_def [abs_def])
  ultimately have "m = ri ! l + length (takeWhile (smaller compare target) (drop (ri ! l) es))"
    using restart_index_le [OF assms(1) l(2)] by simp
  then show ?thesis
    using linear_search_at [OF assms(1) restart_ready [OF assms(1,2) l(2)]] l(1) by (simp add: BlockIter_Seek_def)
qed

end


subsection \<open>The iterator is a cursor\<close>

definition BlockIter_ops :: "(bytes \<Rightarrow> bytes \<Rightarrow> int) \<Rightarrow> block_iter iterator_ops" where
  "BlockIter_ops cmp = \<lparr>iValid = BlockIter_Valid, iSeekToFirst = BlockIter_SeekToFirst, iSeekToLast = BlockIter_SeekToLast,
     iSeek = BlockIter_Seek cmp, iNext = BlockIter_Next, iPrev = BlockIter_Prev, iKey = bi_key, iValue = BlockIter_value,
     iStatus = bi_status\<rparr>"

definition block_on :: "(bytes \<Rightarrow> bytes \<Rightarrow> int) \<Rightarrow> (bytes \<Rightarrow> bool) \<Rightarrow> entries \<Rightarrow> nat option \<Rightarrow> block_iter \<Rightarrow> bool" where
  "block_on cmp valid kvs p it \<longleftrightarrow> (\<exists>es ri. wf_block es ri \<and> kvs = map snd es \<and> keys_sorted cmp valid kvs \<and>
     (case p of None \<Rightarrow> iter_end es ri it | Some i \<Rightarrow> biter_at es ri i it))"

lemma BlockIter_value_at:
  assumes "wf_block es ri" "biter_at es ri i it"
  shows "BlockIter_value it = entry_value (es ! i)"
proof -
  note at = assms(2) [unfolded biter_at_def iter_on_def]
  let ?e = "es ! i"
  have limit: "length (entries_bytes es) \<le> length (block_bytes es ri)" by (simp add: block_bytes_def)
  have size: "length (block_bytes es ri) < 2 ^ 32" using assms(1) by (simp add: wf_block_def)
  have chain: "entry_shared ?e \<le> length (entry_key ?e)" using chained_nth [of "[]" es i] assms(1) at by (simp add: wf_block_def)
  have i: "i < length es" using at by simp
  note d = DecodeEntry_entry [OF entry_in_block [OF i, of ri] limit size chain]
  have "entry_offset es (Suc i) - length (entry_value ?e) =
      entry_offset es i + length (entry_header ?e) + (length (entry_key ?e) - entry_shared ?e)"
    by (simp add: entry_offset_Suc [OF i] entry_bytes_def)
  then show ?thesis using d at by (simp add: BlockIter_value_def)
qed

lemma at_valid: "biter_at es ri i it \<Longrightarrow> BlockIter_Valid it"
  using entry_offset_less [of i "length es" es] by (simp add: biter_at_def iter_on_def BlockIter_Valid_def entry_offset_end)

lemma block_onE:
  assumes "block_on cmp valid kvs p it"
  obtains es ri where "wf_block es ri" "kvs = map snd es" "keys_sorted cmp valid kvs" "iter_on es ri it"
    "case p of None \<Rightarrow> iter_end es ri it | Some i \<Rightarrow> biter_at es ri i it"
proof -
  obtain es ri where e: "wf_block es ri" "kvs = map snd es" "keys_sorted cmp valid kvs"
    "case p of None \<Rightarrow> iter_end es ri it | Some i \<Rightarrow> biter_at es ri i it"
    using assms by (auto simp: block_on_def)
  then have "iter_on es ri it" by (cases p) (simp_all add: iter_end_def biter_at_def)
  then show ?thesis using that e by blast
qed

lemma block_on_Some:
  "block_on cmp valid kvs (Some i) it \<Longrightarrow>
   \<exists>es ri. wf_block es ri \<and> kvs = map snd es \<and> keys_sorted cmp valid kvs \<and> biter_at es ri i it"
  by (simp add: block_on_def)

lemma block_onI:
  "wf_block es ri \<Longrightarrow> kvs = map snd es \<Longrightarrow> keys_sorted cmp valid kvs \<Longrightarrow>
   (case p of None \<Rightarrow> iter_end es ri it | Some i \<Rightarrow> biter_at es ri i it) \<Longrightarrow> block_on cmp valid kvs p it"
  unfolding block_on_def by blast

sublocale comparator \<subseteq> block: cursor "BlockIter_ops compare" compare valid "block_on compare valid"
proof
  show "\<not> iValid (BlockIter_ops compare) it" if "block_on compare valid kvs None it" for kvs it
    using that by (auto simp: block_on_def iter_end_def BlockIter_ops_def BlockIter_Valid_def)
  show "i < length kvs \<and> iValid (BlockIter_ops compare) it \<and> iKey (BlockIter_ops compare) it = fst (kvs ! i) \<and>
      iValue (BlockIter_ops compare) it = snd (kvs ! i)" if "block_on compare valid kvs (Some i) it" for kvs i it
    using that at_valid BlockIter_value_at by (elim block_onE) (auto simp: biter_at_def BlockIter_ops_def)
  show "iStatus (BlockIter_ops compare) it = OK" if "block_on compare valid kvs p it" for kvs p it
    using that by (elim block_onE) (simp add: iter_on_def BlockIter_ops_def)
  show "\<exists>it'. iSeekToFirst (BlockIter_ops compare) it = Some it' \<and> block_on compare valid kvs (position kvs 0) it'"
    if on: "block_on compare valid kvs p it" for kvs p it
  proof -
    obtain es ri where e: "wf_block es ri" "kvs = map snd es" "keys_sorted compare valid kvs" "iter_on es ri it"
      using on by (rule block_onE)
    then show ?thesis using BlockIter_SeekToFirst_at [OF e(1,4)] block_onI [OF e(1,2,3)]
      by (auto simp: BlockIter_ops_def position_def split: if_splits)
  qed
  show "\<exists>it'. iSeekToLast (BlockIter_ops compare) it = Some it' \<and> block_on compare valid kvs (last_position kvs) it'"
    if on: "block_on compare valid kvs p it" for kvs p it
  proof -
    obtain es ri where e: "wf_block es ri" "kvs = map snd es" "keys_sorted compare valid kvs" "iter_on es ri it"
      using on by (rule block_onE)
    then show ?thesis using BlockIter_SeekToLast_at [OF e(1,4)] block_onI [OF e(1,2,3)]
      by (auto simp: BlockIter_ops_def last_position_def split: if_splits)
  qed
  show "\<exists>it'. iSeek (BlockIter_ops compare) target it = Some it' \<and>
      block_on compare valid kvs (position kvs (lower_bound compare target kvs)) it'"
    if on: "block_on compare valid kvs p it" and v: "valid target" for kvs p it target
  proof -
    obtain es ri where e: "wf_block es ri" "kvs = map snd es" "keys_sorted compare valid kvs" "iter_on es ri it"
      using on by (rule block_onE)
    then show ?thesis using BlockIter_Seek_at [OF e(1,4) _ v] block_onI [OF e(1,2,3)]
      by (auto simp: BlockIter_ops_def position_def split: if_splits)
  qed
  show "\<exists>it'. iNext (BlockIter_ops compare) it = Some it' \<and> block_on compare valid kvs (position kvs (Suc i)) it'"
    if on: "block_on compare valid kvs (Some i) it" for kvs i it
  proof -
    obtain es ri where e: "wf_block es ri" "kvs = map snd es" "keys_sorted compare valid kvs" "biter_at es ri i it"
      using block_on_Some [OF on] by blast
    then show ?thesis using BlockIter_Next_at [OF e(1,4)] block_onI [OF e(1,2,3)]
      by (auto simp: BlockIter_ops_def position_def split: if_splits)
  qed
  show "\<exists>it'. iPrev (BlockIter_ops compare) it = Some it' \<and> block_on compare valid kvs (before_position i) it'"
    if on: "block_on compare valid kvs (Some i) it" for kvs i it
  proof -
    obtain es ri where e: "wf_block es ri" "kvs = map snd es" "keys_sorted compare valid kvs" "biter_at es ri i it"
      using block_on_Some [OF on] by blast
    then show ?thesis using BlockIter_Prev_at [OF e(1,4)] block_onI [OF e(1,2,3)]
      by (auto simp: BlockIter_ops_def before_position_def split: if_splits nat.splits)
  qed
qed

context comparator
begin

lemmas block_cursor = block.cursor_axioms

end

interpretation block_bytewise: cursor "BlockIter_ops BytewiseCompare" BytewiseCompare "\<lambda>_. True" "block_on BytewiseCompare (\<lambda>_. True)"
  by (rule bytewise.block.cursor_axioms)


subsection \<open>Built blocks\<close>

lemma shared_loop_diff_index: "shared_loop a b i = diff_index a b i"
  by (induction a b i rule: shared_loop.induct) (subst shared_loop.simps, subst diff_index.simps, simp)

lemma shared_loop_prefix:
  "shared_loop a b 0 \<le> length a \<and> shared_loop a b 0 \<le> length b \<and> take (shared_loop a b 0) a = take (shared_loop a b 0) b"
  using diff_index_split [of 0 a b] by (simp add: shared_loop_diff_index Let_def)

definition build_block :: "nat \<Rightarrow> entries \<Rightarrow> bytes" where
  "build_block interval kvs =
     fst (BlockBuilder_Finish (fold (\<lambda>(k, v). BlockBuilder_Add interval k v) kvs new_BlockBuilder))"

definition built :: "block_builder \<Rightarrow> entry list \<Rightarrow> nat list \<Rightarrow> bool" where
  "built b es ri \<longleftrightarrow> bb_buffer b = entries_bytes es \<and> bb_restarts b = map (\<lambda>i. of_nat (entry_offset es i)) ri \<and>
     chained [] es \<and> ri \<noteq> [] \<and> ri ! 0 = 0 \<and> sorted_wrt (<) ri \<and>
     (\<forall>i \<in> set ri. i < length es \<and> entry_shared (es ! i) = 0 \<or> i = 0) \<and>
     bb_last_key b = key_before [] es (length es) \<and> (es = [] \<longrightarrow> bb_counter b = 0)"

lemma chained_snoc:
  "chained prev (es @ [e]) \<longleftrightarrow> chained prev es \<and> entry_shared e \<le> length (key_before prev es (length es)) \<and>
     entry_shared e \<le> length (entry_key e) \<and>
     take (entry_shared e) (key_before prev es (length es)) = take (entry_shared e) (entry_key e)"
proof (induction es arbitrary: prev)
  case (Cons x es)
  have "key_before prev (x # es) (length (x # es)) = key_before (entry_key x) es (length es)"
    by (cases es) (simp_all add: key_before_def)
  then show ?case using Cons.IH by (auto simp del: length_Cons)
qed (simp add: key_before_def)

lemma entry_offset_snoc: "i \<le> length es \<Longrightarrow> entry_offset (es @ [e]) i = entry_offset es i"
  by (simp add: entry_offset_def)

text \<open>One more entry, at a restart point or not.\<close>

lemma Add_entry:
  assumes "shared \<le> length before" "shared \<le> length key" "take shared before = take shared key"
  shows "(PutVarint32 (PutVarint32 (PutVarint32 buffer (of_nat shared)) (of_nat (length key - shared))) (of_nat (length val)) @
      take (length key - shared) (drop shared key)) @ val = buffer @ entry_bytes (shared, key, val)"
    "take shared before @ take (length key - shared) (drop shared key) = key"
  using assms by (simp_all add: PutVarint32_def entry_bytes_def entry_header_def)

lemma built_Add:
  assumes "built b es ri" "1 \<le> interval"
  shows "\<exists>shared ri'. built (BlockBuilder_Add interval key val b) (es @ [(shared, key, val)]) ri'"
proof -
  note b = assms(1) [unfolded built_def]
  let ?last = "key_before [] es (length es)"
  have fields: "bb_buffer b = entries_bytes es" "bb_last_key b = ?last" using b by simp_all
  have old: "i < length (es @ [e]) \<and> entry_shared ((es @ [e]) ! i) = 0 \<or> i = 0" if "i \<in> set ri" for i e
    using b that by (auto simp: nth_append)
  have le: "i \<le> length es" if "i \<in> set ri" for i using b that by force
  then have offs: "map (\<lambda>i. of_nat (entry_offset (es @ [e]) i) :: u32) ri = map (\<lambda>i. of_nat (entry_offset es i)) ri" for e
    by (simp add: entry_offset_snoc)
  show ?thesis
  proof (cases "bb_counter b < interval")
    case True
    define shared where "shared = shared_loop ?last key 0"
    have s: "shared \<le> length ?last" "shared \<le> length key" "take shared ?last = take shared key"
      using shared_loop_prefix [of ?last key] by (simp_all add: shared_def)
    have add: "BlockBuilder_Add interval key val b = b\<lparr>bb_buffer := entries_bytes es @ entry_bytes (shared, key, val),
        bb_last_key := key, bb_counter := bb_counter b + 1\<rparr>"
      unfolding BlockBuilder_Add_def Let_def if_P [OF True] prod.case fields shared_def [symmetric] Add_entry [OF s] ..
    have "built (BlockBuilder_Add interval key val b) (es @ [(shared, key, val)]) ri"
      unfolding add using b s old offs by (simp add: built_def chained_snoc key_before_def)
    then show ?thesis by blast
  next
    case False
    then have ne: "es \<noteq> []" using b assms(2) by auto
    let ?ri = "ri @ [length es]"
    have less: "i < length es" if "i \<in> set ri" for i using b that ne by force
    have add: "BlockBuilder_Add interval key val b = b\<lparr>bb_restarts := bb_restarts b @ [of_nat (entry_offset es (length es))],
        bb_buffer := entries_bytes es @ entry_bytes (0, key, val), bb_last_key := key, bb_counter := 1\<rparr>"
      using Add_entry [of 0 ?last key]
      unfolding BlockBuilder_Add_def Let_def if_not_P [OF False] prod.case fields entry_offset_end by (simp add: fields)
    have "built (BlockBuilder_Add interval key val b) (es @ [(0, key, val)]) ?ri"
      unfolding add using b old offs less
      by (auto simp: built_def chained_snoc key_before_def entry_offset_snoc sorted_wrt_append nth_append)
    then show ?thesis by blast
  qed
qed

lemma built_new: "built new_BlockBuilder [] [0]"
  by (simp add: built_def new_BlockBuilder_def key_before_def)

lemma build_wf:
  assumes "1 \<le> interval" "length (build_block interval kvs) < 2 ^ 32"
  shows "\<exists>es ri. build_block interval kvs = block_bytes es ri \<and> wf_block es ri \<and> map snd es = kvs"
proof -
  have "built b es ri \<Longrightarrow> \<exists>es' ri'. built (fold (\<lambda>(k, v). BlockBuilder_Add interval k v) kvs b) (es @ es') ri' \<and> map snd es' = kvs" for b es ri
  proof (induction kvs arbitrary: b es ri)
    case (Cons kv kvs)
    obtain k v where kv: "kv = (k, v)" by (cases kv)
    obtain shared ri1 where "built (BlockBuilder_Add interval k v b) (es @ [(shared, k, v)]) ri1"
      using built_Add [OF Cons.prems assms(1)] by blast
    then obtain es' ri' where "built (fold (\<lambda>(k, v). BlockBuilder_Add interval k v) kvs (BlockBuilder_Add interval k v b))
        ((es @ [(shared, k, v)]) @ es') ri'" "map snd es' = kvs"
      using Cons.IH by blast
    then show ?case using kv by (intro exI [of _ "(shared, k, v) # es'"] exI [of _ ri']) simp
  qed auto
  from this [OF built_new] obtain es ri where
    e: "built (fold (\<lambda>(k, v). BlockBuilder_Add interval k v) kvs new_BlockBuilder) es ri" "map snd es = kvs" by auto
  have r: "length ri = length (bb_restarts (fold (\<lambda>(k, v). BlockBuilder_Add interval k v) kvs new_BlockBuilder))"
    using e(1) by (simp add: built_def)
  have "build_block interval kvs = block_bytes es ri"
    using e(1) r unfolding build_block_def BlockBuilder_Finish_def Let_def fold_PutFixed32 built_def block_bytes_def
    by (simp add: PutFixed32_def del: map_map)
  moreover have "wf_block es ri" using e(1) assms(2) calculation by (simp add: wf_block_def built_def)
  ultimately show ?thesis using e(2) by blast
qed

text \<open>Opening a block finds its restart points.\<close>

lemma new_Block_wf:
  assumes "wf_block es ri"
  shows "Block_NewIterator (new_Block (block_bytes es ri)) =
    BlockIterator (new_BlockIter (block_bytes es ri) (length (entries_bytes es)) (length ri))"
proof -
  let ?data = "block_bytes es ri"
  have ri: "ri \<noteq> []" using assms by (simp add: wf_block_def)
  have size: "length ?data = length (entries_bytes es) + 4 * length ri + 4"
    unfolding block_bytes_def length_append length_EncodeFixed32s by simp
  have total: "length (entries_bytes es) + 4 * length ri < 2 ^ 32" by (rule wf_block_sizes(1) [OF assms])
  have "drop (length ?data - 4) ?data = EncodeFixed32 (of_nat (length ri))"
    unfolding size unfolding block_bytes_def by (simp add: length_EncodeFixed32s del: map_map)
  moreover have "length ri < 2 ^ 32" using total by simp
  ultimately have n: "NumRestarts ?data (length ?data) = length ri"
    using DecodeFixed32_Encode [of "of_nat (length ri)" "[]"] by (simp add: NumRestarts_def unat_of_nat_32)
  have "length ri \<le> (length ?data - 4) div 4" unfolding size by simp
  moreover have "length ?data - (1 + length ri) * 4 = length (entries_bytes es)" unfolding size by simp
  moreover have "length (entries_bytes es) mod 2 ^ 32 = length (entries_bytes es)" using total by simp
  ultimately show ?thesis
    using n size ri unfolding Block_NewIterator_def new_Block_def Let_def by simp
qed

lemma new_BlockIter_end: "iter_end es ri (new_BlockIter (block_bytes es ri) (length (entries_bytes es)) (length ri))"
  by (simp add: iter_end_def iter_on_def new_BlockIter_def)

text \<open>So the iterator on a built block starts as an invalid cursor in what was added.\<close>

context comparator
begin

lemma build_block_iterator:
  assumes "keys_sorted compare valid kvs" "1 \<le> interval" "length (build_block interval kvs) < 2 ^ 32"
  shows "\<exists>it. Block_NewIterator (new_Block (build_block interval kvs)) = BlockIterator it \<and> block_on compare valid kvs None it"
proof -
  obtain es ri where e: "build_block interval kvs = block_bytes es ri" "wf_block es ri" "map snd es = kvs"
    using build_wf [OF assms(2,3)] by blast
  then show ?thesis
    using new_Block_wf [OF e(2)] block_onI [OF e(2) e(3) [symmetric] assms(1), where p = None] new_BlockIter_end by simp
qed

end

end
