(* ===== verification/LdbMemIter.thy ===== *)
theory LdbMemIter
  imports LdbMem LdbIterator
begin

text \<open>
  The iterator of the memtable (MemTableIterator in db/memtable.cc) is a cursor in its entries, in
  the order of the internal keys. The state of an iterator is the table and the node it is at.
\<close>

definition MemTable_NewIterator :: "memtable \<Rightarrow> memtable \<times> nat option" where
  "MemTable_NewIterator table = (table, None)"

definition MemTableIterator_ops :: "(bytes \<Rightarrow> bytes \<Rightarrow> int) \<Rightarrow> (memtable \<times> nat option) iterator_ops" where
  "MemTableIterator_ops ucmp =
     \<lparr>iValid = (\<lambda>(table, x). x \<noteq> None),
      iSeekToFirst = (\<lambda>(table, x). Some (table, Iter_SeekToFirst table)),
      iSeekToLast = (\<lambda>(table, x). map_option (Pair table) (Iter_SeekToLast table)),
      iSeek = (\<lambda>k (table, x). map_option (Pair table) (MemIter_Seek ucmp k table)),
      iNext = (\<lambda>(table, x). Some (table, Iter_Next table (the x))),
      iPrev = (\<lambda>(table, x). map_option (Pair table) (MemIter_Prev ucmp (the x) table)),
      iKey = (\<lambda>(table, x). MemIter_key table (the x)),
      iValue = (\<lambda>(table, x). MemIter_value table (the x)),
      iStatus = (\<lambda>_. OK)\<rparr>"

definition mem_node :: "(bytes \<Rightarrow> bool) \<Rightarrow> memtable \<Rightarrow> nat \<Rightarrow> bool" where
  "mem_node uvalid table x \<longleftrightarrow> (\<exists>u s t v. key_at table x = mem_entry s t u v \<and> mem_fits uvalid u s v)"

definition mem_on :: "(bytes \<Rightarrow> bytes \<Rightarrow> int) \<Rightarrow> (bytes \<Rightarrow> bool) \<Rightarrow> entries \<Rightarrow> nat option \<Rightarrow> memtable \<times> nat option \<Rightarrow> bool" where
  "mem_on ucmp uvalid kvs p s \<longleftrightarrow> (case s of (table, x) \<Rightarrow>
     \<exists>L lv. wf_list (KeyComparator (InternalCompare ucmp)) table L lv \<and> (\<forall>x \<in> set L. mem_node uvalid table x) \<and>
       kvs = map (\<lambda>x. (MemIter_key table x, MemIter_value table x)) L \<and>
       (case p of None \<Rightarrow> x = None | Some i \<Rightarrow> i < length L \<and> x = Some (L ! i)))"

lemma mem_onE:
  assumes "mem_on ucmp uvalid kvs p s"
  obtains table x L lv where "s = (table, x)" "wf_list (KeyComparator (InternalCompare ucmp)) table L lv"
    "\<forall>x \<in> set L. mem_node uvalid table x" "kvs = map (\<lambda>x. (MemIter_key table x, MemIter_value table x)) L"
    "case p of None \<Rightarrow> x = None | Some i \<Rightarrow> i < length L \<and> x = Some (L ! i)"
  using assms by (auto simp: mem_on_def)

lemma mem_onI:
  "wf_list (KeyComparator (InternalCompare ucmp)) table L lv \<Longrightarrow> \<forall>x \<in> set L. mem_node uvalid table x \<Longrightarrow>
   kvs = map (\<lambda>x. (MemIter_key table x, MemIter_value table x)) L \<Longrightarrow>
   (case p of None \<Rightarrow> x = None | Some i \<Rightarrow> i < length L \<and> x = Some (L ! i)) \<Longrightarrow> mem_on ucmp uvalid kvs p (table, x)"
  by (auto simp: mem_on_def)

lemma first_position: "case position kvs 0 of None \<Rightarrow> first L = None | Some i \<Rightarrow> i < length L \<and> first L = Some (L ! i)"
  if "length kvs = length L"
  using that by (cases L) (auto simp: first_def position_def)

lemma drop_position: "length kvs = length L \<Longrightarrow>
   case position kvs i of None \<Rightarrow> first (drop i L) = None | Some j \<Rightarrow> j < length L \<and> first (drop i L) = Some (L ! j)"
  by (cases "i < length L") (simp_all add: position_def first_def Cons_nth_drop_Suc [symmetric])

lemma last_of_take: "i < length L \<Longrightarrow>
   case before_position i of None \<Rightarrow> last_of (take i L) = None | Some j \<Rightarrow> j < length L \<and> last_of (take i L) = Some (L ! j)"
  by (cases i) (auto simp: before_position_def last_of_def take_Suc_conv_app_nth)

context comparator
begin

sublocale memiter: cursor "MemTableIterator_ops compare" "InternalCompare compare"
  "\<lambda>k. internal_valid valid k \<and> length k < 2 ^ 32" "mem_on compare valid"
proof
  let ?K = "KeyComparator (InternalCompare compare)"
  have node: "mem_valid valid (key_at table x)" if "mem_node valid table x" for table x
    using that by (auto simp: mem_node_def mem_fits_def mem_valid_entry)
  show "\<not> iValid (MemTableIterator_ops compare) s" if "mem_on compare valid kvs None s" for kvs s
    using that by (elim mem_onE) (simp add: MemTableIterator_ops_def)
  show "i < length kvs \<and> iValid (MemTableIterator_ops compare) s \<and> iKey (MemTableIterator_ops compare) s = fst (kvs ! i) \<and>
      iValue (MemTableIterator_ops compare) s = snd (kvs ! i)" if "mem_on compare valid kvs (Some i) s" for kvs i s
    using that by (elim mem_onE) (simp add: MemTableIterator_ops_def)
  show "iStatus (MemTableIterator_ops compare) s = OK" for s by (simp add: MemTableIterator_ops_def)
  show "\<exists>s'. iSeekToFirst (MemTableIterator_ops compare) s = Some s' \<and> mem_on compare valid kvs (position kvs 0) s'"
    if "mem_on compare valid kvs p s" for kvs p s
    using that
  proof (rule mem_onE)
    fix table x L lv
    assume L: "s = (table, x)" "wf_list ?K table L lv" "\<forall>x \<in> set L. mem_node valid table x"
      "kvs = map (\<lambda>x. (MemIter_key table x, MemIter_value table x)) L"
    then show ?thesis
      using mem_onI [OF L(2,3,4) first_position] Iter_SeekToFirst_wf [OF L(2)] by (simp add: MemTableIterator_ops_def)
  qed
  show "\<exists>s'. iSeekToLast (MemTableIterator_ops compare) s = Some s' \<and> mem_on compare valid kvs (last_position kvs) s'"
    if "mem_on compare valid kvs p s" for kvs p s
    using that
  proof (rule mem_onE)
    fix table x L lv
    assume L: "s = (table, x)" "wf_list ?K table L lv" "\<forall>x \<in> set L. mem_node valid table x"
      "kvs = map (\<lambda>x. (MemIter_key table x, MemIter_value table x)) L"
    then show ?thesis
      using mem_onI [OF L(2,3,4), where p = "last_position kvs" and x = "last_of L"] Iter_SeekToLast_wf [OF L(2)]
      by (auto simp: MemTableIterator_ops_def last_position_def last_of_def last_conv_nth)
  qed
  show "\<exists>s'. iSeek (MemTableIterator_ops compare) k s = Some s' \<and>
      mem_on compare valid kvs (position kvs (lower_bound (InternalCompare compare) k kvs)) s'"
    if "mem_on compare valid kvs p s" "internal_valid valid k \<and> length k < 2 ^ 32" for kvs p s k
    using that(1)
  proof (rule mem_onE)
    fix table x L lv
    assume L: "s = (table, x)" "wf_list ?K table L lv" "\<forall>x \<in> set L. mem_node valid table x"
      "kvs = map (\<lambda>x. (MemIter_key table x, MemIter_value table x)) L"
    have k: "mem_valid valid (length_prefixed k)" using that(2) by (simp add: mem_valid_def)
    obtain A B where AB: "L = A @ B" "divides ?K table (length_prefixed k) A B"
      using mem.divides_exists [of table L "length_prefixed k"] L(2,3) node k by (auto simp: wf_list_def)
    have less: "?K (key_at table x) (length_prefixed k) < 0 \<longleftrightarrow> InternalCompare compare (MemIter_key table x) k < 0" for x
      using that(2) by (simp add: KeyComparator_def MemIter_key_def)
    have "lower_bound (InternalCompare compare) k kvs = length A"
    proof (rule lower_bound_eqI)
      show "length A \<le> length kvs" using AB(1) L(4) by simp
      show "InternalCompare compare (fst (kvs ! i)) k < 0" if "i < length A" for i
        using AB L(4) that less by (simp add: divides_def nth_append)
      show "\<not> InternalCompare compare (fst (kvs ! length A)) k < 0" if "length A < length kvs"
      proof -
        have "B \<noteq> []" using that AB(1) L(4) by auto
        then show ?thesis using AB L(4) less by (auto simp: divides_def nth_append neq_Nil_conv)
      qed
    qed
    then show ?thesis
      using mem_onI [OF L(2,3,4) drop_position [of kvs L "length A"]] mem.Iter_Seek_wf [of table A B lv "length_prefixed k"] L(1,2,4) AB
      by (simp add: MemTableIterator_ops_def MemIter_Seek_def EncodeKey_prefixed)
  qed
  show "\<exists>s'. iNext (MemTableIterator_ops compare) s = Some s' \<and> mem_on compare valid kvs (position kvs (Suc i)) s'"
    if "mem_on compare valid kvs (Some i) s" for kvs i s
    using that
  proof (rule mem_onE)
    fix table x L lv
    assume L: "s = (table, x)" "wf_list ?K table L lv" "\<forall>x \<in> set L. mem_node valid table x"
      "kvs = map (\<lambda>x. (MemIter_key table x, MemIter_value table x)) L"
      "case Some i of None \<Rightarrow> x = None | Some i \<Rightarrow> i < length L \<and> x = Some (L ! i)"
    then have i: "i < length L" "x = Some (L ! i)" by simp_all
    have "Iter_Next table (L ! i) = first (drop (Suc i) L)"
      using Iter_Next_wf [of ?K table "take i L" "L ! i" "drop (Suc i) L" lv] L(2) id_take_nth_drop [OF i(1)] by simp
    then show ?thesis
      using mem_onI [OF L(2,3,4) drop_position [of kvs L "Suc i"]] L(1,4) i by (simp add: MemTableIterator_ops_def)
  qed
  show "\<exists>s'. iPrev (MemTableIterator_ops compare) s = Some s' \<and> mem_on compare valid kvs (before_position i) s'"
    if "mem_on compare valid kvs (Some i) s" for kvs i s
    using that
  proof (rule mem_onE)
    fix table x L lv
    assume L: "s = (table, x)" "wf_list ?K table L lv" "\<forall>x \<in> set L. mem_node valid table x"
      "kvs = map (\<lambda>x. (MemIter_key table x, MemIter_value table x)) L"
      "case Some i of None \<Rightarrow> x = None | Some i \<Rightarrow> i < length L \<and> x = Some (L ! i)"
    then have i: "i < length L" "x = Some (L ! i)" by simp_all
    have "Iter_Prev ?K table (L ! i) = Some (last_of (take i L))"
      using mem.Iter_Prev_wf [of table "take i L" "L ! i" "drop (Suc i) L" lv] L(2,3) node id_take_nth_drop [OF i(1)] by auto
    then show ?thesis
      using mem_onI [OF L(2,3,4) last_of_take [OF i(1)]] L(1) i by (simp add: MemTableIterator_ops_def MemIter_Prev_def)
  qed
qed

end

end
