(* ===== verification/LdbMerge.thy ===== *)
theory LdbMerge
  imports LdbBlock LdbMemIter
begin

text \<open>
  The merging iterator (table/merger.cc): it shows the entries of its children, which are sorted, in
  one sorted sequence, in both directions. A child is a wrapper; \<open>current_\<close> is the index of a child.
\<close>

subsection \<open>The iterator\<close>

record 's merging =
  mg_children :: "'s wrapper list"
  mg_current :: "nat option"
  mg_forward :: bool

definition new_MergingIterator :: "'s iterator_ops \<Rightarrow> 's list \<Rightarrow> 's merging" where
  "new_MergingIterator ops children =
     \<lparr>mg_children = map (\<lambda>child. wrapper_Set ops (Some child) new_wrapper) children, mg_current = None, mg_forward = True\<rparr>"

definition FindSmallest :: "(bytes \<Rightarrow> bytes \<Rightarrow> int) \<Rightarrow> 's merging \<Rightarrow> 's merging" where
  "FindSmallest cmp m =
     m\<lparr>mg_current := fold (\<lambda>i smallest.
         let child = mg_children m ! i in
         if w_valid child
         then (case smallest of
                 None \<Rightarrow> Some i
               | Some k \<Rightarrow> if cmp (w_key child) (w_key (mg_children m ! k)) < 0 then Some i else Some k)
         else smallest) [0 ..< length (mg_children m)] None\<rparr>"

definition FindLargest :: "(bytes \<Rightarrow> bytes \<Rightarrow> int) \<Rightarrow> 's merging \<Rightarrow> 's merging" where
  "FindLargest cmp m =
     m\<lparr>mg_current := fold (\<lambda>i largest.
         let child = mg_children m ! i in
         if w_valid child
         then (case largest of
                 None \<Rightarrow> Some i
               | Some k \<Rightarrow> if cmp (w_key child) (w_key (mg_children m ! k)) > 0 then Some i else Some k)
         else largest) (rev [0 ..< length (mg_children m)]) None\<rparr>"

text \<open>A loop over the children: from index \<open>i\<close> on, \<open>f\<close> is applied to each child.\<close>

fun each_child :: "(nat \<Rightarrow> 's wrapper \<Rightarrow> 's wrapper option) \<Rightarrow> nat \<Rightarrow> 's wrapper list \<Rightarrow> 's wrapper list option" where
  "each_child f i [] = Some []"
| "each_child f i (w # ws) =
     (case f i w of None \<Rightarrow> None | Some w \<Rightarrow> map_option (Cons w) (each_child f (Suc i) ws))"

definition move_children :: "(nat \<Rightarrow> 's wrapper \<Rightarrow> 's wrapper option) \<Rightarrow> 's merging \<Rightarrow> 's merging option" where
  "move_children f m = map_option (\<lambda>ws. m\<lparr>mg_children := ws\<rparr>) (each_child f 0 (mg_children m))"

definition Merging_SeekToFirst :: "'s iterator_ops \<Rightarrow> (bytes \<Rightarrow> bytes \<Rightarrow> int) \<Rightarrow> 's merging \<Rightarrow> 's merging option" where
  "Merging_SeekToFirst ops cmp m =
     map_option (\<lambda>m. (FindSmallest cmp m)\<lparr>mg_forward := True\<rparr>) (move_children (\<lambda>i. iSeekToFirst (Wrapper_ops ops)) m)"

definition Merging_SeekToLast :: "'s iterator_ops \<Rightarrow> (bytes \<Rightarrow> bytes \<Rightarrow> int) \<Rightarrow> 's merging \<Rightarrow> 's merging option" where
  "Merging_SeekToLast ops cmp m =
     map_option (\<lambda>m. (FindLargest cmp m)\<lparr>mg_forward := False\<rparr>) (move_children (\<lambda>i. iSeekToLast (Wrapper_ops ops)) m)"

definition Merging_Seek :: "'s iterator_ops \<Rightarrow> (bytes \<Rightarrow> bytes \<Rightarrow> int) \<Rightarrow> bytes \<Rightarrow> 's merging \<Rightarrow> 's merging option" where
  "Merging_Seek ops cmp target m =
     map_option (\<lambda>m. (FindSmallest cmp m)\<lparr>mg_forward := True\<rparr>) (move_children (\<lambda>i. iSeek (Wrapper_ops ops) target) m)"

definition Merging_key :: "'s merging \<Rightarrow> bytes" where
  "Merging_key m = w_key (mg_children m ! the (mg_current m))"

text \<open>Turning round: the children that are not current are placed behind, or before, the key.\<close>

definition turn_forward :: "'s iterator_ops \<Rightarrow> (bytes \<Rightarrow> bytes \<Rightarrow> int) \<Rightarrow> bytes \<Rightarrow> 's wrapper \<Rightarrow> 's wrapper option" where
  "turn_forward ops cmp key child =
     (case iSeek (Wrapper_ops ops) key child of
        None \<Rightarrow> None
      | Some child \<Rightarrow> if w_valid child \<and> cmp key (w_key child) = 0 then iNext (Wrapper_ops ops) child else Some child)"

definition turn_backward :: "'s iterator_ops \<Rightarrow> bytes \<Rightarrow> 's wrapper \<Rightarrow> 's wrapper option" where
  "turn_backward ops key child =
     (case iSeek (Wrapper_ops ops) key child of
        None \<Rightarrow> None
      | Some child \<Rightarrow> if w_valid child then iPrev (Wrapper_ops ops) child else iSeekToLast (Wrapper_ops ops) child)"

definition Merging_Next :: "'s iterator_ops \<Rightarrow> (bytes \<Rightarrow> bytes \<Rightarrow> int) \<Rightarrow> 's merging \<Rightarrow> 's merging option" where
  "Merging_Next ops cmp m =
     (let c = the (mg_current m) in
      case (if \<not> mg_forward m
            then map_option (\<lambda>m. m\<lparr>mg_forward := True\<rparr>)
                   (move_children (\<lambda>i child. if i \<noteq> c then turn_forward ops cmp (Merging_key m) child else Some child) m)
            else Some m) of
        None \<Rightarrow> None
      | Some m \<Rightarrow>
          map_option (FindSmallest cmp) (move_children (\<lambda>i child. if i = c then iNext (Wrapper_ops ops) child else Some child) m))"

definition Merging_Prev :: "'s iterator_ops \<Rightarrow> (bytes \<Rightarrow> bytes \<Rightarrow> int) \<Rightarrow> 's merging \<Rightarrow> 's merging option" where
  "Merging_Prev ops cmp m =
     (let c = the (mg_current m) in
      case (if mg_forward m
            then map_option (\<lambda>m. m\<lparr>mg_forward := False\<rparr>)
                   (move_children (\<lambda>i child. if i \<noteq> c then turn_backward ops (Merging_key m) child else Some child) m)
            else Some m) of
        None \<Rightarrow> None
      | Some m \<Rightarrow>
          map_option (FindLargest cmp) (move_children (\<lambda>i child. if i = c then iPrev (Wrapper_ops ops) child else Some child) m))"

text \<open>The first status that is not ok, or the last one.\<close>

fun Merging_status :: "'s iterator_ops \<Rightarrow> 's wrapper list \<Rightarrow> Status" where
  "Merging_status ops [] = OK"
| "Merging_status ops [w] = iStatus (Wrapper_ops ops) w"
| "Merging_status ops (w # ws) =
     (if ok (iStatus (Wrapper_ops ops) w) then Merging_status ops ws else iStatus (Wrapper_ops ops) w)"

definition MergingIterator_ops :: "'s iterator_ops \<Rightarrow> (bytes \<Rightarrow> bytes \<Rightarrow> int) \<Rightarrow> 's merging iterator_ops" where
  "MergingIterator_ops ops cmp =
     \<lparr>iValid = (\<lambda>m. mg_current m \<noteq> None),
      iSeekToFirst = Merging_SeekToFirst ops cmp, iSeekToLast = Merging_SeekToLast ops cmp,
      iSeek = Merging_Seek ops cmp, iNext = Merging_Next ops cmp, iPrev = Merging_Prev ops cmp,
      iKey = Merging_key, iValue = (\<lambda>m. iValue (Wrapper_ops ops) (mg_children m ! the (mg_current m))),
      iStatus = (\<lambda>m. Merging_status ops (mg_children m))\<rparr>"

text \<open>No child makes an empty iterator, and one child is its own merge.\<close>

datatype 's merged = MergedNone Status | MergedOne 's | Merged "'s merging"

definition NewMergingIterator :: "'s iterator_ops \<Rightarrow> 's list \<Rightarrow> 's merged" where
  "NewMergingIterator ops list =
     (case list of [] \<Rightarrow> MergedNone NewEmptyIterator | [child] \<Rightarrow> MergedOne child | _ \<Rightarrow> Merged (new_MergingIterator ops list))"

subsection \<open>Parts of a list\<close>

text \<open>\<open>own\<close> tells which child an entry of the merged list belongs to; \<open>part\<close> is what a child has, and
  \<open>cut\<close> how many of the first \<open>j\<close> entries belong to it.\<close>

definition part :: "entries \<Rightarrow> (nat \<Rightarrow> nat) \<Rightarrow> nat \<Rightarrow> entries" where
  "part kvs own i = map (nth kvs) (filter (\<lambda>j. own j = i) [0 ..< length kvs])"

definition cut :: "(nat \<Rightarrow> nat) \<Rightarrow> nat \<Rightarrow> nat \<Rightarrow> nat" where
  "cut own i j = length (filter (\<lambda>j. own j = i) [0 ..< j])"

lemma cut_0 [simp]: "cut own i 0 = 0"
  by (simp add: cut_def)

lemma cut_Suc: "cut own i (Suc j) = (if own j = i then Suc (cut own i j) else cut own i j)"
  by (simp add: cut_def)

lemma length_part: "length (part kvs own i) = cut own i (length kvs)"
  by (simp add: part_def cut_def)

lemma cut_mono: "j \<le> k \<Longrightarrow> cut own i j \<le> cut own i k"
proof (induction k)
  case (Suc k)
  then show ?case by (cases "j = Suc k") (auto simp: cut_Suc)
qed simp

lemma part_split:
  "j < length kvs \<Longrightarrow> part kvs own (own j) =
     map (nth kvs) (filter (\<lambda>k. own k = own j) [0 ..< j]) @ kvs ! j # map (nth kvs) (filter (\<lambda>k. own k = own j) [Suc j ..< length kvs])"
proof -
  assume j: "j < length kvs"
  then have "[0 ..< length kvs] = [0 ..< j] @ j # [Suc j ..< length kvs]"
    by (metis le0 less_imp_le_nat upt_add_eq_append upt_conv_Cons le_add_diff_inverse add_0)
  then show ?thesis by (simp add: part_def)
qed

lemma part_nth_cut: "j < length kvs \<Longrightarrow> cut own (own j) j < length (part kvs own (own j)) \<and> part kvs own (own j) ! cut own (own j) j = kvs ! j"
  by (subst (1 2) part_split) (auto simp: cut_def nth_append)

text \<open>The entry of a child at its cut is not before \<open>j\<close>, the one before it is.\<close>

lemma part_nth_index:
  "c < length (part kvs own i) \<Longrightarrow> \<exists>k < length kvs. own k = i \<and> cut own i k = c \<and> part kvs own i ! c = kvs ! k"
proof -
  assume "c < length (part kvs own i)"
  then have "c < cut own i (length kvs)" by (simp add: length_part)
  then have "\<exists>k < n. own k = i \<and> cut own i k = c" if "c < cut own i n" for n
    using that
  proof (induction n)
    case (Suc n)
    then show ?case by (cases "c < cut own i n") (auto simp: cut_Suc less_Suc_eq split: if_splits)
  qed simp
  then obtain k where "k < length kvs" "own k = i" "cut own i k = c" using \<open>c < cut own i (length kvs)\<close> by blast
  then show ?thesis using part_nth_cut [of k kvs own] by auto
qed

lemma cut_less: "cut own i k < cut own i j \<Longrightarrow> k < j"
  using cut_mono [of j k own i] by (meson leD not_le)


subsection \<open>Choosing a child\<close>

lemma select_none:
  "(\<And>i. i \<in> set xs \<Longrightarrow> \<not> good i) \<Longrightarrow>
   fold (\<lambda>i acc. if good i then (case acc of None \<Rightarrow> Some i | Some k \<Rightarrow> if better i k then Some i else Some k) else acc) xs acc = acc"
  by (induction xs) simp_all

lemma select_some:
  assumes "good c" "\<not> better c c"
  shows "(\<And>i. i \<in> set xs \<Longrightarrow> good i \<Longrightarrow> i \<noteq> c \<Longrightarrow> better c i \<and> \<not> better i c) \<Longrightarrow>
   (case acc of None \<Rightarrow> c \<in> set xs | Some k \<Rightarrow> k = c \<or> c \<in> set xs \<and> better c k) \<Longrightarrow>
   fold (\<lambda>i acc. if good i then (case acc of None \<Rightarrow> Some i | Some k \<Rightarrow> if better i k then Some i else Some k) else acc) xs acc = Some c"
proof (induction xs arbitrary: acc)
  case Nil
  then show ?case by (cases acc) simp_all
next
  case (Cons i xs)
  let ?acc = "if good i then (case acc of None \<Rightarrow> Some i | Some k \<Rightarrow> if better i k then Some i else Some k) else acc"
  have "case ?acc of None \<Rightarrow> c \<in> set xs | Some k \<Rightarrow> k = c \<or> c \<in> set xs \<and> better c k"
    using Cons.prems(1) [of i] Cons.prems(2) assms by (cases acc) auto
  then show ?case using Cons.IH [of ?acc] Cons.prems(1) by simp
qed

lemma each_child_all:
  "(\<And>i. i < length ws \<Longrightarrow> \<exists>w. f (n + i) (ws ! i) = Some w \<and> Q i w) \<Longrightarrow>
   \<exists>ws'. each_child f n ws = Some ws' \<and> length ws' = length ws \<and> (\<forall>i < length ws. Q i (ws' ! i))"
proof (induction ws arbitrary: n Q)
  case (Cons w ws)
  obtain w' where w': "f n w = Some w'" "Q 0 w'" using Cons.prems [of 0] by auto
  obtain ws' where "each_child f (Suc n) ws = Some ws'" "length ws' = length ws" "\<forall>i < length ws. Q (Suc i) (ws' ! i)"
    using Cons.IH [of "Suc n" "\<lambda>i. Q (Suc i)"] Cons.prems [of "Suc _"] by auto
  then show ?case using w' by (auto simp: less_Suc_eq_0_disj)
qed simp

subsection \<open>The merged sequence\<close>

text \<open>A cursor whose keys are ordered.\<close>

locale ordered_cursor = cursor +
  assumes cmp_eq: "valid a \<Longrightarrow> valid b \<Longrightarrow> cmp a b = 0 \<longleftrightarrow> a = b"
    and cmp_swap: "valid a \<Longrightarrow> valid b \<Longrightarrow> cmp a b < 0 \<longleftrightarrow> 0 < cmp b a"
    and cmp_trans: "valid a \<Longrightarrow> valid b \<Longrightarrow> valid c \<Longrightarrow> cmp a b < 0 \<Longrightarrow> cmp b c < 0 \<Longrightarrow> cmp a c < 0"

definition children_at ::
  "'s iterator_ops \<Rightarrow> (entries \<Rightarrow> nat option \<Rightarrow> 's \<Rightarrow> bool) \<Rightarrow> entries \<Rightarrow> (nat \<Rightarrow> nat) \<Rightarrow> (nat \<Rightarrow> nat option) \<Rightarrow> 's wrapper list \<Rightarrow> bool" where
  "children_at ops at kvs own pos ws \<longleftrightarrow>
     (\<forall>i < length ws. wrapper_at ops (at (part kvs own i) (pos i)) (ws ! i)) \<and> (\<forall>j < length kvs. own j < length ws)"

definition forward_pos :: "entries \<Rightarrow> (nat \<Rightarrow> nat) \<Rightarrow> nat \<Rightarrow> nat \<Rightarrow> nat option" where
  "forward_pos kvs own j i = position (part kvs own i) (cut own i j)"

definition backward_pos :: "(nat \<Rightarrow> nat) \<Rightarrow> nat \<Rightarrow> nat \<Rightarrow> nat option" where
  "backward_pos own j i = before_position (cut own i j)"

definition merge_on ::
  "'s iterator_ops \<Rightarrow> (bytes \<Rightarrow> bytes \<Rightarrow> int) \<Rightarrow> (bytes \<Rightarrow> bool) \<Rightarrow> (entries \<Rightarrow> nat option \<Rightarrow> 's \<Rightarrow> bool) \<Rightarrow> entries \<Rightarrow> nat option \<Rightarrow>
     's merging \<Rightarrow> bool" where
  "merge_on ops cmp valid at kvs p m \<longleftrightarrow> keys_sorted cmp valid kvs \<and>
     (\<exists>own. case p of
        None \<Rightarrow> mg_current m = None \<and> (\<exists>pos. children_at ops at kvs own pos (mg_children m))
      | Some j \<Rightarrow> j < length kvs \<and> mg_current m = Some (own j) \<and>
          children_at ops at kvs own
            (\<lambda>i. if i = own j \<or> mg_forward m then forward_pos kvs own j i else backward_pos own j i) (mg_children m))"

context ordered_cursor
begin

lemma sorted_nth_less:
  "keys_sorted cmp valid kvs \<Longrightarrow> i < j \<Longrightarrow> j < length kvs \<Longrightarrow> cmp (fst (kvs ! i)) (fst (kvs ! j)) < 0"
  using sorted_wrt_nth_less [of "\<lambda>a b. cmp (fst a) (fst b) < 0" kvs i j] by (simp add: keys_sorted_def)

lemma sorted_valid: "keys_sorted cmp valid kvs \<Longrightarrow> i < length kvs \<Longrightarrow> valid (fst (kvs ! i))"
  by (simp add: keys_sorted_def)

lemma cmp_irrefl: "valid a \<Longrightarrow> \<not> cmp a a < 0"
  using cmp_swap [of a a] by auto

lemma sorted_nth_less_iff:
  assumes "keys_sorted cmp valid kvs" "i < length kvs" "j < length kvs"
  shows "cmp (fst (kvs ! i)) (fst (kvs ! j)) < 0 \<longleftrightarrow> i < j"
proof -
  have "\<not> cmp (fst (kvs ! i)) (fst (kvs ! j)) < 0" if "j < i"
    using sorted_nth_less [OF assms(1) that assms(2)] cmp_swap [of "fst (kvs ! j)" "fst (kvs ! i)"] sorted_valid [OF assms(1)] assms(2,3) by auto
  then show ?thesis
    using sorted_nth_less [OF assms(1) _ assms(3), of i] cmp_irrefl [OF sorted_valid [OF assms(1,2)]]
    by (cases i j rule: linorder_cases) auto
qed

text \<open>The lower bound of a child is the cut at the lower bound of the merged list.\<close>

lemma sorted_lower_bound:
  assumes "keys_sorted cmp valid kvs" "valid target" "i < length kvs"
  shows "cmp (fst (kvs ! i)) target < 0 \<longleftrightarrow> i < lower_bound cmp target kvs"
proof -
  let ?n = "lower_bound cmp target kvs"
  have n: "?n \<le> length kvs" by (rule lower_bound_le)
  note less = lower_bound_less [of _ cmp target kvs] and stop = lower_bound_stop [of cmp target kvs]
  have "\<not> cmp (fst (kvs ! i)) target < 0" if "?n \<le> i"
  proof (cases "?n = i")
    case False
    then have "cmp (fst (kvs ! ?n)) (fst (kvs ! i)) < 0" using that assms(3) by (intro sorted_nth_less [OF assms(1)]) simp_all
    then show ?thesis
      using stop that assms cmp_trans [of "fst (kvs ! ?n)" "fst (kvs ! i)" target] sorted_valid [OF assms(1)] by auto
  qed (use stop assms(3) in simp)
  then show ?thesis using less by (meson not_le)
qed

lemma lower_bound_part:
  assumes "keys_sorted cmp valid kvs" "valid target"
  shows "lower_bound cmp target (part kvs own i) = cut own i (lower_bound cmp target kvs)"
proof (rule lower_bound_eqI)
  let ?n = "lower_bound cmp target kvs"
  have n: "?n \<le> length kvs" by (rule lower_bound_le)
  then show "cut own i ?n \<le> length (part kvs own i)" by (simp add: length_part cut_mono)
  show "cmp (fst (part kvs own i ! c)) target < 0" if c: "c < cut own i ?n" for c
  proof -
    have "c < length (part kvs own i)" using c n cut_mono [of ?n "length kvs" own i] by (simp add: length_part)
    then obtain k where k: "k < length kvs" "cut own i k = c" "part kvs own i ! c = kvs ! k" using part_nth_index by blast
    then have "k < ?n" using c cut_less by blast
    then show ?thesis using sorted_lower_bound [OF assms k(1)] k(3) by simp
  qed
  show "\<not> cmp (fst (part kvs own i ! cut own i ?n)) target < 0" if c: "cut own i ?n < length (part kvs own i)"
  proof -
    obtain k where k: "k < length kvs" "own k = i" "cut own i k = cut own i ?n" "part kvs own i ! cut own i ?n = kvs ! k"
      using part_nth_index [OF c] by blast
    have "\<not> k < ?n" using k(2,3) cut_mono [of "Suc k" ?n own i] by (auto simp: cut_Suc)
    then show ?thesis using sorted_lower_bound [OF assms k(1)] k(4) by simp
  qed
qed

lemma lower_bound_nth: "keys_sorted cmp valid kvs \<Longrightarrow> j < length kvs \<Longrightarrow> lower_bound cmp (fst (kvs ! j)) kvs = j"
  by (rule lower_bound_eqI) (auto simp: sorted_nth_less_iff)


lemma child_entry:
  assumes "c < length (part kvs own i)"
  obtains k where "k < length kvs" "own k = i" "cut own i k = c" "part kvs own i ! c = kvs ! k"
  using part_nth_index [OF assms] by blast

lemma wrapper_some:
  "wrapper_at ops (at kvs (Some c)) w \<Longrightarrow>
   c < length kvs \<and> w_valid w \<and> w_key w = fst (kvs ! c) \<and> iValue (Wrapper_ops ops) w = snd (kvs ! c)"
  using at_some by (auto simp: wrapper_at_def Wrapper_ops_def)

lemma wrapper_none: "wrapper_at ops (at kvs None) w \<Longrightarrow> \<not> w_valid w"
  using at_none by (auto simp: wrapper_at_def)

text \<open>When every child is behind the first \<open>j\<close> entries, the smallest key is that of entry \<open>j\<close>.\<close>

lemma FindSmallest_cut:
  assumes "keys_sorted cmp valid kvs" "children_at ops at kvs own (forward_pos kvs own j) (mg_children m)" "j \<le> length kvs"
  shows "mg_current (FindSmallest cmp m) = (if j < length kvs then Some (own j) else None)"
proof -
  let ?ws = "mg_children m"
  have child: "wrapper_at ops (at (part kvs own i) (forward_pos kvs own j i)) (?ws ! i)" if "i < length ?ws" for i
    using assms(2) that by (simp add: children_at_def)
  have entry: "\<exists>k. j \<le> k \<and> k < length kvs \<and> own k = i \<and> w_key (?ws ! i) = fst (kvs ! k)" if i: "i < length ?ws" "w_valid (?ws ! i)" for i
  proof -
    have c: "cut own i j < length (part kvs own i)"
      using child [OF i(1)] wrapper_none [of "part kvs own i" "?ws ! i"] i(2) by (auto simp: forward_pos_def position_def split: if_splits)
    then obtain k where k: "k < length kvs" "own k = i" "cut own i k = cut own i j" "part kvs own i ! cut own i j = kvs ! k"
      by (rule child_entry)
    moreover have "\<not> k < j" using k(2,3) cut_mono [of "Suc k" j own i] by (auto simp: cut_Suc)
    ultimately show ?thesis using wrapper_some [of "part kvs own i" "cut own i j" "?ws ! i"] child [OF i(1)] c
      by (auto simp: forward_pos_def position_def not_less)
  qed
  show ?thesis
  proof (cases "j < length kvs")
    case False
    then have "\<not> w_valid (?ws ! i)" if "i \<in> set [0 ..< length ?ws]" for i using entry [of i] that by auto
    then show ?thesis using False select_none [of "[0 ..< length ?ws]" "\<lambda>i. w_valid (?ws ! i)"] by (simp add: FindSmallest_def Let_def)
  next
    case True
    have c: "own j < length ?ws" using assms(2) True by (simp add: children_at_def)
    have own: "w_valid (?ws ! own j)" "w_key (?ws ! own j) = fst (kvs ! j)"
      using wrapper_some [of "part kvs own (own j)" "cut own (own j) j" "?ws ! own j"] child [OF c] part_nth_cut [OF True, of own]
      by (auto simp: forward_pos_def position_def)
    have "cmp (w_key (?ws ! own j)) (w_key (?ws ! i)) < 0 \<and> \<not> cmp (w_key (?ws ! i)) (w_key (?ws ! own j)) < 0"
      if i: "i \<in> set [0 ..< length ?ws]" "w_valid (?ws ! i)" "i \<noteq> own j" for i
    proof -
      obtain k where "j \<le> k" "k < length kvs" "own k = i" "w_key (?ws ! i) = fst (kvs ! k)" using entry [of i] i by auto
      moreover from this have "j < k" using i(3) by (cases "j = k") auto
      ultimately show ?thesis using own(2) sorted_nth_less_iff [OF assms(1)] True by simp
    qed
    moreover have "\<not> cmp (w_key (?ws ! own j)) (w_key (?ws ! own j)) < 0"
      using own(2) cmp_irrefl sorted_valid [OF assms(1) True] by simp
    ultimately show ?thesis
      using True c own(1) select_some [of "\<lambda>i. w_valid (?ws ! i)" "own j" "\<lambda>i k. cmp (w_key (?ws ! i)) (w_key (?ws ! k)) < 0" "[0 ..< length ?ws]" None]
      by (simp add: FindSmallest_def Let_def)
  qed
qed

lemma FindLargest_cut:
  assumes "keys_sorted cmp valid kvs" "children_at ops at kvs own (backward_pos own j) (mg_children m)" "j \<le> length kvs"
  shows "mg_current (FindLargest cmp m) = map_option own (before_position j)"
proof -
  let ?ws = "mg_children m"
  have child: "wrapper_at ops (at (part kvs own i) (backward_pos own j i)) (?ws ! i)" if "i < length ?ws" for i
    using assms(2) that by (simp add: children_at_def)
  have entry: "\<exists>k < j. own k = i \<and> w_key (?ws ! i) = fst (kvs ! k)" if i: "i < length ?ws" "w_valid (?ws ! i)" for i
  proof -
    obtain c where c: "cut own i j = Suc c"
      using child [OF i(1)] wrapper_none [of "part kvs own i" "?ws ! i"] i(2)
      by (cases "cut own i j") (auto simp: backward_pos_def before_position_def)
    then have "c < length (part kvs own i)" using cut_mono [OF assms(3), of own i] by (simp add: length_part)
    then obtain k where k: "k < length kvs" "own k = i" "cut own i k = c" "part kvs own i ! c = kvs ! k"
      by (rule child_entry)
    moreover have "k < j" using k(3) c cut_less [of own i k j] by simp
    ultimately show ?thesis using wrapper_some [of "part kvs own i" c "?ws ! i"] child [OF i(1)] c
      by (auto simp: backward_pos_def before_position_def)
  qed
  have swap: "cmp b a < 0 \<longleftrightarrow> 0 < cmp a b" if "valid a" "valid b" for a b using cmp_swap that by blast
  show ?thesis
  proof (cases j)
    case 0
    then have "\<not> w_valid (?ws ! i)" if "i \<in> set (rev [0 ..< length ?ws])" for i using entry [of i] that by auto
    then show ?thesis using 0 select_none [of "rev [0 ..< length ?ws]" "\<lambda>i. w_valid (?ws ! i)"]
      by (simp add: FindLargest_def Let_def before_position_def)
  next
    case (Suc l)
    have l: "l < length kvs" using Suc assms(3) by simp
    have c: "own l < length ?ws" using assms(2) l by (simp add: children_at_def)
    have own: "w_valid (?ws ! own l)" "w_key (?ws ! own l) = fst (kvs ! l)"
      using wrapper_some [of "part kvs own (own l)" "cut own (own l) l" "?ws ! own l"] child [OF c] part_nth_cut [OF l, of own] Suc
      by (auto simp: backward_pos_def before_position_def cut_Suc)
    have "0 < cmp (w_key (?ws ! own l)) (w_key (?ws ! i)) \<and> \<not> 0 < cmp (w_key (?ws ! i)) (w_key (?ws ! own l))"
      if i: "i \<in> set (rev [0 ..< length ?ws])" "w_valid (?ws ! i)" "i \<noteq> own l" for i
    proof -
      obtain k where k: "k < j" "own k = i" "w_key (?ws ! i) = fst (kvs ! k)" using entry [of i] i by auto
      then have "k < l" using i(3) Suc by (cases "k = l") auto
      moreover have "valid (fst (kvs ! k))" "valid (fst (kvs ! l))" using sorted_valid [OF assms(1)] calculation l by simp_all
      ultimately show ?thesis
        using own(2) k(3) sorted_nth_less_iff [OF assms(1), of k l] sorted_nth_less_iff [OF assms(1), of l k]
          swap [of "fst (kvs ! k)" "fst (kvs ! l)"] swap [of "fst (kvs ! l)" "fst (kvs ! k)"] l by simp
    qed
    moreover have "\<not> 0 < cmp (w_key (?ws ! own l)) (w_key (?ws ! own l))"
      using own(2) cmp_irrefl swap sorted_valid [OF assms(1) l] by simp
    ultimately show ?thesis
      using Suc c own(1) select_some [of "\<lambda>i. w_valid (?ws ! i)" "own l" "\<lambda>i k. 0 < cmp (w_key (?ws ! i)) (w_key (?ws ! k))" "rev [0 ..< length ?ws]" None]
      by (simp add: FindLargest_def Let_def before_position_def)
  qed
qed

lemma moved:
  assumes "children_at ops at kvs own pos (mg_children m)"
    "\<And>i w. wrapper_at ops (at (part kvs own i) (pos i)) w \<Longrightarrow>
       \<exists>w'. f i w = Some w' \<and> wrapper_at ops (at (part kvs own i) (pos' i)) w'"
  shows "\<exists>ws. move_children f m = Some (m\<lparr>mg_children := ws\<rparr>) \<and> children_at ops at kvs own pos' ws"
proof -
  have "\<exists>w'. f (0 + i) (mg_children m ! i) = Some w' \<and> wrapper_at ops (at (part kvs own i) (pos' i)) w'"
    if "i < length (mg_children m)" for i
    unfolding add_0 by (rule assms(2)) (use assms(1) that in \<open>simp add: children_at_def\<close>)
  then obtain ws where "each_child f 0 (mg_children m) = Some ws" "length ws = length (mg_children m)"
    "\<forall>i < length (mg_children m). wrapper_at ops (at (part kvs own i) (pos' i)) (ws ! i)"
    using each_child_all [of "mg_children m" f 0 "\<lambda>i. wrapper_at ops (at (part kvs own i) (pos' i))"] by metis
  then show ?thesis using assms(1) by (intro exI [of _ ws]) (simp add: children_at_def move_children_def)
qed

lemmas wrapped_cursor = cursor.first [OF wrapped] cursor.last [OF wrapped] cursor.seek [OF wrapped]
  cursor.next [OF wrapped] cursor.prev [OF wrapped]

lemma merge_forward:
  assumes "keys_sorted cmp valid kvs" "children_at ops at kvs own (forward_pos kvs own j) (mg_children m)" "j \<le> length kvs"
    "mg_children m' = mg_children m" "mg_current m' = mg_current (FindSmallest cmp m)" "mg_forward m'"
  shows "merge_on ops cmp valid at kvs (position kvs j) m'"
  using FindSmallest_cut [OF assms(1-3)] assms
  by (auto simp: merge_on_def position_def intro!: exI [of _ own])

lemma merge_backward:
  assumes "keys_sorted cmp valid kvs" "children_at ops at kvs own (backward_pos own j) (mg_children m)" "j \<le> length kvs"
    "mg_children m' = mg_children m" "mg_current m' = mg_current (FindLargest cmp m)" "\<not> mg_forward m'"
  shows "merge_on ops cmp valid at kvs (before_position j) m'"
proof (cases j)
  case 0
  then show ?thesis using FindLargest_cut [OF assms(1-3)] assms by (auto simp: merge_on_def before_position_def)
next
  case (Suc l)
  have l: "l < length kvs" using Suc assms(3) by simp
  have "backward_pos own j i = (if i = own l then forward_pos kvs own l i else backward_pos own l i)" for i
    using part_nth_cut [OF l, of own] Suc by (auto simp: backward_pos_def forward_pos_def cut_Suc before_position_def position_def)
  then have "backward_pos own j = (\<lambda>i. if i = own l then forward_pos kvs own l i else backward_pos own l i)" by blast
  then show ?thesis using FindLargest_cut [OF assms(1-3)] assms Suc l
    by (auto simp: merge_on_def before_position_def intro!: exI [of _ own])
qed

lemma merge_children:
  "merge_on ops cmp valid at kvs p m \<Longrightarrow> \<exists>own pos. children_at ops at kvs own pos (mg_children m)"
  by (auto simp: merge_on_def split: option.splits)

lemma turn_forward_at:
  assumes "keys_sorted cmp valid kvs" "j < length kvs" "i \<noteq> own j" "wrapper_at ops (at (part kvs own i) p) w"
  shows "\<exists>w'. turn_forward ops cmp (fst (kvs ! j)) w = Some w' \<and> wrapper_at ops (at (part kvs own i) (forward_pos kvs own j i)) w'"
proof -
  obtain w' where w': "iSeek (Wrapper_ops ops) (fst (kvs ! j)) w = Some w'"
    "wrapper_at ops (at (part kvs own i) (forward_pos kvs own j i)) w'"
    using cursor.seek [OF wrapped assms(4) sorted_valid [OF assms(1,2)]] lower_bound_part [OF assms(1) sorted_valid [OF assms(1,2)]]
      lower_bound_nth [OF assms(1,2)] by (auto simp: forward_pos_def)
  have "\<not> (w_valid w' \<and> cmp (fst (kvs ! j)) (w_key w') = 0)"
  proof (cases "cut own i j < length (part kvs own i)")
    case True
    then obtain k where k: "k < length kvs" "own k = i" "part kvs own i ! cut own i j = kvs ! k" by (rule child_entry)
    then have "w_key w' = fst (kvs ! k)" using wrapper_some [of "part kvs own i" "cut own i j" w'] w'(2) True by (simp add: forward_pos_def position_def)
    moreover have "k \<noteq> j" using k(2) assms(3) by auto
    moreover have "cmp (fst (kvs ! k)) (fst (kvs ! j)) < 0 \<or> cmp (fst (kvs ! j)) (fst (kvs ! k)) < 0"
      using sorted_nth_less_iff [OF assms(1)] k(1) assms(2) calculation(2) by auto
    ultimately show ?thesis
      using cmp_eq [OF sorted_valid [OF assms(1,2)] sorted_valid [OF assms(1) k(1)]] cmp_irrefl [OF sorted_valid [OF assms(1,2)]] by auto
  next
    case False
    then show ?thesis using wrapper_none [of "part kvs own i" w'] w'(2) by (auto simp: forward_pos_def position_def)
  qed
  then show ?thesis using w' by (auto simp: turn_forward_def)
qed

lemma turn_backward_at:
  assumes "keys_sorted cmp valid kvs" "j < length kvs" "wrapper_at ops (at (part kvs own i) p) w"
  shows "\<exists>w'. turn_backward ops (fst (kvs ! j)) w = Some w' \<and> wrapper_at ops (at (part kvs own i) (backward_pos own j i)) w'"
proof -
  obtain w' where w': "iSeek (Wrapper_ops ops) (fst (kvs ! j)) w = Some w'"
    "wrapper_at ops (at (part kvs own i) (forward_pos kvs own j i)) w'"
    using cursor.seek [OF wrapped assms(3) sorted_valid [OF assms(1,2)]] lower_bound_part [OF assms(1) sorted_valid [OF assms(1,2)]]
      lower_bound_nth [OF assms(1,2)] by (auto simp: forward_pos_def)
  show ?thesis
  proof (cases "cut own i j < length (part kvs own i)")
    case True
    then have at': "wrapper_at ops (at (part kvs own i) (Some (cut own i j))) w'" using w'(2) by (simp add: forward_pos_def position_def)
    then show ?thesis using w'(1) cursor.prev [OF wrapped at'] wrapper_some [OF at'] by (auto simp: turn_backward_def backward_pos_def)
  next
    case False
    then have at': "wrapper_at ops (at (part kvs own i) None) w'" using w'(2) by (simp add: forward_pos_def position_def)
    have len: "cut own i j = length (part kvs own i)" using False cut_mono [of j "length kvs" own i] assms(2) by (simp add: length_part)
    have "last_position (part kvs own i) = backward_pos own j i"
      unfolding backward_pos_def len by (cases "part kvs own i") (simp_all add: last_position_def before_position_def)
    then show ?thesis using w'(1) cursor.last [OF wrapped at'] wrapper_none [OF at'] by (auto simp: turn_backward_def)
  qed
qed

text \<open>A cursor on entry \<open>j\<close>: the current child is at it.\<close>

lemma merge_some:
  assumes "merge_on ops cmp valid at kvs (Some j) m"
  obtains own where "keys_sorted cmp valid kvs" "j < length kvs" "mg_current m = Some (own j)"
    "children_at ops at kvs own (\<lambda>i. if i = own j \<or> mg_forward m then forward_pos kvs own j i else backward_pos own j i) (mg_children m)"
    "forward_pos kvs own j (own j) = Some (cut own (own j) j)" "Merging_key m = fst (kvs ! j)"
    "iValue (Wrapper_ops ops) (mg_children m ! own j) = snd (kvs ! j)"
proof -
  obtain own where own: "keys_sorted cmp valid kvs" "j < length kvs" "mg_current m = Some (own j)"
    "children_at ops at kvs own (\<lambda>i. if i = own j \<or> mg_forward m then forward_pos kvs own j i else backward_pos own j i) (mg_children m)"
    using assms by (auto simp: merge_on_def)
  have self: "forward_pos kvs own j (own j) = Some (cut own (own j) j)"
    using part_nth_cut [OF own(2), of own] by (simp add: forward_pos_def position_def)
  have "own j < length (mg_children m)" using own(2,4) by (simp add: children_at_def)
  then have "wrapper_at ops (at (part kvs own (own j)) (if own j = own j \<or> mg_forward m then forward_pos kvs own j (own j)
      else backward_pos own j (own j))) (mg_children m ! own j)"
    using own(4) unfolding children_at_def by blast
  then show ?thesis
    using that [OF own self] wrapper_some [of "part kvs own (own j)" "cut own (own j) j" "mg_children m ! own j"]
      own(3) part_nth_cut [OF own(2), of own] self by (simp add: Merging_key_def)
qed

text \<open>Walking on in the direction the iterator is in, and turning it.\<close>

lemma Merging_Next_at:
  assumes "merge_on ops cmp valid at kvs (Some j) m"
  shows "\<exists>m'. Merging_Next ops cmp m = Some m' \<and> merge_on ops cmp valid at kvs (position kvs (Suc j)) m'"
proof -
  obtain own where own: "keys_sorted cmp valid kvs" "j < length kvs" "mg_current m = Some (own j)"
    "children_at ops at kvs own (\<lambda>i. if i = own j \<or> mg_forward m then forward_pos kvs own j i else backward_pos own j i) (mg_children m)"
    and self: "forward_pos kvs own j (own j) = Some (cut own (own j) j)" and key: "Merging_key m = fst (kvs ! j)"
    using merge_some [OF assms] by blast
  let ?turn = "if \<not> mg_forward m
    then map_option (\<lambda>m. m\<lparr>mg_forward := True\<rparr>)
      (move_children (\<lambda>i child. if i \<noteq> own j then turn_forward ops cmp (Merging_key m) child else Some child) m) else Some m"
  have "\<exists>m1. ?turn = Some m1 \<and> mg_current m1 = Some (own j) \<and> mg_forward m1 \<and> children_at ops at kvs own (forward_pos kvs own j) (mg_children m1)"
  proof (cases "mg_forward m")
    case True
    then show ?thesis using own(3,4) by simp
  next
    case False
    have "\<exists>w'. (if i \<noteq> own j then turn_forward ops cmp (fst (kvs ! j)) w else Some w) = Some w' \<and>
        wrapper_at ops (at (part kvs own i) (forward_pos kvs own j i)) w'"
      if "wrapper_at ops (at (part kvs own i) (if i = own j \<or> mg_forward m then forward_pos kvs own j i else backward_pos own j i)) w" for i w
      using that turn_forward_at [OF own(1,2), of i own _ w] by (cases "i = own j") auto
    then have "\<exists>ws. move_children (\<lambda>i child. if i \<noteq> own j then turn_forward ops cmp (fst (kvs ! j)) child else Some child) m = Some (m\<lparr>mg_children := ws\<rparr>) \<and>
        children_at ops at kvs own (forward_pos kvs own j) ws" by (rule moved [OF own(4)])
    then show ?thesis using False own(3) unfolding key by fastforce
  qed
  then obtain m1 where m1: "?turn = Some m1" "mg_current m1 = Some (own j)" "mg_forward m1"
    "children_at ops at kvs own (forward_pos kvs own j) (mg_children m1)" by blast
  have "\<exists>w'. (if i = own j then iNext (Wrapper_ops ops) w else Some w) = Some w' \<and>
      wrapper_at ops (at (part kvs own i) (forward_pos kvs own (Suc j) i)) w'"
    if "wrapper_at ops (at (part kvs own i) (forward_pos kvs own j i)) w" for i w
    using that self wrapped_cursor(4) [of "part kvs own i" "cut own i j" w] by (auto simp: forward_pos_def cut_Suc)
  then have "\<exists>ws. move_children (\<lambda>i child. if i = own j then iNext (Wrapper_ops ops) child else Some child) m1 = Some (m1\<lparr>mg_children := ws\<rparr>) \<and>
    children_at ops at kvs own (forward_pos kvs own (Suc j)) ws" by (rule moved [OF m1(4)])
  then obtain ws where ws:
    "move_children (\<lambda>i child. if i = own j then iNext (Wrapper_ops ops) child else Some child) m1 = Some (m1\<lparr>mg_children := ws\<rparr>)"
    "children_at ops at kvs own (forward_pos kvs own (Suc j)) ws" by blast
  have "merge_on ops cmp valid at kvs (position kvs (Suc j)) (FindSmallest cmp (m1\<lparr>mg_children := ws\<rparr>))"
    by (rule merge_forward [OF own(1), of own _ "m1\<lparr>mg_children := ws\<rparr>"]) (use ws(2) own(2) m1(3) in \<open>simp_all add: FindSmallest_def\<close>)
  then show ?thesis using m1(1) ws(1) own(3) by (simp add: Merging_Next_def Let_def)
qed

lemma Merging_Prev_at:
  assumes "merge_on ops cmp valid at kvs (Some j) m"
  shows "\<exists>m'. Merging_Prev ops cmp m = Some m' \<and> merge_on ops cmp valid at kvs (before_position j) m'"
proof -
  obtain own where own: "keys_sorted cmp valid kvs" "j < length kvs" "mg_current m = Some (own j)"
    "children_at ops at kvs own (\<lambda>i. if i = own j \<or> mg_forward m then forward_pos kvs own j i else backward_pos own j i) (mg_children m)"
    and self: "forward_pos kvs own j (own j) = Some (cut own (own j) j)" and key: "Merging_key m = fst (kvs ! j)"
    using merge_some [OF assms] by blast
  let ?pos = "\<lambda>i. if i = own j then forward_pos kvs own j i else backward_pos own j i"
  let ?turn = "if mg_forward m
    then map_option (\<lambda>m. m\<lparr>mg_forward := False\<rparr>)
      (move_children (\<lambda>i child. if i \<noteq> own j then turn_backward ops (Merging_key m) child else Some child) m) else Some m"
  have "\<exists>m1. ?turn = Some m1 \<and> mg_current m1 = Some (own j) \<and> \<not> mg_forward m1 \<and> children_at ops at kvs own ?pos (mg_children m1)"
  proof (cases "mg_forward m")
    case False
    then show ?thesis using own(3,4) by simp
  next
    case True
    have "\<exists>w'. (if i \<noteq> own j then turn_backward ops (fst (kvs ! j)) w else Some w) = Some w' \<and>
        wrapper_at ops (at (part kvs own i) (?pos i)) w'"
      if "wrapper_at ops (at (part kvs own i) (if i = own j \<or> mg_forward m then forward_pos kvs own j i else backward_pos own j i)) w" for i w
      using that turn_backward_at [OF own(1,2), of own i _ w] True by (cases "i = own j") auto
    then have "\<exists>ws. move_children (\<lambda>i child. if i \<noteq> own j then turn_backward ops (fst (kvs ! j)) child else Some child) m = Some (m\<lparr>mg_children := ws\<rparr>) \<and>
        children_at ops at kvs own ?pos ws" by (rule moved [OF own(4)])
    then show ?thesis using True own(3) unfolding key by fastforce
  qed
  then obtain m1 where m1: "?turn = Some m1" "mg_current m1 = Some (own j)" "\<not> mg_forward m1"
    "children_at ops at kvs own ?pos (mg_children m1)" by blast
  have "\<exists>w'. (if i = own j then iPrev (Wrapper_ops ops) w else Some w) = Some w' \<and>
      wrapper_at ops (at (part kvs own i) (backward_pos own j i)) w'"
    if "wrapper_at ops (at (part kvs own i) (?pos i)) w" for i w
    using that self wrapped_cursor(5) [of "part kvs own i" "cut own i j" w] by (auto simp: backward_pos_def)
  then have "\<exists>ws. move_children (\<lambda>i child. if i = own j then iPrev (Wrapper_ops ops) child else Some child) m1 = Some (m1\<lparr>mg_children := ws\<rparr>) \<and>
    children_at ops at kvs own (backward_pos own j) ws" by (rule moved [OF m1(4)])
  then obtain ws where ws:
    "move_children (\<lambda>i child. if i = own j then iPrev (Wrapper_ops ops) child else Some child) m1 = Some (m1\<lparr>mg_children := ws\<rparr>)"
    "children_at ops at kvs own (backward_pos own j) ws" by blast
  have "merge_on ops cmp valid at kvs (before_position j) (FindLargest cmp (m1\<lparr>mg_children := ws\<rparr>))"
    by (rule merge_backward [OF own(1), of own _ "m1\<lparr>mg_children := ws\<rparr>"]) (use ws(2) own(2) m1(3) in \<open>simp_all add: FindLargest_def\<close>)
  then show ?thesis using m1(1) ws(1) own(3) by (simp add: Merging_Prev_def Let_def)
qed

lemma seek_forward:
  assumes "merge_on ops cmp valid at kvs p m" "j \<le> length kvs"
    "\<And>own i q w. wrapper_at ops (at (part kvs own i) q) w \<Longrightarrow>
       \<exists>w'. f i w = Some w' \<and> wrapper_at ops (at (part kvs own i) (forward_pos kvs own j i)) w'"
  shows "\<exists>m'. map_option (\<lambda>m. (FindSmallest cmp m)\<lparr>mg_forward := True\<rparr>) (move_children f m) = Some m' \<and>
    merge_on ops cmp valid at kvs (position kvs j) m'"
proof -
  obtain own pos where "children_at ops at kvs own pos (mg_children m)" using merge_children [OF assms(1)] by blast
  from this assms(3) have "\<exists>ws. move_children f m = Some (m\<lparr>mg_children := ws\<rparr>) \<and>
      children_at ops at kvs own (forward_pos kvs own j) ws" by (rule moved)
  then obtain ws where ws: "move_children f m = Some (m\<lparr>mg_children := ws\<rparr>)" "children_at ops at kvs own (forward_pos kvs own j) ws" by blast
  have "merge_on ops cmp valid at kvs (position kvs j) ((FindSmallest cmp (m\<lparr>mg_children := ws\<rparr>))\<lparr>mg_forward := True\<rparr>)"
    by (rule merge_forward [of kvs own j "m\<lparr>mg_children := ws\<rparr>"])
      (use ws(2) assms(1,2) in \<open>simp_all add: FindSmallest_def merge_on_def\<close>)
  then show ?thesis using ws(1) by simp
qed

lemma seek_last:
  assumes "merge_on ops cmp valid at kvs p m"
  shows "\<exists>m'. Merging_SeekToLast ops cmp m = Some m' \<and> merge_on ops cmp valid at kvs (last_position kvs) m'"
proof -
  have part: "last_position (part kvs own i) = backward_pos own (length kvs) i" for own i
    using length_part [of kvs own i, symmetric]
    by (cases "part kvs own i") (auto simp: last_position_def backward_pos_def before_position_def split: nat.splits)
  obtain own pos where "children_at ops at kvs own pos (mg_children m)" using merge_children [OF assms(1)] by blast
  from this wrapped_cursor(2) have "\<exists>ws. move_children (\<lambda>i. iSeekToLast (Wrapper_ops ops)) m = Some (m\<lparr>mg_children := ws\<rparr>) \<and>
      children_at ops at kvs own (\<lambda>i. last_position (part kvs own i)) ws" by (rule moved)
  then obtain ws where ws: "move_children (\<lambda>i. iSeekToLast (Wrapper_ops ops)) m = Some (m\<lparr>mg_children := ws\<rparr>)"
      "children_at ops at kvs own (backward_pos own (length kvs)) ws" unfolding part by blast
  have "merge_on ops cmp valid at kvs (before_position (length kvs)) ((FindLargest cmp (m\<lparr>mg_children := ws\<rparr>))\<lparr>mg_forward := False\<rparr>)"
    by (rule merge_backward [of kvs own "length kvs" "m\<lparr>mg_children := ws\<rparr>"])
      (use ws(2) assms in \<open>simp_all add: FindLargest_def merge_on_def\<close>)
  moreover have "before_position (length kvs) = last_position kvs" by (cases kvs) (simp_all add: last_position_def before_position_def)
  ultimately show ?thesis using ws(1) by (simp add: Merging_SeekToLast_def)
qed

lemma Merging_status_at: "children_at ops at kvs own pos ws \<Longrightarrow> Merging_status ops ws = OK"
proof -
  assume "children_at ops at kvs own pos ws"
  then have "iStatus (Wrapper_ops ops) (ws ! i) = OK" if "i < length ws" for i
    using that cursor.status [OF wrapped, of "part kvs own i" "pos i"] by (simp add: children_at_def)
  then have "\<forall>w \<in> set ws. iStatus (Wrapper_ops ops) w = OK" by (auto simp: in_set_conv_nth)
  moreover have "\<forall>w \<in> set ws. iStatus (Wrapper_ops ops) w = OK \<Longrightarrow> Merging_status ops ws = OK" for ops :: "'s iterator_ops" and ws
    by (induction ops ws rule: Merging_status.induct) (auto simp: ok_def)
  ultimately show ?thesis by blast
qed

lemma merged: "cursor (MergingIterator_ops ops cmp) cmp valid (merge_on ops cmp valid at)"
proof
  let ?it = "MergingIterator_ops ops cmp"
  show "\<not> iValid ?it m" if "merge_on ops cmp valid at kvs None m" for kvs m
    using that by (auto simp: merge_on_def MergingIterator_ops_def)
  show "i < length kvs \<and> iValid ?it m \<and> iKey ?it m = fst (kvs ! i) \<and> iValue ?it m = snd (kvs ! i)"
    if "merge_on ops cmp valid at kvs (Some i) m" for kvs i m
    using that by (rule merge_some) (simp add: MergingIterator_ops_def)
  show "iStatus ?it m = OK" if "merge_on ops cmp valid at kvs p m" for kvs p m
    using merge_children [OF that] Merging_status_at by (auto simp: MergingIterator_ops_def)
  show "\<exists>m'. iSeekToFirst ?it m = Some m' \<and> merge_on ops cmp valid at kvs (position kvs 0) m'"
    if "merge_on ops cmp valid at kvs p m" for kvs p m
    using seek_forward [OF that, of 0 "\<lambda>i. iSeekToFirst (Wrapper_ops ops)"] wrapped_cursor(1)
    by (simp add: MergingIterator_ops_def Merging_SeekToFirst_def forward_pos_def)
  show "\<exists>m'. iSeekToLast ?it m = Some m' \<and> merge_on ops cmp valid at kvs (last_position kvs) m'"
    if "merge_on ops cmp valid at kvs p m" for kvs p m
    using seek_last [OF that] by (simp add: MergingIterator_ops_def)
  show "\<exists>m'. iSeek ?it target m = Some m' \<and> merge_on ops cmp valid at kvs (position kvs (lower_bound cmp target kvs)) m'"
    if "merge_on ops cmp valid at kvs p m" "valid target" for kvs p m target
  proof -
    have sorted: "keys_sorted cmp valid kvs" using that(1) by (simp add: merge_on_def)
    have len: "lower_bound cmp target kvs \<le> length kvs" by (rule lower_bound_le)
    show ?thesis
      unfolding MergingIterator_ops_def Merging_Seek_def iterator_ops.simps
    proof (rule seek_forward [OF that(1) len])
      show "\<exists>w'. iSeek (Wrapper_ops ops) target w = Some w' \<and>
          wrapper_at ops (at (part kvs own i) (forward_pos kvs own (lower_bound cmp target kvs) i)) w'"
        if "wrapper_at ops (at (part kvs own i) q) w" for own i q w
        using wrapped_cursor(3) [OF that \<open>valid target\<close>] lower_bound_part [OF sorted \<open>valid target\<close>]
        by (simp add: forward_pos_def)
    qed
  qed
  show "\<exists>m'. iNext ?it m = Some m' \<and> merge_on ops cmp valid at kvs (position kvs (Suc i)) m'"
    if "merge_on ops cmp valid at kvs (Some i) m" for kvs i m
    using Merging_Next_at [OF that] by (simp add: MergingIterator_ops_def)
  show "\<exists>m'. iPrev ?it m = Some m' \<and> merge_on ops cmp valid at kvs (before_position i) m'"
    if "merge_on ops cmp valid at kvs (Some i) m" for kvs i m
    using Merging_Prev_at [OF that] by (simp add: MergingIterator_ops_def)
qed

text \<open>Iterators in any state, on lists that are the parts of a sorted list, are merged.\<close>

lemma new_merged:
  assumes "keys_sorted cmp valid kvs" "\<And>j. j < length kvs \<Longrightarrow> own j < length children"
    "\<And>i. i < length children \<Longrightarrow> at (part kvs own i) (pos i) (children ! i)"
  shows "merge_on ops cmp valid at kvs None (new_MergingIterator ops children)"
proof -
  have "wrapper_at ops (at (part kvs own i) (pos i)) (wrapper_Set ops (Some (children ! i)) new_wrapper)" if "i < length children" for i
    by (rule wrapper_Set_at) (rule assms(3) [OF that])
  then have "children_at ops at kvs own pos (mg_children (new_MergingIterator ops children))"
    using assms(2) by (simp add: children_at_def new_MergingIterator_def)
  then show ?thesis using assms(1) by (auto simp: merge_on_def new_MergingIterator_def)
qed

end

subsection \<open>The children of a merging iterator\<close>

text \<open>Any cursor in the order of a comparator can be a child. Children of two classes are the two sides
  of a sum.\<close>

definition either_ops :: "'s iterator_ops \<Rightarrow> 't iterator_ops \<Rightarrow> ('s + 't) iterator_ops" where
  "either_ops a b = \<lparr>iValid = case_sum (iValid a) (iValid b),
     iSeekToFirst = case_sum (map_option Inl \<circ> iSeekToFirst a) (map_option Inr \<circ> iSeekToFirst b),
     iSeekToLast = case_sum (map_option Inl \<circ> iSeekToLast a) (map_option Inr \<circ> iSeekToLast b),
     iSeek = (\<lambda>k. case_sum (map_option Inl \<circ> iSeek a k) (map_option Inr \<circ> iSeek b k)),
     iNext = case_sum (map_option Inl \<circ> iNext a) (map_option Inr \<circ> iNext b),
     iPrev = case_sum (map_option Inl \<circ> iPrev a) (map_option Inr \<circ> iPrev b),
     iKey = case_sum (iKey a) (iKey b), iValue = case_sum (iValue a) (iValue b), iStatus = case_sum (iStatus a) (iStatus b)\<rparr>"

definition either_at ::
  "(entries \<Rightarrow> nat option \<Rightarrow> 's \<Rightarrow> bool) \<Rightarrow> (entries \<Rightarrow> nat option \<Rightarrow> 't \<Rightarrow> bool) \<Rightarrow> entries \<Rightarrow> nat option \<Rightarrow> 's + 't \<Rightarrow> bool" where
  "either_at at at' kvs p = case_sum (at kvs p) (at' kvs p)"

lemma either_cursor:
  assumes "cursor a cmp V at" "cursor b cmp W at'" "\<And>k. valid k \<Longrightarrow> V k \<and> W k"
  shows "cursor (either_ops a b) cmp valid (either_at at at')"
proof
  let ?ops = "either_ops a b" and ?at = "either_at at at'"
  show "\<not> iValid ?ops s" if "?at kvs None s" for kvs s
    using that cursor.at_none [OF assms(1)] cursor.at_none [OF assms(2)] by (cases s) (auto simp: either_ops_def either_at_def)
  show "i < length kvs \<and> iValid ?ops s \<and> iKey ?ops s = fst (kvs ! i) \<and> iValue ?ops s = snd (kvs ! i)" if "?at kvs (Some i) s" for kvs i s
    using that cursor.at_some [OF assms(1)] cursor.at_some [OF assms(2)] by (cases s) (auto simp: either_ops_def either_at_def)
  show "iStatus ?ops s = OK" if "?at kvs p s" for kvs p s
    using that cursor.status [OF assms(1)] cursor.status [OF assms(2)] by (cases s) (auto simp: either_ops_def either_at_def)
  show "\<exists>s'. iSeekToFirst ?ops s = Some s' \<and> ?at kvs (position kvs 0) s'" if "?at kvs p s" for kvs p s
    using that by (cases s) (use cursor.first [OF assms(1)] cursor.first [OF assms(2)] in \<open>fastforce simp: either_ops_def either_at_def\<close>)+
  show "\<exists>s'. iSeekToLast ?ops s = Some s' \<and> ?at kvs (last_position kvs) s'" if "?at kvs p s" for kvs p s
    using that by (cases s) (use cursor.last [OF assms(1)] cursor.last [OF assms(2)] in \<open>fastforce simp: either_ops_def either_at_def\<close>)+
  show "\<exists>s'. iNext ?ops s = Some s' \<and> ?at kvs (position kvs (Suc i)) s'" if "?at kvs (Some i) s" for kvs i s
    using that by (cases s) (use cursor.next [OF assms(1)] cursor.next [OF assms(2)] in \<open>fastforce simp: either_ops_def either_at_def\<close>)+
  show "\<exists>s'. iPrev ?ops s = Some s' \<and> ?at kvs (before_position i) s'" if "?at kvs (Some i) s" for kvs i s
    using that by (cases s) (use cursor.prev [OF assms(1)] cursor.prev [OF assms(2)] in \<open>fastforce simp: either_ops_def either_at_def\<close>)+
  show "\<exists>s'. iSeek ?ops k s = Some s' \<and> ?at kvs (position kvs (lower_bound cmp k kvs)) s'" if "?at kvs p s" "valid k" for kvs p s k
    using that(1) by (cases s)
      (use cursor.seek [OF assms(1), of kvs p _ k] cursor.seek [OF assms(2), of kvs p _ k] assms(3) [OF that(2)] in \<open>fastforce simp: either_ops_def either_at_def\<close>)+
qed

context comparator
begin

lemma ordered: "cursor ops compare valid at \<Longrightarrow> ordered_cursor ops compare valid at"
  by (rule ordered_cursor.intro [OF _ ordered_cursor_axioms.intro])
    (assumption, rule compare_eq, assumption+, rule compare_swap, assumption+, rule compare_trans)

end

text \<open>The children the database merges: the iterators of memtables, and those of blocks of internal keys.\<close>

definition mem_or_block_ops :: "(memtable \<times> nat option + block_iter) iterator_ops" where
  "mem_or_block_ops = either_ops (MemTableIterator_ops BytewiseCompare) (BlockIter_ops (InternalCompare BytewiseCompare))"

definition mem_or_block_at :: "entries \<Rightarrow> nat option \<Rightarrow> memtable \<times> nat option + block_iter \<Rightarrow> bool" where
  "mem_or_block_at = either_at (mem_on BytewiseCompare (\<lambda>_. True))
     (block_on (InternalCompare BytewiseCompare) (internal_valid (\<lambda>_. True)))"

definition internal_key_ok :: "bytes \<Rightarrow> bool" where
  "internal_key_ok k \<longleftrightarrow> 8 \<le> length k \<and> length k < 2 ^ 32"

interpretation merge_internal: ordered_cursor mem_or_block_ops "InternalCompare BytewiseCompare" internal_key_ok mem_or_block_at
proof -
  have "cursor mem_or_block_ops (InternalCompare BytewiseCompare) internal_key_ok mem_or_block_at"
    unfolding mem_or_block_ops_def mem_or_block_at_def
    by (rule either_cursor [OF bytewise.memiter.cursor_axioms internal_bytewise.block.cursor_axioms])
      (simp add: internal_key_ok_def internal_valid_def)
  moreover have "internal_valid (\<lambda>_. True) k" if "internal_key_ok k" for k
    using that by (simp add: internal_key_ok_def internal_valid_def)
  ultimately show "ordered_cursor mem_or_block_ops (InternalCompare BytewiseCompare) internal_key_ok mem_or_block_at"
    by (intro ordered_cursor.intro ordered_cursor_axioms.intro)
      (assumption, rule internal_bytewise.compare_eq, simp, simp, rule internal_bytewise.compare_swap, simp, simp,
       rule internal_bytewise.compare_trans)
qed

interpretation merge_bytewise: ordered_cursor "BlockIter_ops BytewiseCompare" BytewiseCompare "\<lambda>_. True"
  "block_on BytewiseCompare (\<lambda>_. True)"
  by (rule bytewise.ordered [OF bytewise.block.cursor_axioms])

end
