(* ===== verification/LdbDBIter.thy ===== *)
theory LdbDBIter
  imports LdbMerge
begin

text \<open>
  The iterator a client of the database gets (db/db_iter.cc): of the internal entries, which carry a
  sequence number and may be deletions, it shows for each user key the value that a reader at one
  sequence number sees. The internal iterator is any iterator. What the iterator tells the database
  of its reads is a list of the keys sampled.
\<close>

definition kReadBytesPeriod :: u32 where "kReadBytesPeriod = 1048576"

record 's dbiter =
  di_iter :: 's
  di_status :: Status
  di_saved_key :: bytes
  di_saved_value :: bytes
  di_forward :: bool
  di_valid :: bool
  di_rnd :: u32
  di_until :: nat
  di_samples :: "bytes list"

definition RandomCompactionPeriod :: "u32 \<Rightarrow> nat \<times> u32" where
  "RandomCompactionPeriod seed = (case Random_Uniform (2 * kReadBytesPeriod) seed of (n, seed) \<Rightarrow> (unat n, seed))"

definition NewDBIterator :: "'s \<Rightarrow> u32 \<Rightarrow> 's dbiter" where
  "NewDBIterator internal_iter seed =
     (case RandomCompactionPeriod (new_Random seed) of
        (n, seed) \<Rightarrow> \<lparr>di_iter = internal_iter, di_status = OK, di_saved_key = [], di_saved_value = [], di_forward = True,
          di_valid = False, di_rnd = seed, di_until = n, di_samples = []\<rparr>)"

partial_function (option) sample_loop :: "bytes \<Rightarrow> nat \<Rightarrow> 's dbiter \<Rightarrow> 's dbiter option" where
  "sample_loop k bytes_read it =
     (if di_until it < bytes_read
      then sample_loop k bytes_read
             (it\<lparr>di_until := di_until it + fst (RandomCompactionPeriod (di_rnd it)),
                 di_rnd := snd (RandomCompactionPeriod (di_rnd it)), di_samples := di_samples it @ [k]\<rparr>)
      else Some it)"

definition ParseKey :: "'s iterator_ops \<Rightarrow> 's dbiter \<Rightarrow> (ParsedInternalKey option \<times> 's dbiter) option" where
  "ParseKey ops it =
     (let k = iKey ops (di_iter it);
          bytes_read = length k + length (iValue ops (di_iter it))
      in map_option (\<lambda>it.
           let it = it\<lparr>di_until := di_until it - bytes_read\<rparr>
           in case ParseInternalKey k of
                None \<Rightarrow> (None, it\<lparr>di_status := Corruption ''corrupted internal key in DBIter'' []\<rparr>)
              | Some ikey \<Rightarrow> (Some ikey, it)) (sample_loop k bytes_read it))"

definition move_iter :: "('s \<Rightarrow> 's option) \<Rightarrow> 's dbiter \<Rightarrow> 's dbiter option" where
  "move_iter f it = map_option (\<lambda>s. it\<lparr>di_iter := s\<rparr>) (f (di_iter it))"

definition iter_valid :: "'s iterator_ops \<Rightarrow> 's dbiter \<Rightarrow> bool" where
  "iter_valid ops it \<longleftrightarrow> iValid ops (di_iter it)"

definition iter_user_key :: "'s iterator_ops \<Rightarrow> 's dbiter \<Rightarrow> bytes" where
  "iter_user_key ops it = ExtractUserKey (iKey ops (di_iter it))"

text \<open>One round of the loop of \<open>FindNextUserEntry\<close>: the left result stops the loop. The key to
  skip, \<open>*skip\<close>, is the saved key at every call.\<close>

definition next_entry ::
  "'s iterator_ops \<Rightarrow> (bytes \<Rightarrow> bytes \<Rightarrow> int) \<Rightarrow> u64 \<Rightarrow> bool \<Rightarrow> 's dbiter \<Rightarrow> ('s dbiter + bool \<times> 's dbiter) option" where
  "next_entry ops ucmp seq skipping it =
     (case ParseKey ops it of
        None \<Rightarrow> None
      | Some (ikey, it) \<Rightarrow>
          (case ikey of
             None \<Rightarrow> Some (Inr (skipping, it))
           | Some ikey \<Rightarrow>
               Some
                (if sequence ikey \<le> seq
                 then (case vtype ikey of
                         kTypeDeletion \<Rightarrow> Inr (True, it\<lparr>di_saved_key := user_key ikey\<rparr>)
                       | kTypeValue \<Rightarrow>
                           if skipping \<and> ucmp (user_key ikey) (di_saved_key it) \<le> 0 then Inr (skipping, it)
                           else Inl (it\<lparr>di_valid := True, di_saved_key := []\<rparr>))
                 else Inr (skipping, it))))"

partial_function (option) FindNextUserEntry ::
  "'s iterator_ops \<Rightarrow> (bytes \<Rightarrow> bytes \<Rightarrow> int) \<Rightarrow> u64 \<Rightarrow> bool \<Rightarrow> 's dbiter \<Rightarrow> 's dbiter option" where
  "FindNextUserEntry ops ucmp seq skipping it =
     Option.bind (next_entry ops ucmp seq skipping it)
       (\<lambda>r. case r of
          Inl it \<Rightarrow> Some it
        | Inr (skipping, it) \<Rightarrow>
            Option.bind (move_iter (iNext ops) it)
              (\<lambda>it. if iter_valid ops it then FindNextUserEntry ops ucmp seq skipping it
                    else Some (it\<lparr>di_saved_key := [], di_valid := False\<rparr>)))"

definition DBIter_Next :: "'s iterator_ops \<Rightarrow> (bytes \<Rightarrow> bytes \<Rightarrow> int) \<Rightarrow> u64 \<Rightarrow> 's dbiter \<Rightarrow> 's dbiter option" where
  "DBIter_Next ops ucmp seq it =
     (if \<not> di_forward it
      then
        (case move_iter (if \<not> iter_valid ops it then iSeekToFirst ops else iNext ops) (it\<lparr>di_forward := True\<rparr>) of
           None \<Rightarrow> None
         | Some it \<Rightarrow>
             if \<not> iter_valid ops it then Some (it\<lparr>di_valid := False, di_saved_key := []\<rparr>)
             else FindNextUserEntry ops ucmp seq True it)
      else FindNextUserEntry ops ucmp seq True (it\<lparr>di_saved_key := iter_user_key ops it\<rparr>))"

text \<open>The loop of \<open>FindPrevUserEntry\<close> carries the type of the entry it saw last.\<close>

definition prev_entry ::
  "'s iterator_ops \<Rightarrow> (bytes \<Rightarrow> bytes \<Rightarrow> int) \<Rightarrow> u64 \<Rightarrow> ValueType \<Rightarrow> 's dbiter \<Rightarrow> ('s dbiter + ValueType \<times> 's dbiter) option" where
  "prev_entry ops ucmp seq value_type it =
     (case ParseKey ops it of
        None \<Rightarrow> None
      | Some (ikey, it) \<Rightarrow>
          (case ikey of
             None \<Rightarrow> Some (Inr (value_type, it))
           | Some ikey \<Rightarrow>
               Some
                (if sequence ikey \<le> seq
                 then if value_type \<noteq> kTypeDeletion \<and> ucmp (user_key ikey) (di_saved_key it) < 0 then Inl it
                   else if vtype ikey = kTypeDeletion
                   then Inr (kTypeDeletion, it\<lparr>di_saved_key := [], di_saved_value := []\<rparr>)
                   else Inr (vtype ikey, it\<lparr>di_saved_key := iter_user_key ops it, di_saved_value := iValue ops (di_iter it)\<rparr>)
                 else Inr (value_type, it))))"

partial_function (option) find_prev_loop ::
  "'s iterator_ops \<Rightarrow> (bytes \<Rightarrow> bytes \<Rightarrow> int) \<Rightarrow> u64 \<Rightarrow> ValueType \<Rightarrow> 's dbiter \<Rightarrow> (ValueType \<times> 's dbiter) option" where
  "find_prev_loop ops ucmp seq value_type it =
     Option.bind (prev_entry ops ucmp seq value_type it)
       (\<lambda>r. case r of
          Inl it \<Rightarrow> Some (value_type, it)
        | Inr (value_type, it) \<Rightarrow>
            Option.bind (move_iter (iPrev ops) it)
              (\<lambda>it. if iter_valid ops it then find_prev_loop ops ucmp seq value_type it else Some (value_type, it)))"

definition FindPrevUserEntry :: "'s iterator_ops \<Rightarrow> (bytes \<Rightarrow> bytes \<Rightarrow> int) \<Rightarrow> u64 \<Rightarrow> 's dbiter \<Rightarrow> 's dbiter option" where
  "FindPrevUserEntry ops ucmp seq it =
     map_option
       (\<lambda>(value_type, it).
          if value_type = kTypeDeletion
          then it\<lparr>di_valid := False, di_saved_key := [], di_saved_value := [], di_forward := True\<rparr>
          else it\<lparr>di_valid := True\<rparr>)
       (if iter_valid ops it then find_prev_loop ops ucmp seq kTypeDeletion it else Some (kTypeDeletion, it))"

text \<open>Back over the entries of the saved key; false when there is nothing before them.\<close>

partial_function (option) scan_back ::
  "'s iterator_ops \<Rightarrow> (bytes \<Rightarrow> bytes \<Rightarrow> int) \<Rightarrow> 's dbiter \<Rightarrow> (bool \<times> 's dbiter) option" where
  "scan_back ops ucmp it =
     Option.bind (move_iter (iPrev ops) it)
       (\<lambda>it.
          if \<not> iter_valid ops it then Some (False, it\<lparr>di_valid := False, di_saved_key := [], di_saved_value := []\<rparr>)
          else if ucmp (iter_user_key ops it) (di_saved_key it) < 0 then Some (True, it)
          else scan_back ops ucmp it)"

definition DBIter_Prev :: "'s iterator_ops \<Rightarrow> (bytes \<Rightarrow> bytes \<Rightarrow> int) \<Rightarrow> u64 \<Rightarrow> 's dbiter \<Rightarrow> 's dbiter option" where
  "DBIter_Prev ops ucmp seq it =
     (if di_forward it
      then
        (case scan_back ops ucmp (it\<lparr>di_saved_key := iter_user_key ops it\<rparr>) of
           None \<Rightarrow> None
         | Some (found, it) \<Rightarrow> if found then FindPrevUserEntry ops ucmp seq (it\<lparr>di_forward := False\<rparr>) else Some it)
      else FindPrevUserEntry ops ucmp seq it)"

definition DBIter_Seek :: "'s iterator_ops \<Rightarrow> (bytes \<Rightarrow> bytes \<Rightarrow> int) \<Rightarrow> u64 \<Rightarrow> bytes \<Rightarrow> 's dbiter \<Rightarrow> 's dbiter option" where
  "DBIter_Seek ops ucmp seq target it =
     (let it = it\<lparr>di_forward := True, di_saved_value := [],
                  di_saved_key := AppendInternalKey [] \<lparr>user_key = target, sequence = seq, vtype = kValueTypeForSeek\<rparr>\<rparr>
      in case move_iter (iSeek ops (di_saved_key it)) it of
           None \<Rightarrow> None
         | Some it \<Rightarrow> if iter_valid ops it then FindNextUserEntry ops ucmp seq False it else Some (it\<lparr>di_valid := False\<rparr>))"

definition DBIter_SeekToFirst :: "'s iterator_ops \<Rightarrow> (bytes \<Rightarrow> bytes \<Rightarrow> int) \<Rightarrow> u64 \<Rightarrow> 's dbiter \<Rightarrow> 's dbiter option" where
  "DBIter_SeekToFirst ops ucmp seq it =
     (case move_iter (iSeekToFirst ops) (it\<lparr>di_forward := True, di_saved_value := []\<rparr>) of
        None \<Rightarrow> None
      | Some it \<Rightarrow> if iter_valid ops it then FindNextUserEntry ops ucmp seq False it else Some (it\<lparr>di_valid := False\<rparr>))"

definition DBIter_SeekToLast :: "'s iterator_ops \<Rightarrow> (bytes \<Rightarrow> bytes \<Rightarrow> int) \<Rightarrow> u64 \<Rightarrow> 's dbiter \<Rightarrow> 's dbiter option" where
  "DBIter_SeekToLast ops ucmp seq it =
     Option.bind (move_iter (iSeekToLast ops) (it\<lparr>di_forward := False, di_saved_value := []\<rparr>)) (FindPrevUserEntry ops ucmp seq)"

definition DBIter_ops :: "'s iterator_ops \<Rightarrow> (bytes \<Rightarrow> bytes \<Rightarrow> int) \<Rightarrow> u64 \<Rightarrow> 's dbiter iterator_ops" where
  "DBIter_ops ops ucmp seq =
     \<lparr>iValid = di_valid, iSeekToFirst = DBIter_SeekToFirst ops ucmp seq, iSeekToLast = DBIter_SeekToLast ops ucmp seq,
      iSeek = DBIter_Seek ops ucmp seq, iNext = DBIter_Next ops ucmp seq, iPrev = DBIter_Prev ops ucmp seq,
      iKey = (\<lambda>it. if di_forward it then iter_user_key ops it else di_saved_key it),
      iValue = (\<lambda>it. if di_forward it then iValue ops (di_iter it) else di_saved_value it),
      iStatus = (\<lambda>it. if ok (di_status it) then iStatus ops (di_iter it) else di_status it)\<rparr>"

subsection \<open>Sampling ends\<close>

definition seed_ok :: "u32 \<Rightarrow> bool" where
  "seed_ok seed \<longleftrightarrow> 0 < unat seed \<and> unat seed < 2147483647"

lemma new_Random_ok: "seed_ok (new_Random s)"
proof -
  define x where "x = s AND 0x7fffffff"
  have "(0x7fffffff :: u32) = mask 31" by (simp add: mask_eq_exp_minus_1)
  then have "unat x < 2 ^ 31"
    unfolding x_def by (simp only: take_bit_eq_mask [symmetric] unsigned_take_bit_eq) (simp add: take_bit_eq_mod)
  moreover have "unat x \<noteq> 2147483647" if "x \<noteq> 2147483647" using that by (simp add: word_unat_eq_iff)
  moreover have "0 < unat x" if "x \<noteq> 0" using that by (simp add: unat_gt_0)
  ultimately show ?thesis unfolding new_Random_def x_def [symmetric] Let_def seed_ok_def by (cases "x = 0 \<or> x = 2147483647") auto
qed

lemma Random_Next_ok: "seed_ok seed \<Longrightarrow> seed_ok (Random_Next seed)"
proof -
  assume s: "seed_ok seed"
  have "coprime (2147483647 :: nat) 16807" by (simp add: coprime_iff_gcd_eq_1 gcd_non_0_nat)
  moreover have "\<not> 2147483647 dvd unat seed" using s by (auto simp: seed_ok_def dest: dvd_imp_le)
  ultimately have "\<not> 2147483647 dvd unat seed * 16807" by (simp add: coprime_dvd_mult_left_iff)
  then show ?thesis using Random_Next_mod [of seed] s by (simp add: seed_ok_def dvd_eq_mod_eq_0)
qed

lemma RandomCompactionPeriod_simps:
  "snd (RandomCompactionPeriod seed) = Random_Next seed"
  "fst (RandomCompactionPeriod seed) = unat (Random_Next seed) mod 2097152"
  by (simp_all add: RandomCompactionPeriod_def Random_Uniform_def kReadBytesPeriod_def Let_def unat_mod)

text \<open>Two periods in a row are not both zero.\<close>

lemma period_grows:
  assumes "seed_ok seed" "fst (RandomCompactionPeriod seed) = 0"
  shows "0 < fst (RandomCompactionPeriod (Random_Next seed))"
proof -
  let ?x = "unat (Random_Next seed)"
  have x: "0 < ?x" "?x < 2147483647" "?x mod 2097152 = 0"
    using Random_Next_ok [OF assms(1)] assms(2) by (simp_all add: seed_ok_def RandomCompactionPeriod_simps)
  define q where "q = ?x div 2097152"
  have q: "?x = 2097152 * q" using mult_div_mod_eq [of 2097152 ?x] x(3) unfolding q_def by linarith
  have q1: "1 \<le> q" "q \<le> 1023" using x(1,2) unfolding q by (cases q, simp_all)
  define a where "a = 16807 * q div 1024"
  define b where "b = 16807 * q mod 1024"
  have ab: "16807 * q = 1024 * a + b" "1 \<le> a" "a < 16791" "b \<le> 1023" 
    using q1 unfolding a_def b_def by simp_all
  have "?x * 16807 = 2147483647 * a + (a + 2097152 * b)" using q ab(1) by simp
  moreover have "a + 2097152 * b < 2147483647" using ab by simp
  ultimately have "unat (Random_Next (Random_Next seed)) = a + 2097152 * b"
    using Random_Next_mod [of "Random_Next seed"] x(1,2) by (metis mod_less mod_mult_self4)
  then show ?thesis using ab by (simp add: RandomCompactionPeriod_simps)
qed

lemma sample_loop_returns:
  "seed_ok (di_rnd it) \<Longrightarrow> \<exists>it'. sample_loop k n it = Some it' \<and> n \<le> di_until it' \<and> seed_ok (di_rnd it') \<and>
     di_iter it' = di_iter it \<and> di_status it' = di_status it \<and> di_saved_key it' = di_saved_key it \<and>
     di_saved_value it' = di_saved_value it \<and> di_forward it' = di_forward it \<and> di_valid it' = di_valid it"
proof (induction "2 * (n - di_until it) + (if fst (RandomCompactionPeriod (di_rnd it)) = 0 then 1 else 0)" arbitrary: it rule: less_induct)
  case less
  let ?it = "it\<lparr>di_until := di_until it + fst (RandomCompactionPeriod (di_rnd it)),
    di_rnd := snd (RandomCompactionPeriod (di_rnd it)), di_samples := di_samples it @ [k]\<rparr>"
  show ?case
  proof (cases "di_until it < n")
    case True
    have "2 * (n - di_until ?it) + (if fst (RandomCompactionPeriod (di_rnd ?it)) = 0 then 1 else 0) <
        2 * (n - di_until it) + (if fst (RandomCompactionPeriod (di_rnd it)) = 0 then 1 else 0)"
      using True period_grows [OF less.prems]
      by (cases "fst (RandomCompactionPeriod (di_rnd it)) = 0") (simp_all add: RandomCompactionPeriod_simps(1), arith)
    then show ?thesis
      using less.hyps [of ?it] Random_Next_ok [OF less.prems] True by (subst sample_loop.simps) (simp add: RandomCompactionPeriod_simps(1))
  next
    case False
    then show ?thesis using less.prems by (subst sample_loop.simps) simp
  qed
qed

subsection \<open>What a reader sees\<close>

definition entry_user_key :: "entries \<Rightarrow> nat \<Rightarrow> bytes" where
  "entry_user_key kvs j = ExtractUserKey (fst (kvs ! j))"

definition entry_sequence :: "entries \<Rightarrow> nat \<Rightarrow> u64" where
  "entry_sequence kvs j = sequence (the (ParseInternalKey (fst (kvs ! j))))"

definition entry_type :: "entries \<Rightarrow> nat \<Rightarrow> ValueType" where
  "entry_type kvs j = vtype (the (ParseInternalKey (fst (kvs ! j))))"

definition seen :: "u64 \<Rightarrow> entries \<Rightarrow> nat \<Rightarrow> bool" where
  "seen seq kvs j \<longleftrightarrow> entry_sequence kvs j \<le> seq"

text \<open>The newest entry of its user key that is not too new, if it is a value.\<close>

definition visible :: "u64 \<Rightarrow> entries \<Rightarrow> nat \<Rightarrow> bool" where
  "visible seq kvs j \<longleftrightarrow> j < length kvs \<and> seen seq kvs j \<and> entry_type kvs j = kTypeValue \<and>
     (\<forall>i < j. entry_user_key kvs i = entry_user_key kvs j \<longrightarrow> \<not> seen seq kvs i)"

definition vis_own :: "u64 \<Rightarrow> entries \<Rightarrow> nat \<Rightarrow> nat" where
  "vis_own seq kvs j = (if visible seq kvs j then 0 else 1)"

definition user_entries :: "u64 \<Rightarrow> entries \<Rightarrow> entries" where
  "user_entries seq kvs = map (\<lambda>(k, v). (ExtractUserKey k, v)) (part kvs (vis_own seq kvs) 0)"

abbreviation vcount :: "u64 \<Rightarrow> entries \<Rightarrow> nat \<Rightarrow> nat" where
  "vcount seq kvs \<equiv> cut (vis_own seq kvs) 0"

lemma vis_own_0 [simp]: "vis_own seq kvs j = 0 \<longleftrightarrow> visible seq kvs j"
  by (simp add: vis_own_def)

lemma length_user_entries: "length (user_entries seq kvs) = vcount seq kvs (length kvs)"
  by (simp add: user_entries_def length_part)

lemma user_entries_nth:
  "visible seq kvs n \<Longrightarrow> vcount seq kvs n < length (user_entries seq kvs) \<and>
     user_entries seq kvs ! vcount seq kvs n = (entry_user_key kvs n, snd (kvs ! n))"
  using part_nth_cut [of n kvs "vis_own seq kvs"]
  by (auto simp: user_entries_def visible_def vis_own_def entry_user_key_def split_beta)

lemma user_entries_index:
  assumes "c < length (user_entries seq kvs)"
  obtains n where "visible seq kvs n" "vcount seq kvs n = c"
  using part_nth_index [of c kvs "vis_own seq kvs" 0] assms by (auto simp: user_entries_def)

lemma cut_same: "m \<le> n \<Longrightarrow> (\<And>k. m \<le> k \<Longrightarrow> k < n \<Longrightarrow> own k \<noteq> i) \<Longrightarrow> cut own i n = cut own i m"
proof (induction n)
  case (Suc n)
  then show ?case by (cases "m = Suc n") (auto simp: cut_Suc)
qed simp

lemma vcount_end: "m \<le> length kvs \<Longrightarrow> (\<And>k. m \<le> k \<Longrightarrow> \<not> visible seq kvs k) \<Longrightarrow> position (user_entries seq kvs) (vcount seq kvs m) = None"
  using cut_same [of m "length kvs" "vis_own seq kvs" 0] by (simp add: position_def length_user_entries)

lemma vcount_Suc: "visible seq kvs n \<Longrightarrow> n < m \<Longrightarrow> (\<And>k. n < k \<Longrightarrow> k < m \<Longrightarrow> \<not> visible seq kvs k) \<Longrightarrow> vcount seq kvs m = Suc (vcount seq kvs n)"
  using cut_same [of "Suc n" m "vis_own seq kvs" 0] by (simp add: cut_Suc)

lemma vcount_0: "(\<And>k. k < m \<Longrightarrow> \<not> visible seq kvs k) \<Longrightarrow> vcount seq kvs m = 0"
  using cut_same [of 0 m "vis_own seq kvs" 0] by simp

definition db_entries :: "(bytes \<Rightarrow> bytes \<Rightarrow> int) \<Rightarrow> (bytes \<Rightarrow> bool) \<Rightarrow> entries \<Rightarrow> bool" where
  "db_entries ucmp uvalid kvs \<longleftrightarrow> keys_sorted (InternalCompare ucmp) (internal_valid uvalid) kvs \<and>
     (\<forall>kv \<in> set kvs. ParseInternalKey (fst kv) \<noteq> None)"

text \<open>The iterator on entry \<open>p\<close> of what is seen. Going backward, the internal iterator is before the
  entries of the key, except for ones that are too new.\<close>

definition db_at :: "u64 \<Rightarrow> (entries \<Rightarrow> nat option \<Rightarrow> 's \<Rightarrow> bool) \<Rightarrow> entries \<Rightarrow> nat \<Rightarrow> 's dbiter \<Rightarrow> bool" where
  "db_at seq at kvs n d \<longleftrightarrow> visible seq kvs n \<and> di_valid d \<and>
     (if di_forward d then at kvs (Some n) (di_iter d)
      else di_saved_key d = entry_user_key kvs n \<and> di_saved_value d = snd (kvs ! n) \<and>
        (\<exists>m \<le> n. at kvs (before_position m) (di_iter d) \<and> (\<forall>k. m \<le> k \<longrightarrow> k < n \<longrightarrow> \<not> seen seq kvs k)))"

definition db_on ::
  "(bytes \<Rightarrow> bytes \<Rightarrow> int) \<Rightarrow> (bytes \<Rightarrow> bool) \<Rightarrow> u64 \<Rightarrow> (entries \<Rightarrow> nat option \<Rightarrow> 's \<Rightarrow> bool) \<Rightarrow> entries \<Rightarrow>
     entries \<Rightarrow> nat option \<Rightarrow> 's dbiter \<Rightarrow> bool" where
  "db_on ucmp uvalid seq at kvs us p d \<longleftrightarrow> db_entries ucmp uvalid kvs \<and> us = user_entries seq kvs \<and>
     (\<exists>q. at kvs q (di_iter d)) \<and> seed_ok (di_rnd d) \<and> di_status d = OK \<and>
     (case p of None \<Rightarrow> \<not> di_valid d | Some i \<Rightarrow> \<exists>n. vcount seq kvs n = i \<and> db_at seq at kvs n d)"

text \<open>An entry is to be skipped when one before it decided on its key.\<close>

definition skip_inv :: "(bytes \<Rightarrow> bytes \<Rightarrow> int) \<Rightarrow> u64 \<Rightarrow> entries \<Rightarrow> nat \<Rightarrow> bool \<Rightarrow> bytes \<Rightarrow> bool" where
  "skip_inv ucmp seq kvs m skipping skip \<longleftrightarrow>
     (\<forall>k. m \<le> k \<longrightarrow> k < length kvs \<longrightarrow> seen seq kvs k \<longrightarrow>
        (skipping \<and> ucmp (entry_user_key kvs k) skip \<le> 0 \<longleftrightarrow> (\<exists>j < m. entry_user_key kvs j = entry_user_key kvs k \<and> seen seq kvs j)))"

text \<open>Going backward: of the entries from \<open>m'\<close> up to \<open>m\<close>, the first one that is not too new decides.\<close>

definition back_inv :: "u64 \<Rightarrow> entries \<Rightarrow> nat \<Rightarrow> nat \<Rightarrow> ValueType \<Rightarrow> bytes \<Rightarrow> bytes \<Rightarrow> bool" where
  "back_inv seq kvs m m' t key v \<longleftrightarrow>
     (case t of
        kTypeDeletion \<Rightarrow> \<forall>k. m' \<le> k \<longrightarrow> k < m \<longrightarrow> \<not> visible seq kvs k
      | kTypeValue \<Rightarrow> \<exists>s. m' \<le> s \<and> s < m \<and> seen seq kvs s \<and> entry_type kvs s = kTypeValue \<and> key = entry_user_key kvs s \<and> v = snd (kvs ! s) \<and>
          (\<forall>k. m' \<le> k \<longrightarrow> k < s \<longrightarrow> \<not> seen seq kvs k) \<and> (\<forall>k. s < k \<longrightarrow> k < m \<longrightarrow> \<not> visible seq kvs k))"

lemma back_inv_unseen:
  "back_inv seq kvs m (Suc e) t key v \<Longrightarrow> \<not> seen seq kvs e \<Longrightarrow> back_inv seq kvs m e t key v"
  unfolding back_inv_def visible_def by (cases t) (simp, metis not_less_eq_eq le_antisym, simp, metis not_less_eq_eq le_antisym Suc_leD)

text \<open>An entry of the same key, or after a deletion, takes over.\<close>

lemma back_inv_seen:
  assumes "back_inv seq kvs m (Suc e) t key v" "seen seq kvs e" "e < m" "t = kTypeValue \<Longrightarrow> key = entry_user_key kvs e"
  shows "back_inv seq kvs m e (entry_type kvs e) (entry_user_key kvs e) (snd (kvs ! e))"
proof -
  have "\<not> visible seq kvs k" if "e < k" "k < m" for k
  proof (cases t)
    case kTypeDeletion
    then show ?thesis using assms(1) that by (simp add: back_inv_def)
  next
    case kTypeValue
    then obtain s where s: "Suc e \<le> s" "entry_user_key kvs e = entry_user_key kvs s" "\<forall>k. Suc e \<le> k \<longrightarrow> k < s \<longrightarrow> \<not> seen seq kvs k"
      "\<forall>k. s < k \<longrightarrow> k < m \<longrightarrow> \<not> visible seq kvs k"
      using assms(1,4) by (auto simp: back_inv_def)
    consider "k < s" | "k = s" | "s < k" by linarith
    then show ?thesis
    proof cases
      case 1
      then show ?thesis using s(3) that(1) by (simp add: visible_def)
    next
      case 2
      then show ?thesis using s(2) assms(2) that(1) by (auto simp: visible_def)
    qed (use s(4) that(2) in blast)
  qed
  moreover from this have "\<not> visible seq kvs k" if "e \<le> k" "k < m" "entry_type kvs e = kTypeDeletion" for k
    using that by (cases "k = e") (auto simp: visible_def)
  ultimately show ?thesis using assms(2,3) by (cases "entry_type kvs e") (auto simp: back_inv_def)
qed

locale db_source = comparator +
  fixes ops :: "'s iterator_ops" and ivalid :: "bytes \<Rightarrow> bool" and at :: "entries \<Rightarrow> nat option \<Rightarrow> 's \<Rightarrow> bool"
  assumes source: "cursor ops (InternalCompare compare) ivalid at"
begin

lemma entry_valid: "db_entries compare valid kvs \<Longrightarrow> j < length kvs \<Longrightarrow> internal_valid valid (fst (kvs ! j)) \<and> valid (entry_user_key kvs j)"
  by (auto simp: db_entries_def keys_sorted_def entry_user_key_def internal_valid_def)

lemma user_sorted:
  assumes "db_entries compare valid kvs" "i \<le> j" "j < length kvs"
  shows "compare (entry_user_key kvs i) (entry_user_key kvs j) \<le> 0"
proof (cases "i = j")
  case False
  then have "InternalCompare compare (fst (kvs ! i)) (fst (kvs ! j)) < 0"
    using assms sorted_wrt_nth_less [of "\<lambda>a b. InternalCompare compare (fst a) (fst b) < 0" kvs i j]
    by (auto simp: db_entries_def keys_sorted_def)
  then show ?thesis
    using entry_valid [OF assms(1)] assms(2,3) InternalCompare_less compare_refl by (fastforce simp: entry_user_key_def)
qed (use entry_valid [OF assms(1)] assms(3) in \<open>simp add: compare_refl\<close>)

lemma user_eq:
  assumes "db_entries compare valid kvs" "i \<le> j" "j < length kvs"
  shows "compare (entry_user_key kvs j) (entry_user_key kvs i) \<le> 0 \<longleftrightarrow> entry_user_key kvs j = entry_user_key kvs i"
proof -
  have v: "valid (entry_user_key kvs i)" "valid (entry_user_key kvs j)" using entry_valid [OF assms(1)] assms(2,3) by simp_all
  then show ?thesis
    using user_sorted [OF assms] compare_swap [OF v] compare_eq [OF v] compare_refl [OF v(1)]
    by (cases "compare (entry_user_key kvs i) (entry_user_key kvs j) = 0") auto
qed

lemma entry_parsed:
  assumes "db_entries compare valid kvs" "j < length kvs"
  shows "ParseInternalKey (fst (kvs ! j)) = Some \<lparr>user_key = entry_user_key kvs j, sequence = entry_sequence kvs j, vtype = entry_type kvs j\<rparr>"
proof -
  obtain k where k: "ParseInternalKey (fst (kvs ! j)) = Some k"
    using assms nth_mem [OF assms(2)] unfolding db_entries_def by blast
  have "fst (kvs ! j) = AppendInternalKey [] k" by (rule ParseInternalKey_Some [OF k])
  then have "user_key k = entry_user_key kvs j" by (simp add: entry_user_key_def AppendInternalKey_def PutFixed64_def)
  then show ?thesis using k by (cases k) (simp add: entry_sequence_def entry_type_def)
qed

lemma ParseKey_at:
  assumes "db_entries compare valid kvs" "at kvs (Some m) (di_iter d)" "seed_ok (di_rnd d)"
  shows "\<exists>d'. ParseKey ops d = Some (Some \<lparr>user_key = entry_user_key kvs m, sequence = entry_sequence kvs m, vtype = entry_type kvs m\<rparr>, d') \<and>
     seed_ok (di_rnd d') \<and> di_iter d' = di_iter d \<and> di_status d' = di_status d \<and> di_saved_key d' = di_saved_key d \<and>
     di_saved_value d' = di_saved_value d \<and> di_forward d' = di_forward d \<and> di_valid d' = di_valid d"
proof -
  have key: "m < length kvs" "iKey ops (di_iter d) = fst (kvs ! m)" using cursor.at_some [OF source assms(2)] by simp_all
  then show ?thesis
    using sample_loop_returns [OF assms(3), of "iKey ops (di_iter d)" "length (iKey ops (di_iter d)) + length (iValue ops (di_iter d))"]
      entry_parsed [OF assms(1) key(1)] by (auto simp: ParseKey_def Let_def)
qed


text \<open>Going forward.\<close>

lemma skip_inv_unseen: "skip_inv compare seq kvs m skipping skip \<Longrightarrow> \<not> seen seq kvs m \<Longrightarrow> skip_inv compare seq kvs (Suc m) skipping skip"
  unfolding skip_inv_def by (metis Suc_leD less_Suc_eq)

lemma skip_inv_hidden:
  assumes "skip_inv compare seq kvs m skipping skip" "i < m" "entry_user_key kvs i = entry_user_key kvs m" "seen seq kvs i"
  shows "skip_inv compare seq kvs (Suc m) skipping skip"
  using assms unfolding skip_inv_def by (metis Suc_leD less_Suc_eq)

lemma skip_inv_this:
  assumes "db_entries compare valid kvs" "m < length kvs" "seen seq kvs m"
  shows "skip_inv compare seq kvs (Suc m) True (entry_user_key kvs m)"
proof -
  have "compare (entry_user_key kvs k) (entry_user_key kvs m) \<le> 0 \<longleftrightarrow>
      (\<exists>j < Suc m. entry_user_key kvs j = entry_user_key kvs k \<and> seen seq kvs j)" if k: "Suc m \<le> k" "k < length kvs" for k
  proof
    assume "compare (entry_user_key kvs k) (entry_user_key kvs m) \<le> 0"
    then show "\<exists>j < Suc m. entry_user_key kvs j = entry_user_key kvs k \<and> seen seq kvs j"
      using user_eq [OF assms(1), of m k] k assms(3) by (intro exI [of _ m]) simp
  next
    assume "\<exists>j < Suc m. entry_user_key kvs j = entry_user_key kvs k \<and> seen seq kvs j"
    then obtain j where "j \<le> m" "entry_user_key kvs j = entry_user_key kvs k" by (auto simp: less_Suc_eq_le)
    then show "compare (entry_user_key kvs k) (entry_user_key kvs m) \<le> 0"
      using user_sorted [OF assms(1), of j m] assms(2) by simp
  qed
  then show ?thesis by (simp add: skip_inv_def)
qed

lemma next_entry_at:
  assumes "db_entries compare valid kvs" "at kvs (Some m) (di_iter d)" "seed_ok (di_rnd d)"
    "skip_inv compare seq kvs m skipping (di_saved_key d)" "di_forward d" "di_status d = OK"
  shows "\<exists>r d'. next_entry ops compare seq skipping d = Some r \<and> seed_ok (di_rnd d') \<and> di_iter d' = di_iter d \<and> di_forward d' \<and>
    di_status d' = OK \<and>
    (if visible seq kvs m then r = Inl d' \<and> di_valid d'
     else \<exists>skipping'. r = Inr (skipping', d') \<and> skip_inv compare seq kvs (Suc m) skipping' (di_saved_key d'))"
proof -
  have m: "m < length kvs" using cursor.at_some [OF source assms(2)] by simp
  obtain d' where d': "ParseKey ops d = Some (Some \<lparr>user_key = entry_user_key kvs m, sequence = entry_sequence kvs m, vtype = entry_type kvs m\<rparr>, d')"
    "seed_ok (di_rnd d')" "di_iter d' = di_iter d" "di_status d' = di_status d" "di_saved_key d' = di_saved_key d" "di_forward d' = di_forward d"
    using ParseKey_at [OF assms(1-3)] by blast
  have hidden: "skipping \<and> compare (entry_user_key kvs m) (di_saved_key d) \<le> 0 \<longleftrightarrow>
      (\<exists>j < m. entry_user_key kvs j = entry_user_key kvs m \<and> seen seq kvs j)" if "seen seq kvs m"
    using assms(4) m that by (simp add: skip_inv_def)
  consider "\<not> seen seq kvs m" | "seen seq kvs m" "entry_type kvs m = kTypeDeletion"
    | j where "seen seq kvs m" "entry_type kvs m = kTypeValue" "j < m" "entry_user_key kvs j = entry_user_key kvs m" "seen seq kvs j"
    | "visible seq kvs m"
    using m unfolding visible_def by (metis ValueType.exhaust)
  then show ?thesis
  proof cases
    case 1
    then show ?thesis using d' assms(4-6) skip_inv_unseen by (simp add: next_entry_def visible_def seen_def)
  next
    case 2
    then show ?thesis
      using d' assms(5,6) skip_inv_this [OF assms(1) m 2(1)]
      by (intro exI [of _ "Inr (True, d'\<lparr>di_saved_key := entry_user_key kvs m\<rparr>)"] exI [of _ "d'\<lparr>di_saved_key := entry_user_key kvs m\<rparr>"])
        (simp add: next_entry_def visible_def seen_def, blast)
  next
    case 3
    then have "\<not> visible seq kvs m" by (auto simp: visible_def)
    moreover have "skipping \<and> compare (entry_user_key kvs m) (di_saved_key d) \<le> 0" using hidden 3 by blast
    ultimately show ?thesis
      using d' assms(5,6) skip_inv_hidden [OF assms(4) 3(3-5)] 3(1,2)
      by (intro exI [of _ "Inr (skipping, d')"] exI [of _ d']) (auto simp: next_entry_def seen_def)
  next
    case 4
    then have "seen seq kvs m" "entry_type kvs m = kTypeValue" "\<not> (skipping \<and> compare (entry_user_key kvs m) (di_saved_key d) \<le> 0)"
      using hidden by (auto simp: visible_def)
    then show ?thesis using d' assms(5,6) 4 by (simp add: next_entry_def seen_def)
  qed
qed

lemma next_step:
  assumes "next_entry ops compare seq skipping d = Some (Inr (skipping', d'))" "at kvs (Some m) (di_iter d)" "di_iter d' = di_iter d"
  shows "\<exists>s. at kvs (position kvs (Suc m)) s \<and> FindNextUserEntry ops compare seq skipping d =
    (if Suc m < length kvs then FindNextUserEntry ops compare seq skipping' (d'\<lparr>di_iter := s\<rparr>)
     else Some (d'\<lparr>di_iter := s, di_saved_key := [], di_valid := False\<rparr>))"
proof -
  obtain s where s: "iNext ops (di_iter d') = Some s" "at kvs (position kvs (Suc m)) s"
    using cursor.next [OF source assms(2)] assms(3) by auto
  have "iter_valid ops (d'\<lparr>di_iter := s\<rparr>) \<longleftrightarrow> Suc m < length kvs"
    using s(2) cursor.at_some [OF source] cursor.at_none [OF source] by (auto simp: iter_valid_def position_def split: if_splits)
  then show ?thesis
    using assms(1) s by (intro exI [of _ s]) (subst FindNextUserEntry.simps, simp add: move_iter_def)
qed

lemma FindNextUserEntry_at:
  "db_entries compare valid kvs \<Longrightarrow> at kvs (Some m) (di_iter d) \<Longrightarrow> seed_ok (di_rnd d) \<Longrightarrow>
   skip_inv compare seq kvs m skipping (di_saved_key d) \<Longrightarrow> di_forward d \<Longrightarrow> di_status d = OK \<Longrightarrow>
   \<exists>d'. FindNextUserEntry ops compare seq skipping d = Some d' \<and>
     db_on compare valid seq at kvs (user_entries seq kvs) (position (user_entries seq kvs) (vcount seq kvs m)) d'"
proof (induction "length kvs - m" arbitrary: m d skipping rule: less_induct)
  case less
  have m: "m < length kvs" using cursor.at_some [OF source less.prems(2)] by simp
  obtain r d' where r: "next_entry ops compare seq skipping d = Some r" "seed_ok (di_rnd d')" "di_iter d' = di_iter d" "di_forward d'"
    "di_status d' = OK" "if visible seq kvs m then r = Inl d' \<and> di_valid d'
     else \<exists>skipping'. r = Inr (skipping', d') \<and> skip_inv compare seq kvs (Suc m) skipping' (di_saved_key d')"
    using next_entry_at [OF less.prems] by blast
  show ?case
  proof (cases "visible seq kvs m")
    case True
    have "db_on compare valid seq at kvs (user_entries seq kvs) (position (user_entries seq kvs) (vcount seq kvs m)) d'"
      using r True less.prems(1,2) user_entries_nth [OF True] by (auto simp: db_on_def db_at_def position_def intro!: exI [of _ m])
    then show ?thesis using r(1,6) True by (subst FindNextUserEntry.simps) simp
  next
    case False
    then obtain skipping' where s: "r = Inr (skipping', d')" "skip_inv compare seq kvs (Suc m) skipping' (di_saved_key d')" using r(6) by auto
    have cnt: "vcount seq kvs (Suc m) = vcount seq kvs m" using False by (simp add: cut_Suc)
    obtain s' where s': "at kvs (position kvs (Suc m)) s'" "FindNextUserEntry ops compare seq skipping d =
        (if Suc m < length kvs then FindNextUserEntry ops compare seq skipping' (d'\<lparr>di_iter := s'\<rparr>)
         else Some (d'\<lparr>di_iter := s', di_saved_key := [], di_valid := False\<rparr>))"
      using next_step [of seq skipping d skipping' d' kvs m] r(1,3) s(1) less.prems(2) by blast
    show ?thesis
    proof (cases "Suc m < length kvs")
      case True
      then have "at kvs (Some (Suc m)) s'" using s'(1) by (simp add: position_def)
      then have "\<exists>d''. FindNextUserEntry ops compare seq skipping' (d'\<lparr>di_iter := s'\<rparr>) = Some d'' \<and>
          db_on compare valid seq at kvs (user_entries seq kvs) (position (user_entries seq kvs) (vcount seq kvs (Suc m))) d''"
        using m less.prems(1) r s(2) by (intro less.hyps) simp_all
      then show ?thesis using s'(2) True cnt by simp
    next
      case False
      moreover have "position (user_entries seq kvs) (vcount seq kvs (Suc m)) = None"
        by (rule vcount_end) (use False m in \<open>auto simp: visible_def\<close>)
      ultimately show ?thesis using s' cnt less.prems(1) r by (auto simp: db_on_def)
    qed
  qed
qed

lemma prev_entry_at:
  assumes "db_entries compare valid kvs" "at kvs (Some e) (di_iter d)" "seed_ok (di_rnd d)"
    "back_inv seq kvs m (Suc e) t (di_saved_key d) (di_saved_value d)" "\<not> di_forward d" "di_status d = OK" "e < m" "m \<le> length kvs"
  shows "\<exists>r d'. prev_entry ops compare seq t d = Some r \<and> seed_ok (di_rnd d') \<and> di_iter d' = di_iter d \<and> \<not> di_forward d' \<and> di_status d' = OK \<and>
    (r = Inl d' \<and> t = kTypeValue \<and> compare (entry_user_key kvs e) (di_saved_key d) < 0 \<and> di_saved_key d' = di_saved_key d \<and> di_saved_value d' = di_saved_value d \<or>
     (\<exists>t'. r = Inr (t', d') \<and> back_inv seq kvs m e t' (di_saved_key d') (di_saved_value d')))"
proof -
  have e: "e < length kvs" "iKey ops (di_iter d) = fst (kvs ! e)" "iValue ops (di_iter d) = snd (kvs ! e)"
    using cursor.at_some [OF source assms(2)] by simp_all
  obtain d' where d': "ParseKey ops d = Some (Some \<lparr>user_key = entry_user_key kvs e, sequence = entry_sequence kvs e, vtype = entry_type kvs e\<rparr>, d')"
    "seed_ok (di_rnd d')" "di_iter d' = di_iter d" "di_status d' = di_status d" "di_saved_key d' = di_saved_key d"
    "di_saved_value d' = di_saved_value d" "di_forward d' = di_forward d"
    using ParseKey_at [OF assms(1-3)] by blast
  show ?thesis
  proof (cases "seen seq kvs e")
    case False
    then show ?thesis using d' assms(4-6) back_inv_unseen [OF assms(4) False] by (simp add: prev_entry_def seen_def)
  next
    case True
    show ?thesis
    proof (cases "t = kTypeValue \<and> compare (entry_user_key kvs e) (di_saved_key d) < 0")
      case stop: True
      then show ?thesis using d' assms(5,6) True by (intro exI [of _ "Inl d'"] exI [of _ d']) (simp add: prev_entry_def seen_def)
    next
      case go: False
      have "di_saved_key d = entry_user_key kvs e" if "t = kTypeValue"
      proof -
        obtain s where s: "e < s" "s < m" "di_saved_key d = entry_user_key kvs s"
          using assms(4) \<open>t = kTypeValue\<close> by (auto simp: back_inv_def Suc_le_eq)
        then have "valid (entry_user_key kvs s)" "valid (entry_user_key kvs e)" "compare (entry_user_key kvs e) (entry_user_key kvs s) \<le> 0"
          using entry_valid [OF assms(1)] user_sorted [OF assms(1), of e s] assms(8) by simp_all
        then show ?thesis using go that s(3) compare_eq by force
      qed
      then have inv: "back_inv seq kvs m e (entry_type kvs e) (entry_user_key kvs e) (snd (kvs ! e))"
        by (rule back_inv_seen [OF assms(4) True assms(7)])
      have tv: "t \<noteq> kTypeDeletion \<longleftrightarrow> t = kTypeValue" by (cases t) simp_all
      show ?thesis
      proof (cases "entry_type kvs e")
        case kTypeDeletion
        then show ?thesis
          using d' assms(5,6) True go inv
          by (intro exI [of _ "Inr (kTypeDeletion, d'\<lparr>di_saved_key := [], di_saved_value := []\<rparr>)"]
              exI [of _ "d'\<lparr>di_saved_key := [], di_saved_value := []\<rparr>"]) (auto simp: prev_entry_def seen_def back_inv_def tv)
      next
        case kTypeValue
        then show ?thesis
          using d' assms(5,6) True go inv e
          by (intro exI [of _ "Inr (kTypeValue, d'\<lparr>di_saved_key := entry_user_key kvs e, di_saved_value := snd (kvs ! e)\<rparr>)"]
              exI [of _ "d'\<lparr>di_saved_key := entry_user_key kvs e, di_saved_value := snd (kvs ! e)\<rparr>"])
            (auto simp: prev_entry_def seen_def iter_user_key_def entry_user_key_def tv)
      qed
    qed
  qed
qed

lemma find_prev_loop_at:
  "db_entries compare valid kvs \<Longrightarrow> at kvs (Some e) (di_iter d) \<Longrightarrow> seed_ok (di_rnd d) \<Longrightarrow>
   back_inv seq kvs m (Suc e) t (di_saved_key d) (di_saved_value d) \<Longrightarrow> \<not> di_forward d \<Longrightarrow> di_status d = OK \<Longrightarrow> e < m \<Longrightarrow> m \<le> length kvs \<Longrightarrow>
   \<exists>t' d' m'. find_prev_loop ops compare seq t d = Some (t', d') \<and> seed_ok (di_rnd d') \<and> \<not> di_forward d' \<and> di_status d' = OK \<and>
     at kvs (before_position m') (di_iter d') \<and> back_inv seq kvs m m' t' (di_saved_key d') (di_saved_value d') \<and>
     (m' = 0 \<or> t' = kTypeValue \<and> compare (entry_user_key kvs (m' - 1)) (di_saved_key d') < 0)"
proof (induction e arbitrary: d t)
  case (0 d t)
  obtain r d' where r: "prev_entry ops compare seq t d = Some r" "seed_ok (di_rnd d')" "di_iter d' = di_iter d" "\<not> di_forward d'" "di_status d' = OK"
    "r = Inl d' \<and> t = kTypeValue \<and> compare (entry_user_key kvs 0) (di_saved_key d) < 0 \<and> di_saved_key d' = di_saved_key d \<and> di_saved_value d' = di_saved_value d \<or>
     (\<exists>t'. r = Inr (t', d') \<and> back_inv seq kvs m 0 t' (di_saved_key d') (di_saved_value d'))"
    using prev_entry_at [OF 0] by blast
  obtain s' where s': "iPrev ops (di_iter d') = Some s'" "at kvs None s'"
    using cursor.prev [OF source] 0(2) r(3) by (fastforce simp: before_position_def)
  then have "\<not> iter_valid ops (d'\<lparr>di_iter := s'\<rparr>)" using cursor.at_none [OF source] by (simp add: iter_valid_def)
  from r(6) show ?case
  proof (elim disjE conjE exE)
    assume "r = Inl d'" "t = kTypeValue" "compare (entry_user_key kvs 0) (di_saved_key d) < 0" "di_saved_key d' = di_saved_key d"
      "di_saved_value d' = di_saved_value d"
    then show ?thesis
      using r 0 by (subst find_prev_loop.simps) (auto simp: before_position_def intro!: exI [of _ "Suc 0"])
  next
    fix t' assume "r = Inr (t', d')" "back_inv seq kvs m 0 t' (di_saved_key d') (di_saved_value d')"
    then show ?thesis
      using r s' \<open>\<not> iter_valid ops _\<close>
      by (subst find_prev_loop.simps) (auto simp: move_iter_def before_position_def intro!: exI [of _ 0])
  qed
next
  case (Suc e d t)
  obtain r d' where r: "prev_entry ops compare seq t d = Some r" "seed_ok (di_rnd d')" "di_iter d' = di_iter d" "\<not> di_forward d'" "di_status d' = OK"
    "r = Inl d' \<and> t = kTypeValue \<and> compare (entry_user_key kvs (Suc e)) (di_saved_key d) < 0 \<and> di_saved_key d' = di_saved_key d \<and> di_saved_value d' = di_saved_value d \<or>
     (\<exists>t'. r = Inr (t', d') \<and> back_inv seq kvs m (Suc e) t' (di_saved_key d') (di_saved_value d'))"
    using prev_entry_at [OF Suc.prems] by blast
  obtain s' where s': "iPrev ops (di_iter d') = Some s'" "at kvs (Some e) s'"
    using cursor.prev [OF source] Suc.prems(2) r(3) by (fastforce simp: before_position_def)
  then have v: "iter_valid ops (d'\<lparr>di_iter := s'\<rparr>)" using cursor.at_some [OF source s'(2)] by (simp add: iter_valid_def)
  from r(6) show ?case
  proof (elim disjE conjE exE)
    assume "r = Inl d'" "t = kTypeValue" "compare (entry_user_key kvs (Suc e)) (di_saved_key d) < 0" "di_saved_key d' = di_saved_key d"
      "di_saved_value d' = di_saved_value d"
    then show ?thesis
      using r Suc.prems by (subst find_prev_loop.simps) (auto simp: before_position_def intro!: exI [of _ "Suc (Suc e)"])
  next
    fix t' assume t': "r = Inr (t', d')" "back_inv seq kvs m (Suc e) t' (di_saved_key d') (di_saved_value d')"
    have "find_prev_loop ops compare seq t d = find_prev_loop ops compare seq t' (d'\<lparr>di_iter := s'\<rparr>)"
      using r(1) t'(1) s'(1) v by (subst find_prev_loop.simps) (simp add: move_iter_def)
    moreover have "\<exists>t'' d'' m'. find_prev_loop ops compare seq t' (d'\<lparr>di_iter := s'\<rparr>) = Some (t'', d'') \<and> seed_ok (di_rnd d'') \<and>
       \<not> di_forward d'' \<and> di_status d'' = OK \<and> at kvs (before_position m') (di_iter d'') \<and>
       back_inv seq kvs m m' t'' (di_saved_key d'') (di_saved_value d'') \<and>
       (m' = 0 \<or> t'' = kTypeValue \<and> compare (entry_user_key kvs (m' - 1)) (di_saved_key d'') < 0)"
      by (rule Suc.IH) (use Suc.prems r s' t' in simp_all)
    ultimately show ?thesis by simp
  qed
qed


lemma FindPrevUserEntry_at:
  assumes "db_entries compare valid kvs" "at kvs (before_position m) (di_iter d)" "seed_ok (di_rnd d)" "\<not> di_forward d" "di_status d = OK" "m \<le> length kvs"
  shows "\<exists>d'. FindPrevUserEntry ops compare seq d = Some d' \<and>
    db_on compare valid seq at kvs (user_entries seq kvs) (before_position (vcount seq kvs m)) d'"
proof -
  have "\<exists>t d' m'. (if iter_valid ops d then find_prev_loop ops compare seq kTypeDeletion d else Some (kTypeDeletion, d)) = Some (t, d') \<and>
      seed_ok (di_rnd d') \<and> \<not> di_forward d' \<and> di_status d' = OK \<and> at kvs (before_position m') (di_iter d') \<and>
      back_inv seq kvs m m' t (di_saved_key d') (di_saved_value d') \<and>
      (m' = 0 \<or> t = kTypeValue \<and> compare (entry_user_key kvs (m' - 1)) (di_saved_key d') < 0)"
  proof (cases m)
    case 0
    then have "\<not> iter_valid ops d" using assms(2) cursor.at_none [OF source, of kvs "di_iter d"] by (simp add: iter_valid_def before_position_def)
    then show ?thesis using 0 assms by (auto simp: back_inv_def before_position_def intro!: exI [of _ 0])
  next
    case (Suc e)
    then have at': "at kvs (Some e) (di_iter d)" using assms(2) by (simp add: before_position_def)
    then have "iter_valid ops d" using cursor.at_some [OF source at'] by (simp add: iter_valid_def)
    moreover have "back_inv seq kvs m (Suc e) kTypeDeletion (di_saved_key d) (di_saved_value d)" using Suc by (simp add: back_inv_def)
    ultimately show ?thesis using find_prev_loop_at [OF assms(1) at' assms(3), of seq m kTypeDeletion] assms(4-6) Suc by simp
  qed
  then obtain t d' m' where loop: "(if iter_valid ops d then find_prev_loop ops compare seq kTypeDeletion d else Some (kTypeDeletion, d)) = Some (t, d')"
    and d': "seed_ok (di_rnd d')" "\<not> di_forward d'" "di_status d' = OK" "at kvs (before_position m') (di_iter d')"
      "back_inv seq kvs m m' t (di_saved_key d') (di_saved_value d')"
      "m' = 0 \<or> t = kTypeValue \<and> compare (entry_user_key kvs (m' - 1)) (di_saved_key d') < 0" by blast
  show ?thesis
  proof (cases t)
    case kTypeDeletion
    then have "vcount seq kvs m = 0" using d'(5,6) by (intro vcount_0) (simp add: back_inv_def)
    then show ?thesis
      unfolding FindPrevUserEntry_def loop using kTypeDeletion d' assms(1) by (auto simp: db_on_def before_position_def)
  next
    case kTypeValue
    then obtain s where s: "m' \<le> s" "s < m" "seen seq kvs s" "entry_type kvs s = kTypeValue" "di_saved_key d' = entry_user_key kvs s"
      "di_saved_value d' = snd (kvs ! s)" "\<forall>k. m' \<le> k \<longrightarrow> k < s \<longrightarrow> \<not> seen seq kvs k" "\<forall>k. s < k \<longrightarrow> k < m \<longrightarrow> \<not> visible seq kvs k"
      using d'(5) by (auto simp: back_inv_def)
    have "\<not> seen seq kvs i" if i: "i < s" "entry_user_key kvs i = entry_user_key kvs s" for i
    proof (cases "i < m'")
      case True
      then have b: "compare (entry_user_key kvs (m' - 1)) (entry_user_key kvs s) < 0" "m' - 1 < length kvs" using d'(6) s(1,2,5) assms(6) by auto
      have "compare (entry_user_key kvs i) (entry_user_key kvs (m' - 1)) \<le> 0" using True b(2) by (intro user_sorted [OF assms(1)]) simp_all
      moreover have "valid (entry_user_key kvs (m' - 1))" "valid (entry_user_key kvs s)"
        using entry_valid [OF assms(1)] b(2) s(2) assms(6) by simp_all
      ultimately show ?thesis using b(1) i(2) compare_swap [of "entry_user_key kvs (m' - 1)" "entry_user_key kvs s"] by simp
    qed (use s(7) i(1) in simp)
    then have vis: "visible seq kvs s" using s(2-4) assms(6) by (auto simp: visible_def)
    have "vcount seq kvs m = Suc (vcount seq kvs s)" using vis s(2,8) by (intro vcount_Suc) blast+
    moreover have "db_at seq at kvs s (d'\<lparr>di_valid := True\<rparr>)"
      using vis d'(2,4) s by (auto simp: db_at_def intro!: exI [of _ m'])
    ultimately have "db_on compare valid seq at kvs (user_entries seq kvs) (before_position (vcount seq kvs m)) (d'\<lparr>di_valid := True\<rparr>)"
      using d'(1,3,4) assms(1) unfolding db_on_def before_position_def by auto
    then show ?thesis unfolding FindPrevUserEntry_def loop using kTypeValue by simp
  qed
qed

lemma scan_back_at:
  "db_entries compare valid kvs \<Longrightarrow> at kvs (Some i) (di_iter d) \<Longrightarrow> seed_ok (di_rnd d) \<Longrightarrow> di_status d = OK \<Longrightarrow>
   n < length kvs \<Longrightarrow> i \<le> n \<Longrightarrow> di_saved_key d = entry_user_key kvs n \<Longrightarrow> di_forward d \<Longrightarrow>
   (\<forall>k. i \<le> k \<longrightarrow> k < n \<longrightarrow> entry_user_key kvs k = entry_user_key kvs n) \<Longrightarrow>
   \<exists>b d'. scan_back ops compare d = Some (b, d') \<and> seed_ok (di_rnd d') \<and> di_status d' = OK \<and> di_forward d' \<and>
     (if b then \<exists>m \<le> n. at kvs (before_position m) (di_iter d') \<and> (\<forall>k. m \<le> k \<longrightarrow> k < n \<longrightarrow> entry_user_key kvs k = entry_user_key kvs n)
      else \<not> di_valid d' \<and> at kvs None (di_iter d') \<and> (\<forall>k < n. entry_user_key kvs k = entry_user_key kvs n))"
proof (induction i arbitrary: d)
  case (0 d)
  obtain s where s: "iPrev ops (di_iter d) = Some s" "at kvs None s"
    using cursor.prev [OF source 0(2)] by (auto simp: before_position_def)
  then have "\<not> iter_valid ops (d\<lparr>di_iter := s\<rparr>)" using cursor.at_none [OF source] by (simp add: iter_valid_def)
  then show ?case using 0 s by (subst scan_back.simps) (auto simp: move_iter_def)
next
  case (Suc i d)
  obtain s where s: "iPrev ops (di_iter d) = Some s" "at kvs (Some i) s"
    using cursor.prev [OF source Suc.prems(2)] by (auto simp: before_position_def)
  let ?d = "d\<lparr>di_iter := s\<rparr>"
  have v: "iter_valid ops ?d" "iter_user_key ops ?d = entry_user_key kvs i"
    using cursor.at_some [OF source s(2)] by (simp_all add: iter_valid_def iter_user_key_def entry_user_key_def)
  show ?case
  proof (cases "compare (entry_user_key kvs i) (entry_user_key kvs n) < 0")
    case True
    then have "scan_back ops compare d = Some (True, ?d)"
      using Suc.prems(7) s(1) v by (subst scan_back.simps) (simp add: move_iter_def)
    moreover have "\<exists>m \<le> n. at kvs (before_position m) (di_iter ?d) \<and> (\<forall>k. m \<le> k \<longrightarrow> k < n \<longrightarrow> entry_user_key kvs k = entry_user_key kvs n)"
      by (rule exI [of _ "Suc i"], intro conjI, rule Suc.prems(6), simp add: before_position_def s(2), rule Suc.prems(9))
    ultimately show ?thesis using Suc.prems(3,4,8) by (intro exI [of _ True] exI [of _ ?d]) simp
  next
    case False
    have val: "valid (entry_user_key kvs i)" "valid (entry_user_key kvs n)" using entry_valid [OF Suc.prems(1)] Suc.prems(5,6) by simp_all
    have "compare (entry_user_key kvs i) (entry_user_key kvs n) \<le> 0" using Suc.prems(5,6) by (intro user_sorted [OF Suc.prems(1)]) simp_all
    then have "compare (entry_user_key kvs i) (entry_user_key kvs n) = 0" using False by simp
    then have eq: "entry_user_key kvs i = entry_user_key kvs n" using compare_eq [OF val] by simp
    have all: "\<forall>k. i \<le> k \<longrightarrow> k < n \<longrightarrow> entry_user_key kvs k = entry_user_key kvs n"
    proof (intro allI impI)
      fix k assume "i \<le> k" "k < n"
      then show "entry_user_key kvs k = entry_user_key kvs n" using Suc.prems(9) eq by (cases "k = i") auto
    qed
    have "scan_back ops compare d = scan_back ops compare ?d"
      using s(1) v Suc.prems(7) False by (subst scan_back.simps) (simp add: move_iter_def)
    moreover have "\<exists>b d'. scan_back ops compare ?d = Some (b, d') \<and> seed_ok (di_rnd d') \<and> di_status d' = OK \<and> di_forward d' \<and>
       (if b then \<exists>m \<le> n. at kvs (before_position m) (di_iter d') \<and> (\<forall>k. m \<le> k \<longrightarrow> k < n \<longrightarrow> entry_user_key kvs k = entry_user_key kvs n)
        else \<not> di_valid d' \<and> at kvs None (di_iter d') \<and> (\<forall>k < n. entry_user_key kvs k = entry_user_key kvs n))"
      by (rule Suc.IH [OF Suc.prems(1) _ _ _ Suc.prems(5) _ _ _ all]) (use Suc.prems(3,4,6-8) s(2) in simp_all)
    ultimately show ?thesis by simp
  qed
qed

lemma visible_same_user:
  "visible seq kvs n \<Longrightarrow> k < n \<Longrightarrow> entry_user_key kvs k = entry_user_key kvs n \<Longrightarrow> \<not> visible seq kvs k"
  by (auto simp: visible_def)

lemma vcount_back:
  "visible seq kvs n \<Longrightarrow> m \<le> n \<Longrightarrow> (\<And>k. m \<le> k \<Longrightarrow> k < n \<Longrightarrow> \<not> visible seq kvs k) \<Longrightarrow> vcount seq kvs n = vcount seq kvs m"
  by (rule cut_same) auto

lemma DBIter_Prev_at:
  assumes "db_on compare valid seq at kvs us (Some i) d"
  shows "\<exists>d'. DBIter_Prev ops compare seq d = Some d' \<and> db_on compare valid seq at kvs us (before_position i) d'"
proof -
  obtain n where n: "db_entries compare valid kvs" "us = user_entries seq kvs" "seed_ok (di_rnd d)" "di_status d = OK"
    "vcount seq kvs n = i" "visible seq kvs n" "db_at seq at kvs n d"
    using assms by (auto simp: db_on_def db_at_def)
  have len: "n < length kvs" using n(6) by (simp add: visible_def)
  show ?thesis
  proof (cases "di_forward d")
    case False
    then obtain m where m: "m \<le> n" "at kvs (before_position m) (di_iter d)" "\<forall>k. m \<le> k \<longrightarrow> k < n \<longrightarrow> \<not> seen seq kvs k"
      using n(7) by (auto simp: db_at_def)
    have "vcount seq kvs n = vcount seq kvs m" by (rule vcount_back [OF n(6) m(1)]) (use m(3) in \<open>auto simp: visible_def\<close>)
    then show ?thesis using FindPrevUserEntry_at [OF n(1) m(2) n(3) False n(4)] m(1) len n(2,5) False by (simp add: DBIter_Prev_def)
  next
    case True
    then have at': "at kvs (Some n) (di_iter d)" using n(7) by (simp add: db_at_def)
    let ?d = "d\<lparr>di_saved_key := iter_user_key ops d\<rparr>"
    have key: "iter_user_key ops d = entry_user_key kvs n" using cursor.at_some [OF source at'] by (simp add: iter_user_key_def entry_user_key_def)
    have "\<exists>b d'. scan_back ops compare ?d = Some (b, d') \<and> seed_ok (di_rnd d') \<and> di_status d' = OK \<and> di_forward d' \<and>
       (if b then \<exists>m \<le> n. at kvs (before_position m) (di_iter d') \<and> (\<forall>k. m \<le> k \<longrightarrow> k < n \<longrightarrow> entry_user_key kvs k = entry_user_key kvs n)
        else \<not> di_valid d' \<and> at kvs None (di_iter d') \<and> (\<forall>k < n. entry_user_key kvs k = entry_user_key kvs n))"
      by (rule scan_back_at [OF n(1), of n]) (use at' n(3,4) len key True in simp_all)
    then obtain b d' where d': "scan_back ops compare ?d = Some (b, d')" "seed_ok (di_rnd d')" "di_status d' = OK"
      "if b then \<exists>m \<le> n. at kvs (before_position m) (di_iter d') \<and> (\<forall>k. m \<le> k \<longrightarrow> k < n \<longrightarrow> entry_user_key kvs k = entry_user_key kvs n)
        else \<not> di_valid d' \<and> at kvs None (di_iter d') \<and> (\<forall>k < n. entry_user_key kvs k = entry_user_key kvs n)" by blast
    show ?thesis
    proof (cases b)
      case found: True
      then obtain m where m: "m \<le> n" "at kvs (before_position m) (di_iter d')" "\<forall>k. m \<le> k \<longrightarrow> k < n \<longrightarrow> entry_user_key kvs k = entry_user_key kvs n"
        using d'(4) by auto
      have "vcount seq kvs n = vcount seq kvs m" by (rule vcount_back [OF n(6) m(1)]) (use m(3) visible_same_user [OF n(6)] in blast)
      then show ?thesis
        using FindPrevUserEntry_at [OF n(1), of m "d'\<lparr>di_forward := False\<rparr>" seq] m(1,2) len d'(1-3) n(2,5) found True by (simp add: DBIter_Prev_def)
    next
      case False
      have "vcount seq kvs n = 0" by (rule vcount_0) (use d'(4) False visible_same_user [OF n(6)] in auto)
      then show ?thesis using d' n(1,2,5) False True by (auto simp: DBIter_Prev_def db_on_def before_position_def)
    qed
  qed
qed

text \<open>After the entry that is shown, the next one that is seen.\<close>

lemma skip_current:
  assumes "db_entries compare valid kvs" "visible seq kvs n" "m \<le> n" "\<forall>k. m \<le> k \<longrightarrow> k < n \<longrightarrow> \<not> seen seq kvs k"
    "at kvs (Some m) (di_iter d)" "seed_ok (di_rnd d)" "di_forward d" "di_status d = OK" "di_saved_key d = entry_user_key kvs n"
  shows "\<exists>d'. FindNextUserEntry ops compare seq True d = Some d' \<and>
    db_on compare valid seq at kvs (user_entries seq kvs) (position (user_entries seq kvs) (Suc (vcount seq kvs n))) d'"
  using assms
proof (induction "n - m" arbitrary: m d)
  case 0
  then have m: "m = n" by simp
  have n: "n < length kvs" "seen seq kvs n" "entry_type kvs n = kTypeValue" using assms(2) by (auto simp: visible_def)
  have refl: "compare (entry_user_key kvs n) (entry_user_key kvs n) = 0" using entry_valid [OF assms(1) n(1)] compare_refl by simp
  obtain d' where d': "ParseKey ops d = Some (Some \<lparr>user_key = entry_user_key kvs m, sequence = entry_sequence kvs m, vtype = entry_type kvs m\<rparr>, d')"
    "seed_ok (di_rnd d')" "di_iter d' = di_iter d" "di_status d' = di_status d" "di_saved_key d' = di_saved_key d" "di_forward d' = di_forward d"
    using ParseKey_at [OF assms(1) 0(6,7)] by blast
  have "next_entry ops compare seq True d = Some (Inr (True, d'))"
    using d' n refl 0(10) m by (simp add: next_entry_def seen_def)
  then obtain s where s: "at kvs (position kvs (Suc n)) s" "FindNextUserEntry ops compare seq True d =
      (if Suc n < length kvs then FindNextUserEntry ops compare seq True (d'\<lparr>di_iter := s\<rparr>)
       else Some (d'\<lparr>di_iter := s, di_saved_key := [], di_valid := False\<rparr>))"
    using next_step [of seq True d True d' kvs m] 0(6) d'(3) m by blast
  have cnt: "vcount seq kvs (Suc n) = Suc (vcount seq kvs n)" using assms(2) by (simp add: cut_Suc)
  show ?case
  proof (cases "Suc n < length kvs")
    case True
    then have "at kvs (Some (Suc n)) s" using s(1) by (simp add: position_def)
    then show ?thesis
      using FindNextUserEntry_at [OF assms(1), of "Suc n" "d'\<lparr>di_iter := s\<rparr>" seq True] skip_inv_this [OF assms(1) n(1,2)] d' 0 s(2) True cnt m
      by simp
  next
    case False
    moreover have "position (user_entries seq kvs) (vcount seq kvs (Suc n)) = None"
      by (rule vcount_end) (use False n in \<open>auto simp: visible_def\<close>)
    ultimately show ?thesis using s cnt assms(1) d' 0 by (auto simp: db_on_def)
  qed
next
  case (Suc l)
  then have m: "m < n" "Suc m < length kvs" "\<not> seen seq kvs m" by (auto simp: visible_def)
  obtain d' where d': "ParseKey ops d = Some (Some \<lparr>user_key = entry_user_key kvs m, sequence = entry_sequence kvs m, vtype = entry_type kvs m\<rparr>, d')"
    "seed_ok (di_rnd d')" "di_iter d' = di_iter d" "di_status d' = di_status d" "di_saved_key d' = di_saved_key d" "di_forward d' = di_forward d"
    using ParseKey_at [OF assms(1) Suc(7,8)] by blast
  have "next_entry ops compare seq True d = Some (Inr (True, d'))"
    using d'(1) m(3) by (simp add: next_entry_def seen_def)
  then obtain s where s: "at kvs (position kvs (Suc m)) s" "FindNextUserEntry ops compare seq True d =
      FindNextUserEntry ops compare seq True (d'\<lparr>di_iter := s\<rparr>)"
    using next_step [of seq True d True d' kvs m] Suc(7) d'(3) m(2) by fastforce
  have "at kvs (Some (Suc m)) s" using s(1) m(2) by (simp add: position_def)
  then show ?case unfolding s(2) using Suc d' m(1) by (intro Suc.hyps(1)) simp_all
qed


lemma DBIter_Next_at:
  assumes "db_on compare valid seq at kvs us (Some i) d"
  shows "\<exists>d'. DBIter_Next ops compare seq d = Some d' \<and> db_on compare valid seq at kvs us (position us (Suc i)) d'"
proof -
  obtain n where n: "db_entries compare valid kvs" "us = user_entries seq kvs" "seed_ok (di_rnd d)" "di_status d = OK"
    "vcount seq kvs n = i" "visible seq kvs n" "db_at seq at kvs n d"
    using assms by (auto simp: db_on_def db_at_def)
  have len: "n < length kvs" using n(6) by (simp add: visible_def)
  show ?thesis
  proof (cases "di_forward d")
    case True
    then have at': "at kvs (Some n) (di_iter d)" using n(7) by (simp add: db_at_def)
    have key: "iter_user_key ops d = entry_user_key kvs n" using cursor.at_some [OF source at'] by (simp add: iter_user_key_def entry_user_key_def)
    then show ?thesis
      using skip_current [OF n(1,6) order_refl, of "d\<lparr>di_saved_key := iter_user_key ops d\<rparr>"] at' n True by (simp add: DBIter_Next_def)
  next
    case False
    then obtain m where m: "m \<le> n" "at kvs (before_position m) (di_iter d)" "\<forall>k. m \<le> k \<longrightarrow> k < n \<longrightarrow> \<not> seen seq kvs k"
      "di_saved_key d = entry_user_key kvs n"
      using n(7) by (auto simp: db_at_def)
    have "\<exists>s. (if \<not> iter_valid ops d then iSeekToFirst ops else iNext ops) (di_iter d) = Some s \<and> at kvs (Some m) s"
    proof (cases m)
      case 0
      then have at': "at kvs None (di_iter d)" using m(2) by (simp add: before_position_def)
      then have "\<not> iter_valid ops d" using cursor.at_none [OF source] by (simp add: iter_valid_def)
      moreover have "position kvs 0 = Some 0" using len by (cases kvs) (simp_all add: position_def)
      ultimately show ?thesis using cursor.first [OF source at'] 0 by simp
    next
      case (Suc e)
      then have at': "at kvs (Some e) (di_iter d)" using m(2) by (simp add: before_position_def)
      then have "iter_valid ops d" using cursor.at_some [OF source at'] by (simp add: iter_valid_def)
      moreover have "position kvs (Suc e) = Some (Suc e)" using len m(1) Suc by (simp add: position_def)
      ultimately show ?thesis using cursor.next [OF source at'] Suc by simp
    qed
    then obtain s where s: "(if \<not> iter_valid ops d then iSeekToFirst ops else iNext ops) (di_iter d) = Some s" "at kvs (Some m) s" by blast
    let ?d = "d\<lparr>di_forward := True, di_iter := s\<rparr>"
    have "iter_valid ops ?d" using cursor.at_some [OF source s(2)] by (simp add: iter_valid_def)
    then have "DBIter_Next ops compare seq d = FindNextUserEntry ops compare seq True ?d"
      using False s(1) by (simp add: DBIter_Next_def move_iter_def)
    moreover have "\<exists>d'. FindNextUserEntry ops compare seq True ?d = Some d' \<and>
        db_on compare valid seq at kvs (user_entries seq kvs) (position (user_entries seq kvs) (Suc (vcount seq kvs n))) d'"
      by (rule skip_current [OF n(1,6) m(1,3)]) (use s(2) n(3,4) m(4) in simp_all)
    ultimately show ?thesis using n(2,5) by simp
  qed
qed

text \<open>The seeks: forward from entry \<open>m\<close>, of whose key nothing was seen before.\<close>

lemma seek_forward_at:
  assumes "db_entries compare valid kvs" "f (di_iter d) = Some s" "at kvs (position kvs m) s" "m \<le> length kvs" "seed_ok (di_rnd d)" "di_forward d"
    "di_status d = OK" "skip_inv compare seq kvs m False (di_saved_key d)"
  shows "\<exists>d'. (case move_iter f d of
        None \<Rightarrow> None
      | Some d \<Rightarrow> if iter_valid ops d then FindNextUserEntry ops compare seq False d else Some (d\<lparr>di_valid := False\<rparr>)) = Some d' \<and>
    db_on compare valid seq at kvs (user_entries seq kvs) (position (user_entries seq kvs) (vcount seq kvs m)) d'"
proof (cases "m < length kvs")
  case True
  then have at': "at kvs (Some m) s" using assms(3) by (simp add: position_def)
  then have "iter_valid ops (d\<lparr>di_iter := s\<rparr>)" using cursor.at_some [OF source at'] by (simp add: iter_valid_def)
  then show ?thesis
    using FindNextUserEntry_at [OF assms(1), of m "d\<lparr>di_iter := s\<rparr>" seq False] at' assms(2,5-8) by (simp add: move_iter_def)
next
  case False
  then have at': "at kvs None s" using assms(3) by (simp add: position_def)
  then have "\<not> iter_valid ops (d\<lparr>di_iter := s\<rparr>)" using cursor.at_none [OF source] by (simp add: iter_valid_def)
  moreover have "position (user_entries seq kvs) (vcount seq kvs m) = None"
    by (rule vcount_end [OF assms(4)]) (use False in \<open>auto simp: visible_def\<close>)
  ultimately show ?thesis using at' assms(1,2,5,7) by (auto simp: move_iter_def db_on_def)
qed

lemma entry_before_target:
  assumes "db_entries compare valid kvs" "j < length kvs" "valid target" "seq \<le> kMaxSequenceNumber"
  shows "InternalCompare compare (fst (kvs ! j)) (encode_key target seq kValueTypeForSeek) < 0 \<longleftrightarrow>
    compare (entry_user_key kvs j) target < 0 \<or> entry_user_key kvs j = target \<and> \<not> seen seq kvs j"
proof -
  have k: "fst (kvs ! j) = encode_key (entry_user_key kvs j) (entry_sequence kvs j) (entry_type kvs j)"
    using ParseInternalKey_Some [OF entry_parsed [OF assms(1,2)]] by (simp add: encode_key_def)
  have "entry_sequence kvs j = key_num (fst (kvs ! j)) div 256"
    using entry_parsed [OF assms(1,2)] by (auto simp: ParseInternalKey_def Let_def drop_bit_eq_div split: if_splits)
  then have "unat (entry_sequence kvs j) = unat (key_num (fst (kvs ! j))) div 256" by (simp add: unat_div)
  also have "\<dots> < 2 ^ 56"
    using unsigned_less [of "key_num (fst (kvs ! j))", where 'a = nat] by simp
  finally have "entry_sequence kvs j \<le> kMaxSequenceNumber" by (simp add: kMaxSequenceNumber_def word_le_nat_alt)
  then show ?thesis
    unfolding k using InternalCompare_encode [of "entry_user_key kvs j" target "entry_sequence kvs j" seq] entry_valid [OF assms(1,2)] assms(3,4)
    by (auto simp: seen_def kValueTypeForSeek_def)
qed

lemma user_lower_bound:
  assumes "db_entries compare valid kvs" "valid target" "seq \<le> kMaxSequenceNumber"
  defines "m \<equiv> lower_bound (InternalCompare compare) (encode_key target seq kValueTypeForSeek) kvs"
  shows "lower_bound compare target (user_entries seq kvs) = vcount seq kvs m" "skip_inv compare seq kvs m False skip"
proof -
  have m: "m \<le> length kvs" unfolding m_def by (rule lower_bound_le)
  have before: "compare (entry_user_key kvs j) target < 0" if "j < m" "seen seq kvs j" for j
    using lower_bound_less [of j "InternalCompare compare" "encode_key target seq kValueTypeForSeek" kvs] that m
      entry_before_target [OF assms(1) _ assms(2,3), of j] unfolding m_def by auto
  have after: "\<not> compare (entry_user_key kvs j) target < 0" if "m \<le> j" "j < length kvs" for j
  proof
    assume less: "compare (entry_user_key kvs j) target < 0"
    have "\<not> compare (entry_user_key kvs m) target < 0"
      using lower_bound_stop [of "InternalCompare compare" "encode_key target seq kValueTypeForSeek" kvs] that
        entry_before_target [OF assms(1) _ assms(2,3), of m] unfolding m_def by auto
    moreover have "compare (entry_user_key kvs m) target < 0"
      using compare_le_less [OF _ _ assms(2) user_sorted [OF assms(1) that] less] entry_valid [OF assms(1)] that by simp
    ultimately show False by blast
  qed
  show "lower_bound compare target (user_entries seq kvs) = vcount seq kvs m"
  proof (rule lower_bound_eqI)
    show "vcount seq kvs m \<le> length (user_entries seq kvs)" using cut_mono [OF m] by (simp add: length_user_entries)
    show "compare (fst (user_entries seq kvs ! c)) target < 0" if "c < vcount seq kvs m" for c
    proof -
      have "c < length (user_entries seq kvs)" using that cut_mono [OF m, of "vis_own seq kvs" 0] by (simp add: length_user_entries)
      then obtain n where n: "visible seq kvs n" "vcount seq kvs n = c" by (rule user_entries_index)
      then have "n < m" using that cut_less by blast
      then show ?thesis using before [of n] n user_entries_nth [OF n(1)] by (auto simp: visible_def)
    qed
    show "\<not> compare (fst (user_entries seq kvs ! vcount seq kvs m)) target < 0" if c: "vcount seq kvs m < length (user_entries seq kvs)"
    proof -
      obtain n where n: "visible seq kvs n" "vcount seq kvs n = vcount seq kvs m" using c by (rule user_entries_index)
      have "\<not> n < m" using n cut_mono [of "Suc n" m "vis_own seq kvs" 0] by (auto simp: cut_Suc)
      then show ?thesis using after [of n] n user_entries_nth [OF n(1)] by (auto simp: visible_def)
    qed
  qed
  show "skip_inv compare seq kvs m False skip"
    unfolding skip_inv_def using before after by (metis)
qed

lemma DBIter_Seek_at:
  assumes "db_on compare valid seq at kvs us p d" "valid target" "ivalid (encode_key target seq kValueTypeForSeek)" "seq \<le> kMaxSequenceNumber"
  shows "\<exists>d'. DBIter_Seek ops compare seq target d = Some d' \<and> db_on compare valid seq at kvs us (position us (lower_bound compare target us)) d'"
proof -
  obtain q where q: "db_entries compare valid kvs" "us = user_entries seq kvs" "seed_ok (di_rnd d)" "di_status d = OK" "at kvs q (di_iter d)"
    using assms(1) by (auto simp: db_on_def)
  let ?d = "d\<lparr>di_forward := True, di_saved_value := [], di_saved_key := encode_key target seq kValueTypeForSeek\<rparr>"
  obtain s where s: "iSeek ops (di_saved_key ?d) (di_iter ?d) = Some s"
    "at kvs (position kvs (lower_bound (InternalCompare compare) (encode_key target seq kValueTypeForSeek) kvs)) s"
    using cursor.seek [OF source q(5) assms(3)] by auto
  have "\<exists>d'. (case move_iter (iSeek ops (di_saved_key ?d)) ?d of
        None \<Rightarrow> None
      | Some d \<Rightarrow> if iter_valid ops d then FindNextUserEntry ops compare seq False d else Some (d\<lparr>di_valid := False\<rparr>)) = Some d' \<and>
    db_on compare valid seq at kvs (user_entries seq kvs) (position (user_entries seq kvs)
      (vcount seq kvs (lower_bound (InternalCompare compare) (encode_key target seq kValueTypeForSeek) kvs))) d'"
    by (rule seek_forward_at [where d = ?d and f = "iSeek ops (di_saved_key ?d)", OF q(1) s lower_bound_le _ _ _ user_lower_bound(2) [OF q(1) assms(2,4)]]) (use q(3,4) in simp_all)
  then show ?thesis
    unfolding user_lower_bound(1) [OF q(1) assms(2,4), symmetric] q(2) DBIter_Seek_def Let_def by (simp add: encode_key_def)
qed

lemma DBIter_SeekToFirst_at:
  assumes "db_on compare valid seq at kvs us p d"
  shows "\<exists>d'. DBIter_SeekToFirst ops compare seq d = Some d' \<and> db_on compare valid seq at kvs us (position us 0) d'"
proof -
  obtain q where q: "db_entries compare valid kvs" "us = user_entries seq kvs" "seed_ok (di_rnd d)" "di_status d = OK" "at kvs q (di_iter d)"
    using assms(1) by (auto simp: db_on_def)
  obtain s where s: "iSeekToFirst ops (di_iter (d\<lparr>di_forward := True, di_saved_value := []\<rparr>)) = Some s" "at kvs (position kvs 0) s"
    using cursor.first [OF source q(5)] by auto
  show ?thesis
    using seek_forward_at [where d = "d\<lparr>di_forward := True, di_saved_value := []\<rparr>" and f = "iSeekToFirst ops", OF q(1) s, of seq] q(2-4) unfolding DBIter_SeekToFirst_def by (simp add: skip_inv_def)
qed

lemma DBIter_SeekToLast_at:
  assumes "db_on compare valid seq at kvs us p d"
  shows "\<exists>d'. DBIter_SeekToLast ops compare seq d = Some d' \<and> db_on compare valid seq at kvs us (last_position us) d'"
proof -
  obtain q where q: "db_entries compare valid kvs" "us = user_entries seq kvs" "seed_ok (di_rnd d)" "di_status d = OK" "at kvs q (di_iter d)"
    using assms(1) by (auto simp: db_on_def)
  have last_before: "last_position xs = before_position (length xs)" for xs :: entries
    by (cases xs) (simp_all add: last_position_def before_position_def)
  obtain s where s: "iSeekToLast ops (di_iter d) = Some s" "at kvs (before_position (length kvs)) s"
    using cursor.last [OF source q(5)] unfolding last_before by auto
  then show ?thesis
    using FindPrevUserEntry_at [OF q(1), of "length kvs" "d\<lparr>di_forward := False, di_saved_value := [], di_iter := s\<rparr>" seq] s q(2-4)
    by (simp add: DBIter_SeekToLast_def move_iter_def last_before length_user_entries)
qed

lemma db_cursor:
  assumes "seq \<le> kMaxSequenceNumber"
  shows "cursor (DBIter_ops ops compare seq) compare (\<lambda>target. valid target \<and> ivalid (encode_key target seq kValueTypeForSeek))
    (db_on compare valid seq at kvs)"
proof
  let ?ops = "DBIter_ops ops compare seq"
  show "\<not> iValid ?ops d" if "db_on compare valid seq at kvs us None d" for us d
    using that by (simp add: db_on_def DBIter_ops_def)
  show "i < length us \<and> iValid ?ops d \<and> iKey ?ops d = fst (us ! i) \<and> iValue ?ops d = snd (us ! i)"
    if d: "db_on compare valid seq at kvs us (Some i) d" for us i d
  proof -
    obtain n where n: "us = user_entries seq kvs" "vcount seq kvs n = i" "db_at seq at kvs n d"
      using d unfolding db_on_def by auto
    then have vis: "visible seq kvs n" by (simp add: db_at_def)
    have "iKey ?ops d = entry_user_key kvs n \<and> iValue ?ops d = snd (kvs ! n)"
      using n(3) cursor.at_some [OF source, of kvs n "di_iter d"]
      by (auto simp: db_at_def DBIter_ops_def iter_user_key_def entry_user_key_def split: if_splits)
    then show ?thesis using user_entries_nth [OF vis] n by (simp add: db_at_def DBIter_ops_def)
  qed
  show "iStatus ?ops d = OK" if "db_on compare valid seq at kvs us p d" for us p d
    using that cursor.status [OF source] by (auto simp: db_on_def DBIter_ops_def)
  show "\<exists>d'. iSeek ?ops target d = Some d' \<and> db_on compare valid seq at kvs us (position us (lower_bound compare target us)) d'"
    if "db_on compare valid seq at kvs us p d" "valid target \<and> ivalid (encode_key target seq kValueTypeForSeek)" for us p d target
    using DBIter_Seek_at [OF that(1)] that(2) assms by (simp add: DBIter_ops_def)
qed (simp_all add: DBIter_ops_def DBIter_SeekToFirst_at DBIter_SeekToLast_at DBIter_Next_at DBIter_Prev_at)

lemma NewDBIterator_on:
  "db_entries compare valid kvs \<Longrightarrow> at kvs q it \<Longrightarrow> db_on compare valid seq at kvs (user_entries seq kvs) None (NewDBIterator it seed)"
  using Random_Next_ok [OF new_Random_ok [of seed]]
  by (auto simp: db_on_def NewDBIterator_def RandomCompactionPeriod_def Random_Uniform_def Let_def)

end

text \<open>The internal iterator of the database is a merging iterator.\<close>

interpretation db_merge: db_source BytewiseCompare BytewiseFindShortestSeparator BytewiseFindShortSuccessor "\<lambda>_. True"
  "MergingIterator_ops mem_or_block_ops (InternalCompare BytewiseCompare)" internal_key_ok
  "merge_on mem_or_block_ops (InternalCompare BytewiseCompare) internal_key_ok mem_or_block_at"
  by (rule db_source.intro [OF bytewise.comparator_axioms db_source_axioms.intro [OF merge_internal.merged]])

end
