(* ===== verification/LdbFormat.thy ===== *)
theory LdbFormat
  imports LdbCrc LdbPosix
begin

text \<open>
  The parts of a table file (table/format.h, table/format.cc): the handle of a block, the footer, and
  reading a block; the random access interface of include/leveldb/env.h with its memory mapped
  implementation in util/env_posix.cc; and the compression functions of port/port_stdcxx.h, which the
  pod builds without a compressor. A read outside of the memory that a call owns is \<open>None\<close>.
\<close>

subsection \<open>Random access\<close>

text \<open>What \<open>Read\<close> gives for an offset and a length: a status, the bytes, and whether these are in the
  caller's buffer.\<close>

type_synonym random_access = "u64 \<Rightarrow> nat \<Rightarrow> (Status \<times> bytes \<times> bool) option"

locale random_access_file =
  fixes read :: random_access and contents :: bytes
  assumes Read: "length contents < 2 ^ 64 \<Longrightarrow> unat offset + n \<le> length contents \<Longrightarrow> \<exists>own. read offset n = Some (OK, take n (drop (unat offset) contents), own)"

record mmap_file =
  mm_base :: bytes
  mm_filename :: string

definition Mmap_Read :: "(nat \<Rightarrow> string) \<Rightarrow> mmap_file \<Rightarrow> random_access" where
  "Mmap_Read strerror f offset n =
     (if unat (offset + of_nat n) > length (mm_base f) then Some (PosixError strerror (mm_filename f) EINVAL, [], False)
      else if unat offset + n > length (mm_base f) then None
      else Some (OK, take n (drop (unat offset) (mm_base f)), False))"

lemma unat_offset_plus:
  fixes offset :: u64
  assumes "unat offset + n < 2 ^ 64"
  shows "unat (offset + of_nat n) = unat offset + n"
proof -
  have "unat (of_nat n :: u64) = n" using assms by (simp add: unsigned_of_nat take_bit_nat_eq_self)
  then show ?thesis using assms by (simp add: unat_word_ariths)
qed

text \<open>A mapping is smaller than the address space.\<close>

interpretation mmap: random_access_file "Mmap_Read strerror f" "mm_base f" for strerror f
  by unfold_locales (auto simp: Mmap_Read_def unat_offset_plus)

subsection \<open>Compression\<close>

datatype CompressionType = kNoCompression | kSnappyCompression

definition compression_num :: "CompressionType \<Rightarrow> u8" where
  "compression_num t = (case t of kNoCompression \<Rightarrow> 0 | kSnappyCompression \<Rightarrow> 1)"

definition Snappy_Compress :: "bytes \<Rightarrow> bytes option" where "Snappy_Compress input = None"
definition Snappy_GetUncompressedLength :: "bytes \<Rightarrow> nat option" where "Snappy_GetUncompressedLength input = None"
definition Snappy_Uncompress :: "bytes \<Rightarrow> bytes option" where "Snappy_Uncompress input = None"

subsection \<open>Handles and the footer\<close>

record BlockHandle =
  bh_offset :: u64
  bh_size :: u64

definition new_BlockHandle :: BlockHandle where
  "new_BlockHandle = \<lparr>bh_offset = NOT 0, bh_size = NOT 0\<rparr>"

definition Handle_EncodeTo :: "bytes \<Rightarrow> BlockHandle \<Rightarrow> bytes" where
  "Handle_EncodeTo dst h = PutVarint64 (PutVarint64 dst (bh_offset h)) (bh_size h)"

text \<open>The status, the handle and the rest of the input.\<close>

definition Handle_DecodeFrom :: "bytes \<Rightarrow> BlockHandle \<Rightarrow> Status \<times> BlockHandle \<times> bytes" where
  "Handle_DecodeFrom input h =
     (case GetVarint64 input of
        None \<Rightarrow> (Corruption ''bad block handle'' [], h, input)
      | Some (offset, input) \<Rightarrow>
          (case GetVarint64 input of
             None \<Rightarrow> (Corruption ''bad block handle'' [], h\<lparr>bh_offset := offset\<rparr>, input)
           | Some (sz, input) \<Rightarrow> (OK, h\<lparr>bh_offset := offset, bh_size := sz\<rparr>, input)))"

definition kMaxEncodedLength :: nat where "kMaxEncodedLength = 10 + 10"
definition kEncodedLength :: nat where "kEncodedLength = 2 * kMaxEncodedLength + 8"
definition kTableMagicNumber :: u64 where "kTableMagicNumber = 0xdb4775248b80fb57"
definition kBlockTrailerSize :: nat where "kBlockTrailerSize = 5"

record Footer =
  ft_metaindex :: BlockHandle
  ft_index :: BlockHandle

text \<open>The padding cuts or fills the string, which is empty before.\<close>

definition Footer_EncodeTo :: "bytes \<Rightarrow> Footer \<Rightarrow> bytes" where
  "Footer_EncodeTo dst f =
     (let dst = Handle_EncodeTo (Handle_EncodeTo dst (ft_metaindex f)) (ft_index f);
          n = 2 * kMaxEncodedLength;
          dst = take n dst @ replicate (n - length dst) 0;
          dst = PutFixed32 dst (ucast (kTableMagicNumber AND 0xffffffff))
      in PutFixed32 dst (ucast (drop_bit 32 kTableMagicNumber)))"

definition Footer_DecodeFrom :: "bytes \<Rightarrow> (Status \<times> Footer \<times> bytes) option" where
  "Footer_DecodeFrom input =
     (let footer = \<lparr>ft_metaindex = new_BlockHandle, ft_index = new_BlockHandle\<rparr>;
          magic_ptr = drop (kEncodedLength - 8) input
      in if length input < kEncodedLength then None
         else
           let magic_lo = DecodeFixed32 magic_ptr;
               magic_hi = DecodeFixed32 (drop 4 magic_ptr);
               magic = push_bit 32 (ucast magic_hi :: u64) OR ucast magic_lo
           in if magic \<noteq> kTableMagicNumber then Some (Corruption ''not an sstable (bad magic number)'' [], footer, input)
              else
                (case Handle_DecodeFrom input (ft_metaindex footer) of
                   (result, h, rest1) \<Rightarrow>
                     let footer = footer\<lparr>ft_metaindex := h\<rparr> in
                     if \<not> ok result then Some (result, footer, rest1)
                     else
                       (case Handle_DecodeFrom rest1 (ft_index footer) of
                          (result, h, rest2) \<Rightarrow>
                            let footer = footer\<lparr>ft_index := h\<rparr> in
                            if \<not> ok result then Some (result, footer, rest2)
                            else Some (result, footer, drop kEncodedLength input))))"

subsection \<open>Reading a block\<close>

record BlockContents =
  bc_data :: bytes
  bc_cachable :: bool
  bc_heap_allocated :: bool

definition ReadBlock :: "random_access \<Rightarrow> bool \<Rightarrow> BlockHandle \<Rightarrow> (Status \<times> BlockContents) option" where
  "ReadBlock read verify_checksums handle =
     (let result = \<lparr>bc_data = [], bc_cachable = False, bc_heap_allocated = False\<rparr>;
          n = unat (bh_size handle);
          total = (n + kBlockTrailerSize) mod 2 ^ 64
      in (case read (bh_offset handle) total of
            None \<Rightarrow> None
          | Some (s, contents, own) \<Rightarrow>
              if \<not> ok s then Some (s, result)
              else if length contents \<noteq> total then Some (Corruption ''truncated block read'' [], result)
              else if total < n + kBlockTrailerSize then None
              else if verify_checksums \<and> Value 0 (take (n + 1) contents) \<noteq> Unmask (DecodeFixed32 (drop (n + 1) contents))
              then Some (Corruption ''block checksum mismatch'' [], result)
              else if contents ! n = compression_num kNoCompression
              then Some (OK, if \<not> own then \<lparr>bc_data = take n contents, bc_cachable = False, bc_heap_allocated = False\<rparr>
                else \<lparr>bc_data = take n contents, bc_cachable = True, bc_heap_allocated = True\<rparr>)
              else if contents ! n = compression_num kSnappyCompression
              then
                (case Snappy_GetUncompressedLength (take n contents) of
                   None \<Rightarrow> Some (Corruption ''corrupted compressed block contents'' [], result)
                 | Some ulength \<Rightarrow>
                     (case Snappy_Uncompress (take n contents) of
                        None \<Rightarrow> Some (Corruption ''corrupted compressed block contents'' [], result)
                      | Some ubuf \<Rightarrow> Some (OK, \<lparr>bc_data = take ulength ubuf, bc_cachable = True, bc_heap_allocated = True\<rparr>)))
              else Some (Corruption ''bad block type'' [], result)))"

subsection \<open>Round trips\<close>

lemma Handle_EncodeTo_append: "Handle_EncodeTo dst h = dst @ EncodeVarint64 (bh_offset h) @ EncodeVarint64 (bh_size h)"
  by (simp add: Handle_EncodeTo_def PutVarint64_def)

lemma Handle_DecodeFrom_Encode: "Handle_DecodeFrom (Handle_EncodeTo [] h @ rest) h' = (OK, h, rest)"
  by (simp add: Handle_EncodeTo_append Handle_DecodeFrom_def GetVarint64_put)

lemma length_handle: "length (Handle_EncodeTo [] h) \<le> kMaxEncodedLength"
  using length_varint_buffer_le [of "bh_offset h"] length_varint_buffer_le [of "bh_size h"]
  by (simp add: Handle_EncodeTo_append kMaxEncodedLength_def EncodeVarint64_bytes)

lemma magic_halves:
  "push_bit 32 (ucast (ucast (drop_bit 32 kTableMagicNumber) :: u32) :: u64) OR ucast (ucast (kTableMagicNumber AND 0xffffffff) :: u32) = kTableMagicNumber"
  by (simp add: kTableMagicNumber_def)

lemma length_footer: "length (Footer_EncodeTo [] f) = kEncodedLength"
  by (simp add: Footer_EncodeTo_def PutFixed32_def Let_def kEncodedLength_def)

lemma Footer_DecodeFrom_Encode: "Footer_DecodeFrom (Footer_EncodeTo [] f @ rest) = Some (OK, f, rest)"
proof -
  define H where "H = Handle_EncodeTo [] (ft_metaindex f) @ Handle_EncodeTo [] (ft_index f)"
  define P where "P = replicate (2 * kMaxEncodedLength - length H) (0 :: u8)"
  let ?lo = "EncodeFixed32 (ucast (kTableMagicNumber AND 0xffffffff))" and ?hi = "EncodeFixed32 (ucast (drop_bit 32 kTableMagicNumber))"
  have H: "length H \<le> 2 * kMaxEncodedLength" using length_handle [of "ft_metaindex f"] length_handle [of "ft_index f"] by (simp add: H_def)
  have enc: "Footer_EncodeTo [] f = H @ P @ ?lo @ ?hi"
    using H by (simp add: Footer_EncodeTo_def Handle_EncodeTo_append H_def P_def Let_def PutFixed32_def)
  have "length (H @ P) = kEncodedLength - 8" using H by (simp add: P_def kEncodedLength_def)
  then have m: "drop (kEncodedLength - 8) (Footer_EncodeTo [] f @ rest) = ?lo @ ?hi @ rest" unfolding enc by (simp flip: append_assoc)
  have lo: "DecodeFixed32 (?lo @ ?hi @ rest) = ucast (kTableMagicNumber AND 0xffffffff)" by simp
  have "drop 4 (?lo @ ?hi @ rest) = ?hi @ rest" by simp
  then have hi: "DecodeFixed32 (drop 4 (?lo @ ?hi @ rest)) = ucast (drop_bit 32 kTableMagicNumber)" by simp
  have len: "\<not> length (Footer_EncodeTo [] f @ rest) < kEncodedLength" by (simp add: length_footer)
  have d: "Handle_DecodeFrom (Footer_EncodeTo [] f @ rest) h = (OK, ft_metaindex f, Handle_EncodeTo [] (ft_index f) @ P @ ?lo @ ?hi @ rest)"
    "Handle_DecodeFrom (Handle_EncodeTo [] (ft_index f) @ P @ ?lo @ ?hi @ rest) h = (OK, ft_index f, P @ ?lo @ ?hi @ rest)" for h
    unfolding enc H_def by (simp_all only: append_assoc Handle_DecodeFrom_Encode)
  have "drop kEncodedLength (Footer_EncodeTo [] f @ rest) = rest" by (simp add: length_footer)
  then show ?thesis
    unfolding Footer_DecodeFrom_def Let_def m lo hi magic_halves if_not_P [OF len] d by (simp add: d)
qed

text \<open>The bytes a block is stored as.\<close>

definition raw_block :: "bytes \<Rightarrow> bytes" where
  "raw_block d = d @ 0 # EncodeFixed32 (Mask (Value 0 (d @ [0])))"

lemma length_raw_block [simp]: "length (raw_block d) = length d + 5"
  by (simp add: raw_block_def)

lemma ReadBlock_raw:
  assumes "random_access_file read contents" "contents = a @ raw_block d @ r" "length contents < 2 ^ 63"
    "bh_offset h = of_nat (length a)" "bh_size h = of_nat (length d)"
  shows "\<exists>result. ReadBlock read verify h = Some (OK, result) \<and> bc_data result = d"
proof -
  have len: "length d < 2 ^ 63" "length a < 2 ^ 63" "length a + (length d + 5) \<le> length contents" using assms(2,3) by simp_all
  then have n: "unat (bh_size h) = length d" "unat (bh_offset h) = length a"
    using assms(4,5) by (simp_all add: unsigned_of_nat take_bit_nat_eq_self)
  have total: "(length d + kBlockTrailerSize) mod 2 ^ 64 = length d + 5" using len by (simp add: kBlockTrailerSize_def)
  have "take (length d + 5) (drop (length a) contents) = raw_block d" using assms(2) by simp
  moreover have "length contents < 2 ^ 64" using assms(3) by simp
  ultimately obtain own where own: "read (bh_offset h) (length d + 5) = Some (OK, raw_block d, own)"
    using random_access_file.Read [OF assms(1), of "bh_offset h" "length d + 5"] n len(3) by auto
  have parts: "raw_block d ! length d = 0" "take (length d) (raw_block d) = d" "take (length d + 1) (raw_block d) = d @ [0]"
    "drop (length d + 1) (raw_block d) = EncodeFixed32 (Mask (Value 0 (d @ [0])))"
    by (simp_all add: raw_block_def)
  have "DecodeFixed32 (EncodeFixed32 (Mask (Value 0 (d @ [0])))) = Mask (Value 0 (d @ [0]))"
    using DecodeFixed32_Encode [of "Mask (Value 0 (d @ [0]))" "[]"] by simp
  then show ?thesis
    unfolding ReadBlock_def Let_def n total own
    by (cases own) (simp_all add: parts compression_num_def kBlockTrailerSize_def Unmask_Mask del: One_nat_def add_Suc_right)
qed

text \<open>A size near \<open>2\<^sup>6\<^sup>4\<close> makes the buffer smaller than the block.\<close>

lemma ReadBlock_wraps:
  assumes "mm_base f = [1, 2, 3]"
  shows "ReadBlock (Mmap_Read strerror f) verify \<lparr>bh_offset = 0, bh_size = - 3\<rparr> = None"
proof -
  have n: "unat (- 3 :: u64) = 18446744073709551613" by simp
  show ?thesis unfolding ReadBlock_def Let_def BlockHandle.simps n kBlockTrailerSize_def Mmap_Read_def using assms by simp
qed

end
