(* ===== verification/LdbTableBuilder.thy ===== *)
theory LdbTableBuilder
  imports LdbFormat LdbFilter LdbBlock
begin

text \<open>
  Writing a table file (table/table_builder.cc) with the options it uses (include/leveldb/options.h)
  and the objects these refer to (include/leveldb/comparator.h, include/leveldb/filter_policy.h).
  An operation is \<open>None\<close> when an operation of the file does not return or when it uses a null pointer.
  The assertions are for debug builds and not part of the model.
\<close>

subsection \<open>Options\<close>

text \<open>A comparator is an object: two are the same when their addresses are.\<close>

record comparator_object =
  cmp_address :: nat
  Compare :: "bytes \<Rightarrow> bytes \<Rightarrow> int"
  FindShortestSeparator :: "bytes \<Rightarrow> bytes \<Rightarrow> bytes"
  FindShortSuccessor :: "bytes \<Rightarrow> bytes"

definition BytewiseComparator :: "nat \<Rightarrow> comparator_object" where
  "BytewiseComparator address =
     \<lparr>cmp_address = address, Compare = BytewiseCompare, FindShortestSeparator = BytewiseFindShortestSeparator,
      FindShortSuccessor = BytewiseFindShortSuccessor\<rparr>"

record Options =
  o_comparator :: comparator_object
  o_paranoid_checks :: bool
  o_block_size :: nat
  o_block_restart_interval :: nat
  o_compression :: CompressionType
  o_filter_policy :: "(bytes \<times> policy) option"

definition new_Options :: "nat \<Rightarrow> Options" where
  "new_Options address =
     \<lparr>o_comparator = BytewiseComparator address, o_paranoid_checks = False, o_block_size = 4 * 1024, o_block_restart_interval = 16,
      o_compression = kSnappyCompression, o_filter_policy = None\<rparr>"

subsection \<open>The builder\<close>

text \<open>The string for compressed blocks is empty between two calls and not in the state.\<close>

record 'f table_builder =
  tb_options :: Options
  tb_index_options :: Options
  tb_file :: 'f
  tb_offset :: u64
  tb_status :: Status
  tb_data_block :: block_builder
  tb_index_block :: block_builder
  tb_last_key :: bytes
  tb_num_entries :: u64
  tb_closed :: bool
  tb_filter :: "(policy \<times> filter_builder) option"
  tb_pending :: bool
  tb_pending_handle :: BlockHandle

definition new_TableBuilder :: "Options \<Rightarrow> 'f \<Rightarrow> 'f table_builder" where
  "new_TableBuilder opt f =
     (let tb = \<lparr>tb_options = opt, tb_index_options = opt\<lparr>o_block_restart_interval := 1\<rparr>, tb_file = f, tb_offset = 0, tb_status = OK,
        tb_data_block = new_BlockBuilder, tb_index_block = new_BlockBuilder, tb_last_key = [], tb_num_entries = 0, tb_closed = False,
        tb_filter = map_option (\<lambda>(name, pol). (pol, new_FilterBlockBuilder)) (o_filter_policy opt),
        tb_pending = False, tb_pending_handle = new_BlockHandle\<rparr>
      in tb\<lparr>tb_filter := map_option (\<lambda>(pol, b). (pol, StartBlock pol 0 b)) (tb_filter tb)\<rparr>)"

definition ChangeOptions :: "Options \<Rightarrow> 'f table_builder \<Rightarrow> Status \<times> 'f table_builder" where
  "ChangeOptions options tb =
     (if cmp_address (o_comparator options) \<noteq> cmp_address (o_comparator (tb_options tb))
      then (InvalidArgument ''changing comparator while building table'' [], tb)
      else (OK, tb\<lparr>tb_options := options, tb_index_options := options\<lparr>o_block_restart_interval := 1\<rparr>\<rparr>))"

definition WriteRawBlock ::
  "'f writable_ops \<Rightarrow> bytes \<Rightarrow> CompressionType \<Rightarrow> 'f table_builder \<Rightarrow> (BlockHandle \<times> 'f table_builder) option" where
  "WriteRawBlock ops block_contents type tb =
     (let handle = \<lparr>bh_offset = tb_offset tb, bh_size = of_nat (length block_contents)\<rparr> in
      case Append ops block_contents (tb_file tb) of
        None \<Rightarrow> None
      | Some (s, f) \<Rightarrow>
          let tb = tb\<lparr>tb_file := f, tb_status := s\<rparr> in
          if ok s
          then
            let crc = Value 0 block_contents;
                crc = Extend 0 crc [compression_num type];
                trailer = compression_num type # EncodeFixed32 (Mask crc)
            in (case Append ops trailer (tb_file tb) of
                  None \<Rightarrow> None
                | Some (s, f) \<Rightarrow>
                    let tb = tb\<lparr>tb_file := f, tb_status := s\<rparr>
                    in Some (handle, if ok s
                      then tb\<lparr>tb_offset := tb_offset tb + of_nat (length block_contents + kBlockTrailerSize)\<rparr> else tb))
          else Some (handle, tb))"

definition block_contents_of :: "CompressionType \<Rightarrow> bytes \<Rightarrow> bytes \<times> CompressionType" where
  "block_contents_of type raw =
     (case type of
        kNoCompression \<Rightarrow> (raw, kNoCompression)
      | kSnappyCompression \<Rightarrow>
          (case Snappy_Compress raw of
             Some compressed \<Rightarrow>
               if length compressed < length raw - length raw div 8 then (compressed, kSnappyCompression) else (raw, kNoCompression)
           | None \<Rightarrow> (raw, kNoCompression)))"

definition WriteBlock ::
  "'f writable_ops \<Rightarrow> block_builder \<Rightarrow> 'f table_builder \<Rightarrow> (BlockHandle \<times> block_builder \<times> 'f table_builder) option" where
  "WriteBlock ops block tb =
     (let (raw, block) = BlockBuilder_Finish block;
          (block_contents, type) = block_contents_of (o_compression (tb_options tb)) raw
      in map_option (\<lambda>(handle, tb). (handle, BlockBuilder_Reset block, tb)) (WriteRawBlock ops block_contents type tb))"

definition TableBuilder_Flush :: "'f writable_ops \<Rightarrow> 'f table_builder \<Rightarrow> 'f table_builder option" where
  "TableBuilder_Flush ops tb =
     (if \<not> ok (tb_status tb) then Some tb
      else if BlockBuilder_empty (tb_data_block tb) then Some tb
      else
        (case WriteBlock ops (tb_data_block tb) tb of
           None \<Rightarrow> None
         | Some (handle, block, tb) \<Rightarrow>
             let tb = tb\<lparr>tb_data_block := block, tb_pending_handle := handle\<rparr> in
             (case (if ok (tb_status tb)
                    then map_option (\<lambda>(s, f). tb\<lparr>tb_pending := True, tb_file := f, tb_status := s\<rparr>) (Flush ops (tb_file tb))
                    else Some tb) of
                None \<Rightarrow> None
              | Some tb \<Rightarrow>
                  Some (tb\<lparr>tb_filter := map_option (\<lambda>(pol, b). (pol, StartBlock pol (unat (tb_offset tb)) b)) (tb_filter tb)\<rparr>))))"

text \<open>The index entry of the block before, with a key between the two blocks.\<close>

definition add_index_entry :: "bytes \<Rightarrow> 'f table_builder \<Rightarrow> 'f table_builder" where
  "add_index_entry last_key tb =
     tb\<lparr>tb_last_key := last_key,
        tb_index_block := BlockBuilder_Add (o_block_restart_interval (tb_index_options tb)) last_key
          (Handle_EncodeTo [] (tb_pending_handle tb)) (tb_index_block tb),
        tb_pending := False\<rparr>"

definition TableBuilder_Add :: "'f writable_ops \<Rightarrow> bytes \<Rightarrow> bytes \<Rightarrow> 'f table_builder \<Rightarrow> 'f table_builder option" where
  "TableBuilder_Add ops key value tb =
     (if \<not> ok (tb_status tb) then Some tb
      else
        let tb = (if tb_pending tb
              then add_index_entry (FindShortestSeparator (o_comparator (tb_options tb)) (tb_last_key tb) key) tb else tb);
            tb = tb\<lparr>tb_filter := map_option (\<lambda>(pol, b). (pol, AddKey key b)) (tb_filter tb)\<rparr>;
            tb = tb\<lparr>tb_last_key := key, tb_num_entries := tb_num_entries tb + 1,
              tb_data_block := BlockBuilder_Add (o_block_restart_interval (tb_options tb)) key value (tb_data_block tb)\<rparr>
        in if CurrentSizeEstimate (tb_data_block tb) \<ge> o_block_size (tb_options tb) then TableBuilder_Flush ops tb else Some tb)"

definition filter_key :: "bytes \<Rightarrow> bytes" where
  "filter_key name = [102, 105, 108, 116, 101, 114, 46] @ name"

text \<open>The four parts of \<open>Finish\<close>, each done when all before went well.\<close>

definition finish_filter :: "'f writable_ops \<Rightarrow> 'f table_builder \<Rightarrow> (BlockHandle \<times> 'f table_builder) option" where
  "finish_filter ops tb =
     (case tb_filter tb of
        Some (pol, b) \<Rightarrow>
          if ok (tb_status tb)
          then
            let (contents, b) = FilterFinish pol b
            in WriteRawBlock ops contents kNoCompression (tb\<lparr>tb_filter := Some (pol, b)\<rparr>)
          else Some (new_BlockHandle, tb)
      | None \<Rightarrow> Some (new_BlockHandle, tb))"

definition finish_metaindex :: "'f writable_ops \<Rightarrow> BlockHandle \<Rightarrow> 'f table_builder \<Rightarrow> (BlockHandle \<times> 'f table_builder) option" where
  "finish_metaindex ops filter_block_handle tb =
     (if ok (tb_status tb)
      then
        let meta_index_block = new_BlockBuilder;
            meta_index_block =
              (case tb_filter tb of
                 None \<Rightarrow> Some meta_index_block
               | Some _ \<Rightarrow>
                   (case o_filter_policy (tb_options tb) of
                      None \<Rightarrow> None
                    | Some (name, _) \<Rightarrow>
                        Some (BlockBuilder_Add (o_block_restart_interval (tb_options tb)) (filter_key name)
                          (Handle_EncodeTo [] filter_block_handle) meta_index_block)))
        in Option.bind meta_index_block
             (\<lambda>block. map_option (\<lambda>(handle, _, tb). (handle, tb)) (WriteBlock ops block tb))
      else Some (new_BlockHandle, tb))"

definition finish_index :: "'f writable_ops \<Rightarrow> 'f table_builder \<Rightarrow> (BlockHandle \<times> 'f table_builder) option" where
  "finish_index ops tb =
     (if ok (tb_status tb)
      then
        let tb = (if tb_pending tb then add_index_entry (FindShortSuccessor (o_comparator (tb_options tb)) (tb_last_key tb)) tb else tb)
        in map_option (\<lambda>(handle, block, tb). (handle, tb\<lparr>tb_index_block := block\<rparr>)) (WriteBlock ops (tb_index_block tb) tb)
      else Some (new_BlockHandle, tb))"

definition finish_footer :: "'f writable_ops \<Rightarrow> Footer \<Rightarrow> 'f table_builder \<Rightarrow> 'f table_builder option" where
  "finish_footer ops footer tb =
     (if ok (tb_status tb)
      then
        let footer_encoding = Footer_EncodeTo [] footer
        in map_option (\<lambda>(s, f). let tb = tb\<lparr>tb_file := f, tb_status := s\<rparr>
             in if ok s then tb\<lparr>tb_offset := tb_offset tb + of_nat (length footer_encoding)\<rparr> else tb)
           (Append ops footer_encoding (tb_file tb))
      else Some tb)"

definition TableBuilder_Finish :: "'f writable_ops \<Rightarrow> 'f table_builder \<Rightarrow> (Status \<times> 'f table_builder) option" where
  "TableBuilder_Finish ops tb =
     Option.bind (TableBuilder_Flush ops tb) (\<lambda>tb.
     Option.bind (finish_filter ops (tb\<lparr>tb_closed := True\<rparr>)) (\<lambda>(filter_block_handle, tb).
     Option.bind (finish_metaindex ops filter_block_handle tb) (\<lambda>(metaindex_block_handle, tb).
     Option.bind (finish_index ops tb) (\<lambda>(index_block_handle, tb).
     Option.bind (finish_footer ops \<lparr>ft_metaindex = metaindex_block_handle, ft_index = index_block_handle\<rparr> tb) (\<lambda>tb.
       Some (tb_status tb, tb))))))"

definition TableBuilder_Abandon :: "'f table_builder \<Rightarrow> 'f table_builder" where
  "TableBuilder_Abandon tb = tb\<lparr>tb_closed := True\<rparr>"

definition TableBuilder_NumEntries :: "'f table_builder \<Rightarrow> u64" where "TableBuilder_NumEntries tb = tb_num_entries tb"
definition TableBuilder_FileSize :: "'f table_builder \<Rightarrow> u64" where "TableBuilder_FileSize tb = tb_offset tb"

text \<open>A table of a list of entries.\<close>

fun add_all :: "'f writable_ops \<Rightarrow> entries \<Rightarrow> 'f table_builder \<Rightarrow> 'f table_builder option" where
  "add_all ops [] tb = Some tb"
| "add_all ops ((k, v) # kvs) tb = Option.bind (TableBuilder_Add ops k v tb) (add_all ops kvs)"

definition build_table :: "'f writable_ops \<Rightarrow> Options \<Rightarrow> entries \<Rightarrow> 'f \<Rightarrow> (Status \<times> 'f table_builder) option" where
  "build_table ops opt kvs f = Option.bind (add_all ops kvs (new_TableBuilder opt f)) (TableBuilder_Finish ops)"

subsection \<open>The file of a table\<close>

text \<open>The finished data blocks are \<open>ds\<close>, and \<open>seps\<close> are the keys of the index.\<close>

definition table_data :: "nat \<Rightarrow> entries list \<Rightarrow> bytes" where
  "table_data n ds = concat (map (\<lambda>es. raw_block (build_block n es)) ds)"

definition handle_at :: "bytes \<Rightarrow> bytes \<Rightarrow> BlockHandle" where
  "handle_at before contents = \<lparr>bh_offset = of_nat (length before), bh_size = of_nat (length contents)\<rparr>"

definition data_handle :: "nat \<Rightarrow> entries list \<Rightarrow> nat \<Rightarrow> BlockHandle" where
  "data_handle n ds i = handle_at (table_data n (take i ds)) (build_block n (ds ! i))"

definition index_entries :: "nat \<Rightarrow> entries list \<Rightarrow> bytes list \<Rightarrow> entries" where
  "index_entries n ds seps = map (\<lambda>i. (seps ! i, Handle_EncodeTo [] (data_handle n ds i))) [0 ..< length seps]"

definition block_event :: "nat \<Rightarrow> entries list \<Rightarrow> filter_event" where
  "block_event n ds = Block (unat (of_nat (length (table_data n ds)) :: u64))"

definition filter_events :: "nat \<Rightarrow> entries list \<Rightarrow> entries \<Rightarrow> filter_event list" where
  "filter_events n ds cur =
     Block 0 # concat (map (\<lambda>i. map (\<lambda>kv. Key (fst kv)) (ds ! i) @ [block_event n (take (Suc i) ds)]) [0 ..< length ds]) @
     map (\<lambda>kv. Key (fst kv)) cur"

definition filter_of :: "nat \<Rightarrow> entries list \<Rightarrow> entries \<Rightarrow> policy \<Rightarrow> filter_builder" where
  "filter_of n ds cur pol = filter_run pol (filter_events n ds cur) new_FilterBlockBuilder"

definition block_of_entries :: "nat \<Rightarrow> entries \<Rightarrow> block_builder" where
  "block_of_entries n kvs = fold (\<lambda>(k, v). BlockBuilder_Add n k v) kvs new_BlockBuilder"

text \<open>A separator is not before its block and before all that follows.\<close>

definition separates :: "(bytes \<Rightarrow> bytes \<Rightarrow> int) \<Rightarrow> (bytes \<Rightarrow> bool) \<Rightarrow> bytes list \<Rightarrow> entries list \<Rightarrow> entries \<Rightarrow> bool" where
  "separates cmp valid seps ds cur \<longleftrightarrow>
     (\<forall>i < length seps. valid (seps ! i) \<and> (\<forall>kv \<in> set (ds ! i). cmp (fst kv) (seps ! i) \<le> 0) \<and>
        (\<forall>kv \<in> set (concat (drop (Suc i) ds) @ cur). cmp (seps ! i) (fst kv) < 0))"

definition last_key_of :: "entries \<Rightarrow> bytes" where
  "last_key_of kvs = (if kvs = [] then [] else fst (last kvs))"

text \<open>The builder has written the blocks \<open>ds\<close> and has the entries \<open>cur\<close> in its data block.\<close>

definition builds ::
  "('f \<Rightarrow> bytes) \<Rightarrow> ('f \<Rightarrow> bool) \<Rightarrow> (bytes \<Rightarrow> bool) \<Rightarrow> Options \<Rightarrow> entries list \<Rightarrow> bytes list \<Rightarrow> entries \<Rightarrow> 'f table_builder \<Rightarrow> bool" where
  "builds contents good valid opt ds seps cur tb \<longleftrightarrow>
     (let n = o_block_restart_interval opt in
      good (tb_file tb) \<and> contents (tb_file tb) = table_data n ds \<and> tb_offset tb = of_nat (length (table_data n ds)) \<and>
      tb_status tb = OK \<and> tb_options tb = opt \<and> o_block_restart_interval (tb_index_options tb) = 1 \<and>
      tb_num_entries tb = of_nat (length (concat ds @ cur)) \<and>
      tb_data_block tb = block_of_entries n cur \<and> tb_index_block tb = block_of_entries 1 (index_entries n ds seps) \<and>
      tb_filter tb = map_option (\<lambda>(name, pol). (pol, filter_of n ds cur pol)) (o_filter_policy opt) \<and>
      [] \<notin> set ds \<and> (cur \<noteq> [] \<or> tb_pending tb \<longrightarrow> tb_last_key tb = last_key_of (concat ds @ cur)) \<and>
      separates (Compare (o_comparator opt)) valid seps ds cur \<and>
      (if tb_pending tb then cur = [] \<and> length ds = Suc (length seps) \<and> tb_pending_handle tb = data_handle n ds (length seps)
       else length seps = length ds))"

lemma table_data_snoc [simp]: "table_data n (ds @ [es]) = table_data n ds @ raw_block (build_block n es)"
  by (simp add: table_data_def)

lemma table_data_Nil [simp]: "table_data n [] = []"
  by (simp add: table_data_def)

lemma index_entries_snoc:
  "length seps < length ds \<Longrightarrow> index_entries n ds (seps @ [k]) = index_entries n ds seps @ [(k, Handle_EncodeTo [] (data_handle n ds (length seps)))]"
  by (simp add: index_entries_def nth_append)

lemma index_entries_more: "length seps \<le> length ds \<Longrightarrow> index_entries n (ds @ [es]) seps = index_entries n ds seps"
  by (simp add: index_entries_def data_handle_def nth_append)

lemma filter_events_key: "filter_events n ds (cur @ [kv]) = filter_events n ds cur @ [Key (fst kv)]"
  by (simp add: filter_events_def)

lemma filter_events_block: "filter_events n (ds @ [cur]) [] = filter_events n ds cur @ [block_event n (ds @ [cur])]"
proof -
  define F where "F = (\<lambda>ds i. map (\<lambda>kv. Key (fst kv)) (ds ! i) @ [block_event n (take (Suc i) ds)])"
  have ev: "filter_events n ds cur = Block 0 # concat (map (F ds) [0 ..< length ds]) @ map (\<lambda>kv. Key (fst kv)) cur" for ds cur
    by (simp add: filter_events_def F_def)
  have old: "map (F (ds @ [cur])) [0 ..< length ds] = map (F ds) [0 ..< length ds]"
    by (rule map_cong) (simp_all add: F_def nth_append)
  have new: "F (ds @ [cur]) (length ds) = map (\<lambda>kv. Key (fst kv)) cur @ [block_event n (ds @ [cur])]" by (simp add: F_def)
  show ?thesis unfolding ev length_append_singleton upt_Suc_append [OF le0] map_append old by (simp add: new)
qed

lemma filter_run_append: "filter_run pol (es @ es') b = filter_run pol es' (filter_run pol es b)"
proof (induction es arbitrary: b)
  case (Cons e es)
  then show ?case by (cases e) simp_all
qed simp

lemma block_of_entries_snoc: "block_of_entries n (kvs @ [(k, v)]) = BlockBuilder_Add n k v (block_of_entries n kvs)"
  by (simp add: block_of_entries_def)

lemma Add_nonempty: "\<not> BlockBuilder_empty (BlockBuilder_Add n k v b)"
  using EncodeVarint32_nonempty [of "of_nat (length v)"]
  by (auto simp: BlockBuilder_Add_def BlockBuilder_empty_def Let_def PutVarint32_def split: prod.splits)

lemma block_of_entries_empty: "BlockBuilder_empty (block_of_entries n kvs) \<longleftrightarrow> kvs = []"
proof (cases kvs rule: rev_cases)
  case Nil
  then show ?thesis by (simp add: block_of_entries_def new_BlockBuilder_def BlockBuilder_empty_def)
next
  case (snoc kvs kv)
  then show ?thesis using Add_nonempty by (cases kv) (simp add: block_of_entries_snoc)
qed

lemma Finish_block: "\<exists>b. BlockBuilder_Finish (block_of_entries n kvs) = (build_block n kvs, b)"
  by (simp add: build_block_def block_of_entries_def prod_eq_iff)

lemma Reset_block: "BlockBuilder_Reset b = block_of_entries n []"
  by (simp add: BlockBuilder_Reset_def block_of_entries_def new_BlockBuilder_def)

lemma uncompressed: "block_contents_of type raw = (raw, kNoCompression)"
  by (cases type) (simp_all add: block_contents_of_def Snappy_Compress_def)

lemma separates_nil: "separates cmp valid [] ds cur"
  by (simp add: separates_def)

lemma separates_block: "separates cmp valid seps ds cur \<Longrightarrow> length seps \<le> length ds \<Longrightarrow> separates cmp valid seps (ds @ [cur]) []"
  by (auto simp: separates_def nth_append Suc_le_eq)

lemma separates_key:
  assumes "separates cmp valid seps ds cur" "\<And>i. i < length seps \<Longrightarrow> cmp (seps ! i) k < 0"
  shows "separates cmp valid seps ds (cur @ [(k, v)])"
  using assms unfolding separates_def by auto


subsection \<open>Writing\<close>

context writable_file
begin

lemma WriteRawBlock_ok:
  assumes "good (tb_file tb)"
  shows "\<exists>f. WriteRawBlock ops d kNoCompression tb = Some (\<lparr>bh_offset = tb_offset tb, bh_size = of_nat (length d)\<rparr>,
      tb\<lparr>tb_file := f, tb_status := OK, tb_offset := tb_offset tb + of_nat (length (raw_block d))\<rparr>) \<and>
    good f \<and> contents f = contents (tb_file tb) @ raw_block d"
proof -
  obtain f1 where f1: "Append ops d (tb_file tb) = Some (OK, f1)" "good f1" "contents f1 = contents (tb_file tb) @ d"
    using Append [OF assms] by blast
  have crc: "Extend 0 (Value 0 d) [compression_num kNoCompression] = Value 0 (d @ [0])"
    by (simp add: Value_def compression_num_def Extend_append [where w = 0])
  let ?trailer = "compression_num kNoCompression # EncodeFixed32 (Mask (Value 0 (d @ [0])))"
  obtain f2 where f2: "Append ops ?trailer f1 = Some (OK, f2)" "good f2" "contents f2 = contents f1 @ ?trailer"
    using Append [OF f1(2)] by blast
  have "contents f2 = contents (tb_file tb) @ raw_block d" using f1(3) f2(3) by (simp add: raw_block_def compression_num_def)
  then show ?thesis
    using f1(1) f2(1,2) by (intro exI [of _ f2]) (simp add: WriteRawBlock_def Let_def crc kBlockTrailerSize_def)
qed

lemma WriteBlock_ok:
  assumes "good (tb_file tb)"
  shows "\<exists>f. WriteBlock ops (block_of_entries n kvs) tb =
      Some (\<lparr>bh_offset = tb_offset tb, bh_size = of_nat (length (build_block n kvs))\<rparr>, block_of_entries n [],
        tb\<lparr>tb_file := f, tb_status := OK, tb_offset := tb_offset tb + of_nat (length (raw_block (build_block n kvs)))\<rparr>) \<and>
    good f \<and> contents f = contents (tb_file tb) @ raw_block (build_block n kvs)"
proof -
  obtain f where "WriteRawBlock ops (build_block n kvs) kNoCompression tb =
      Some (\<lparr>bh_offset = tb_offset tb, bh_size = of_nat (length (build_block n kvs))\<rparr>,
        tb\<lparr>tb_file := f, tb_status := OK, tb_offset := tb_offset tb + of_nat (length (raw_block (build_block n kvs)))\<rparr>)"
    "good f" "contents f = contents (tb_file tb) @ raw_block (build_block n kvs)"
    using WriteRawBlock_ok [OF assms, of "build_block n kvs"] by blast
  moreover obtain b where b: "BlockBuilder_Finish (block_of_entries n kvs) = (build_block n kvs, b)" using Finish_block by blast
  ultimately show ?thesis
    unfolding WriteBlock_def Let_def b prod.case uncompressed by (intro exI [of _ f]) (simp add: Reset_block [of _ n])
qed

text \<open>A flush ends the data block, if there is one.\<close>

lemma Flush_builds:
  assumes "builds contents good valid opt ds seps cur tb" "cur \<noteq> []"
  shows "\<exists>tb'. TableBuilder_Flush ops tb = Some tb' \<and> builds contents good valid opt (ds @ [cur]) seps [] tb' \<and> tb_pending tb'"
proof -
  define n where "n = o_block_restart_interval opt"
  note b = assms(1) [unfolded builds_def Let_def, folded n_def]
  have f: "good (tb_file tb)" and d: "tb_data_block tb = block_of_entries n cur" using b by simp_all
  have np: "\<not> tb_pending tb" using b assms(2) by meson
  then have len: "length seps = length ds" using b by simp
  have old: "tb_offset tb = of_nat (length (table_data n ds))" "contents (tb_file tb) = table_data n ds" "tb_status tb = OK" "tb_options tb = opt"
    "o_block_restart_interval (tb_index_options tb) = 1" "tb_num_entries tb = of_nat (length (concat ds @ cur))"
    "tb_index_block tb = block_of_entries 1 (index_entries n ds seps)" "[] \<notin> set ds" "tb_last_key tb = last_key_of (concat ds @ cur)"
    "tb_filter tb = map_option (\<lambda>(name, pol). (pol, filter_of n ds cur pol)) (o_filter_policy opt)"
    "separates (Compare (o_comparator opt)) valid seps ds cur"
    using b assms(2) by simp_all
  obtain f1 where w: "WriteBlock ops (tb_data_block tb) tb =
      Some (\<lparr>bh_offset = tb_offset tb, bh_size = of_nat (length (build_block n cur))\<rparr>, block_of_entries n [],
        tb\<lparr>tb_file := f1, tb_status := OK, tb_offset := tb_offset tb + of_nat (length (raw_block (build_block n cur)))\<rparr>)"
    and f1: "good f1" "contents f1 = contents (tb_file tb) @ raw_block (build_block n cur)"
    using WriteBlock_ok [OF f, of n cur] unfolding d by blast
  obtain f2 where f2: "Flush ops f1 = Some (OK, f2)" "good f2" "contents f2 = contents f1" using Flush [OF f1(1)] by blast
  have off: "tb_offset tb + of_nat (length (raw_block (build_block n cur))) = of_nat (length (table_data n (ds @ [cur])))"
    by (simp add: old)
  have h: "\<lparr>bh_offset = tb_offset tb, bh_size = of_nat (length (build_block n cur))\<rparr> = data_handle n (ds @ [cur]) (length seps)"
    by (simp add: data_handle_def handle_at_def old len)
  define tb' where "tb' = tb\<lparr>tb_file := f2, tb_status := OK, tb_offset := of_nat (length (table_data n (ds @ [cur]))),
      tb_data_block := block_of_entries n [], tb_pending_handle := data_handle n (ds @ [cur]) (length seps), tb_pending := True,
      tb_filter := map_option (\<lambda>(pol, b). (pol, StartBlock pol (unat (of_nat (length (table_data n (ds @ [cur]))) :: u64)) b)) (tb_filter tb)\<rparr>"
  have ne: "ok (tb_status tb)" "\<not> BlockBuilder_empty (tb_data_block tb)" using assms(2) by (simp_all add: old d block_of_entries_empty)
  have step: "TableBuilder_Flush ops tb = Some tb'"
    unfolding TableBuilder_Flush_def w off h using f2(1) ne by (simp add: tb'_def Let_def del: table_data_snoc)
  have flt: "filter_of n (ds @ [cur]) [] pol = StartBlock pol (unat (of_nat (length (table_data n (ds @ [cur]))) :: u64)) (filter_of n ds cur pol)" for pol
    unfolding filter_of_def filter_events_block filter_run_append by (simp add: block_event_def del: table_data_snoc)
  have "separates (Compare (o_comparator opt)) valid seps (ds @ [cur]) []" using old(11) len by (intro separates_block) simp_all
  moreover have "index_entries n (ds @ [cur]) seps = index_entries n ds seps" using len by (intro index_entries_more) simp
  moreover have "tb_filter tb' = map_option (\<lambda>(name, pol). (pol, filter_of n (ds @ [cur]) [] pol)) (o_filter_policy opt)"
    by (cases "o_filter_policy opt") (auto simp: tb'_def flt old simp del: table_data_snoc)
  moreover have "contents f2 = table_data n (ds @ [cur])" using f1(2) f2(3) by (simp add: old)
  ultimately have "builds contents good valid opt (ds @ [cur]) seps [] tb'"
    unfolding builds_def Let_def n_def [symmetric]
    by (intro conjI) (simp_all add: tb'_def old f2(2) assms(2) assms(2) [symmetric] len del: table_data_snoc)
  then show ?thesis using step by (auto simp: tb'_def)
qed

end


subsection \<open>Adding\<close>

lemma last_key_of_simps [simp]: "last_key_of (kvs @ [kv]) = fst kv" "last_key_of [] = []"
  by (simp_all add: last_key_of_def)

context comparator
begin

lemma sorted_le_last:
  assumes "keys_sorted compare valid kvs" "kv \<in> set kvs"
  shows "compare (fst kv) (last_key_of kvs) \<le> 0 \<and> valid (last_key_of kvs)"
proof (cases kvs rule: rev_cases)
  case (snoc kvs' kv')
  then show ?thesis using assms compare_refl by (auto simp: keys_sorted_def sorted_wrt_append dest: less_imp_le)
qed (use assms in simp)

lemma separates_close:
  assumes "separates compare valid seps ds []" "length ds = Suc (length seps)" "keys_sorted compare valid (concat ds)"
    "valid m" "compare (last_key_of (concat ds)) m \<le> 0"
  shows "separates compare valid (seps @ [m]) ds []"
proof -
  have "compare (fst kv) m \<le> 0" if "kv \<in> set (ds ! length seps)" for kv
  proof -
    have kv: "kv \<in> set (concat ds)" using that assms(2) nth_mem [of "length seps" ds] by auto
    then have "valid (fst kv)" using assms(3) by (auto simp: keys_sorted_def)
    then show ?thesis using sorted_le_last [OF assms(3) kv] assms(4,5) compare_le_trans by blast
  qed
  then show ?thesis using assms(1,2,4) by (auto simp: separates_def nth_append less_Suc_eq)
qed

lemma separates_add:
  assumes "separates compare valid seps ds cur" "length seps \<le> length ds" "[] \<notin> set ds" "keys_sorted compare valid (concat ds @ cur @ [(k, v)])"
    "\<And>i. Suc i = length seps \<Longrightarrow> length seps = length ds \<Longrightarrow> cur = [] \<Longrightarrow> compare (seps ! i) k < 0"
  shows "separates compare valid seps ds (cur @ [(k, v)])"
proof (rule separates_key [OF assms(1)])
  fix i assume i: "i < length seps"
  show "compare (seps ! i) k < 0"
  proof (cases "concat (drop (Suc i) ds) @ cur = []")
    case True
    have "drop (Suc i) ds = []" using True assms(3) by (metis append_is_Nil_conv concat_eq_Nil_conv in_set_dropD list.set_intros(1) neq_Nil_conv)
    then show ?thesis using True i assms(2) by (intro assms(5)) auto
  next
    case False
    then obtain kv where kv: "kv \<in> set (concat (drop (Suc i) ds) @ cur)" by (metis ex_in_conv set_empty)
    then have "kv \<in> set (concat ds @ cur)" by (auto dest: in_set_dropD)
    then have "compare (fst kv) k < 0" "valid (fst kv)" "valid k"
      using assms(4) by (auto simp: keys_sorted_def sorted_wrt_append)
    moreover have "compare (seps ! i) (fst kv) < 0" "valid (seps ! i)" using assms(1) i kv by (auto simp: separates_def)
    ultimately show ?thesis using compare_trans by blast
  qed
qed

end

lemma open_builds:
  assumes "builds contents good valid opt ds seps cur tb" "tb_pending tb"
    "separates (Compare (o_comparator opt)) valid (seps @ [m]) ds []"
  shows "builds contents good valid opt ds (seps @ [m]) [] (add_index_entry m tb) \<and> \<not> tb_pending (add_index_entry m tb)"
proof -
  have "block_of_entries 1 (index_entries n ds (seps @ [m])) =
      BlockBuilder_Add 1 m (Handle_EncodeTo [] (data_handle n ds (length seps))) (block_of_entries 1 (index_entries n ds seps))"
    if "length ds = Suc (length seps)" for n
    using that by (simp add: index_entries_snoc block_of_entries_snoc)
  then show ?thesis using assms by (auto simp: builds_def add_index_entry_def Let_def)
qed

definition put_entry :: "bytes \<Rightarrow> bytes \<Rightarrow> 'f table_builder \<Rightarrow> 'f table_builder" where
  "put_entry key value tb =
     tb\<lparr>tb_filter := map_option (\<lambda>(pol, b). (pol, AddKey key b)) (tb_filter tb), tb_last_key := key, tb_num_entries := tb_num_entries tb + 1,
       tb_data_block := BlockBuilder_Add (o_block_restart_interval (tb_options tb)) key value (tb_data_block tb)\<rparr>"

lemma put_builds:
  assumes "builds contents good valid opt ds seps cur tb" "\<not> tb_pending tb"
    "separates (Compare (o_comparator opt)) valid seps ds (cur @ [(k, v)])"
  shows "builds contents good valid opt ds seps (cur @ [(k, v)]) (put_entry k v tb)"
proof -
  have "filter_of n ds (cur @ [(k, v)]) pol = AddKey k (filter_of n ds cur pol)" for n pol
    by (simp add: filter_of_def filter_events_key filter_run_append)
  then show ?thesis
    using assms last_key_of_simps(1) [of "concat ds @ cur" "(k, v)"]
    by (cases "o_filter_policy opt") (auto simp: builds_def put_entry_def Let_def block_of_entries_snoc)
qed

lemma TableBuilder_Add_parts:
  "tb_status tb = OK \<Longrightarrow> TableBuilder_Add ops k v tb =
     (let tb = put_entry k v (if tb_pending tb
            then add_index_entry (FindShortestSeparator (o_comparator (tb_options tb)) (tb_last_key tb) k) tb else tb)
      in if CurrentSizeEstimate (tb_data_block tb) \<ge> o_block_size (tb_options tb) then TableBuilder_Flush ops tb else Some tb)"
  by (simp add: TableBuilder_Add_def put_entry_def Let_def)

abbreviation comparator_of :: "comparator_object \<Rightarrow> (bytes \<Rightarrow> bool) \<Rightarrow> bool" where
  "comparator_of c valid \<equiv> comparator (Compare c) (FindShortestSeparator c) (FindShortSuccessor c) valid"

context writable_file
begin

lemma Add_builds:
  assumes "comparator_of (o_comparator opt) valid" "builds contents good valid opt ds seps cur tb"
    "keys_sorted (Compare (o_comparator opt)) valid (concat ds @ cur @ [(k, v)])" "cur = [] \<and> \<not> tb_pending tb \<longrightarrow> ds = []"
  shows "\<exists>tb' ds' seps' cur'. TableBuilder_Add ops k v tb = Some tb' \<and> builds contents good valid opt ds' seps' cur' tb' \<and>
    concat ds' @ cur' = concat ds @ cur @ [(k, v)] \<and> (cur' = [] \<and> \<not> tb_pending tb' \<longrightarrow> ds' = [])"
proof -
  let ?c = "o_comparator opt"
  have st: "tb_status tb = OK" "tb_options tb = opt" "[] \<notin> set ds" using assms(2) by (simp_all add: builds_def Let_def)
  define tb1 where "tb1 = (if tb_pending tb then add_index_entry (FindShortestSeparator ?c (tb_last_key tb) k) tb else tb)"
  obtain seps1 where s1: "builds contents good valid opt ds seps1 cur tb1" "\<not> tb_pending tb1"
    "separates (Compare ?c) valid seps1 ds (cur @ [(k, v)])"
  proof (cases "tb_pending tb")
    case False
    then have "length seps = length ds" "separates (Compare ?c) valid seps ds cur" using assms(2) by (auto simp: builds_def Let_def)
    then have "separates (Compare ?c) valid seps ds (cur @ [(k, v)])"
      using False assms(4) by (intro comparator.separates_add [OF assms(1) _ _ st(3) assms(3)]) auto
    then show ?thesis using that [of seps] assms(2) False by (simp add: tb1_def)
  next
    case True
    then have p: "cur = []" "length ds = Suc (length seps)" "tb_last_key tb = last_key_of (concat ds)" "separates (Compare ?c) valid seps ds []"
      using assms(2) by (auto simp: builds_def Let_def)
    have ne: "concat ds \<noteq> []" using p(2) st(3) by (cases ds) auto
    then have l: "last_key_of (concat ds) = fst (last (concat ds))" "last (concat ds) \<in> set (concat ds)"
      unfolding last_key_of_def by (simp_all only: if_False last_in_set not_False_eq_True)
    let ?m = "FindShortestSeparator ?c (tb_last_key tb) k"
    have "Compare ?c (tb_last_key tb) k < 0" "valid (tb_last_key tb)" "valid k" "keys_sorted (Compare ?c) valid (concat ds)"
      using assms(3) l(2) unfolding p(3) l(1) by (auto simp: keys_sorted_def sorted_wrt_append)
    then have m: "valid ?m" "Compare ?c (tb_last_key tb) ?m \<le> 0" "Compare ?c ?m k < 0" "separates (Compare ?c) valid (seps @ [?m]) ds []"
      using comparator.separator [OF assms(1)] comparator.separates_close [OF assms(1) p(4,2)] p(3) by auto
    have "separates (Compare ?c) valid (seps @ [?m]) ds (cur @ [(k, v)])"
      using m p by (intro comparator.separates_add [OF assms(1) _ _ st(3) assms(3)]) (simp_all add: nth_append)
    then show ?thesis using that [of "seps @ [?m]"] open_builds [OF assms(2) True m(4)] True p(1) by (simp add: tb1_def)
  qed
  define tb2 where "tb2 = put_entry k v tb1"
  have b2: "builds contents good valid opt ds seps1 (cur @ [(k, v)]) tb2" unfolding tb2_def by (rule put_builds [OF s1])
  have add: "TableBuilder_Add ops k v tb =
      (if CurrentSizeEstimate (tb_data_block tb2) \<ge> o_block_size (tb_options tb2) then TableBuilder_Flush ops tb2 else Some tb2)"
    unfolding TableBuilder_Add_parts [OF st(1)] st(2) tb2_def tb1_def Let_def ..
  show ?thesis
  proof (cases "CurrentSizeEstimate (tb_data_block tb2) \<ge> o_block_size (tb_options tb2)")
    case True
    obtain tb3 where "TableBuilder_Flush ops tb2 = Some tb3" "builds contents good valid opt (ds @ [cur @ [(k, v)]]) seps1 [] tb3" "tb_pending tb3"
      using Flush_builds [OF b2] by blast
    then show ?thesis using add True by (intro exI [of _ tb3] exI [of _ "ds @ [cur @ [(k, v)]]"] exI [of _ seps1] exI [of _ "[]"]) simp
  next
    case False
    then show ?thesis using add b2 by auto
  qed
qed


text \<open>Every entry of a sorted list is taken.\<close>

lemma add_all_builds:
  assumes "comparator_of (o_comparator opt) valid" "builds contents good valid opt ds seps cur tb"
    "keys_sorted (Compare (o_comparator opt)) valid (concat ds @ cur @ kvs)" "cur = [] \<and> \<not> tb_pending tb \<longrightarrow> ds = []"
  shows "\<exists>tb' ds' seps' cur'. add_all ops kvs tb = Some tb' \<and> builds contents good valid opt ds' seps' cur' tb' \<and>
    concat ds' @ cur' = concat ds @ cur @ kvs"
  using assms(2-4)
proof (induction kvs arbitrary: ds seps cur tb)
  case Nil
  then show ?case by auto
next
  case (Cons kv kvs)
  obtain k v where kv: "kv = (k, v)" by (cases kv)
  have "keys_sorted (Compare (o_comparator opt)) valid (concat ds @ cur @ [(k, v)])"
    using Cons.prems(2) kv by (auto simp: keys_sorted_def sorted_wrt_append)
  then obtain tb1 ds1 seps1 cur1 where 1: "TableBuilder_Add ops k v tb = Some tb1" "builds contents good valid opt ds1 seps1 cur1 tb1"
    "concat ds1 @ cur1 = concat ds @ cur @ [(k, v)]" "cur1 = [] \<and> \<not> tb_pending tb1 \<longrightarrow> ds1 = []"
    using Add_builds [OF assms(1) Cons.prems(1) _ Cons.prems(3)] by blast
  have all: "concat ds1 @ cur1 @ kvs = concat ds @ cur @ (k, v) # kvs" using arg_cong [OF 1(3), of "\<lambda>xs. xs @ kvs"] by simp
  have "keys_sorted (Compare (o_comparator opt)) valid (concat ds1 @ cur1 @ kvs)" using Cons.prems(2) unfolding all kv .
  then show ?case using Cons.IH [OF 1(2) _ 1(4)] 1(1) all kv by auto
qed

lemma new_builds:
  assumes "good f" "contents f = []"
  shows "builds contents good valid opt [] [] [] (new_TableBuilder opt f)"
proof -
  have "filter_of n [] [] pol = StartBlock pol 0 new_FilterBlockBuilder" for n pol by (simp add: filter_of_def filter_events_def)
  then show ?thesis
    using assms by (cases "o_filter_policy opt")
      (auto simp: builds_def new_TableBuilder_def Let_def separates_nil index_entries_def block_of_entries_def)
qed


end

subsection \<open>Finishing\<close>

definition filter_contents :: "nat \<Rightarrow> entries list \<Rightarrow> policy \<Rightarrow> bytes" where
  "filter_contents n ds pol = fst (FilterFinish pol (filter_of n ds [] pol))"

definition filter_part :: "Options \<Rightarrow> entries list \<Rightarrow> bytes" where
  "filter_part opt ds =
     (case o_filter_policy opt of
        None \<Rightarrow> []
      | Some (name, pol) \<Rightarrow> raw_block (filter_contents (o_block_restart_interval opt) ds pol))"

definition meta_entries :: "Options \<Rightarrow> entries list \<Rightarrow> entries" where
  "meta_entries opt ds =
     (let n = o_block_restart_interval opt in
      case o_filter_policy opt of
        None \<Rightarrow> []
      | Some (name, pol) \<Rightarrow> [(filter_key name, Handle_EncodeTo [] (handle_at (table_data n ds) (filter_contents n ds pol)))])"

text \<open>Where the index of blocks of metadata starts, and the whole file.\<close>

definition before_meta :: "Options \<Rightarrow> entries list \<Rightarrow> bytes" where
  "before_meta opt ds = table_data (o_block_restart_interval opt) ds @ filter_part opt ds"

definition meta_block :: "Options \<Rightarrow> entries list \<Rightarrow> bytes" where
  "meta_block opt ds = build_block (o_block_restart_interval opt) (meta_entries opt ds)"

definition index_block :: "Options \<Rightarrow> entries list \<Rightarrow> bytes list \<Rightarrow> bytes" where
  "index_block opt ds seps = build_block 1 (index_entries (o_block_restart_interval opt) ds seps)"

definition table_footer :: "Options \<Rightarrow> entries list \<Rightarrow> bytes list \<Rightarrow> Footer" where
  "table_footer opt ds seps =
     \<lparr>ft_metaindex = handle_at (before_meta opt ds) (meta_block opt ds),
      ft_index = handle_at (before_meta opt ds @ raw_block (meta_block opt ds)) (index_block opt ds seps)\<rparr>"

definition table_bytes :: "Options \<Rightarrow> entries list \<Rightarrow> bytes list \<Rightarrow> bytes" where
  "table_bytes opt ds seps =
     before_meta opt ds @ raw_block (meta_block opt ds) @ raw_block (index_block opt ds seps) @ Footer_EncodeTo [] (table_footer opt ds seps)"

text \<open>The blocks and separators of a finished table.\<close>

definition table_of :: "(bytes \<Rightarrow> bytes \<Rightarrow> int) \<Rightarrow> (bytes \<Rightarrow> bool) \<Rightarrow> entries \<Rightarrow> entries list \<Rightarrow> bytes list \<Rightarrow> bool" where
  "table_of cmp valid kvs ds seps \<longleftrightarrow>
     concat ds = kvs \<and> [] \<notin> set ds \<and> length seps = length ds \<and> separates cmp valid seps ds []"

text \<open>What has been written, and what writing keeps.\<close>

definition wrote :: "('f \<Rightarrow> bytes) \<Rightarrow> ('f \<Rightarrow> bool) \<Rightarrow> bytes \<Rightarrow> 'f table_builder \<Rightarrow> bool" where
  "wrote contents good out tb \<longleftrightarrow>
     good (tb_file tb) \<and> contents (tb_file tb) = out \<and> tb_offset tb = of_nat (length out) \<and> tb_status tb = OK"

definition kept :: "'f table_builder \<Rightarrow> 'f table_builder \<Rightarrow> bool" where
  "kept tb tb' \<longleftrightarrow> tb_options tb' = tb_options tb \<and> tb_index_options tb' = tb_index_options tb \<and> tb_index_block tb' = tb_index_block tb \<and>
     tb_last_key tb' = tb_last_key tb \<and> tb_num_entries tb' = tb_num_entries tb \<and> tb_filter tb' = tb_filter tb \<and>
     tb_pending tb' = tb_pending tb \<and> tb_pending_handle tb' = tb_pending_handle tb"

lemma kept_trans: "kept a b \<Longrightarrow> kept b c \<Longrightarrow> kept a c"
  by (simp add: kept_def)

context writable_file
begin

lemma WriteRawBlock_wrote:
  assumes "wrote contents good out tb"
  shows "\<exists>tb'. WriteRawBlock ops d kNoCompression tb = Some (handle_at out d, tb') \<and> wrote contents good (out @ raw_block d) tb' \<and> kept tb tb'"
proof -
  have "good (tb_file tb)" "tb_offset tb = of_nat (length out)" "contents (tb_file tb) = out" using assms by (simp_all add: wrote_def)
  then show ?thesis using WriteRawBlock_ok [of tb d] by (auto simp: wrote_def kept_def handle_at_def)
qed

lemma WriteBlock_wrote:
  assumes "wrote contents good out tb"
  shows "\<exists>b tb'. WriteBlock ops (block_of_entries n kvs) tb = Some (handle_at out (build_block n kvs), b, tb') \<and>
    wrote contents good (out @ raw_block (build_block n kvs)) tb' \<and> kept tb tb'"
proof -
  have "good (tb_file tb)" "tb_offset tb = of_nat (length out)" "contents (tb_file tb) = out" using assms by (simp_all add: wrote_def)
  then show ?thesis using WriteBlock_ok [of tb n kvs] by (auto simp: wrote_def kept_def handle_at_def)
qed

lemma finish_filter_wrote:
  assumes "wrote contents good (table_data n ds) tb" "tb_filter tb = map_option (\<lambda>(name, pol). (pol, filter_of n ds [] pol)) (o_filter_policy opt)"
    "n = o_block_restart_interval opt"
  shows "\<exists>h tb' flt. finish_filter ops tb = Some (h, tb') \<and> wrote contents good (before_meta opt ds) tb' \<and> kept (tb\<lparr>tb_filter := flt\<rparr>) tb' \<and>
    (flt = None \<longleftrightarrow> o_filter_policy opt = None) \<and>
    (\<forall>name pol. o_filter_policy opt = Some (name, pol) \<longrightarrow> h = handle_at (table_data n ds) (filter_contents n ds pol))"
proof (cases "o_filter_policy opt")
  case None
  then have "finish_filter ops tb = Some (new_BlockHandle, tb)" "tb\<lparr>tb_filter := None\<rparr> = tb" using assms(2) by (simp_all add: finish_filter_def)
  then show ?thesis
    using assms(1,3) None by (intro exI [of _ new_BlockHandle] exI [of _ tb] exI [of _ None]) (simp add: kept_def before_meta_def filter_part_def)
next
  case (Some p)
  obtain name pol where p: "p = (name, pol)" by (cases p)
  obtain c b where c: "FilterFinish pol (filter_of n ds [] pol) = (c, b)" by fastforce
  let ?tb = "tb\<lparr>tb_filter := Some (pol, b)\<rparr>"
  have "wrote contents good (table_data n ds) ?tb" using assms(1) by (simp add: wrote_def)
  then obtain tb' where "WriteRawBlock ops c kNoCompression ?tb = Some (handle_at (table_data n ds) c, tb')"
    "wrote contents good (table_data n ds @ raw_block c) tb'" "kept ?tb tb'"
    using WriteRawBlock_wrote [where d = c] by blast
  moreover have "finish_filter ops tb = WriteRawBlock ops c kNoCompression ?tb"
    using assms(1,2) Some p c by (simp add: finish_filter_def wrote_def)
  ultimately show ?thesis
    using Some p c assms(3) by (intro exI [of _ "handle_at (table_data n ds) c"] exI [of _ tb'] exI [of _ "Some (pol, b)"])
      (simp add: before_meta_def filter_part_def filter_contents_def)
qed

lemma finish_metaindex_wrote:
  assumes "wrote contents good (before_meta opt ds) tb" "tb_options tb = opt" "tb_filter tb = None \<longleftrightarrow> o_filter_policy opt = None"
    "\<forall>name pol. o_filter_policy opt = Some (name, pol) \<longrightarrow>
       h = handle_at (table_data (o_block_restart_interval opt) ds) (filter_contents (o_block_restart_interval opt) ds pol)"
  shows "\<exists>tb'. finish_metaindex ops h tb = Some (handle_at (before_meta opt ds) (meta_block opt ds), tb') \<and>
    wrote contents good (before_meta opt ds @ raw_block (meta_block opt ds)) tb' \<and> kept tb tb'"
proof -
  let ?n = "o_block_restart_interval opt"
  obtain b tb' where "WriteBlock ops (block_of_entries ?n (meta_entries opt ds)) tb = Some (handle_at (before_meta opt ds) (meta_block opt ds), b, tb')"
    "wrote contents good (before_meta opt ds @ raw_block (meta_block opt ds)) tb'" "kept tb tb'"
    using WriteBlock_wrote [OF assms(1), of ?n "meta_entries opt ds"] by (auto simp: meta_block_def)
  moreover have "finish_metaindex ops h tb =
      map_option (\<lambda>(handle, _, tb). (handle, tb)) (WriteBlock ops (block_of_entries ?n (meta_entries opt ds)) tb)"
    using assms by (cases "o_filter_policy opt")
      (auto simp: finish_metaindex_def wrote_def meta_entries_def Let_def block_of_entries_def split: option.splits)
  ultimately show ?thesis by simp
qed


lemma finish_index_wrote:
  assumes "wrote contents good (before_meta opt ds @ raw_block (meta_block opt ds)) tb"
    "o_block_restart_interval (tb_index_options tb) = 1" "tb_options tb = opt" "n = o_block_restart_interval opt"
    "tb_index_block tb = block_of_entries 1 (index_entries n ds seps)"
    "if tb_pending tb then length ds = Suc (length seps) \<and> tb_pending_handle tb = data_handle n ds (length seps) \<and>
        seps' = seps @ [FindShortSuccessor (o_comparator opt) (tb_last_key tb)] else seps' = seps"
  shows "\<exists>tb'. finish_index ops tb = Some (ft_index (table_footer opt ds seps'), tb') \<and>
    wrote contents good (before_meta opt ds @ raw_block (meta_block opt ds) @ raw_block (index_block opt ds seps')) tb' \<and>
    tb_num_entries tb' = tb_num_entries tb"
proof -
  define tb1 where "tb1 = (if tb_pending tb then add_index_entry (FindShortSuccessor (o_comparator opt) (tb_last_key tb)) tb else tb)"
  have w: "wrote contents good (before_meta opt ds @ raw_block (meta_block opt ds)) tb1" "tb_num_entries tb1 = tb_num_entries tb"
    using assms(1) by (simp_all add: tb1_def wrote_def add_index_entry_def)
  have idx: "tb_index_block tb1 = block_of_entries 1 (index_entries n ds seps')"
    using assms(2,5,6) by (auto simp: tb1_def add_index_entry_def index_entries_snoc block_of_entries_snoc split: if_splits)
  obtain b tb2 where tb2: "WriteBlock ops (tb_index_block tb1) tb1 = Some (ft_index (table_footer opt ds seps'), b, tb2)"
    "wrote contents good ((before_meta opt ds @ raw_block (meta_block opt ds)) @ raw_block (index_block opt ds seps')) tb2" "kept tb1 tb2"
    using WriteBlock_wrote [OF w(1), of 1 "index_entries n ds seps'"] assms(4) unfolding idx by (auto simp: table_footer_def index_block_def)
  have "finish_index ops tb = map_option (\<lambda>(handle, block, tb). (handle, tb\<lparr>tb_index_block := block\<rparr>)) (WriteBlock ops (tb_index_block tb1) tb1)"
    using assms(1,3) unfolding finish_index_def tb1_def Let_def by (simp add: wrote_def)
  then show ?thesis using tb2 w(2) by (auto simp: wrote_def kept_def)
qed

lemma finish_footer_wrote:
  assumes "wrote contents good out tb"
  shows "\<exists>tb'. finish_footer ops footer tb = Some tb' \<and> wrote contents good (out @ Footer_EncodeTo [] footer) tb' \<and>
    tb_num_entries tb' = tb_num_entries tb"
proof -
  obtain f where "Append ops (Footer_EncodeTo [] footer) (tb_file tb) = Some (OK, f)" "good f" "contents f = out @ Footer_EncodeTo [] footer"
    using Append [of "tb_file tb" "Footer_EncodeTo [] footer"] assms by (auto simp: wrote_def)
  then show ?thesis using assms by (auto simp: finish_footer_def wrote_def Let_def)
qed

lemma Finish_builds:
  assumes "comparator_of (o_comparator opt) valid" "builds contents good valid opt ds seps cur tb"
    "keys_sorted (Compare (o_comparator opt)) valid (concat ds @ cur)"
  shows "\<exists>tb' ds' seps'. TableBuilder_Finish ops tb = Some (OK, tb') \<and> wrote contents good (table_bytes opt ds' seps') tb' \<and>
    tb_num_entries tb' = of_nat (length (concat ds @ cur)) \<and> table_of (Compare (o_comparator opt)) valid (concat ds @ cur) ds' seps'"
proof -
  define n where "n = o_block_restart_interval opt"
  obtain tb1 ds1 where 1: "TableBuilder_Flush ops tb = Some tb1" "builds contents good valid opt ds1 seps [] tb1" "concat ds1 = concat ds @ cur"
  proof (cases "cur = []")
    case True
    then have "TableBuilder_Flush ops tb = Some tb" using assms(2) by (simp add: TableBuilder_Flush_def builds_def Let_def block_of_entries_empty)
    then show ?thesis using that assms(2) True by simp
  next
    case False
    then show ?thesis using that [of _ "ds @ [cur]"] Flush_builds [OF assms(2)] by auto
  qed
  note b = 1(2) [unfolded builds_def Let_def, folded n_def]
  have b1: "tb_options tb1 = opt" "o_block_restart_interval (tb_index_options tb1) = 1" "[] \<notin> set ds1"
    "tb_num_entries tb1 = of_nat (length (concat ds @ cur))" "tb_index_block tb1 = block_of_entries 1 (index_entries n ds1 seps)"
    "separates (Compare (o_comparator opt)) valid seps ds1 []"
    "tb_filter tb1 = map_option (\<lambda>(name, pol). (pol, filter_of n ds1 [] pol)) (o_filter_policy opt)"
    using b 1(3) by simp_all
  define seps' where "seps' = (if tb_pending tb1 then seps @ [FindShortSuccessor (o_comparator opt) (tb_last_key tb1)] else seps)"
  have p: "if tb_pending tb1 then length ds1 = Suc (length seps) \<and> tb_pending_handle tb1 = data_handle n ds1 (length seps) \<and>
      tb_last_key tb1 = last_key_of (concat ds1) else length seps = length ds1"
    using b by (simp split: if_splits)
  have table: "table_of (Compare (o_comparator opt)) valid (concat ds @ cur) ds1 seps'"
  proof (cases "tb_pending tb1")
    case True
    then have q: "length ds1 = Suc (length seps)" "tb_last_key tb1 = last_key_of (concat ds1)" using p by simp_all
    then have "concat ds1 \<noteq> []" using b1(3) by (cases ds1) auto
    moreover have "keys_sorted (Compare (o_comparator opt)) valid (concat ds1)" using assms(3) 1(3) by simp
    ultimately have "valid (tb_last_key tb1)" unfolding q(2) by (metis comparator.sorted_le_last [OF assms(1)] last_in_set)
    then have "separates (Compare (o_comparator opt)) valid (seps @ [FindShortSuccessor (o_comparator opt) (tb_last_key tb1)]) ds1 []"
      using comparator.separates_close [OF assms(1) b1(6) q(1)] comparator.successor [OF assms(1)] assms(3) 1(3) q(2) by simp
    then show ?thesis using True q(1) 1(3) b1(3) by (simp add: table_of_def seps'_def)
  qed (use p b1 1(3) in \<open>simp add: table_of_def seps'_def\<close>)
  let ?tb = "tb1\<lparr>tb_closed := True\<rparr>"
  have w: "wrote contents good (table_data n ds1) ?tb" using b by (simp add: wrote_def)
  have flt: "tb_filter ?tb = map_option (\<lambda>(name, pol). (pol, filter_of n ds1 [] pol)) (o_filter_policy opt)" using b1(7) by simp
  obtain h tb2 flt where 2: "finish_filter ops ?tb = Some (h, tb2)" "wrote contents good (before_meta opt ds1) tb2"
    "kept (?tb\<lparr>tb_filter := flt\<rparr>) tb2" "flt = None \<longleftrightarrow> o_filter_policy opt = None"
    "\<forall>name pol. o_filter_policy opt = Some (name, pol) \<longrightarrow> h = handle_at (table_data n ds1) (filter_contents n ds1 pol)"
    using finish_filter_wrote [OF w flt n_def] by (elim exE conjE) (rule that, assumption+)
  have k2: "tb_options tb2 = opt" "tb_filter tb2 = None \<longleftrightarrow> o_filter_policy opt = None" using 2(3,4) b1(1) by (simp_all add: kept_def)
  obtain tb3 where 3: "finish_metaindex ops h tb2 = Some (ft_metaindex (table_footer opt ds1 seps'), tb3)"
    "wrote contents good (before_meta opt ds1 @ raw_block (meta_block opt ds1)) tb3" "kept tb2 tb3"
    using finish_metaindex_wrote [OF 2(2) k2 2(5) [unfolded n_def]] by (auto simp: table_footer_def)
  have k3: "kept (?tb\<lparr>tb_filter := flt\<rparr>) tb3" using kept_trans 2(3) 3(3) by blast
  have k3': "o_block_restart_interval (tb_index_options tb3) = 1" "tb_options tb3 = opt" "tb_index_block tb3 = block_of_entries 1 (index_entries n ds1 seps)"
    "if tb_pending tb3 then length ds1 = Suc (length seps) \<and> tb_pending_handle tb3 = data_handle n ds1 (length seps) \<and>
        seps' = seps @ [FindShortSuccessor (o_comparator opt) (tb_last_key tb3)] else seps' = seps"
    using k3 b1 p by (simp_all add: kept_def seps'_def split: if_splits)
  obtain tb4 where 4: "finish_index ops tb3 = Some (ft_index (table_footer opt ds1 seps'), tb4)"
    "wrote contents good (before_meta opt ds1 @ raw_block (meta_block opt ds1) @ raw_block (index_block opt ds1 seps')) tb4"
    "tb_num_entries tb4 = tb_num_entries tb3"
    using finish_index_wrote [OF 3(2) k3'(1,2) n_def k3'(3,4)] by blast
  have ft: "\<lparr>ft_metaindex = ft_metaindex (table_footer opt ds1 seps'), ft_index = ft_index (table_footer opt ds1 seps')\<rparr> = table_footer opt ds1 seps'"
    by simp
  obtain tb5 where 5: "finish_footer ops (table_footer opt ds1 seps') tb4 = Some tb5"
    "wrote contents good (table_bytes opt ds1 seps') tb5" "tb_num_entries tb5 = tb_num_entries tb4"
    using finish_footer_wrote [OF 4(2), of "table_footer opt ds1 seps'"] by (auto simp: table_bytes_def)
  have "TableBuilder_Finish ops tb = Some (tb_status tb5, tb5)"
    unfolding TableBuilder_Finish_def 1(1) bind.bind_lunit 2(1) prod.case 3(1) 4(1) ft 5(1) ..
  moreover have "tb_status tb5 = OK" using 5(2) by (simp add: wrote_def)
  moreover have "tb_num_entries tb5 = of_nat (length (concat ds @ cur))" using 5(3) 4(3) k3 b1(4) by (simp add: kept_def)
  ultimately show ?thesis using 5(2) table by (intro exI [of _ tb5] exI [of _ ds1] exI [of _ seps']) simp
qed

text \<open>A table of a sorted list is written whole.\<close>

lemma build_table_bytes:
  assumes "comparator_of (o_comparator opt) valid" "keys_sorted (Compare (o_comparator opt)) valid kvs" "good f" "contents f = []"
  shows "\<exists>tb ds seps. build_table ops opt kvs f = Some (OK, tb) \<and> wrote contents good (table_bytes opt ds seps) tb \<and>
    TableBuilder_NumEntries tb = of_nat (length kvs) \<and> table_of (Compare (o_comparator opt)) valid kvs ds seps"
proof -
  obtain tb1 ds seps cur where 1: "add_all ops kvs (new_TableBuilder opt f) = Some tb1" "builds contents good valid opt ds seps cur tb1"
    "concat ds @ cur = kvs"
    using add_all_builds [OF assms(1) new_builds [OF assms(3,4)], of kvs] assms(2) by auto
  then show ?thesis
    using Finish_builds [OF assms(1) 1(2)] assms(2) by (auto simp: build_table_def TableBuilder_NumEntries_def)
qed

end

end
