(* ===== verification/LdbTwoLevel.thy ===== *)
theory LdbTwoLevel
  imports LdbIterator
begin

text \<open>
  The two-level iterator (table/two_level_iterator.cc): an index iterator whose values tell how to
  make the iterators on the blocks, which together are one sequence. Making an iterator on a block is
  a parameter, and so are both kinds of iterators; the function may give no iterator (a null
  pointer), or not return.
\<close>

subsection \<open>The iterator\<close>

record ('i, 'd) two_level =
  tl_index :: "'i wrapper"
  tl_data :: "'d wrapper"
  tl_handle :: bytes
  tl_status :: Status

definition NewTwoLevelIterator :: "'i iterator_ops \<Rightarrow> 'i \<Rightarrow> ('i, 'd) two_level" where
  "NewTwoLevelIterator iops index_iter =
     \<lparr>tl_index = wrapper_Set iops (Some index_iter) new_wrapper, tl_data = new_wrapper, tl_handle = [], tl_status = OK\<rparr>"

definition SaveError :: "Status \<Rightarrow> ('i, 'd) two_level \<Rightarrow> ('i, 'd) two_level" where
  "SaveError s t = (if ok (tl_status t) \<and> \<not> ok s then t\<lparr>tl_status := s\<rparr> else t)"

definition SetDataIterator :: "'d iterator_ops \<Rightarrow> 'd option \<Rightarrow> ('i, 'd) two_level \<Rightarrow> ('i, 'd) two_level" where
  "SetDataIterator dops data_iter t =
     (let t = (if w_iter (tl_data t) \<noteq> None then SaveError (iStatus (Wrapper_ops dops) (tl_data t)) t else t)
      in t\<lparr>tl_data := wrapper_Set dops data_iter (tl_data t)\<rparr>)"

definition InitDataBlock ::
  "'i iterator_ops \<Rightarrow> 'd iterator_ops \<Rightarrow> (bytes \<Rightarrow> 'd option option) \<Rightarrow> ('i, 'd) two_level \<Rightarrow> ('i, 'd) two_level option" where
  "InitDataBlock iops dops block_function t =
     (if \<not> w_valid (tl_index t) then Some (SetDataIterator dops None t)
      else let handle = iValue (Wrapper_ops iops) (tl_index t) in
        if w_iter (tl_data t) \<noteq> None \<and> Slice_compare handle (tl_handle t) = 0 then Some t
        else map_option (\<lambda>iter. SetDataIterator dops iter (t\<lparr>tl_handle := handle\<rparr>)) (block_function handle))"

definition on_index :: "('i wrapper \<Rightarrow> 'i wrapper option) \<Rightarrow> ('i, 'd) two_level \<Rightarrow> ('i, 'd) two_level option" where
  "on_index f t = map_option (\<lambda>w. t\<lparr>tl_index := w\<rparr>) (f (tl_index t))"

definition on_data :: "('d wrapper \<Rightarrow> 'd wrapper option) \<Rightarrow> ('i, 'd) two_level \<Rightarrow> ('i, 'd) two_level option" where
  "on_data f t = map_option (\<lambda>w. t\<lparr>tl_data := w\<rparr>) (f (tl_data t))"

definition if_data :: "('d wrapper \<Rightarrow> 'd wrapper option) \<Rightarrow> ('i, 'd) two_level \<Rightarrow> ('i, 'd) two_level option" where
  "if_data f t = (if w_iter (tl_data t) \<noteq> None then on_data f t else Some t)"

partial_function (option) SkipEmptyDataBlocksForward ::
  "'i iterator_ops \<Rightarrow> 'd iterator_ops \<Rightarrow> (bytes \<Rightarrow> 'd option option) \<Rightarrow> ('i, 'd) two_level \<Rightarrow> ('i, 'd) two_level option" where
  "SkipEmptyDataBlocksForward iops dops bf t =
     (if w_iter (tl_data t) = None \<or> \<not> w_valid (tl_data t)
      then if \<not> w_valid (tl_index t) then Some (SetDataIterator dops None t)
        else Option.bind (on_index (iNext (Wrapper_ops iops)) t)
          (\<lambda>t. Option.bind (Option.bind (InitDataBlock iops dops bf t) (if_data (iSeekToFirst (Wrapper_ops dops))))
            (SkipEmptyDataBlocksForward iops dops bf))
      else Some t)"

partial_function (option) SkipEmptyDataBlocksBackward ::
  "'i iterator_ops \<Rightarrow> 'd iterator_ops \<Rightarrow> (bytes \<Rightarrow> 'd option option) \<Rightarrow> ('i, 'd) two_level \<Rightarrow> ('i, 'd) two_level option" where
  "SkipEmptyDataBlocksBackward iops dops bf t =
     (if w_iter (tl_data t) = None \<or> \<not> w_valid (tl_data t)
      then if \<not> w_valid (tl_index t) then Some (SetDataIterator dops None t)
        else Option.bind (on_index (iPrev (Wrapper_ops iops)) t)
          (\<lambda>t. Option.bind (Option.bind (InitDataBlock iops dops bf t) (if_data (iSeekToLast (Wrapper_ops dops))))
            (SkipEmptyDataBlocksBackward iops dops bf))
      else Some t)"

text \<open>The three seeks have the same shape.\<close>

definition two_level_seek ::
  "'i iterator_ops \<Rightarrow> 'd iterator_ops \<Rightarrow> (bytes \<Rightarrow> 'd option option) \<Rightarrow> ('i wrapper \<Rightarrow> 'i wrapper option) \<Rightarrow> ('d wrapper \<Rightarrow> 'd wrapper option) \<Rightarrow>
     ('i, 'd) two_level \<Rightarrow> ('i, 'd) two_level option" where
  "two_level_seek iops dops bf fi fd t =
     Option.bind (on_index fi t) (\<lambda>t. Option.bind (InitDataBlock iops dops bf t) (if_data fd))"

definition TwoLevel_Seek where
  "TwoLevel_Seek iops dops bf target t =
     Option.bind (two_level_seek iops dops bf (iSeek (Wrapper_ops iops) target) (iSeek (Wrapper_ops dops) target) t)
       (SkipEmptyDataBlocksForward iops dops bf)"

definition TwoLevel_SeekToFirst where
  "TwoLevel_SeekToFirst iops dops bf t =
     Option.bind (two_level_seek iops dops bf (iSeekToFirst (Wrapper_ops iops)) (iSeekToFirst (Wrapper_ops dops)) t)
       (SkipEmptyDataBlocksForward iops dops bf)"

definition TwoLevel_SeekToLast where
  "TwoLevel_SeekToLast iops dops bf t =
     Option.bind (two_level_seek iops dops bf (iSeekToLast (Wrapper_ops iops)) (iSeekToLast (Wrapper_ops dops)) t)
       (SkipEmptyDataBlocksBackward iops dops bf)"

definition TwoLevel_Next where
  "TwoLevel_Next iops dops bf t = Option.bind (on_data (iNext (Wrapper_ops dops)) t) (SkipEmptyDataBlocksForward iops dops bf)"

definition TwoLevel_Prev where
  "TwoLevel_Prev iops dops bf t = Option.bind (on_data (iPrev (Wrapper_ops dops)) t) (SkipEmptyDataBlocksBackward iops dops bf)"

definition TwoLevel_status :: "'i iterator_ops \<Rightarrow> 'd iterator_ops \<Rightarrow> ('i, 'd) two_level \<Rightarrow> Status" where
  "TwoLevel_status iops dops t =
     (if \<not> ok (iStatus (Wrapper_ops iops) (tl_index t)) then iStatus (Wrapper_ops iops) (tl_index t)
      else if w_iter (tl_data t) \<noteq> None \<and> \<not> ok (iStatus (Wrapper_ops dops) (tl_data t)) then iStatus (Wrapper_ops dops) (tl_data t)
      else tl_status t)"

definition TwoLevelIterator_ops ::
  "'i iterator_ops \<Rightarrow> 'd iterator_ops \<Rightarrow> (bytes \<Rightarrow> 'd option option) \<Rightarrow> ('i, 'd) two_level iterator_ops" where
  "TwoLevelIterator_ops iops dops bf =
     \<lparr>iValid = (\<lambda>t. w_valid (tl_data t)), iSeekToFirst = TwoLevel_SeekToFirst iops dops bf, iSeekToLast = TwoLevel_SeekToLast iops dops bf,
      iSeek = TwoLevel_Seek iops dops bf, iNext = TwoLevel_Next iops dops bf, iPrev = TwoLevel_Prev iops dops bf,
      iKey = (\<lambda>t. w_key (tl_data t)), iValue = (\<lambda>t. iValue (Wrapper_ops dops) (tl_data t)), iStatus = TwoLevel_status iops dops\<rparr>"

subsection \<open>Blocks in a sequence\<close>

definition block_base :: "entries list \<Rightarrow> nat \<Rightarrow> nat" where
  "block_base blocks i = length (concat (take i blocks))"

lemma block_base_simps [simp]:
  "block_base blocks 0 = 0" "block_base blocks (length blocks) = length (concat blocks)"
  by (simp_all add: block_base_def)

lemma block_base_Suc: "i < length blocks \<Longrightarrow> block_base blocks (Suc i) = block_base blocks i + length (blocks ! i)"
  by (simp add: block_base_def take_Suc_conv_app_nth)

lemma block_base_mono: "i \<le> j \<Longrightarrow> j \<le> length blocks \<Longrightarrow> block_base blocks i \<le> block_base blocks j"
proof (induction j)
  case (Suc j)
  then show ?case by (cases "i = Suc j") (auto simp: block_base_Suc)
qed simp

lemma concat_at: "i < length blocks \<Longrightarrow> concat blocks = concat (take i blocks) @ blocks ! i @ concat (drop (Suc i) blocks)"
  by (metis concat.simps(2) concat_append id_take_nth_drop)

lemma nth_block: "i < length blocks \<Longrightarrow> c < length (blocks ! i) \<Longrightarrow>
   block_base blocks i + c < length (concat blocks) \<and> concat blocks ! (block_base blocks i + c) = blocks ! i ! c"
  unfolding block_base_def by (subst (1 2) concat_at [of i]) (simp_all add: nth_append)

text \<open>Every index is in a block.\<close>

lemma in_block: "k < length (concat blocks) \<Longrightarrow> \<exists>i c. i < length blocks \<and> c < length (blocks ! i) \<and> k = block_base blocks i + c"
proof -
  assume "k < length (concat blocks)"
  then have "k < block_base blocks n \<Longrightarrow> n \<le> length blocks \<Longrightarrow> \<exists>i c. i < n \<and> c < length (blocks ! i) \<and> k = block_base blocks i + c" for n
  proof (induction n)
    case (Suc n)
    show ?case
    proof (cases "k < block_base blocks n")
      case False
      then have "k - block_base blocks n < length (blocks ! n)" using Suc.prems by (simp add: block_base_Suc)
      then show ?thesis using False by (intro exI [of _ n] exI [of _ "k - block_base blocks n"]) simp
    qed (use Suc in \<open>auto intro: less_SucI\<close>)
  qed simp
  then show ?thesis using \<open>k < length (concat blocks)\<close> by (metis block_base_simps(2) order_refl)
qed

text \<open>The keys of the index divide the blocks: a target behind an index key is behind its block, and
  one that is not is not behind any later block.\<close>

definition index_divides :: "(bytes \<Rightarrow> bytes \<Rightarrow> int) \<Rightarrow> (bytes \<Rightarrow> bool) \<Rightarrow> entries \<Rightarrow> entries list \<Rightarrow> bool" where
  "index_divides cmp valid idx blocks \<longleftrightarrow> length idx = length blocks \<and>
     (\<forall>target i. valid target \<longrightarrow> i < length idx \<longrightarrow>
        (cmp (fst (idx ! i)) target < 0 \<longrightarrow> (\<forall>kv \<in> set (blocks ! i). cmp (fst kv) target < 0)) \<and>
        (\<not> cmp (fst (idx ! i)) target < 0 \<longrightarrow> (\<forall>j kv. i < j \<longrightarrow> j < length idx \<longrightarrow> kv \<in> set (blocks ! j) \<longrightarrow> \<not> cmp (fst kv) target < 0)))"

lemma index_divides_behind:
  "index_divides cmp valid idx blocks \<Longrightarrow> valid target \<Longrightarrow> i < length blocks \<Longrightarrow> cmp (fst (idx ! i)) target < 0 \<Longrightarrow>
   c < length (blocks ! i) \<Longrightarrow> cmp (fst (blocks ! i ! c)) target < 0"
  unfolding index_divides_def using nth_mem by metis

lemma index_divides_before:
  "index_divides cmp valid idx blocks \<Longrightarrow> valid target \<Longrightarrow> i < j \<Longrightarrow> j < length blocks \<Longrightarrow> \<not> cmp (fst (idx ! i)) target < 0 \<Longrightarrow>
   c < length (blocks ! j) \<Longrightarrow> \<not> cmp (fst (blocks ! j ! c)) target < 0"
proof -
  assume a: "index_divides cmp valid idx blocks" "valid target" "i < j" "j < length blocks" "\<not> cmp (fst (idx ! i)) target < 0" "c < length (blocks ! j)"
  have "length idx = length blocks" using a(1) unfolding index_divides_def by (rule conjunct1)
  then have "j < length idx" "i < length idx" using a(3,4) by simp_all
  moreover have "\<not> cmp (fst (idx ! i)) target < 0 \<longrightarrow> (\<forall>j kv. i < j \<longrightarrow> j < length idx \<longrightarrow> kv \<in> set (blocks ! j) \<longrightarrow> \<not> cmp (fst kv) target < 0)"
    using a(1,2) calculation(2) unfolding index_divides_def by blast
  ultimately show ?thesis using a(3,5) nth_mem [OF a(6)] by blast
qed

lemma lower_bound_block:
  assumes "index_divides cmp valid idx blocks" "valid target" "lower_bound cmp target idx < length idx"
  defines "i \<equiv> lower_bound cmp target idx"
  shows "lower_bound cmp target (concat blocks) = block_base blocks i + lower_bound cmp target (blocks ! i)"
proof (rule lower_bound_eqI)
  have len: "length idx = length blocks" using assms(1) by (simp add: index_divides_def)
  let ?c = "lower_bound cmp target (blocks ! i)"
  have i: "i < length blocks" using assms(3) len by (simp add: i_def)
  have c: "?c \<le> length (blocks ! i)" by (rule lower_bound_le)
  show "block_base blocks i + ?c \<le> length (concat blocks)"
    using c block_base_mono [of "Suc i" "length blocks" blocks] i by (simp add: block_base_Suc)
  then show "cmp (fst (concat blocks ! k)) target < 0" if k: "k < block_base blocks i + ?c" for k
  proof -
    have "k < length (concat blocks)" using k \<open>block_base blocks i + ?c \<le> length (concat blocks)\<close> by simp
    then obtain j d where j: "j < length blocks" "d < length (blocks ! j)" "k = block_base blocks j + d" using in_block by blast
    then have kv: "concat blocks ! k = blocks ! j ! d" using nth_block by blast
    consider "j < i" | "j = i" | "i < j" by linarith
    then show ?thesis
    proof cases
      case 1
      then have "cmp (fst (idx ! j)) target < 0" unfolding i_def by (rule lower_bound_less)
      then show ?thesis using index_divides_behind [OF assms(1,2) j(1) _ j(2)] kv by simp
    next
      case 2
      then show ?thesis using j k kv lower_bound_less [of d cmp target "blocks ! i"] by simp
    next
      case 3
      then have "block_base blocks (Suc i) \<le> block_base blocks j" using j(1) by (intro block_base_mono) simp_all
      then show ?thesis using j(3) k c i by (simp add: block_base_Suc)
    qed
  qed
  show "\<not> cmp (fst (concat blocks ! (block_base blocks i + ?c))) target < 0" if k: "block_base blocks i + ?c < length (concat blocks)"
  proof (cases "?c < length (blocks ! i)")
    case True
    then show ?thesis using nth_block [OF i True] lower_bound_stop [of cmp target "blocks ! i"] by simp
  next
    case False
    obtain j d where j: "j < length blocks" "d < length (blocks ! j)" "block_base blocks i + ?c = block_base blocks j + d"
      using in_block [OF k] by blast
    have end_i: "block_base blocks i + ?c = block_base blocks (Suc i)" using False c i by (simp add: block_base_Suc)
    have "\<not> j \<le> i"
    proof
      assume "j \<le> i"
      then have "block_base blocks (Suc j) \<le> block_base blocks (Suc i)" using i by (intro block_base_mono) simp_all
      then show False using j end_i by (simp add: block_base_Suc)
    qed
    moreover have "\<not> cmp (fst (idx ! i)) target < 0" unfolding i_def by (rule lower_bound_stop [OF assms(3)])
    ultimately have "\<not> cmp (fst (blocks ! j ! d)) target < 0"
      using index_divides_before [OF assms(1,2) _ j(1) _ j(2), of i] by simp
    then show ?thesis using nth_block [OF j(1,2)] j(3) by simp
  qed
qed

lemma lower_bound_behind:
  assumes "index_divides cmp valid idx blocks" "valid target" "\<not> lower_bound cmp target idx < length idx"
  shows "lower_bound cmp target (concat blocks) = length (concat blocks)"
proof (rule lower_bound_eqI)
  have len: "length idx = length blocks" using assms(1) by (simp add: index_divides_def)
  show "cmp (fst (concat blocks ! k)) target < 0" if "k < length (concat blocks)" for k
  proof -
    obtain j d where j: "j < length blocks" "d < length (blocks ! j)" "k = block_base blocks j + d" using in_block \<open>k < _\<close> by blast
    have "j < lower_bound cmp target idx" using assms(3) j(1) len by simp
    then have "cmp (fst (idx ! j)) target < 0" by (rule lower_bound_less)
    then show ?thesis using index_divides_behind [OF assms(1,2) j(1) _ j(2)] nth_block [OF j(1,2)] j(3) by simp
  qed
qed simp_all

subsection \<open>The contract\<close>

text \<open>Every value of the index makes an iterator on its block, and the index divides the blocks.\<close>

definition two_level_layout ::
  "(bytes \<Rightarrow> bytes \<Rightarrow> int) \<Rightarrow> (bytes \<Rightarrow> bool) \<Rightarrow> (entries \<Rightarrow> nat option \<Rightarrow> 'd \<Rightarrow> bool) \<Rightarrow> (bytes \<Rightarrow> 'd option option) \<Rightarrow> (bytes \<Rightarrow> entries) \<Rightarrow>
     entries \<Rightarrow> bool" where
  "two_level_layout cmp valid dat block_function block_of idx \<longleftrightarrow>
     index_divides cmp valid idx (map (\<lambda>kv. block_of (snd kv)) idx) \<and>
     (\<forall>kv \<in> set idx. \<exists>d r. block_function (snd kv) = Some (Some d) \<and> dat (block_of (snd kv)) r d)"

definition tl_good where
  "tl_good iops dops cmp valid iat dat block_function block_of idx t \<longleftrightarrow> two_level_layout cmp valid dat block_function block_of idx \<and>
     tl_status t = OK \<and> (\<exists>q. wrapper_at iops (iat idx q) (tl_index t)) \<and>
     (w_iter (tl_data t) = None \<and> \<not> w_valid (tl_data t) \<or> (\<exists>r. wrapper_at dops (dat (block_of (tl_handle t)) r) (tl_data t)))"

text \<open>The index is at block \<open>i\<close> and the iterator on this block is at \<open>r\<close>.\<close>

definition tl_at where
  "tl_at iops dops cmp valid iat dat block_function block_of idx i r t \<longleftrightarrow> two_level_layout cmp valid dat block_function block_of idx \<and>
     i < length idx \<and> tl_status t = OK \<and> tl_handle t = snd (idx ! i) \<and>
     wrapper_at iops (iat idx (Some i)) (tl_index t) \<and> wrapper_at dops (dat (block_of (snd (idx ! i))) r) (tl_data t)"

definition tl_on where
  "tl_on iops dops cmp valid iat dat block_function block_of idx kvs p t \<longleftrightarrow>
     kvs = concat (map (\<lambda>kv. block_of (snd kv)) idx) \<and> tl_good iops dops cmp valid iat dat block_function block_of idx t \<and>
     (case p of None \<Rightarrow> \<not> w_valid (tl_data t)
      | Some k \<Rightarrow> \<exists>i c. k = block_base (map (\<lambda>kv. block_of (snd kv)) idx) i + c \<and>
          tl_at iops dops cmp valid iat dat block_function block_of idx i (Some c) t)"

text \<open>The contract needs an iterator of the index and one of the blocks; how the blocks are made is free.\<close>

locale two_level_source = index: cursor iops cmp valid iat + data: cursor dops cmp valid dat
  for iops :: "'i iterator_ops" and dops :: "'d iterator_ops" and cmp valid iat dat +
  fixes block_function :: "bytes \<Rightarrow> 'd option option" and block_of :: "bytes \<Rightarrow> entries" and idx :: entries
begin

abbreviation "blocks \<equiv> map (\<lambda>kv. block_of (snd kv)) idx"
abbreviation "good \<equiv> tl_good iops dops cmp valid iat dat block_function block_of idx"
abbreviation "here \<equiv> tl_at iops dops cmp valid iat dat block_function block_of idx"
abbreviation "off t \<equiv> good t \<and> w_iter (tl_data t) = None \<and> \<not> w_valid (tl_data t) \<and> \<not> w_valid (tl_index t)"
abbreviation "forward \<equiv> SkipEmptyDataBlocksForward iops dops block_function"
abbreviation "backward \<equiv> SkipEmptyDataBlocksBackward iops dops block_function"
abbreviation "on \<equiv> tl_on iops dops cmp valid iat dat block_function block_of idx (concat blocks)"

lemma makes: "good t \<Longrightarrow> kv \<in> set idx \<Longrightarrow> \<exists>d r. block_function (snd kv) = Some (Some d) \<and> dat (block_of (snd kv)) r d"
  unfolding tl_good_def two_level_layout_def by blast

lemma divides: "good t \<Longrightarrow> index_divides cmp valid idx blocks"
  unfolding tl_good_def two_level_layout_def by blast

lemma onI_none: "good t \<Longrightarrow> \<not> w_valid (tl_data t) \<Longrightarrow> on None t"
  by (simp add: tl_on_def)

lemma here_good: "here i r t \<Longrightarrow> good t"
  by (auto simp: tl_at_def tl_good_def)

lemma onI_some: "here i (Some c) t \<Longrightarrow> on (Some (block_base blocks i + c)) t"
  using here_good by (fastforce simp: tl_on_def)

lemma here_valid: "here i r t \<Longrightarrow> w_iter (tl_data t) \<noteq> None \<and> w_valid (tl_data t) = (r \<noteq> None) \<and> w_valid (tl_index t)"
  using data.at_none data.at_some index.at_some by (cases r) (fastforce simp: tl_at_def wrapper_at_def)+

lemma SetDataIterator_none: "good t \<Longrightarrow> good (SetDataIterator dops None t) \<and> w_iter (tl_data (SetDataIterator dops None t)) = None \<and>
    \<not> w_valid (tl_data (SetDataIterator dops None t)) \<and> tl_index (SetDataIterator dops None t) = tl_index t"
  using cursor.status [OF data.wrapped] by (auto simp: tl_good_def SetDataIterator_def SaveError_def wrapper_Set_def Let_def)

text \<open>The block the index is at.\<close>

lemma InitDataBlock_at:
  assumes "good t" "wrapper_at iops (iat idx (Some i)) (tl_index t)"
  shows "\<exists>r t'. InitDataBlock iops dops block_function t = Some t' \<and> here i r t'"
proof -
  obtain s where s: "w_iter (tl_index t) = Some s" "iat idx (Some i) s" "w_valid (tl_index t)"
    using assms(2) index.at_some by (fastforce simp: wrapper_at_def)
  have i: "i < length idx" "iValue (Wrapper_ops iops) (tl_index t) = snd (idx ! i)"
    using index.at_some [OF s(2)] s(1) by (simp_all add: Wrapper_ops_def)
  show ?thesis
  proof (cases "w_iter (tl_data t) \<noteq> None \<and> Slice_compare (snd (idx ! i)) (tl_handle t) = 0")
    case True
    then have "snd (idx ! i) = tl_handle t" using bytewise.compare_eq by (simp add: BytewiseCompare_def)
    then show ?thesis using True s(3) i assms unfolding InitDataBlock_def Let_def tl_good_def tl_at_def by auto
  next
    case False
    obtain d r where d: "block_function (snd (idx ! i)) = Some (Some d)" "dat (block_of (snd (idx ! i))) r d"
      using makes [OF assms(1) nth_mem [OF i(1)]] by blast
    have st: "tl_status t = OK" "w_iter (tl_data t) \<noteq> None \<Longrightarrow> iStatus (Wrapper_ops dops) (tl_data t) = OK"
      using assms(1) cursor.status [OF data.wrapped] by (auto simp: tl_good_def)
    have "wrapper_at dops (dat (block_of (snd (idx ! i))) r) (wrapper_Set dops (Some d) (tl_data t))" by (rule wrapper_Set_at) (rule d(2))
    then have "here i r (SetDataIterator dops (Some d) (t\<lparr>tl_handle := snd (idx ! i)\<rparr>))"
      using False s(3) i d(1) st assms by (auto simp: Let_def SetDataIterator_def SaveError_def tl_at_def tl_good_def)
    moreover have "InitDataBlock iops dops block_function t = Some (SetDataIterator dops (Some d) (t\<lparr>tl_handle := snd (idx ! i)\<rparr>))"
      using False s(3) i(2) d(1) by (auto simp: InitDataBlock_def Let_def)
    ultimately show ?thesis by blast
  qed
qed

lemma InitDataBlock_none:
  assumes "good t" "wrapper_at iops (iat idx None) (tl_index t)"
  shows "\<exists>t'. InitDataBlock iops dops block_function t = Some t' \<and> off t'"
proof -
  have "\<not> w_valid (tl_index t)" using assms(2) index.at_none by (auto simp: wrapper_at_def)
  then show ?thesis using SetDataIterator_none [OF assms(1)] by (simp add: InitDataBlock_def)
qed

text \<open>Moving the index and then placing the iterator of the block.\<close>

lemma seek_block:
  assumes "good t" "fi (tl_index t) = Some w" "wrapper_at iops (iat idx q) w"
    "\<And>r w i. i < length idx \<Longrightarrow> q = Some i \<Longrightarrow> wrapper_at dops (dat (block_of (snd (idx ! i))) r) w \<Longrightarrow>
       \<exists>w'. fd w = Some w' \<and> wrapper_at dops (dat (block_of (snd (idx ! i))) (pos i)) w'"
  shows "\<exists>t'. two_level_seek iops dops block_function fi fd t = Some t' \<and>
    (case q of None \<Rightarrow> off t' | Some i \<Rightarrow> here i (pos i) t')"
proof -
  let ?t = "t\<lparr>tl_index := w\<rparr>"
  have g: "good ?t" using assms(1,3) by (auto simp: tl_good_def)
  show ?thesis
  proof (cases q)
    case None
    then obtain t' where "InitDataBlock iops dops block_function ?t = Some t'" "off t'" using InitDataBlock_none [OF g] assms(3) by auto
    then show ?thesis using None assms(2) by (simp add: two_level_seek_def on_index_def if_data_def)
  next
    case (Some i)
    then have "wrapper_at iops (iat idx (Some i)) (tl_index ?t)" using assms(3) by simp
    then obtain r t' where r: "InitDataBlock iops dops block_function ?t = Some t'" "here i r t'" using InitDataBlock_at [OF g] by blast
    then obtain w' where "fd (tl_data t') = Some w'" "wrapper_at dops (dat (block_of (snd (idx ! i))) (pos i)) w'"
      using assms(4) [of i r] Some by (auto simp: tl_at_def)
    then show ?thesis using r here_valid [OF r(2)] assms(2) Some by (simp add: two_level_seek_def on_index_def if_data_def on_data_def tl_at_def)
  qed
qed

lemma seek_block_first:
  "good t \<Longrightarrow> fi (tl_index t) = Some w \<Longrightarrow> wrapper_at iops (iat idx q) w \<Longrightarrow>
   \<exists>t'. two_level_seek iops dops block_function fi (iSeekToFirst (Wrapper_ops dops)) t = Some t' \<and>
     (case q of None \<Rightarrow> off t' | Some i \<Rightarrow> here i (position (block_of (snd (idx ! i))) 0) t')"
  by (rule seek_block [where pos = "\<lambda>i. position (block_of (snd (idx ! i))) 0"]) (auto intro: cursor.first [OF data.wrapped])

lemma seek_block_last:
  "good t \<Longrightarrow> fi (tl_index t) = Some w \<Longrightarrow> wrapper_at iops (iat idx q) w \<Longrightarrow>
   \<exists>t'. two_level_seek iops dops block_function fi (iSeekToLast (Wrapper_ops dops)) t = Some t' \<and>
     (case q of None \<Rightarrow> off t' | Some i \<Rightarrow> here i (last_position (block_of (snd (idx ! i)))) t')"
  by (rule seek_block [where pos = "\<lambda>i. last_position (block_of (snd (idx ! i)))"]) (auto intro: cursor.last [OF data.wrapped])

lemma seek_block_seek:
  "good t \<Longrightarrow> fi (tl_index t) = Some w \<Longrightarrow> wrapper_at iops (iat idx q) w \<Longrightarrow> valid target \<Longrightarrow>
   \<exists>t'. two_level_seek iops dops block_function fi (iSeek (Wrapper_ops dops) target) t = Some t' \<and>
     (case q of None \<Rightarrow> off t'
      | Some i \<Rightarrow> here i (position (block_of (snd (idx ! i))) (lower_bound cmp target (block_of (snd (idx ! i))))) t')"
  by (rule seek_block [where pos = "\<lambda>i. position (block_of (snd (idx ! i))) (lower_bound cmp target (block_of (snd (idx ! i))))"])
    (auto intro: cursor.seek [OF data.wrapped])

lemma index_moves:
  assumes "good t"
  shows "\<exists>w. iSeekToFirst (Wrapper_ops iops) (tl_index t) = Some w \<and> wrapper_at iops (iat idx (position idx 0)) w"
    "\<exists>w. iSeekToLast (Wrapper_ops iops) (tl_index t) = Some w \<and> wrapper_at iops (iat idx (last_position idx)) w"
    "valid target \<Longrightarrow> \<exists>w. iSeek (Wrapper_ops iops) target (tl_index t) = Some w \<and>
       wrapper_at iops (iat idx (position idx (lower_bound cmp target idx))) w"
proof -
  obtain q where q: "wrapper_at iops (iat idx q) (tl_index t)" using assms by (auto simp: tl_good_def)
  show "\<exists>w. iSeekToFirst (Wrapper_ops iops) (tl_index t) = Some w \<and> wrapper_at iops (iat idx (position idx 0)) w"
    by (rule cursor.first [OF index.wrapped q])
  show "\<exists>w. iSeekToLast (Wrapper_ops iops) (tl_index t) = Some w \<and> wrapper_at iops (iat idx (last_position idx)) w"
    by (rule cursor.last [OF index.wrapped q])
  show "\<exists>w. iSeek (Wrapper_ops iops) target (tl_index t) = Some w \<and>
       wrapper_at iops (iat idx (position idx (lower_bound cmp target idx))) w" if "valid target"
    by (rule cursor.seek [OF index.wrapped q that])
qed

lemma forward_unfold:
  "\<not> w_valid (tl_data t) \<Longrightarrow> w_valid (tl_index t) \<Longrightarrow>
   forward t = Option.bind (two_level_seek iops dops block_function (iNext (Wrapper_ops iops)) (iSeekToFirst (Wrapper_ops dops)) t) forward"
  by (subst SkipEmptyDataBlocksForward.simps) (simp add: two_level_seek_def)

lemma backward_unfold:
  "\<not> w_valid (tl_data t) \<Longrightarrow> w_valid (tl_index t) \<Longrightarrow>
   backward t = Option.bind (two_level_seek iops dops block_function (iPrev (Wrapper_ops iops)) (iSeekToLast (Wrapper_ops dops)) t) backward"
  by (subst SkipEmptyDataBlocksBackward.simps) (simp add: two_level_seek_def)

lemma skip_stop:
  "w_iter (tl_data t) \<noteq> None \<Longrightarrow> w_valid (tl_data t) \<Longrightarrow> forward t = Some t"
  "w_iter (tl_data t) \<noteq> None \<Longrightarrow> w_valid (tl_data t) \<Longrightarrow> backward t = Some t"
  by (subst SkipEmptyDataBlocksForward.simps, auto) (subst SkipEmptyDataBlocksBackward.simps, auto)

lemma skip_end:
  assumes "good t" "\<not> w_valid (tl_data t)" "\<not> w_valid (tl_index t)"
  shows "\<exists>t'. forward t = Some t' \<and> on None t'" "\<exists>t'. backward t = Some t' \<and> on None t'"
proof -
  have "on None (SetDataIterator dops None t)" using SetDataIterator_none [OF assms(1)] by (intro onI_none) simp_all
  then show "\<exists>t'. forward t = Some t' \<and> on None t'" "\<exists>t'. backward t = Some t' \<and> on None t'"
    using assms(2,3) by (simp add: SkipEmptyDataBlocksForward.simps, simp add: SkipEmptyDataBlocksBackward.simps)
qed

lemma index_next: "here i r t \<Longrightarrow> \<exists>w. iNext (Wrapper_ops iops) (tl_index t) = Some w \<and> wrapper_at iops (iat idx (position idx (Suc i))) w"
  using cursor.next [OF index.wrapped] by (auto simp: tl_at_def)

lemma index_prev: "here i r t \<Longrightarrow> \<exists>w. iPrev (Wrapper_ops iops) (tl_index t) = Some w \<and> wrapper_at iops (iat idx (before_position i)) w"
  using cursor.prev [OF index.wrapped] by (auto simp: tl_at_def)

lemma forward_at:
  "here i (position (blocks ! i) c) t \<Longrightarrow> c \<le> length (blocks ! i) \<Longrightarrow>
   \<exists>t'. forward t = Some t' \<and> on (position (concat blocks) (block_base blocks i + c)) t'"
proof (induction "length idx - i" arbitrary: i c t rule: less_induct)
  case less
  have i: "i < length blocks" using less.prems(1) by (simp add: tl_at_def)
  have v: "w_iter (tl_data t) \<noteq> None" "w_valid (tl_data t) = (position (blocks ! i) c \<noteq> None)" "w_valid (tl_index t)"
    using here_valid [OF less.prems(1)] by simp_all
  show ?case
  proof (cases "c < length (blocks ! i)")
    case True
    then have "forward t = Some t" using v by (intro skip_stop) (simp_all add: position_def)
    moreover have "on (Some (block_base blocks i + c)) t" using less.prems(1) True by (intro onI_some) (simp add: position_def)
    ultimately show ?thesis using nth_block [OF i True] by (simp add: position_def)
  next
    case False
    then have nv: "\<not> w_valid (tl_data t)" using v by (simp add: position_def)
    have start: "block_base blocks i + c = block_base blocks (Suc i)" using False less.prems(2) i by (simp add: block_base_Suc)
    obtain w where w: "iNext (Wrapper_ops iops) (tl_index t) = Some w" "wrapper_at iops (iat idx (position idx (Suc i))) w"
      using index_next [OF less.prems(1)] by blast
    obtain t' where t': "two_level_seek iops dops block_function (iNext (Wrapper_ops iops)) (iSeekToFirst (Wrapper_ops dops)) t = Some t'"
      "case position idx (Suc i) of None \<Rightarrow> off t'
       | Some i \<Rightarrow> here i (position (block_of (snd (idx ! i))) 0) t'"
      using seek_block_first [where fi = "iNext (Wrapper_ops iops)", OF here_good [OF less.prems(1)] w] by blast
    have step: "forward t = forward t'" using forward_unfold [OF nv v(3)] t'(1) by simp
    show ?thesis
    proof (cases "Suc i < length idx")
      case True
      then have "here (Suc i) (position (blocks ! Suc i) 0) t'" using t'(2) by (simp add: position_def)
      then have "\<exists>t''. forward t' = Some t'' \<and> on (position (concat blocks) (block_base blocks (Suc i) + 0)) t''"
        using i by (intro less.hyps) simp_all
      then show ?thesis using step start by simp
    next
      case last: False
      then have "Suc i = length blocks" using i by simp
      then have "position (concat blocks) (block_base blocks (Suc i)) = None" by (simp only: block_base_simps position_def) simp
      moreover have "good t'" "\<not> w_valid (tl_data t')" "\<not> w_valid (tl_index t')" using t'(2) last by (simp_all add: position_def)
      ultimately show ?thesis using skip_end(1) step start by simp
    qed
  qed
qed

lemma last_in_block:
  "(case last_position b of None \<Rightarrow> before_position s | Some c \<Rightarrow> Some (s + c)) = before_position (s + length b)"
  by (cases b rule: rev_cases) (simp_all add: last_position_def before_position_def)

lemma backward_at:
  "here i r t \<Longrightarrow> (case r of None \<Rightarrow> True | Some c \<Rightarrow> c < length (blocks ! i)) \<Longrightarrow>
   \<exists>t'. backward t = Some t' \<and> on (case r of None \<Rightarrow> before_position (block_base blocks i) | Some c \<Rightarrow> Some (block_base blocks i + c)) t'"
proof (induction i arbitrary: r t)
  case (0 r t)
  have v: "w_iter (tl_data t) \<noteq> None" "w_valid (tl_data t) = (r \<noteq> None)" "w_valid (tl_index t)" using here_valid [OF 0(1)] by simp_all
  show ?case
  proof (cases r)
    case (Some c)
    then have "backward t = Some t" using v by (intro skip_stop) simp_all
    then show ?thesis using onI_some [of 0 c t] 0(1) Some by simp
  next
    case None
    obtain w where w: "iPrev (Wrapper_ops iops) (tl_index t) = Some w" "wrapper_at iops (iat idx None) w"
      using index_prev [OF 0(1)] by (auto simp: before_position_def)
    obtain t' where "two_level_seek iops dops block_function (iPrev (Wrapper_ops iops)) (iSeekToLast (Wrapper_ops dops)) t = Some t'"
      "good t'" "\<not> w_valid (tl_data t')" "\<not> w_valid (tl_index t')"
      using seek_block_last [where fi = "iPrev (Wrapper_ops iops)", OF here_good [OF 0(1)] w] by auto
    then show ?thesis using skip_end(2) [of t'] backward_unfold [of t] v None by (simp add: before_position_def)
  qed
next
  case (Suc i r t)
  have v: "w_iter (tl_data t) \<noteq> None" "w_valid (tl_data t) = (r \<noteq> None)" "w_valid (tl_index t)" using here_valid [OF Suc.prems(1)] by simp_all
  have i: "i < length blocks" using Suc.prems(1) by (simp add: tl_at_def)
  show ?case
  proof (cases r)
    case (Some c)
    then have "backward t = Some t" using v by (intro skip_stop) simp_all
    then show ?thesis using onI_some [of "Suc i" c t] Suc.prems(1) Some by simp
  next
    case None
    obtain w where w: "iPrev (Wrapper_ops iops) (tl_index t) = Some w" "wrapper_at iops (iat idx (Some i)) w"
      using index_prev [OF Suc.prems(1)] by (auto simp: before_position_def)
    obtain t' where t': "two_level_seek iops dops block_function (iPrev (Wrapper_ops iops)) (iSeekToLast (Wrapper_ops dops)) t = Some t'"
      "here i (last_position (block_of (snd (idx ! i)))) t'"
      using seek_block_last [where fi = "iPrev (Wrapper_ops iops)", OF here_good [OF Suc.prems(1)] w] by auto
    have step: "backward t = backward t'" using backward_unfold [of t] v None t'(1) by simp
    have "\<exists>t''. backward t' = Some t'' \<and> on (case last_position (blocks ! i) of None \<Rightarrow> before_position (block_base blocks i)
        | Some c \<Rightarrow> Some (block_base blocks i + c)) t''"
      by (rule Suc.IH) (use t'(2) i in \<open>simp_all add: last_position_def split: option.split\<close>)
    moreover have "(case last_position (blocks ! i) of None \<Rightarrow> before_position (block_base blocks i)
        | Some c \<Rightarrow> Some (block_base blocks i + c)) = before_position (block_base blocks (Suc i))"
      unfolding block_base_Suc [OF i] by (rule last_in_block)
    ultimately show ?thesis using step None by simp
  qed
qed

text \<open>A two-level iterator is a cursor in all of the blocks.\<close>

lemma onE:
  assumes "on p t"
  shows "good t" "p = None \<Longrightarrow> \<not> w_valid (tl_data t)"
    "p = Some k \<Longrightarrow> \<exists>i c. k = block_base blocks i + c \<and> here i (Some c) t \<and> i < length blocks \<and> c < length (blocks ! i)"
proof -
  show "good t" "p = None \<Longrightarrow> \<not> w_valid (tl_data t)" using assms by (simp_all add: tl_on_def)
  show "\<exists>i c. k = block_base blocks i + c \<and> here i (Some c) t \<and> i < length blocks \<and> c < length (blocks ! i)" if "p = Some k"
  proof -
    obtain i c where ic: "k = block_base blocks i + c" "here i (Some c) t" using assms \<open>p = Some k\<close> by (auto simp: tl_on_def)
    moreover have "i < length blocks" using ic(2) by (simp add: tl_at_def)
    moreover from this have "c < length (blocks ! i)" using ic(2) data.at_some by (auto simp: tl_at_def wrapper_at_def)
    ultimately show ?thesis by blast
  qed
qed

lemma Seek_at:
  assumes "good t" "valid target"
  shows "\<exists>t'. TwoLevel_Seek iops dops block_function target t = Some t' \<and> on (position (concat blocks) (lower_bound cmp target (concat blocks))) t'"
proof -
  let ?i = "lower_bound cmp target idx"
  obtain w where w: "iSeek (Wrapper_ops iops) target (tl_index t) = Some w" "wrapper_at iops (iat idx (position idx ?i)) w"
    using index_moves(3) [OF assms] by blast
  obtain t' where t': "two_level_seek iops dops block_function (iSeek (Wrapper_ops iops) target) (iSeek (Wrapper_ops dops) target) t = Some t'"
    "case position idx ?i of None \<Rightarrow> off t'
     | Some i \<Rightarrow> here i (position (block_of (snd (idx ! i))) (lower_bound cmp target (block_of (snd (idx ! i))))) t'"
    using seek_block_seek [where fi = "iSeek (Wrapper_ops iops) target", OF assms(1) w assms(2)] by blast
  have step: "TwoLevel_Seek iops dops block_function target t = forward t'" using t'(1) by (simp add: TwoLevel_Seek_def)
  show ?thesis
  proof (cases "?i < length idx")
    case True
    then have "here ?i (position (blocks ! ?i) (lower_bound cmp target (blocks ! ?i))) t'" using t'(2) by (simp add: position_def)
    then show ?thesis unfolding step lower_bound_block [OF divides [OF assms(1)] assms(2) True] by (rule forward_at) (rule lower_bound_le)
  next
    case False
    then show ?thesis
      unfolding step lower_bound_behind [OF divides [OF assms(1)] assms(2) False] using skip_end(1) [of t'] t'(2) by (simp add: position_def)
  qed
qed

lemma SeekToFirst_at:
  assumes "good t"
  shows "\<exists>t'. TwoLevel_SeekToFirst iops dops block_function t = Some t' \<and> on (position (concat blocks) 0) t'"
proof -
  obtain w where w: "iSeekToFirst (Wrapper_ops iops) (tl_index t) = Some w" "wrapper_at iops (iat idx (position idx 0)) w"
    using index_moves(1) [OF assms] by blast
  obtain t' where t': "two_level_seek iops dops block_function (iSeekToFirst (Wrapper_ops iops)) (iSeekToFirst (Wrapper_ops dops)) t = Some t'"
    "case position idx 0 of None \<Rightarrow> off t'
     | Some i \<Rightarrow> here i (position (block_of (snd (idx ! i))) 0) t'"
    using seek_block_first [where fi = "iSeekToFirst (Wrapper_ops iops)", OF assms(1) w] by blast
  have step: "TwoLevel_SeekToFirst iops dops block_function t = forward t'" using t'(1) by (simp add: TwoLevel_SeekToFirst_def)
  show ?thesis
  proof (cases idx)
    case Nil
    then show ?thesis unfolding step using skip_end(1) [of t'] t'(2) by (simp add: position_def)
  next
    case (Cons kv kvs)
    then have "here 0 (position (blocks ! 0) 0) t'" using t'(2) by (simp add: position_def)
    then show ?thesis unfolding step using forward_at [of 0 0 t'] by simp
  qed
qed

lemma SeekToLast_at:
  assumes "good t"
  shows "\<exists>t'. TwoLevel_SeekToLast iops dops block_function t = Some t' \<and> on (last_position (concat blocks)) t'"
proof -
  obtain w where w: "iSeekToLast (Wrapper_ops iops) (tl_index t) = Some w" "wrapper_at iops (iat idx (last_position idx)) w"
    using index_moves(2) [OF assms] by blast
  obtain t' where t': "two_level_seek iops dops block_function (iSeekToLast (Wrapper_ops iops)) (iSeekToLast (Wrapper_ops dops)) t = Some t'"
    "case last_position idx of None \<Rightarrow> off t'
     | Some i \<Rightarrow> here i (last_position (block_of (snd (idx ! i)))) t'"
    using seek_block_last [where fi = "iSeekToLast (Wrapper_ops iops)", OF assms(1) w] by blast
  have step: "TwoLevel_SeekToLast iops dops block_function t = backward t'" using t'(1) by (simp add: TwoLevel_SeekToLast_def)
  show ?thesis
  proof (cases "idx = []")
    case True
    then show ?thesis unfolding step using skip_end(2) [of t'] t'(2) by (simp add: last_position_def)
  next
    case False
    let ?i = "length idx - 1"
    have i: "?i < length blocks" using False by simp
    have h: "here ?i (last_position (blocks ! ?i)) t'" using t'(2) False by (simp add: last_position_def)
    have "\<exists>t''. backward t' = Some t'' \<and> on (case last_position (blocks ! ?i) of None \<Rightarrow> before_position (block_base blocks ?i)
        | Some c \<Rightarrow> Some (block_base blocks ?i + c)) t''"
      by (rule backward_at [OF h]) (simp add: last_position_def split: option.split)
    moreover have "block_base blocks ?i + length (blocks ! ?i) = length (concat blocks)"
      using block_base_Suc [OF i] block_base_simps(2) [of blocks] False by simp
    moreover have "last_position (concat blocks) = before_position (length (concat blocks))"
      using last_in_block [where b = "concat blocks" and s = 0] by (auto simp: before_position_def split: option.splits)
    ultimately show ?thesis unfolding last_in_block step by simp
  qed
qed

lemma here_data: "here i r t \<Longrightarrow> wrapper_at dops (dat (block_of (snd (idx ! i))) r) (tl_data t)"
  by (simp add: tl_at_def)

lemma two_level_next:
  assumes "on (Some k) t"
  shows "\<exists>t'. TwoLevel_Next iops dops block_function t = Some t' \<and> on (position (concat blocks) (Suc k)) t'"
proof -
  obtain i c where ic: "k = block_base blocks i + c" "here i (Some c) t" "i < length blocks" "c < length (blocks ! i)" using onE(3) [OF assms] by blast
  obtain w where w: "iNext (Wrapper_ops dops) (tl_data t) = Some w" "wrapper_at dops (dat (block_of (snd (idx ! i))) (position (block_of (snd (idx ! i))) (Suc c))) w"
    using cursor.next [OF data.wrapped here_data [OF ic(2)]] by blast
  have "here i (position (blocks ! i) (Suc c)) (t\<lparr>tl_data := w\<rparr>)" using ic(2,3) w(2) by (simp add: tl_at_def)
  from forward_at [OF this] ic(4) show ?thesis using w(1) ic(1) by (simp add: TwoLevel_Next_def on_data_def)
qed

lemma two_level_prev:
  assumes "on (Some k) t"
  shows "\<exists>t'. TwoLevel_Prev iops dops block_function t = Some t' \<and> on (before_position k) t'"
proof -
  obtain i c where ic: "k = block_base blocks i + c" "here i (Some c) t" "i < length blocks" "c < length (blocks ! i)" using onE(3) [OF assms] by blast
  obtain w where w: "iPrev (Wrapper_ops dops) (tl_data t) = Some w" "wrapper_at dops (dat (block_of (snd (idx ! i))) (before_position c)) w"
    using cursor.prev [OF data.wrapped here_data [OF ic(2)]] by blast
  have h: "here i (before_position c) (t\<lparr>tl_data := w\<rparr>)" using ic(2) w(2) by (simp add: tl_at_def)
  have "\<exists>t'. backward (t\<lparr>tl_data := w\<rparr>) = Some t' \<and>
      on (case before_position c of None \<Rightarrow> before_position (block_base blocks i) | Some c \<Rightarrow> Some (block_base blocks i + c)) t'"
    by (rule backward_at [OF h]) (use ic(4) in \<open>simp add: before_position_def split: nat.split\<close>)
  moreover have "(case before_position c of None \<Rightarrow> before_position (block_base blocks i) | Some c \<Rightarrow> Some (block_base blocks i + c)) = before_position k"
    using ic(1) by (cases c) (simp_all add: before_position_def)
  ultimately show ?thesis using w(1) by (simp add: TwoLevel_Prev_def on_data_def)
qed

lemma tl_onD: "tl_on iops dops cmp valid iat dat block_function block_of idx kvs p t \<Longrightarrow> kvs = concat blocks \<and> on p t"
  by (simp add: tl_on_def)

lemma two_level_cursor:
  "cursor (TwoLevelIterator_ops iops dops block_function) cmp valid (tl_on iops dops cmp valid iat dat block_function block_of idx)"
proof
  let ?ops = "TwoLevelIterator_ops iops dops block_function"
  let ?on = "tl_on iops dops cmp valid iat dat block_function block_of idx"
  fix kvs p t i
  show "\<not> iValid ?ops t" if t: "?on kvs None t"
    using onE(2) [OF conjunct2 [OF tl_onD [OF t]]] by (simp add: TwoLevelIterator_ops_def)
  show "i < length kvs \<and> iValid ?ops t \<and> iKey ?ops t = fst (kvs ! i) \<and> iValue ?ops t = snd (kvs ! i)" if t: "?on kvs (Some i) t"
  proof -
    have kvs: "kvs = concat blocks" "on (Some i) t" using tl_onD [OF t] by blast+
    obtain j c where j: "i = block_base blocks j + c" "here j (Some c) t" "j < length blocks" "c < length (blocks ! j)"
      using onE(3) [OF kvs(2)] by blast
    obtain s where s: "w_iter (tl_data t) = Some s" "dat (block_of (snd (idx ! j))) (Some c) s" "w_valid (tl_data t) = iValid dops s"
      "w_valid (tl_data t) \<longrightarrow> w_key (tl_data t) = iKey dops s"
      using here_data [OF j(2)] by (auto simp: wrapper_at_def)
    have "iValid dops s" "iKey dops s = fst (blocks ! j ! c)" "iValue dops s = snd (blocks ! j ! c)"
      using data.at_some [OF s(2)] j(3) by simp_all
    moreover have "i < length kvs" "kvs ! i = blocks ! j ! c" unfolding kvs(1) j(1) using nth_block [OF j(3,4)] by blast+
    ultimately show ?thesis using s(1,3,4) by (simp add: TwoLevelIterator_ops_def Wrapper_ops_def)
  qed
  show "iStatus ?ops t = OK" if t: "?on kvs p t"
  proof -
    have g: "good t" by (rule onE(1) [OF conjunct2 [OF tl_onD [OF t]]])
    then have "iStatus (Wrapper_ops iops) (tl_index t) = OK" "w_iter (tl_data t) \<noteq> None \<Longrightarrow> iStatus (Wrapper_ops dops) (tl_data t) = OK"
      using cursor.status [OF index.wrapped] cursor.status [OF data.wrapped] by (auto simp: tl_good_def)
    then show ?thesis using g by (auto simp: TwoLevelIterator_ops_def TwoLevel_status_def tl_good_def)
  qed
  show "\<exists>t'. iSeekToFirst ?ops t = Some t' \<and> ?on kvs (position kvs 0) t'" if t: "?on kvs p t"
    using SeekToFirst_at [OF onE(1) [OF conjunct2 [OF tl_onD [OF t]]]] unfolding conjunct1 [OF tl_onD [OF t]] TwoLevelIterator_ops_def by simp
  show "\<exists>t'. iSeekToLast ?ops t = Some t' \<and> ?on kvs (last_position kvs) t'" if t: "?on kvs p t"
    using SeekToLast_at [OF onE(1) [OF conjunct2 [OF tl_onD [OF t]]]] unfolding conjunct1 [OF tl_onD [OF t]] TwoLevelIterator_ops_def by simp
  show "\<exists>t'. iSeek ?ops target t = Some t' \<and> ?on kvs (position kvs (lower_bound cmp target kvs)) t'" if t: "?on kvs p t" and "valid target" for target
    using Seek_at [OF onE(1) [OF conjunct2 [OF tl_onD [OF t]]] \<open>valid target\<close>] unfolding conjunct1 [OF tl_onD [OF t]] TwoLevelIterator_ops_def by simp
  show "\<exists>t'. iNext ?ops t = Some t' \<and> ?on kvs (position kvs (Suc i)) t'" if t: "?on kvs (Some i) t"
    using two_level_next [OF conjunct2 [OF tl_onD [OF t]]] unfolding conjunct1 [OF tl_onD [OF t]] TwoLevelIterator_ops_def by simp
  show "\<exists>t'. iPrev ?ops t = Some t' \<and> ?on kvs (before_position i) t'" if t: "?on kvs (Some i) t"
    using two_level_prev [OF conjunct2 [OF tl_onD [OF t]]] unfolding conjunct1 [OF tl_onD [OF t]] TwoLevelIterator_ops_def by simp
qed

lemma new_two_level: "two_level_layout cmp valid dat block_function block_of idx \<Longrightarrow> iat idx q s \<Longrightarrow> on None (NewTwoLevelIterator iops s)"
proof -
  assume layout: "two_level_layout cmp valid dat block_function block_of idx" and "iat idx q s"
  have "wrapper_at iops (iat idx q) (wrapper_Set iops (Some s) new_wrapper)" by (rule wrapper_Set_at) fact
  then show ?thesis using layout by (intro onI_none) (auto simp: tl_good_def NewTwoLevelIterator_def new_wrapper_def)
qed

end

end
