(* ===== verification/LdbTable.thy ===== *)
theory LdbTable
  imports LdbTableBuilder LdbTwoLevel
begin

text \<open>
  Reading a table file (table/table.cc): opening it, its filter, the iterator on its entries and the
  search for one key. The model has no block cache (\<open>block_cache\<close> is null). An operation is \<open>None\<close>
  when it would read outside of its memory, or does not return.
\<close>

subsection \<open>The iterators of blocks\<close>

text \<open>What \<open>Block::NewIterator\<close> gives is one of three classes of iterators.\<close>

definition any_block :: "(block_iter \<Rightarrow> block_iter option) \<Rightarrow> block_iterator \<Rightarrow> block_iterator option" where
  "any_block f it = (case it of BlockIterator b \<Rightarrow> map_option BlockIterator (f b) | _ \<Rightarrow> Some it)"

definition AnyBlock_ops :: "(bytes \<Rightarrow> bytes \<Rightarrow> int) \<Rightarrow> block_iterator iterator_ops" where
  "AnyBlock_ops cmp =
     \<lparr>iValid = (\<lambda>it. case it of BlockIterator b \<Rightarrow> BlockIter_Valid b | _ \<Rightarrow> False),
      iSeekToFirst = any_block BlockIter_SeekToFirst, iSeekToLast = any_block BlockIter_SeekToLast,
      iSeek = (\<lambda>k. any_block (BlockIter_Seek cmp k)), iNext = any_block BlockIter_Next, iPrev = any_block BlockIter_Prev,
      iKey = (\<lambda>it. case it of BlockIterator b \<Rightarrow> bi_key b | _ \<Rightarrow> []),
      iValue = (\<lambda>it. case it of BlockIterator b \<Rightarrow> BlockIter_value b | _ \<Rightarrow> []),
      iStatus = (\<lambda>it. case it of BlockIterator b \<Rightarrow> bi_status b | ErrorIterator s \<Rightarrow> s | EmptyIterator \<Rightarrow> OK)\<rparr>"

definition any_block_on :: "(bytes \<Rightarrow> bytes \<Rightarrow> int) \<Rightarrow> (bytes \<Rightarrow> bool) \<Rightarrow> entries \<Rightarrow> nat option \<Rightarrow> block_iterator \<Rightarrow> bool" where
  "any_block_on cmp valid kvs p it = (case it of BlockIterator b \<Rightarrow> block_on cmp valid kvs p b | _ \<Rightarrow> False)"

lemma any_block_cursor:
  assumes "cursor (BlockIter_ops cmp) cmp valid (block_on cmp valid)"
  shows "cursor (AnyBlock_ops cmp) cmp valid (any_block_on cmp valid)"
proof -
  have move: "\<exists>it'. any_block f it = Some it' \<and> any_block_on cmp valid kvs q it'"
    if "any_block_on cmp valid kvs p it" "\<And>b. block_on cmp valid kvs p b \<Longrightarrow> \<exists>b'. f b = Some b' \<and> block_on cmp valid kvs q b'"
    for f kvs p q it
    using that by (cases it) (fastforce simp: any_block_on_def any_block_def)+
  show ?thesis
  proof
    show "\<not> iValid (AnyBlock_ops cmp) it" if "any_block_on cmp valid kvs None it" for kvs it
      using that cursor.at_none [OF assms] by (cases it) (simp_all add: any_block_on_def AnyBlock_ops_def BlockIter_ops_def)
    show "i < length kvs \<and> iValid (AnyBlock_ops cmp) it \<and> iKey (AnyBlock_ops cmp) it = fst (kvs ! i) \<and> iValue (AnyBlock_ops cmp) it = snd (kvs ! i)"
      if "any_block_on cmp valid kvs (Some i) it" for kvs i it
      using that cursor.at_some [OF assms] by (cases it) (fastforce simp: any_block_on_def AnyBlock_ops_def BlockIter_ops_def)+
    show "iStatus (AnyBlock_ops cmp) it = OK" if "any_block_on cmp valid kvs p it" for kvs p it
      using that cursor.status [OF assms] by (cases it) (simp_all add: any_block_on_def AnyBlock_ops_def BlockIter_ops_def)
    show "\<exists>it'. iSeekToFirst (AnyBlock_ops cmp) it = Some it' \<and> any_block_on cmp valid kvs (position kvs 0) it'"
      if "any_block_on cmp valid kvs p it" for kvs p it
      using move [OF that] cursor.first [OF assms] by (simp add: AnyBlock_ops_def BlockIter_ops_def)
    show "\<exists>it'. iSeekToLast (AnyBlock_ops cmp) it = Some it' \<and> any_block_on cmp valid kvs (last_position kvs) it'"
      if "any_block_on cmp valid kvs p it" for kvs p it
      using move [OF that] cursor.last [OF assms] by (simp add: AnyBlock_ops_def BlockIter_ops_def)
    show "\<exists>it'. iSeek (AnyBlock_ops cmp) target it = Some it' \<and> any_block_on cmp valid kvs (position kvs (lower_bound cmp target kvs)) it'"
      if "any_block_on cmp valid kvs p it" "valid target" for kvs p it target
      using move [OF that(1)] cursor.seek [OF assms _ that(2)] by (simp add: AnyBlock_ops_def BlockIter_ops_def)
    show "\<exists>it'. iNext (AnyBlock_ops cmp) it = Some it' \<and> any_block_on cmp valid kvs (position kvs (Suc i)) it'"
      if "any_block_on cmp valid kvs (Some i) it" for kvs i it
      using move [OF that] cursor.next [OF assms] by (simp add: AnyBlock_ops_def BlockIter_ops_def)
    show "\<exists>it'. iPrev (AnyBlock_ops cmp) it = Some it' \<and> any_block_on cmp valid kvs (before_position i) it'"
      if "any_block_on cmp valid kvs (Some i) it" for kvs i it
      using move [OF that] cursor.prev [OF assms] by (simp add: AnyBlock_ops_def BlockIter_ops_def)
  qed
qed

subsection \<open>Tables\<close>

record table =
  tab_options :: Options
  tab_file :: random_access
  tab_filter :: "(policy \<times> filter_reader) option"
  tab_metaindex_handle :: BlockHandle
  tab_index_block :: block

definition table_compare :: "table \<Rightarrow> bytes \<Rightarrow> bytes \<Rightarrow> int" where
  "table_compare tab = Compare (o_comparator (tab_options tab))"

definition ReadFilter :: "policy \<Rightarrow> bytes \<Rightarrow> table \<Rightarrow> table option" where
  "ReadFilter pol filter_handle_value tab =
     (case Handle_DecodeFrom filter_handle_value new_BlockHandle of
        (s, filter_handle, _) \<Rightarrow>
          if \<not> ok s then Some tab
          else map_option (\<lambda>(s, block).
              if \<not> ok s then tab else tab\<lparr>tab_filter := Some (pol, new_FilterBlockReader (bc_data block))\<rparr>)
            (ReadBlock (tab_file tab) (o_paranoid_checks (tab_options tab)) filter_handle))"

definition ReadMeta :: "Footer \<Rightarrow> table \<Rightarrow> table option" where
  "ReadMeta footer tab =
     (case o_filter_policy (tab_options tab) of
        None \<Rightarrow> Some tab
      | Some (name, pol) \<Rightarrow>
          Option.bind (ReadBlock (tab_file tab) (o_paranoid_checks (tab_options tab)) (ft_metaindex footer)) (\<lambda>(s, contents).
            if \<not> ok s then Some tab
            else
              let ops = AnyBlock_ops BytewiseCompare; key = filter_key name
              in Option.bind (iSeek ops key (Block_NewIterator (new_Block (bc_data contents)))) (\<lambda>iter.
                   if iValid ops iter \<and> iKey ops iter = key then ReadFilter pol (iValue ops iter) tab else Some tab)))"

definition Table_Open :: "Options \<Rightarrow> random_access \<Rightarrow> u64 \<Rightarrow> (Status \<times> table option) option" where
  "Table_Open options file sz =
     (if unat sz < kEncodedLength then Some (Corruption ''file is too short to be an sstable'' [], None)
      else
        Option.bind (file (sz - of_nat kEncodedLength) kEncodedLength) (\<lambda>(s, footer_input, _).
          if \<not> ok s then Some (s, None)
          else Option.bind (Footer_DecodeFrom footer_input) (\<lambda>(s, footer, _).
            if \<not> ok s then Some (s, None)
            else Option.bind (ReadBlock file (o_paranoid_checks options) (ft_index footer)) (\<lambda>(s, index_block_contents).
              if \<not> ok s then Some (s, None)
              else map_option (\<lambda>tab. (s, Some tab))
                (ReadMeta footer
                  \<lparr>tab_options = options, tab_file = file, tab_filter = None, tab_metaindex_handle = ft_metaindex footer,
                   tab_index_block = new_Block (bc_data index_block_contents)\<rparr>)))))"

text \<open>\<open>verify_checksums\<close> is the only read option that matters without a cache.\<close>

definition BlockReader :: "table \<Rightarrow> bool \<Rightarrow> bytes \<Rightarrow> block_iterator option" where
  "BlockReader tab verify_checksums index_value =
     (case Handle_DecodeFrom index_value new_BlockHandle of
        (s, handle, _) \<Rightarrow>
          if ok s
          then map_option (\<lambda>(s, contents).
              if ok s then Block_NewIterator (new_Block (bc_data contents)) else ErrorIterator (NewErrorIterator s))
            (ReadBlock (tab_file tab) verify_checksums handle)
          else Some (ErrorIterator (NewErrorIterator s)))"

type_synonym table_iter = "(block_iterator, block_iterator) two_level"

definition table_ops :: "table \<Rightarrow> bool \<Rightarrow> table_iter iterator_ops" where
  "table_ops tab verify_checksums =
     TwoLevelIterator_ops (AnyBlock_ops (table_compare tab)) (AnyBlock_ops (table_compare tab))
       (\<lambda>v. map_option Some (BlockReader tab verify_checksums v))"

definition Table_NewIterator :: "table \<Rightarrow> table_iter" where
  "Table_NewIterator tab =
     NewTwoLevelIterator (AnyBlock_ops (table_compare tab)) (Block_NewIterator (tab_index_block tab))"

text \<open>The status, and what \<open>handle_result\<close> is called with, if it is.\<close>

definition InternalGet :: "table \<Rightarrow> bool \<Rightarrow> bytes \<Rightarrow> (Status \<times> (bytes \<times> bytes) option) option" where
  "InternalGet tab verify_checksums k =
     (let ops = AnyBlock_ops (table_compare tab) in
      Option.bind (iSeek ops k (Block_NewIterator (tab_index_block tab))) (\<lambda>iiter.
        Option.bind
          (if iValid ops iiter
           then
             let denied =
               (case tab_filter tab of
                  None \<Rightarrow> False
                | Some (pol, flt) \<Rightarrow>
                    (case Handle_DecodeFrom (iValue ops iiter) new_BlockHandle of
                       (s, handle, _) \<Rightarrow> ok s \<and> \<not> FilterKeyMayMatch pol flt (bh_offset handle) k))
             in if denied then Some (OK, None)
                else
                  Option.bind (BlockReader tab verify_checksums (iValue ops iiter)) (\<lambda>block_iter.
                    map_option (\<lambda>block_iter. (iStatus ops block_iter, cursor_view ops block_iter)) (iSeek ops k block_iter))
           else Some (OK, None))
          (\<lambda>(s, result). Some (if ok s then iStatus ops iiter else s, result))))"

definition ApproximateOffsetOf :: "table \<Rightarrow> bytes \<Rightarrow> u64 option" where
  "ApproximateOffsetOf tab key =
     (let ops = AnyBlock_ops (table_compare tab) in
      map_option (\<lambda>index_iter.
          if iValid ops index_iter
          then
            (case Handle_DecodeFrom (iValue ops index_iter) new_BlockHandle of
               (s, handle, _) \<Rightarrow> if ok s then bh_offset handle else bh_offset (tab_metaindex_handle tab))
          else bh_offset (tab_metaindex_handle tab))
        (iSeek ops key (Block_NewIterator (tab_index_block tab))))"

subsection \<open>The parts of a stored table\<close>

definition table_stored :: "random_access \<Rightarrow> Options \<Rightarrow> (bytes \<Rightarrow> bool) \<Rightarrow> entries \<Rightarrow> entries list \<Rightarrow> bytes list \<Rightarrow> bool" where
  "table_stored read opt valid kvs ds seps \<longleftrightarrow>
     comparator_of (o_comparator opt) valid \<and> 1 \<le> o_block_restart_interval opt \<and> keys_sorted (Compare (o_comparator opt)) valid kvs \<and>
     table_of (Compare (o_comparator opt)) valid kvs ds seps \<and> random_access_file read (table_bytes opt ds seps) \<and>
     length (table_bytes opt ds seps) < 2 ^ 32"

text \<open>A block of the file is read back.\<close>

definition stored_at :: "bytes \<Rightarrow> bytes \<Rightarrow> bytes \<Rightarrow> bool" where
  "stored_at out before d \<longleftrightarrow> (\<exists>r. out = before @ raw_block d @ r)"

lemma stored_at_length: "stored_at out before d \<Longrightarrow> length before + length d + 5 \<le> length out"
  by (auto simp: stored_at_def)

lemma read_stored:
  assumes "table_stored read opt valid kvs ds seps" "stored_at (table_bytes opt ds seps) before d"
  shows "\<exists>result. ReadBlock read verify (handle_at before d) = Some (OK, result) \<and> bc_data result = d"
proof -
  obtain r where r: "table_bytes opt ds seps = before @ raw_block d @ r" using assms(2) by (auto simp: stored_at_def)
  have "random_access_file read (table_bytes opt ds seps)" "length (table_bytes opt ds seps) < 2 ^ 63" using assms(1) by (simp_all add: table_stored_def)
  then show ?thesis by (intro ReadBlock_raw [OF _ r]) (simp_all add: handle_at_def)
qed

lemma stored_index: "stored_at (table_bytes opt ds seps) (before_meta opt ds @ raw_block (meta_block opt ds)) (index_block opt ds seps)"
  by (auto simp: stored_at_def table_bytes_def)

lemma stored_meta: "stored_at (table_bytes opt ds seps) (before_meta opt ds) (meta_block opt ds)"
  by (auto simp: stored_at_def table_bytes_def)

lemma stored_filter:
  "o_filter_policy opt = Some (name, pol) \<Longrightarrow>
   stored_at (table_bytes opt ds seps) (table_data (o_block_restart_interval opt) ds) (filter_contents (o_block_restart_interval opt) ds pol)"
  by (auto simp: stored_at_def table_bytes_def before_meta_def filter_part_def)

lemma table_data_append: "table_data n (ds @ es # ds') = table_data n ds @ raw_block (build_block n es) @ table_data n ds'"
  by (simp add: table_data_def)

lemma table_data_split: "i < length ds \<Longrightarrow>
  table_data n ds = table_data n (take i ds) @ raw_block (build_block n (ds ! i)) @ table_data n (drop (Suc i) ds)"
  by (subst id_take_nth_drop [of i ds]) (simp_all only: table_data_append)

lemma stored_data:
  assumes "i < length ds" "n = o_block_restart_interval opt"
  shows "stored_at (table_bytes opt ds seps) (table_data n (take i ds)) (build_block n (ds ! i))"
  unfolding stored_at_def table_bytes_def before_meta_def assms(2) [symmetric] table_data_split [OF assms(1), of n] by simp

text \<open>Offsets in the file are not cut.\<close>

lemma stored_offset:
  assumes "table_stored read opt valid kvs ds seps" "stored_at (table_bytes opt ds seps) before d"
  shows "unat (of_nat (length before) :: u64) = length before" "length d < 2 ^ 32" "length before < 2 ^ 32"
proof -
  have "length before + length d + 5 < 2 ^ 32" using stored_at_length [OF assms(2)] assms(1) by (simp add: table_stored_def)
  then show "length d < 2 ^ 32" "length before < 2 ^ 32" by simp_all
  then show "unat (of_nat (length before) :: u64) = length before" by (simp add: unsigned_of_nat take_bit_nat_eq_self)
qed

text \<open>The index is sorted, and each data block too.\<close>

lemma keys_sorted_concat:
  assumes "keys_sorted cmp valid (concat ds)"
  shows "i < length ds \<Longrightarrow> keys_sorted cmp valid (ds ! i)"
    "i < j \<Longrightarrow> j < length ds \<Longrightarrow> kv \<in> set (ds ! i) \<Longrightarrow> kv' \<in> set (ds ! j) \<Longrightarrow> cmp (fst kv) (fst kv') < 0"
proof -
  have split: "concat ds = concat (take i ds) @ ds ! i @ concat (drop (Suc i) ds)" if "i < length ds" for i
    using id_take_nth_drop [OF that] by (metis concat.simps(2) concat_append)
  show "keys_sorted cmp valid (ds ! i)" if "i < length ds"
    using assms unfolding split [OF that] keys_sorted_def by (auto simp: sorted_wrt_append)
  show "cmp (fst kv) (fst kv') < 0" if "i < j" "j < length ds" "kv \<in> set (ds ! i)" "kv' \<in> set (ds ! j)"
  proof -
    have i: "i < length ds" using that by simp
    have "drop (Suc i) ds ! (j - Suc i) = ds ! j" "j - Suc i < length (drop (Suc i) ds)" using that by simp_all
    then have "ds ! j \<in> set (drop (Suc i) ds)" by (metis nth_mem)
    then have "kv' \<in> set (concat (drop (Suc i) ds))" using that(4) by auto
    then show ?thesis using assms that(3) unfolding split [OF i] keys_sorted_def by (auto simp: sorted_wrt_append)
  qed
qed

lemma separates_nth:
  assumes "separates cmp valid seps ds []" "i < length seps"
  shows "valid (seps ! i)" "kv \<in> set (ds ! i) \<Longrightarrow> cmp (fst kv) (seps ! i) \<le> 0"
    "i < j \<Longrightarrow> j < length ds \<Longrightarrow> kv \<in> set (ds ! j) \<Longrightarrow> cmp (seps ! i) (fst kv) < 0"
proof -
  show "valid (seps ! i)" "kv \<in> set (ds ! i) \<Longrightarrow> cmp (fst kv) (seps ! i) \<le> 0" using assms by (auto simp: separates_def)
  assume j: "i < j" "j < length ds" "kv \<in> set (ds ! j)"
  have "drop (Suc i) ds ! (j - Suc i) = ds ! j" "j - Suc i < length (drop (Suc i) ds)" using j by simp_all
  then have "ds ! j \<in> set (drop (Suc i) ds)" by (metis nth_mem)
  then have "kv \<in> set (concat (drop (Suc i) ds) @ [])" using j(3) by auto
  then show "cmp (seps ! i) (fst kv) < 0" using assms by (auto simp: separates_def)
qed

lemma index_sorted:
  assumes "table_stored read opt valid kvs ds seps"
  shows "keys_sorted (Compare (o_comparator opt)) valid (index_entries n ds seps)"
proof -
  let ?cmp = "Compare (o_comparator opt)"
  have t: "comparator_of (o_comparator opt) valid" "[] \<notin> set ds" "length seps = length ds" "separates ?cmp valid seps ds []"
    using assms by (simp_all add: table_stored_def table_of_def)
  have kvs: "keys_sorted ?cmp valid (concat ds)" using assms by (simp add: table_stored_def table_of_def)
  have "?cmp (seps ! i) (seps ! j) < 0" if "i < j" "j < length seps" for i j
  proof -
    have "ds ! j \<noteq> []" using that t(2,3) nth_mem by metis
    then obtain kv where kv: "kv \<in> set (ds ! j)" by (meson ex_in_conv set_empty)
    have v: "valid (seps ! i)" "valid (seps ! j)" using separates_nth(1) [OF t(4)] that by simp_all
    moreover have "valid (fst kv)" using keys_sorted_concat(1) [OF kvs, of j] kv that t(3) by (simp add: keys_sorted_def)
    moreover have "?cmp (seps ! i) (fst kv) < 0" "?cmp (fst kv) (seps ! j) \<le> 0"
      using separates_nth(3) [OF t(4) _ that(1)] separates_nth(2) [OF t(4) that(2) kv] kv that t(3) by simp_all
    ultimately show ?thesis
      using comparator.compare_eq [OF t(1)] comparator.compare_trans [OF t(1)] by (metis order_le_less)
  qed
  then show ?thesis
    using separates_nth(1) [OF t(4)] unfolding keys_sorted_def
    by (auto simp: index_entries_def sorted_wrt_iff_nth_less)
qed

subsection \<open>Opening\<close>

text \<open>The iterator on a stored block.\<close>

lemma built_block_iterator:
  assumes "comparator cmp sep succ valid" "keys_sorted cmp valid kvs" "1 \<le> n" "length (build_block n kvs) < 2 ^ 32"
  shows "any_block_on cmp valid kvs None (Block_NewIterator (new_Block (build_block n kvs)))"
  using comparator.build_block_iterator [OF assms] by (auto simp: any_block_on_def)

definition opened :: "random_access \<Rightarrow> Options \<Rightarrow> entries list \<Rightarrow> bytes list \<Rightarrow> table \<Rightarrow> bool" where
  "opened read opt ds seps tab \<longleftrightarrow> tab_options tab = opt \<and> tab_file tab = read \<and>
     tab_index_block tab = new_Block (index_block opt ds seps) \<and>
     tab_metaindex_handle tab = handle_at (before_meta opt ds) (meta_block opt ds) \<and>
     tab_filter tab = map_option (\<lambda>(name, pol). (pol, new_FilterBlockReader (filter_contents (o_block_restart_interval opt) ds pol)))
       (o_filter_policy opt)"

lemma ReadMeta_opened:
  assumes "table_stored read opt valid kvs ds seps" "tab_options tab = opt" "tab_file tab = read" "tab_filter tab = None"
  shows "ReadMeta (table_footer opt ds seps) tab =
    Some (tab\<lparr>tab_filter := map_option (\<lambda>(name, pol). (pol, new_FilterBlockReader (filter_contents (o_block_restart_interval opt) ds pol)))
       (o_filter_policy opt)\<rparr>)"
proof (cases "o_filter_policy opt")
  case None
  then show ?thesis using assms(2,4) by (cases tab) (simp add: ReadMeta_def)
next
  case (Some p)
  obtain name pol where p: "p = (name, pol)" by (cases p)
  let ?n = "o_block_restart_interval opt" and ?ops = "AnyBlock_ops BytewiseCompare" and ?key = "filter_key name"
  let ?h = "handle_at (table_data ?n ds) (filter_contents ?n ds pol)"
  let ?kvs = "[(?key, Handle_EncodeTo [] ?h)]"
  have meta: "meta_entries opt ds = ?kvs" using Some p by (simp add: meta_entries_def Let_def)
  obtain c where c: "ReadBlock read (o_paranoid_checks opt) (handle_at (before_meta opt ds) (meta_block opt ds)) = Some (OK, c)"
    "bc_data c = meta_block opt ds"
    using read_stored [OF assms(1) stored_meta] by blast
  obtain flt where flt: "ReadBlock read (o_paranoid_checks opt) ?h = Some (OK, flt)" "bc_data flt = filter_contents ?n ds pol"
    using read_stored [OF assms(1) stored_filter] Some p by blast
  have "length (meta_block opt ds) < 2 ^ 32" by (rule stored_offset(2) [OF assms(1) stored_meta])
  moreover have "1 \<le> ?n" using assms(1) by (simp add: table_stored_def)
  ultimately have it: "any_block_on BytewiseCompare (\<lambda>_. True) ?kvs None (Block_NewIterator (new_Block (meta_block opt ds)))"
    unfolding meta_block_def meta
    by (intro built_block_iterator [OF bytewise.comparator_axioms]) (simp_all add: keys_sorted_def)
  note cur = any_block_cursor [OF bytewise.block_cursor]
  obtain it' where it': "iSeek ?ops ?key (Block_NewIterator (new_Block (meta_block opt ds))) = Some it'"
    "any_block_on BytewiseCompare (\<lambda>_. True) ?kvs (position ?kvs (lower_bound BytewiseCompare ?key ?kvs)) it'"
    using cursor.seek [OF cur it TrueI] by blast
  have "BytewiseCompare ?key ?key = 0" using bytewise.compare_refl by simp
  then have "position ?kvs (lower_bound BytewiseCompare ?key ?kvs) = Some 0" by (simp add: position_def lower_bound_def)
  then have v: "iValid ?ops it'" "iKey ?ops it' = ?key" "iValue ?ops it' = Handle_EncodeTo [] ?h"
    using cursor.at_some [OF cur, of ?kvs 0 it'] it'(2) by simp_all
  have "ReadFilter pol (Handle_EncodeTo [] ?h) tab = Some (tab\<lparr>tab_filter := Some (pol, new_FilterBlockReader (filter_contents ?n ds pol))\<rparr>)"
    using Handle_DecodeFrom_Encode [of ?h "[]"] flt assms(2,3) by (simp add: ReadFilter_def)
  then show ?thesis using Some p c it'(1) v assms(2,3) by (simp add: ReadMeta_def table_footer_def Let_def)
qed

lemma table_bytes_footer: "table_bytes opt ds seps = take (length (table_bytes opt ds seps) - kEncodedLength) (table_bytes opt ds seps) @
    Footer_EncodeTo [] (table_footer opt ds seps) \<and> kEncodedLength \<le> length (table_bytes opt ds seps)"
  by (simp add: table_bytes_def length_footer)

lemma Open_stored:
  assumes "table_stored read opt valid kvs ds seps"
  shows "\<exists>tab. Table_Open opt read (of_nat (length (table_bytes opt ds seps))) = Some (OK, Some tab) \<and> opened read opt ds seps tab"
proof -
  let ?C = "table_bytes opt ds seps" and ?f = "table_footer opt ds seps"
  have C: "length ?C < 2 ^ 32" "kEncodedLength \<le> length ?C" "random_access_file read ?C" using assms table_bytes_footer by (simp_all add: table_stored_def)
  have sz: "unat (of_nat (length ?C) :: u64) = length ?C" using C(1) by (simp add: unsigned_of_nat take_bit_nat_eq_self)
  have "(of_nat (length ?C) - of_nat kEncodedLength :: u64) = of_nat (length ?C - kEncodedLength)" using C(2) by (simp add: of_nat_diff)
  moreover have "unat (of_nat (length ?C - kEncodedLength) :: u64) = length ?C - kEncodedLength"
    using C(1) by (simp add: unsigned_of_nat take_bit_nat_eq_self)
  ultimately have off: "unat (of_nat (length ?C) - of_nat kEncodedLength :: u64) = length ?C - kEncodedLength" by simp
  have "drop (length ?C - kEncodedLength) ?C = Footer_EncodeTo [] ?f"
    by (subst table_bytes_footer [THEN conjunct1]) simp
  then have "take kEncodedLength (drop (length ?C - kEncodedLength) ?C) = Footer_EncodeTo [] ?f" using length_footer [of ?f] by simp
  moreover have "length ?C < 2 ^ 64" using C(1) by simp
  ultimately obtain own where own: "read (of_nat (length ?C) - of_nat kEncodedLength) kEncodedLength = Some (OK, Footer_EncodeTo [] ?f, own)"
    using random_access_file.Read [OF C(3), of "of_nat (length ?C) - of_nat kEncodedLength" kEncodedLength] off C(2) by (auto simp: length_footer)
  have dec: "Footer_DecodeFrom (Footer_EncodeTo [] ?f) = Some (OK, ?f, [])" using Footer_DecodeFrom_Encode [of ?f "[]"] by simp
  obtain c where c: "ReadBlock read (o_paranoid_checks opt) (ft_index ?f) = Some (OK, c)" "bc_data c = index_block opt ds seps"
    using read_stored [OF assms stored_index] by (auto simp: table_footer_def)
  let ?tab = "\<lparr>tab_options = opt, tab_file = read, tab_filter = None, tab_metaindex_handle = ft_metaindex ?f,
      tab_index_block = new_Block (index_block opt ds seps)\<rparr>"
  have len: "\<not> unat (of_nat (length ?C) :: u64) < kEncodedLength" using sz C(2) by simp
  have "Table_Open opt read (of_nat (length ?C)) = map_option (\<lambda>tab. (OK, Some tab)) (ReadMeta ?f ?tab)"
    unfolding Table_Open_def if_not_P [OF len] own bind.bind_lunit prod.case dec c by (simp add: dec c)
  then show ?thesis using ReadMeta_opened [OF assms, of ?tab] by (simp add: opened_def table_footer_def)
qed

subsection \<open>The cursor\<close>

text \<open>The entries of the block with a handle.\<close>

definition entries_at :: "nat \<Rightarrow> entries list \<Rightarrow> bytes \<Rightarrow> entries" where
  "entries_at n ds v = the (map_of (map (\<lambda>i. (Handle_EncodeTo [] (data_handle n ds i), ds ! i)) [0 ..< length ds]) v)"

lemma Handle_inject: "Handle_EncodeTo [] h = Handle_EncodeTo [] h' \<Longrightarrow> h = h'"
  using Handle_DecodeFrom_Encode [of h "[]" h] Handle_DecodeFrom_Encode [of h' "[]" h] by simp

lemma table_data_mono: "i < j \<Longrightarrow> j \<le> length ds \<Longrightarrow> length (table_data n (take i ds)) < length (table_data n (take j ds))"
proof (induction j)
  case (Suc j)
  then have "length (table_data n (take j ds)) < length (table_data n (take (Suc j) ds))" by (simp add: take_Suc_conv_app_nth)
  then show ?case using Suc by (cases "i = j") simp_all
qed simp

lemma data_handle_inject:
  assumes "table_stored read opt valid kvs ds seps" "n = o_block_restart_interval opt" "i < length ds" "j < length ds"
    "data_handle n ds i = data_handle n ds j"
  shows "i = j"
proof -
  have off: "unat (of_nat (length (table_data n (take i ds))) :: u64) = length (table_data n (take i ds))" if "i < length ds" for i
    by (rule stored_offset(1) [OF assms(1) stored_data [OF that assms(2)]])
  have "of_nat (length (table_data n (take i ds))) = (of_nat (length (table_data n (take j ds))) :: u64)"
    using assms(5) by (simp add: data_handle_def handle_at_def)
  then have eq: "length (table_data n (take i ds)) = length (table_data n (take j ds))" using off [OF assms(3)] off [OF assms(4)] by metis
  consider "i < j" | "i = j" | "j < i" by linarith
  then show ?thesis using table_data_mono [of i j ds n] table_data_mono [of j i ds n] eq assms(3,4) by cases simp_all
qed

lemma entries_at_handle:
  assumes "table_stored read opt valid kvs ds seps" "n = o_block_restart_interval opt" "i < length ds"
  shows "entries_at n ds (Handle_EncodeTo [] (data_handle n ds i)) = ds ! i"
proof -
  let ?xs = "map (\<lambda>i. (Handle_EncodeTo [] (data_handle n ds i), ds ! i)) [0 ..< length ds]"
  have "distinct (map fst ?xs)"
    using data_handle_inject [OF assms(1,2)] Handle_inject by (auto simp: distinct_map inj_on_def comp_def)
  moreover have "(Handle_EncodeTo [] (data_handle n ds i), ds ! i) \<in> set ?xs" using assms(3) by auto
  ultimately have "map_of ?xs (Handle_EncodeTo [] (data_handle n ds i)) = Some (ds ! i)" by (rule map_of_is_SomeI)
  then show ?thesis by (simp add: entries_at_def)
qed

lemma BlockReader_stored:
  assumes "table_stored read opt valid kvs ds seps" "opened read opt ds seps tab" "n = o_block_restart_interval opt" "i < length ds"
  shows "\<exists>it. BlockReader tab verify (Handle_EncodeTo [] (data_handle n ds i)) = Some it \<and>
    any_block_on (Compare (o_comparator opt)) valid (ds ! i) None it"
proof -
  note at = stored_data [OF assms(4,3), of seps]
  obtain c where c: "ReadBlock read verify (data_handle n ds i) = Some (OK, c)" "bc_data c = build_block n (ds ! i)"
    using read_stored [OF assms(1) at] by (auto simp: data_handle_def)
  have "keys_sorted (Compare (o_comparator opt)) valid (concat ds)" "1 \<le> n" "comparator_of (o_comparator opt) valid"
    using assms(1,3) by (simp_all add: table_stored_def table_of_def)
  then have "any_block_on (Compare (o_comparator opt)) valid (ds ! i) None (Block_NewIterator (new_Block (build_block n (ds ! i))))"
    using built_block_iterator keys_sorted_concat(1) assms(4) stored_offset(2) [OF assms(1) at] by blast
  then show ?thesis
    using c Handle_DecodeFrom_Encode [of "data_handle n ds i" "[]"] assms(2) by (simp add: BlockReader_def opened_def)
qed

text \<open>The index of a stored table divides its blocks.\<close>

lemma index_entries_nth [simp]:
  "length (index_entries n ds seps) = length seps"
  "i < length seps \<Longrightarrow> index_entries n ds seps ! i = (seps ! i, Handle_EncodeTo [] (data_handle n ds i))"
  by (simp_all add: index_entries_def)

lemma index_blocks:
  assumes "table_stored read opt valid kvs ds seps" "n = o_block_restart_interval opt"
  shows "map (\<lambda>kv. entries_at n ds (snd kv)) (index_entries n ds seps) = ds"
proof (rule nth_equalityI)
  have len: "length seps = length ds" using assms(1) by (simp add: table_stored_def table_of_def)
  then show "length (map (\<lambda>kv. entries_at n ds (snd kv)) (index_entries n ds seps)) = length ds" by simp
  fix i assume "i < length (map (\<lambda>kv. entries_at n ds (snd kv)) (index_entries n ds seps))"
  then have "i < length seps" "i < length ds" using len by simp_all
  then show "map (\<lambda>kv. entries_at n ds (snd kv)) (index_entries n ds seps) ! i = ds ! i"
    using entries_at_handle [OF assms] by simp
qed

lemma stored_divides:
  assumes "table_stored read opt valid kvs ds seps"
  shows "index_divides (Compare (o_comparator opt)) valid (index_entries n ds seps) ds"
proof -
  let ?cmp = "Compare (o_comparator opt)"
  have t: "comparator_of (o_comparator opt) valid" "length seps = length ds" "separates ?cmp valid seps ds []" "keys_sorted ?cmp valid (concat ds)"
    using assms by (simp_all add: table_stored_def table_of_def)
  have ok: "valid (fst kv)" if "kv \<in> set (ds ! i)" "i < length ds" for kv i
    using keys_sorted_concat(1) [OF t(4) that(2)] that(1) by (simp add: keys_sorted_def)
  have behind: "?cmp (fst kv) target < 0" if "valid target" "i < length seps" "?cmp (seps ! i) target < 0" "kv \<in> set (ds ! i)" for target i kv
    using comparator.compare_le_less [OF t(1) ok [OF that(4)] separates_nth(1) [OF t(3) that(2)] that(1) separates_nth(2) [OF t(3) that(2,4)] that(3)]
      that(2) t(2) by simp
  have before: "\<not> ?cmp (fst kv) target < 0"
    if "valid target" "i < length seps" "\<not> ?cmp (seps ! i) target < 0" "i < j" "j < length seps" "kv \<in> set (ds ! j)" for target i j kv
  proof
    assume less: "?cmp (fst kv) target < 0"
    have j: "j < length ds" using that(5) t(2) by simp
    have "?cmp (seps ! i) target < 0"
      by (rule comparator.compare_trans [OF t(1) separates_nth(1) [OF t(3) that(2)] ok [OF that(6) j] that(1) separates_nth(3) [OF t(3) that(2,4) j that(6)] less])
    then show False using that(3) by simp
  qed
  show ?thesis
    unfolding index_divides_def index_entries_nth(1) using t(2) behind before by (auto simp: less_trans)
qed

lemma stored_layout:
  assumes "table_stored read opt valid kvs ds seps" "opened read opt ds seps tab" "n = o_block_restart_interval opt"
  shows "two_level_layout (Compare (o_comparator opt)) valid (any_block_on (Compare (o_comparator opt)) valid)
    (\<lambda>v. map_option Some (BlockReader tab verify v)) (entries_at n ds) (index_entries n ds seps)"
proof -
  have len: "length seps = length ds" using assms(1) by (simp add: table_stored_def table_of_def)
  have "\<exists>d r. map_option Some (BlockReader tab verify (snd kv)) = Some (Some d) \<and>
      any_block_on (Compare (o_comparator opt)) valid (entries_at n ds (snd kv)) r d"
    if kv: "kv \<in> set (index_entries n ds seps)" for kv
  proof -
    obtain i where i: "i < length ds" "snd kv = Handle_EncodeTo [] (data_handle n ds i)" using kv len by (auto simp: index_entries_def)
    obtain it where "BlockReader tab verify (snd kv) = Some it" "any_block_on (Compare (o_comparator opt)) valid (ds ! i) None it"
      using BlockReader_stored [OF assms i(1), of verify] i(2) by auto
    then show ?thesis using entries_at_handle [OF assms(1,3) i(1)] i(2) by auto
  qed
  then show ?thesis using stored_divides [OF assms(1)] by (simp add: two_level_layout_def index_blocks [OF assms(1,3)])
qed

lemma index_iterator:
  assumes "table_stored read opt valid kvs ds seps" "opened read opt ds seps tab" "n = o_block_restart_interval opt"
  shows "any_block_on (Compare (o_comparator opt)) valid (index_entries n ds seps) None (Block_NewIterator (tab_index_block tab))"
proof -
  have "comparator_of (o_comparator opt) valid" using assms(1) by (simp add: table_stored_def)
  moreover have "length (build_block 1 (index_entries n ds seps)) < 2 ^ 32"
    using stored_offset(2) [OF assms(1) stored_index] assms(3) by (simp add: index_block_def)
  moreover have "tab_index_block tab = new_Block (build_block 1 (index_entries n ds seps))"
    using assms(2,3) by (simp add: opened_def index_block_def)
  ultimately show ?thesis using built_block_iterator [OF _ index_sorted [OF assms(1)], of _ _ 1 n] by simp
qed

text \<open>Two-level iterators over the blocks of a table, in the two orders of keys the program has.\<close>

interpretation table_bytewise: two_level_source "AnyBlock_ops BytewiseCompare" "AnyBlock_ops BytewiseCompare" BytewiseCompare "\<lambda>_. True"
  "any_block_on BytewiseCompare (\<lambda>_. True)" "any_block_on BytewiseCompare (\<lambda>_. True)" block_function block_of idx
  for block_function block_of idx
  by (intro two_level_source.intro any_block_cursor bytewise.block_cursor)

interpretation table_internal: two_level_source "AnyBlock_ops (InternalCompare BytewiseCompare)" "AnyBlock_ops (InternalCompare BytewiseCompare)"
  "InternalCompare BytewiseCompare" "internal_valid (\<lambda>_. True)"
  "any_block_on (InternalCompare BytewiseCompare) (internal_valid (\<lambda>_. True))"
  "any_block_on (InternalCompare BytewiseCompare) (internal_valid (\<lambda>_. True))" block_function block_of idx
  for block_function block_of idx
  by (intro two_level_source.intro any_block_cursor internal_bytewise.block_cursor)

text \<open>The iterator on an opened table is a cursor in the entries it was built of.\<close>

definition table_on :: "table \<Rightarrow> (bytes \<Rightarrow> bool) \<Rightarrow> bool \<Rightarrow> entries list \<Rightarrow> bytes list \<Rightarrow> entries \<Rightarrow> nat option \<Rightarrow> table_iter \<Rightarrow> bool" where
  "table_on tab valid verify ds seps =
     (let cmp = table_compare tab; n = o_block_restart_interval (tab_options tab) in
      tl_on (AnyBlock_ops cmp) (AnyBlock_ops cmp) cmp valid (any_block_on cmp valid) (any_block_on cmp valid)
        (\<lambda>v. map_option Some (BlockReader tab verify v)) (entries_at n ds) (index_entries n ds seps))"

lemma table_cursor:
  assumes "comparator_of (o_comparator (tab_options tab)) valid"
  shows "cursor (table_ops tab verify) (table_compare tab) valid (table_on tab valid verify ds seps)"
proof -
  have cur: "cursor (AnyBlock_ops (table_compare tab)) (table_compare tab) valid (any_block_on (table_compare tab) valid)"
    unfolding table_compare_def by (rule any_block_cursor [OF comparator.block_cursor [OF assms]])
  show ?thesis
    unfolding table_ops_def table_on_def Let_def by (rule two_level_source.two_level_cursor [OF two_level_source.intro [OF cur cur]])
qed

lemma new_table_iterator:
  assumes "table_stored read opt valid kvs ds seps" "opened read opt ds seps tab"
  shows "table_on tab valid verify ds seps kvs None (Table_NewIterator tab)"
proof -
  define n where "n = o_block_restart_interval opt"
  have o: "tab_options tab = opt" "table_compare tab = Compare (o_comparator opt)" "comparator_of (o_comparator opt) valid"
    using assms by (simp_all add: opened_def table_compare_def table_stored_def)
  have cur: "cursor (AnyBlock_ops (Compare (o_comparator opt))) (Compare (o_comparator opt)) valid (any_block_on (Compare (o_comparator opt)) valid)"
    by (rule any_block_cursor [OF comparator.block_cursor [OF o(3)]])
  have "concat ds = kvs" using assms(1) by (simp add: table_stored_def table_of_def)
  then show ?thesis
    using two_level_source.new_two_level [OF two_level_source.intro [OF cur cur] stored_layout [OF assms n_def] index_iterator [OF assms n_def]]
    unfolding table_on_def Table_NewIterator_def Let_def o(1,2) n_def [symmetric] index_blocks [OF assms(1) n_def] by simp
qed

subsection \<open>The filter of a stored table\<close>

fun event_offset :: "filter_event list \<Rightarrow> nat \<Rightarrow> nat" where
  "event_offset [] off = off"
| "event_offset (Block off # es) _ = event_offset es off"
| "event_offset (Key k # es) off = event_offset es off"

lemma events_append:
  "keys_of (es @ es') off = keys_of es off @ keys_of es' (event_offset es off)"
  "ascending (es @ es') off \<longleftrightarrow> ascending es off \<and> ascending es' (event_offset es off)"
  "event_offset (es @ es') off = event_offset es' (event_offset es off)"
  by (induction es off rule: keys_of.induct) auto

lemma events_keys:
  "keys_of (map (\<lambda>kv. Key (fst kv)) cur) off = map (\<lambda>kv. (off, fst kv)) cur"
  "ascending (map (\<lambda>kv. Key (fst kv)) cur) off" "event_offset (map (\<lambda>kv. Key (fst kv)) cur) off = off"
  by (induction cur) auto

lemma filter_events_snoc:
  "filter_events n (ds @ [cur]) [] = filter_events n ds [] @ map (\<lambda>kv. Key (fst kv)) cur @ [block_event n (ds @ [cur])]"
  unfolding filter_events_block by (simp add: filter_events_def)

lemma filter_events_of:
  assumes "length (table_data n ds) < 2 ^ 64"
  shows "ascending (filter_events n ds []) 0 \<and> event_offset (filter_events n ds []) 0 = length (table_data n ds) \<and>
    (\<forall>i < length ds. \<forall>kv \<in> set (ds ! i). (length (table_data n (take i ds)), fst kv) \<in> set (keys_of (filter_events n ds []) 0)) \<and>
    (\<forall>k. Key k \<in> set (filter_events n ds []) \<longrightarrow> k \<in> fst ` set (concat ds))"
  using assms
proof (induction ds rule: rev_induct)
  case Nil
  then show ?case by (simp add: filter_events_def)
next
  case (snoc cur ds)
  then have len: "length (table_data n ds) < 2 ^ 64" by simp
  have "block_event n (ds @ [cur]) = Block (length (table_data n (ds @ [cur])))"
    using snoc.prems unfolding block_event_def by (simp add: unsigned_of_nat take_bit_nat_eq_self del: table_data_snoc)
  then show ?case
    using snoc.IH [OF len] unfolding filter_events_snoc events_append events_keys
    by (auto simp: events_append events_keys nth_append less_Suc_eq image_Un)
qed

lemma stored_filter_matches:
  assumes "table_stored read opt valid kvs ds seps" "o_filter_policy opt = Some (name, pol)" "filter_policy pol valid"
    "n = o_block_restart_interval opt" "i < length ds" "kv \<in> set (ds ! i)"
  shows "FilterKeyMayMatch pol (new_FilterBlockReader (filter_contents n ds pol)) (bh_offset (data_handle n ds i)) (fst kv)"
proof -
  have at: "stored_at (table_bytes opt ds seps) (table_data n ds) (filter_contents n ds pol)"
    using stored_filter [OF assms(2)] assms(4) by simp
  have len: "length (filter_contents n ds pol) < 2 ^ 32" "length (table_data n ds) < 2 ^ 64"
    using stored_offset(2,3) [OF assms(1) at] by simp_all
  note ev = filter_events_of [OF len(2)]
  have "k \<in> fst ` set (concat ds) \<Longrightarrow> valid k" for k using assms(1) by (auto simp: table_stored_def table_of_def keys_sorted_def)
  then have keys: "valid k" if "Key k \<in> set (filter_events n ds [])" for k using ev that by blast
  have "length (table_data n (take i ds)) < 2 ^ 32" using stored_offset(3) [OF assms(1) stored_data [OF assms(5,4)]] .
  then have off: "length (table_data n (take i ds)) < 2 ^ 64" by simp
  have "(length (table_data n (take i ds)), fst kv) \<in> set (keys_of (filter_events n ds []) 0)" using ev assms(5,6) by blast
  then have "FilterKeyMayMatch pol (new_FilterBlockReader (filter_contents n ds pol)) (of_nat (length (table_data n (take i ds)))) (fst kv)"
    using filter_policy.filter_block_complete [OF assms(3) _ keys _ off] ev len(1) unfolding filter_contents_def filter_of_def by blast
  then show ?thesis by (simp add: data_handle_def handle_at_def)
qed

subsection \<open>Searching\<close>

lemma lower_bound_present:
  assumes "comparator cmp sep succ valid" "keys_sorted cmp valid kvs" "i < length kvs"
  shows "lower_bound cmp (fst (kvs ! i)) kvs = i"
proof (rule lower_bound_eqI)
  show "cmp (fst (kvs ! j)) (fst (kvs ! i)) < 0" if "j < i" for j
    using assms(2,3) that by (auto simp: keys_sorted_def sorted_wrt_iff_nth_less)
  have "valid (fst (kvs ! i))" using assms(2,3) by (simp add: keys_sorted_def)
  then show "\<not> cmp (fst (kvs ! i)) (fst (kvs ! i)) < 0" using comparator.compare_refl [OF assms(1)] by simp
qed (use assms(3) in simp)

text \<open>The block of a key that is there is the one the index is at.\<close>

lemma index_present:
  assumes "table_stored read opt valid kvs ds seps" "i < length ds" "kv \<in> set (ds ! i)"
  shows "lower_bound (Compare (o_comparator opt)) (fst kv) (index_entries n ds seps) = i"
proof -
  let ?cmp = "Compare (o_comparator opt)"
  have t: "comparator_of (o_comparator opt) valid" "length seps = length ds" "separates ?cmp valid seps ds []" "keys_sorted ?cmp valid (concat ds)"
    using assms by (simp_all add: table_stored_def table_of_def)
  have i: "i < length seps" using assms(2) t(2) by simp
  have v: "valid (fst kv)" "valid (seps ! i)"
    using keys_sorted_concat(1) [OF t(4) assms(2)] assms(3) separates_nth(1) [OF t(3) i] by (simp_all add: keys_sorted_def)
  show ?thesis
  proof (rule lower_bound_eqI)
    show "?cmp (fst (index_entries n ds seps ! j)) (fst kv) < 0" if "j < i" for j
      using separates_nth(3) [OF t(3) _ that assms(2,3)] that i by simp
    have "?cmp (fst kv) (seps ! i) \<le> 0" by (rule separates_nth(2) [OF t(3) i assms(3)])
    then have "\<not> ?cmp (seps ! i) (fst kv) < 0" using comparator.compare_swap [OF t(1) v(2,1)] by simp
    then show "\<not> ?cmp (fst (index_entries n ds seps ! i)) (fst kv) < 0" using i by simp
  qed (use i in simp)
qed

lemma InternalGet_stored:
  assumes "table_stored read opt valid kvs ds seps" "opened read opt ds seps tab" "valid k"
    "\<And>name pol. o_filter_policy opt = Some (name, pol) \<Longrightarrow> filter_policy pol valid"
  shows "\<exists>result. InternalGet tab verify k = Some (OK, result) \<and>
    (case result of
       Some kv \<Rightarrow> lower_bound (Compare (o_comparator opt)) k kvs < length kvs \<and> kv = kvs ! lower_bound (Compare (o_comparator opt)) k kvs
     | None \<Rightarrow> k \<notin> fst ` set kvs)"
proof -
  define n where "n = o_block_restart_interval opt"
  let ?cmp = "Compare (o_comparator opt)" and ?idx = "index_entries n ds seps"
  let ?ops = "AnyBlock_ops ?cmp" and ?i = "lower_bound ?cmp k ?idx"
  have c: "comparator_of (o_comparator opt) valid" "length seps = length ds" "concat ds = kvs"
    using assms(1) by (simp_all add: table_stored_def table_of_def)
  have tab: "table_compare tab = ?cmp" "tab_filter tab = map_option (\<lambda>(name, pol). (pol, new_FilterBlockReader (filter_contents n ds pol))) (o_filter_policy opt)"
    using assms(2) by (simp_all add: opened_def table_compare_def n_def)
  have cur: "cursor ?ops ?cmp valid (any_block_on ?cmp valid)" by (rule any_block_cursor [OF comparator.block_cursor [OF c(1)]])
  obtain iiter where ii: "iSeek ?ops k (Block_NewIterator (tab_index_block tab)) = Some iiter" "any_block_on ?cmp valid ?idx (position ?idx ?i) iiter"
    using cursor.seek [OF cur index_iterator [OF assms(1,2) n_def] assms(3)] by blast
  have st: "iStatus ?ops iiter = OK" by (rule cursor.status [OF cur ii(2)])
  show ?thesis
  proof (cases "?i < length ?idx")
    case False
    then have "\<not> iValid ?ops iiter" using cursor.at_none [OF cur] ii(2) by (simp add: position_def)
    moreover have "k \<notin> fst ` set kvs"
    proof
      assume "k \<in> fst ` set kvs"
      then obtain kv es where kv: "k = fst kv" "kv \<in> set es" "es \<in> set ds" unfolding c(3) [symmetric] by auto
      then obtain i where "i < length ds" "es = ds ! i" by (auto simp: in_set_conv_nth)
      then show False using index_present [OF assms(1), of i kv n] kv(1,2) False c(2) by simp
    qed
    ultimately show ?thesis using ii(1) st by (simp add: InternalGet_def tab(1) Let_def)
  next
    case True
    then have i: "?i < length ds" using c(2) by simp
    have v: "iValid ?ops iiter" "iValue ?ops iiter = Handle_EncodeTo [] (data_handle n ds ?i)"
      using cursor.at_some [OF cur, of ?idx ?i iiter] ii(2) True by (simp_all add: position_def)
    have dec: "Handle_DecodeFrom (iValue ?ops iiter) h = (OK, data_handle n ds ?i, [])" for h
      using Handle_DecodeFrom_Encode [of "data_handle n ds ?i" "[]"] v(2) by simp
    define denied where "denied = (case tab_filter tab of None \<Rightarrow> False
      | Some (pol, flt) \<Rightarrow> \<not> FilterKeyMayMatch pol flt (bh_offset (data_handle n ds ?i)) k)"
    have key: "k \<in> fst ` set kvs \<longleftrightarrow> k \<in> fst ` set (ds ! ?i)"
    proof
      assume "k \<in> fst ` set kvs"
      then obtain kv es where kv: "k = fst kv" "kv \<in> set es" "es \<in> set ds" unfolding c(3) [symmetric] by auto
      then obtain i where "i < length ds" "es = ds ! i" by (auto simp: in_set_conv_nth)
      then show "k \<in> fst ` set (ds ! ?i)" using index_present [OF assms(1), of i kv n] kv(1,2) by auto
    next
      assume "k \<in> fst ` set (ds ! ?i)"
      then obtain kv where kv: "k = fst kv" "kv \<in> set (ds ! ?i)" by auto
      then have "kv \<in> set (concat ds)" using nth_mem [OF i] by auto
      then show "k \<in> fst ` set kvs" unfolding kv(1) c(3) by (rule imageI)
    qed
    have open_get: "InternalGet tab verify k = (if denied then Some (OK, None) else
        Option.bind (BlockReader tab verify (Handle_EncodeTo [] (data_handle n ds ?i))) (\<lambda>it.
          map_option (\<lambda>it. (if ok (iStatus ?ops it) then OK else iStatus ?ops it, cursor_view ?ops it)) (iSeek ?ops k it)))"
      unfolding InternalGet_def tab(1) Let_def ii(1) bind.bind_lunit dec denied_def
      by (cases denied) (auto simp: v st denied_def map_conv_bind_option comp_def split: option.splits cong: if_cong)
    show ?thesis
    proof (cases denied)
      case True
      then obtain name pol where p: "o_filter_policy opt = Some (name, pol)"
        "\<not> FilterKeyMayMatch pol (new_FilterBlockReader (filter_contents n ds pol)) (bh_offset (data_handle n ds ?i)) k"
        using tab(2) by (auto simp: denied_def split: option.splits)
      have "k \<notin> fst ` set (ds ! ?i)" using stored_filter_matches [OF assms(1) p(1) assms(4) [OF p(1)] n_def i] p(2) by auto
      then show ?thesis using open_get True key by simp
    next
      case False
      let ?j = "lower_bound ?cmp k (ds ! ?i)"
      obtain it where it: "BlockReader tab verify (Handle_EncodeTo [] (data_handle n ds ?i)) = Some it" "any_block_on ?cmp valid (ds ! ?i) None it"
        using BlockReader_stored [OF assms(1,2) n_def i] by blast
      obtain it' where it': "iSeek ?ops k it = Some it'" "any_block_on ?cmp valid (ds ! ?i) (position (ds ! ?i) ?j) it'"
        using cursor.seek [OF cur it(2) assms(3)] by blast
      have res: "InternalGet tab verify k = Some (OK, map_option (nth (ds ! ?i)) (position (ds ! ?i) ?j))"
        using open_get False it(1) it'(1) cursor.status [OF cur it'(2)] cursor.view [OF cur it'(2)] by simp
      have at: "lower_bound ?cmp k kvs = block_base ds ?i + ?j"
        using lower_bound_block [OF stored_divides [OF assms(1)] assms(3) True] c(3) by simp
      show ?thesis
      proof (cases "?j < length (ds ! ?i)")
        case True
        then show ?thesis using res at nth_block [OF i True] c(3) by (simp add: position_def)
      next
        case none: False
        have "k \<notin> fst ` set (ds ! ?i)"
        proof
          assume "k \<in> fst ` set (ds ! ?i)"
          then obtain c' where c': "c' < length (ds ! ?i)" "k = fst (ds ! ?i ! c')" by (auto simp: in_set_conv_nth)
          have "keys_sorted ?cmp valid (ds ! ?i)" using keys_sorted_concat(1) [OF _ i] assms(1) by (simp add: table_stored_def table_of_def)
          then show False using lower_bound_present [OF c(1) _ c'(1)] c' none by simp
        qed
        then show ?thesis using res none key by (simp add: position_def)
      qed
    qed
  qed
qed

subsection \<open>Sizes\<close>

text \<open>How much room entries can take in a block, whatever the restart interval.\<close>

definition entries_room :: "entries \<Rightarrow> nat" where
  "entries_room kvs = sum_list (map (\<lambda>kv. 19 + length (fst kv) + length (snd kv)) kvs)"

lemma length_Add:
  "length (bb_buffer (BlockBuilder_Add n k v b)) + 4 * length (bb_restarts (BlockBuilder_Add n k v b)) \<le>
   length (bb_buffer b) + 4 * length (bb_restarts b) + (19 + length k + length v)"
proof -
  have three: "length (EncodeVarint32 x) + length (EncodeVarint32 y) + length (EncodeVarint32 z) \<le> 15" for x y z
    using length_EncodeVarint(2) [of x] length_EncodeVarint(2) [of y] length_EncodeVarint(2) [of z] by linarith
  show ?thesis
  proof (cases "bb_counter b < n")
    case True
    then show ?thesis
      using three [of "of_nat (shared_loop (bb_last_key b) k 0)" "of_nat (length k - shared_loop (bb_last_key b) k 0)" "of_nat (length v)"]
      by (simp add: BlockBuilder_Add_def Let_def PutVarint32_def)
  next
    case False
    then show ?thesis
      using three [of 0 "of_nat (length k)" "of_nat (length v)"] by (simp add: BlockBuilder_Add_def Let_def PutVarint32_def)
  qed
qed

lemma length_build_block: "length (build_block n kvs) \<le> 8 + entries_room kvs"
proof -
  have "length (bb_buffer (block_of_entries n kvs)) + 4 * length (bb_restarts (block_of_entries n kvs)) \<le> 4 + entries_room kvs"
  proof (induction kvs rule: rev_induct)
    case Nil
    then show ?case by (simp add: block_of_entries_def new_BlockBuilder_def entries_room_def)
  next
    case (snoc kv kvs)
    obtain k v where kv: "kv = (k, v)" by (cases kv)
    show ?case using snoc length_Add [of n k v "block_of_entries n kvs"] by (simp add: kv block_of_entries_snoc entries_room_def)
  qed
  then show ?thesis
    unfolding build_block_def BlockBuilder_Finish_def Let_def fold_PutFixed32 block_of_entries_def
    by (simp add: PutFixed32_def length_EncodeFixed32s)
qed

lemma length_table_data: "[] \<notin> set ds \<Longrightarrow> length (table_data n ds) \<le> 13 * length (concat ds) + entries_room (concat ds)"
proof (induction ds rule: rev_induct)
  case (snoc es ds)
  then have "1 \<le> length es" by (cases es) auto
  then show ?case using snoc length_build_block [of n es] by (simp add: entries_room_def)
qed simp

lemma length_index:
  assumes "\<And>i. i < length seps \<Longrightarrow> length (seps ! i) \<le> L"
  shows "length (index_block opt ds seps) \<le> 8 + length seps * (39 + L)"
proof -
  let ?n = "o_block_restart_interval opt"
  have "entries_room (index_entries ?n ds seps) \<le> sum_list (map (\<lambda>i. 39 + L) [0 ..< length seps])"
    unfolding entries_room_def index_entries_def map_map comp_def
  proof (rule sum_list_mono)
    fix i assume "i \<in> set [0 ..< length seps]"
    then show "19 + length (fst (seps ! i, Handle_EncodeTo [] (data_handle ?n ds i))) + length (snd (seps ! i, Handle_EncodeTo [] (data_handle ?n ds i))) \<le> 39 + L"
      using assms [of i] length_handle [of "data_handle ?n ds i"] by (simp add: kMaxEncodedLength_def)
  qed
  then show ?thesis using length_build_block [of 1 "index_entries ?n ds seps"] by (simp add: index_block_def sum_list_triv)
qed

text \<open>A table without a filter, when keys have at most \<open>L\<close> bytes.\<close>

lemma length_concat_ge: "[] \<notin> set ds \<Longrightarrow> length ds \<le> length (concat ds)"
proof (induction ds)
  case (Cons es ds)
  then show ?case by (cases es) auto
qed simp

lemma length_table_bytes:
  assumes "table_of cmp valid kvs ds seps" "\<And>k. valid k \<Longrightarrow> length k \<le> L" "o_filter_policy opt = None"
  shows "length (table_bytes opt ds seps) \<le> 74 + length kvs * (52 + L) + entries_room kvs"
proof -
  have t: "concat ds = kvs" "[] \<notin> set ds" "length seps = length ds" "separates cmp valid seps ds []" using assms(1) by (simp_all add: table_of_def)
  have "length (seps ! i) \<le> L" if "i < length seps" for i using separates_nth(1) [OF t(4) that] assms(2) by blast
  then have "length (index_block opt ds seps) \<le> 8 + length seps * (39 + L)" by (rule length_index)
  moreover have "length seps * (39 + L) \<le> length kvs * (39 + L)" using length_concat_ge [OF t(2)] t(1,3) by simp
  moreover have "length (meta_block opt ds) \<le> 8"
    using length_build_block [of "o_block_restart_interval opt" "[]"] assms(3) by (simp add: meta_block_def meta_entries_def entries_room_def Let_def)
  ultimately show ?thesis
    using length_table_data [OF t(2), of "o_block_restart_interval opt"] t(1) assms(3)
    by (simp add: table_bytes_def before_meta_def filter_part_def length_footer kEncodedLength_def kMaxEncodedLength_def algebra_simps)
qed


end
