(* ===== verification/LdbTableTheorems.thy ===== *)
theory LdbTableTheorems
  imports LdbDBIter LdbTable
begin

text \<open>
  The properties of iterators: those on the blocks of a table, the merging iterator over memtables
  and blocks, and the iterator of a database over a merging iterator.
\<close>

section \<open>Blocks\<close>

text \<open>The iterator on a block that was built of a sorted list of entries is a cursor in that list,
  whatever order of the keys and whatever restart interval the table was made with: every sequence of
  seeks and of moves forward and backward returns, and shows the keys and values of the list.\<close>

theorem block_cursor_agrees:
  assumes "comparator compare separator successor valid" "keys_sorted compare valid kvs" "1 \<le> interval"
    "length (build_block interval kvs) < 2 ^ 32" "seeks_valid valid cs"
  shows "\<exists>it. Block_NewIterator (new_Block (build_block interval kvs)) = BlockIterator it \<and>
    cursor_run (BlockIter_ops compare) cs it = Some (list_run compare kvs cs None)"
  using comparator.build_block_iterator [OF assms(1-4)] cursor.run [OF comparator.block_cursor [OF assms(1)] _ assms(5)] by blast

theorem block_cursor_agrees_witness:
  "\<exists>it. Block_NewIterator (new_Block (build_block 2 [([1, 2], [7]), ([1, 3], [8]), ([2], [9])])) = BlockIterator it \<and>
    cursor_run (BlockIter_ops BytewiseCompare) [CSeek [1, 3], CNext, CPrev, CPrev, CPrev] it =
      Some [Some ([1, 3], [8]), Some ([2], [9]), Some ([1, 3], [8]), Some ([1, 2], [7]), None]"
proof -
  let ?kvs = "[([1, 2], [7]), ([1, 3], [8]), ([2], [9])] :: entries"
  have "length (build_block 2 ?kvs) = 28" by code_simp
  then have "length (build_block 2 ?kvs) < 2 ^ 32" by simp
  moreover have "keys_sorted BytewiseCompare (\<lambda>_. True) ?kvs" unfolding keys_sorted_def by code_simp
  moreover have "list_run BytewiseCompare ?kvs [CSeek [1, 3], CNext, CPrev, CPrev, CPrev] None =
      [Some ([1, 3], [8]), Some ([2], [9]), Some ([1, 3], [8]), Some ([1, 2], [7]), None]" by code_simp
  ultimately show ?thesis
    using block_cursor_agrees [OF bytewise.comparator_axioms, of ?kvs 2 "[CSeek [1, 3], CNext, CPrev, CPrev, CPrev]"] by simp
qed

section \<open>Merging\<close>

text \<open>The merging iterator over memtables and blocks is a cursor in the one sorted list of which its
  children hold parts (entry \<open>j\<close> is in child \<open>own j\<close>): every sequence of seeks, moves and turns returns
  and shows that list.\<close>

theorem merging_cursor_agrees:
  assumes "keys_sorted (InternalCompare BytewiseCompare) internal_key_ok kvs" "\<forall>j < length kvs. own j < length children"
    "\<forall>i < length children. \<exists>p. mem_or_block_at (part kvs own i) p (children ! i)" "seeks_valid internal_key_ok cs"
  shows "cursor_run (MergingIterator_ops mem_or_block_ops (InternalCompare BytewiseCompare)) cs (new_MergingIterator mem_or_block_ops children) =
    Some (list_run (InternalCompare BytewiseCompare) kvs cs None)"
proof -
  obtain pos where "\<forall>i < length children. mem_or_block_at (part kvs own i) (pos i) (children ! i)" using assms(3) by metis
  then show ?thesis
    using cursor.run [OF merge_internal.merged merge_internal.new_merged [OF assms(1)] assms(4)] assms(2) by blast
qed

theorem merging_cursor_agrees_witness:
  defines "a \<equiv> PutFixed64 [97] 257 :: bytes" and "b \<equiv> PutFixed64 [98] 513 :: bytes"
  shows "\<exists>it. cursor_run (MergingIterator_ops mem_or_block_ops (InternalCompare BytewiseCompare)) [CFirst, CNext, CPrev]
      (new_MergingIterator mem_or_block_ops [Inl (MemTable_NewIterator (new_SkipList [])), Inr it]) =
    Some [Some (a, [1]), Some (b, [2]), Some (a, [1])]"
proof -
  let ?kvs = "[(a, [1]), (b, [2])] :: entries"
  have s: "keys_sorted (InternalCompare BytewiseCompare) internal_key_ok ?kvs"
  proof -
    have "InternalCompare BytewiseCompare a b < 0" "length a = 9" "length b = 9" unfolding a_def b_def by code_simp+
    then show ?thesis by (simp add: keys_sorted_def internal_key_ok_def)
  qed
  then have s': "keys_sorted (InternalCompare BytewiseCompare) (internal_valid (\<lambda>_. True)) ?kvs"
    by (auto simp: keys_sorted_def internal_key_ok_def internal_valid_def)
  have "length (build_block 2 ?kvs) = 34" unfolding a_def b_def by code_simp
  then have "length (build_block 2 ?kvs) < 2 ^ 32" by simp
  from internal_bytewise.build_block_iterator [OF s' _ this] obtain it where
    it: "block_on (InternalCompare BytewiseCompare) (internal_valid (\<lambda>_. True)) ?kvs None it" by auto
  have p: "part ?kvs (\<lambda>_. 1) (Suc 0) = ?kvs" "part ?kvs (\<lambda>_. 1) 0 = []" by (simp_all add: part_def)
  have "mem_on BytewiseCompare (\<lambda>_. True) [] None (MemTable_NewIterator (new_SkipList []))"
    unfolding MemTable_NewIterator_def by (rule mem_onI [OF new_SkipList_wf]) simp_all
  then have "\<forall>i < length [Inl (MemTable_NewIterator (new_SkipList [])), Inr it].
      \<exists>p. mem_or_block_at (part ?kvs (\<lambda>_. 1) i) p ([Inl (MemTable_NewIterator (new_SkipList [])), Inr it] ! i)"
    using it p by (auto simp: less_Suc_eq mem_or_block_at_def either_at_def simp del: One_nat_def)
  then show ?thesis
    using merging_cursor_agrees [OF s, of "\<lambda>_. 1" "[Inl (MemTable_NewIterator (new_SkipList [])), Inr it]" "[CFirst, CNext, CPrev]"]
    by (auto simp: position_def before_position_def Let_def)
qed

section \<open>The database's iterator\<close>

text \<open>C36: The iterator a client gets, over the merged memtables and blocks of a database, shows for
  each user key the newest value that is not newer than the reader's sequence number, unless that is
  a deletion (\<open>user_entries\<close>): every sequence of seeks, moves and turns returns, and shows that list.\<close>

theorem database_iterator_agrees:
  assumes "keys_sorted (InternalCompare BytewiseCompare) internal_key_ok kvs" "list_all (\<lambda>kv. ParseInternalKey (fst kv) \<noteq> None) kvs"
    "\<forall>j < length kvs. own j < length children" "\<forall>i < length children. \<exists>p. mem_or_block_at (part kvs own i) p (children ! i)"
    "seq \<le> kMaxSequenceNumber" "seeks_valid (\<lambda>u. length u + 8 < 2 ^ 32) cs"
  shows "cursor_run (DBIter_ops (MergingIterator_ops mem_or_block_ops (InternalCompare BytewiseCompare)) BytewiseCompare seq) cs
      (NewDBIterator (new_MergingIterator mem_or_block_ops children) seed) =
    Some (list_run BytewiseCompare (user_entries seq kvs) cs None)"
proof -
  obtain pos where "\<forall>i < length children. mem_or_block_at (part kvs own i) (pos i) (children ! i)" using assms(4) by metis
  then have it: "merge_on mem_or_block_ops (InternalCompare BytewiseCompare) internal_key_ok mem_or_block_at kvs None
      (new_MergingIterator mem_or_block_ops children)"
    using merge_internal.new_merged [OF assms(1)] assms(3) by blast
  have "db_entries BytewiseCompare (\<lambda>_. True) kvs"
    using assms(1,2) by (auto simp: db_entries_def keys_sorted_def internal_key_ok_def internal_valid_def list_all_iff)
  note d = db_merge.NewDBIterator_on [OF this it, of seq seed]
  have "seeks_valid (\<lambda>target. True \<and> internal_key_ok (encode_key target seq kValueTypeForSeek)) cs"
    using assms(6) by (simp add: seeks_valid_def internal_key_ok_def encode_key_bytes)
  then show ?thesis using cursor.run [OF db_merge.db_cursor [OF assms(5)] d] by blast
qed

theorem database_iterator_agrees_witness:
  defines "a \<equiv> encode_key [97] 3 kTypeDeletion" and "b \<equiv> encode_key [97] 1 kTypeValue" and "c \<equiv> encode_key [98] 2 kTypeValue"
  shows "\<exists>it. cursor_run (DBIter_ops (MergingIterator_ops mem_or_block_ops (InternalCompare BytewiseCompare)) BytewiseCompare 2) [CFirst, CNext, CPrev, CNext]
      (NewDBIterator (new_MergingIterator mem_or_block_ops [Inl (MemTable_NewIterator (new_SkipList [])), Inr it]) 7) =
    Some [Some ([97], [1]), Some ([98], [2]), Some ([97], [1]), Some ([98], [2])]"
proof -
  let ?kvs = "[(a, []), (b, [1]), (c, [2])] :: entries"
  have s: "keys_sorted (InternalCompare BytewiseCompare) internal_key_ok ?kvs"
  proof -
    have "InternalCompare BytewiseCompare a b < 0" "InternalCompare BytewiseCompare a c < 0" "InternalCompare BytewiseCompare b c < 0"
      "length a = 9" "length b = 9" "length c = 9" unfolding a_def b_def c_def by code_simp+
    then show ?thesis by (simp add: keys_sorted_def internal_key_ok_def)
  qed
  then have s': "keys_sorted (InternalCompare BytewiseCompare) (internal_valid (\<lambda>_. True)) ?kvs"
    by (auto simp: keys_sorted_def internal_key_ok_def internal_valid_def)
  have parse: "list_all (\<lambda>kv. ParseInternalKey (fst kv) \<noteq> None) ?kvs" unfolding a_def b_def c_def by code_simp
  have us: "user_entries 2 ?kvs = [([97], [1]), ([98], [2])]" unfolding a_def b_def c_def by code_simp
  have "length (build_block 2 ?kvs) = 49" unfolding a_def b_def c_def by code_simp
  then have "length (build_block 2 ?kvs) < 2 ^ 32" by simp
  from internal_bytewise.build_block_iterator [OF s' _ this] obtain it where
    it: "block_on (InternalCompare BytewiseCompare) (internal_valid (\<lambda>_. True)) ?kvs None it" by auto
  have p: "part ?kvs (\<lambda>_. 1) (Suc 0) = ?kvs" "part ?kvs (\<lambda>_. 1) 0 = []" by (simp_all add: part_def)
  have "mem_on BytewiseCompare (\<lambda>_. True) [] None (MemTable_NewIterator (new_SkipList []))"
    unfolding MemTable_NewIterator_def by (rule mem_onI [OF new_SkipList_wf]) simp_all
  then have "\<forall>i < length [Inl (MemTable_NewIterator (new_SkipList [])), Inr it].
      \<exists>p. mem_or_block_at (part ?kvs (\<lambda>_. 1) i) p ([Inl (MemTable_NewIterator (new_SkipList [])), Inr it] ! i)"
    using it p by (auto simp: less_Suc_eq mem_or_block_at_def either_at_def simp del: One_nat_def)
  then show ?thesis
    using database_iterator_agrees [OF s parse, of "\<lambda>_. 1" "[Inl (MemTable_NewIterator (new_SkipList [])), Inr it]" 2 "[CFirst, CNext, CPrev, CNext]" 7]
    unfolding us by (auto simp: position_def before_position_def Let_def kMaxSequenceNumber_def)
qed

text \<open>A header of an entry whose two lengths add up to more than 32 bits passes the test in
  \<open>DecodeEntry\<close>, which adds them as 32-bit integers: a block of 15 bytes is enough to make the iterator
  leave it.\<close>

lemma DecodeEntry_wraps:
  defines "data \<equiv> [0, 255, 255, 255, 255, 15, 1, 0, 0, 0, 0, 1, 0, 0, 0] :: bytes"
  shows "Block_NewIterator (new_Block data) = BlockIterator (new_BlockIter data 7 1)"
    and "DecodeEntry data 0 7 = Some (0, 0xFFFFFFFF, 1, 7)" and "BlockIter_SeekToFirst (new_BlockIter data 7 1) = None"
proof -
  have len: "length data = 15" by (simp add: data_def)
  have "DecodeFixed32 (drop 7 data) = 0" unfolding data_def by code_simp
  then have r: "unat (DecodeFixed32 (drop 7 data)) = 0" by simp
  have n: "NumRestarts data 15 = 1" unfolding data_def by code_simp
  show "Block_NewIterator (new_Block data) = BlockIterator (new_BlockIter data 7 1)"
    using n len by (simp add: Block_NewIterator_def new_Block_def Let_def)
  show d: "DecodeEntry data 0 7 = Some (0, 0xFFFFFFFF, 1, 7)" unfolding data_def by code_simp
  show "BlockIter_SeekToFirst (new_BlockIter data 7 1) = None"
    using d by (simp add: BlockIter_SeekToFirst_def ParseNextKey_def SeekToRestartPoint_def NextEntryOffset_def new_BlockIter_def
      GetRestartPoint_def r len Let_def)
qed

section \<open>Tables\<close>

text \<open>Bytewise order on keys of bounded length, for tables of known size.\<close>

lemma bytewise_bounded:
  "comparator BytewiseCompare BytewiseFindShortestSeparator BytewiseFindShortSuccessor (\<lambda>k. length k \<le> L)"
proof
  show "length (BytewiseFindShortestSeparator a b) \<le> L \<and> BytewiseCompare a (BytewiseFindShortestSeparator a b) \<le> 0 \<and>
      BytewiseCompare (BytewiseFindShortestSeparator a b) b < 0"
    if "length a \<le> L" "length b \<le> L" "BytewiseCompare a b < 0" for a b
    using that bytewise_separator [of a b] by (auto simp: BytewiseCompare_def Slice_compare_order split: if_splits)
  show "length (BytewiseFindShortSuccessor a) \<le> L \<and> BytewiseCompare a (BytewiseFindShortSuccessor a) \<le> 0" if "length a \<le> L" for a
    using that short_successor [of a 0 "length a"]
    by (auto simp: BytewiseCompare_def Slice_compare_order BytewiseFindShortSuccessor_def)
  show "BytewiseCompare a b = 0 \<longleftrightarrow> a = b" "BytewiseCompare a b < 0 \<longleftrightarrow> 0 < BytewiseCompare b a"
    "BytewiseFindShortestSeparator a a = a" for a b
    by (simp_all only: bytewise.compare_eq bytewise.compare_swap bytewise.separator_same)
  show "BytewiseCompare a c < 0" if "BytewiseCompare a b < 0" "BytewiseCompare b c < 0" for a b c
    by (rule bytewise.compare_trans [OF TrueI TrueI TrueI that])
qed

text \<open>The table that was built, opened through a memory mapping.\<close>

lemma table_opens:
  assumes "comparator_of (o_comparator opt) valid" "keys_sorted (Compare (o_comparator opt)) valid kvs"
    "1 \<le> o_block_restart_interval opt" "takes_bytes answers"
  shows "\<exists>tb ds seps. build_table (PosixWritableFile e) opt kvs (new_PosixWritableFile name \<lparr>fd_bytes = [], fd_answers = answers\<rparr>) = Some (OK, tb) \<and>
    posix_contents (tb_file tb) = table_bytes opt ds seps \<and> table_of (Compare (o_comparator opt)) valid kvs ds seps \<and>
    TableBuilder_NumEntries tb = of_nat (length kvs) \<and> TableBuilder_FileSize tb = of_nat (length (table_bytes opt ds seps)) \<and>
    (length (table_bytes opt ds seps) < 2 ^ 32 \<longrightarrow>
      (let read = Mmap_Read e \<lparr>mm_base = table_bytes opt ds seps, mm_filename = name\<rparr>
       in table_stored read opt valid kvs ds seps \<and>
          (\<exists>tab. Table_Open opt read (TableBuilder_FileSize tb) = Some (OK, Some tab) \<and> opened read opt ds seps tab)))"
proof -
  let ?f = "new_PosixWritableFile name \<lparr>fd_bytes = [], fd_answers = answers\<rparr>"
  have f: "posix_good ?f" "posix_contents ?f = []"
    using assms(4) by (simp_all add: posix_good_def posix_contents_def new_PosixWritableFile_def)
  obtain tb ds seps where b: "build_table (PosixWritableFile e) opt kvs ?f = Some (OK, tb)"
    "wrote posix_contents posix_good (table_bytes opt ds seps) tb" "TableBuilder_NumEntries tb = of_nat (length kvs)"
    "table_of (Compare (o_comparator opt)) valid kvs ds seps"
    using posix_writable.build_table_bytes [OF assms(1,2) f] by blast
  have w: "posix_contents (tb_file tb) = table_bytes opt ds seps" "TableBuilder_FileSize tb = of_nat (length (table_bytes opt ds seps))"
    using b(2) by (simp_all add: wrote_def TableBuilder_FileSize_def)
  let ?read = "Mmap_Read e \<lparr>mm_base = table_bytes opt ds seps, mm_filename = name\<rparr>"
  have s: "table_stored ?read opt valid kvs ds seps" if "length (table_bytes opt ds seps) < 2 ^ 32"
    using assms(1-3) b(4) that mmap.random_access_file_axioms [of e "\<lparr>mm_base = table_bytes opt ds seps, mm_filename = name\<rparr>"]
    by (simp add: table_stored_def)
  show ?thesis using b(1,3,4) w s Open_stored [OF s] by (auto simp: Let_def)
qed

text \<open>C37: A table that is written through a POSIX file from a sorted list of entries, and opened through
  a memory mapping, is a cursor in that list: for every order of the keys, block size, restart interval,
  compression and filter the builder returns without an error, counts the entries and knows the size of
  the file, the file opens, and every sequence of seeks and of moves returns and shows the keys and
  values of the list.\<close>

theorem table_cursor_agrees:
  assumes "comparator_of (o_comparator opt) valid" "keys_sorted (Compare (o_comparator opt)) valid kvs"
    "1 \<le> o_block_restart_interval opt" "takes_bytes answers" "seeks_valid valid cs"
  shows "\<exists>tb. build_table (PosixWritableFile e) opt kvs (new_PosixWritableFile name \<lparr>fd_bytes = [], fd_answers = answers\<rparr>) = Some (OK, tb) \<and>
    TableBuilder_NumEntries tb = of_nat (length kvs) \<and> TableBuilder_FileSize tb = of_nat (length (posix_contents (tb_file tb))) \<and>
    (length (posix_contents (tb_file tb)) < 2 ^ 32 \<longrightarrow>
      (\<exists>tab. Table_Open opt (Mmap_Read e \<lparr>mm_base = posix_contents (tb_file tb), mm_filename = name\<rparr>) (TableBuilder_FileSize tb) =
          Some (OK, Some tab) \<and>
        cursor_run (table_ops tab verify) cs (Table_NewIterator tab) = Some (list_run (Compare (o_comparator opt)) kvs cs None)))"
proof -
  obtain tb ds seps where b: "build_table (PosixWritableFile e) opt kvs (new_PosixWritableFile name \<lparr>fd_bytes = [], fd_answers = answers\<rparr>) = Some (OK, tb)"
    "posix_contents (tb_file tb) = table_bytes opt ds seps" "TableBuilder_NumEntries tb = of_nat (length kvs)"
    "TableBuilder_FileSize tb = of_nat (length (table_bytes opt ds seps))"
    "length (table_bytes opt ds seps) < 2 ^ 32 \<longrightarrow>
      (let read = Mmap_Read e \<lparr>mm_base = table_bytes opt ds seps, mm_filename = name\<rparr>
       in table_stored read opt valid kvs ds seps \<and>
          (\<exists>tab. Table_Open opt read (TableBuilder_FileSize tb) = Some (OK, Some tab) \<and> opened read opt ds seps tab))"
    using table_opens [OF assms(1-4), of e name] by blast
  have "cursor_run (table_ops tab verify) cs (Table_NewIterator tab) = Some (list_run (Compare (o_comparator opt)) kvs cs None)"
    if "table_stored read opt valid kvs ds seps" "opened read opt ds seps tab" for read tab
  proof -
    have o: "tab_options tab = opt" using that(2) by (simp add: opened_def)
    have "comparator_of (o_comparator (tab_options tab)) valid" using assms(1) o by simp
    from cursor.run [OF table_cursor [OF this] new_table_iterator [OF that] assms(5), of verify]
    show ?thesis by (simp add: table_compare_def o)
  qed
  then show ?thesis using b by (auto simp: Let_def)
qed

theorem table_cursor_agrees_witness:
  defines "opt \<equiv> (new_Options 0)\<lparr>o_block_size := 1\<rparr>"
  shows "\<exists>tb tab. build_table (PosixWritableFile (\<lambda>_. [])) opt [([1, 2], [7]), ([2], [9])]
      (new_PosixWritableFile ''000005.ldb'' \<lparr>fd_bytes = [], fd_answers = sconst (Done 5)\<rparr>) = Some (OK, tb) \<and>
    Table_Open opt (Mmap_Read (\<lambda>_. []) \<lparr>mm_base = posix_contents (tb_file tb), mm_filename = ''000005.ldb''\<rparr>) (TableBuilder_FileSize tb) =
      Some (OK, Some tab) \<and>
    cursor_run (table_ops tab True) [CSeek [1, 3], CPrev, CPrev, CFirst, CNext] (Table_NewIterator tab) =
      Some [Some ([2], [9]), Some ([1, 2], [7]), None, Some ([1, 2], [7]), Some ([2], [9])]"
proof -
  let ?kvs = "[([1, 2], [7]), ([2], [9])] :: entries" and ?cs = "[CSeek [1, 3], CPrev, CPrev, CFirst, CNext]"
  let ?valid = "\<lambda>k. length k \<le> 2" and ?c = "o_comparator opt"
  have opt: "Compare ?c = BytewiseCompare" "o_filter_policy opt = None" "1 \<le> o_block_restart_interval opt"
    by (simp_all add: opt_def new_Options_def BytewiseComparator_def)
  have c: "comparator_of ?c ?valid" using bytewise_bounded [of 2] by (simp add: opt_def new_Options_def BytewiseComparator_def)
  have s: "keys_sorted (Compare ?c) ?valid ?kvs" unfolding opt keys_sorted_def by code_simp
  have answers: "takes_bytes (sconst (Done 5))" by (auto simp: takes_bytes_def snth_siterate)
  have run: "list_run BytewiseCompare ?kvs ?cs None = [Some ([2], [9]), Some ([1, 2], [7]), None, Some ([1, 2], [7]), Some ([2], [9])]"
    by code_simp
  note agrees = table_cursor_agrees [OF c s opt(3) answers, of ?cs "\<lambda>_. []" "''000005.ldb''" True, unfolded opt(1) run]
  obtain tb ds seps where tb: "build_table (PosixWritableFile (\<lambda>_. [])) opt ?kvs
      (new_PosixWritableFile ''000005.ldb'' \<lparr>fd_bytes = [], fd_answers = sconst (Done 5)\<rparr>) = Some (OK, tb)"
    "posix_contents (tb_file tb) = table_bytes opt ds seps" "table_of (Compare ?c) ?valid ?kvs ds seps"
    using table_opens [OF c s opt(3) answers, of "\<lambda>_. []" "''000005.ldb''"] by blast
  have "length (table_bytes opt ds seps) \<le> 74 + length ?kvs * (52 + 2) + entries_room ?kvs"
    by (rule length_table_bytes [OF tb(3) _ opt(2)])
  then have "length (posix_contents (tb_file tb)) < 2 ^ 32" unfolding tb(2) by (simp add: entries_room_def)
  then show ?thesis using agrees tb(1) by auto
qed

text \<open>C38: A search for one key in such a table returns without an error, gives only what the list has at
  the first key that is not before the one sought, and misses no key that is there, with a filter (of any
  policy that keeps its contract) or without.\<close>

theorem table_get_finds:
  assumes "comparator_of (o_comparator opt) valid" "keys_sorted (Compare (o_comparator opt)) valid kvs"
    "1 \<le> o_block_restart_interval opt" "takes_bytes answers" "valid k"
    "\<forall>name pol. o_filter_policy opt = Some (name, pol) \<longrightarrow> filter_policy pol valid"
  shows "\<exists>tb. build_table (PosixWritableFile e) opt kvs (new_PosixWritableFile name \<lparr>fd_bytes = [], fd_answers = answers\<rparr>) = Some (OK, tb) \<and>
    (length (posix_contents (tb_file tb)) < 2 ^ 32 \<longrightarrow>
      (\<exists>tab result. Table_Open opt (Mmap_Read e \<lparr>mm_base = posix_contents (tb_file tb), mm_filename = name\<rparr>) (TableBuilder_FileSize tb) =
          Some (OK, Some tab) \<and>
        InternalGet tab verify k = Some (OK, result) \<and>
        (case result of
           Some kv \<Rightarrow> lower_bound (Compare (o_comparator opt)) k kvs < length kvs \<and> kv = kvs ! lower_bound (Compare (o_comparator opt)) k kvs
         | None \<Rightarrow> k \<notin> fst ` set kvs)))"
proof -
  obtain tb ds seps where b: "build_table (PosixWritableFile e) opt kvs (new_PosixWritableFile name \<lparr>fd_bytes = [], fd_answers = answers\<rparr>) = Some (OK, tb)"
    "posix_contents (tb_file tb) = table_bytes opt ds seps"
    "length (table_bytes opt ds seps) < 2 ^ 32 \<longrightarrow>
      (let read = Mmap_Read e \<lparr>mm_base = table_bytes opt ds seps, mm_filename = name\<rparr>
       in table_stored read opt valid kvs ds seps \<and>
          (\<exists>tab. Table_Open opt read (TableBuilder_FileSize tb) = Some (OK, Some tab) \<and> opened read opt ds seps tab))"
    using table_opens [OF assms(1-4), of e name] by blast
  have "\<exists>result. InternalGet tab verify k = Some (OK, result) \<and>
      (case result of
         Some kv \<Rightarrow> lower_bound (Compare (o_comparator opt)) k kvs < length kvs \<and> kv = kvs ! lower_bound (Compare (o_comparator opt)) k kvs
       | None \<Rightarrow> k \<notin> fst ` set kvs)"
    if "table_stored read opt valid kvs ds seps" "opened read opt ds seps tab" for read tab
    by (rule InternalGet_stored [OF that assms(5)]) (use assms(6) in blast)
  then show ?thesis using b by (auto simp: Let_def)
qed

lemma filter_events_one: "filter_events n [es] [] = Block 0 # map (\<lambda>kv. Key (fst kv)) es @ [block_event n [es]]"
  by (simp add: filter_events_def)

lemma length_filter_one: "length (filter_contents 16 [[([1], [2])]] (BloomPolicy 10)) = 18"
proof -
  have "length (build_block 16 [([1], [2])]) = 13" by code_simp
  then have "length (table_data 16 [[([1], [2])]]) = 18" by (simp add: table_data_def)
  then show ?thesis
    by (simp add: filter_contents_def filter_of_def filter_events_one block_event_def FilterFinish_def GenerateFilter_def StartBlock_def
        AddKey_def new_FilterBlockBuilder_def BloomPolicy_def BloomCreateFilter_def bloom_bytes_def new_BloomFilterPolicy_def PutFixed32_def
        kFilterBase_def kFilterBaseLg_def Let_def generate_until.simps [of _ 0])
qed

theorem table_get_finds_witness:
  defines "opt \<equiv> (new_Options 0)\<lparr>o_filter_policy := Some ([98], BloomPolicy 10)\<rparr>"
  shows "\<exists>tb tab. build_table (PosixWritableFile (\<lambda>_. [])) opt [([1], [2])]
      (new_PosixWritableFile ''000005.ldb'' \<lparr>fd_bytes = [], fd_answers = sconst (Done 5)\<rparr>) = Some (OK, tb) \<and>
    Table_Open opt (Mmap_Read (\<lambda>_. []) \<lparr>mm_base = posix_contents (tb_file tb), mm_filename = ''000005.ldb''\<rparr>) (TableBuilder_FileSize tb) =
      Some (OK, Some tab) \<and> InternalGet tab True [1] = Some (OK, Some ([1], [2]))"
proof -
  let ?kvs = "[([1], [2])] :: entries" and ?valid = "\<lambda>k :: bytes. length k \<le> 2" and ?c = "o_comparator opt"
  have opt: "Compare ?c = BytewiseCompare" "o_filter_policy opt = Some ([98], BloomPolicy 10)" "o_block_restart_interval opt = 16"
    by (simp_all add: opt_def new_Options_def BytewiseComparator_def)
  have c: "comparator_of ?c ?valid" using bytewise_bounded [of 2] by (simp add: opt_def new_Options_def BytewiseComparator_def)
  have s: "keys_sorted (Compare ?c) ?valid ?kvs" by (simp add: keys_sorted_def)
  have answers: "takes_bytes (sconst (Done 5))" by (auto simp: takes_bytes_def snth_siterate)
  have n: "1 \<le> o_block_restart_interval opt" using opt(3) by simp
  have flt: "filter_policy (BloomPolicy 10) ?valid" using bloom.create [where n = 10] by unfold_locales simp
  note finds = table_get_finds [OF c s n answers, of "[1]" "\<lambda>_. []" "''000005.ldb''" True]
  obtain tb ds seps where tb: "build_table (PosixWritableFile (\<lambda>_. [])) opt ?kvs
      (new_PosixWritableFile ''000005.ldb'' \<lparr>fd_bytes = [], fd_answers = sconst (Done 5)\<rparr>) = Some (OK, tb)"
    "posix_contents (tb_file tb) = table_bytes opt ds seps" "table_of (Compare ?c) ?valid ?kvs ds seps"
    using table_opens [OF c s n answers, of "\<lambda>_. []" "''000005.ldb''"] by blast
  have t: "concat ds = ?kvs" "[] \<notin> set ds" "length seps = length ds" "separates (Compare ?c) ?valid seps ds []"
    using tb(3) by (simp_all add: table_of_def)
  have ds: "ds = [?kvs]"
  proof (cases ds)
    case (Cons es ds')
    then show ?thesis using t(1,2) by (cases es; cases ds') auto
  qed (use t(1) in simp)
  have "length (index_block opt ds seps) \<le> 8 + length seps * (39 + 2)" by (rule length_index) (use separates_nth(1) [OF t(4)] in blast)
  moreover have "length (meta_block opt ds) \<le> 8 + (19 + 8 + 20)"
    using length_build_block [of 16 "meta_entries opt ds"] length_handle
    by (fastforce simp: meta_block_def opt meta_entries_def entries_room_def filter_key_def kMaxEncodedLength_def Let_def intro: order_trans)
  moreover have "length (table_data 16 ds) \<le> 13 + entries_room ?kvs" using length_table_data [OF t(2), of 16] t(1) by simp
  ultimately have "length (posix_contents (tb_file tb)) < 2 ^ 32"
    using length_filter_one t(3) unfolding tb(2)
    by (simp add: table_bytes_def before_meta_def filter_part_def opt ds length_footer kEncodedLength_def kMaxEncodedLength_def entries_room_def)
  then show ?thesis using finds flt opt(2) tb(1) by (auto split: option.splits)
qed

end
