(* ===== verification/LdbVersionEdit.thy ===== *)
theory LdbVersionEdit
  imports LdbBatch
begin

text \<open>
  Edits of the set of files of a database (db/version_edit.h, db/version_edit.cc), the records of a
  manifest. The set of deleted files is the list of its elements in order.
\<close>

subsection \<open>Edits\<close>

record FileMetaData =
  fm_refs :: int
  fm_allowed_seeks :: int
  fm_number :: u64
  fm_file_size :: u64
  fm_smallest :: bytes
  fm_largest :: bytes

definition kNumLevels :: nat where "kNumLevels = 7"

record VersionEdit =
  ve_comparator :: bytes
  ve_log_number :: u64
  ve_prev_log_number :: u64
  ve_next_file_number :: u64
  ve_last_sequence :: u64
  ve_has_comparator :: bool
  ve_has_log_number :: bool
  ve_has_prev_log_number :: bool
  ve_has_next_file_number :: bool
  ve_has_last_sequence :: bool
  ve_compact_pointers :: "(nat \<times> bytes) list"
  ve_deleted_files :: "(nat \<times> u64) list"
  ve_new_files :: "(nat \<times> FileMetaData) list"

definition Edit_Clear :: "VersionEdit \<Rightarrow> VersionEdit" where
  "Edit_Clear e =
     e\<lparr>ve_comparator := [], ve_log_number := 0, ve_prev_log_number := 0, ve_last_sequence := 0, ve_next_file_number := 0,
       ve_has_comparator := False, ve_has_log_number := False, ve_has_prev_log_number := False, ve_has_next_file_number := False,
       ve_has_last_sequence := False, ve_deleted_files := [], ve_new_files := []\<rparr>"

text \<open>A new edit; its vectors are empty.\<close>

definition new_VersionEdit :: VersionEdit where
  "new_VersionEdit =
     \<lparr>ve_comparator = [], ve_log_number = 0, ve_prev_log_number = 0, ve_next_file_number = 0, ve_last_sequence = 0,
      ve_has_comparator = False, ve_has_log_number = False, ve_has_prev_log_number = False, ve_has_next_file_number = False,
      ve_has_last_sequence = False, ve_compact_pointers = [], ve_deleted_files = [], ve_new_files = []\<rparr>"

definition SetComparatorName :: "bytes \<Rightarrow> VersionEdit \<Rightarrow> VersionEdit" where
  "SetComparatorName name e = e\<lparr>ve_has_comparator := True, ve_comparator := name\<rparr>"

definition SetLogNumber :: "u64 \<Rightarrow> VersionEdit \<Rightarrow> VersionEdit" where
  "SetLogNumber num e = e\<lparr>ve_has_log_number := True, ve_log_number := num\<rparr>"

definition SetPrevLogNumber :: "u64 \<Rightarrow> VersionEdit \<Rightarrow> VersionEdit" where
  "SetPrevLogNumber num e = e\<lparr>ve_has_prev_log_number := True, ve_prev_log_number := num\<rparr>"

definition SetNextFile :: "u64 \<Rightarrow> VersionEdit \<Rightarrow> VersionEdit" where
  "SetNextFile num e = e\<lparr>ve_has_next_file_number := True, ve_next_file_number := num\<rparr>"

definition SetLastSequence :: "u64 \<Rightarrow> VersionEdit \<Rightarrow> VersionEdit" where
  "SetLastSequence seq e = e\<lparr>ve_has_last_sequence := True, ve_last_sequence := seq\<rparr>"

definition SetCompactPointer :: "nat \<Rightarrow> bytes \<Rightarrow> VersionEdit \<Rightarrow> VersionEdit" where
  "SetCompactPointer lvl key e = e\<lparr>ve_compact_pointers := ve_compact_pointers e @ [(lvl, key)]\<rparr>"

definition new_FileMetaData :: FileMetaData where
  "new_FileMetaData = \<lparr>fm_refs = 0, fm_allowed_seeks = 2 ^ 30, fm_number = 0, fm_file_size = 0, fm_smallest = [], fm_largest = []\<rparr>"

definition AddFile :: "nat \<Rightarrow> u64 \<Rightarrow> u64 \<Rightarrow> bytes \<Rightarrow> bytes \<Rightarrow> VersionEdit \<Rightarrow> VersionEdit" where
  "AddFile lvl file file_size smallest largest e =
     e\<lparr>ve_new_files := ve_new_files e @
        [(lvl, new_FileMetaData\<lparr>fm_number := file, fm_file_size := file_size, fm_smallest := smallest, fm_largest := largest\<rparr>)]\<rparr>"

definition file_before :: "nat \<times> u64 \<Rightarrow> nat \<times> u64 \<Rightarrow> bool" where
  "file_before x y \<longleftrightarrow> fst x < fst y \<or> fst x = fst y \<and> snd x < snd y"

fun insert_file :: "nat \<times> u64 \<Rightarrow> (nat \<times> u64) list \<Rightarrow> (nat \<times> u64) list" where
  "insert_file x [] = [x]"
| "insert_file x (y # ys) = (if file_before x y then x # y # ys else if x = y then y # ys else y # insert_file x ys)"

definition Edit_DeleteFile :: "nat \<Rightarrow> u64 \<Rightarrow> VersionEdit \<Rightarrow> VersionEdit" where
  "Edit_DeleteFile lvl file e = e\<lparr>ve_deleted_files := insert_file (lvl, file) (ve_deleted_files e)\<rparr>"

subsection \<open>Encoding\<close>

datatype edit_tag = kComparator | kLogNumber | kNextFileNumber | kLastSequence | kCompactPointer | kDeletedFile | kNewFile | kPrevLogNumber

definition edit_tag_num :: "edit_tag \<Rightarrow> u32" where
  "edit_tag_num t =
     (case t of kComparator \<Rightarrow> 1 | kLogNumber \<Rightarrow> 2 | kNextFileNumber \<Rightarrow> 3 | kLastSequence \<Rightarrow> 4 | kCompactPointer \<Rightarrow> 5
      | kDeletedFile \<Rightarrow> 6 | kNewFile \<Rightarrow> 7 | kPrevLogNumber \<Rightarrow> 9)"

definition put_number :: "bool \<Rightarrow> edit_tag \<Rightarrow> u64 \<Rightarrow> bytes \<Rightarrow> bytes" where
  "put_number has t num dst = (if has then PutVarint64 (PutVarint32 dst (edit_tag_num t)) num else dst)"

definition put_pointer :: "nat \<times> bytes \<Rightarrow> bytes \<Rightarrow> bytes" where
  "put_pointer p dst =
     PutLengthPrefixedSlice (PutVarint32 (PutVarint32 dst (edit_tag_num kCompactPointer)) (of_nat (fst p))) (snd p)"

definition put_deleted :: "nat \<times> u64 \<Rightarrow> bytes \<Rightarrow> bytes" where
  "put_deleted x dst = PutVarint64 (PutVarint32 (PutVarint32 dst (edit_tag_num kDeletedFile)) (of_nat (fst x))) (snd x)"

definition put_file :: "nat \<times> FileMetaData \<Rightarrow> bytes \<Rightarrow> bytes" where
  "put_file x dst =
     (let f = snd x;
          dst = PutVarint32 dst (edit_tag_num kNewFile);
          dst = PutVarint32 dst (of_nat (fst x));
          dst = PutVarint64 dst (fm_number f);
          dst = PutVarint64 dst (fm_file_size f);
          dst = PutLengthPrefixedSlice dst (fm_smallest f)
      in PutLengthPrefixedSlice dst (fm_largest f))"

definition Edit_EncodeTo :: "bytes \<Rightarrow> VersionEdit \<Rightarrow> bytes" where
  "Edit_EncodeTo dst e =
     (let dst = (if ve_has_comparator e
            then PutLengthPrefixedSlice (PutVarint32 dst (edit_tag_num kComparator)) (ve_comparator e) else dst);
          dst = put_number (ve_has_log_number e) kLogNumber (ve_log_number e) dst;
          dst = put_number (ve_has_prev_log_number e) kPrevLogNumber (ve_prev_log_number e) dst;
          dst = put_number (ve_has_next_file_number e) kNextFileNumber (ve_next_file_number e) dst;
          dst = put_number (ve_has_last_sequence e) kLastSequence (ve_last_sequence e) dst;
          dst = fold put_pointer (ve_compact_pointers e) dst;
          dst = fold put_deleted (ve_deleted_files e) dst
      in fold put_file (ve_new_files e) dst)"

subsection \<open>Decoding\<close>

definition GetInternalKey :: "bytes \<Rightarrow> (bytes \<times> bytes) option" where
  "GetInternalKey input = GetLengthPrefixedSlice input"

definition GetLevel :: "bytes \<Rightarrow> (nat \<times> bytes) option" where
  "GetLevel input =
     (case GetVarint32 input of
        Some (v, input) \<Rightarrow> if unat v < kNumLevels then Some (unat v, input) else None
      | None \<Rightarrow> None)"

text \<open>One case of the switch: the edit and the rest of the input, or the message.\<close>

definition edit_case :: "u32 \<Rightarrow> bytes \<Rightarrow> VersionEdit \<Rightarrow> string + VersionEdit \<times> bytes" where
  "edit_case t input e =
     (if t = edit_tag_num kComparator
      then (case GetLengthPrefixedSlice input of
              Some (str, input) \<Rightarrow> Inr (e\<lparr>ve_comparator := str, ve_has_comparator := True\<rparr>, input)
            | None \<Rightarrow> Inl ''comparator name'')
      else if t = edit_tag_num kLogNumber
      then (case GetVarint64 input of
              Some (n, input) \<Rightarrow> Inr (e\<lparr>ve_log_number := n, ve_has_log_number := True\<rparr>, input) | None \<Rightarrow> Inl ''log number'')
      else if t = edit_tag_num kPrevLogNumber
      then (case GetVarint64 input of
              Some (n, input) \<Rightarrow> Inr (e\<lparr>ve_prev_log_number := n, ve_has_prev_log_number := True\<rparr>, input)
            | None \<Rightarrow> Inl ''previous log number'')
      else if t = edit_tag_num kNextFileNumber
      then (case GetVarint64 input of
              Some (n, input) \<Rightarrow> Inr (e\<lparr>ve_next_file_number := n, ve_has_next_file_number := True\<rparr>, input)
            | None \<Rightarrow> Inl ''next file number'')
      else if t = edit_tag_num kLastSequence
      then (case GetVarint64 input of
              Some (n, input) \<Rightarrow> Inr (e\<lparr>ve_last_sequence := n, ve_has_last_sequence := True\<rparr>, input)
            | None \<Rightarrow> Inl ''last sequence number'')
      else if t = edit_tag_num kCompactPointer
      then (case Option.bind (GetLevel input) (\<lambda>(lvl, input). map_option (\<lambda>(key, input). ((lvl, key), input)) (GetInternalKey input)) of
              Some (p, input) \<Rightarrow> Inr (e\<lparr>ve_compact_pointers := ve_compact_pointers e @ [p]\<rparr>, input)
            | None \<Rightarrow> Inl ''compaction pointer'')
      else if t = edit_tag_num kDeletedFile
      then (case Option.bind (GetLevel input) (\<lambda>(lvl, input). map_option (\<lambda>(number, input). ((lvl, number), input)) (GetVarint64 input)) of
              Some (x, input) \<Rightarrow> Inr (e\<lparr>ve_deleted_files := insert_file x (ve_deleted_files e)\<rparr>, input)
            | None \<Rightarrow> Inl ''deleted file'')
      else if t = edit_tag_num kNewFile
      then (case Option.bind (GetLevel input) (\<lambda>(lvl, input).
                 Option.bind (GetVarint64 input) (\<lambda>(number, input).
                 Option.bind (GetVarint64 input) (\<lambda>(file_size, input).
                 Option.bind (GetInternalKey input) (\<lambda>(smallest, input).
                 Option.bind (GetInternalKey input) (\<lambda>(largest, input).
                   Some ((lvl, new_FileMetaData\<lparr>fm_number := number, fm_file_size := file_size, fm_smallest := smallest,
                     fm_largest := largest\<rparr>), input)))))) of
              Some (x, input) \<Rightarrow> Inr (e\<lparr>ve_new_files := ve_new_files e @ [x]\<rparr>, input)
            | None \<Rightarrow> Inl ''new-file entry'')
      else Inl ''unknown tag'')"

lemma varint_shorter:
  "GetVarint32 p = Some (v, q) \<Longrightarrow> length q < length p" "GetVarint64 p = Some (w, q) \<Longrightarrow> length q < length p"
  using GetVarint_bound [of p] by fastforce+

lemma GetLevel_shorter: "GetLevel p = Some (v, q) \<Longrightarrow> length q < length p"
  by (auto simp: GetLevel_def dest: varint_shorter split: option.splits if_splits)

lemma edit_case_shorter: "edit_case t input e = Inr (e', rest) \<Longrightarrow> length rest \<le> length input"
  unfolding edit_case_def GetInternalKey_def
  by (auto dest!: varint_shorter GetLevel_shorter GetLengthPrefixedSlice_shorter split: option.splits if_splits simp: bind_eq_Some_conv)

text \<open>The loop ends with a message or with what is left of the input.\<close>

function edit_loop :: "bytes \<Rightarrow> VersionEdit \<Rightarrow> string + VersionEdit \<times> bytes" where
  "edit_loop input e =
     (case GetVarint32 input of
        None \<Rightarrow> Inr (e, input)
      | Some (t, rest) \<Rightarrow> (case edit_case t rest e of Inl msg \<Rightarrow> Inl msg | Inr (e, rest) \<Rightarrow> edit_loop rest e))"
  by pat_completeness auto
termination
  by (relation "measure (\<lambda>(input, e). length input)") (auto dest!: edit_case_shorter varint_shorter)

declare edit_loop.simps [simp del]

text \<open>The edit is only used when the status is OK.\<close>

definition Edit_DecodeFrom :: "bytes \<Rightarrow> VersionEdit \<Rightarrow> Status + VersionEdit" where
  "Edit_DecodeFrom src e =
     (case edit_loop src (Edit_Clear e) of
        Inl msg \<Rightarrow> Inl (Corruption ''VersionEdit'' msg)
      | Inr (e, input) \<Rightarrow> if input \<noteq> [] then Inl (Corruption ''VersionEdit'' ''invalid tag'') else Inr e)"

subsection \<open>Edits that the operations make\<close>

datatype edit_op =
    OpComparator bytes | OpLog u64 | OpPrevLog u64 | OpNextFile u64 | OpLastSequence u64
  | OpPointer nat bytes | OpAdd nat u64 u64 bytes bytes | OpDelete nat u64

fun edit_do :: "edit_op \<Rightarrow> VersionEdit \<Rightarrow> VersionEdit" where
  "edit_do (OpComparator name) e = SetComparatorName name e"
| "edit_do (OpLog n) e = SetLogNumber n e"
| "edit_do (OpPrevLog n) e = SetPrevLogNumber n e"
| "edit_do (OpNextFile n) e = SetNextFile n e"
| "edit_do (OpLastSequence n) e = SetLastSequence n e"
| "edit_do (OpPointer lvl key) e = SetCompactPointer lvl key e"
| "edit_do (OpAdd lvl file file_size smallest largest) e = AddFile lvl file file_size smallest largest e"
| "edit_do (OpDelete lvl file) e = Edit_DeleteFile lvl file e"

text \<open>The levels are those of a database, and strings have a 32-bit length.\<close>

fun edit_op_ok :: "edit_op \<Rightarrow> bool" where
  "edit_op_ok (OpComparator name) \<longleftrightarrow> length name < 2 ^ 32"
| "edit_op_ok (OpPointer lvl key) \<longleftrightarrow> lvl < kNumLevels \<and> length key < 2 ^ 32"
| "edit_op_ok (OpAdd lvl file file_size smallest largest) \<longleftrightarrow> lvl < kNumLevels \<and> length smallest < 2 ^ 32 \<and> length largest < 2 ^ 32"
| "edit_op_ok (OpDelete lvl file) \<longleftrightarrow> lvl < kNumLevels"
| "edit_op_ok op \<longleftrightarrow> True"

definition file_ok :: "nat \<times> FileMetaData \<Rightarrow> bool" where
  "file_ok x \<longleftrightarrow> fst x < kNumLevels \<and> fm_refs (snd x) = 0 \<and> fm_allowed_seeks (snd x) = 2 ^ 30 \<and>
     length (fm_smallest (snd x)) < 2 ^ 32 \<and> length (fm_largest (snd x)) < 2 ^ 32"

definition wf_edit :: "VersionEdit \<Rightarrow> bool" where
  "wf_edit e \<longleftrightarrow> length (ve_comparator e) < 2 ^ 32 \<and> (\<not> ve_has_comparator e \<longrightarrow> ve_comparator e = []) \<and>
     (\<not> ve_has_log_number e \<longrightarrow> ve_log_number e = 0) \<and> (\<not> ve_has_prev_log_number e \<longrightarrow> ve_prev_log_number e = 0) \<and>
     (\<not> ve_has_next_file_number e \<longrightarrow> ve_next_file_number e = 0) \<and> (\<not> ve_has_last_sequence e \<longrightarrow> ve_last_sequence e = 0) \<and>
     (\<forall>p \<in> set (ve_compact_pointers e). fst p < kNumLevels \<and> length (snd p) < 2 ^ 32) \<and>
     (\<forall>x \<in> set (ve_deleted_files e). fst x < kNumLevels) \<and> sorted_wrt file_before (ve_deleted_files e) \<and>
     (\<forall>x \<in> set (ve_new_files e). file_ok x)"

lemma set_insert_file: "set (insert_file x xs) = insert x (set xs)"
  by (induction xs) auto

lemma file_before_trans: "file_before x y \<Longrightarrow> file_before y z \<Longrightarrow> file_before x z"
  by (auto simp: file_before_def)

lemma file_before_linear: "\<not> file_before x y \<Longrightarrow> x \<noteq> y \<Longrightarrow> file_before y x"
  by (cases x; cases y) (auto simp: file_before_def)

lemma sorted_insert_file: "sorted_wrt file_before xs \<Longrightarrow> sorted_wrt file_before (insert_file x xs)"
proof (induction xs)
  case (Cons y ys)
  then show ?case using file_before_linear [of x y] by (auto simp: set_insert_file intro: file_before_trans)
qed simp

lemma insert_file_end: "\<forall>y \<in> set xs. file_before y x \<Longrightarrow> insert_file x xs = xs @ [x]"
proof (induction xs)
  case (Cons y ys)
  then have "file_before y x" by simp
  then have "\<not> file_before x y" "x \<noteq> y" by (auto simp: file_before_def)
  then show ?case using Cons by simp
qed simp

lemma wf_edit_do: "wf_edit e \<Longrightarrow> edit_op_ok op \<Longrightarrow> wf_edit (edit_do op e)"
  by (cases op) (auto simp: wf_edit_def file_ok_def new_FileMetaData_def SetComparatorName_def SetLogNumber_def SetPrevLogNumber_def
      SetNextFile_def SetLastSequence_def SetCompactPointer_def AddFile_def Edit_DeleteFile_def set_insert_file sorted_insert_file)

lemma wf_edit_run: "wf_edit e \<Longrightarrow> list_all edit_op_ok ops \<Longrightarrow> wf_edit (fold edit_do ops e)"
  by (induction ops arbitrary: e) (auto intro: wf_edit_do)

lemma wf_edit_new: "wf_edit new_VersionEdit"
  by (simp add: wf_edit_def new_VersionEdit_def)

subsection \<open>The round trip\<close>

lemma put_append:
  "put_number has t n dst = dst @ put_number has t n []" "put_pointer p dst = dst @ put_pointer p []"
  "put_deleted x dst = dst @ put_deleted x []" "put_file y dst = dst @ put_file y []"
  by (simp_all add: put_number_def put_pointer_def put_deleted_def put_file_def PutVarint32_def PutVarint64_def PutLengthPrefixedSlice_def Let_def)

lemma fold_put_append: "(\<And>x dst. f x dst = dst @ f x []) \<Longrightarrow> fold f xs dst = dst @ concat (map (\<lambda>x. f x []) xs)"
proof (induction xs arbitrary: dst)
  case Nil
  show ?case by simp
next
  case (Cons x xs)
  have "fold f xs (f x dst) = f x dst @ concat (map (\<lambda>x. f x []) xs)" by (rule Cons.IH [OF Cons.prems])
  moreover have "f x dst = dst @ f x []" by (rule Cons.prems)
  ultimately show ?case by simp
qed

lemma Edit_EncodeTo_bytes:
  "Edit_EncodeTo [] e =
     (if ve_has_comparator e then EncodeVarint32 (edit_tag_num kComparator) @ length_prefixed (ve_comparator e) else []) @
     put_number (ve_has_log_number e) kLogNumber (ve_log_number e) [] @
     put_number (ve_has_prev_log_number e) kPrevLogNumber (ve_prev_log_number e) [] @
     put_number (ve_has_next_file_number e) kNextFileNumber (ve_next_file_number e) [] @
     put_number (ve_has_last_sequence e) kLastSequence (ve_last_sequence e) [] @
     concat (map (\<lambda>p. put_pointer p []) (ve_compact_pointers e)) @
     concat (map (\<lambda>x. put_deleted x []) (ve_deleted_files e)) @
     concat (map (\<lambda>x. put_file x []) (ve_new_files e))"
proof -
  note lists = fold_put_append [of put_pointer, OF put_append(2)] fold_put_append [of put_deleted, OF put_append(3)]
    fold_put_append [of put_file, OF put_append(4)]
  define C where "C = (if ve_has_comparator e then EncodeVarint32 (edit_tag_num kComparator) @ length_prefixed (ve_comparator e) else [])"
  have c: "(if ve_has_comparator e then PutLengthPrefixedSlice (PutVarint32 [] (edit_tag_num kComparator)) (ve_comparator e) else []) = C"
    by (simp add: C_def PutVarint32_def PutLengthPrefixedSlice_append)
  define N1 where "N1 = put_number (ve_has_log_number e) kLogNumber (ve_log_number e) []"
  define N2 where "N2 = put_number (ve_has_prev_log_number e) kPrevLogNumber (ve_prev_log_number e) []"
  define N3 where "N3 = put_number (ve_has_next_file_number e) kNextFileNumber (ve_next_file_number e) []"
  define N4 where "N4 = put_number (ve_has_last_sequence e) kLastSequence (ve_last_sequence e) []"
  have n: "put_number (ve_has_log_number e) kLogNumber (ve_log_number e) dst = dst @ N1"
    "put_number (ve_has_prev_log_number e) kPrevLogNumber (ve_prev_log_number e) dst = dst @ N2"
    "put_number (ve_has_next_file_number e) kNextFileNumber (ve_next_file_number e) dst = dst @ N3"
    "put_number (ve_has_last_sequence e) kLastSequence (ve_last_sequence e) dst = dst @ N4" for dst
    unfolding N1_def N2_def N3_def N4_def by (rule put_append(1))+
  show ?thesis
    unfolding Edit_EncodeTo_def Let_def c n lists C_def [symmetric] append_assoc append_Nil ..
qed

lemma unat_lvl: "l < kNumLevels \<Longrightarrow> unat (of_nat l :: u32) = l"
  by (intro unat_of_nat_32) (simp add: kNumLevels_def)

lemma loop_comparator:
  "length name < 2 ^ 32 \<Longrightarrow> edit_loop (EncodeVarint32 (edit_tag_num kComparator) @ length_prefixed name @ r) e =
   edit_loop r (e\<lparr>ve_comparator := name, ve_has_comparator := True\<rparr>)"
  by (subst edit_loop.simps) (simp add: GetVarint32_put edit_case_def GetLengthPrefixedSlice_put)

lemma loop_numbers:
  "edit_loop (put_number has kLogNumber n [] @ r) e = edit_loop r (if has then e\<lparr>ve_log_number := n, ve_has_log_number := True\<rparr> else e)"
  "edit_loop (put_number has kPrevLogNumber n [] @ r) e = edit_loop r (if has then e\<lparr>ve_prev_log_number := n, ve_has_prev_log_number := True\<rparr> else e)"
  "edit_loop (put_number has kNextFileNumber n [] @ r) e = edit_loop r (if has then e\<lparr>ve_next_file_number := n, ve_has_next_file_number := True\<rparr> else e)"
  "edit_loop (put_number has kLastSequence n [] @ r) e = edit_loop r (if has then e\<lparr>ve_last_sequence := n, ve_has_last_sequence := True\<rparr> else e)"
  by (simp_all add: put_number_def PutVarint32_def PutVarint64_def)
    (subst edit_loop.simps, simp add: GetVarint32_put GetVarint64_put edit_case_def edit_tag_num_def)+

lemma loop_pointer:
  "fst p < kNumLevels \<Longrightarrow> length (snd p) < 2 ^ 32 \<Longrightarrow>
   edit_loop (put_pointer p [] @ r) e = edit_loop r (e\<lparr>ve_compact_pointers := ve_compact_pointers e @ [p]\<rparr>)"
  by (subst edit_loop.simps) (simp add: put_pointer_def PutVarint32_def PutLengthPrefixedSlice_append GetVarint32_put edit_case_def
      edit_tag_num_def GetLevel_def GetInternalKey_def GetLengthPrefixedSlice_put unat_lvl)

lemma loop_deleted:
  "fst x < kNumLevels \<Longrightarrow> edit_loop (put_deleted x [] @ r) e = edit_loop r (e\<lparr>ve_deleted_files := insert_file x (ve_deleted_files e)\<rparr>)"
  by (subst edit_loop.simps) (simp add: put_deleted_def PutVarint32_def PutVarint64_def GetVarint32_put GetVarint64_put edit_case_def
      edit_tag_num_def GetLevel_def unat_lvl)

lemma loop_file:
  "file_ok x \<Longrightarrow> edit_loop (put_file x [] @ r) e = edit_loop r (e\<lparr>ve_new_files := ve_new_files e @ [x]\<rparr>)"
  by (cases x; cases "snd x"; subst edit_loop.simps) (simp add: put_file_def Let_def PutVarint32_def PutVarint64_def PutLengthPrefixedSlice_append GetVarint32_put
      GetVarint64_put edit_case_def edit_tag_num_def GetLevel_def GetInternalKey_def GetLengthPrefixedSlice_put unat_lvl file_ok_def
      new_FileMetaData_def)

lemma loop_pointers:
  "\<forall>p \<in> set ps. fst p < kNumLevels \<and> length (snd p) < 2 ^ 32 \<Longrightarrow>
   edit_loop (concat (map (\<lambda>p. put_pointer p []) ps) @ r) e = edit_loop r (e\<lparr>ve_compact_pointers := ve_compact_pointers e @ ps\<rparr>)"
  by (induction ps arbitrary: e) (simp_all add: loop_pointer)

lemma loop_deleteds:
  "\<forall>x \<in> set xs. fst x < kNumLevels \<Longrightarrow> sorted_wrt file_before (ve_deleted_files e @ xs) \<Longrightarrow>
   edit_loop (concat (map (\<lambda>x. put_deleted x []) xs) @ r) e = edit_loop r (e\<lparr>ve_deleted_files := ve_deleted_files e @ xs\<rparr>)"
proof (induction xs arbitrary: e)
  case (Cons x xs)
  then have "insert_file x (ve_deleted_files e) = ve_deleted_files e @ [x]" by (intro insert_file_end) (simp add: sorted_wrt_append)
  then show ?case using Cons by (simp add: loop_deleted)
qed simp

lemma loop_files:
  "\<forall>x \<in> set xs. file_ok x \<Longrightarrow>
   edit_loop (concat (map (\<lambda>x. put_file x []) xs) @ r) e = edit_loop r (e\<lparr>ve_new_files := ve_new_files e @ xs\<rparr>)"
  by (induction xs arbitrary: e) (simp_all add: loop_file)

lemma edit_loop_end: "edit_loop [] e = Inr (e, [])"
  by (subst edit_loop.simps) (simp add: GetVarint32_def GetVarint32Ptr_def GetVarint32PtrFallback_def)

lemma Edit_decode_encode:
  assumes "wf_edit e"
  shows "Edit_DecodeFrom (Edit_EncodeTo [] e) e0 = Inr (e\<lparr>ve_compact_pointers := ve_compact_pointers e0 @ ve_compact_pointers e\<rparr>)"
proof -
  note wf = assms [unfolded wf_edit_def]
  have "edit_loop (Edit_EncodeTo [] e) (Edit_Clear e0) = Inr (e\<lparr>ve_compact_pointers := ve_compact_pointers e0 @ ve_compact_pointers e\<rparr>, [])"
    using wf loop_pointers [of "ve_compact_pointers e"] loop_deleteds [of "ve_deleted_files e"] loop_files [of "ve_new_files e" "[]"]
    unfolding Edit_EncodeTo_bytes
    by (cases e) (auto simp: loop_comparator loop_numbers edit_loop_end Edit_Clear_def)
  then show ?thesis by (simp add: Edit_DecodeFrom_def)
qed

end
