(* ===== verification/LdbFileName.thy ===== *)
theory LdbFileName
  imports LdbEnv
begin

text \<open>
  Decimal numbers (util/logging.cc) and the names of the files of a database (db/filename.h,
  db/filename.cc). Text is a list of characters.
\<close>

subsection \<open>Numbers\<close>

definition AppendNumberTo :: "string \<Rightarrow> u64 \<Rightarrow> string" where
  "AppendNumberTo str num = str @ decimal (unat num)"

definition NumberToString :: "u64 \<Rightarrow> string" where
  "NumberToString num = AppendNumberTo [] num"

text \<open>The loop of \<open>ConsumeDecimalNumber\<close>: the number and the rest, or none when it is too large.\<close>

definition kMaxUint64 :: u64 where "kMaxUint64 = - 1"

fun consume_loop :: "u64 \<Rightarrow> string \<Rightarrow> (u64 \<times> string) option" where
  "consume_loop val [] = Some (val, [])"
| "consume_loop val (c # cs) =
     (let ch = of_char c :: nat in
      if ch < 48 \<or> 57 < ch then Some (val, c # cs)
      else if val > kMaxUint64 div 10 \<or> val = kMaxUint64 div 10 \<and> ch > 48 + unat (kMaxUint64 mod 10) then None
      else consume_loop (val * 10 + of_nat (ch - 48)) cs)"

definition ConsumeDecimalNumber :: "string \<Rightarrow> (u64 \<times> string) option" where
  "ConsumeDecimalNumber input =
     (case consume_loop 0 input of
        None \<Rightarrow> None
      | Some (val, rest) \<Rightarrow> if length input - length rest \<noteq> 0 then Some (val, rest) else None)"

subsection \<open>Names\<close>

datatype FileType = kLogFile | kDBLockFile | kTableFile | kDescriptorFile | kCurrentFile | kTempFile | kInfoLogFile

text \<open>The format \<open>%06llu\<close>.\<close>

definition six_digits :: "u64 \<Rightarrow> string" where
  "six_digits number = replicate (6 - length (decimal (unat number))) (CHR ''0'') @ decimal (unat number)"

definition MakeFileName :: "string \<Rightarrow> u64 \<Rightarrow> string \<Rightarrow> string" where
  "MakeFileName dbname number suffix = dbname @ ''/'' @ six_digits number @ ''.'' @ suffix"

definition LogFileName :: "string \<Rightarrow> u64 \<Rightarrow> string" where "LogFileName dbname number = MakeFileName dbname number ''log''"
definition TableFileName :: "string \<Rightarrow> u64 \<Rightarrow> string" where "TableFileName dbname number = MakeFileName dbname number ''ldb''"
definition SSTTableFileName :: "string \<Rightarrow> u64 \<Rightarrow> string" where "SSTTableFileName dbname number = MakeFileName dbname number ''sst''"
definition DescriptorFileName :: "string \<Rightarrow> u64 \<Rightarrow> string" where
  "DescriptorFileName dbname number = dbname @ ''/MANIFEST-'' @ six_digits number"
definition CurrentFileName :: "string \<Rightarrow> string" where "CurrentFileName dbname = dbname @ ''/CURRENT''"
definition LockFileName :: "string \<Rightarrow> string" where "LockFileName dbname = dbname @ ''/LOCK''"
definition TempFileName :: "string \<Rightarrow> u64 \<Rightarrow> string" where "TempFileName dbname number = MakeFileName dbname number ''dbtmp''"
definition InfoLogFileName :: "string \<Rightarrow> string" where "InfoLogFileName dbname = dbname @ ''/LOG''"
definition OldInfoLogFileName :: "string \<Rightarrow> string" where "OldInfoLogFileName dbname = dbname @ ''/LOG.old''"

definition ParseFileName :: "string \<Rightarrow> (u64 \<times> FileType) option" where
  "ParseFileName filename =
     (if filename = ''CURRENT'' then Some (0, kCurrentFile)
      else if filename = ''LOCK'' then Some (0, kDBLockFile)
      else if filename = ''LOG'' \<or> filename = ''LOG.old'' then Some (0, kInfoLogFile)
      else if take 9 filename = ''MANIFEST-''
      then (case ConsumeDecimalNumber (drop 9 filename) of
              None \<Rightarrow> None
            | Some (num, rest) \<Rightarrow> if rest \<noteq> [] then None else Some (num, kDescriptorFile))
      else
        (case ConsumeDecimalNumber filename of
           None \<Rightarrow> None
         | Some (num, suffix) \<Rightarrow>
             if suffix = ''.log'' then Some (num, kLogFile)
             else if suffix = ''.sst'' \<or> suffix = ''.ldb'' then Some (num, kTableFile)
             else if suffix = ''.dbtmp'' then Some (num, kTempFile)
             else None))"

subsection \<open>Digits\<close>

text \<open>A character that is a digit, and the value of a list of them behind \<open>n\<close>.\<close>

definition decimal_char :: "char \<Rightarrow> bool" where
  "decimal_char c \<longleftrightarrow> 48 \<le> (of_char c :: nat) \<and> (of_char c :: nat) \<le> 57"

fun digits_value :: "nat \<Rightarrow> string \<Rightarrow> nat" where
  "digits_value n [] = n"
| "digits_value n (c # cs) = digits_value (n * 10 + (of_char c - 48)) cs"

lemma digits_value_ge: "n \<le> digits_value n ds"
proof (induction ds arbitrary: n)
  case (Cons c cs)
  have "n \<le> n * 10 + (of_char c - 48)" by simp
  then show ?case using Cons.IH [of "n * 10 + (of_char c - 48)"] by simp
qed simp

lemma digits_value_append: "digits_value n (a @ b) = digits_value (digits_value n a) b"
  by (induction a arbitrary: n) simp_all

lemma overflow_check:
  assumes "unat val = n" "d \<le> 9"
  shows "val > kMaxUint64 div 10 \<or> val = kMaxUint64 div 10 \<and> 48 + d > 48 + unat (kMaxUint64 mod 10) \<longleftrightarrow> 2 ^ 64 \<le> n * 10 + d"
    "n * 10 + d < 2 ^ 64 \<Longrightarrow> unat (val * 10 + of_nat d) = n * 10 + d"
proof -
  have m: "unat (kMaxUint64 div 10) = 1844674407370955161" "unat (kMaxUint64 mod 10) = 5"
    by (simp_all add: kMaxUint64_def unat_div unat_mod_distrib)
  show "val > kMaxUint64 div 10 \<or> val = kMaxUint64 div 10 \<and> 48 + d > 48 + unat (kMaxUint64 mod 10) \<longleftrightarrow> 2 ^ 64 \<le> n * 10 + d"
    using assms m by (auto simp: word_less_nat_alt word_unat_eq_iff)
  assume less: "n * 10 + d < 2 ^ 64"
  then have "unat (of_nat d :: u64) = d" by (simp add: unsigned_of_nat take_bit_nat_eq_self)
  then show "unat (val * 10 + of_nat d) = n * 10 + d" using less assms by (simp add: unat_word_ariths)
qed

text \<open>So a number is read exactly when it is below \<open>2 ^ 64\<close>.\<close>

lemma consume_loop_digits:
  assumes "list_all decimal_char ds" "rest = [] \<or> \<not> decimal_char (hd rest)" "unat val = n"
  shows "consume_loop val (ds @ rest) = (if digits_value n ds < 2 ^ 64 then Some (of_nat (digits_value n ds), rest) else None)"
  using assms(1,3)
proof (induction ds arbitrary: val n)
  case Nil
  have "consume_loop val rest = Some (val, rest)"
    using assms(2) by (cases rest) (auto simp: decimal_char_def Let_def not_le)
  moreover have "n < 2 ^ 64" "of_nat n = val" using Nil(2) unat_u64_less [of val] by auto
  ultimately show ?case by simp
next
  case (Cons c cs)
  define d where "d = (of_char c :: nat) - 48"
  have d: "(of_char c :: nat) = 48 + d" "d \<le> 9" using Cons.prems(1) by (auto simp: decimal_char_def d_def)
  show ?case
  proof (cases "2 ^ 64 \<le> n * 10 + d")
    case True
    then have "\<not> digits_value n (c # cs) < 2 ^ 64" using digits_value_ge [of "n * 10 + d" cs] d(1) by simp
    then show ?thesis using True overflow_check(1) [OF Cons.prems(2) d(2)] d by (simp add: Let_def)
  next
    case False
    then have "consume_loop (val * 10 + of_nat d) (cs @ rest) =
        (if digits_value (n * 10 + d) cs < 2 ^ 64 then Some (of_nat (digits_value (n * 10 + d) cs), rest) else None)"
      using Cons.IH overflow_check(2) [OF Cons.prems(2) d(2)] Cons.prems(1) by simp
    then show ?thesis using False overflow_check(1) [OF Cons.prems(2) d(2)] d by (auto simp: Let_def)
  qed
qed

lemma ConsumeDecimalNumber_digits:
  assumes "list_all decimal_char ds" "rest = [] \<or> \<not> decimal_char (hd rest)" "ds \<noteq> []"
  shows "ConsumeDecimalNumber (ds @ rest) = (if digits_value 0 ds < 2 ^ 64 then Some (of_nat (digits_value 0 ds), rest) else None)"
  using consume_loop_digits [OF assms(1,2), of 0 0] assms(3) by (simp add: ConsumeDecimalNumber_def)

lemma decimal_digits: "list_all decimal_char (decimal n) \<and> digits_value 0 (decimal n) = n \<and> decimal n \<noteq> []"
proof (induction n rule: decimal.induct)
  case (1 n)
  have dig: "decimal_char (char_of (48 + k))" "(of_char (char_of (48 + k) :: char) :: nat) = 48 + k" if "k < 10" for k :: nat
    using that by (simp_all add: decimal_char_def)
  show ?case
  proof (cases "n < 10")
    case True
    then show ?thesis by (subst (1 2 3) decimal.simps) (simp add: dig)
  next
    case False
    then have ih: "list_all decimal_char (decimal (n div 10))" "digits_value 0 (decimal (n div 10)) = n div 10" using 1 by simp_all
    have "decimal n = decimal (n div 10) @ [char_of (48 + n mod 10)]" using False by (subst decimal.simps) simp
    then show ?thesis using ih dig [of "n mod 10"] by (simp add: digits_value_append)
  qed
qed

lemma six_digits: "list_all decimal_char (six_digits n) \<and> digits_value 0 (six_digits n) = unat n \<and> six_digits n \<noteq> []"
proof -
  have "digits_value 0 (replicate k (CHR ''0'')) = 0" "list_all decimal_char (replicate k (CHR ''0''))" for k
    by (induction k) (simp_all add: decimal_char_def)
  then show ?thesis using decimal_digits [of "unat n"] by (simp add: six_digits_def digits_value_append)
qed

lemma Consume_six_digits:
  "rest = [] \<or> \<not> decimal_char (hd rest) \<Longrightarrow> ConsumeDecimalNumber (six_digits n @ rest) = Some (n, rest)"
  using ConsumeDecimalNumber_digits [of "six_digits n" rest] six_digits [of n] unat_u64_less [of n] by simp

end
