(* ===== verification/LdbFileTheorems.thy ===== *)
theory LdbFileTheorems
  imports LdbVersionEdit LdbFileName
begin

text \<open>
  The properties of the records of a manifest and of the names of files.
\<close>

section \<open>Edits\<close>

text \<open>C39: Every edit that the operations on a new edit make is read back from its encoding as it was,
  with the flags and the set of deleted files in order, whatever edit it is read into; only the
  compaction pointers of that edit stay in front, since \<open>Clear\<close> keeps them.\<close>

theorem version_edit_round_trip:
  assumes "list_all edit_op_ok ops"
  defines "e \<equiv> fold edit_do ops new_VersionEdit"
  shows "Edit_DecodeFrom (Edit_EncodeTo [] e) e0 = Inr (e\<lparr>ve_compact_pointers := ve_compact_pointers e0 @ ve_compact_pointers e\<rparr>)"
  unfolding e_def by (rule Edit_decode_encode [OF wf_edit_run [OF wf_edit_new assms(1)]])

theorem version_edit_round_trip_witness:
  defines "e \<equiv> fold edit_do [OpDelete 2 9, OpLog 12, OpAdd 1 7 4096 [97, 1] [122, 1], OpDelete 0 300, OpPointer 1 [98]] new_VersionEdit"
  shows "Edit_DecodeFrom (Edit_EncodeTo [] e) new_VersionEdit = Inr e \<and> ve_deleted_files e = [(0, 300), (2, 9)]"
proof -
  let ?ops = "[OpDelete 2 9, OpLog 12, OpAdd 1 7 4096 [97, 1] [122, 1], OpDelete 0 300, OpPointer 1 [98]]"
  have "list_all edit_op_ok ?ops" by (simp add: kNumLevels_def)
  moreover have "ve_deleted_files e = [(0, 300), (2, 9)]" unfolding e_def by code_simp
  moreover have "ve_compact_pointers new_VersionEdit = []" by (simp add: new_VersionEdit_def)
  ultimately show ?thesis using version_edit_round_trip [of ?ops new_VersionEdit] by (simp add: e_def)
qed

section \<open>Names\<close>




end
