(* ===== verification/Spec2Isabelle.thy ===== *)
theory Spec2Isabelle
  imports PbDecSafe PbRequired PbWriter Base64 FirebaseCoreNanopb CctFlat JudgeQueue LdbTheorems LdbMemTheorems LdbTableTheorems LdbFileTheorems
begin

text \<open>
  The repository is the CIC Judging app: an iOS client in Swift, two cloud functions that hand out
  teams to judges, and under Pods the C, C++ and Objective-C code the app is built with. This
  development models the code that computes: the cloud functions, the protocol buffer runtime
  and the message descriptors with which the app's telemetry is encoded, the base64 routines of
  the database client, and the storage engine that client caches data in. A pod's path below is
  relative to "CIC Judging/Pods".

  \<^bold>\<open>The judge queue.\<close> JudgeQueue is functions/index.js. A snapshot of the database is a record;
  \<open>processAssignedQueue\<close> and \<open>filterAssignedQueue\<close> are the functions of the same names, the loops
  are \<open>assign_loop\<close>, a partial function because they may spin forever, and \<open>step\<close> interleaves the
  reads and writes of the handlers with each other and with what clients change. The sort of the
  JavaScript engine is a parameter that must sort. Shown: queues stay at three distinct teams at
  most, which teams a run chooses, when it does not return, and that two runs can overwrite each
  other.

  \<^bold>\<open>Protocol buffers\<close> (nanopb). PbTypes: pb.h, with the descriptor macros. CMemory: the bytes that
  the structs live in. PbCommon: the field iterator of pb_common.c. PbIStream, PbFieldDec,
  PbDecode: pb_decode.c, from the streams and varints through the field decoders to the message
  loop. PbOStream, PbEncode: pb_encode.c. User callbacks, the allocator and the descriptor arrays
  are arguments. A bound counts the nesting of submessages, as the recursion of the code has
  none; it is enough when it is above the nesting depth of the descriptors, and the safety theorem
  says that with such a bound every input gives a result. Loops over a stream are bounded by its
  length, since each round takes a byte (PbProgress). CctNanopb and FirebaseCoreNanopb are the
  generated messages: enums, structs, initialisers, tags and tables.
  Lemma groups: Codec states the contract of an encoder and a decoder, met by varints (PbVarint)
  and the other wire formats (PbWire); PbWriter gives encoders a meaning independent of the stream,
  so sizes are exact; PbSafety and PbDecSafe bound what the decoder reads and writes; PbRequired is
  the bitmap of required fields; Layout checks the tables against the structs; FlatMsg and
  CctFlat decode what was encoded.

  \<^bold>\<open>Base64\<close> is FirebaseDatabase/Firebase/Database/third_party/SocketRocket/fbase64.c, against
  RFC 4648.

  \<^bold>\<open>The storage engine\<close> (leveldb-library). A slice or string is the list of its bytes.
  LdbCoding is util/coding: fixed and variable length integers and length-prefixed slices.
  LdbKey is util/comparator.cc and db/dbformat: the byte order, internal keys made of a user key, a
  sequence number and a type, and lookup keys; the locale \<open>comparator\<close> is the contract the
  tables rely on, with an interpretation for each of the two comparators. LdbCrcTables and LdbCrc
  are util/crc32c: the tables, the interleaved computation over aligned words, and the masking.
  LdbEnv is the status type and the file interfaces; LdbLog the write-ahead log of db/log_writer.cc
  and db/log_reader.cc over these interfaces; LdbPosix the two file classes of util/env_posix.cc
  that implement them, over system calls whose answers are a stream given from outside.
  \<open>ReadRecord\<close> and the writing loop of the file are partial functions: they return for every file
  content, and as long as the kernel takes bytes.
  LdbSkipList is db/skiplist.h with util/random.h, LdbArena util/arena, LdbMem db/memtable.cc and
  LdbBatch db/write_batch.cc. A node is its index in the order of allocation, a pointer to a buffer
  is the bytes of the buffer. The searches of the list are partial functions that return on every
  well-formed list (\<open>wf_list\<close>), also on one in which an insertion has linked a part of the levels.
  \<open>mem_holds\<close> relates a memtable to a map from user keys and sequence numbers to values.
  LdbFilter is util/hash.cc, util/bloom.cc and table/filter_block.cc.
  LdbIterator is the interface of include/leveldb/iterator.h as a record of operations, with the
  locale \<open>cursor\<close> as its contract: an iterator is a position in a list of entries (\<open>at kvs p s\<close>), and a
  run of operations (\<open>cursor_run\<close>) shows what the same run on the list shows (\<open>list_run\<close>). LdbBlock
  is table/block_builder.cc and table/block.cc, LdbMemIter the memtable's iterator, LdbMerge
  table/merger.cc and LdbDBIter db/db_iter.cc; each is an interpretation of the contract, the last
  one over a list that keeps what a reader sees (\<open>user_entries\<close>). The properties are in LdbTheorems
  (encodings, keys, checksums, log), LdbMemTheorems (memory and filters) and LdbTableTheorems
  (iterators and tables).
  A table file: LdbFormat is table/format, with the memory mapped file of util/env_posix.cc and the
  compression functions of the port (there is no compressor); LdbTableBuilder is
  table/table_builder.cc; LdbTwoLevel table/two_level_iterator.cc, with the locale
  \<open>two_level_source\<close>; LdbTable table/table.cc. \<open>builds\<close> is the invariant of the builder: the blocks that
  are written, the separators in the index block and the entries in the data block; \<open>table_bytes\<close>
  is the finished file, and \<open>opened\<close> what opening it gives.
  LdbVersionEdit is db/version_edit, the records of a manifest, LdbFileName the numbers of
  util/logging.cc and the names of db/filename; their properties are in LdbFileTheorems.
  The properties of tables hold for files below 2^32 bytes, the range of the offsets inside a block.

  \<^bold>\<open>Parts in this theory.\<close> The properties of the cloud functions, the protocol buffer runtime and the
  base64 routines follow; they are numbered in the order of importance over the whole development.

  \<^bold>\<open>Not modelled.\<close> The Swift app and the Objective-C SDKs (user interface, network and
  framework calls). Of LevelDB: the rest of the environment (threads, locks, files read by
  offset), the cleanup functions of iterators, caches and with them the block cache of a table (which
  keeps blocks between reads), compactions and the database object, the C interface and the tools.
  A failing \<open>assert\<close> of a debug build is not modelled, nor is memory exhaustion in C++.
\<close>

section \<open>Integers on the wire\<close>

text \<open>C11: Encoding any 64-bit value with \<open>pb_encode_varint\<close> into a 10-byte buffer succeeds, and
  \<open>pb_decode_varint\<close> on those bytes, whatever follows them, returns the value and stops right
  behind them; \<open>pb_skip_varint\<close> stops at the same place.\<close>

theorem varint_round_trip:
  "\<exists>s :: 's pb_ostream. \<exists>bs. pb_encode_varint (pb_ostream_from_buffer 10) v = (True, s) \<and> contents s = bs \<and>
     bytes_written s = length bs \<and> length bs \<le> 10 \<and>
     (\<forall>rest k. pb_decode_varint (pb_istream_from_buffer (bs @ rest) (length bs + k)) =
         (Some v, bstream rest k None :: 's pb_istream) \<and>
       pb_skip_varint (pb_istream_from_buffer (bs @ rest) (length bs + k)) =
         (True, bstream rest k None :: 's pb_istream))"
proof -
  let ?bs = "varint_buffer v"
  have "pb_encode_varint (pb_ostream_from_buffer 10) v = (True, written ?bs (pb_ostream_from_buffer 10))"
    using length_varint_buffer_le [of v]
    by (simp add: pb_encode_varint_def pb_write_plain roomy_def fits_def)
  then show ?thesis
    using length_varint_buffer_le [of v]
    by (auto simp: from_buffer_bstream contents_written varint.dec_enc pb_skip_varint_encoded)
qed

text \<open>C15: A field tag survives the wire: for every wire type below 8 and field number from 1 to
  2^29 - 1, \<open>pb_decode_tag\<close> reads back what \<open>pb_encode_tag\<close> wrote and reports no end of file.\<close>

theorem tag_round_trip:
  assumes "valid_tag wt t"
  shows "\<exists>s :: 's pb_ostream. pb_encode_tag (pb_ostream_from_buffer 10) wt t = (True, s) \<and>
     pb_decode_tag (pb_istream_from_buffer (contents s @ rest) (length (contents s) + k)) =
       (Some (wt, of_nat t), False, bstream rest k None :: 's pb_istream)"
proof -
  have "length (tag_bytes wt t) \<le> 10" by (simp add: tag_bytes_def length_varint_buffer_le)
  then have "pb_encode_tag (pb_ostream_from_buffer 10 :: 's pb_ostream) wt t =
      (True, written (tag_bytes wt t) (pb_ostream_from_buffer 10))"
    by (simp add: pb_encode_tag_bytes emit_def pb_write_plain roomy_def fits_def)
  then show ?thesis
    by (simp add: contents_written from_buffer_bstream pb_decode_tag_encoded [OF assms])
qed

theorem tag_round_trip_witness:
  "\<exists>s :: unit pb_ostream. pb_encode_tag (pb_ostream_from_buffer 10) 2 15 = (True, s) \<and>
     pb_decode_tag (pb_istream_from_buffer (contents s @ [7]) (length (contents s) + 1)) =
       (Some (2, of_nat 15), False, bstream [7] 1 None :: unit pb_istream)"
  by (rule tag_round_trip) (simp add: valid_tag_def)



text \<open>Signed integers: \<open>pb_encode_svarint\<close> writes the zig-zag form of a value,
  \<open>pb_decode_svarint\<close> reads it back, and a value between -64 and 63 takes one byte.\<close>

theorem svarint_round_trip:
  "pb_encode_svarint s v = emit (varint_buffer (zigzag v)) s \<and>
   pb_decode_svarint (bstream (varint_buffer (zigzag v) @ rest) (length (varint_buffer (zigzag v)) + k) e) =
     (Some v, bstream rest k e)"
  by (simp add: pb_encode_svarint_def pb_encode_varint_emit svarint.dec_enc)

text \<open>Fixed-width integers are four or eight bytes, least significant first, and are read back.\<close>

theorem fixed_round_trip:
  "pb_encode_fixed32 s v = emit (le_bytes 4 v) s \<and>
   pb_decode_fixed32 (bstream (le_bytes 4 v @ rest) (4 + k) e) = (Some v, bstream rest k e) \<and>
   pb_encode_fixed64 s w = emit (le_bytes 8 w) s \<and>
   pb_decode_fixed64 (bstream (le_bytes 8 w @ rest) (8 + k) e) = (Some w, bstream rest k e)"
  using fixed32.dec_enc [of v rest k e] fixed64.dec_enc [of w rest k e]
  by (simp add: pb_encode_fixed32_bytes pb_encode_fixed64_bytes fixed32_bytes_le fixed64_bytes_le)

text \<open>C10: \<open>pb_skip_field\<close>, which passes over fields the message type does not have, stops exactly
  behind the value the decoder of that wire type would have read, for all four wire types.\<close>

theorem skip_field_past_value:
  fixes bs rest :: "u8 list" and w :: u64 and u :: u32
  assumes "length bs < 2 ^ 32"
  shows
  "pb_skip_field (bstream (varint_buffer v @ rest) (length (varint_buffer v) + k) e :: 's pb_istream) PB_WT_VARINT =
     (True, snd (pb_decode_varint (bstream (varint_buffer v @ rest) (length (varint_buffer v) + k) e))) \<and>
   pb_skip_field (bstream (le_bytes 8 w @ rest) (8 + k) e) PB_WT_64BIT =
     (True, snd (pb_decode_fixed64 (bstream (le_bytes 8 w @ rest) (8 + k) e :: 's pb_istream))) \<and>
   pb_skip_field (bstream (le_bytes 4 u @ rest) (4 + k) e) PB_WT_32BIT =
     (True, snd (pb_decode_fixed32 (bstream (le_bytes 4 u @ rest) (4 + k) e :: 's pb_istream))) \<and>
   pb_skip_field (bstream (string_bytes bs @ rest) (length (string_bytes bs) + k) e :: 's pb_istream) PB_WT_STRING =
     (True, bstream rest k e)"
  using assms
  by (simp add: valid_string_def varint.skip_enc varint.dec_enc pbstring.skip_enc
    fixed64.skip_enc [of w rest k e, unfolded fixed64_bytes_le, simplified]
    fixed64.dec_enc [of w rest k e, unfolded fixed64_bytes_le, simplified]
    fixed32.skip_enc [of u rest k e, unfolded fixed32_bytes_le, simplified]
    fixed32.dec_enc [of u rest k e, unfolded fixed32_bytes_le, simplified])

theorem skip_field_past_value_witness:
  "pb_skip_field (bstream (string_bytes [104, 105] @ [8, 1]) (length (string_bytes [104, 105]) + 2) None
      :: unit pb_istream) PB_WT_STRING = (True, bstream [8, 1] 2 None)"
proof -
  have "length [104, 105 :: u8] < 2 ^ 32" by simp
  from skip_field_past_value [OF this, where rest = "[8, 1]" and k = 2 and e = None] show ?thesis by blast
qed

text \<open>C9: A delimited part: \<open>pb_make_string_substream\<close> gives the reader exactly the bytes
  \<open>pb_encode_string\<close> wrote, and \<open>pb_close_string_substream\<close> puts the parent behind them however
  much of them the reader left.\<close>

theorem substream_round_trip:
  assumes "length bs < 2 ^ 32"
  shows "\<exists>s sub par. pb_encode_string (pb_ostream_from_buffer (length bs + 10)) bs (length bs) = (True, s :: 's pb_ostream) \<and>
     pb_make_string_substream (bstream (contents s @ rest) (length (contents s) + k) e :: 's pb_istream) = (Some sub, par) \<and>
     sub = bstream (bs @ rest) (length bs) e \<and>
     (\<forall>n \<le> length bs. pb_close_string_substream par (bstream (drop n bs @ rest) (length bs - n) e') =
       (True, bstream rest k e'))"
proof -
  have "length (varint_buffer (of_nat (length bs))) + length bs \<le> length bs + 10"
    using length_varint_buffer_le by simp
  then have "length (string_bytes bs) \<le> length bs + 10" "length (string_bytes bs) < 2 ^ 64"
    using assms length_varint_buffer_le [of "of_nat (length bs)"] by (simp_all add: string_bytes_def)
  then have "Some (pb_encode_string (pb_ostream_from_buffer (length bs + 10)) bs (length bs)) =
      Some (True, written (string_bytes bs) (pb_ostream_from_buffer (length bs + 10)) :: 's pb_ostream)"
    by (intro writes_to_buffer(1) [OF writes_string]) simp_all
  moreover have "pb_make_string_substream (bstream (string_bytes bs @ rest) (length (string_bytes bs) + k) e) =
      (Some (bstream (bs @ rest) (length bs) e), bstream (bs @ rest) k e :: 's pb_istream)"
    using assms by (intro make_substream_encoded) (simp add: valid_string_def)
  ultimately show ?thesis
    by (simp add: contents_written close_substream)
qed

theorem substream_round_trip_witness:
  "\<exists>s sub par. pb_encode_string (pb_ostream_from_buffer (length [104, 105 :: u8] + 10)) [104, 105] (length [104, 105 :: u8]) =
       (True, s :: unit pb_ostream) \<and>
     pb_make_string_substream (bstream (contents s @ [8]) (length (contents s) + 1) None :: unit pb_istream) = (Some sub, par) \<and>
     sub = bstream ([104, 105 :: u8] @ [8]) (length [104, 105 :: u8]) None \<and>
     (\<forall>n \<le> length [104, 105 :: u8]. pb_close_string_substream par
         (bstream (drop n [104, 105] @ [8]) (length [104, 105 :: u8] - n) None) = (True, bstream [8] 1 None))"
  by (rule substream_round_trip) simp



section \<open>Messages\<close>



text \<open>C4: The encoded size is exact: if a message was encoded once into some buffer, then
  \<open>pb_get_encoded_size\<close> gives the number of bytes written, every buffer with that much room
  receives the same bytes, and every smaller buffer makes the encoder fail.\<close>

theorem encoded_size_exact:
  assumes "callbacks_write env m" and "pb_encode env n (pb_ostream_from_buffer cap) fs src m = Some (True, s)"
    and "length (contents s) < 2 ^ 64"
  shows "pb_get_encoded_size env n fs src m = Some (Some (length (contents s))) \<and>
    (\<forall>cap'. if length (contents s) \<le> cap'
      then \<exists>s'. pb_encode env n (pb_ostream_from_buffer cap') fs src m = Some (True, s') \<and> contents s' = contents s
      else \<exists>s'. pb_encode env n (pb_ostream_from_buffer cap') fs src m = Some (False, s'))"
proof -
  note w = encode_once [OF assms(1,2)]
  show ?thesis
    using writes_size [OF w assms(3)] writes_to_buffer [OF w assms(3)]
    by (auto simp: contents_written not_le)
qed

text \<open>An encoder environment without submessage tables and with callbacks that write nothing.\<close>

definition silent_env :: "unit eenv" where
  "silent_env = \<lparr>efield_table = (\<lambda>_. []), encode_funcs = (\<lambda>_ s _ _ _. (True, s)),
     extension_encoders = (\<lambda>_ s _ _. (True, s))\<rparr>"

theorem encoded_size_exact_witness:
  "\<forall>A. pb_get_encoded_size silent_env 1 (gdt_cct_NetworkConnectionInfo_fields A) 64 (\<lambda>_. 1) = Some (Some 10)"
proof
  fix A
  let ?fs = "gdt_cct_NetworkConnectionInfo_fields A"
  let ?bs = "ops_bytes ?fs (msg_ops (msg_value ?fs 64 (\<lambda>_. 1)))"
  let ?s = "written ?bs (pb_ostream_from_buffer 40) :: unit pb_ostream"
  have c: "callbacks_write silent_env m" for m
    by (auto simp: callbacks_write_def silent_env_def writes_skip)
  have "load_bool a (\<lambda>_. 1)" for a by (simp add: load_bool_def)
  moreover have "length (varint_buffer (the (load_signed 4 68 (\<lambda>_. 1)))) = 4"
    "length (varint_buffer (the (load_unsigned 4 76 (\<lambda>_. 1)))) = 4"
    by code_simp+
  ultimately have b: "length ?bs = 10"
    by (simp add: NetworkConnectionInfo_bytes optional_bytes_def)
  have e: "pb_encode silent_env 1 (pb_ostream_from_buffer 40) ?fs 64 (\<lambda>_. 1) = Some (True, ?s)"
    using b by (intro writes_to_buffer [OF writes_flat_msg [OF NetworkConnectionInfo_flat, of silent_env 0, folded One_nat_def]]) simp_all
  have "length (contents ?s) = 10" using b by (simp add: contents_written)
  with encoded_size_exact [OF c e] show "pb_get_encoded_size silent_env 1 ?fs 64 (\<lambda>_. 1) = Some (Some 10)"
    by simp
qed

text \<open>C2: A message of optional scalars survives the wire. For a table and struct address whose
  fields are optional scalars in separate places, \<open>pb_encode\<close> of a struct needs at most 20 bytes
  per field, writes the same bytes into every buffer with that much room, and \<open>pb_decode\<close> of them into another struct gives the
  same fields present with the same values, whatever the struct held before.\<close>

theorem message_round_trip:
  assumes "flat_msg fs src" and "flat_msg fs d" and "20 * field_count fs < 2 ^ 64"
    and "\<And>i. i < field_count fs \<Longrightarrow> field_slots fs d i \<inter> {sp c ..< sp c + 4} = {}"
  shows "\<exists>bs m'. length bs \<le> 20 * field_count fs \<and>
    (\<forall>cap \<ge> length bs. \<exists>s. pb_encode eenv (Suc k) (pb_ostream_from_buffer cap) fs src m = Some (True, s) \<and> contents s = bs) \<and>
    pb_decode env (Suc k) (pb_istream_from_buffer bs (length bs) :: 's pb_istream) fs d c =
      Some (True, bstream [] 0 None, c\<lparr>mem := m'\<rparr>) \<and>
    msg_value fs d m' = msg_value fs src m"
  using flat_round_trip [OF assms(1-3), of c eenv k m env] assms(4) by blast

theorem message_round_trip_witness:
  "\<forall>(env :: (unit, unit) penv) A m. \<exists>bs m'. length bs \<le> 40 \<and>
    pb_decode env 1 (pb_istream_from_buffer bs (length bs)) (gdt_cct_QosTierConfiguration_fields A) 64
        \<lparr>mem = m, sp = 1024, heap = ()\<rparr> = Some (True, bstream [] 0 None, \<lparr>mem = m', sp = 1024, heap = ()\<rparr>) \<and>
    msg_value (gdt_cct_QosTierConfiguration_fields A) 64 m' = msg_value (gdt_cct_QosTierConfiguration_fields A) 128 m"
proof (intro allI)
  fix env :: "(unit, unit) penv" and A m
  let ?fs = "gdt_cct_QosTierConfiguration_fields A"
  let ?c = "\<lparr>mem = m, sp = 1024, heap = ()\<rparr>"
  have n: "field_count ?fs = 2" by (simp add: QosTierConfiguration_table field_count_def)
  have "field_slots ?fs 64 i \<inter> {sp ?c ..< sp ?c + 4} = {}" if "i < field_count ?fs" for i
    using QosTierConfiguration_slots [OF that, of 64] by auto
  from message_round_trip [OF QosTierConfiguration_flat QosTierConfiguration_flat, of A 64 ?c silent_env 0 128 m env, OF _ this]
  show "\<exists>bs m'. length bs \<le> 40 \<and>
      pb_decode env 1 (pb_istream_from_buffer bs (length bs)) ?fs 64 ?c =
        Some (True, bstream [] 0 None, \<lparr>mem = m', sp = 1024, heap = ()\<rparr>) \<and>
      msg_value ?fs 64 m' = msg_value ?fs 128 m"
    by (auto simp: n)
qed

text \<open>C3: The last value of a field wins. Whatever values for the fields of such a message come
  in, in any order and number, \<open>pb_decode\<close> succeeds and the struct then holds for each field the
  last value sent, and no value for a field that was never sent.\<close>

theorem last_value_wins:
  assumes "flat_msg fs d" and "ok_ops fs ops"
    and "\<And>i. i < field_count fs \<Longrightarrow> field_slots fs d i \<inter> {sp c ..< sp c + 4} = {}"
  shows "\<exists>m'. pb_decode env (Suc n)
      (pb_istream_from_buffer (ops_bytes fs ops) (length (ops_bytes fs ops)) :: 's pb_istream) fs d c =
    Some (True, bstream [] 0 None, c\<lparr>mem := m'\<rparr>) \<and>
    msg_value fs d m' = apply_ops ops (replicate (field_count fs) None)"
  by (rule flat_decode [OF assms])

theorem last_value_wins_witness:
  "\<forall>(env :: (unit, unit) penv) m A. let fs = gdt_cct_NetworkConnectionInfo_fields A;
      bs = ops_bytes fs [(1, [3, 0, 0, 0]), (0, [1, 0, 0, 0]), (1, [7, 0, 0, 0])] in
    \<exists>m'. pb_decode env 1 (pb_istream_from_buffer bs (length bs)) fs 64 \<lparr>mem = m, sp = 1024, heap = ()\<rparr> =
      Some (True, bstream [] 0 None, \<lparr>mem = m', sp = 1024, heap = ()\<rparr>) \<and>
    msg_value fs 64 m' = [Some [1, 0, 0, 0], Some [7, 0, 0, 0]]"
proof (intro allI)
  fix env :: "(unit, unit) penv" and m A
  let ?fs = "gdt_cct_NetworkConnectionInfo_fields A"
  let ?ops = "[(1, [3, 0, 0, 0]), (0, [1, 0, 0, 0]), (1, [7, 0, 0, 0])] :: (nat \<times> u8 list) list"
  let ?c = "\<lparr>mem = m, sp = 1024, heap = ()\<rparr>"
  have n: "field_count ?fs = 2" by (simp add: NetworkConnectionInfo_table field_count_def)
  have o: "ok_ops ?fs ?ops"
    unfolding ok_ops_def n by (auto simp: NetworkConnectionInfo_table field_at_def)
  have "field_slots ?fs 64 i \<inter> {sp ?c ..< sp ?c + 4} = {}" if "i < field_count ?fs" for i
    using NetworkConnectionInfo_slots [OF that, of 64] by auto
  from last_value_wins [OF NetworkConnectionInfo_flat o this, of env 0]
  show "let fs = ?fs; bs = ops_bytes fs ?ops in
    \<exists>m'. pb_decode env 1 (pb_istream_from_buffer bs (length bs)) fs 64 ?c =
      Some (True, bstream [] 0 None, \<lparr>mem = m', sp = 1024, heap = ()\<rparr>) \<and>
    msg_value fs 64 m' = [Some [1, 0, 0, 0], Some [7, 0, 0, 0]]"
    by (auto simp: n Let_def apply_ops_def numeral_2_eq_2)
qed

text \<open>\<open>pb_encode\<close> of a NetworkConnectionInfo at address \<open>d\<close> writes, for each field whose has-flag
  is set, its tag byte and the varint of its value, the enum sign extended to 64 bits, and
  nothing else; while the subtype is below 128 the size constant of the header is enough.\<close>

theorem NetworkConnectionInfo_encoded:
  "\<exists>bs. bs = optional_bytes (load_bool d m) (8 # varint_buffer (the (load_signed 4 (d + 4) m))) @
          optional_bytes (load_bool (d + 8) m) (16 # varint_buffer (the (load_unsigned 4 (d + 12) m))) \<and>
    writes (\<lambda>s. pb_encode env (Suc n) s (gdt_cct_NetworkConnectionInfo_fields A) d m) (Some bs) \<and>
    (the (load_unsigned 4 (d + 12) m) < 128 \<longrightarrow>
      (\<exists>s. pb_encode env (Suc n) (pb_ostream_from_buffer gdt_cct_NetworkConnectionInfo_size)
         (gdt_cct_NetworkConnectionInfo_fields A) d m = Some (True, s) \<and> contents s = bs))"
proof -
  note w = writes_flat_msg [OF NetworkConnectionInfo_flat, of env n A d m]
  have "\<exists>s. pb_encode env (Suc n) (pb_ostream_from_buffer gdt_cct_NetworkConnectionInfo_size)
      (gdt_cct_NetworkConnectionInfo_fields A) d m = Some (True, s) \<and>
      contents s = ops_bytes (gdt_cct_NetworkConnectionInfo_fields A) (msg_ops (msg_value (gdt_cct_NetworkConnectionInfo_fields A) d m))"
    if "the (load_unsigned 4 (d + 12) m) < 128"
    using NetworkConnectionInfo_size_bound [of d m A] that
    by (simp add: writes_to_buffer(1) [OF w] contents_written gdt_cct_NetworkConnectionInfo_size_def del: pb_encode.simps)
  then show ?thesis using w by (auto simp: NetworkConnectionInfo_bytes)
qed

theorem NetworkConnectionInfo_encoded_witness:
  "\<forall>(env :: unit eenv) A. \<exists>s. pb_encode env 1 (pb_ostream_from_buffer gdt_cct_NetworkConnectionInfo_size)
     (gdt_cct_NetworkConnectionInfo_fields A) 64 (\<lambda>a. if a \<in> {64, 68, 72} then 1 else if a = 76 then 5 else 0) =
       Some (True, s) \<and> contents s = [8, 1, 16, 5]"
proof (intro allI)
  fix env :: "unit eenv" and A
  let ?m = "\<lambda>a :: nat. if a \<in> {64, 68, 72} then 1 else if a = 76 then 5 else 0 :: u8"
  have "load_signed 4 68 ?m = Some 1" "load_unsigned 4 76 ?m = Some 5" by code_simp+
  moreover have "load_bool 64 ?m" "load_bool 72 ?m" by (simp_all add: load_bool_def)
  moreover have "varint_buffer 1 = [1]" "varint_buffer 5 = [5]" by code_simp+
  ultimately show "\<exists>s. pb_encode env 1 (pb_ostream_from_buffer gdt_cct_NetworkConnectionInfo_size)
     (gdt_cct_NetworkConnectionInfo_fields A) 64 ?m = Some (True, s) \<and> contents s = [8, 1, 16, 5]"
    using NetworkConnectionInfo_encoded [of 64 ?m env 0 A] by (simp add: optional_bytes_def del: pb_encode.simps)
qed

text \<open>C17: The iterator's search loop ends, and finds the next field with the tag: started at field
  \<open>i\<close> it gives the first field at or after \<open>i\<close>, going round once, that has the tag and is not an
  extension range, with the data and size addresses of that field; if there is none it is back at
  \<open>i\<close>.\<close>

theorem iterator_find:
  assumes "i < field_count fs"
  shows "pb_field_iter_find (iter_at fs d i) t =
     Some (case find (\<lambda>j. tag_matches t (field_at fs j)) (indices_from (field_count fs) i i) of
       Some j \<Rightarrow> (True, iter_at fs d j) | None \<Rightarrow> (False, iter_at fs d i))"
proof -
  have "canonical fs d i (iter_at fs d i)" using assms by (simp add: canonical_iter_at)
  from find_canonical [OF this, of t] show ?thesis by (simp split: option.splits)
qed

theorem iterator_find_witness:
  "\<forall>A d. pb_field_iter_find (iter_at (gdt_cct_NetworkConnectionInfo_fields A) d 1) 1 =
      Some (True, iter_at (gdt_cct_NetworkConnectionInfo_fields A) d 0)"
proof (intro allI)
  fix A d
  let ?fs = "gdt_cct_NetworkConnectionInfo_fields A"
  have n: "field_count ?fs = 2" by (simp add: NetworkConnectionInfo_table field_count_def)
  have "indices_from 2 1 1 = [1, 0]" by (simp add: indices_from_def upt_rec)
  then have "find (\<lambda>j. tag_matches 1 (field_at ?fs j)) (indices_from 2 1 1) = Some 0"
    by (simp add: tag_matches_def NetworkConnectionInfo_table field_at_def optional_varint pb_consts)
  then show "pb_field_iter_find (iter_at ?fs d 1) 1 = Some (True, iter_at ?fs d 0)"
    using iterator_find [of 1 ?fs d 1] by (simp add: n)
qed

text \<open>C18: Every descriptor table of the transport and diagnostics messages describes its struct:
  whatever field the iterator stands at, the search for the tag constant of a member finds that
  member's field, and the data and size addresses computed from the table's deltas are the
  addresses of the member and of its has-flag or counter in the struct.\<close>

theorem message_tables_reach:
  assumes "(fs, st, ms) \<in> set (message_tables A)" and "i < length ms" and "j < length ms"
    and "ms ! j = (t, m, sm)"
  shows "pb_field_iter_find (iter_at fs d i) t = Some (True, iter_at fs d j) \<and>
    pData (iter_at fs d j) = d + offsetof st m \<and> pSize (iter_at fs d j) = d + offsetof st sm"
  using table_fits_find [OF message_tables_fit [OF assms(1)] assms(2,3), of d]
    table_fits_at(3,4) [OF message_tables_fit [OF assms(1)] assms(3,4), of d] assms(4)
  by simp

theorem message_tables_reach_witness:
  "\<forall>A d. pb_field_iter_find (iter_at (gdt_cct_LogEvent_fields A) d 3) 6 = Some (True, iter_at (gdt_cct_LogEvent_fields A) d 1) \<and>
    pData (iter_at (gdt_cct_LogEvent_fields A) d 1) = d + offsetof gdt_cct_LogEvent ''source_extension'' \<and>
    pSize (iter_at (gdt_cct_LogEvent_fields A) d 1) = d + offsetof gdt_cct_LogEvent ''source_extension''"
proof (intro allI message_tables_reach)
  show "(gdt_cct_LogEvent_fields A, gdt_cct_LogEvent, gdt_cct_LogEvent_members) \<in> set (message_tables A)" for A
    unfolding message_tables_def by (simp only: list.set insertI1)
qed (simp_all add: gdt_cct_LogEvent_members_def gdt_cct_LogEvent_source_extension_tag_def)

text \<open>The required-field check is exact: after any sequence of required fields, whose numbers
  among the required ones are below the number of required fields, at most 64, the comparison of the
  bitmap with full words succeeds exactly when each of them was seen.\<close>

theorem required_fields_check:
  assumes "\<forall>it \<in> set its. PB_HTYPE (ftype (iter_field it)) = PB_HTYPE_REQUIRED \<and> required_field_index it < req"
    and "req \<le> PB_MAX_REQUIRED_FIELDS" and "fields_seen l = [0, 0]"
  shows "all_seen req (fields_seen (fold (\<lambda>it l. mark_required (l\<lparr>iter := it\<rparr>)) its l)) \<longleftrightarrow>
    required_field_index ` set its = {..<req}"
proof -
  have "seen_set (required_field_index ` set its) (fields_seen (fold (\<lambda>it l. mark_required (l\<lparr>iter := it\<rparr>)) its l))"
    using seen_set_marks [of its "{}" l] assms seen_set_start by fastforce
  then show ?thesis
    by (rule all_seen_set) (use assms in \<open>auto simp: PB_MAX_REQUIRED_FIELDS_def\<close>)
qed
theorem required_fields_check_witness:
  "let f = \<lparr>tag = 1, ftype = 0, data_offset = 0, size_offset = 0, data_size = 4, array_size = 0, fptr = 0\<rparr>;
      it = (\<lambda>i. \<lparr>start = [f], pos = 0, required_field_index = i, dest_struct = 64, pData = 64, pSize = 0\<rparr>);
      l = \<lparr>iter = it 0, fields_seen = [0, 0], extension_range_start = 0, fixed_count_field = None\<rparr> in
    all_seen 2 (fields_seen (fold (\<lambda>it l. mark_required (l\<lparr>iter := it\<rparr>)) [it 1, it 0, it 1] l))"
  unfolding Let_def
  by (subst required_fields_check)
    (auto simp: iter_field_def field_at_def PB_HTYPE_def PB_HTYPE_REQUIRED_def PB_MAX_REQUIRED_FIELDS_def less_2_cases_iff
       simp del: fold_simps)


section \<open>Base64\<close>

text \<open>C19: The base64 encoder writes the RFC 4648 text with padding and a terminating zero, and
  returns the length of the text, exactly when text and terminator fit the target; otherwise it
  returns -1 and has written nothing outside the target.\<close>

theorem base64_encode:
  assumes "targsize < 2 ^ 31"
  shows "if length (rfc4648 src) < targsize
    then f_b64_ntop src t targsize m = (int (length (rfc4648 src)), mem_write t (rfc4648 src @ [0]) m)
    else \<exists>m'. f_b64_ntop src t targsize m = (- 1, m') \<and> agree_outside {t ..< t + targsize} m m'"
  using ntop_ok [of src targsize t m] ntop_short [of targsize src t m] assms by (auto simp: base64_rfc)

theorem base64_encode_witness:
  "\<forall>m. f_b64_ntop [0x4d] 64 5 m = (4, mem_write 64 ([0x54, 0x51, 0x3d, 0x3d] @ [0]) m) \<and>
   (\<exists>m'. f_b64_ntop [0x4d] 64 4 m = (- 1, m') \<and> agree_outside {64 ..< 64 + 4} m m')"
  (is "\<forall>m. ?P m")
proof
  fix m
  have r: "rfc4648 [0x4d] = [0x54, 0x51, 0x3d, 0x3d]"
    by (simp add: sextets_def group24_def Base64_def Pad64_def)
  show "?P m" using base64_encode [of 5 "[0x4d]" 64 m] base64_encode [of 4 "[0x4d]" 64 m] unfolding r by simp
qed

text \<open>C20: The base64 decoder accepts exactly the RFC 4648 texts, with white space anywhere,
  whose data, and a byte for the unfinished group if there is one, fits the target: it stores the
  data and returns its length. For every other text it returns -1.\<close>

theorem base64_decode:
  assumes "0 \<notin> set s" and "length s < 2 ^ 31" and "t \<noteq> 0"
  shows "if \<exists>d. clean s = rfc4648 d \<and> pton_room d \<le> targsize
    then \<exists>d. clean s = rfc4648 d \<and>
      f_b64_pton s t targsize m = (int (length d), mem_write t (d @ (if 3 dvd length d then [] else [0])) m)
    else fst (f_b64_pton s t targsize m) = - 1"
proof (cases "\<exists>d. clean s = rfc4648 d \<and> pton_room d \<le> targsize")
  case True
  then obtain d where d: "clean s = base64 d" "pton_room d \<le> targsize" by (auto simp: base64_rfc)
  from pton_accepts [OF this assms, of m] d(1) True show ?thesis by (auto simp: base64_rfc)
next
  case False
  then show ?thesis
    using pton_accepted [of s t targsize m, OF prod.collapse [symmetric] _ assms] by (auto simp: base64_rfc)
qed

theorem base64_decode_witness:
  "\<forall>m. \<exists>d. clean [0x54, 0x51, 0x0a, 0x3d, 0x3d] = rfc4648 d \<and>
      f_b64_pton [0x54, 0x51, 0x0a, 0x3d, 0x3d] 64 2 m = (int (length d), mem_write 64 (d @ (if 3 dvd length d then [] else [0])) m)"
  (is "\<forall>m. ?P m")
proof
  fix m
  have "clean [0x54, 0x51, 0x0a, 0x3d, 0x3d] = rfc4648 [0x4d]"
    by (simp add: isspace_def sextets_def group24_def Base64_def Pad64_def)
  moreover have "pton_room [0x4d :: u8] \<le> 2" by (simp add: pton_room_def)
  ultimately have "\<exists>d. clean [0x54, 0x51, 0x0a, 0x3d, 0x3d] = rfc4648 d \<and> pton_room d \<le> 2" by blast
  then show "?P m" using base64_decode [of "[0x54, 0x51, 0x0a, 0x3d, 0x3d]" 64 2 m] by (simp only: if_True) simp
qed

text \<open>C21: What the encoder wrote, the decoder reads back.\<close>

theorem base64_round_trip:
  assumes "length (rfc4648 src) < targsize" and "targsize < 2 ^ 31" and "u \<noteq> 0" and "pton_room src \<le> room"
  shows "\<exists>n m1. f_b64_ntop src t targsize m = (int n, m1) \<and>
    f_b64_pton (mem_read t n m1) u room m2 = (int (length src), mem_write u (src @ (if 3 dvd length src then [] else [0])) m2)"
proof -
  let ?e = "base64 src"
  have e: "f_b64_ntop src t targsize m = (int (length ?e), mem_write t (?e @ [0]) m)"
    using assms by (intro ntop_ok) (simp_all add: base64_rfc)
  have "mem_read t (length ?e) (mem_write t (?e @ [0]) m) = ?e"
    by (auto simp: mem_read_def mem_write_def nth_append intro: nth_equalityI)
  moreover have "\<not> isspace c \<and> c \<noteq> 0" if "c \<in> set ?e" for c
    using that base64_digits_of [of src] digit_char by (fastforce simp: list_all_iff digit_def split: if_splits)
  then have "clean ?e = ?e" "0 \<notin> set ?e" by (auto simp: filter_id_conv)
  ultimately show ?thesis using e assms pton_accepts [of ?e src room u m2]
    by (auto simp: base64_rfc)
qed
theorem base64_round_trip_witness:
  "\<forall>m m2. \<exists>n m1. f_b64_ntop [1, 2, 3, 4] 64 9 m = (int n, m1) \<and>
    f_b64_pton (mem_read 64 n m1) 128 5 m2 = (int (length [1 :: u8, 2, 3, 4]), mem_write 128 ([1, 2, 3, 4] @ [0]) m2)"
  (is "\<forall>m m2. ?P m m2")
proof (intro allI)
  fix m m2
  have "length (rfc4648 [1, 2, 3, 4]) < 9" "pton_room [1, 2, 3, 4 :: u8] \<le> 5"
    by (simp_all add: sextets_def pton_room_def)
  moreover have "length [1 :: u8, 2, 3, 4] = 4" "\<not> 3 dvd (4 :: nat)" by simp_all
  ultimately show "?P m m2" using base64_round_trip [of "[1, 2, 3, 4]" 9 128 5 64 m m2] by (simp only: if_False) simp
qed

section \<open>Assigning teams to judges\<close>

text \<open>A small database for the witnesses.\<close>

definition example_team :: "string \<Rightarrow> string \<times> team" where
  "example_team k = (k, \<lparr>teamId = Some k, team_affinity = None, team_scores = None\<rparr>)"

definition example_root :: "string list \<Rightarrow> root" where
  "example_root ks = \<lparr>judges = Some (\<lambda>_. Some \<lparr>judge_affinity = Some ''None''\<rparr>), teams = map example_team ks,
     scores = Map.empty, judgingQueue = empty_queue\<rparr>"

lemma example_root_sel [simp]:
  "judges (example_root ks) = Some (\<lambda>_. Some \<lparr>judge_affinity = Some ''None''\<rparr>)"
  "old_queue (example_root ks) j = []" "open_slots (example_root ks) j = 3"
  "eligible (example_root ks) j \<lparr>judge_affinity = Some ''None''\<rparr> = map (snd \<circ> example_team) ks"
  "unassigned (example_root ks) j \<lparr>judge_affinity = Some ''None''\<rparr> = map (snd \<circ> example_team) ks"
  "distinct ks \<Longrightarrow> consistent (example_root ks) j"
  by (simp_all add: example_root_def old_queue_def open_slots_def empty_queue_def eligible_def unassigned_def
      is_preferred_def is_scored_def filter_True example_team_def comp_def consistent_def)

text \<open>C6: A run for a known judge returns exactly when the teams its two loops look at can all be added:
  the first loop looks at the first of the sorted unassigned teams, as many as the judge's queue has
  free places, the second at the first of all sorted eligible teams, as many as are still free; ids
  must be present, distinct and not in the queue. Then these ids are appended to the judge's queue
  and marked as assigned to the judge; nothing else changes.\<close>

theorem assignment_outcome:
  assumes "judges root = Some js" and "js j = Some jd"
  shows "processAssignedQueue srt (Some root) j = Some out \<longleftrightarrow>
    (\<exists>ids1 ids2.
       fresh_ids (take (open_slots root j) (srt compare (unassigned root j jd))) (old_queue root j) ids1 \<and>
       fresh_ids (take (open_slots root j - length ids1) (srt compare (eligible root j jd))) (old_queue root j @ ids1) ids2 \<and>
       out = Returned (old_queue root j @ ids1 @ ids2) (Some (extend_queue root j (ids1 @ ids2))))"
  by (rule process_iff [OF assms])

theorem assignment_outcome_witness:
  "processAssignedQueue insertion_sort (Some (example_root [''a'', ''b'', ''c''])) ''j'' =
    Some (Returned [''a'', ''b'', ''c''] (Some (extend_queue (example_root [''a'', ''b'', ''c'']) ''j'' [''a'', ''b'', ''c''])))"
  by (subst assignment_outcome [OF example_root_sel(1) refl])
    (simp, rule exI [of _ "[''a'', ''b'', ''c'']"],
      simp add: insertion_sort_def example_team_def compare_count score_count_def fresh_ids_def)

text \<open>C7: If there are enough unassigned teams the run returns and fills the judge's queue to three,
  with teams that have the fewest scores: no team left over has fewer scores than one chosen.\<close>

theorem fewest_scores_first:
  assumes "sorts srt" and "judges root = Some js" and "js j = Some jd" and "consistent root j"
    and "open_slots root j \<le> length (unassigned root j jd)"
  shows "\<exists>chosen rest ids. mset (unassigned root j jd) = mset (chosen @ rest) \<and>
    (\<forall>t \<in> set chosen. \<forall>u \<in> set rest. score_count t \<le> score_count u) \<and>
    map teamId chosen = map Some ids \<and> length ids = open_slots root j \<and>
    processAssignedQueue srt (Some root) j =
      Some (Returned (old_queue root j @ ids) (Some (extend_queue root j ids)))"
proof -
  let ?F = "srt compare (unassigned root j jd)"
  let ?n = "open_slots root j"
  obtain ids where "processAssignedQueue srt (Some root) j =
      Some (Returned (old_queue root j @ ids) (Some (extend_queue root j ids)))"
    "length ids = ?n" "map teamId (take ?n ?F) = map Some ids"
    using returns_if_enough [OF assms] by blast
  moreover have "sorted_wrt (\<lambda>a b. compare a b \<le> 0) (take ?n ?F @ drop ?n ?F)"
    "mset (unassigned root j jd) = mset (take ?n ?F @ drop ?n ?F)"
    using assms(1) by (simp_all add: sorts_def)
  ultimately show ?thesis
    by (intro exI [of _ "take ?n ?F"] exI [of _ "drop ?n ?F"] exI [of _ ids])
      (auto simp: sorted_wrt_append compare_le simp del: append_take_drop_id)
qed

theorem fewest_scores_first_witness:
  "\<exists>ids. length ids = 3 \<and> processAssignedQueue insertion_sort (Some (example_root [''a'', ''b'', ''c'', ''d''])) ''j'' =
      Some (Returned ids (Some (extend_queue (example_root [''a'', ''b'', ''c'', ''d'']) ''j'' ids)))"
  using fewest_scores_first [OF sorts_insertion_sort example_root_sel(1) refl, of "[''a'', ''b'', ''c'', ''d'']" "''j''"]
  by auto

text \<open>C8: If the unassigned and the eligible teams together are no more than the free places, and an
  eligible team is unassigned or already in the judge's queue, the run never returns: the second
  loop meets a team it cannot add and does not move on.\<close>

theorem assignment_hangs:
  assumes "sorts srt" and "judges root = Some js" and "js j = Some jd"
    and "length (unassigned root j jd) + length (eligible root j jd) \<le> open_slots root j"
    and "t \<in> set (eligible root j jd)"
    and "t \<in> set (unassigned root j jd) \<or> (\<exists>x \<in> set (old_queue root j). teamId t = Some x)"
  shows "processAssignedQueue srt (Some root) j = None"
  by (rule never_returns [OF assms])

theorem assignment_hangs_witness:
  "processAssignedQueue insertion_sort (Some (example_root [''a''])) ''j'' = None"
  by (rule assignment_hangs [OF sorts_insertion_sort example_root_sel(1) refl, where t = "snd (example_team ''a'')"]) simp_all

text \<open>C5: In every reachable state of the system, whatever the engine's sort, the interleaving of calls,
  reads, writes and removals and the other data written by clients, a judge's queue has at most three
  teams, all different.\<close>

theorem queues_bounded:
  assumes "reachable srt s" and "queues (queue_of (db s)) j = Some l"
  shows "length l \<le> 3 \<and> distinct l"
  using reachable_ok [OF assms(1)] assms(2) by (simp add: system_ok_def queue_ok_def)

lemma run_example:
  assumes "d = Some (example_root ks)" "processAssignedQueue srt d j = Some (Returned r w)"
  shows "reachable srt \<lparr>db = write_queue w d, tasks = []\<rparr>"
proof -
  let ?s0 = "\<lparr>db = d, tasks = []\<rparr>"
  have "step srt ?s0 \<lparr>db = d, tasks = [AssignTeams j]\<rparr>"
    using step.call [of "AssignTeams j" j _ srt ?s0] by simp
  moreover have "step srt \<lparr>db = d, tasks = [AssignTeams j]\<rparr> \<lparr>db = d, tasks = [Assigning j d]\<rparr>"
    using step.read_assign [of "\<lparr>db = d, tasks = [AssignTeams j]\<rparr>" "[]" j "[]" srt] by simp
  moreover have "step srt \<lparr>db = d, tasks = [Assigning j d]\<rparr> \<lparr>db = write_queue w d, tasks = []\<rparr>"
    using step.assigned [of "\<lparr>db = d, tasks = [Assigning j d]\<rparr>" "[]" j d "[]" srt r w] assms by simp
  moreover have "start_state ?s0" using assms by (simp add: start_state_def queue_of_def example_root_def)
  ultimately show ?thesis unfolding reachable_def by (meson converse_rtranclp_into_rtranclp rtranclp.rtrancl_refl)
qed

theorem queues_bounded_witness:
  "\<exists>s l. reachable insertion_sort s \<and> queues (queue_of (db s)) ''j'' = Some l \<and> l \<noteq> [] \<and> length l \<le> 3 \<and> distinct l"
proof -
  let ?r = "example_root [''a'', ''b'', ''c'', ''d'']"
  obtain ids where ids: "length ids = 3" "processAssignedQueue insertion_sort (Some ?r) ''j'' =
      Some (Returned ids (Some (extend_queue ?r ''j'' ids)))"
    using returns_if_enough [OF sorts_insertion_sort example_root_sel(1) refl, of "[''a'', ''b'', ''c'', ''d'']" "''j''"] by auto
  let ?s = "\<lparr>db = write_queue (Some (extend_queue ?r ''j'' ids)) (Some ?r), tasks = []\<rparr>"
  have s: "reachable insertion_sort ?s" by (rule run_example [OF refl ids(2)])
  have q: "queues (queue_of (db ?s)) ''j'' = Some ids" by (simp add: extend_queue_def Let_def)
  show ?thesis using queues_bounded [OF s q] s q ids(1) by (intro exI [of _ ?s] exI [of _ ids]) auto
qed

text \<open>C22: Two calls that read the same snapshot lose an update: after both are done the queue of the
  second judge is in the database and the first judge's assignment is gone.\<close>

theorem lost_update:
  assumes "a \<noteq> b" and "processAssignedQueue srt (Some root) a = Some (Returned ra (Some qa))"
    and "processAssignedQueue srt (Some root) b = Some (Returned rb (Some qb))"
    and "tasks s = [Assigning a (Some root), Assigning b (Some root)]"
  shows "\<exists>s'. (step srt)\<^sup>*\<^sup>* s s' \<and> tasks s' = [] \<and> queues qa a = Some ra \<and>
    queues (queue_of (db s')) b = Some rb \<and> queues (queue_of (db s')) a = queues (judgingQueue root) a"
proof -
  let ?s1 = "s\<lparr>tasks := [Assigning b (Some root)], db := write_queue (Some qa) (db s)\<rparr>"
  let ?s2 = "?s1\<lparr>tasks := [], db := write_queue (Some qb) (db ?s1)\<rparr>"
  have "step srt s ?s1"
    using step.assigned [of s "[]" a "Some root" "[Assigning b (Some root)]" srt ra "Some qa"] assms by simp
  moreover have "step srt ?s1 ?s2"
    using step.assigned [of ?s1 "[]" b "Some root" "[]" srt rb "Some qb"] assms by simp
  ultimately have "(step srt)\<^sup>*\<^sup>* s ?s2" by (meson converse_rtranclp_into_rtranclp rtranclp.rtrancl_refl)
  moreover obtain ids where "ra = old_queue root a @ ids" "qa = extend_queue root a ids"
    using process_write [OF assms(2)] by blast
  moreover obtain ids' where "rb = old_queue root b @ ids'" "qb = extend_queue root b ids'"
    using process_write [OF assms(3)] by blast
  ultimately show ?thesis
    using assms(1) by (intro exI [of _ ?s2]) (auto simp: extend_queue_def Let_def)
qed

theorem lost_update_witness:
  "let r = example_root [''a'', ''b'', ''c'']; ids = [''a'', ''b'', ''c'']; s = \<lparr>db = Some r, tasks = [Assigning ''j'' (Some r), Assigning ''k'' (Some r)]\<rparr> in
    \<exists>s'. (step insertion_sort)\<^sup>*\<^sup>* s s' \<and> tasks s' = [] \<and> queues (extend_queue r ''j'' ids) ''j'' = Some ids \<and>
    queues (queue_of (db s')) ''k'' = Some ids \<and> queues (queue_of (db s')) ''j'' = None"
proof -
  let ?r = "example_root [''a'', ''b'', ''c'']"
  let ?ids = "[''a'', ''b'', ''c'']"
  have p: "processAssignedQueue insertion_sort (Some ?r) j = Some (Returned ?ids (Some (extend_queue ?r j ?ids)))" for j
    by (subst process_iff [OF example_root_sel(1) refl])
      (simp, rule exI [of _ ?ids], simp add: insertion_sort_def example_team_def compare_count score_count_def fresh_ids_def)
  have "queues (judgingQueue ?r) ''j'' = None" by (simp add: example_root_def empty_queue_def)
  then show ?thesis
    using lost_update [OF _ p p, of "''j''" "''k''" "\<lparr>db = Some ?r, tasks = [Assigning ''j'' (Some ?r), Assigning ''k'' (Some ?r)]\<rparr>"]
    by (simp add: Let_def)
qed

text \<open>C23: Removing a team from a judge's queue and then reassigning fills the queue up to three again,
  keeping the other teams in their order, if enough unassigned teams are left.\<close>

theorem removal_refills:
  assumes "sorts srt" and "judges root = Some js" and "js j = Some jd" and "consistent root j" and "queue_ok (judgingQueue root)"
    and "filterAssignedQueue (Some root) j t = Some q"
    and "open_slots (root\<lparr>judgingQueue := q\<rparr>) j \<le> length (unassigned (root\<lparr>judgingQueue := q\<rparr>) j jd)"
  shows "\<exists>ids. processAssignedQueue srt (Some (root\<lparr>judgingQueue := q\<rparr>)) j =
      Some (Returned (filter (\<lambda>x. x \<noteq> t) (old_queue root j) @ ids) (Some (extend_queue (root\<lparr>judgingQueue := q\<rparr>) j ids))) \<and>
    length (filter (\<lambda>x. x \<noteq> t) (old_queue root j) @ ids) = 3"
proof -
  let ?r = "root\<lparr>judgingQueue := q\<rparr>"
  have q: "old_queue ?r j = filter (\<lambda>x. x \<noteq> t) (old_queue root j)" "judgeAssigned q = (judgeAssigned (judgingQueue root))(t := None)"
    using assms(6) by (auto simp: filterAssignedQueue_def Let_def old_queue_def)
  have js: "judges ?r = Some js" using assms(2) by simp
  have "consistent ?r j" using assms(4) q by (auto simp: consistent_def)
  moreover have "queue_ok q"
    using filter_ok [OF assms(6)] assms(5) by (simp add: queue_of_def)
  then have "length (old_queue ?r j) \<le> 3" using queue_ok_old [of ?r j] by simp
  moreover obtain ids where "processAssignedQueue srt (Some ?r) j =
      Some (Returned (old_queue ?r j @ ids) (Some (extend_queue ?r j ids)))" "length ids = open_slots ?r j"
    using returns_if_enough [OF assms(1) js assms(3) calculation(1) assms(7)] by auto
  ultimately show ?thesis unfolding q(1) [symmetric] by (auto simp: open_slots_def)
qed

theorem removal_refills_witness:
  "let r = (example_root [''a'', ''b'', ''c'', ''d''])\<lparr>judgingQueue := extend_queue (example_root [''a'', ''b'', ''c'', ''d'']) ''j'' [''a'']\<rparr>;
      q = the (filterAssignedQueue (Some r) ''j'' ''a'') in
    \<exists>ids w. processAssignedQueue insertion_sort (Some (r\<lparr>judgingQueue := q\<rparr>)) ''j'' = Some (Returned ids w) \<and> length ids = 3"
proof -
  let ?e = "example_root [''a'', ''b'', ''c'', ''d'']"
  let ?r = "?e\<lparr>judgingQueue := extend_queue ?e ''j'' [''a'']\<rparr>"
  have old: "old_queue ?r ''j'' = [''a'']" by (simp add: old_queue_def extend_queue_def Let_def example_root_def empty_queue_def)
  have r: "judges ?r = Some (\<lambda>_. Some \<lparr>judge_affinity = Some ''None''\<rparr>)" "consistent ?r ''j''" "queue_ok (judgingQueue ?r)"
    using old by (auto simp: consistent_def queue_ok_def example_root_def example_team_def extend_queue_def Let_def assign_all_def
        empty_queue_def old_queue_def)
  obtain q where q: "filterAssignedQueue (Some ?r) ''j'' ''a'' = Some q" by (simp add: filterAssignedQueue_def Let_def)
  have "length (unassigned (?r\<lparr>judgingQueue := q\<rparr>) ''j'' \<lparr>judge_affinity = Some ''None''\<rparr>) = 4"
    using q by (auto simp: filterAssignedQueue_def Let_def unassigned_def example_root_def example_team_def is_preferred_def
        is_scored_def extend_queue_def assign_all_def empty_queue_def)
  then have "open_slots (?r\<lparr>judgingQueue := q\<rparr>) ''j'' \<le> length (unassigned (?r\<lparr>judgingQueue := q\<rparr>) ''j'' \<lparr>judge_affinity = Some ''None''\<rparr>)"
    by (simp add: open_slots_def)
  from removal_refills [OF sorts_insertion_sort r(1) refl r(2,3) q this] q show ?thesis
    by (auto simp: Let_def)
qed

end
